(* ===== verification/Prelude.thy ===== *)
theory Prelude
  imports Main "HOL-Library.Word"
begin

text \<open>
  What the components share: results with errors as values, open files with a byte
  position, C strings, decimal printing and scanning (\<^verbatim>\<open>sprintf\<close>, \<^verbatim>\<open>atol\<close>), and the
  generic lemmas on lists the component proofs use. Bytes are \<^typ>\<open>char\<close>, files and
  buffers are \<^typ>\<open>string\<close>; a C string is the list of its bytes before the null byte.
\<close>

named_theorems file_simps \<open>how the file operations act on a concrete file\<close>
named_theorems bnd_simps \<open>how results compose\<close>

section \<open>Results\<close>

text \<open>
  A call either leaves through one of the fatal error routines of \<^verbatim>\<open>lib/error.c\<close> (which
  never return) or returns. \<open>Diverges\<close> stands for a loop that never ends and
  \<open>Undefined\<close> for what C leaves undefined, such as an access past the end of a buffer or the overflow of an \<^verbatim>\<open>int\<close>.
\<close>

datatype errno = ENONE | EINVAL | ENOENT | ENOMEM | EBADF | EIO | ETIME | EMFILE | EINTR | EAGAIN | EOTHER nat

datatype fatal =
    Err_dump string
  | Err_sys string
  | Err_quit string
  | Err_exit errno string
  | Undefined string
  | Diverges

type_synonym 'a res = "fatal + 'a"

definition bnd :: "'e + 'a \<Rightarrow> ('a \<Rightarrow> 'e + 'b) \<Rightarrow> 'e + 'b" where
  "bnd m f = (case m of Inl e \<Rightarrow> Inl e | Inr x \<Rightarrow> f x)"

lemma bnd_Inl [simp, bnd_simps]: "bnd (Inl e) f = Inl e"
  by (simp add: bnd_def)

lemma bnd_Inr [simp, bnd_simps]: "bnd (Inr x) f = f x"
  by (simp add: bnd_def)

lemma bnd_eq_Inr_iff: "bnd m f = Inr y \<longleftrightarrow> (\<exists>x. m = Inr x \<and> f x = Inr y)"
  by (cases m) auto

lemma bnd_eq_Inl_iff:
  "bnd m f = Inl e \<longleftrightarrow> m = Inl e \<or> (\<exists>x. m = Inr x \<and> f x = Inl e)"
  by (cases m) auto

lemma bnd_cong [fundef_cong]:
  "m = m' \<Longrightarrow> (\<And>x. m' = Inr x \<Longrightarrow> f x = g x) \<Longrightarrow> bnd m f = bnd m' g"
  by (cases m') auto

text \<open>The size of a line buffer, from \<^verbatim>\<open>include/apue.h\<close>.\<close>

definition MAXLINE :: nat where "MAXLINE = 4096"

section \<open>Characters\<close>

abbreviation NUL :: char where "NUL \<equiv> CHR 0x00"
abbreviation NL :: char where "NL \<equiv> CHR 0x0A"
abbreviation SPACE :: char where "SPACE \<equiv> CHR 0x20"

definition isspace :: "char \<Rightarrow> bool" where
  "isspace c \<longleftrightarrow> c = SPACE \<or> c = CHR 0x09 \<or> c = NL \<or> c = CHR 0x0B \<or> c = CHR 0x0C \<or> c = CHR 0x0D"

definition isdigit :: "char \<Rightarrow> bool" where
  "isdigit c \<longleftrightarrow> 48 \<le> (of_char c :: nat) \<and> (of_char c :: nat) \<le> 57"

definition digit :: "nat \<Rightarrow> char" where
  "digit n = char_of (48 + n)"

text \<open>\<^verbatim>\<open>char\<close> is signed on the platforms the sources are built for.\<close>

definition schar :: "char \<Rightarrow> int" where
  "schar c = (if (of_char c :: int) < 128 then of_char c else of_char c - 256)"

lemma of_char_digit [simp]: "n < 10 \<Longrightarrow> (of_char (digit n) :: nat) = 48 + n"
  by (simp add: digit_def of_char_of)

lemma isdigit_digit [simp]: "n < 10 \<Longrightarrow> isdigit (digit n)"
  by (simp add: isdigit_def)

lemma isdigit_not_isspace: "isdigit c \<Longrightarrow> \<not> isspace c"
  by (auto simp: isdigit_def isspace_def)

lemma isdigit_neq [simp]:
  "isdigit c \<Longrightarrow> c \<noteq> NUL" "isdigit c \<Longrightarrow> c \<noteq> CHR '':''" "isdigit c \<Longrightarrow> c \<noteq> CHR ''-''"
  "isdigit c \<Longrightarrow> c \<noteq> CHR ''+''" "isdigit c \<Longrightarrow> c \<noteq> NL" "isdigit c \<Longrightarrow> c \<noteq> SPACE"
  by (auto simp: isdigit_def)

lemma not_isdigit_consts [simp]:
  "\<not> isdigit NUL" "\<not> isdigit NL" "\<not> isdigit SPACE" "\<not> isdigit CHR '':''"
  by (simp_all add: isdigit_def)

lemma isspace_SPACE [simp]: "isspace SPACE"
  by (simp add: isspace_def)

section \<open>Decimal numbers\<close>

text \<open>The digits \<^verbatim>\<open>sprintf("%ld")\<close> writes for a number that is not negative.\<close>

fun dec :: "nat \<Rightarrow> string" where
  "dec n = (if n < 10 then [digit n] else dec (n div 10) @ [digit (n mod 10)])"

declare dec.simps [simp del]

text \<open>\<^verbatim>\<open>"%d"\<close> of any number, and right justification in a field (\<^verbatim>\<open>"%*d"\<close>).\<close>

definition sprint_int :: "int \<Rightarrow> string" where
  "sprint_int i = (if i < 0 then CHR ''-'' # dec (nat (- i)) else dec (nat i))"

definition padl :: "nat \<Rightarrow> string \<Rightarrow> string" where
  "padl w s = replicate (w - length s) SPACE @ s"

fun digs :: "nat \<Rightarrow> string \<Rightarrow> nat" where
  "digs a [] = a"
| "digs a (c # cs) = (if isdigit c then digs (10 * a + (of_char c - 48)) cs else a)"

text \<open>
  \<^verbatim>\<open>atol\<close>/\<^verbatim>\<open>atoi\<close>: leading white space, an optional sign, then digits up to the first byte
  that is none. Numbers too big for the result type (undefined in C) keep their value.
\<close>

definition atol :: "string \<Rightarrow> int" where
  "atol s = (case dropWhile isspace s of
       [] \<Rightarrow> 0
     | c # r \<Rightarrow> if c = CHR ''-'' then - int (digs 0 r)
              else if c = CHR ''+'' then int (digs 0 r)
              else int (digs 0 (c # r)))"

lemma dec_nonempty [simp]: "dec n \<noteq> []"
  by (subst dec.simps) simp

lemma dec_isdigit: "c \<in> set (dec n) \<Longrightarrow> isdigit c"
proof (induction n rule: dec.induct)
  case (1 n)
  then show ?case by (auto simp: dec.simps [of n] split: if_splits)
qed

lemma digs_append:
  "\<forall>c \<in> set s. isdigit c \<Longrightarrow> digs a (s @ t) = digs (digs a s) t"
  by (induction s arbitrary: a) auto

lemma digs_dec [simp]: "digs 0 (dec n) = n"
proof (induction n rule: dec.induct)
  case (1 n)
  show ?case
  proof (cases "n < 10")
    case True
    then show ?thesis by (simp add: dec.simps [of n])
  next
    case False
    have "digs 0 (dec (n div 10) @ [digit (n mod 10)]) = digs (n div 10) [digit (n mod 10)]"
      using 1 [OF False] by (subst digs_append) (auto dest: dec_isdigit)
    then show ?thesis using False by (simp add: dec.simps [of n])
  qed
qed

lemma digs_stop: "\<not> isdigit c \<Longrightarrow> digs a (c # t) = a"
  by simp

lemma digs_dec_append:
  "t = [] \<or> \<not> isdigit (hd t) \<Longrightarrow> digs 0 (dec n @ t) = n"
  by (subst digs_append) (cases t; auto dest: dec_isdigit)+

lemma hd_dec: "isdigit (hd (dec n))"
  by (rule dec_isdigit [of _ n]) (simp add: hd_in_set)

lemma dropWhile_replicate_SPACE [simp]:
  "dropWhile isspace (replicate k SPACE @ s) = dropWhile isspace s"
  by (induction k) auto

lemma atol_padl_append:
  assumes "t = [] \<or> \<not> isdigit (hd t)"
  shows "atol (padl w (dec n) @ t) = int n"
proof -
  obtain c r where cr: "dec n = c # r" by (cases "dec n") auto
  then have c: "isdigit c" using hd_dec [of n] by simp
  then have "dropWhile isspace (padl w (dec n) @ t) = dec n @ t"
    by (simp add: padl_def cr isdigit_not_isspace)
  moreover have "digs 0 (dec n @ t) = n" using assms by (rule digs_dec_append)
  ultimately show ?thesis using c cr by (simp add: atol_def)
qed

lemma atol_padl [simp]: "atol (padl w (dec n)) = int n"
  using atol_padl_append [of "[]"] by simp

lemma atol_dec [simp]: "atol (dec n) = int n"
  using atol_padl_append [of "[]" 0 n] by (simp add: padl_def)

lemma atol_dec_append: "t = [] \<or> \<not> isdigit (hd t) \<Longrightarrow> atol (dec n @ t) = int n"
  using atol_padl_append [of t 0 n] by (simp add: padl_def)

lemma length_padl: "length (padl w s) = max w (length s)"
  by (simp add: padl_def)

lemma length_dec_le: "n < 10 ^ k \<Longrightarrow> 0 < k \<Longrightarrow> length (dec n) \<le> k"
proof (induction k arbitrary: n)
  case 0
  then show ?case by simp
next
  case (Suc k)
  show ?case
  proof (cases "n < 10")
    case True
    then show ?thesis by (simp add: dec.simps [of n])
  next
    case False
    with Suc.prems have "0 < k" by (cases k) auto
    moreover have "n div 10 < 10 ^ k" using Suc.prems by (simp add: less_mult_imp_div_less mult.commute)
    ultimately have "length (dec (n div 10)) \<le> k" by (rule Suc.IH [rotated])
    then show ?thesis using False by (simp add: dec.simps [of n])
  qed
qed

lemma length_dec_pos [simp]: "0 < length (dec n)"
  by simp

lemma dec_inj [simp]: "dec m = dec n \<longleftrightarrow> m = n"
  by (metis digs_dec)

section \<open>C strings\<close>

text \<open>A byte list holds a C string: the bytes before the first null byte.\<close>

definition cstr :: "string \<Rightarrow> string" where
  "cstr b = takeWhile (\<lambda>c. c \<noteq> NUL) b"

definition is_cstr :: "string \<Rightarrow> bool" where
  "is_cstr s \<longleftrightarrow> NUL \<notin> set s"

lemma cstr_append_NUL [simp]: "is_cstr s \<Longrightarrow> cstr (s @ NUL # t) = s"
  by (simp add: cstr_def is_cstr_def takeWhile_append)

lemma cstr_id [simp]: "is_cstr s \<Longrightarrow> cstr s = s"
  by (auto simp: cstr_def is_cstr_def takeWhile_eq_all_conv)

lemma is_cstr_cstr [simp]: "is_cstr (cstr b)"
  by (auto simp: is_cstr_def cstr_def dest: set_takeWhileD)

lemma is_cstr_dec [simp]: "is_cstr (dec n)"
  by (auto simp: is_cstr_def dest: dec_isdigit)

lemma is_cstr_append [simp]: "is_cstr (s @ t) \<longleftrightarrow> is_cstr s \<and> is_cstr t"
  by (auto simp: is_cstr_def)

lemma is_cstr_Cons [simp]: "is_cstr (c # t) \<longleftrightarrow> c \<noteq> NUL \<and> is_cstr t"
  by (auto simp: is_cstr_def)

lemma is_cstr_Nil [simp]: "is_cstr []"
  by (simp add: is_cstr_def)

text \<open>\<^verbatim>\<open>strchr\<close>: the index of a byte in a C string.\<close>

fun strchr :: "string \<Rightarrow> char \<Rightarrow> nat option" where
  "strchr [] c = None"
| "strchr (x # xs) c =
     (if x = c then Some 0 else if x = NUL then None else map_option Suc (strchr xs c))"

lemma strchr_first: "c \<notin> set s \<Longrightarrow> is_cstr s \<Longrightarrow> strchr (s @ c # t) c = Some (length s)"
  by (induction s) auto

lemma strchr_none: "c \<notin> set s \<Longrightarrow> is_cstr s \<Longrightarrow> strchr s c = None"
  by (induction s) auto

section \<open>Open files\<close>

text \<open>
  A file and the offset of the descriptor it is open on. Reading at the end of the file
  returns fewer bytes, writing past the end fills the gap with null bytes.
\<close>

record ofile =
  fdata :: string
  fpos :: nat

definition fsize :: "ofile \<Rightarrow> nat" where
  "fsize f = length (fdata f)"

datatype whence = SEEK_SET | SEEK_CUR | SEEK_END

text \<open>\<^verbatim>\<open>lseek\<close>: the new offset and the file, or nothing when the offset would be negative.\<close>

definition lseek :: "ofile \<Rightarrow> int \<Rightarrow> whence \<Rightarrow> (int \<times> ofile) option" where
  "lseek f off wh =
     (let p = (case wh of SEEK_SET \<Rightarrow> off | SEEK_CUR \<Rightarrow> int (fpos f) + off
                        | SEEK_END \<Rightarrow> int (fsize f) + off)
      in if p < 0 then None else Some (p, f\<lparr>fpos := nat p\<rparr>))"

definition fread :: "ofile \<Rightarrow> nat \<Rightarrow> string \<times> ofile" where
  "fread f n = (let b = take n (drop (fpos f) (fdata f)) in (b, f\<lparr>fpos := fpos f + length b\<rparr>))"

definition fsplice :: "string \<Rightarrow> nat \<Rightarrow> string \<Rightarrow> string" where
  "fsplice d p b = take p (d @ replicate (p - length d) NUL) @ b @ drop (p + length b) d"

definition fwrite :: "ofile \<Rightarrow> string \<Rightarrow> ofile" where
  "fwrite f b = f\<lparr>fdata := fsplice (fdata f) (fpos f) b, fpos := fpos f + length b\<rparr>"

lemma lseek_set [simp, file_simps]: "lseek f (int n) SEEK_SET = Some (int n, f\<lparr>fpos := n\<rparr>)"
  by (simp add: lseek_def)

lemma lseek_set0 [simp, file_simps]: "lseek f 0 SEEK_SET = Some (0, f\<lparr>fpos := 0\<rparr>)"
  using lseek_set [of f 0] by simp

lemma lseek_end [simp, file_simps]:
  "lseek f 0 SEEK_END = Some (int (fsize f), f\<lparr>fpos := fsize f\<rparr>)"
  by (simp add: lseek_def)

lemma lseek_cur [simp, file_simps]: "lseek f 0 SEEK_CUR = Some (int (fpos f), f)"
  by (simp add: lseek_def)

lemma fread_at:
  assumes "fdata f = A @ b @ B" "fpos f = length A" "n = length b"
  shows "fread f n = (b, f\<lparr>fpos := length A + length b\<rparr>)"
  using assms by (simp add: fread_def)

lemma fsplice_at:
  "length b = length b' \<Longrightarrow> fsplice (A @ b @ B) (length A) b' = A @ b' @ B"
  by (simp add: fsplice_def)

lemma fsplice_end: "fsplice A (length A) b = A @ b"
  by (simp add: fsplice_def)

lemma length_fsplice: "p \<le> length d \<Longrightarrow> length (fsplice d p b) = max (length d) (p + length b)"
  by (simp add: fsplice_def)

section \<open>Lists\<close>

lemma list_split_nth: "i < length xs \<Longrightarrow> xs = take i xs @ xs ! i # drop (Suc i) xs"
  by (rule id_take_nth_drop)

lemma list_update_split:
  "i < length xs \<Longrightarrow> xs[i := y] = take i xs @ y # drop (Suc i) xs"
  by (rule upd_conv_take_nth_drop)

end
