(* ===== verification/Apue_Db.thy ===== *)
theory Apue_Db
  imports Prelude
begin

text \<open>
  The database library \<^verbatim>\<open>original-src/apue.3e/db/db.c\<close>, operation by operation and byte by
  byte. A database is two files: the index file (a free list pointer and a hash table of
  chain pointers in ASCII, a newline, then the index records) and the data file. The model
  keeps the two files as byte lists with the offset of their descriptors, every field of
  the \<^verbatim>\<open>DB\<close> structure, \<^verbatim>\<open>errno\<close>, and the record locks the process holds, byte by byte.
  The fatal exits are the \<open>Inl\<close> results. Locks are waited for (\<^verbatim>\<open>F_SETLKW\<close>), so a request
  is granted; a system call that fails for a reason outside the files is not modelled.
\<close>

section \<open>Constants and the DB structure\<close>

definition IDXLEN_SZ :: nat where "IDXLEN_SZ = 4"
definition SEP :: char where "SEP = CHR '':''"
definition PTR_SZ :: nat where "PTR_SZ = 7"
definition PTR_MAX :: int where "PTR_MAX = 9999999"
definition NHASH_DEF :: nat where "NHASH_DEF = 137"
definition FREE_OFF :: int where "FREE_OFF = 0"
definition HASH_OFF :: int where "HASH_OFF = int PTR_SZ"

definition DB_INSERT :: int where "DB_INSERT = 1"
definition DB_REPLACE :: int where "DB_REPLACE = 2"
definition DB_STORE :: int where "DB_STORE = 3"

definition IDXLEN_MIN :: nat where "IDXLEN_MIN = 6"
definition IDXLEN_MAX :: nat where "IDXLEN_MAX = 1024"
definition DATLEN_MIN :: nat where "DATLEN_MIN = 2"
definition DATLEN_MAX :: nat where "DATLEN_MAX = 1024"

lemmas db_consts =
  IDXLEN_SZ_def SEP_def PTR_SZ_def PTR_MAX_def NHASH_DEF_def FREE_OFF_def HASH_OFF_def
  DB_INSERT_def DB_REPLACE_def DB_STORE_def IDXLEN_MIN_def IDXLEN_MAX_def DATLEN_MIN_def
  DATLEN_MAX_def

datatype lfile = IdxFile | DatFile
datatype lockt = RDLCK | WRLCK

record DB =
  idxfd :: ofile
  datfd :: ofile
  idxbuf :: string
  datbuf :: string
  dbname :: string
  idxoff :: int
  idxlen :: nat
  datoff :: int
  datlen :: nat
  ptrval :: int
  ptroff :: int
  chainoff :: int
  hashoff :: int
  nhash :: nat
  cnt_delok :: "64 word"
  cnt_delerr :: "64 word"
  cnt_fetchok :: "64 word"
  cnt_fetcherr :: "64 word"
  cnt_nextrec :: "64 word"
  cnt_stor1 :: "64 word"
  cnt_stor2 :: "64 word"
  cnt_stor3 :: "64 word"
  cnt_stor4 :: "64 word"
  cnt_storerr :: "64 word"
  db_errno :: errno
  held :: "lfile \<Rightarrow> nat \<Rightarrow> lockt option"

section \<open>Record locks\<close>

text \<open>
  \<^verbatim>\<open>lock_reg\<close> sets or clears a lock on a region of a file; a length of 0 reaches to the end
  of the file, however far it grows. The locks of one process never conflict with each
  other: a new lock on a byte replaces the old one.
\<close>

definition lock_reg :: "lockt option \<Rightarrow> lfile \<Rightarrow> int \<Rightarrow> nat \<Rightarrow> DB \<Rightarrow> DB" where
  "lock_reg t f off len db = db\<lparr>held := (\<lambda>g b.
     if g = f \<and> off \<le> int b \<and> (len = 0 \<or> int b < off + int len) then t else held db g b)\<rparr>"

abbreviation readw_lock :: "lfile \<Rightarrow> int \<Rightarrow> nat \<Rightarrow> DB \<Rightarrow> DB" where
  "readw_lock \<equiv> lock_reg (Some RDLCK)"
abbreviation writew_lock :: "lfile \<Rightarrow> int \<Rightarrow> nat \<Rightarrow> DB \<Rightarrow> DB" where
  "writew_lock \<equiv> lock_reg (Some WRLCK)"
abbreviation un_lock :: "lfile \<Rightarrow> int \<Rightarrow> nat \<Rightarrow> DB \<Rightarrow> DB" where
  "un_lock \<equiv> lock_reg None"

section \<open>Internal functions\<close>

text \<open>\<^verbatim>\<open>_db_alloc\<close>: \<^verbatim>\<open>calloc\<close> zeroes every field; the descriptors are set by \<^verbatim>\<open>db_open\<close>.\<close>

definition db_alloc :: DB where
  "db_alloc = \<lparr>idxfd = \<lparr>fdata = [], fpos = 0\<rparr>, datfd = \<lparr>fdata = [], fpos = 0\<rparr>,
     idxbuf = [], datbuf = [], dbname = [], idxoff = 0, idxlen = 0, datoff = 0, datlen = 0,
     ptrval = 0, ptroff = 0, chainoff = 0, hashoff = 0, nhash = 0,
     cnt_delok = 0, cnt_delerr = 0, cnt_fetchok = 0, cnt_fetcherr = 0, cnt_nextrec = 0,
     cnt_stor1 = 0, cnt_stor2 = 0, cnt_stor3 = 0, cnt_stor4 = 0, cnt_storerr = 0,
     db_errno = ENONE, held = (\<lambda>_ _. None)\<rparr>"

text \<open>
  \<^verbatim>\<open>_db_hash\<close>: each byte (a signed char) times its index from 1, summed in an unsigned long.
\<close>

fun db_hash_loop :: "string \<Rightarrow> int \<Rightarrow> 64 word \<Rightarrow> 64 word" where
  "db_hash_loop [] i hval = hval"
| "db_hash_loop (c # key) i hval = db_hash_loop key (i + 1) (hval + word_of_int (schar c * i))"

definition db_hash :: "DB \<Rightarrow> string \<Rightarrow> nat" where
  "db_hash db key = unat (db_hash_loop key 1 0) mod nhash db"

definition db_readptr :: "DB \<Rightarrow> int \<Rightarrow> (int \<times> DB) res" where
  "db_readptr db off =
     (case lseek (idxfd db) off SEEK_SET of
        None \<Rightarrow> Inl (Err_dump ''_db_readptr: lseek error to ptr field'')
      | Some (_, f) \<Rightarrow>
          (case fread f PTR_SZ of (asciiptr, f') \<Rightarrow>
             if length asciiptr \<noteq> PTR_SZ
             then Inl (Err_dump ''_db_readptr: read error of ptr field'')
             else Inr (atol asciiptr, db\<lparr>idxfd := f'\<rparr>)))"

text \<open>
  The tail of \<^verbatim>\<open>_db_readidx\<close>: the record is in the buffer, its newline replaced by a null
  byte; find the two separators and read the data offset and length behind them.
\<close>

definition db_parseidx :: "string \<Rightarrow> (string \<times> int \<times> nat) res" where
  "db_parseidx buf =
     (case strchr buf SEP of
        None \<Rightarrow> Inl (Err_dump ''_db_readidx: missing first separator'')
      | Some i1 \<Rightarrow>
          let ptr1 = drop (Suc i1) buf
          in (case strchr ptr1 SEP of
                None \<Rightarrow> Inl (Err_dump ''_db_readidx: missing second separator'')
              | Some i2 \<Rightarrow>
                  let ptr2 = drop (Suc i2) ptr1
                  in if strchr ptr2 SEP \<noteq> None
                     then Inl (Err_dump ''_db_readidx: too many separators'')
                     else let off = atol (take i2 ptr1); len = atol (cstr ptr2)
                          in if off < 0
                             then Inl (Err_dump ''_db_readidx: starting offset < 0'')
                             else if len \<le> 0 \<or> int DATLEN_MAX < len
                             then Inl (Err_dump ''_db_readidx: invalid length'')
                             else Inr (take i1 buf, off, nat len)))"

definition db_readidx :: "DB \<Rightarrow> int \<Rightarrow> (int \<times> DB) res" where
  "db_readidx db offset =
     (case lseek (idxfd db) offset (if offset = 0 then SEEK_CUR else SEEK_SET) of
        None \<Rightarrow> Inl (Err_dump ''_db_readidx: lseek error'')
      | Some (p, f) \<Rightarrow>
          (case fread f (PTR_SZ + IDXLEN_SZ) of (b, f1) \<Rightarrow>
             if length b \<noteq> PTR_SZ + IDXLEN_SZ
             then if b = [] \<and> offset = 0 then Inr (- 1, db\<lparr>idxfd := f1, idxoff := p\<rparr>)
                  else Inl (Err_dump ''_db_readidx: readv error of index record'')
             else
               let pv = atol (take PTR_SZ b); il = atol (drop PTR_SZ b)
               in if il < int IDXLEN_MIN \<or> int IDXLEN_MAX < il
                  then Inl (Err_dump ''_db_readidx: invalid length'')
                  else (case fread f1 (nat il) of (r, f2) \<Rightarrow>
                    if length r \<noteq> nat il
                    then Inl (Err_dump ''_db_readidx: read error of index record'')
                    else if last r \<noteq> NL
                    then Inl (Err_dump ''_db_readidx: missing newline'')
                    else bnd (db_parseidx (butlast r @ [NUL])) (\<lambda>(key, off, len).
                      Inr (pv, db\<lparr>idxfd := f2, idxoff := p, ptrval := pv, idxlen := nat il,
                                 idxbuf := key, datoff := off, datlen := len\<rparr>)))))"

definition db_readdat :: "DB \<Rightarrow> (string \<times> DB) res" where
  "db_readdat db =
     (case lseek (datfd db) (datoff db) SEEK_SET of
        None \<Rightarrow> Inl (Err_dump ''_db_readdat: lseek error'')
      | Some (_, f) \<Rightarrow>
          (case fread f (datlen db) of (b, f') \<Rightarrow>
             if length b \<noteq> datlen db then Inl (Err_dump ''_db_readdat: read error'')
             else if last b \<noteq> NL then Inl (Err_dump ''_db_readdat: missing newline'')
             else let d = cstr (butlast b @ [NUL]) in Inr (d, db\<lparr>datfd := f', datbuf := d\<rparr>)))"

definition db_writedat :: "DB \<Rightarrow> string \<Rightarrow> int \<Rightarrow> whence \<Rightarrow> DB res" where
  "db_writedat db data offset wh =
     (let db1 = (if wh = SEEK_END then writew_lock DatFile 0 0 db else db)
      in case lseek (datfd db1) offset wh of
           None \<Rightarrow> Inl (Err_dump ''_db_writedat: lseek error'')
         | Some (p, f) \<Rightarrow>
             let db2 = db1\<lparr>datfd := fwrite f (data @ [NL]), datoff := p, datlen := length data + 1\<rparr>
             in Inr (if wh = SEEK_END then un_lock DatFile 0 0 db2 else db2))"

text \<open>
  \<^verbatim>\<open>_db_writeidx\<close> formats the record into \<^verbatim>\<open>idxbuf\<close>, a buffer of \<^verbatim>\<open>IDXLEN_MAX + 2\<close> bytes,
  before it checks the length.
\<close>

definition db_writeidx :: "DB \<Rightarrow> string \<Rightarrow> int \<Rightarrow> whence \<Rightarrow> int \<Rightarrow> DB res" where
  "db_writeidx db key offset wh pv =
     (if pv < 0 \<or> PTR_MAX < pv
      then Inl (Err_quit (''_db_writeidx: invalid ptr: '' @ sprint_int pv))
      else
        let buf = key @ [SEP] @ sprint_int (datoff db) @ [SEP] @ dec (datlen db) @ [NL];
            len = length buf
        in if IDXLEN_MAX + 2 < len + 1 then Inl (Undefined ''_db_writeidx: idxbuf'')
           else if len < IDXLEN_MIN \<or> IDXLEN_MAX < len
           then Inl (Err_dump ''_db_writeidx: invalid length'')
           else
             let asciiptrlen = padl PTR_SZ (sprint_int pv) @ padl IDXLEN_SZ (dec len);
                 app = (nhash db + 1) * PTR_SZ + 1;
                 db1 = (if wh = SEEK_END then writew_lock IdxFile (int app) 0 db else db)
             in case lseek (idxfd db1) offset wh of
                  None \<Rightarrow> Inl (Err_dump ''_db_writeidx: lseek error'')
                | Some (p, f) \<Rightarrow>
                    let db2 = db1\<lparr>idxfd := fwrite f (asciiptrlen @ buf), idxbuf := buf,
                                   idxoff := p, ptrval := pv\<rparr>
                    in Inr (if wh = SEEK_END then un_lock IdxFile (int app) 0 db2 else db2))"

definition db_writeptr :: "DB \<Rightarrow> int \<Rightarrow> int \<Rightarrow> DB res" where
  "db_writeptr db offset pv =
     (if pv < 0 \<or> PTR_MAX < pv
      then Inl (Err_quit (''_db_writeptr: invalid ptr: '' @ sprint_int pv))
      else case lseek (idxfd db) offset SEEK_SET of
             None \<Rightarrow> Inl (Err_dump ''_db_writeptr: lseek error to ptr field'')
           | Some (_, f) \<Rightarrow> Inr (db\<lparr>idxfd := fwrite f (padl PTR_SZ (sprint_int pv))\<rparr>))"

text \<open>
  The search loop of \<^verbatim>\<open>_db_find_and_lock\<close>. A chain of a damaged index file can be a cycle,
  so the loop takes fuel. Every offset it reads at lies inside the file, so after as many
  rounds as the file has bytes an offset has come back and the loop never ends.
\<close>

fun db_find_loop :: "nat \<Rightarrow> DB \<Rightarrow> string \<Rightarrow> int \<Rightarrow> (int \<times> DB) res" where
  "db_find_loop n db key offset =
     (if offset = 0 then Inr (0, db)
      else case n of
        0 \<Rightarrow> Inl Diverges
      | Suc n' \<Rightarrow>
          bnd (db_readidx db offset) (\<lambda>(nextoffset, db').
            if idxbuf db' = key then Inr (offset, db')
            else db_find_loop n' (db'\<lparr>ptroff := offset\<rparr>) key nextoffset))"

declare db_find_loop.simps [simp del]

definition db_find_and_lock :: "DB \<Rightarrow> string \<Rightarrow> bool \<Rightarrow> (int \<times> DB) res" where
  "db_find_and_lock db key writelock =
     (let co = int (db_hash db key * PTR_SZ) + hashoff db;
          db1 = db\<lparr>chainoff := co, ptroff := co\<rparr>;
          db2 = (if writelock then writew_lock IdxFile co 1 db1 else readw_lock IdxFile co 1 db1)
      in bnd (db_readptr db2 (ptroff db2)) (\<lambda>(offset, db3).
         bnd (db_find_loop (Suc (fsize (idxfd db3))) db3 key offset) (\<lambda>(off', db4).
         Inr (if off' = 0 then - 1 else 0, db4))))"

definition db_dodelete :: "DB \<Rightarrow> DB res" where
  "db_dodelete db =
     (let db1 = writew_lock IdxFile FREE_OFF 1
                  (db\<lparr>datbuf := replicate (datlen db - 1) SPACE,
                      idxbuf := replicate (length (idxbuf db)) SPACE\<rparr>)
      in bnd (db_writedat db1 (datbuf db1) (datoff db1) SEEK_SET) (\<lambda>db2.
         bnd (db_readptr db2 FREE_OFF) (\<lambda>(freeptr, db3).
         let saveptr = ptrval db3
         in bnd (db_writeidx db3 (idxbuf db3) (idxoff db3) SEEK_SET freeptr) (\<lambda>db4.
            bnd (db_writeptr db4 FREE_OFF (idxoff db4)) (\<lambda>db5.
            bnd (db_writeptr db5 (ptroff db5) saveptr) (\<lambda>db6.
            Inr (un_lock IdxFile FREE_OFF 1 db6)))))))"

fun db_findfree_loop :: "nat \<Rightarrow> DB \<Rightarrow> nat \<Rightarrow> nat \<Rightarrow> int \<Rightarrow> int \<Rightarrow> (int \<times> int \<times> DB) res" where
  "db_findfree_loop n db keylen dlen saveoffset offset =
     (if offset = 0 then Inr (saveoffset, 0, db)
      else case n of
        0 \<Rightarrow> Inl Diverges
      | Suc n' \<Rightarrow>
          bnd (db_readidx db offset) (\<lambda>(nextoffset, db').
            if length (idxbuf db') = keylen \<and> datlen db' = dlen then Inr (saveoffset, offset, db')
            else db_findfree_loop n' db' keylen dlen offset nextoffset))"

declare db_findfree_loop.simps [simp del]

definition db_findfree :: "DB \<Rightarrow> nat \<Rightarrow> nat \<Rightarrow> (int \<times> DB) res" where
  "db_findfree db keylen dlen =
     (let db1 = writew_lock IdxFile FREE_OFF 1 db
      in bnd (db_readptr db1 FREE_OFF) (\<lambda>(offset, db2).
         bnd (db_findfree_loop (Suc (fsize (idxfd db2))) db2 keylen dlen FREE_OFF offset)
           (\<lambda>(saveoffset, off', db3).
         if off' = 0 then Inr (- 1, un_lock IdxFile FREE_OFF 1 db3)
         else bnd (db_writeptr db3 saveoffset (ptrval db3)) (\<lambda>db4.
              Inr (0, un_lock IdxFile FREE_OFF 1 db4)))))"

section \<open>The interface\<close>

definition db_fetch :: "DB \<Rightarrow> string \<Rightarrow> (string option \<times> DB) res" where
  "db_fetch db key =
     bnd (db_find_and_lock db key False) (\<lambda>(rc, db1).
     bnd (if rc < 0 then Inr (None, db1\<lparr>cnt_fetcherr := cnt_fetcherr db1 + 1\<rparr>)
          else bnd (db_readdat db1) (\<lambda>(ptr, db2).
               Inr (Some ptr, db2\<lparr>cnt_fetchok := cnt_fetchok db2 + 1\<rparr>)))
       (\<lambda>(ptr, db3). Inr (ptr, un_lock IdxFile (chainoff db3) 1 db3)))"

definition db_delete :: "DB \<Rightarrow> string \<Rightarrow> (int \<times> DB) res" where
  "db_delete db key =
     bnd (db_find_and_lock db key True) (\<lambda>(rc, db1).
     bnd (if rc = 0 then bnd (db_dodelete db1) (\<lambda>db2. Inr (0, db2\<lparr>cnt_delok := cnt_delok db2 + 1\<rparr>))
          else Inr (- 1, db1\<lparr>cnt_delerr := cnt_delerr db1 + 1\<rparr>))
       (\<lambda>(rc', db3). Inr (rc', un_lock IdxFile (chainoff db3) 1 db3)))"

text \<open>The two branches of \<^verbatim>\<open>db_store\<close> that write, between the search and \<^verbatim>\<open>doreturn\<close>.\<close>

definition db_store_append :: "DB \<Rightarrow> string \<Rightarrow> string \<Rightarrow> int \<Rightarrow> DB res" where
  "db_store_append db key data pv =
     bnd (db_writedat db data 0 SEEK_END) (\<lambda>db1.
     bnd (db_writeidx db1 key 0 SEEK_END pv) (\<lambda>db2.
     db_writeptr db2 (chainoff db2) (idxoff db2)))"

definition db_store_new :: "DB \<Rightarrow> string \<Rightarrow> string \<Rightarrow> DB res" where
  "db_store_new db key data =
     bnd (db_readptr db (chainoff db)) (\<lambda>(pv, db1).
     bnd (db_findfree db1 (length key) (length data + 1)) (\<lambda>(rc, db2).
     if rc < 0
     then bnd (db_store_append db2 key data pv) (\<lambda>db3. Inr (db3\<lparr>cnt_stor1 := cnt_stor1 db3 + 1\<rparr>))
     else bnd (db_writedat db2 data (datoff db2) SEEK_SET) (\<lambda>db3.
          bnd (db_writeidx db3 key (idxoff db3) SEEK_SET pv) (\<lambda>db4.
          bnd (db_writeptr db4 (chainoff db4) (idxoff db4)) (\<lambda>db5.
          Inr (db5\<lparr>cnt_stor2 := cnt_stor2 db5 + 1\<rparr>))))))"

definition db_store_replace :: "DB \<Rightarrow> string \<Rightarrow> string \<Rightarrow> DB res" where
  "db_store_replace db key data =
     (if length data + 1 \<noteq> datlen db
      then bnd (db_dodelete db) (\<lambda>db1.
           bnd (db_readptr db1 (chainoff db1)) (\<lambda>(pv, db2).
           bnd (db_store_append db2 key data pv) (\<lambda>db3.
           Inr (db3\<lparr>cnt_stor3 := cnt_stor3 db3 + 1\<rparr>))))
      else bnd (db_writedat db data (datoff db) SEEK_SET) (\<lambda>db1.
           Inr (db1\<lparr>cnt_stor4 := cnt_stor4 db1 + 1\<rparr>)))"

definition db_store :: "DB \<Rightarrow> string \<Rightarrow> string \<Rightarrow> int \<Rightarrow> (int \<times> DB) res" where
  "db_store db key data flag =
     (if flag \<noteq> DB_INSERT \<and> flag \<noteq> DB_REPLACE \<and> flag \<noteq> DB_STORE
      then Inr (- 1, db\<lparr>db_errno := EINVAL\<rparr>)
      else if length data + 1 < DATLEN_MIN \<or> DATLEN_MAX < length data + 1
      then Inl (Err_dump ''db_store: invalid data length'')
      else
        bnd (db_find_and_lock db key True) (\<lambda>(rc, db1).
        bnd (if rc < 0
             then if flag = DB_REPLACE
                  then Inr (- 1, db1\<lparr>cnt_storerr := cnt_storerr db1 + 1, db_errno := ENOENT\<rparr>)
                  else bnd (db_store_new db1 key data) (\<lambda>db2. Inr (0, db2))
             else if flag = DB_INSERT
                  then Inr (1, db1\<lparr>cnt_storerr := cnt_storerr db1 + 1\<rparr>)
                  else bnd (db_store_replace db1 key data) (\<lambda>db2. Inr (0, db2)))
          (\<lambda>(rc', db3). Inr (rc', un_lock IdxFile (chainoff db3) 1 db3))))"

definition db_rewind :: "DB \<Rightarrow> DB res" where
  "db_rewind db =
     (case lseek (idxfd db) (int ((nhash db + 1) * PTR_SZ) + 1) SEEK_SET of
        None \<Rightarrow> Inl (Err_dump ''db_rewind: lseek error'')
      | Some (p, f) \<Rightarrow> Inr (db\<lparr>idxfd := f, idxoff := p\<rparr>))"

text \<open>
  \<^verbatim>\<open>db_nextrec\<close>: each round of its loop reads the record at the descriptor's offset and
  moves the offset behind it, so the file's length is enough fuel. The result is the key
  and the data, or nothing at the end of the file.
\<close>

fun db_nextrec_loop :: "nat \<Rightarrow> DB \<Rightarrow> (bool \<times> DB) res" where
  "db_nextrec_loop n db =
     bnd (db_readidx db 0) (\<lambda>(rc, db').
       if rc < 0 then Inr (False, db')
       else if list_all (\<lambda>c. c = SPACE) (idxbuf db')
       then (case n of 0 \<Rightarrow> Inl Diverges | Suc n' \<Rightarrow> db_nextrec_loop n' db')
       else Inr (True, db'))"

declare db_nextrec_loop.simps [simp del]

definition db_nextrec :: "DB \<Rightarrow> ((string \<times> string) option \<times> DB) res" where
  "db_nextrec db =
     (let db0 = readw_lock IdxFile FREE_OFF 1 db
      in bnd (db_nextrec_loop (fsize (idxfd db0)) db0) (\<lambda>(found, db1).
         if \<not> found then Inr (None, un_lock IdxFile FREE_OFF 1 db1)
         else bnd (db_readdat db1) (\<lambda>(ptr, db2).
              Inr (Some (idxbuf db2, ptr),
                   un_lock IdxFile FREE_OFF 1 (db2\<lparr>cnt_nextrec := cnt_nextrec db2 + 1\<rparr>)))))"

section \<open>Opening and closing\<close>

text \<open>
  The file system maps names to contents, and \<open>perm\<close> says which files the process may
  open: both are what \<^verbatim>\<open>open(2)\<close> decides on. While a database is open the contents are in
  its descriptors; closing it puts them back under their names.
\<close>

record oflags =
  O_CREAT :: bool
  O_TRUNC :: bool

type_synonym fs = "string \<Rightarrow> string option"

definition fs_open :: "(string \<Rightarrow> bool) \<Rightarrow> fs \<Rightarrow> string \<Rightarrow> oflags \<Rightarrow> ofile option \<times> fs" where
  "fs_open perm fs nm fl =
     (if \<not> perm nm then (None, fs)
      else case fs nm of
             None \<Rightarrow> if O_CREAT fl then (Some \<lparr>fdata = [], fpos = 0\<rparr>, fs(nm \<mapsto> []))
                     else (None, fs)
           | Some c \<Rightarrow> let c' = (if O_TRUNC fl then [] else c)
                       in (Some \<lparr>fdata = c', fpos = 0\<rparr>, fs(nm \<mapsto> c')))"

text \<open>The hash table \<^verbatim>\<open>db_open\<close> writes into a new index file.\<close>

definition db_hash_init :: string where
  "db_hash_init = concat (replicate (NHASH_DEF + 1) (padl PTR_SZ (sprint_int 0))) @ [NL]"

definition db_open ::
  "(string \<Rightarrow> bool) \<Rightarrow> fs \<Rightarrow> string \<Rightarrow> oflags \<Rightarrow> (DB option \<times> fs) res" where
  "db_open perm fs pathname fl =
     (let db = db_alloc\<lparr>nhash := NHASH_DEF, hashoff := HASH_OFF, dbname := pathname @ ''.dat''\<rparr>;
          (ifd, fs1) = fs_open perm fs (pathname @ ''.idx'') fl;
          (dfd, fs2) = fs_open perm fs1 (pathname @ ''.dat'') fl
      in case (ifd, dfd) of
           (Some i, Some d) \<Rightarrow>
             let db1 = db\<lparr>idxfd := i, datfd := d\<rparr>;
                 db2 = (if O_CREAT fl \<and> O_TRUNC fl
                        then let l = writew_lock IdxFile 0 0 db1;
                                 w = (if fsize (idxfd l) = 0
                                      then l\<lparr>idxfd := fwrite (idxfd l) db_hash_init\<rparr> else l)
                             in un_lock IdxFile 0 0 w
                        else db1)
             in bnd (db_rewind db2) (\<lambda>db3. Inr (Some db3, fs2))
         | _ \<Rightarrow> Inr (None, fs2))"

text \<open>\<^verbatim>\<open>db_close\<close>, which is \<^verbatim>\<open>_db_free\<close>: what the two files hold afterwards.\<close>

definition db_close :: "fs \<Rightarrow> string \<Rightarrow> DB \<Rightarrow> fs" where
  "db_close fs pathname db =
     fs(pathname @ ''.idx'' \<mapsto> fdata (idxfd db), pathname @ ''.dat'' \<mapsto> fdata (datfd db))"

end
