(* ===== verification/Db_Layout.thy ===== *)
theory Db_Layout
  imports Apue_Db
begin

text \<open>
  The layout of the two files of a database: which bytes a table of chain pointers and a
  list of records (slots) are written as, where each record is, and what every byte-level
  operation of \<open>Apue_Db\<close> does to files of that form. Everything above this theory
  argues about pointers and slots, never about bytes.
\<close>

section \<open>Records and their encoding\<close>

record slot =
  sptr :: nat
  skey :: string
  sdat :: string

definition slot_body :: "nat \<Rightarrow> slot \<Rightarrow> string" where
  "slot_body d s = skey s @ [SEP] @ dec d @ [SEP] @ dec (length (sdat s) + 1) @ [NL]"

definition enc_ptr :: "nat \<Rightarrow> string" where
  "enc_ptr p = padl PTR_SZ (dec p)"

definition enc_slot :: "nat \<Rightarrow> slot \<Rightarrow> string" where
  "enc_slot d s = enc_ptr (sptr s) @ padl IDXLEN_SZ (dec (length (slot_body d s))) @ slot_body d s"

fun enc_slots :: "nat \<Rightarrow> slot list \<Rightarrow> string" where
  "enc_slots d [] = []"
| "enc_slots d (s # ss) = enc_slot d s @ enc_slots (d + length (sdat s) + 1) ss"

definition enc_ptrs :: "nat list \<Rightarrow> string" where
  "enc_ptrs ps = concat (map enc_ptr ps)"

definition enc_idx :: "nat list \<Rightarrow> slot list \<Rightarrow> string" where
  "enc_idx ps ss = enc_ptrs ps @ [NL] @ enc_slots 0 ss"

definition enc_dat :: "slot list \<Rightarrow> string" where
  "enc_dat ss = concat (map (\<lambda>s. sdat s @ [NL]) ss)"

text \<open>What a record must satisfy to be written and read back.\<close>

definition ptr_ok :: "nat \<Rightarrow> bool" where
  "ptr_ok p \<longleftrightarrow> int p \<le> PTR_MAX"

definition key_ok :: "string \<Rightarrow> bool" where
  "key_ok k \<longleftrightarrow> is_cstr k \<and> SEP \<notin> set k"

definition dat_ok :: "string \<Rightarrow> bool" where
  "dat_ok d \<longleftrightarrow> is_cstr d \<and> DATLEN_MIN \<le> length d + 1 \<and> length d + 1 \<le> DATLEN_MAX"

definition len_ok :: "nat \<Rightarrow> bool" where
  "len_ok l \<longleftrightarrow> IDXLEN_MIN \<le> l \<and> l \<le> IDXLEN_MAX"

definition slot_ok :: "nat \<Rightarrow> slot \<Rightarrow> bool" where
  "slot_ok d s \<longleftrightarrow> ptr_ok (sptr s) \<and> key_ok (skey s) \<and> dat_ok (sdat s) \<and> len_ok (length (slot_body d s))"

fun slots_ok :: "nat \<Rightarrow> slot list \<Rightarrow> bool" where
  "slots_ok d [] = True"
| "slots_ok d (s # ss) = (slot_ok d s \<and> slots_ok (d + length (sdat s) + 1) ss)"

text \<open>The sizes and positions of the records; they depend on the lengths of keys and data only.\<close>

definition shape :: "slot \<Rightarrow> nat \<times> nat" where
  "shape s = (length (skey s), length (sdat s))"

definition slot_len :: "nat \<Rightarrow> slot \<Rightarrow> nat" where
  "slot_len d s = PTR_SZ + IDXLEN_SZ + length (slot_body d s)"

fun slots_len :: "nat \<Rightarrow> slot list \<Rightarrow> nat" where
  "slots_len d [] = 0"
| "slots_len d (s # ss) = slot_len d s + slots_len (d + length (sdat s) + 1) ss"

definition hdr_len :: "nat \<Rightarrow> nat" where
  "hdr_len n = (n + 1) * PTR_SZ + 1"

definition tab_off :: "nat \<Rightarrow> nat" where
  "tab_off j = j * PTR_SZ"

definition doff :: "slot list \<Rightarrow> nat \<Rightarrow> nat" where
  "doff ss i = length (enc_dat (take i ss))"

definition soff :: "nat \<Rightarrow> slot list \<Rightarrow> nat \<Rightarrow> nat" where
  "soff n ss i = hdr_len n + slots_len 0 (take i ss)"

section \<open>Lengths\<close>

lemma length_enc_ptr [simp]: "ptr_ok p \<Longrightarrow> length (enc_ptr p) = PTR_SZ"
  using length_dec_le [of p 7] by (simp add: enc_ptr_def length_padl ptr_ok_def db_consts)

lemma length_enc_ptrs: "\<forall>p \<in> set ps. ptr_ok p \<Longrightarrow> length (enc_ptrs ps) = length ps * PTR_SZ"
  by (induction ps) (auto simp: enc_ptrs_def)

lemma enc_ptrs_split:
  "j < length ps \<Longrightarrow>
     enc_ptrs ps = enc_ptrs (take j ps) @ enc_ptr (ps ! j) @ enc_ptrs (drop (Suc j) ps)"
  by (subst list_split_nth [of j ps]) (auto simp: enc_ptrs_def)

lemma length_len_field: "len_ok l \<Longrightarrow> length (padl IDXLEN_SZ (dec l)) = IDXLEN_SZ"
  using length_dec_le [of l 4] by (simp add: length_padl len_ok_def db_consts)

lemma length_enc_slot [simp]: "slot_ok d s \<Longrightarrow> length (enc_slot d s) = slot_len d s"
  by (simp add: enc_slot_def slot_len_def slot_ok_def length_len_field)

lemma enc_dat_Nil [simp]: "enc_dat [] = []"
  and enc_dat_Cons [simp]: "enc_dat (s # ss) = sdat s @ NL # enc_dat ss"
  and enc_dat_append [simp]: "enc_dat (ss @ ts) = enc_dat ss @ enc_dat ts"
  by (simp_all add: enc_dat_def)

lemma enc_slots_append:
  "enc_slots d (ss @ ts) = enc_slots d ss @ enc_slots (d + length (enc_dat ss)) ts"
  by (induction ss arbitrary: d) (auto simp: add.assoc add.left_commute)

lemma slots_len_append:
  "slots_len d (ss @ ts) = slots_len d ss + slots_len (d + length (enc_dat ss)) ts"
  by (induction ss arbitrary: d) (auto simp: add.assoc add.left_commute)

lemma slots_ok_append:
  "slots_ok d (ss @ ts) \<longleftrightarrow> slots_ok d ss \<and> slots_ok (d + length (enc_dat ss)) ts"
  by (induction ss arbitrary: d) (auto simp: add.assoc add.left_commute)

lemma length_enc_slots: "slots_ok d ss \<Longrightarrow> length (enc_slots d ss) = slots_len d ss"
  by (induction ss arbitrary: d) auto

lemma slots_ok_take: "slots_ok d ss \<Longrightarrow> slots_ok d (take i ss)"
  by (metis append_take_drop_id slots_ok_append)

lemma doff_Suc: "i < length ss \<Longrightarrow> doff ss (Suc i) = doff ss i + length (sdat (ss ! i)) + 1"
  by (simp add: doff_def take_Suc_conv_app_nth)

lemma slots_ok_nth:
  assumes "slots_ok 0 ss" "i < length ss"
  shows "slot_ok (doff ss i) (ss ! i)"
proof -
  have "slots_ok 0 (take i ss @ ss ! i # drop (Suc i) ss)"
    using assms by (simp add: id_take_nth_drop [symmetric])
  then show ?thesis by (simp add: slots_ok_append doff_def)
qed

text \<open>A slot in the middle of its file.\<close>

lemma enc_slots_split:
  assumes "i < length ss"
  shows "enc_slots 0 ss = enc_slots 0 (take i ss) @ enc_slot (doff ss i) (ss ! i)
           @ enc_slots (doff ss (Suc i)) (drop (Suc i) ss)"
proof -
  have "enc_slots 0 ss = enc_slots 0 (take i ss @ ss ! i # drop (Suc i) ss)"
    using assms by (simp add: id_take_nth_drop [symmetric])
  then show ?thesis using assms by (simp add: enc_slots_append doff_def take_Suc_conv_app_nth add.assoc)
qed

lemma enc_dat_split:
  assumes "i < length ss"
  shows "enc_dat ss = enc_dat (take i ss) @ (sdat (ss ! i) @ [NL]) @ enc_dat (drop (Suc i) ss)"
proof -
  have "enc_dat ss = enc_dat (take i ss @ ss ! i # drop (Suc i) ss)"
    using assms by (simp add: id_take_nth_drop [symmetric])
  then show ?thesis by simp
qed

section \<open>Replacing a record by one of the same shape\<close>

lemma length_body_shape: "shape s = shape t \<Longrightarrow> length (slot_body d s) = length (slot_body d t)"
  by (simp add: shape_def slot_body_def)

lemma slot_len_shape: "shape s = shape t \<Longrightarrow> slot_len d s = slot_len d t"
  using length_body_shape [of s t d] by (simp add: slot_len_def)

lemma slots_len_shape: "map shape ss = map shape ts \<Longrightarrow> slots_len d ss = slots_len d ts"
proof (induction ss arbitrary: d ts)
  case (Cons s ss)
  then obtain t ts' where "ts = t # ts'" "shape s = shape t" "map shape ss = map shape ts'"
    by (cases ts) auto
  moreover from this have "length (sdat s) = length (sdat t)" by (simp add: shape_def)
  ultimately show ?case using Cons.IH [of ts'] slot_len_shape [of s t] by simp
qed simp

lemma length_enc_dat_shape: "map shape ss = map shape ts \<Longrightarrow> length (enc_dat ss) = length (enc_dat ts)"
proof (induction ss arbitrary: ts)
  case (Cons s ss)
  then obtain t ts' where "ts = t # ts'" "shape s = shape t" "map shape ss = map shape ts'"
    by (cases ts) auto
  moreover from this have "length (sdat s) = length (sdat t)" by (simp add: shape_def)
  ultimately show ?case using Cons.IH [of ts'] by simp
qed simp

lemma map_shape_upd:
  "i < length ss \<Longrightarrow> shape s = shape (ss ! i) \<Longrightarrow> map shape (ss[i := s]) = map shape ss"
  by (metis length_map list_update_id map_update nth_map)

lemma soff_shape: "map shape ss = map shape ts \<Longrightarrow> soff n ss i = soff n ts i"
  by (metis slots_len_shape soff_def take_map)

lemma doff_shape: "map shape ss = map shape ts \<Longrightarrow> doff ss i = doff ts i"
  by (metis doff_def length_enc_dat_shape take_map)

lemma soff_upd [simp]:
  "i < length ss \<Longrightarrow> shape s = shape (ss ! i) \<Longrightarrow> soff n (ss[i := s]) j = soff n ss j"
  by (rule soff_shape) (rule map_shape_upd)

lemma doff_upd [simp]:
  "i < length ss \<Longrightarrow> shape s = shape (ss ! i) \<Longrightarrow> doff (ss[i := s]) j = doff ss j"
  by (rule doff_shape) (rule map_shape_upd)

lemma soff_append [simp]: "j \<le> length ss \<Longrightarrow> soff n (ss @ ts) j = soff n ss j"
  by (simp add: soff_def)

lemma doff_append [simp]: "j \<le> length ss \<Longrightarrow> doff (ss @ ts) j = doff ss j"
  by (simp add: doff_def)

lemma slots_ok_upd:
  assumes "slots_ok 0 ss" "i < length ss" "slot_ok (doff ss i) s" "shape s = shape (ss ! i)"
  shows "slots_ok 0 (ss[i := s])"
proof -
  have "slots_ok 0 (take i ss @ ss ! i # drop (Suc i) ss)"
    using assms by (simp add: id_take_nth_drop [symmetric])
  then show ?thesis
    using assms by (simp add: list_update_split slots_ok_append doff_def shape_def)
qed

lemma enc_slots_upd:
  assumes "i < length ss" "shape s = shape (ss ! i)"
  shows "enc_slots 0 (ss[i := s]) = enc_slots 0 (take i ss) @ enc_slot (doff ss i) s
           @ enc_slots (doff ss (Suc i)) (drop (Suc i) ss)"
  using enc_slots_split [of i "ss[i := s]"] assms by simp

lemma enc_dat_upd:
  "i < length ss \<Longrightarrow> enc_dat (ss[i := s]) = enc_dat (take i ss) @ (sdat s @ [NL]) @ enc_dat (drop (Suc i) ss)"
  using enc_dat_split [of i "ss[i := s]"] by simp

lemma soff_length: "soff n ss (length ss) = hdr_len n + slots_len 0 ss"
  by (simp add: soff_def)

lemma slot_len_pos [simp]: "0 < slot_len d s"
  by (simp add: slot_len_def db_consts)

lemma soff_strict_mono:
  assumes "i < j" "j \<le> length ss"
  shows "soff n ss i < soff n ss j"
proof -
  have "take j ss = take (i + Suc (j - Suc i)) ss" using assms by simp
  also have "\<dots> = take i ss @ take (Suc (j - Suc i)) (drop i ss)" by (rule take_add)
  also have "drop i ss = ss ! i # drop (Suc i) ss" using assms by (simp add: Cons_nth_drop_Suc)
  finally have "take j ss = take i ss @ ss ! i # take (j - Suc i) (drop (Suc i) ss)" by simp
  then show ?thesis by (simp add: soff_def slots_len_append)
qed

lemma soff_inj: "i < length ss \<Longrightarrow> j < length ss \<Longrightarrow> soff n ss i = soff n ss j \<longleftrightarrow> i = j"
  by (metis linorder_neqE_nat nat_less_le soff_strict_mono)

lemma soff_pos [simp]: "0 < soff n ss i" "soff n ss i \<noteq> 0"
  by (simp_all add: soff_def hdr_len_def)

end
