(* ===== verification/Db_Bytes.thy ===== *)
theory Db_Bytes
  imports Db_Layout
begin

text \<open>
  Each byte-level operation of the database library on files that encode a table of chain
  pointers and a list of slots: what it reads, and which slots the files encode afterwards.
\<close>

definition db_view :: "DB \<Rightarrow> nat list \<Rightarrow> slot list \<Rightarrow> bool" where
  "db_view db ps ss \<longleftrightarrow>
     length ps = nhash db + 1 \<and> hashoff db = HASH_OFF \<and> (\<forall>p \<in> set ps. ptr_ok p) \<and>
     slots_ok 0 ss \<and> fdata (idxfd db) = enc_idx ps ss \<and> fdata (datfd db) = enc_dat ss"

lemma sprint_int_nat [simp]: "sprint_int (int n) = dec n"
  by (simp add: sprint_int_def)

lemma db_view_cong:
  "nhash db' = nhash db \<Longrightarrow> hashoff db' = hashoff db \<Longrightarrow> fdata (idxfd db') = fdata (idxfd db) \<Longrightarrow>
   fdata (datfd db') = fdata (datfd db) \<Longrightarrow> db_view db' ps ss = db_view db ps ss"
  by (simp add: db_view_def)

lemma db_view_frame [simp]:
  "db_view (db\<lparr>idxbuf := x1\<rparr>) ps ss = db_view db ps ss"
  "db_view (db\<lparr>datbuf := x1\<rparr>) ps ss = db_view db ps ss"
  "db_view (db\<lparr>idxoff := x2\<rparr>) ps ss = db_view db ps ss"
  "db_view (db\<lparr>idxlen := x3\<rparr>) ps ss = db_view db ps ss"
  "db_view (db\<lparr>datoff := x2\<rparr>) ps ss = db_view db ps ss"
  "db_view (db\<lparr>datlen := x3\<rparr>) ps ss = db_view db ps ss"
  "db_view (db\<lparr>ptrval := x2\<rparr>) ps ss = db_view db ps ss"
  "db_view (db\<lparr>ptroff := x2\<rparr>) ps ss = db_view db ps ss"
  "db_view (db\<lparr>chainoff := x2\<rparr>) ps ss = db_view db ps ss"
  "db_view (db\<lparr>held := x4\<rparr>) ps ss = db_view db ps ss"
  "db_view (db\<lparr>db_errno := x5\<rparr>) ps ss = db_view db ps ss"
  "db_view (lock_reg t f o1 l db) ps ss = db_view db ps ss"
  "db_view (db\<lparr>idxfd := (idxfd db)\<lparr>fpos := q\<rparr>\<rparr>) ps ss = db_view db ps ss"
  "db_view (db\<lparr>datfd := (datfd db)\<lparr>fpos := q\<rparr>\<rparr>) ps ss = db_view db ps ss"
  by (simp_all add: db_view_def lock_reg_def)

lemma db_view_counters [simp]:
  "db_view (db\<lparr>cnt_delok := c\<rparr>) ps ss = db_view db ps ss"
  "db_view (db\<lparr>cnt_delerr := c\<rparr>) ps ss = db_view db ps ss"
  "db_view (db\<lparr>cnt_fetchok := c\<rparr>) ps ss = db_view db ps ss"
  "db_view (db\<lparr>cnt_fetcherr := c\<rparr>) ps ss = db_view db ps ss"
  "db_view (db\<lparr>cnt_nextrec := c\<rparr>) ps ss = db_view db ps ss"
  "db_view (db\<lparr>cnt_stor1 := c\<rparr>) ps ss = db_view db ps ss"
  "db_view (db\<lparr>cnt_stor2 := c\<rparr>) ps ss = db_view db ps ss"
  "db_view (db\<lparr>cnt_stor3 := c\<rparr>) ps ss = db_view db ps ss"
  "db_view (db\<lparr>cnt_stor4 := c\<rparr>) ps ss = db_view db ps ss"
  "db_view (db\<lparr>cnt_storerr := c\<rparr>) ps ss = db_view db ps ss"
  by (simp_all add: db_view_def)

section \<open>Where things are in the index file\<close>

lemma enc_idx_ptr_split:
  "j < length ps \<Longrightarrow>
     enc_idx ps ss = enc_ptrs (take j ps) @ enc_ptr (ps ! j)
       @ (enc_ptrs (drop (Suc j) ps) @ [NL] @ enc_slots 0 ss)"
  by (simp add: enc_idx_def enc_ptrs_split [of j ps])

lemma enc_idx_slot_split:
  "i < length ss \<Longrightarrow>
     enc_idx ps ss = (enc_ptrs ps @ [NL] @ enc_slots 0 (take i ss)) @ enc_slot (doff ss i) (ss ! i)
       @ enc_slots (doff ss (Suc i)) (drop (Suc i) ss)"
  by (simp add: enc_idx_def enc_slots_split [of i ss])

lemma length_take_ptrs:
  assumes "db_view db ps ss" "j < length ps"
  shows "length (enc_ptrs (take j ps)) = j * PTR_SZ"
  using assms length_enc_ptrs [of "take j ps"] by (auto simp: db_view_def dest: in_set_takeD)

lemma length_before_slot:
  assumes "db_view db ps ss"
  shows "length (enc_ptrs ps @ [NL] @ enc_slots 0 (take i ss)) = soff (nhash db) ss i"
  using assms length_enc_ptrs [of ps] length_enc_slots [of 0 "take i ss"]
  by (simp add: db_view_def soff_def hdr_len_def slots_ok_take)

lemma length_enc_idx:
  assumes "db_view db ps ss"
  shows "length (enc_idx ps ss) = soff (nhash db) ss (length ss)"
  using length_before_slot [OF assms, of "length ss"] by (simp add: enc_idx_def)

lemma db_view_ptr_ok: "db_view db ps ss \<Longrightarrow> j < length ps \<Longrightarrow> ptr_ok (ps ! j)"
  by (simp add: db_view_def)

section \<open>Reading\<close>

lemma db_readptr_view:
  assumes v: "db_view db ps ss" and j: "j < length ps"
  shows "db_readptr db (int (j * PTR_SZ)) =
           Inr (int (ps ! j), db\<lparr>idxfd := (idxfd db)\<lparr>fpos := j * PTR_SZ + PTR_SZ\<rparr>\<rparr>)"
proof -
  let ?f = "(idxfd db)\<lparr>fpos := j * PTR_SZ\<rparr>"
  have "fdata ?f = enc_ptrs (take j ps) @ enc_ptr (ps ! j)
          @ (enc_ptrs (drop (Suc j) ps) @ [NL] @ enc_slots 0 ss)"
    using v j by (simp add: db_view_def enc_idx_ptr_split)
  moreover have "fpos ?f = length (enc_ptrs (take j ps))"
    using length_take_ptrs [OF v j] by simp
  moreover have l: "length (enc_ptr (ps ! j)) = PTR_SZ"
    using db_view_ptr_ok [OF v j] by simp
  ultimately have "fread ?f PTR_SZ = (enc_ptr (ps ! j), ?f\<lparr>fpos := j * PTR_SZ + PTR_SZ\<rparr>)"
    using fread_at [of ?f "enc_ptrs (take j ps)" "enc_ptr (ps ! j)" _ PTR_SZ] by simp
  then show ?thesis using l by (simp add: db_readptr_def enc_ptr_def del: of_nat_mult)
qed

lemma db_readptr_tab:
  assumes "db_view db ps ss" "j < length ps"
  shows "db_readptr db (int (tab_off j)) =
           Inr (int (ps ! j), db\<lparr>idxfd := (idxfd db)\<lparr>fpos := tab_off (Suc j)\<rparr>\<rparr>)"
  using db_readptr_view [OF assms] by (simp add: tab_off_def add.commute)

lemma tab_off_0: "int (tab_off 0) = FREE_OFF"
  by (simp add: tab_off_def FREE_OFF_def)

lemma db_parseidx_body:
  assumes "key_ok k" "0 < l" "l \<le> DATLEN_MAX"
  shows "db_parseidx (k @ SEP # dec d @ SEP # dec l @ [NUL]) = Inr (k, int d, l)"
proof -
  have sep: "SEP \<notin> set (dec m)" for m
    by (auto simp: SEP_def dest: dec_isdigit)
  have 1: "strchr (k @ SEP # dec d @ SEP # dec l @ [NUL]) SEP = Some (length k)"
    using assms by (simp add: strchr_first key_ok_def)
  have 2: "strchr (dec d @ SEP # dec l @ [NUL]) SEP = Some (length (dec d))"
    using sep by (simp add: strchr_first)
  have "c \<notin> set s \<Longrightarrow> is_cstr s \<Longrightarrow> c \<noteq> NUL \<Longrightarrow> strchr (s @ [NUL]) c = None" for c s
    by (induction s) auto
  then have 3: "strchr (dec l @ [NUL]) SEP = None"
    using sep by (simp add: SEP_def)
  show ?thesis using assms by (simp add: db_parseidx_def 1 2 3)
qed

lemma db_readidx_at:
  assumes f: "fdata (idxfd db) = A @ enc_slot d s @ B"
    and p: "lseek (idxfd db) off (if off = 0 then SEEK_CUR else SEEK_SET)
            = Some (int (length A), (idxfd db)\<lparr>fpos := length A\<rparr>)"
    and ok: "slot_ok d s"
  shows "db_readidx db off = Inr (int (sptr s),
    db\<lparr>idxfd := (idxfd db)\<lparr>fpos := length A + slot_len d s\<rparr>, idxoff := int (length A),
       ptrval := int (sptr s), idxlen := length (slot_body d s), idxbuf := skey s,
       datoff := int d, datlen := length (sdat s) + 1\<rparr>)"
proof -
  let ?h = "enc_ptr (sptr s) @ padl IDXLEN_SZ (dec (length (slot_body d s)))"
  let ?f = "(idxfd db)\<lparr>fpos := length A\<rparr>"
  have l1: "length (enc_ptr (sptr s)) = PTR_SZ"
    and l2: "length (padl IDXLEN_SZ (dec (length (slot_body d s)))) = IDXLEN_SZ"
    and lb: "len_ok (length (slot_body d s))" and k: "key_ok (skey s)" and dk: "dat_ok (sdat s)"
    using ok by (auto simp: slot_ok_def length_len_field)
  have r1: "fread ?f (PTR_SZ + IDXLEN_SZ) = (?h, ?f\<lparr>fpos := length A + (PTR_SZ + IDXLEN_SZ)\<rparr>)"
    using fread_at [of ?f A ?h "slot_body d s @ B"] f l1 l2 by (simp add: enc_slot_def)
  have r2: "fread (?f\<lparr>fpos := length A + (PTR_SZ + IDXLEN_SZ)\<rparr>) (length (slot_body d s)) =
      (slot_body d s, ?f\<lparr>fpos := length A + slot_len d s\<rparr>)"
    using fread_at [of "?f\<lparr>fpos := length A + (PTR_SZ + IDXLEN_SZ)\<rparr>" "A @ ?h" "slot_body d s" B]
      f l1 l2 by (simp add: enc_slot_def slot_len_def add.assoc)
  have "db_parseidx (skey s @ SEP # dec d @ SEP # dec (length (sdat s) + 1) @ [NUL])
      = Inr (skey s, int d, length (sdat s) + 1)"
    using k dk by (intro db_parseidx_body) (auto simp: dat_ok_def)
  then have pb: "db_parseidx (butlast (slot_body d s) @ [NUL]) = Inr (skey s, int d, length (sdat s) + 1)"
    by (simp add: slot_body_def butlast_append)
  have nl: "last (slot_body d s) = NL" by (simp add: slot_body_def)
  have a1: "atol (take PTR_SZ ?h) = int (sptr s)" and a2: "atol (drop PTR_SZ ?h) = int (length (slot_body d s))"
    using l1 by (simp_all add: enc_ptr_def)
  show ?thesis
    using p r1 r2 pb nl a1 a2 l1 l2 lb
    by (simp add: db_readidx_def len_ok_def Let_def del: of_nat_Suc)
qed

lemma db_readidx_view:
  assumes v: "db_view db ps ss" and i: "i < length ss"
  shows "db_readidx db (int (soff (nhash db) ss i)) = Inr (int (sptr (ss ! i)),
    db\<lparr>idxfd := (idxfd db)\<lparr>fpos := soff (nhash db) ss (Suc i)\<rparr>, idxoff := int (soff (nhash db) ss i),
       ptrval := int (sptr (ss ! i)), idxlen := length (slot_body (doff ss i) (ss ! i)),
       idxbuf := skey (ss ! i), datoff := int (doff ss i), datlen := length (sdat (ss ! i)) + 1\<rparr>)"
proof -
  let ?A = "enc_ptrs ps @ [NL] @ enc_slots 0 (take i ss)"
  have l: "length ?A = soff (nhash db) ss i" by (rule length_before_slot [OF v])
  have f: "fdata (idxfd db) = ?A @ enc_slot (doff ss i) (ss ! i) @ enc_slots (doff ss (Suc i)) (drop (Suc i) ss)"
    using v enc_idx_slot_split [OF i] by (simp add: db_view_def)
  have s: "soff (nhash db) ss (Suc i) = soff (nhash db) ss i + slot_len (doff ss i) (ss ! i)"
    using i by (simp add: soff_def take_Suc_conv_app_nth slots_len_append doff_def)
  have p: "lseek (idxfd db) (int (soff (nhash db) ss i))
      (if int (soff (nhash db) ss i) = 0 then SEEK_CUR else SEEK_SET)
      = Some (int (length ?A), (idxfd db)\<lparr>fpos := length ?A\<rparr>)"
    unfolding l by simp
  have "slot_ok (doff ss i) (ss ! i)" using v i by (simp add: db_view_def slots_ok_nth)
  from db_readidx_at [OF f p this] show ?thesis unfolding l s .
qed

lemma db_readdat_view:
  assumes v: "db_view db ps ss" and i: "i < length ss"
    and o1: "datoff db = int (doff ss i)" and l: "datlen db = length (sdat (ss ! i)) + 1"
  shows "db_readdat db = Inr (sdat (ss ! i),
    db\<lparr>datfd := (datfd db)\<lparr>fpos := doff ss (Suc i)\<rparr>, datbuf := sdat (ss ! i)\<rparr>)"
proof -
  let ?f = "(datfd db)\<lparr>fpos := doff ss i\<rparr>"
  have "slot_ok (doff ss i) (ss ! i)" using v i by (simp add: db_view_def slots_ok_nth)
  then have c: "is_cstr (sdat (ss ! i))" by (simp add: slot_ok_def dat_ok_def)
  have "fread ?f (datlen db) = (sdat (ss ! i) @ [NL], ?f\<lparr>fpos := doff ss (Suc i)\<rparr>)"
    using fread_at [of ?f "enc_dat (take i ss)" "sdat (ss ! i) @ [NL]" "enc_dat (drop (Suc i) ss)"]
      v l enc_dat_split [OF i] doff_Suc [OF i] by (simp add: db_view_def doff_def)
  then show ?thesis using o1 l c by (simp add: db_readdat_def Let_def)
qed

section \<open>Writing\<close>

lemma ptr_ok_int: "ptr_ok p \<longleftrightarrow> \<not> (int p < 0 \<or> PTR_MAX < int p)"
  by (auto simp: ptr_ok_def)

lemma db_writeptr_at:
  assumes p: "ptr_ok p" and f: "fdata (idxfd db) = A @ b @ B" and l: "length b = PTR_SZ"
  shows "db_writeptr db (int (length A)) (int p) =
    Inr (db\<lparr>idxfd := \<lparr>fdata = A @ enc_ptr p @ B, fpos = length A + PTR_SZ\<rparr>\<rparr>)"
proof -
  have "fwrite ((idxfd db)\<lparr>fpos := length A\<rparr>) (enc_ptr p) =
      \<lparr>fdata = A @ enc_ptr p @ B, fpos = length A + PTR_SZ\<rparr>"
    using f l p fsplice_at [of b "enc_ptr p" A B] by (simp add: fwrite_def)
  then show ?thesis using p by (simp add: db_writeptr_def ptr_ok_int enc_ptr_def)
qed

text \<open>A chain pointer in the table, and the chain pointer at the front of a record.\<close>

lemma db_writeptr_tab:
  assumes v: "db_view db ps ss" and j: "j < length ps" and p: "ptr_ok p"
  shows "\<exists>f. db_writeptr db (int (tab_off j)) (int p) = Inr (db\<lparr>idxfd := f\<rparr>)
           \<and> db_view (db\<lparr>idxfd := f\<rparr>) (ps[j := p]) ss"
proof -
  let ?A = "enc_ptrs (take j ps)" and ?B = "enc_ptrs (drop (Suc j) ps) @ [NL] @ enc_slots 0 ss"
  let ?f = "\<lparr>fdata = ?A @ enc_ptr p @ ?B, fpos = length ?A + PTR_SZ\<rparr>"
  have "db_writeptr db (int (length ?A)) (int p) = Inr (db\<lparr>idxfd := ?f\<rparr>)"
    using v j db_view_ptr_ok [OF v j]
    by (intro db_writeptr_at [OF p]) (auto simp: db_view_def enc_idx_ptr_split)
  moreover have "enc_idx (ps[j := p]) ss = ?A @ enc_ptr p @ ?B"
    using j enc_idx_ptr_split [of j "ps[j := p]" ss] by simp
  then have "db_view (db\<lparr>idxfd := ?f\<rparr>) (ps[j := p]) ss"
    using v j p by (auto simp: db_view_def dest: set_update_subset_insert [THEN subsetD])
  ultimately show ?thesis using length_take_ptrs [OF v j] by (metis (no_types) tab_off_def)
qed

lemma shape_upd [simp]: "shape (s\<lparr>sptr := p\<rparr>) = shape s"
  by (simp add: shape_def)

lemma slot_body_ptr [simp]: "slot_body d (s\<lparr>sptr := p\<rparr>) = slot_body d s"
  by (simp add: slot_body_def)

lemma db_writeptr_slot:
  assumes v: "db_view db ps ss" and i: "i < length ss" and p: "ptr_ok p"
  shows "\<exists>f. db_writeptr db (int (soff (nhash db) ss i)) (int p) = Inr (db\<lparr>idxfd := f\<rparr>)
           \<and> db_view (db\<lparr>idxfd := f\<rparr>) ps (ss[i := (ss ! i)\<lparr>sptr := p\<rparr>])"
proof -
  let ?s = "(ss ! i)\<lparr>sptr := p\<rparr>" and ?d = "doff ss i"
  let ?A = "enc_ptrs ps @ [NL] @ enc_slots 0 (take i ss)"
  let ?T = "padl IDXLEN_SZ (dec (length (slot_body ?d (ss ! i)))) @ slot_body ?d (ss ! i)"
  let ?B = "?T @ enc_slots (doff ss (Suc i)) (drop (Suc i) ss)"
  let ?f = "\<lparr>fdata = ?A @ enc_ptr p @ ?B, fpos = length ?A + PTR_SZ\<rparr>"
  have ok: "slot_ok ?d (ss ! i)" using v i by (simp add: db_view_def slots_ok_nth)
  have "db_writeptr db (int (soff (nhash db) ss i)) (int p) = Inr (db\<lparr>idxfd := ?f\<rparr>)"
    unfolding length_before_slot [OF v, symmetric] using v enc_idx_slot_split [OF i] ok
    by (intro db_writeptr_at [OF p, where b = "enc_ptr (sptr (ss ! i))"])
       (auto simp: db_view_def enc_slot_def slot_ok_def)
  moreover have "slots_ok 0 (ss[i := ?s])"
    using v i ok p by (intro slots_ok_upd) (auto simp: db_view_def slot_ok_def)
  moreover have "enc_idx ps (ss[i := ?s]) = ?A @ enc_ptr p @ ?B"
    using enc_slots_upd [OF i, of ?s] by (simp add: enc_idx_def enc_slot_def)
  moreover have "enc_dat (ss[i := ?s]) = enc_dat ss"
    using enc_dat_upd [OF i, of ?s] enc_dat_split [OF i] by simp
  ultimately show ?thesis
    using v by (intro exI [of _ ?f]) (simp add: db_view_def)
qed

text \<open>A data record in place, and an index record in place behind its data record.\<close>

lemma db_writedat_slot:
  assumes v: "db_view db ps ss" and i: "i < length ss" and d: "dat_ok d"
    and l: "length d = length (sdat (ss ! i))"
  shows "\<exists>f. db_writedat db d (int (doff ss i)) SEEK_SET =
             Inr (db\<lparr>datfd := f, datoff := int (doff ss i), datlen := length d + 1\<rparr>)
           \<and> db_view (db\<lparr>datfd := f\<rparr>) ps (ss[i := (ss ! i)\<lparr>sdat := d\<rparr>])"
proof -
  let ?s = "(ss ! i)\<lparr>sdat := d\<rparr>"
  let ?f = "fwrite ((datfd db)\<lparr>fpos := doff ss i\<rparr>) (d @ [NL])"
  have w: "db_writedat db d (int (doff ss i)) SEEK_SET =
      Inr (db\<lparr>datfd := ?f, datoff := int (doff ss i), datlen := length d + 1\<rparr>)"
    by (simp add: db_writedat_def Let_def)
  have sh: "shape ?s = shape (ss ! i)" using l by (simp add: shape_def)
  have ok: "slot_ok (doff ss i) (ss ! i)" using v i by (simp add: db_view_def slots_ok_nth)
  then have ok': "slot_ok (doff ss i) ?s"
    using d length_body_shape [OF sh] by (simp add: slot_ok_def)
  have "fdata ?f = enc_dat (ss[i := ?s])"
    using v l i fsplice_at [of "sdat (ss ! i) @ [NL]" "d @ [NL]" "enc_dat (take i ss)"]
    by (simp add: fwrite_def db_view_def enc_dat_upd enc_dat_split [of i ss] doff_def)
  moreover have "enc_slot (doff ss i) ?s = enc_slot (doff ss i) (ss ! i)"
    using l by (simp add: enc_slot_def slot_body_def)
  then have "enc_idx ps (ss[i := ?s]) = enc_idx ps ss"
    using enc_slots_upd [OF i sh] enc_slots_split [OF i] by (simp add: enc_idx_def)
  moreover have "slots_ok 0 (ss[i := ?s])"
    using v by (intro slots_ok_upd [OF _ i ok' sh]) (simp add: db_view_def)
  ultimately show ?thesis using v w by (intro exI [of _ ?f]) (simp add: db_view_def)
qed

lemma db_writeidx_fmt:
  assumes p: "ptr_ok p" and d: "datoff db = int d" "datlen db = length (sdat s) + 1"
    and l: "len_ok (length (slot_body d s))" and s: "skey s = k" "sptr s = p"
    and o1: "lseek (idxfd db) off wh = Some (int q, f)"
  shows "db_writeidx db k off wh (int p) =
    (let db1 = (if wh = SEEK_END then writew_lock IdxFile (int (hdr_len (nhash db))) 0 db else db);
         db2 = db1\<lparr>idxfd := fwrite f (enc_slot d s), idxbuf := slot_body d s, idxoff := int q,
                   ptrval := int p\<rparr>
     in Inr (if wh = SEEK_END then un_lock IdxFile (int (hdr_len (nhash db))) 0 db2 else db2))"
proof -
  have b: "k @ [SEP] @ sprint_int (datoff db) @ [SEP] @ dec (datlen db) @ [NL] = slot_body d s"
    using d s by (simp add: slot_body_def)
  have e: "padl PTR_SZ (sprint_int (int p)) @ padl IDXLEN_SZ (dec (length (slot_body d s)))
      @ slot_body d s = enc_slot d s"
    using s by (simp add: enc_slot_def enc_ptr_def)
  have lk: "idxfd (if wh = SEEK_END then writew_lock IdxFile a 0 db else db) = idxfd db" for a
    by (simp add: lock_reg_def)
  show ?thesis
    using p l unfolding db_writeidx_def b Let_def lk o1
    by (simp add: ptr_ok_int len_ok_def hdr_len_def e [symmetric])
qed

lemma db_writeidx_slot:
  fixes k p ss i
  defines "s \<equiv> (ss ! i)\<lparr>sptr := p, skey := k\<rparr>"
  assumes v: "db_view db ps ss" and i: "i < length ss" and p: "ptr_ok p" and k: "key_ok k"
    and l: "length k = length (skey (ss ! i))"
    and d: "datoff db = int (doff ss i)" "datlen db = length (sdat (ss ! i)) + 1"
  shows "\<exists>f. db_writeidx db k (int (soff (nhash db) ss i)) SEEK_SET (int p) =
             Inr (db\<lparr>idxfd := f, idxbuf := slot_body (doff ss i) s,
                     idxoff := int (soff (nhash db) ss i), ptrval := int p\<rparr>)
           \<and> db_view (db\<lparr>idxfd := f\<rparr>) ps (ss[i := s])"
proof -
  let ?n = "soff (nhash db) ss i" and ?A = "enc_ptrs ps @ [NL] @ enc_slots 0 (take i ss)"
  let ?f = "fwrite ((idxfd db)\<lparr>fpos := ?n\<rparr>) (enc_slot (doff ss i) s)"
  have sh: "shape s = shape (ss ! i)" using l by (simp add: shape_def s_def)
  have ok: "slot_ok (doff ss i) (ss ! i)" using v i by (simp add: db_view_def slots_ok_nth)
  then have ok': "slot_ok (doff ss i) s"
    using p k length_body_shape [OF sh] by (simp add: slot_ok_def s_def)
  have w: "db_writeidx db k (int ?n) SEEK_SET (int p) =
      Inr (db\<lparr>idxfd := ?f, idxbuf := slot_body (doff ss i) s, idxoff := int ?n, ptrval := int p\<rparr>)"
    using d ok' by (subst db_writeidx_fmt [OF p, where s = s]) (auto simp: s_def slot_ok_def)
  have "enc_idx ps (ss[i := s]) = ?A @ enc_slot (doff ss i) s @ enc_slots (doff ss (Suc i)) (drop (Suc i) ss)"
    using enc_slots_upd [OF i sh] by (simp add: enc_idx_def)
  moreover have "fdata ?f = ?A @ enc_slot (doff ss i) s @ enc_slots (doff ss (Suc i)) (drop (Suc i) ss)"
    unfolding length_before_slot [OF v, symmetric] fwrite_def
    using v enc_idx_slot_split [OF i] ok ok' slot_len_shape [OF sh]
      fsplice_at [of "enc_slot (doff ss i) (ss ! i)" "enc_slot (doff ss i) s" ?A]
    by (simp add: db_view_def)
  moreover have "enc_dat (ss[i := s]) = enc_dat ss"
    using enc_dat_upd [OF i, of s] enc_dat_split [OF i] by (simp add: s_def)
  moreover have "slots_ok 0 (ss[i := s])"
    using v by (intro slots_ok_upd [OF _ i ok' sh]) (simp add: db_view_def)
  ultimately show ?thesis using v w by (intro exI [of _ ?f]) (simp add: db_view_def)
qed

text \<open>Appending a record to the ends of both files, and hanging it into its chain.\<close>

lemma db_store_append_view:
  fixes k d p ss
  defines "s \<equiv> \<lparr>sptr = p, skey = k, sdat = d\<rparr>" and "e \<equiv> length ss"
  assumes v: "db_view db ps ss" and p: "ptr_ok p" and k: "key_ok k" and d: "dat_ok d"
    and l: "len_ok (length (slot_body (doff ss e) s))" and e: "ptr_ok (soff (nhash db) ss e)"
    and c: "chainoff db = int (tab_off j)" and j: "j < length ps"
  shows "\<exists>f g h. db_store_append db k d (int p) =
             Inr (db\<lparr>idxfd := f, datfd := g, idxbuf := slot_body (doff ss e) s,
                     idxoff := int (soff (nhash db) ss e), datoff := int (doff ss e),
                     datlen := length d + 1, ptrval := int p, held := h\<rparr>)
           \<and> db_view (db\<lparr>idxfd := f, datfd := g\<rparr>) (ps[j := soff (nhash db) ss e]) (ss @ [s])
           \<and> h = (\<lambda>g b. if g = IdxFile \<and> hdr_len (nhash db) \<le> b then None
                           else if g = DatFile then None else held db g b)"
proof -
  let ?n = "soff (nhash db) ss e"
  have sz: "fsize (idxfd db) = ?n" "fsize (datfd db) = doff ss e"
    using v length_enc_idx [OF v] by (simp_all add: fsize_def db_view_def e_def doff_def)
  have ok: "slot_ok (doff ss e) s" using p k d l by (simp add: slot_ok_def s_def)
  let ?g = "fwrite ((datfd db)\<lparr>fpos := doff ss e\<rparr>) (d @ [NL])"
  let ?h1 = "\<lambda>g b. if g = DatFile then None else held db g b"
  let ?h2 = "\<lambda>g b. if g = IdxFile \<and> hdr_len (nhash db) \<le> b then None
                   else if g = DatFile then None else held db g b"
  let ?db1 = "db\<lparr>datfd := ?g, datoff := int (doff ss e), datlen := length d + 1, held := ?h1\<rparr>"
  have w1: "db_writedat db d 0 SEEK_END = Inr ?db1"
    using sz by (simp add: db_writedat_def lock_reg_def Let_def fun_eq_iff)
  let ?f = "fwrite ((idxfd db)\<lparr>fpos := ?n\<rparr>) (enc_slot (doff ss e) s)"
  let ?db2 = "?db1\<lparr>idxfd := ?f, idxbuf := slot_body (doff ss e) s, idxoff := int ?n, ptrval := int p,
                   held := ?h2\<rparr>"
  have w2: "db_writeidx ?db1 k 0 SEEK_END (int p) = Inr ?db2"
    using l sz by (subst db_writeidx_fmt [OF p, where s = s and d = "doff ss e" and q = ?n])
      (auto simp: s_def lock_reg_def Let_def fun_eq_iff cong: if_cong)
  have "fdata ?f = enc_idx ps (ss @ [s])"
    using v sz fsplice_end [of "enc_idx ps ss"]
    by (simp add: fwrite_def fsize_def db_view_def enc_idx_def enc_slots_append doff_def e_def)
  moreover have "fdata ?g = enc_dat (ss @ [s])"
    using v sz fsplice_end [of "enc_dat ss"] by (simp add: fwrite_def fsize_def db_view_def s_def)
  moreover have "slots_ok 0 (ss @ [s])"
    using v ok by (simp add: db_view_def slots_ok_append doff_def e_def)
  ultimately have v2: "db_view ?db2 ps (ss @ [s])" using v by (simp add: db_view_def)
  obtain f where w3: "db_writeptr ?db2 (int (tab_off j)) (int ?n) = Inr (?db2\<lparr>idxfd := f\<rparr>)"
    and v3: "db_view (?db2\<lparr>idxfd := f\<rparr>) (ps[j := ?n]) (ss @ [s])"
    using db_writeptr_tab [OF v2 j e] by blast
  show ?thesis
    using w1 w2 w3 v3 c
    by (intro exI [of _ f] exI [of _ ?g] exI [of _ ?h2]) (simp add: db_store_append_def db_view_def)
qed

end
