(* ===== verification/Db_Chains.thy ===== *)
theory Db_Chains
  imports Db_Bytes
begin

text \<open>
  The records of a database as linked lists: the free list and one hash chain per entry of
  the table. A layout says which slots hang on which list; \<open>lay_ok\<close> is the invariant of
  the database, and \<open>lmap\<close> the map from keys to data it stands for.
\<close>

section \<open>Chains\<close>

fun chain :: "nat \<Rightarrow> slot list \<Rightarrow> nat \<Rightarrow> nat list \<Rightarrow> bool" where
  "chain n ss p [] \<longleftrightarrow> p = 0"
| "chain n ss p (i # is) \<longleftrightarrow> i < length ss \<and> p = soff n ss i \<and> chain n ss (sptr (ss ! i)) is"

lemma chain_bound: "chain n ss p is \<Longrightarrow> i \<in> set is \<Longrightarrow> i < length ss"
  by (induction "is" arbitrary: p) auto

lemma chain_upd:
  assumes "j < length ss" "shape s = shape (ss ! j)"
  shows "j \<notin> set is \<Longrightarrow> chain n (ss[j := s]) p is = chain n ss p is"
  using assms by (induction "is" arbitrary: p) auto

lemma chain_upd_keep:
  assumes "j < length ss" "shape s = shape (ss ! j)" "sptr s = sptr (ss ! j)"
  shows "chain n (ss[j := s]) p is = chain n ss p is"
  using assms by (induction "is" arbitrary: p) (auto simp: nth_list_update)

lemma chain_snoc_slot: "chain n ss p is \<Longrightarrow> chain n (ss @ [s]) p is"
  by (induction "is" arbitrary: p) (auto simp: nth_append)

lemma chain_unique: "chain n ss p is \<Longrightarrow> chain n ss p js \<Longrightarrow> is = js"
proof (induction "is" arbitrary: p js)
  case Nil
  then show ?case by (cases js) auto
next
  case (Cons i "is")
  then show ?case by (cases js) (auto simp: soff_inj)
qed

lemma chain_split: "chain n ss p (xs @ i # ys) \<Longrightarrow> chain n ss (sptr (ss ! i)) ys"
  by (induction xs arbitrary: p) auto

lemma chain_suffix: "chain n ss p (xs @ i # ys) \<Longrightarrow> chain n ss (soff n ss i) (i # ys)"
  by (induction xs arbitrary: p) auto

lemma chain_distinct: "chain n ss p is \<Longrightarrow> distinct is"
proof (induction "is" arbitrary: p)
  case (Cons i "is")
  have "i \<notin> set is"
  proof
    assume "i \<in> set is"
    then obtain xs ys where "is = xs @ i # ys" by (meson split_list)
    then have "chain n ss (soff n ss i) (i # ys)" "chain n ss (soff n ss i) (i # is)"
      using Cons.prems chain_suffix [of n ss p "i # xs" i ys] by auto
    then have "i # ys = i # is" by (rule chain_unique)
    with \<open>is = xs @ i # ys\<close> have "length ys = length xs + Suc (length ys)" by (metis length_append length_Cons list.inject)
    then show False by simp
  qed
  with Cons show ?case by auto
qed simp

lemma chain_length: "chain n ss p is \<Longrightarrow> length is \<le> length ss"
proof -
  assume c: "chain n ss p is"
  then have "card (set is) = length is" by (simp add: distinct_card chain_distinct)
  moreover have "card (set is) \<le> card {..<length ss}"
    using c by (intro card_mono) (auto dest: chain_bound)
  ultimately show ?thesis by simp
qed

lemma chain_ptr_ok:
  "chain n ss p is \<Longrightarrow> \<forall>i < length ss. ptr_ok (soff n ss i) \<Longrightarrow> ptr_ok p"
  by (cases "is") (auto simp: ptr_ok_def PTR_MAX_def)

text \<open>Hanging a slot at the front of a chain, and taking one out of the middle.\<close>

lemma chain_link:
  assumes "chain n ss p zs" "i < length ss" "i \<notin> set zs" "shape s = shape (ss ! i)" "sptr s = p"
  shows "chain n (ss[i := s]) (soff n ss i) (i # zs)"
  using assms by (simp add: chain_upd)

lemma chain_link_new:
  assumes "chain n ss p zs" "sptr s = p"
  shows "chain n (ss @ [s]) (soff n ss (length ss)) (length ss # zs)"
  using assms by (simp add: chain_snoc_slot)

definition unlink_ptrs :: "nat list \<Rightarrow> slot list \<Rightarrow> nat \<Rightarrow> nat list \<Rightarrow> nat \<Rightarrow> nat list" where
  "unlink_ptrs ps ss j xs i = (if xs = [] then ps[j := sptr (ss ! i)] else ps)"

definition unlink_slots :: "slot list \<Rightarrow> nat list \<Rightarrow> nat \<Rightarrow> slot list" where
  "unlink_slots ss xs i =
     (if xs = [] then ss else ss[last xs := (ss ! last xs)\<lparr>sptr := sptr (ss ! i)\<rparr>])"

lemma length_unlink [simp]:
  "length (unlink_ptrs ps ss j xs i) = length ps" "length (unlink_slots ss xs i) = length ss"
  by (simp_all add: unlink_ptrs_def unlink_slots_def)

lemma unlink_slots_keep [simp]:
  "skey (unlink_slots ss xs i ! k) = skey (ss ! k)" "sdat (unlink_slots ss xs i ! k) = sdat (ss ! k)"
proof -
  have "skey ((ss[a := (ss ! a)\<lparr>sptr := p\<rparr>]) ! k) = skey (ss ! k) \<and>
        sdat ((ss[a := (ss ! a)\<lparr>sptr := p\<rparr>]) ! k) = sdat (ss ! k)" for a p
    by (cases "a = k"; cases "k < length ss") (simp_all add: list_update_beyond)
  then show "skey (unlink_slots ss xs i ! k) = skey (ss ! k)" "sdat (unlink_slots ss xs i ! k) = sdat (ss ! k)"
    by (simp_all add: unlink_slots_def)
qed

lemma unlink_slots_nth: "k \<noteq> last xs \<or> xs = [] \<Longrightarrow> unlink_slots ss xs i ! k = ss ! k"
  by (auto simp: unlink_slots_def)

lemma map_shape_unlink [simp]: "map shape (unlink_slots ss xs i) = map shape ss"
  by (rule nth_equalityI) (simp_all add: shape_def)

lemma soff_unlink [simp]: "soff n (unlink_slots ss xs i) k = soff n ss k"
  and doff_unlink [simp]: "doff (unlink_slots ss xs i) k = doff ss k"
  by (rule soff_shape doff_shape, simp)+

lemma chain_unlink:
  assumes "chain n ss (ps ! j) (xs @ i # ys)" "j < length ps"
  shows "chain n (unlink_slots ss xs i) (unlink_ptrs ps ss j xs i ! j) (xs @ ys)"
proof (cases xs rule: rev_cases)
  case Nil
  with assms show ?thesis by (simp add: unlink_slots_def unlink_ptrs_def)
next
  case (snoc zs a)
  let ?t = "ss[a := (ss ! a)\<lparr>sptr := sptr (ss ! i)\<rparr>]"
  have c: "chain n ss (ps ! j) (zs @ a # i # ys)" using assms snoc by simp
  then have d: "distinct (zs @ a # i # ys)" by (rule chain_distinct)
  have a: "a < length ss" using c by (rule chain_bound) simp
  have ys: "chain n ss (sptr (ss ! i)) ys" using c by (metis append.assoc append_Cons append_Nil chain_split)
  have "chain n ?t p (zs @ a # ys)" if "chain n ss p (zs @ a # i # ys)" for p
    using that d
  proof (induction zs arbitrary: p)
    case Nil
    then show ?case using a ys by (simp add: chain_upd)
  next
    case (Cons z zs)
    then show ?case using a by auto
  qed
  from this [OF c] show ?thesis using snoc by (simp add: unlink_slots_def unlink_ptrs_def)
qed

lemma chain_unlink_other:
  assumes "chain n ss (ps ! k) zs" "k \<noteq> j" "set zs \<inter> set xs = {}" "\<forall>a \<in> set xs. a < length ss"
  shows "chain n (unlink_slots ss xs i) (unlink_ptrs ps ss j xs i ! k) zs"
proof (cases "xs = []")
  case True
  with assms show ?thesis by (simp add: unlink_slots_def unlink_ptrs_def)
next
  case False
  then have "last xs \<in> set xs" by simp
  with assms have "last xs \<notin> set zs" "last xs < length ss" by auto
  with False assms show ?thesis by (simp add: unlink_slots_def unlink_ptrs_def chain_upd)
qed

end
