(* ===== verification/Db_Inv.thy ===== *)
theory Db_Inv
  imports Db_Chains
begin

text \<open>
  The invariant of a database over its slots and chains, the map it represents, and what
  removing, adding, reusing and overwriting a slot do to both.
\<close>

section \<open>The invariant and the represented map\<close>

record layout =
  lptrs :: "nat list"
  lslots :: "slot list"
  lchains :: "nat list list"

definition hash_of :: "nat \<Rightarrow> string \<Rightarrow> nat" where
  "hash_of n key = unat (db_hash_loop key 1 0) mod n"

definition blank :: "string \<Rightarrow> bool" where
  "blank s \<longleftrightarrow> list_all (\<lambda>c. c = SPACE) s"

text \<open>List 0 is the free list, list \<open>h + 1\<close> the chain of hash value \<open>h\<close>.\<close>

definition lfree :: "layout \<Rightarrow> nat list" where
  "lfree L = lchains L ! 0"

definition live :: "layout \<Rightarrow> nat \<Rightarrow> bool" where
  "live L i \<longleftrightarrow> i < length (lslots L) \<and> i \<notin> set (lfree L)"

definition live_pairs :: "layout \<Rightarrow> (string \<times> string) list" where
  "live_pairs L = map (\<lambda>i. (skey (lslots L ! i), sdat (lslots L ! i)))
                      (filter (\<lambda>i. i \<notin> set (lfree L)) [0..<length (lslots L)])"

definition lmap :: "layout \<Rightarrow> string \<Rightarrow> string option" where
  "lmap L = map_of (live_pairs L)"

definition keys_unique :: "layout \<Rightarrow> bool" where
  "keys_unique L \<longleftrightarrow> (\<forall>i j. live L i \<longrightarrow> live L j \<longrightarrow> skey (lslots L ! i) = skey (lslots L ! j) \<longrightarrow> i = j)"

definition chains_ok :: "nat \<Rightarrow> layout \<Rightarrow> bool" where
  "chains_ok n L \<longleftrightarrow>
     (\<forall>j \<le> n. chain n (lslots L) (lptrs L ! j) (lchains L ! j)) \<and>
     (\<forall>h < n. set (lchains L ! Suc h) = {i. live L i \<and> hash_of n (skey (lslots L ! i)) = h})"

definition free_blank :: "layout \<Rightarrow> bool" where
  "free_blank L \<longleftrightarrow> (\<forall>i \<in> set (lfree L). blank (skey (lslots L ! i)) \<and> blank (sdat (lslots L ! i)))"

definition sizes_ok :: "nat \<Rightarrow> layout \<Rightarrow> bool" where
  "sizes_ok n L \<longleftrightarrow> 0 < n \<and> length (lptrs L) = n + 1 \<and> length (lchains L) = n + 1 \<and>
     slots_ok 0 (lslots L) \<and> (\<forall>i < length (lslots L). ptr_ok (soff n (lslots L) i))"

definition lay_ok :: "nat \<Rightarrow> layout \<Rightarrow> bool" where
  "lay_ok n L \<longleftrightarrow> sizes_ok n L \<and> chains_ok n L \<and> keys_unique L \<and> free_blank L"

lemmas lay_defs = lay_ok_def sizes_ok_def chains_ok_def keys_unique_def free_blank_def

lemma hash_less: "0 < n \<Longrightarrow> hash_of n k < n"
  by (simp add: hash_of_def)

lemma lay_ok_free:
  assumes "lay_ok n L"
  shows "chain n (lslots L) (lptrs L ! 0) (lfree L)" "\<forall>i \<in> set (lfree L). i < length (lslots L)"
  using assms chain_bound by (auto simp: lay_ok_def chains_ok_def lfree_def)

lemma lay_ok_chain:
  assumes "lay_ok n L" "h < n"
  shows "chain n (lslots L) (lptrs L ! Suc h) (lchains L ! Suc h)"
    and "set (lchains L ! Suc h) = {i. live L i \<and> hash_of n (skey (lslots L ! i)) = h}"
  using assms by (auto simp: lay_ok_def chains_ok_def)

lemma lay_ok_ptrs:
  assumes "lay_ok n L" "p \<in> set (lptrs L)"
  shows "ptr_ok p"
proof -
  obtain j where j: "j < length (lptrs L)" "p = lptrs L ! j" using assms by (metis in_set_conv_nth)
  then have "j \<le> n" using assms by (simp add: lay_ok_def sizes_ok_def)
  with assms j show ?thesis by (auto simp: lay_ok_def chains_ok_def sizes_ok_def intro: chain_ptr_ok)
qed

lemma lay_ok_sptr:
  assumes "lay_ok n L" "i < length (lslots L)"
  shows "ptr_ok (sptr (lslots L ! i))"
  using assms slots_ok_nth by (auto simp: lay_ok_def sizes_ok_def slot_ok_def)

lemma lmap_Some:
  assumes "keys_unique L"
  shows "lmap L k = Some d \<longleftrightarrow> (\<exists>i. live L i \<and> skey (lslots L ! i) = k \<and> sdat (lslots L ! i) = d)"
proof -
  have "distinct (map fst (live_pairs L))"
    using assms by (auto simp: live_pairs_def distinct_map inj_on_def keys_unique_def live_def)
  then have "lmap L k = Some d \<longleftrightarrow> (k, d) \<in> set (live_pairs L)"
    by (simp add: lmap_def map_of_eq_Some_iff)
  then show ?thesis by (auto simp: live_pairs_def live_def image_iff)
qed

lemma lmap_None:
  assumes "keys_unique L"
  shows "lmap L k = None \<longleftrightarrow> (\<forall>i. live L i \<longrightarrow> skey (lslots L ! i) \<noteq> k)"
  by (metis assms lmap_Some not_None_eq)

lemma map_eqI: "(\<And>k d. m k = Some d \<longleftrightarrow> m' k = Some d) \<Longrightarrow> m = m'"
  by (rule ext) (metis not_None_eq)

lemma lay_ok_disjoint:
  assumes "lay_ok n L" "j \<le> n" "k \<le> n" "j \<noteq> k"
  shows "set (lchains L ! j) \<inter> set (lchains L ! k) = {}"
proof -
  have "x \<notin> set (lchains L ! 0)" if "h < n" "x \<in> set (lchains L ! Suc h)" for h x
    using lay_ok_chain(2) [OF assms(1) that(1)] that by (auto simp: live_def lfree_def)
  moreover have "g = h" if "g < n" "h < n" "x \<in> set (lchains L ! Suc g)" "x \<in> set (lchains L ! Suc h)" for g h x
    using lay_ok_chain(2) [OF assms(1) that(1)] lay_ok_chain(2) [OF assms(1) that(2)] that by auto
  ultimately show ?thesis using assms by (cases j; cases k) (auto simp: Suc_le_eq)
qed

section \<open>Moving a slot to the front of another list\<close>

definition lay_move :: "nat \<Rightarrow> layout \<Rightarrow> nat \<Rightarrow> nat \<Rightarrow> nat list \<Rightarrow> nat \<Rightarrow> nat list \<Rightarrow> slot \<Rightarrow> layout" where
  "lay_move n L a b xs i ys s =
     \<lparr>lptrs = (unlink_ptrs (lptrs L) (lslots L) a xs i)[b := soff n (lslots L) i],
      lslots = (unlink_slots (lslots L) xs i)[i := s\<lparr>sptr := lptrs L ! b\<rparr>],
      lchains = (lchains L)[a := xs @ ys, b := i # lchains L ! b]\<rparr>"

lemma lay_move_simps [simp]:
  "length (lslots (lay_move n L a b xs i ys s)) = length (lslots L)"
  "length (lptrs (lay_move n L a b xs i ys s)) = length (lptrs L)"
  "length (lchains (lay_move n L a b xs i ys s)) = length (lchains L)"
  "k \<noteq> i \<Longrightarrow> skey (lslots (lay_move n L a b xs i ys s) ! k) = skey (lslots L ! k)"
  "k \<noteq> i \<Longrightarrow> sdat (lslots (lay_move n L a b xs i ys s) ! k) = sdat (lslots L ! k)"
  "i < length (lslots L) \<Longrightarrow> skey (lslots (lay_move n L a b xs i ys s) ! i) = skey s"
  "i < length (lslots L) \<Longrightarrow> sdat (lslots (lay_move n L a b xs i ys s) ! i) = sdat s"
  by (simp_all add: lay_move_def)

lemma slots_ok_unlink:
  assumes "slots_ok 0 ss" "\<forall>a \<in> set xs. a < length ss" "ptr_ok (sptr (ss ! i))"
  shows "slots_ok 0 (unlink_slots ss xs i)"
proof (cases "xs = []")
  case False
  then have a: "last xs < length ss" using assms by simp
  have "slot_ok (doff ss (last xs)) (ss ! last xs)" using assms a by (simp add: slots_ok_nth)
  then have "slot_ok (doff ss (last xs)) ((ss ! last xs)\<lparr>sptr := sptr (ss ! i)\<rparr>)"
    using assms by (simp add: slot_ok_def)
  with False a assms show ?thesis by (simp add: unlink_slots_def slots_ok_upd)
qed (simp add: unlink_slots_def assms)

lemma slot_ok_shape:
  assumes "slot_ok d t" "shape s = shape t" "key_ok (skey s)" "dat_ok (sdat s)" "ptr_ok p"
  shows "slot_ok d (s\<lparr>sptr := p\<rparr>)"
  using assms length_body_shape [of s t d] by (simp add: slot_ok_def)

text \<open>The slot is on list \<open>a\<close>, between \<open>xs\<close> and \<open>ys\<close>; its new contents have its shape.\<close>

definition move_ok :: "nat \<Rightarrow> layout \<Rightarrow> nat \<Rightarrow> nat \<Rightarrow> nat list \<Rightarrow> nat \<Rightarrow> nat list \<Rightarrow> slot \<Rightarrow> bool" where
  "move_ok n L a b xs i ys s \<longleftrightarrow> lay_ok n L \<and> a \<le> n \<and> b \<le> n \<and> a \<noteq> b \<and>
     lchains L ! a = xs @ i # ys \<and> shape s = shape (lslots L ! i) \<and> key_ok (skey s) \<and> dat_ok (sdat s)"

lemma move_okD:
  assumes "move_ok n L a b xs i ys s"
  shows "chain n (lslots L) (lptrs L ! a) (xs @ i # ys)" "distinct (xs @ i # ys)"
    and "i < length (lslots L)" "\<forall>x \<in> set (xs @ ys). x < length (lslots L)"
    and "length (lptrs L) = n + 1" "length (lchains L) = n + 1"
proof -
  show c: "chain n (lslots L) (lptrs L ! a) (xs @ i # ys)"
    using assms by (auto simp: move_ok_def lay_ok_def chains_ok_def)
  then show "distinct (xs @ i # ys)" by (rule chain_distinct)
  show "i < length (lslots L)" "\<forall>x \<in> set (xs @ ys). x < length (lslots L)"
    using chain_bound [OF c] by auto
  show "length (lptrs L) = n + 1" "length (lchains L) = n + 1"
    using assms by (auto simp: move_ok_def lay_ok_def sizes_ok_def)
qed

lemma soff_move [simp]:
  assumes "move_ok n L a b xs i ys s"
  shows "soff n (lslots (lay_move n L a b xs i ys s)) k = soff n (lslots L) k"
proof -
  have "shape (s\<lparr>sptr := p\<rparr>) = shape (unlink_slots (lslots L) xs i ! i)" for p
    using assms by (simp add: move_ok_def shape_def)
  then show ?thesis using move_okD(3) [OF assms] by (simp add: lay_move_def)
qed

lemma sizes_ok_move:
  assumes "move_ok n L a b xs i ys s"
  shows "sizes_ok n (lay_move n L a b xs i ys s)"
proof -
  let ?ss = "lslots L" and ?s = "s\<lparr>sptr := lptrs L ! b\<rparr>"
  have L: "lay_ok n L" "b \<le> n" and sh: "shape ?s = shape (?ss ! i)"
    using assms by (auto simp: move_ok_def)
  have i: "i < length ?ss" and xs: "\<forall>x \<in> set xs. x < length ?ss" using move_okD [OF assms] by auto
  have "ptr_ok (lptrs L ! b)" using L move_okD(5) [OF assms] by (intro lay_ok_ptrs) auto
  then have "slot_ok (doff ?ss i) ?s"
    using assms L i by (intro slot_ok_shape [where t = "?ss ! i"])
      (auto simp: move_ok_def lay_ok_def sizes_ok_def slots_ok_nth)
  moreover have "slots_ok 0 (unlink_slots ?ss xs i)"
    using L xs lay_ok_sptr [OF L(1) i] by (intro slots_ok_unlink) (auto simp: lay_ok_def sizes_ok_def)
  moreover have "shape ?s = shape (unlink_slots ?ss xs i ! i)" using sh by (simp add: shape_def)
  ultimately have "slots_ok 0 (lslots (lay_move n L a b xs i ys s))"
    using i by (simp add: lay_move_def slots_ok_upd)
  then show ?thesis using L soff_move [OF assms] by (simp add: lay_ok_def sizes_ok_def)
qed

lemma chains_move:
  assumes m: "move_ok n L a b xs i ys s" and j: "j \<le> n"
  shows "chain n (lslots (lay_move n L a b xs i ys s)) (lptrs (lay_move n L a b xs i ys s) ! j)
           (lchains (lay_move n L a b xs i ys s) ! j)"
proof -
  let ?ss = "lslots L" and ?us = "unlink_slots (lslots L) xs i"
  let ?up = "unlink_ptrs (lptrs L) ?ss a xs i" and ?s = "s\<lparr>sptr := lptrs L ! b\<rparr>"
  note d = move_okD [OF m]
  have L: "lay_ok n L" "a \<le> n" "b \<le> n" "a \<noteq> b" and ca: "lchains L ! a = xs @ i # ys"
    using m by (auto simp: move_ok_def)
  have sh: "shape ?s = shape (?us ! i)" using m by (simp add: move_ok_def shape_def)
  have other: "chain n ?us (?up ! k) (lchains L ! k)" "i \<notin> set (lchains L ! k)"
    if "k \<le> n" "k \<noteq> a" for k
    using lay_ok_disjoint [OF L(1) that(1) L(2) that(2)] that ca d(4) L(1)
    by (auto simp: lay_ok_def chains_ok_def intro!: chain_unlink_other)
  consider "j = a" | "j = b" | "j \<noteq> a" "j \<noteq> b" by blast
  then show ?thesis
  proof cases
    case 1
    have "chain n ?us (?up ! a) (xs @ ys)" using d L by (intro chain_unlink) auto
    then have "chain n (?us[i := ?s]) (?up ! a) (xs @ ys)" using d sh by (subst chain_upd) auto
    then show ?thesis using 1 d L by (simp add: lay_move_def)
  next
    case 2
    have "chain n (?us[i := ?s]) (soff n ?us i) (i # lchains L ! b)"
      using d sh other [of b] L by (intro chain_link [where p = "?up ! b"]) (auto simp: unlink_ptrs_def)
    then show ?thesis using 2 d L by (simp add: lay_move_def)
  next
    case 3
    then have "chain n (?us[i := ?s]) (?up ! j) (lchains L ! j)"
      using other [of j] j d sh by (subst chain_upd) auto
    then show ?thesis using 3 by (simp add: lay_move_def)
  qed
qed

section \<open>Deleting a record\<close>

definition blanked :: "slot \<Rightarrow> slot" where
  "blanked s = s\<lparr>skey := replicate (length (skey s)) SPACE, sdat := replicate (length (sdat s)) SPACE\<rparr>"

definition lay_del :: "nat \<Rightarrow> layout \<Rightarrow> nat \<Rightarrow> nat list \<Rightarrow> nat \<Rightarrow> nat list \<Rightarrow> layout" where
  "lay_del n L h xs i ys = lay_move n L (Suc h) 0 xs i ys (blanked (lslots L ! i))"

lemma blank_replicate [simp]: "blank (replicate k SPACE)"
  by (simp add: blank_def list_all_length)

lemma key_ok_replicate [simp]: "key_ok (replicate k SPACE)"
  by (auto simp: key_ok_def is_cstr_def SEP_def)

lemma dat_ok_replicate: "dat_ok d \<Longrightarrow> length d = k \<Longrightarrow> dat_ok (replicate k SPACE)"
  by (auto simp: dat_ok_def is_cstr_def)

lemma shape_blanked [simp]: "shape (blanked s) = shape s"
  by (simp add: blanked_def shape_def)

lemma lay_ok_slot: "lay_ok n L \<Longrightarrow> i < length (lslots L) \<Longrightarrow> slot_ok (doff (lslots L) i) (lslots L ! i)"
  by (simp add: lay_ok_def sizes_ok_def slots_ok_nth)

lemma move_ok_del:
  assumes "lay_ok n L" "h < n" "lchains L ! Suc h = xs @ i # ys"
  shows "move_ok n L (Suc h) 0 xs i ys (blanked (lslots L ! i))"
proof -
  have "i < length (lslots L)" using lay_ok_chain(2) [OF assms(1,2)] assms(3) by (auto simp: live_def)
  then have "dat_ok (sdat (lslots L ! i))" using lay_ok_slot [OF assms(1)] by (simp add: slot_ok_def)
  then show ?thesis using assms by (simp add: move_ok_def blanked_def shape_def dat_ok_replicate)
qed

lemma lay_del_live:
  assumes "lay_ok n L" "h < n" "lchains L ! Suc h = xs @ i # ys"
  shows "live (lay_del n L h xs i ys) k \<longleftrightarrow> live L k \<and> k \<noteq> i" and "live L i"
    and "lfree (lay_del n L h xs i ys) = i # lfree L"
  using assms lay_ok_chain(2) [OF assms(1,2)]
  by (auto simp: live_def lay_del_def lay_move_def lfree_def lay_ok_def sizes_ok_def)

lemma lay_del_ok:
  assumes L: "lay_ok n L" and h: "h < n" and c: "lchains L ! Suc h = xs @ i # ys"
  shows "lay_ok n (lay_del n L h xs i ys)"
    and "lmap (lay_del n L h xs i ys) = (lmap L)(skey (lslots L ! i) := None)"
proof -
  let ?L = "lay_del n L h xs i ys"
  note m = move_ok_del [OF L h c] and lv = lay_del_live [OF L h c]
  have i: "i < length (lslots L)" using move_okD [OF m] by simp
  have key: "k \<noteq> i \<Longrightarrow> skey (lslots ?L ! k) = skey (lslots L ! k)"
    "k \<noteq> i \<Longrightarrow> sdat (lslots ?L ! k) = sdat (lslots L ! k)" for k
    by (simp_all add: lay_del_def)
  have "set (lchains ?L ! Suc g) = {k. live ?L k \<and> hash_of n (skey (lslots ?L ! k)) = g}"
    if g: "g < n" for g
  proof (cases "g = h")
    case True
    then have "lchains ?L ! Suc g = xs @ ys"
      using h move_okD(6) [OF m] by (simp add: lay_del_def lay_move_def)
    moreover have "set (xs @ ys) = set (xs @ i # ys) - {i}" using move_okD(2) [OF m] by auto
    ultimately have "set (lchains ?L ! Suc g) = set (lchains L ! Suc g) - {i}" using True c by metis
    also have "\<dots> = {k. live ?L k \<and> hash_of n (skey (lslots ?L ! k)) = g}"
      unfolding lay_ok_chain(2) [OF L g] by (auto simp: lv(1) key)
    finally show ?thesis .
  next
    case False
    then have "lchains ?L ! Suc g = lchains L ! Suc g" by (simp add: lay_del_def lay_move_def)
    then show ?thesis using False lay_ok_chain(2) [OF L g] lay_ok_chain(2) [OF L h] c key lv by auto
  qed
  then have "chains_ok n ?L" using chains_move [OF m] by (simp add: chains_ok_def lay_del_def)
  moreover have ku: "keys_unique ?L" using L key by (auto simp: lay_ok_def keys_unique_def lv)
  moreover have "free_blank ?L" unfolding free_blank_def lv
  proof
    fix k assume "k \<in> set (i # lfree L)"
    then show "blank (skey (lslots ?L ! k)) \<and> blank (sdat (lslots ?L ! k))"
      using L key i by (cases "k = i") (auto simp: lay_ok_def free_blank_def lay_del_def blanked_def)
  qed
  ultimately show "lay_ok n ?L" using sizes_ok_move [OF m] by (simp add: lay_ok_def lay_del_def)
  have kuL: "keys_unique L" using L by (simp add: lay_ok_def)
  show "lmap ?L = (lmap L)(skey (lslots L ! i) := None)"
  proof (rule map_eqI)
    fix k' d'
    have "lmap ?L k' = Some d' \<longleftrightarrow>
        (\<exists>j. live L j \<and> j \<noteq> i \<and> skey (lslots L ! j) = k' \<and> sdat (lslots L ! j) = d')"
      unfolding lmap_Some [OF ku] lv(1) using key by metis
    then show "lmap ?L k' = Some d' \<longleftrightarrow> ((lmap L)(skey (lslots L ! i) := None)) k' = Some d'"
      using kuL lv(2) by (auto simp: lmap_Some [OF kuL] keys_unique_def fun_upd_apply)
  qed
qed

section \<open>Adding a record\<close>

text \<open>In a slot of the free list, and at the end of the files.\<close>

text \<open>What a layout gains with one more live slot, wherever the slot comes from.\<close>

definition lay_ext :: "layout \<Rightarrow> nat \<Rightarrow> string \<Rightarrow> string \<Rightarrow> layout \<Rightarrow> bool" where
  "lay_ext L i k d M \<longleftrightarrow> (\<forall>j. live M j \<longleftrightarrow> live L j \<or> j = i) \<and> \<not> live L i \<and>
     (\<forall>j. live L j \<longrightarrow> skey (lslots M ! j) = skey (lslots L ! j) \<and> sdat (lslots M ! j) = sdat (lslots L ! j)) \<and>
     skey (lslots M ! i) = k \<and> sdat (lslots M ! i) = d"

lemma lay_ext_keys:
  assumes "lay_ext L i k d M" "keys_unique L" "lmap L k = None"
  shows "keys_unique M"
  using assms unfolding keys_unique_def lay_ext_def by (simp add: lmap_None [OF assms(2)]) metis

lemma lay_ext_map:
  assumes e: "lay_ext L i k d M" and u: "keys_unique L" and k: "lmap L k = None"
  shows "lmap M = (lmap L)(k \<mapsto> d)"
proof (rule map_eqI)
  fix k' d'
  have "lmap M k' = Some d' \<longleftrightarrow>
      (\<exists>i. live L i \<and> skey (lslots L ! i) = k' \<and> sdat (lslots L ! i) = d') \<or> k = k' \<and> d = d'"
    unfolding lmap_Some [OF lay_ext_keys [OF e u k]] using e unfolding lay_ext_def by metis
  then show "lmap M k' = Some d' \<longleftrightarrow> ((lmap L)(k \<mapsto> d)) k' = Some d'"
    by (auto simp: lmap_Some [OF u, symmetric] fun_upd_apply k)
qed

lemma lay_ext_hash:
  assumes "lay_ext L i k d M"
  shows "{j. live M j \<and> hash_of n (skey (lslots M ! j)) = g} =
    (if hash_of n k = g then insert i {j. live L j \<and> hash_of n (skey (lslots L ! j)) = g}
     else {j. live L j \<and> hash_of n (skey (lslots L ! j)) = g})"
  using assms by (auto simp: lay_ext_def)

lemma lay_ext_chains:
  assumes e: "lay_ext L i k d M" and L: "lay_ok n L"
    and c: "\<forall>j \<le> n. chain n (lslots M) (lptrs M ! j) (lchains M ! j)"
    and m: "\<forall>g < n. lchains M ! Suc g = (if hash_of n k = g then i # lchains L ! Suc g else lchains L ! Suc g)"
  shows "chains_ok n M"
  using c m lay_ok_chain(2) [OF L] by (simp add: chains_ok_def lay_ext_hash [OF e])

definition lay_reuse :: "nat \<Rightarrow> layout \<Rightarrow> nat \<Rightarrow> nat list \<Rightarrow> nat \<Rightarrow> nat list \<Rightarrow> string \<Rightarrow> string \<Rightarrow> layout" where
  "lay_reuse n L h xs i ys k d =
     lay_move n L 0 (Suc h) xs i ys ((lslots L ! i)\<lparr>skey := k, sdat := d\<rparr>)"

lemma lay_reuse_live:
  assumes m: "move_ok n L 0 (Suc h) xs i ys ((lslots L ! i)\<lparr>skey := k, sdat := d\<rparr>)"
  shows "live (lay_reuse n L h xs i ys k d) j \<longleftrightarrow> live L j \<or> j = i" and "\<not> live L i"
    and "lfree (lay_reuse n L h xs i ys k d) = xs @ ys"
proof -
  note d = move_okD [OF m]
  have f: "lfree L = xs @ i # ys" using m by (simp add: move_ok_def lfree_def)
  show e: "lfree (lay_reuse n L h xs i ys k d) = xs @ ys"
    using d m by (simp add: lay_reuse_def lay_move_def lfree_def move_ok_def)
  show "\<not> live L i" using f by (simp add: live_def)
  show "live (lay_reuse n L h xs i ys k d) j \<longleftrightarrow> live L j \<or> j = i"
    unfolding live_def e f using d by (auto simp: lay_reuse_def)
qed

lemma lay_reuse_ok:
  assumes m: "move_ok n L 0 (Suc h) xs i ys ((lslots L ! i)\<lparr>skey := k, sdat := d\<rparr>)"
    and h: "h = hash_of n k" and k: "lmap L k = None"
  shows "lay_ok n (lay_reuse n L h xs i ys k d)"
    and "lmap (lay_reuse n L h xs i ys k d) = (lmap L)(k \<mapsto> d)"
proof -
  let ?L = "lay_reuse n L h xs i ys k d"
  note lv = lay_reuse_live [OF m] and md = move_okD [OF m]
  have L: "lay_ok n L" "keys_unique L" "Suc h \<le> n" using m by (auto simp: move_ok_def lay_ok_def)
  have "j \<noteq> i" if "live L j" for j using that lv(2) by blast
  then have e: "lay_ext L i k d ?L"
    unfolding lay_ext_def lv(1) using lv(2) md(3) by (simp add: lay_reuse_def)
  have "lchains ?L ! Suc g = (if hash_of n k = g then i # lchains L ! Suc g else lchains L ! Suc g)"
    if "g < n" for g using md that by (simp add: lay_reuse_def lay_move_def h)
  then have "chains_ok n ?L"
    using chains_move [OF m] by (intro lay_ext_chains [OF e L(1)]) (simp_all add: lay_reuse_def)
  moreover have "free_blank ?L" unfolding free_blank_def lv
  proof
    fix j assume j: "j \<in> set (xs @ ys)"
    then have "j \<noteq> i" "j \<in> set (lfree L)" using md(2) m by (auto simp: move_ok_def lfree_def)
    then show "blank (skey (lslots ?L ! j)) \<and> blank (sdat (lslots ?L ! j))"
      using L(1) by (simp add: lay_reuse_def lay_ok_def free_blank_def)
  qed
  ultimately show "lay_ok n ?L"
    using sizes_ok_move [OF m] lay_ext_keys [OF e L(2) k] by (simp add: lay_ok_def lay_reuse_def)
  show "lmap ?L = (lmap L)(k \<mapsto> d)" by (rule lay_ext_map [OF e L(2) k])
qed

definition lay_app :: "nat \<Rightarrow> layout \<Rightarrow> nat \<Rightarrow> string \<Rightarrow> string \<Rightarrow> layout" where
  "lay_app n L h k d =
     \<lparr>lptrs = (lptrs L)[Suc h := soff n (lslots L) (length (lslots L))],
      lslots = lslots L @ [\<lparr>sptr = lptrs L ! Suc h, skey = k, sdat = d\<rparr>],
      lchains = (lchains L)[Suc h := length (lslots L) # lchains L ! Suc h]\<rparr>"

text \<open>There is room for a record at the end: its offset and its size can be written.\<close>

definition room :: "nat \<Rightarrow> layout \<Rightarrow> string \<Rightarrow> string \<Rightarrow> bool" where
  "room n L k d \<longleftrightarrow> ptr_ok (soff n (lslots L) (length (lslots L))) \<and>
     len_ok (length (slot_body (doff (lslots L) (length (lslots L))) \<lparr>sptr = 0, skey = k, sdat = d\<rparr>))"

lemma lay_app_simps:
  assumes "lay_ok n L" "h < n"
  shows "lfree (lay_app n L h k d) = lfree L"
    and "live (lay_app n L h k d) j \<longleftrightarrow> live L j \<or> j = length (lslots L)"
    and "\<not> live L (length (lslots L))"
    and "live L j \<Longrightarrow> lslots (lay_app n L h k d) ! j = lslots L ! j"
    and "lslots (lay_app n L h k d) ! length (lslots L) = \<lparr>sptr = lptrs L ! Suc h, skey = k, sdat = d\<rparr>"
proof -
  show f: "lfree (lay_app n L h k d) = lfree L" by (simp add: lay_app_def lfree_def)
  show "\<not> live L (length (lslots L))" by (simp add: live_def)
  show "live (lay_app n L h k d) j \<longleftrightarrow> live L j \<or> j = length (lslots L)"
    using lay_ok_free(2) [OF assms(1)] unfolding live_def f by (auto simp: lay_app_def)
  show "live L j \<Longrightarrow> lslots (lay_app n L h k d) ! j = lslots L ! j"
    by (simp add: lay_app_def live_def nth_append)
qed (simp add: lay_app_def)

lemma sizes_ok_app:
  assumes L: "lay_ok n L" "h < n" and r: "room n L k d" "key_ok k" "dat_ok d"
  shows "sizes_ok n (lay_app n L h k d)"
proof -
  let ?s = "\<lparr>sptr = lptrs L ! Suc h, skey = k, sdat = d\<rparr>" and ?ss = "lslots L"
  have "ptr_ok (lptrs L ! Suc h)"
    using L by (intro lay_ok_ptrs [OF L(1)]) (simp add: lay_ok_def sizes_ok_def)
  moreover have "slot_body x ?s = slot_body x \<lparr>sptr = 0, skey = k, sdat = d\<rparr>" for x
    by (simp add: slot_body_def)
  ultimately have "slot_ok (doff ?ss (length ?ss)) ?s" using r by (simp add: slot_ok_def room_def)
  then have "slots_ok 0 (?ss @ [?s])"
    using L by (simp add: lay_ok_def sizes_ok_def slots_ok_append doff_def)
  moreover have "ptr_ok (soff n (?ss @ [?s]) i)" if "i < Suc (length ?ss)" for i
    using that L r by (cases "i = length ?ss") (auto simp: room_def lay_ok_def sizes_ok_def)
  ultimately show ?thesis using L by (simp add: lay_app_def lay_ok_def sizes_ok_def)
qed

lemma lay_app_ok:
  assumes L: "lay_ok n L" and r: "room n L k d" "key_ok k" "dat_ok d"
    and h: "h = hash_of n k" and k: "lmap L k = None"
  shows "lay_ok n (lay_app n L h k d)" and "lmap (lay_app n L h k d) = (lmap L)(k \<mapsto> d)"
proof -
  let ?L = "lay_app n L h k d" and ?ss = "lslots L"
  have hn: "h < n" using L h by (simp add: hash_less lay_ok_def sizes_ok_def)
  have len: "length (lptrs L) = n + 1" "length (lchains L) = n + 1" using L by (auto simp: lay_ok_def sizes_ok_def)
  note lv = lay_app_simps [OF L hn]
  have kuL: "keys_unique L" using L by (simp add: lay_ok_def)
  have e: "lay_ext L (length ?ss) k d ?L" unfolding lay_ext_def by (simp add: lv)
  have "chain n (lslots ?L) (lptrs ?L ! j) (lchains ?L ! j)" if "j \<le> n" for j
  proof (cases "j = Suc h")
    case True
    have "chain n (lslots ?L) (soff n ?ss (length ?ss)) (length ?ss # lchains L ! Suc h)"
      using lay_ok_chain(1) [OF L hn] unfolding lay_app_def layout.simps by (rule chain_link_new) simp
    then show ?thesis using True len hn by (simp add: lay_app_def)
  next
    case False
    then show ?thesis using that L by (simp add: lay_app_def lay_ok_def chains_ok_def chain_snoc_slot)
  qed
  moreover have "lchains ?L ! Suc g = (if hash_of n k = g then length ?ss # lchains L ! Suc g else lchains L ! Suc g)"
    if "g < n" for g using that len by (simp add: lay_app_def h)
  ultimately have "chains_ok n ?L" by (intro lay_ext_chains [OF e L]) simp_all
  moreover have "free_blank ?L"
    using L lay_ok_free(2) [OF L] unfolding free_blank_def lv lay_ok_def
    by (auto simp: lay_app_def nth_append)
  ultimately show "lay_ok n ?L"
    using sizes_ok_app [OF L hn r] lay_ext_keys [OF e kuL k] by (simp add: lay_ok_def)
  show "lmap ?L = (lmap L)(k \<mapsto> d)" by (rule lay_ext_map [OF e kuL k])
qed

section \<open>Overwriting the data of a record\<close>

definition lay_upd :: "layout \<Rightarrow> nat \<Rightarrow> string \<Rightarrow> layout" where
  "lay_upd L i d = L\<lparr>lslots := (lslots L)[i := (lslots L ! i)\<lparr>sdat := d\<rparr>]\<rparr>"

lemma lay_upd_ok:
  assumes L: "lay_ok n L" and i: "live L i" and d: "dat_ok d" "length d = length (sdat (lslots L ! i))"
  shows "lay_ok n (lay_upd L i d)" and "lmap (lay_upd L i d) = (lmap L)(skey (lslots L ! i) \<mapsto> d)"
proof -
  let ?L = "lay_upd L i d" and ?s = "(lslots L ! i)\<lparr>sdat := d\<rparr>" and ?ss = "lslots L"
  have il: "i < length ?ss" using i by (simp add: live_def)
  have sh: "shape ?s = shape (?ss ! i)" using d by (simp add: shape_def)
  have key: "skey (lslots ?L ! j) = skey (?ss ! j)" for j
    using il by (cases "i = j") (simp_all add: lay_upd_def)
  have dat: "sdat (lslots ?L ! j) = (if j = i then d else sdat (?ss ! j))" for j
    using il by (simp add: lay_upd_def)
  have f: "lfree ?L = lfree L" "live ?L = live L" by (auto simp: lay_upd_def lfree_def live_def fun_eq_iff)
  have "slot_ok (doff ?ss i) ?s"
    using lay_ok_slot [OF L il] d length_body_shape [OF sh] by (simp add: slot_ok_def)
  then have "slots_ok 0 (?ss[i := ?s])"
    using L il sh by (intro slots_ok_upd) (auto simp: lay_ok_def sizes_ok_def)
  then have "sizes_ok n ?L" using L il sh by (simp add: lay_ok_def sizes_ok_def lay_upd_def)
  moreover have "chain n (lslots ?L) p zs = chain n ?ss p zs" for p zs
    using il sh by (simp add: lay_upd_def chain_upd_keep)
  then have "chains_ok n ?L" using L by (simp add: lay_ok_def chains_ok_def f key) (simp add: lay_upd_def)
  moreover have ku: "keys_unique ?L" and kuL: "keys_unique L"
    using L by (simp_all add: lay_ok_def keys_unique_def f key)
  moreover have "free_blank ?L" using L i by (auto simp: lay_ok_def free_blank_def f key dat live_def)
  ultimately show "lay_ok n ?L" by (simp add: lay_ok_def)
  show "lmap ?L = (lmap L)(skey (?ss ! i) \<mapsto> d)"
  proof (rule map_eqI)
    fix k' d'
    show "lmap ?L k' = Some d' \<longleftrightarrow> ((lmap L)(skey (?ss ! i) \<mapsto> d)) k' = Some d'"
      using i kuL unfolding lmap_Some [OF ku] fun_upd_apply f key dat
      by (auto simp: lmap_Some [OF kuL] keys_unique_def)
  qed
qed

end
