(* ===== verification/Db_Search.thy ===== *)
theory Db_Search
  imports Db_Inv
begin

text \<open>
  The two search loops of the library on a well-formed database: along a hash chain for a
  key, along the free list for an empty record of the right size. Both end within the fuel
  the model gives them.
\<close>

section \<open>What a search leaves alone\<close>

definition db_counts :: "DB \<Rightarrow> 64 word list" where
  "db_counts db = [cnt_delok db, cnt_delerr db, cnt_fetchok db, cnt_fetcherr db, cnt_nextrec db,
     cnt_stor1 db, cnt_stor2 db, cnt_stor3 db, cnt_stor4 db, cnt_storerr db]"

definition same_db :: "DB \<Rightarrow> DB \<Rightarrow> bool" where
  "same_db db db' \<longleftrightarrow> fdata (idxfd db') = fdata (idxfd db) \<and> fdata (datfd db') = fdata (datfd db) \<and>
     chainoff db' = chainoff db \<and> hashoff db' = hashoff db \<and> nhash db' = nhash db \<and>
     held db' = held db \<and> db_counts db' = db_counts db"

lemma same_db_refl [simp]: "same_db db db"
  by (simp add: same_db_def)

lemma same_db_trans: "same_db a b \<Longrightarrow> same_db b c \<Longrightarrow> same_db a c"
  by (simp add: same_db_def)

lemma same_db_view: "same_db db db' \<Longrightarrow> db_view db' ps ss = db_view db ps ss"
  by (simp add: same_db_def db_view_def)

text \<open>The fields of the structure describe slot \<open>i\<close>.\<close>

definition at_rec :: "DB \<Rightarrow> slot list \<Rightarrow> nat \<Rightarrow> bool" where
  "at_rec db ss i \<longleftrightarrow> idxoff db = int (soff (nhash db) ss i) \<and> ptrval db = int (sptr (ss ! i)) \<and>
     idxbuf db = skey (ss ! i) \<and> datoff db = int (doff ss i) \<and> datlen db = length (sdat (ss ! i)) + 1"

text \<open>The chain pointer that points to the slot behind \<open>xs\<close>, on list \<open>j\<close>.\<close>

definition prev_off :: "nat \<Rightarrow> slot list \<Rightarrow> nat \<Rightarrow> nat list \<Rightarrow> nat" where
  "prev_off n ss j xs = (if xs = [] then tab_off j else soff n ss (last xs))"

lemma db_readidx_step:
  assumes "db_view db ps ss" "i < length ss"
  shows "\<exists>db'. db_readidx db (int (soff (nhash db) ss i)) = Inr (int (sptr (ss ! i)), db')
    \<and> same_db db db' \<and> at_rec db' ss i \<and> ptroff db' = ptroff db"
  using db_readidx_view [OF assms] by (simp add: same_db_def at_rec_def db_counts_def)

section \<open>Searching a hash chain\<close>

lemma db_find_loop_miss:
  assumes "db_view db ps ss" "chain (nhash db) ss p zs" "length zs \<le> fuel"
    and "\<forall>i \<in> set zs. skey (ss ! i) \<noteq> key"
  shows "\<exists>db'. db_find_loop fuel db key (int p) = Inr (0, db') \<and> same_db db db'"
  using assms
proof (induction zs arbitrary: p fuel db)
  case Nil
  then show ?case by (auto simp: db_find_loop.simps [of fuel])
next
  case (Cons i zs)
  then obtain m where m: "fuel = Suc m" "length zs \<le> m" by (cases fuel) auto
  have i: "i < length ss" "p = soff (nhash db) ss i" "chain (nhash db) ss (sptr (ss ! i)) zs"
    using Cons.prems by auto
  obtain db1 where r: "db_readidx db (int p) = Inr (int (sptr (ss ! i)), db1)"
    and s: "same_db db db1" and a: "at_rec db1 ss i"
    using db_readidx_step [OF Cons.prems(1) i(1)] i(2) by blast
  let ?db = "db1\<lparr>ptroff := int p\<rparr>"
  have s': "same_db db ?db" using s by (simp add: same_db_def db_counts_def)
  have "nhash ?db = nhash db" using s by (simp add: same_db_def)
  then obtain db2 where "db_find_loop m ?db key (int (sptr (ss ! i))) = Inr (0, db2)" "same_db ?db db2"
    using Cons.IH [of ?db "sptr (ss ! i)" m] Cons.prems i m same_db_view [OF s'] by auto
  then show ?case
    using m r i(2) a Cons.prems(4) same_db_trans [OF s']
    by (auto simp: db_find_loop.simps [of "Suc m"] at_rec_def)
qed

lemma db_find_loop_hit:
  assumes "db_view db ps ss" "chain (nhash db) ss p (xs @ i # ys)" "length xs < fuel"
    and "\<forall>x \<in> set xs. skey (ss ! x) \<noteq> key" "skey (ss ! i) = key" "ptroff db = int po"
  shows "\<exists>db'. db_find_loop fuel db key (int p) = Inr (int (soff (nhash db) ss i), db')
    \<and> same_db db db' \<and> at_rec db' ss i
    \<and> ptroff db' = int (if xs = [] then po else soff (nhash db) ss (last xs))"
  using assms
proof (induction xs arbitrary: p fuel db po)
  case Nil
  then obtain m where m: "fuel = Suc m" by (cases fuel) auto
  have i: "i < length ss" "p = soff (nhash db) ss i" using Nil.prems by auto
  then show ?case
    using db_readidx_step [OF Nil.prems(1) i(1)] m Nil.prems
    by (auto simp: db_find_loop.simps [of "Suc m"] at_rec_def)
next
  case (Cons x xs)
  then obtain m where m: "fuel = Suc m" "length xs < m" by (cases fuel) auto
  have i: "x < length ss" "p = soff (nhash db) ss x" "chain (nhash db) ss (sptr (ss ! x)) (xs @ i # ys)"
    using Cons.prems by auto
  obtain db1 where r: "db_readidx db (int p) = Inr (int (sptr (ss ! x)), db1)"
    and s: "same_db db db1" and a: "at_rec db1 ss x"
    using db_readidx_step [OF Cons.prems(1) i(1)] i(2) by blast
  let ?db = "db1\<lparr>ptroff := int p\<rparr>"
  have s': "same_db db ?db" and n: "nhash ?db = nhash db"
    using s by (auto simp: same_db_def db_counts_def)
  obtain db2 where "db_find_loop m ?db key (int (sptr (ss ! x))) = Inr (int (soff (nhash db) ss i), db2)"
    "same_db ?db db2" "at_rec db2 ss i"
    "ptroff db2 = int (if xs = [] then p else soff (nhash db) ss (last xs))"
    using Cons.IH [of ?db "sptr (ss ! x)" m p, unfolded n] Cons.prems i m same_db_view [OF s'] by auto
  then show ?case
    using m r i(2) a Cons.prems(4) same_db_trans [OF s']
    by (auto simp: db_find_loop.simps [of "Suc m"] at_rec_def)
qed

section \<open>Searching the free list\<close>

lemma db_findfree_loop_miss:
  assumes "db_view db ps ss" "chain (nhash db) ss p zs" "length zs \<le> fuel"
    and "\<forall>i \<in> set zs. \<not> (length (skey (ss ! i)) = kl \<and> length (sdat (ss ! i)) + 1 = dl)"
  shows "\<exists>so db'. db_findfree_loop fuel db kl dl sv (int p) = Inr (so, 0, db') \<and> same_db db db'"
  using assms
proof (induction zs arbitrary: p fuel db sv)
  case Nil
  then show ?case by (auto simp: db_findfree_loop.simps [of fuel])
next
  case (Cons i zs)
  then obtain m where m: "fuel = Suc m" "length zs \<le> m" by (cases fuel) auto
  have i: "i < length ss" "p = soff (nhash db) ss i" "chain (nhash db) ss (sptr (ss ! i)) zs"
    using Cons.prems by auto
  obtain db1 where r: "db_readidx db (int p) = Inr (int (sptr (ss ! i)), db1)"
    and s: "same_db db db1" and a: "at_rec db1 ss i"
    using db_readidx_step [OF Cons.prems(1) i(1)] i(2) by blast
  have n: "nhash db1 = nhash db" using s by (simp add: same_db_def)
  then obtain so db2 where "db_findfree_loop m db1 kl dl (int p) (int (sptr (ss ! i))) = Inr (so, 0, db2)"
    "same_db db1 db2"
    using Cons.IH [of db1 "sptr (ss ! i)" m "int p"] Cons.prems i m same_db_view [OF s] by auto
  then show ?case
    using m r i(2) a Cons.prems(4) same_db_trans [OF s]
    by (auto simp: db_findfree_loop.simps [of "Suc m"] at_rec_def)
qed

lemma db_findfree_loop_hit:
  assumes "db_view db ps ss" "chain (nhash db) ss p (xs @ i # ys)" "length xs < fuel"
    and "\<forall>x \<in> set xs. \<not> (length (skey (ss ! x)) = kl \<and> length (sdat (ss ! x)) + 1 = dl)"
    and "length (skey (ss ! i)) = kl" "length (sdat (ss ! i)) + 1 = dl"
  shows "\<exists>db'. db_findfree_loop fuel db kl dl (int sv) (int p) =
      Inr (int (if xs = [] then sv else soff (nhash db) ss (last xs)), int (soff (nhash db) ss i), db')
    \<and> same_db db db' \<and> at_rec db' ss i"
  using assms
proof (induction xs arbitrary: p fuel db sv)
  case Nil
  then obtain m where m: "fuel = Suc m" by (cases fuel) auto
  have i: "i < length ss" "p = soff (nhash db) ss i" using Nil.prems by auto
  then show ?case
    using db_readidx_step [OF Nil.prems(1) i(1)] m Nil.prems
    by (auto simp: db_findfree_loop.simps [of "Suc m"] at_rec_def)
next
  case (Cons x xs)
  then obtain m where m: "fuel = Suc m" "length xs < m" by (cases fuel) auto
  have i: "x < length ss" "p = soff (nhash db) ss x" "chain (nhash db) ss (sptr (ss ! x)) (xs @ i # ys)"
    using Cons.prems by auto
  obtain db1 where r: "db_readidx db (int p) = Inr (int (sptr (ss ! x)), db1)"
    and s: "same_db db db1" and a: "at_rec db1 ss x"
    using db_readidx_step [OF Cons.prems(1) i(1)] i(2) by blast
  have n: "nhash db1 = nhash db" using s by (simp add: same_db_def)
  obtain db2 where "db_findfree_loop m db1 kl dl (int p) (int (sptr (ss ! x))) =
      Inr (int (if xs = [] then p else soff (nhash db) ss (last xs)), int (soff (nhash db) ss i), db2)"
    "same_db db1 db2" "at_rec db2 ss i"
    using Cons.IH [of db1 "sptr (ss ! x)" m p, unfolded n] Cons.prems i m same_db_view [OF s] by auto
  then show ?case
    using m r i(2) a Cons.prems(4) same_db_trans [OF s]
    by (auto simp: db_findfree_loop.simps [of "Suc m"] at_rec_def)
qed

section \<open>Fuel\<close>

lemma slots_len_ge: "length ss \<le> slots_len d ss"
proof (induction ss arbitrary: d)
  case (Cons s ss)
  have "length ss \<le> slots_len (d + length (sdat s) + 1) ss" by (rule Cons.IH)
  moreover have "1 \<le> slot_len d s" by (simp add: Suc_le_eq)
  ultimately show ?case by simp
qed simp

lemma fuel_enough:
  assumes "db_view db ps ss" "chain (nhash db) ss p zs"
  shows "length zs \<le> fsize (idxfd db)"
proof -
  have "length zs \<le> length ss" using assms(2) by (rule chain_length)
  also have "\<dots> \<le> slots_len 0 ss" by (rule slots_len_ge)
  also have "\<dots> \<le> fsize (idxfd db)"
    using assms(1) length_enc_idx [OF assms(1)] by (simp add: fsize_def db_view_def soff_def)
  finally show ?thesis .
qed

end
