(* ===== verification/Db_Ops.thy ===== *)
theory Db_Ops
  imports Db_Search
begin

text \<open>
  The operations of the library on a database that satisfies the invariant: each returns,
  its result is the one the represented map gives, the invariant holds afterwards and no
  record lock is left behind.
\<close>

definition db_rel :: "DB \<Rightarrow> layout \<Rightarrow> bool" where
  "db_rel db L \<longleftrightarrow> lay_ok (nhash db) L \<and> db_view db (lptrs L) (lslots L)"

definition no_lock :: "lfile \<Rightarrow> nat \<Rightarrow> lockt option" where
  "no_lock = (\<lambda>_ _. None)"

definition one_lock :: "nat \<Rightarrow> lockt \<Rightarrow> lfile \<Rightarrow> nat \<Rightarrow> lockt option" where
  "one_lock m t = (\<lambda>g b. if g = IdxFile \<and> b = m then Some t else None)"

text \<open>Between the search and the final \<^verbatim>\<open>un_lock\<close>: chain \<open>h\<close> is locked.\<close>

definition locked :: "DB \<Rightarrow> layout \<Rightarrow> nat \<Rightarrow> lockt \<Rightarrow> bool" where
  "locked db L h t \<longleftrightarrow> db_rel db L \<and> h < nhash db \<and> chainoff db = int (tab_off (Suc h)) \<and>
     held db = one_lock (tab_off (Suc h)) t"

section \<open>Locks\<close>

lemma lock_reg_simps [simp]:
  "idxfd (lock_reg t f o1 l db) = idxfd db" "datfd (lock_reg t f o1 l db) = datfd db"
  "idxbuf (lock_reg t f o1 l db) = idxbuf db" "datbuf (lock_reg t f o1 l db) = datbuf db"
  "idxoff (lock_reg t f o1 l db) = idxoff db" "datoff (lock_reg t f o1 l db) = datoff db"
  "datlen (lock_reg t f o1 l db) = datlen db" "ptrval (lock_reg t f o1 l db) = ptrval db"
  "ptroff (lock_reg t f o1 l db) = ptroff db" "chainoff (lock_reg t f o1 l db) = chainoff db"
  "hashoff (lock_reg t f o1 l db) = hashoff db" "nhash (lock_reg t f o1 l db) = nhash db"
  "db_errno (lock_reg t f o1 l db) = db_errno db"
  "db_counts (lock_reg t f o1 l db) = db_counts db"
  by (simp_all add: lock_reg_def db_counts_def)

lemma db_counts_simps [simp]:
  "db_counts (db\<lparr>idxfd := f\<rparr>) = db_counts db" "db_counts (db\<lparr>datfd := f\<rparr>) = db_counts db"
  "db_counts (db\<lparr>idxbuf := s\<rparr>) = db_counts db" "db_counts (db\<lparr>datbuf := s\<rparr>) = db_counts db"
  "db_counts (db\<lparr>idxoff := i\<rparr>) = db_counts db" "db_counts (db\<lparr>datoff := i\<rparr>) = db_counts db"
  "db_counts (db\<lparr>datlen := n\<rparr>) = db_counts db" "db_counts (db\<lparr>ptrval := i\<rparr>) = db_counts db"
  "db_counts (db\<lparr>ptroff := i\<rparr>) = db_counts db" "db_counts (db\<lparr>chainoff := i\<rparr>) = db_counts db"
  "db_counts (db\<lparr>held := h\<rparr>) = db_counts db" "db_counts (db\<lparr>db_errno := e\<rparr>) = db_counts db"
  by (simp_all add: db_counts_def)

lemma held_one:
  "held (lock_reg t IdxFile (int m) (Suc 0) db) = (\<lambda>g b. if g = IdxFile \<and> b = m then t else held db g b)"
  by (auto simp: lock_reg_def fun_eq_iff)

lemma held_free:
  "held (lock_reg t IdxFile FREE_OFF (Suc 0) db) = (\<lambda>g b. if g = IdxFile \<and> b = 0 then t else held db g b)"
  using held_one [of t 0 db] by (simp add: FREE_OFF_def)

lemma hash_byte: "h < n \<Longrightarrow> 0 < tab_off (Suc h) \<and> tab_off (Suc h) < hdr_len n"
  by (simp add: hdr_len_def PTR_SZ_def tab_off_def)

lemma locked_unlock:
  "locked db L h t \<Longrightarrow> held (un_lock IdxFile (chainoff db) 1 db) = no_lock"
  unfolding locked_def by (auto simp: held_one one_lock_def no_lock_def fun_eq_iff)

lemma db_rel_cong:
  "same_db db db' \<Longrightarrow> db_rel db' L = db_rel db L"
  by (simp add: db_rel_def same_db_view) (simp add: same_db_def)

lemma locked_cong: "same_db db db' \<Longrightarrow> locked db' L h t = locked db L h t"
  by (simp add: locked_def db_rel_cong) (simp add: same_db_def)

lemma same_db_sym: "same_db db db' \<Longrightarrow> same_db db' db"
  by (simp add: same_db_def)

section \<open>Finding a record\<close>

lemma db_find_start:
  fixes key :: string
  assumes r: "db_rel db L" and l: "held db = no_lock"
  defines "h \<equiv> hash_of (nhash db) key"
  obtains db' where "locked db' L h (if w then WRLCK else RDLCK)" "nhash db' = nhash db"
    "db_counts db' = db_counts db" "ptroff db' = int (tab_off (Suc h))"
    "db_find_and_lock db key w =
       bnd (db_find_loop (Suc (fsize (idxfd db'))) db' key (int (lptrs L ! Suc h)))
         (\<lambda>(off', db4). Inr (if off' = 0 then - 1 else 0, db4))"
proof -
  let ?m = "tab_off (Suc h)" and ?t = "if w then WRLCK else RDLCK"
  let ?db1 = "lock_reg (Some ?t) IdxFile (int ?m) 1 (db\<lparr>chainoff := int ?m, ptroff := int ?m\<rparr>)"
  let ?db2 = "?db1\<lparr>idxfd := (idxfd db)\<lparr>fpos := tab_off (Suc (Suc h))\<rparr>\<rparr>"
  have n: "0 < nhash db" "length (lptrs L) = nhash db + 1" and ho: "hashoff db = int PTR_SZ"
    using r by (auto simp: db_rel_def lay_ok_def sizes_ok_def db_view_def HASH_OFF_def)
  have h: "h < nhash db" unfolding h_def using n by (intro hash_less)
  have co: "int (db_hash db key * PTR_SZ) + hashoff db = int ?m"
    by (simp add: db_hash_def h_def hash_of_def ho tab_off_def)
  have v: "db_view ?db1 (lptrs L) (lslots L)" using r by (simp add: db_rel_def)
  have rp: "db_readptr ?db1 (int ?m) = Inr (int (lptrs L ! Suc h), ?db2)"
    using db_readptr_tab [OF v, of "Suc h"] n h by simp
  have s: "same_db ?db1 ?db2" by (simp add: same_db_def)
  have "locked ?db1 L h ?t"
    using r h v l by (auto simp: locked_def db_rel_def held_one one_lock_def no_lock_def fun_eq_iff)
  then have k: "locked ?db2 L h ?t" by (simp only: locked_cong [OF s])
  have lk: "(if w then writew_lock IdxFile (int ?m) 1 (db\<lparr>chainoff := int ?m, ptroff := int ?m\<rparr>)
      else readw_lock IdxFile (int ?m) 1 (db\<lparr>chainoff := int ?m, ptroff := int ?m\<rparr>)) = ?db1"
    by simp
  have "db_find_and_lock db key w =
      bnd (db_find_loop (Suc (fsize (idxfd ?db2))) ?db2 key (int (lptrs L ! Suc h)))
        (\<lambda>(off', db4). Inr (if off' = 0 then - 1 else 0, db4))"
    unfolding db_find_and_lock_def co Let_def lk using rp by simp
  moreover have "nhash ?db2 = nhash db" "db_counts ?db2 = db_counts db" "ptroff ?db2 = int ?m"
    by simp_all
  ultimately show thesis using k that by blast
qed

lemma db_find_miss:
  assumes r: "db_rel db L" and l: "held db = no_lock" and k: "lmap L key = None"
  shows "\<exists>db'. db_find_and_lock db key w = Inr (- 1, db')
    \<and> locked db' L (hash_of (nhash db) key) (if w then WRLCK else RDLCK)
    \<and> nhash db' = nhash db \<and> db_counts db' = db_counts db"
proof -
  let ?n = "nhash db" and ?h = "hash_of (nhash db) key" and ?t = "if w then WRLCK else RDLCK"
  obtain db1 where d: "locked db1 L ?h ?t" "nhash db1 = ?n" "db_counts db1 = db_counts db"
    "db_find_and_lock db key w =
       bnd (db_find_loop (Suc (fsize (idxfd db1))) db1 key (int (lptrs L ! Suc ?h)))
         (\<lambda>(off', db4). Inr (if off' = 0 then - 1 else 0, db4))"
    using db_find_start [OF r l] by metis
  have v: "db_view db1 (lptrs L) (lslots L)" and L: "lay_ok ?n L" and h: "?h < ?n"
    using d by (auto simp: locked_def db_rel_def)
  have c: "chain (nhash db1) (lslots L) (lptrs L ! Suc ?h) (lchains L ! Suc ?h)"
    using lay_ok_chain(1) [OF L h] d(2) by simp
  have "keys_unique L" using L by (simp add: lay_ok_def)
  then have "\<forall>i \<in> set (lchains L ! Suc ?h). skey (lslots L ! i) \<noteq> key"
    using k lay_ok_chain(2) [OF L h] by (auto simp: lmap_None)
  then obtain db2 where "db_find_loop (Suc (fsize (idxfd db1))) db1 key (int (lptrs L ! Suc ?h)) = Inr (0, db2)"
    and s: "same_db db1 db2"
    using db_find_loop_miss [OF v c _] fuel_enough [OF v c] by (meson le_SucI)
  then show ?thesis using d s locked_cong [OF s] by (auto simp: same_db_def)
qed

lemma db_find_hit:
  assumes r: "db_rel db L" and l: "held db = no_lock" and k: "lmap L key = Some d"
  defines "h \<equiv> hash_of (nhash db) key"
  shows "\<exists>db' xs i ys. db_find_and_lock db key w = Inr (0, db')
    \<and> locked db' L h (if w then WRLCK else RDLCK)
    \<and> nhash db' = nhash db \<and> db_counts db' = db_counts db
    \<and> lchains L ! Suc h = xs @ i # ys \<and> skey (lslots L ! i) = key \<and> sdat (lslots L ! i) = d
    \<and> at_rec db' (lslots L) i \<and> ptroff db' = int (prev_off (nhash db) (lslots L) (Suc h) xs)"
proof -
  let ?n = "nhash db" and ?t = "if w then WRLCK else RDLCK"
  obtain db1 where d1: "locked db1 L h ?t" "nhash db1 = ?n" "db_counts db1 = db_counts db"
    "ptroff db1 = int (tab_off (Suc h))"
    "db_find_and_lock db key w =
       bnd (db_find_loop (Suc (fsize (idxfd db1))) db1 key (int (lptrs L ! Suc h)))
         (\<lambda>(off', db4). Inr (if off' = 0 then - 1 else 0, db4))"
    using db_find_start [OF r l] unfolding h_def by metis
  have v: "db_view db1 (lptrs L) (lslots L)" and L: "lay_ok ?n L" and h: "h < ?n"
    using d1 by (auto simp: locked_def db_rel_def)
  have c: "chain (nhash db1) (lslots L) (lptrs L ! Suc h) (lchains L ! Suc h)"
    using lay_ok_chain(1) [OF L h] d1(2) by simp
  have ku: "keys_unique L" using L by (simp add: lay_ok_def)
  then obtain i where i: "live L i" "skey (lslots L ! i) = key" "sdat (lslots L ! i) = d"
    using k by (auto simp: lmap_Some)
  then have "i \<in> set (lchains L ! Suc h)" using lay_ok_chain(2) [OF L h] by (simp add: h_def)
  then obtain xs ys where xy: "lchains L ! Suc h = xs @ i # ys" by (meson split_list)
  have "distinct (xs @ i # ys)" using chain_distinct [OF c] xy by simp
  then have nx: "\<forall>x \<in> set xs. skey (lslots L ! x) \<noteq> key"
    using lay_ok_chain(2) [OF L h] xy ku i unfolding keys_unique_def by auto
  have "length xs < Suc (fsize (idxfd db1))" using fuel_enough [OF v c] xy by simp
  then obtain db2 where "db_find_loop (Suc (fsize (idxfd db1))) db1 key (int (lptrs L ! Suc h))
      = Inr (int (soff ?n (lslots L) i), db2)"
    and s: "same_db db1 db2" and a: "at_rec db2 (lslots L) i"
    and p: "ptroff db2 = int (prev_off ?n (lslots L) (Suc h) xs)"
    using db_find_loop_hit [OF v c [unfolded xy] _ nx i(2) d1(4), unfolded d1(2)]
    unfolding prev_off_def by blast
  then have "db_find_and_lock db key w = Inr (0, db2)" using d1(5) by simp
  then show ?thesis using d1 s a p locked_cong [OF s] xy i
    by (intro exI [of _ db2] exI [of _ xs] exI [of _ i] exI [of _ ys]) (simp add: same_db_def)
qed

end
