(* ===== verification/Db_Updates.thy ===== *)
theory Db_Updates
  imports Db_Ops
begin

text \<open>
  The steps of the library that change the files, on a database whose chain is locked:
  removing the record that was found, finding and unlinking an empty record, adding a
  record, replacing one.
\<close>

lemma prev_off_shape: "map shape ss = map shape ts \<Longrightarrow> prev_off n ss j xs = prev_off n ts j xs"
  using soff_shape [of ss ts n "last xs"] by (simp add: prev_off_def)

lemma db_writeptr_prev:
  assumes v: "db_view db ps ss" and j: "j < length ps" and xs: "\<forall>x \<in> set xs. x < length ss" and p: "ptr_ok p"
  shows "\<exists>f. db_writeptr db (int (prev_off (nhash db) ss j xs)) (int p) = Inr (db\<lparr>idxfd := f\<rparr>)
    \<and> db_view (db\<lparr>idxfd := f\<rparr>) (if xs = [] then ps[j := p] else ps)
        (if xs = [] then ss else ss[last xs := (ss ! last xs)\<lparr>sptr := p\<rparr>])"
proof (cases "xs = []")
  case True
  then show ?thesis using db_writeptr_tab [OF v j p] by (simp add: prev_off_def)
next
  case False
  then have "last xs < length ss" using xs by simp
  then show ?thesis using False db_writeptr_slot [OF v _ p, of "last xs"] by (simp add: prev_off_def)
qed

section \<open>Deleting\<close>

text \<open>The files after the blanks are written over the record, before it changes lists.\<close>

lemma db_blank_record:
  assumes v: "db_view db ps ss" and i: "i < length ss"
    and o1: "idxoff db = int (soff (nhash db) ss i)" and o2: "datoff db = int (doff ss i)"
    and k: "idxbuf db = replicate (length (skey (ss ! i))) SPACE"
    and d: "datbuf db = replicate (length (sdat (ss ! i))) SPACE"
  obtains db2 db3 db4 where "db_writedat db (datbuf db) (datoff db) SEEK_SET = Inr db2"
    "db_readptr db2 FREE_OFF = Inr (int (ps ! 0), db3)"
    "db_writeidx db3 (idxbuf db3) (idxoff db3) SEEK_SET (int (ps ! 0)) = Inr db4"
    "db_view db4 ps (ss[i := (blanked (ss ! i))\<lparr>sptr := ps ! 0\<rparr>])" "ptrval db3 = ptrval db"
    "idxoff db4 = idxoff db" "ptroff db4 = ptroff db" "held db4 = held db" "chainoff db4 = chainoff db"
    "nhash db4 = nhash db" "db_counts db4 = db_counts db"
proof -
  let ?n = "nhash db" and ?s1 = "ss[i := (ss ! i)\<lparr>sdat := datbuf db\<rparr>]"
  have ok: "slot_ok (doff ss i) (ss ! i)" using v i by (simp add: db_view_def slots_ok_nth)
  have ld: "length (datbuf db) = length (sdat (ss ! i))" "length (idxbuf db) = length (skey (ss ! i))"
    by (simp_all add: d k)
  have dd: "dat_ok (datbuf db)"
    using ok dat_ok_replicate [of "sdat (ss ! i)"] by (simp add: d slot_ok_def)
  have p0: "0 < length ps" "ptr_ok (ps ! 0)" using v by (auto simp: db_view_def intro: nth_mem)
  obtain f where w1: "db_writedat db (datbuf db) (int (doff ss i)) SEEK_SET =
      Inr (db\<lparr>datfd := f, datoff := int (doff ss i), datlen := length (datbuf db) + 1\<rparr>)"
    and v1: "db_view (db\<lparr>datfd := f\<rparr>) ps ?s1"
    using db_writedat_slot [OF v i dd ld(1)] by blast
  let ?db2 = "db\<lparr>datfd := f, datoff := int (doff ss i), datlen := length (datbuf db) + 1\<rparr>"
  let ?db3 = "?db2\<lparr>idxfd := (idxfd db)\<lparr>fpos := tab_off 1\<rparr>\<rparr>"
  have v2: "db_view ?db2 ps ?s1" using v1 by simp
  have r: "db_readptr ?db2 FREE_OFF = Inr (int (ps ! 0), ?db3)"
    using db_readptr_tab [OF v2 p0(1)] unfolding tab_off_0 by simp
  have v3: "db_view ?db3 ps ?s1" using v1 by (simp add: db_view_def)
  have sh: "shape ((ss ! i)\<lparr>sdat := datbuf db\<rparr>) = shape (ss ! i)" using ld by (simp add: shape_def)
  obtain g where w2: "db_writeidx ?db3 (idxbuf db) (int (soff ?n ss i)) SEEK_SET (int (ps ! 0)) =
      Inr (?db3\<lparr>idxfd := g, idxbuf := slot_body (doff ss i) ((?s1 ! i)\<lparr>sptr := ps ! 0, skey := idxbuf db\<rparr>),
               idxoff := int (soff ?n ss i), ptrval := int (ps ! 0)\<rparr>)"
    and v4: "db_view (?db3\<lparr>idxfd := g\<rparr>) ps (?s1[i := (?s1 ! i)\<lparr>sptr := ps ! 0, skey := idxbuf db\<rparr>])"
    using db_writeidx_slot [OF v3 _ p0(2), of i "idxbuf db"] i sh ld k by auto
  have "(?s1 ! i)\<lparr>sptr := ps ! 0, skey := idxbuf db\<rparr> = (blanked (ss ! i))\<lparr>sptr := ps ! 0\<rparr>"
    using i by (simp add: blanked_def k d)
  then have "db_view (?db3\<lparr>idxfd := g\<rparr>) ps (ss[i := (blanked (ss ! i))\<lparr>sptr := ps ! 0\<rparr>])"
    using v4 by simp
  then show thesis
    using that [OF _ r] w1 w2 o1 o2 by simp
qed

lemma db_dodelete_ok:
  assumes k: "locked db L h WRLCK" and c: "lchains L ! Suc h = xs @ i # ys"
    and a: "at_rec db (lslots L) i" and p: "ptroff db = int (prev_off (nhash db) (lslots L) (Suc h) xs)"
  shows "\<exists>db'. db_dodelete db = Inr db' \<and> locked db' (lay_del (nhash db) L h xs i ys) h WRLCK
    \<and> nhash db' = nhash db \<and> db_counts db' = db_counts db"
proof -
  let ?n = "nhash db" and ?ss = "lslots L" and ?ps = "lptrs L"
  let ?b = "(blanked (?ss ! i))\<lparr>sptr := ?ps ! 0\<rparr>" and ?L = "lay_del (nhash db) L h xs i ys"
  have L: "lay_ok ?n L" and h: "h < ?n" and v: "db_view db ?ps ?ss"
    using k by (auto simp: locked_def db_rel_def)
  note m = move_ok_del [OF L h c]
  have i: "i < length ?ss" and xs: "\<forall>x \<in> set xs. x < length ?ss" and d: "distinct (xs @ i # ys)"
    and lp: "length ?ps = ?n + 1" using move_okD [OF m] by auto
  let ?db1 = "writew_lock IdxFile FREE_OFF 1 (db\<lparr>datbuf := replicate (datlen db - 1) SPACE,
                idxbuf := replicate (length (idxbuf db)) SPACE\<rparr>)"
  have v1: "db_view ?db1 ?ps ?ss" and n1: "nhash ?db1 = ?n" and c1: "db_counts ?db1 = db_counts db"
    using v by simp_all
  obtain db2 db3 db4 where w: "db_writedat ?db1 (datbuf ?db1) (datoff ?db1) SEEK_SET = Inr db2"
    "db_readptr db2 FREE_OFF = Inr (int (?ps ! 0), db3)"
    "db_writeidx db3 (idxbuf db3) (idxoff db3) SEEK_SET (int (?ps ! 0)) = Inr db4"
    and v4: "db_view db4 ?ps (?ss[i := ?b])" and e4: "ptrval db3 = ptrval ?db1"
    "idxoff db4 = idxoff ?db1" "ptroff db4 = ptroff ?db1" "held db4 = held ?db1"
    "chainoff db4 = chainoff ?db1" "nhash db4 = nhash ?db1" "db_counts db4 = db_counts ?db1"
    by (rule db_blank_record [OF v1 i]) (use a in \<open>auto simp: at_rec_def\<close>)
  have so: "ptr_ok (soff ?n ?ss i)" using L i by (simp add: lay_ok_def sizes_ok_def)
  have z: "0 < length ?ps" using lp by simp
  obtain f5 where w5: "db_writeptr db4 FREE_OFF (idxoff db4) = Inr (db4\<lparr>idxfd := f5\<rparr>)"
    and v5: "db_view (db4\<lparr>idxfd := f5\<rparr>) (?ps[0 := soff ?n ?ss i]) (?ss[i := ?b])"
    using db_writeptr_tab [OF v4 z so] a e4 unfolding tab_off_0 by (auto simp: at_rec_def)
  let ?db5 = "db4\<lparr>idxfd := f5\<rparr>"
  have po: "ptroff ?db5 = int (prev_off (nhash ?db5) (?ss[i := ?b]) (Suc h) xs)"
    using p e4 i by (simp add: prev_off_def)
  have sp: "ptr_ok (sptr (?ss ! i))" by (rule lay_ok_sptr [OF L i])
  have pv: "ptrval db3 = int (sptr (?ss ! i))" using e4 a by (simp add: at_rec_def)
  obtain f6 where w6: "db_writeptr ?db5 (ptroff ?db5) (ptrval db3) = Inr (?db5\<lparr>idxfd := f6\<rparr>)"
    and v6: "db_view (?db5\<lparr>idxfd := f6\<rparr>)
        (if xs = [] then ?ps[0 := soff ?n ?ss i, Suc h := sptr (?ss ! i)] else ?ps[0 := soff ?n ?ss i])
        (if xs = [] then ?ss[i := ?b] else ?ss[i := ?b, last xs := (?ss[i := ?b] ! last xs)\<lparr>sptr := sptr (?ss ! i)\<rparr>])"
    using db_writeptr_prev [OF v5, of "Suc h" xs "sptr (?ss ! i)"] xs sp h lp
    unfolding po pv by auto
  have "last xs \<noteq> i" if "xs \<noteq> []" using that d last_in_set [OF that] by auto
  then have v7: "db_view (?db5\<lparr>idxfd := f6\<rparr>) (lptrs ?L) (lslots ?L)"
    using v6 by (auto simp: lay_del_def lay_move_def unlink_ptrs_def unlink_slots_def list_update_swap
        split: if_splits)
  let ?db7 = "un_lock IdxFile FREE_OFF 1 (?db5\<lparr>idxfd := f6\<rparr>)"
  have "db_dodelete db = Inr ?db7"
    unfolding db_dodelete_def Let_def using w w5 w6 by simp
  moreover have "held ?db7 = held db"
    using k hash_byte [OF h] e4 by (auto simp: held_free locked_def one_lock_def fun_eq_iff)
  moreover have "lay_ok ?n ?L" by (rule lay_del_ok [OF L h c])
  ultimately show ?thesis
    using v7 e4 k by (intro exI [of _ ?db7]) (simp add: locked_def db_rel_def)
qed

section \<open>Finding an empty record\<close>

lemma db_findfree_start:
  assumes k: "locked db L h t"
  defines "db1 \<equiv> writew_lock IdxFile FREE_OFF 1 db"
  obtains db2 where "db_readptr db1 FREE_OFF = Inr (int (lptrs L ! 0), db2)" "same_db db1 db2"
    "db_view db2 (lptrs L) (lslots L)" "nhash db2 = nhash db"
proof -
  let ?db2 = "db1\<lparr>idxfd := (idxfd db1)\<lparr>fpos := tab_off 1\<rparr>\<rparr>"
  have v: "db_view db1 (lptrs L) (lslots L)" using k by (simp add: db1_def locked_def db_rel_def)
  have s: "same_db db1 ?db2" by (simp add: same_db_def)
  have "0 < length (lptrs L)" using v by (simp add: db_view_def)
  then have "db_readptr db1 FREE_OFF = Inr (int (lptrs L ! 0), ?db2)"
    using db_readptr_tab [OF v, of 0] unfolding tab_off_0 by simp
  moreover have "db_view ?db2 (lptrs L) (lslots L)" using v by simp
  moreover have "nhash ?db2 = nhash db" by (simp add: db1_def)
  ultimately show thesis using s that by blast
qed

lemma free_unlock_held:
  assumes "locked db L h t" "held db' = held (writew_lock IdxFile FREE_OFF 1 db)"
  shows "held (un_lock IdxFile FREE_OFF 1 db') = held db"
proof -
  have h: "held db = one_lock (tab_off (Suc h)) t" using assms(1) by (simp add: locked_def)
  have "0 < tab_off (Suc h)" by (simp add: tab_off_def PTR_SZ_def)
  then show ?thesis unfolding One_nat_def held_free assms(2) h
    by (auto simp: one_lock_def fun_eq_iff)
qed

definition fits :: "layout \<Rightarrow> nat \<Rightarrow> nat \<Rightarrow> nat \<Rightarrow> bool" where
  "fits L kl dl i \<longleftrightarrow> length (skey (lslots L ! i)) = kl \<and> length (sdat (lslots L ! i)) + 1 = dl"

lemma db_findfree_miss:
  assumes k: "locked db L h t" and n: "\<forall>i \<in> set (lfree L). \<not> fits L kl dl i"
  shows "\<exists>db'. db_findfree db kl dl = Inr (- 1, db') \<and> locked db' L h t
    \<and> nhash db' = nhash db \<and> db_counts db' = db_counts db"
proof -
  let ?db1 = "writew_lock IdxFile FREE_OFF 1 db"
  obtain db2 where r: "db_readptr ?db1 FREE_OFF = Inr (int (lptrs L ! 0), db2)" "same_db ?db1 db2"
    and v: "db_view db2 (lptrs L) (lslots L)" and n2: "nhash db2 = nhash db"
    by (rule db_findfree_start [OF k]) auto
  have L: "lay_ok (nhash db2) L" using k n2 by (simp add: locked_def db_rel_def)
  note c = lay_ok_free(1) [OF L]
  obtain so db3 where l: "db_findfree_loop (Suc (fsize (idxfd db2))) db2 kl dl FREE_OFF (int (lptrs L ! 0)) = Inr (so, 0, db3)"
    and s: "same_db db2 db3"
    using db_findfree_loop_miss [OF v c le_SucI [OF fuel_enough [OF v c]]] n unfolding fits_def by blast
  have s3: "same_db ?db1 db3" using r(2) s by (rule same_db_trans)
  let ?db4 = "un_lock IdxFile FREE_OFF 1 db3"
  have "db_findfree db kl dl = Inr (- 1, ?db4)"
    unfolding db_findfree_def Let_def using r l by simp
  moreover have h: "held ?db4 = held db" using s3 by (intro free_unlock_held [OF k]) (simp add: same_db_def)
  have s4: "same_db db ?db4" using s3 h by (simp add: same_db_def)
  moreover have "locked ?db4 L h t" using k by (simp only: locked_cong [OF s4])
  ultimately show ?thesis by (metis same_db_def)
qed

lemma db_findfree_hit:
  assumes k: "locked db L h t" and n: "\<exists>i \<in> set (lfree L). fits L kl dl i"
  shows "\<exists>xs i ys db'. lchains L ! 0 = xs @ i # ys \<and> fits L kl dl i \<and> db_findfree db kl dl = Inr (0, db')
    \<and> db_view db' (unlink_ptrs (lptrs L) (lslots L) 0 xs i) (unlink_slots (lslots L) xs i)
    \<and> idxoff db' = int (soff (nhash db) (lslots L) i) \<and> datoff db' = int (doff (lslots L) i)
    \<and> held db' = held db \<and> chainoff db' = chainoff db
    \<and> nhash db' = nhash db \<and> db_counts db' = db_counts db"
proof -
  let ?db1 = "writew_lock IdxFile FREE_OFF 1 db" and ?ss = "lslots L"
  obtain db2 where r: "db_readptr ?db1 FREE_OFF = Inr (int (lptrs L ! 0), db2)" "same_db ?db1 db2"
    and v: "db_view db2 (lptrs L) ?ss" and n2: "nhash db2 = nhash db"
    by (rule db_findfree_start [OF k]) auto
  have L: "lay_ok (nhash db2) L" using k n2 by (simp add: locked_def db_rel_def)
  obtain xs i ys where xy: "lfree L = xs @ i # ys" "fits L kl dl i" "\<forall>x \<in> set xs. \<not> fits L kl dl x"
    using split_list_first_prop [of "lfree L" "fits L kl dl"] n by metis
  note c = lay_ok_free(1) [OF L, unfolded xy(1)]
  have lx: "length xs < Suc (fsize (idxfd db2))" using fuel_enough [OF v c] by simp
  have i: "i < length ?ss" and x: "\<forall>x \<in> set xs. x < length ?ss" using chain_bound [OF c] by auto
  obtain db3 where l: "db_findfree_loop (Suc (fsize (idxfd db2))) db2 kl dl (int (tab_off 0)) (int (lptrs L ! 0)) =
      Inr (int (prev_off (nhash db2) ?ss 0 xs), int (soff (nhash db2) ?ss i), db3)"
    and s: "same_db db2 db3" and a: "at_rec db3 ?ss i"
    using db_findfree_loop_hit [OF v c lx] xy unfolding fits_def prev_off_def by blast
  have v3: "db_view db3 (lptrs L) ?ss" using v same_db_view [OF s] by simp
  have s3: "same_db ?db1 db3" using r(2) s by (rule same_db_trans)
  have n3: "nhash db3 = nhash db2" using s by (simp add: same_db_def)
  have z: "0 < length (lptrs L)" using v by (simp add: db_view_def)
  have pv: "ptrval db3 = int (sptr (?ss ! i))" using a by (simp add: at_rec_def)
  obtain f where w: "db_writeptr db3 (int (prev_off (nhash db2) ?ss 0 xs)) (ptrval db3) = Inr (db3\<lparr>idxfd := f\<rparr>)"
    and v4: "db_view (db3\<lparr>idxfd := f\<rparr>) (unlink_ptrs (lptrs L) ?ss 0 xs i) (unlink_slots ?ss xs i)"
    using db_writeptr_prev [OF v3 z x lay_ok_sptr [OF L i]] n3 pv
    by (auto simp: unlink_ptrs_def unlink_slots_def)
  let ?db4 = "un_lock IdxFile FREE_OFF 1 (db3\<lparr>idxfd := f\<rparr>)"
  have "db_findfree db kl dl = Inr (0, ?db4)"
    unfolding db_findfree_def Let_def using r l w tab_off_0 by simp
  moreover have h: "held ?db4 = held db" using s3 by (intro free_unlock_held [OF k]) (simp add: same_db_def)
  ultimately show ?thesis
    using xy v4 a n2 n3 s3
    by (intro exI [of _ xs] exI [of _ i] exI [of _ ys] exI [of _ ?db4])
       (simp add: at_rec_def lfree_def same_db_def)
qed

section \<open>Adding a record\<close>

text \<open>
  What a store leaves behind: the new map, the chain still locked, and an index file that
  is longer by one record at most.
\<close>

definition REC_MAX :: nat where
  "REC_MAX = PTR_SZ + IDXLEN_SZ + IDXLEN_MAX"

definition idx_len :: "nat \<Rightarrow> layout \<Rightarrow> nat" where
  "idx_len n L = soff n (lslots L) (length (lslots L))"

definition stored :: "DB \<Rightarrow> layout \<Rightarrow> nat \<Rightarrow> string \<Rightarrow> string \<Rightarrow> DB \<Rightarrow> layout \<Rightarrow> bool" where
  "stored db L h k d db' L' \<longleftrightarrow> locked db' L' h WRLCK \<and> nhash db' = nhash db \<and> lmap L' = (lmap L)(k \<mapsto> d) \<and>
     idx_len (nhash db) L' \<le> idx_len (nhash db) L + REC_MAX"

lemma idx_len_app:
  assumes "room n L k d"
  shows "idx_len n (lay_app n L h k d) \<le> idx_len n L + REC_MAX"
proof -
  have "length (slot_body x \<lparr>sptr = lptrs L ! Suc h, skey = k, sdat = d\<rparr>) =
      length (slot_body x \<lparr>sptr = 0, skey = k, sdat = d\<rparr>)" for x
    by (simp add: slot_body_def)
  then show ?thesis using assms
    by (simp add: idx_len_def lay_app_def soff_def slots_len_append slot_len_def room_def len_ok_def
        REC_MAX_def doff_def db_consts)
qed

lemma idx_len_move: "move_ok n L a b xs i ys s \<Longrightarrow> idx_len n (lay_move n L a b xs i ys s) = idx_len n L"
  by (simp add: idx_len_def)

lemma idx_len_del:
  "lay_ok n L \<Longrightarrow> h < n \<Longrightarrow> lchains L ! Suc h = xs @ i # ys \<Longrightarrow> idx_len n (lay_del n L h xs i ys) = idx_len n L"
  using idx_len_move [OF move_ok_del] by (simp add: lay_del_def)

lemma idx_len_upd:
  "i < length (lslots L) \<Longrightarrow> length d = length (sdat (lslots L ! i)) \<Longrightarrow> idx_len n (lay_upd L i d) = idx_len n L"
  by (simp add: idx_len_def lay_upd_def shape_def)

lemma db_append_ok:
  assumes k: "locked db L h WRLCK" and r: "room (nhash db) L key d" "key_ok key" "dat_ok d"
    and h: "h = hash_of (nhash db) key" and m: "lmap L key = None"
  shows "\<exists>db'. db_store_append db key d (int (lptrs L ! Suc h)) = Inr db'
    \<and> stored db L h key d db' (lay_app (nhash db) L h key d) \<and> db_counts db' = db_counts db"
proof -
  let ?n = "nhash db" and ?p = "lptrs L ! Suc h" and ?e = "length (lslots L)"
  have L: "lay_ok ?n L" and v: "db_view db (lptrs L) (lslots L)" and hn: "h < ?n"
    and co: "chainoff db = int (tab_off (Suc h))" and hl: "held db = one_lock (tab_off (Suc h)) WRLCK"
    using k by (auto simp: locked_def db_rel_def)
  have j: "Suc h < length (lptrs L)" using v hn by (simp add: db_view_def)
  have p: "ptr_ok ?p" using v j by (simp add: db_view_def)
  have "slot_body x \<lparr>sptr = ?p, skey = key, sdat = d\<rparr> = slot_body x \<lparr>sptr = 0, skey = key, sdat = d\<rparr>" for x
    by (simp add: slot_body_def)
  then obtain f g hh where w: "db_store_append db key d (int ?p) = Inr (db\<lparr>idxfd := f, datfd := g,
        idxbuf := slot_body (doff (lslots L) ?e) \<lparr>sptr = ?p, skey = key, sdat = d\<rparr>,
        idxoff := int (soff ?n (lslots L) ?e), datoff := int (doff (lslots L) ?e),
        datlen := length d + 1, ptrval := int ?p, held := hh\<rparr>)" (is "_ = Inr ?db'")
    and v': "db_view (db\<lparr>idxfd := f, datfd := g\<rparr>) ((lptrs L)[Suc h := soff ?n (lslots L) ?e])
        (lslots L @ [\<lparr>sptr = ?p, skey = key, sdat = d\<rparr>])"
    and hh: "hh = (\<lambda>g b. if g = IdxFile \<and> hdr_len ?n \<le> b then None
                           else if g = DatFile then None else held db g b)"
    using db_store_append_view [OF v p r(2,3) _ _ co j] r(1) unfolding room_def by fastforce
  have "hh = held db" using hash_byte [OF hn] hl by (auto simp: hh one_lock_def fun_eq_iff)
  moreover have "db_view ?db' (lptrs (lay_app ?n L h key d)) (lslots (lay_app ?n L h key d))"
    using v' by (simp add: lay_app_def db_view_def)
  ultimately show ?thesis
    using w lay_app_ok [OF L r h m] hn co hl idx_len_app [OF r(1)]
    by (intro exI [of _ ?db']) (simp add: stored_def locked_def db_rel_def)
qed

text \<open>The empty record that was found and unlinked takes the new one.\<close>

lemma db_reuse_ok:
  assumes L: "lay_ok (nhash db) L" and h: "h = hash_of (nhash db) key" and m: "lmap L key = None"
    and xy: "lchains L ! 0 = xs @ i # ys" "fits L (length key) (length d + 1) i" and ok: "key_ok key" "dat_ok d"
    and v: "db_view db (unlink_ptrs (lptrs L) (lslots L) 0 xs i) (unlink_slots (lslots L) xs i)"
    and o1: "idxoff db = int (soff (nhash db) (lslots L) i)" "datoff db = int (doff (lslots L) i)"
    and k: "chainoff db = int (tab_off (Suc h))" "held db = one_lock (tab_off (Suc h)) WRLCK"
  obtains db3 db4 db5 where "db_writedat db d (datoff db) SEEK_SET = Inr db3"
    "db_writeidx db3 key (idxoff db3) SEEK_SET (int (lptrs L ! Suc h)) = Inr db4"
    "db_writeptr db4 (chainoff db4) (idxoff db4) = Inr db5"
    "stored db L h key d db5 (lay_reuse (nhash db) L h xs i ys key d)" "db_counts db5 = db_counts db"
proof -
  let ?n = "nhash db" and ?ss = "lslots L" and ?p = "lptrs L ! Suc h" and ?us = "unlink_slots (lslots L) xs i"
  let ?s = "(?ss ! i)\<lparr>sdat := d\<rparr>" and ?s' = "(?ss ! i)\<lparr>sdat := d, sptr := lptrs L ! Suc h, skey := key\<rparr>"
  have hn: "h < ?n" using L h by (simp add: hash_less lay_ok_def sizes_ok_def)
  have mo: "move_ok ?n L 0 (Suc h) xs i ys ((?ss ! i)\<lparr>skey := key, sdat := d\<rparr>)"
    using L hn xy ok by (simp add: move_ok_def fits_def shape_def)
  note md = move_okD [OF mo]
  have j: "Suc h < length (lptrs L)" using md(5) hn by simp
  have p: "ptr_ok ?p" using j by (intro lay_ok_ptrs [OF L]) simp
  have "last xs \<noteq> i \<or> xs = []" using md(2) last_in_set [of xs] by auto
  then have ui: "?us ! i = ?ss ! i" by (simp add: unlink_slots_nth)
  have i: "i < length ?us" using md(3) by simp
  have len: "length d = length (sdat (?us ! i))" "length key = length (skey (?us ! i))"
    using xy(2) by (simp_all add: ui fits_def)
  have sh: "shape ?s = shape (?us ! i)" using len by (simp add: shape_def ui)
  obtain f where w1: "db_writedat db d (int (doff ?us i)) SEEK_SET =
      Inr (db\<lparr>datfd := f, datoff := int (doff ?us i), datlen := length d + 1\<rparr>)" (is "_ = Inr ?db3")
    and v1: "db_view (db\<lparr>datfd := f\<rparr>) (unlink_ptrs (lptrs L) ?ss 0 xs i) (?us[i := ?s])"
    using db_writedat_slot [OF v i ok(2) len(1)] ui by auto
  have v1': "db_view ?db3 (unlink_ptrs (lptrs L) ?ss 0 xs i) (?us[i := ?s])" using v1 by simp
  obtain g where w2: "db_writeidx ?db3 key (int (soff ?n ?us i)) SEEK_SET (int ?p) =
      Inr (?db3\<lparr>idxfd := g, idxbuf := slot_body (doff ?us i) ?s', idxoff := int (soff ?n ?us i),
               ptrval := int ?p\<rparr>)" (is "_ = Inr ?db4")
    and v2: "db_view (?db3\<lparr>idxfd := g\<rparr>) (unlink_ptrs (lptrs L) ?ss 0 xs i) (?us[i := ?s'])"
    using db_writeidx_slot [OF v1' _ p ok(1), of i] i len sh ui by auto
  have v2': "db_view ?db4 (unlink_ptrs (lptrs L) ?ss 0 xs i) (?us[i := ?s'])" using v2 by simp
  have so: "ptr_ok (soff ?n ?ss i)" using L md(3) by (simp add: lay_ok_def sizes_ok_def)
  have j': "Suc h < length (unlink_ptrs (lptrs L) ?ss 0 xs i)" using j by simp
  obtain g' where w3: "db_writeptr ?db4 (int (tab_off (Suc h))) (int (soff ?n ?ss i)) = Inr (?db4\<lparr>idxfd := g'\<rparr>)"
    and v3: "db_view (?db4\<lparr>idxfd := g'\<rparr>) ((unlink_ptrs (lptrs L) ?ss 0 xs i)[Suc h := soff ?n ?ss i]) (?us[i := ?s'])"
    using db_writeptr_tab [OF v2' j' so] by blast
  have "db_view (?db4\<lparr>idxfd := g'\<rparr>) (lptrs (lay_reuse ?n L h xs i ys key d)) (lslots (lay_reuse ?n L h xs i ys key d))"
    using v3 by (cases "?ss ! i") (simp add: lay_reuse_def lay_move_def)
  then have "stored db L h key d (?db4\<lparr>idxfd := g'\<rparr>) (lay_reuse ?n L h xs i ys key d)"
    using lay_reuse_ok [OF mo h m] k hn idx_len_move [OF mo] by (simp add: lay_reuse_def stored_def locked_def db_rel_def)
  then show thesis using that [of ?db3 ?db4 "?db4\<lparr>idxfd := g'\<rparr>"] w1 w2 w3 o1 k by simp
qed

text \<open>One of the ten counters goes up by one, as an unsigned long does.\<close>

definition tally :: "DB \<Rightarrow> nat \<Rightarrow> 64 word list" where
  "tally db c = (db_counts db)[c := db_counts db ! c + 1]"

lemma tally_cong: "db_counts db = db_counts db' \<Longrightarrow> tally db c = tally db' c"
  by (simp add: tally_def)

lemma db_store_new_ok:
  assumes k: "locked db L h WRLCK" and h: "h = hash_of (nhash db) key" and m: "lmap L key = None"
    and ok: "key_ok key" "dat_ok d"
    and r: "(\<exists>i \<in> set (lfree L). fits L (length key) (length d + 1) i) \<or> room (nhash db) L key d"
  shows "\<exists>db' L'. db_store_new db key d = Inr db' \<and> stored db L h key d db' L'
    \<and> db_counts db' = tally db (if \<exists>i \<in> set (lfree L). fits L (length key) (length d + 1) i then 6 else 5)"
proof -
  let ?n = "nhash db" and ?p = "lptrs L ! Suc h"
  let ?db1 = "db\<lparr>idxfd := (idxfd db)\<lparr>fpos := tab_off (Suc (Suc h))\<rparr>\<rparr>"
  have v: "db_view db (lptrs L) (lslots L)" and hn: "h < ?n" and co: "chainoff db = int (tab_off (Suc h))"
    using k by (auto simp: locked_def db_rel_def)
  have "Suc h < length (lptrs L)" using v hn by (simp add: db_view_def)
  then have rp: "db_readptr db (chainoff db) = Inr (int ?p, ?db1)"
    using db_readptr_tab [OF v] co by simp
  have s: "same_db db ?db1" by (simp add: same_db_def)
  have k1: "locked ?db1 L h WRLCK" using k by (simp only: locked_cong [OF s])
  show ?thesis
  proof (cases "\<exists>i \<in> set (lfree L). fits L (length key) (length d + 1) i")
    case False
    then have n: "\<forall>i \<in> set (lfree L). \<not> fits L (length key) (length d + 1) i" by blast
    obtain db2 where f: "db_findfree ?db1 (length key) (length d + 1) = Inr (- 1, db2)"
      and k2: "locked db2 L h WRLCK" "nhash db2 = ?n" "db_counts db2 = db_counts db"
      using db_findfree_miss [OF k1 n] by auto
    obtain db3 where a: "db_store_append db2 key d (int ?p) = Inr db3"
      and st: "stored db2 L h key d db3 (lay_app ?n L h key d)" "db_counts db3 = db_counts db2"
      using db_append_ok [OF k2(1), unfolded k2(2), OF _ ok h m] r False by blast
    have "stored db L h key d (db3\<lparr>cnt_stor1 := cnt_stor1 db3 + 1\<rparr>) (lay_app ?n L h key d)"
      using st(1) k2(2) by (auto simp: stored_def locked_def db_rel_def)
    moreover have "db_counts (db3\<lparr>cnt_stor1 := cnt_stor1 db3 + 1\<rparr>) = tally db 5"
      using st(2) k2(3) by (simp add: tally_def db_counts_def)
    ultimately show ?thesis using False rp f a unfolding db_store_new_def by auto
  next
    case True
    obtain xs i ys db2 where xy: "lchains L ! 0 = xs @ i # ys" "fits L (length key) (length d + 1) i"
      and f: "db_findfree ?db1 (length key) (length d + 1) = Inr (0, db2)"
      and v2: "db_view db2 (unlink_ptrs (lptrs L) (lslots L) 0 xs i) (unlink_slots (lslots L) xs i)"
      and e: "idxoff db2 = int (soff (nhash ?db1) (lslots L) i)" "datoff db2 = int (doff (lslots L) i)"
        "held db2 = held ?db1" "chainoff db2 = chainoff ?db1" "nhash db2 = nhash ?db1" "db_counts db2 = db_counts ?db1"
      using db_findfree_hit [OF k1 True] by blast
    have n2: "nhash db2 = ?n" and c2: "db_counts db2 = db_counts db" using e(5,6) by simp_all
    have L2: "lay_ok (nhash db2) L" and h2: "h = hash_of (nhash db2) key"
      and o2: "idxoff db2 = int (soff (nhash db2) (lslots L) i)" "datoff db2 = int (doff (lslots L) i)"
      and kk: "chainoff db2 = int (tab_off (Suc h))" "held db2 = one_lock (tab_off (Suc h)) WRLCK"
      using k e h by (auto simp: locked_def db_rel_def)
    obtain db3 db4 db5 where w: "db_writedat db2 d (datoff db2) SEEK_SET = Inr db3"
      "db_writeidx db3 key (idxoff db3) SEEK_SET (int (lptrs L ! Suc h)) = Inr db4"
      "db_writeptr db4 (chainoff db4) (idxoff db4) = Inr db5"
      and st: "stored db2 L h key d db5 (lay_reuse (nhash db2) L h xs i ys key d)" "db_counts db5 = db_counts db2"
      by (rule db_reuse_ok [OF L2 h2 m xy ok v2 o2 kk]) blast
    have "stored db L h key d (db5\<lparr>cnt_stor2 := cnt_stor2 db5 + 1\<rparr>) (lay_reuse ?n L h xs i ys key d)"
      using st(1) n2 by (auto simp: stored_def locked_def db_rel_def)
    moreover have "db_counts (db5\<lparr>cnt_stor2 := cnt_stor2 db5 + 1\<rparr>) = tally db 6"
      using st(2) c2 by (simp add: tally_def db_counts_def)
    ultimately show ?thesis using True rp f w unfolding db_store_new_def by auto
  qed
qed

section \<open>Replacing a record\<close>

lemma room_del:
  assumes "lay_ok n L" "h < n" "lchains L ! Suc h = xs @ i # ys"
  shows "room n (lay_del n L h xs i ys) key d = room n L key d"
proof -
  let ?M = "lay_del n L h xs i ys"
  note m = move_ok_del [OF assms]
  have "map shape (lslots ?M) = map shape (lslots L)"
    unfolding lay_del_def lay_move_def layout.simps using move_okD(3) [OF m]
    by (subst map_shape_upd) (auto simp: shape_def blanked_def)
  then show ?thesis using soff_shape [of "lslots ?M" "lslots L"] doff_shape [of "lslots ?M" "lslots L"]
    by (simp add: room_def) (simp add: lay_del_def)
qed

lemma db_store_replace_ok:
  assumes k: "locked db L h WRLCK" and h: "h = hash_of (nhash db) key"
    and c: "lchains L ! Suc h = xs @ i # ys" and i: "skey (lslots L ! i) = key" "sdat (lslots L ! i) = d0"
    and a: "at_rec db (lslots L) i" "ptroff db = int (prev_off (nhash db) (lslots L) (Suc h) xs)"
    and ok: "key_ok key" "dat_ok d" and r: "length d = length d0 \<or> room (nhash db) L key d"
  shows "\<exists>db' L'. db_store_replace db key d = Inr db' \<and> stored db L h key d db' L'
    \<and> db_counts db' = tally db (if length d = length d0 then 8 else 7)"
proof (cases "length d = length d0")
  case False
  let ?n = "nhash db" and ?M = "lay_del (nhash db) L h xs i ys"
  have L: "lay_ok ?n L" and hn: "h < ?n" using k by (auto simp: locked_def db_rel_def)
  obtain db1 where w1: "db_dodelete db = Inr db1" and k1: "locked db1 ?M h WRLCK" "nhash db1 = ?n"
    "db_counts db1 = db_counts db" using db_dodelete_ok [OF k c a] by blast
  let ?db2 = "db1\<lparr>idxfd := (idxfd db1)\<lparr>fpos := tab_off (Suc (Suc h))\<rparr>\<rparr>"
  have v: "db_view db1 (lptrs ?M) (lslots ?M)" and co: "chainoff db1 = int (tab_off (Suc h))"
    using k1 by (auto simp: locked_def db_rel_def)
  have "Suc h < length (lptrs ?M)" using v hn k1(2) by (simp add: db_view_def)
  then have rp: "db_readptr db1 (chainoff db1) = Inr (int (lptrs ?M ! Suc h), ?db2)"
    using db_readptr_tab [OF v] co by simp
  have s: "same_db db1 ?db2" by (simp add: same_db_def)
  have k2: "locked ?db2 ?M h WRLCK" using k1(1) by (simp only: locked_cong [OF s])
  have m: "lmap ?M = (lmap L)(key := None)" using lay_del_ok(2) [OF L hn c] i by simp
  obtain db3 where w3: "db_store_append ?db2 key d (int (lptrs ?M ! Suc h)) = Inr db3"
    and st: "stored ?db2 ?M h key d db3 (lay_app ?n ?M h key d)" "db_counts db3 = db_counts ?db2"
    using db_append_ok [OF k2, of key d] r False ok h k1(2) m room_del [OF L hn c] by fastforce
  have "stored db L h key d (db3\<lparr>cnt_stor3 := cnt_stor3 db3 + 1\<rparr>) (lay_app ?n ?M h key d)"
    using st(1) k1(2) m idx_len_del [OF L hn c] by (auto simp: stored_def locked_def db_rel_def)
  moreover have "db_counts (db3\<lparr>cnt_stor3 := cnt_stor3 db3 + 1\<rparr>) = tally db 7"
    using st(2) k1(3) by (simp add: tally_def db_counts_def)
  moreover have "length d + 1 \<noteq> datlen db" using a(1) i False by (simp add: at_rec_def)
  ultimately show ?thesis using False w1 rp w3 unfolding db_store_replace_def by auto
next
  case True
  let ?n = "nhash db" and ?ss = "lslots L" and ?M = "lay_upd L i d"
  have L: "lay_ok ?n L" and hn: "h < ?n" and v: "db_view db (lptrs L) ?ss" using k by (auto simp: locked_def db_rel_def)
  have li: "live L i" using lay_ok_chain(2) [OF L hn] c by auto
  then have il: "i < length ?ss" by (simp add: live_def)
  have len: "length d = length (sdat (?ss ! i))" using True i by simp
  obtain f where w: "db_writedat db d (int (doff ?ss i)) SEEK_SET =
      Inr (db\<lparr>datfd := f, datoff := int (doff ?ss i), datlen := length d + 1\<rparr>)" (is "_ = Inr ?db1")
    and v1: "db_view (db\<lparr>datfd := f\<rparr>) (lptrs L) (?ss[i := (?ss ! i)\<lparr>sdat := d\<rparr>])"
    using db_writedat_slot [OF v il ok(2) len] by blast
  have "db_view ?db1 (lptrs ?M) (lslots ?M)" using v1 by (simp add: lay_upd_def)
  then have "stored db L h key d (?db1\<lparr>cnt_stor4 := cnt_stor4 ?db1 + 1\<rparr>) ?M"
    using lay_upd_ok [OF L li ok(2) len] k i idx_len_upd [OF il len] by (simp add: stored_def locked_def db_rel_def)
  moreover have "db_counts (?db1\<lparr>cnt_stor4 := cnt_stor4 ?db1 + 1\<rparr>) = tally db 8"
    by (simp add: tally_def db_counts_def)
  moreover have "datoff db = int (doff ?ss i)" "length d + 1 = datlen db" using a(1) len by (simp_all add: at_rec_def)
  ultimately show ?thesis using True w unfolding db_store_replace_def by auto
qed

end
