(* ===== verification/Db_Store.thy ===== *)
theory Db_Store
  imports Db_Updates
begin

text \<open>
  The interface of the library against a map from keys to data: \<open>db_repr db m\<close> says that
  the files of \<open>db\<close> are well formed, hold the map \<open>m\<close>, and no record lock is held. Every
  call returns, answers as the map does, and leaves such a database behind.
\<close>

definition db_repr :: "DB \<Rightarrow> (string \<rightharpoonup> string) \<Rightarrow> bool" where
  "db_repr db m \<longleftrightarrow> (\<exists>L. db_rel db L \<and> held db = no_lock \<and> lmap L = m)"

definition db_files :: "DB \<Rightarrow> string \<times> string" where
  "db_files db = (fdata (idxfd db), fdata (datfd db))"

lemma db_reprI: "db_rel db L \<Longrightarrow> held db = no_lock \<Longrightarrow> lmap L = m \<Longrightarrow> db_repr db m"
  by (auto simp: db_repr_def)

section \<open>Sizes\<close>

lemma idx_size: "db_rel db L \<Longrightarrow> fsize (idxfd db) = idx_len (nhash db) L"
  unfolding idx_len_def using length_enc_idx by (auto simp: db_rel_def db_view_def fsize_def)

lemma dat_size: "db_rel db L \<Longrightarrow> fsize (datfd db) = doff (lslots L) (length (lslots L))"
  by (simp add: db_rel_def db_view_def fsize_def doff_def)

lemma enc_dat_bound: "slots_ok d ss \<Longrightarrow> length (enc_dat ss) \<le> 1024 * length ss"
proof (induction ss arbitrary: d)
  case (Cons s ss)
  then have "length (sdat s) + 1 \<le> 1024" "length (enc_dat ss) \<le> 1024 * length ss"
    by (auto simp: slot_ok_def dat_ok_def db_consts)
  then show ?case by simp
qed simp

text \<open>
  A key of 1 to 1000 bytes without a colon fits in an index record whatever the offset of
  its data is; a record at the end can be linked while the index file is no longer than
  the biggest pointer.
\<close>

definition key_fit :: "string \<Rightarrow> bool" where
  "key_fit key \<longleftrightarrow> key_ok key \<and> 1 \<le> length key \<and> length key \<le> 1000"

definition idx_room :: "DB \<Rightarrow> bool" where
  "idx_room db \<longleftrightarrow> int (fsize (idxfd db)) \<le> PTR_MAX"

lemma room_rel:
  assumes r: "db_rel db L" and k: "key_fit key" "dat_ok d" and s: "idx_room db"
  shows "room (nhash db) L key d"
proof -
  let ?ss = "lslots L" and ?n = "length (lslots L)"
  have ok: "slots_ok 0 ?ss" using r by (simp add: db_rel_def db_view_def)
  have "?n \<le> slots_len 0 ?ss" by (rule slots_len_ge)
  also have "\<dots> \<le> idx_len (nhash db) L" by (simp add: idx_len_def soff_def)
  finally have n: "?n \<le> 9999999" using s idx_size [OF r] by (simp add: idx_room_def PTR_MAX_def)
  have "doff ?ss ?n \<le> 1024 * ?n" using enc_dat_bound [OF ok] by (simp add: doff_def)
  then have "length (dec (doff ?ss ?n)) \<le> 11" using n by (intro length_dec_le) auto
  moreover have "length (dec (length d + 1)) \<le> 4"
    using k by (intro length_dec_le) (auto simp: dat_ok_def db_consts)
  moreover have "1 \<le> length (dec (doff ?ss ?n))" "1 \<le> length (dec (length d + 1))" by (simp_all add: Suc_le_eq)
  ultimately show ?thesis using k s idx_size [OF r]
    unfolding room_def idx_len_def len_ok_def slot_body_def key_fit_def ptr_ok_def idx_room_def db_consts
    by simp
qed

section \<open>Letting the chain go\<close>

lemma un_lock_rel:
  assumes "locked db L h t"
  shows "db_rel (un_lock IdxFile (chainoff db) 1 db) L"
    and "held (un_lock IdxFile (chainoff db) 1 db) = no_lock"
  using assms locked_unlock [OF assms] by (auto simp: locked_def db_rel_def)

lemma locked_frame [simp]:
  "locked (db\<lparr>cnt_fetcherr := c\<rparr>) L h t = locked db L h t" "locked (db\<lparr>cnt_fetchok := c\<rparr>) L h t = locked db L h t"
  "locked (db\<lparr>cnt_delok := c\<rparr>) L h t = locked db L h t" "locked (db\<lparr>cnt_delerr := c\<rparr>) L h t = locked db L h t"
  "locked (db\<lparr>cnt_storerr := c\<rparr>) L h t = locked db L h t" "locked (db\<lparr>db_errno := e\<rparr>) L h t = locked db L h t"
  by (simp_all add: locked_def db_rel_def)

section \<open>Fetching\<close>

lemma db_fetch_ok:
  assumes "db_repr db m"
  obtains db' where "db_fetch db key = Inr (m key, db')" "db_repr db' m" "nhash db' = nhash db"
    "db_files db' = db_files db" "db_counts db' = tally db (if m key = None then 3 else 2)"
proof -
  obtain L where r: "db_rel db L" and l: "held db = no_lock" and m: "lmap L = m"
    using assms by (auto simp: db_repr_def)
  have files: "db_files db' = db_files db" if "db_rel db' L" "nhash db' = nhash db" for db'
    using that r by (simp add: db_files_def db_rel_def db_view_def)
  let ?ul = "\<lambda>db. un_lock IdxFile (chainoff db) 1 db"
  show thesis
  proof (cases "m key")
    case None
    obtain db1 where f: "db_find_and_lock db key False = Inr (- 1, db1)" and n: "nhash db1 = nhash db"
      and k: "locked db1 L (hash_of (nhash db) key) RDLCK" and c: "db_counts db1 = db_counts db"
      using db_find_miss [OF r l, of key False] None m by auto
    let ?db2 = "db1\<lparr>cnt_fetcherr := cnt_fetcherr db1 + 1\<rparr>"
    have k2: "locked ?db2 L (hash_of (nhash db) key) RDLCK" using k by simp
    have "db_fetch db key = Inr (m key, ?ul ?db2)" using f None by (simp add: db_fetch_def)
    moreover have "db_counts (?ul ?db2) = tally db 3" using c by (simp add: tally_def) (simp add: db_counts_def)
    ultimately show thesis
      using that [of "?ul ?db2"] un_lock_rel [OF k2] files [of "?ul ?db2"] n m None by (auto intro: db_reprI)
  next
    case (Some d)
    obtain db1 xs i ys where f: "db_find_and_lock db key False = Inr (0, db1)" and n: "nhash db1 = nhash db"
      and k: "locked db1 L (hash_of (nhash db) key) RDLCK" and c: "db_counts db1 = db_counts db"
      and ch: "lchains L ! Suc (hash_of (nhash db) key) = xs @ i # ys" and d: "sdat (lslots L ! i) = d"
      and a: "at_rec db1 (lslots L) i"
      using db_find_hit [OF r l, of key d False] Some m by auto
    have v: "db_view db1 (lptrs L) (lslots L)" and L: "lay_ok (nhash db) L" and h: "hash_of (nhash db) key < nhash db"
      using k n by (auto simp: locked_def db_rel_def)
    have "i \<in> set (lchains L ! Suc (hash_of (nhash db) key))" by (simp add: ch)
    then have "i < length (lslots L)" unfolding lay_ok_chain(2) [OF L h] by (simp add: live_def)
    then obtain db2 where g: "db_readdat db1 = Inr (d, db2)" and s: "same_db db1 db2"
      using db_readdat_view [OF v] a d by (auto simp: at_rec_def same_db_def)
    have "locked db2 L (hash_of (nhash db) key) RDLCK" using k by (simp only: locked_cong [OF s])
    then have k2: "locked (db2\<lparr>cnt_fetchok := cnt_fetchok db2 + 1\<rparr>) L (hash_of (nhash db) key) RDLCK" by simp
    let ?db3 = "db2\<lparr>cnt_fetchok := cnt_fetchok db2 + 1\<rparr>"
    have "db_fetch db key = Inr (m key, ?ul ?db3)" using f g Some by (simp add: db_fetch_def)
    moreover have "db_counts (?ul ?db3) = tally db 2" using c s by (simp add: tally_def same_db_def) (simp add: db_counts_def)
    moreover have "nhash (?ul ?db3) = nhash db" using s n by (simp add: same_db_def)
    ultimately show thesis
      using that [of "?ul ?db3"] un_lock_rel [OF k2] files [of "?ul ?db3"] m Some by (auto intro: db_reprI)
  qed
qed

section \<open>Deleting\<close>

lemma db_delete_ok:
  assumes "db_repr db m"
  obtains db' where "db_delete db key = Inr (if m key = None then - 1 else 0, db')"
    "db_repr db' (m(key := None))" "nhash db' = nhash db" "fsize (idxfd db') = fsize (idxfd db)"
    "db_counts db' = tally db (if m key = None then 1 else 0)"
proof -
  obtain L where r: "db_rel db L" and l: "held db = no_lock" and m: "lmap L = m"
    using assms by (auto simp: db_repr_def)
  let ?ul = "\<lambda>db. un_lock IdxFile (chainoff db) 1 db"
  show thesis
  proof (cases "m key")
    case None
    obtain db1 where f: "db_find_and_lock db key True = Inr (- 1, db1)" and n: "nhash db1 = nhash db"
      and k: "locked db1 L (hash_of (nhash db) key) WRLCK" and c: "db_counts db1 = db_counts db"
      using db_find_miss [OF r l, of key True] None m by auto
    let ?db2 = "db1\<lparr>cnt_delerr := cnt_delerr db1 + 1\<rparr>"
    have k2: "locked ?db2 L (hash_of (nhash db) key) WRLCK" using k by simp
    have e: "m(key := None) = m" using None by (simp add: fun_upd_idem)
    have "db_delete db key = Inr (- 1, ?ul ?db2)" using f by (simp add: db_delete_def)
    moreover have "db_counts (?ul ?db2) = tally db 1" using c by (simp add: tally_def) (simp add: db_counts_def)
    moreover have "fsize (idxfd (?ul ?db2)) = fsize (idxfd db)"
      using idx_size [OF r] idx_size [OF un_lock_rel(1) [OF k2]] n by simp
    ultimately show thesis
      using that [of "?ul ?db2"] un_lock_rel [OF k2] n m None e by (auto intro: db_reprI)
  next
    case (Some d)
    obtain db1 xs i ys where f: "db_find_and_lock db key True = Inr (0, db1)" and n: "nhash db1 = nhash db"
      and k: "locked db1 L (hash_of (nhash db) key) WRLCK" and c: "db_counts db1 = db_counts db"
      and ch: "lchains L ! Suc (hash_of (nhash db) key) = xs @ i # ys" and ky: "skey (lslots L ! i) = key"
      and a: "at_rec db1 (lslots L) i"
      and p: "ptroff db1 = int (prev_off (nhash db) (lslots L) (Suc (hash_of (nhash db) key)) xs)"
      using db_find_hit [OF r l, of key d True] Some m by auto
    let ?h = "hash_of (nhash db) key" and ?M = "lay_del (nhash db) L (hash_of (nhash db) key) xs i ys"
    obtain db2 where g: "db_dodelete db1 = Inr db2" and k2: "locked db2 ?M ?h WRLCK" and n2: "nhash db2 = nhash db"
      and c2: "db_counts db2 = db_counts db" using db_dodelete_ok [OF k ch a] p n c by auto
    have L: "lay_ok (nhash db) L" and h: "?h < nhash db" using k n by (auto simp: locked_def db_rel_def)
    have mm: "lmap ?M = m(key := None)" using lay_del_ok(2) [OF L h ch] ky m by simp
    let ?db3 = "db2\<lparr>cnt_delok := cnt_delok db2 + 1\<rparr>"
    have k3: "locked ?db3 ?M ?h WRLCK" using k2 by simp
    have "db_delete db key = Inr (0, ?ul ?db3)" using f g by (simp add: db_delete_def)
    moreover have "db_counts (?ul ?db3) = tally db 0" using c2 by (simp add: tally_def) (simp add: db_counts_def)
    moreover have "fsize (idxfd (?ul ?db3)) = fsize (idxfd db)"
      using idx_size [OF r] idx_size [OF un_lock_rel(1) [OF k3]] n2 idx_len_del [OF L h ch] by simp
    moreover have "nhash (?ul ?db3) = nhash db" using n2 by simp
    ultimately show thesis
      using that [of "?ul ?db3"] un_lock_rel [OF k3] mm Some by (auto intro: db_reprI)
  qed
qed

section \<open>Storing\<close>

definition store_rc :: "(string \<rightharpoonup> string) \<Rightarrow> string \<Rightarrow> int \<Rightarrow> int" where
  "store_rc m key flag =
     (if m key = None then if flag = DB_REPLACE then - 1 else 0 else if flag = DB_INSERT then 1 else 0)"

definition valid_flag :: "int \<Rightarrow> bool" where
  "valid_flag flag \<longleftrightarrow> flag = DB_INSERT \<or> flag = DB_REPLACE \<or> flag = DB_STORE"

lemma db_store_ok:
  assumes "db_repr db m" and fl: "valid_flag flag" and ok: "key_fit key" "dat_ok d" and rm: "idx_room db"
  obtains db' where "db_store db key d flag = Inr (store_rc m key flag, db')"
    "db_repr db' (if store_rc m key flag = 0 then m(key \<mapsto> d) else m)" "nhash db' = nhash db"
    "fsize (idxfd db') \<le> fsize (idxfd db) + REC_MAX"
    "store_rc m key flag \<noteq> 0 \<Longrightarrow> db_files db' = db_files db \<and> db_counts db' = tally db 9"
    "store_rc m key flag = - 1 \<Longrightarrow> db_errno db' = ENOENT"
    "store_rc m key flag = 0 \<Longrightarrow> db_counts db' \<in> tally db ` {5, 6, 7, 8}"
proof -
  obtain L where r: "db_rel db L" and l: "held db = no_lock" and m: "lmap L = m"
    using assms(1) by (auto simp: db_repr_def)
  let ?ul = "\<lambda>db. un_lock IdxFile (chainoff db) 1 db" and ?n = "nhash db" and ?h = "hash_of (nhash db) key"
  note goal = that and room = room_rel [OF r ok rm]
  have kd: "key_ok key" using ok by (simp add: key_fit_def)
  have len: "\<not> (length d + 1 < DATLEN_MIN \<or> DATLEN_MAX < length d + 1)" using ok by (simp add: dat_ok_def)
  have fl': "\<not> (flag \<noteq> DB_INSERT \<and> flag \<noteq> DB_REPLACE \<and> flag \<noteq> DB_STORE)" using fl by (auto simp: valid_flag_def)
  have ne: "DB_INSERT \<noteq> DB_REPLACE" by (simp add: db_consts)
  have err: thesis if w: "db_store db key d flag = Inr (store_rc m key flag, ?ul db')" and k: "locked db' L ?h WRLCK"
      "nhash db' = ?n" "db_counts db' = tally db 9" "store_rc m key flag \<noteq> 0"
      "store_rc m key flag = - 1 \<Longrightarrow> db_errno db' = ENOENT" for db'
  proof (rule goal [OF w])
    note u = un_lock_rel [OF k(1)]
    show "db_repr (?ul db') (if store_rc m key flag = 0 then m(key \<mapsto> d) else m)"
      using u m k by (auto intro: db_reprI)
    show "fsize (idxfd (?ul db')) \<le> fsize (idxfd db) + REC_MAX" using idx_size [OF r] idx_size [OF u(1)] k by simp
    have "db_files (?ul db') = db_files db" using u(1) r k by (simp add: db_files_def db_rel_def db_view_def)
    then show "db_files (?ul db') = db_files db \<and> db_counts (?ul db') = tally db 9" using k by simp
  qed (use k in simp_all)
  have fin: thesis if w: "db_store db key d flag = Inr (0, ?ul db')" and z: "store_rc m key flag = 0"
      and k: "stored db L ?h key d db' L'" "db_counts db' \<in> tally db ` {5, 6, 7, 8}" for db' L'
  proof (rule goal)
    have k1: "locked db' L' ?h WRLCK" and n: "nhash db' = ?n" and mm: "lmap L' = m(key \<mapsto> d)"
      and g: "idx_len ?n L' \<le> idx_len ?n L + REC_MAX" using k(1) m by (auto simp: stored_def)
    note u = un_lock_rel [OF k1]
    show "db_store db key d flag = Inr (store_rc m key flag, ?ul db')" using w z by simp
    show "db_repr (?ul db') (if store_rc m key flag = 0 then m(key \<mapsto> d) else m)"
      using u mm z by (auto intro: db_reprI)
    show "fsize (idxfd (?ul db')) \<le> fsize (idxfd db) + REC_MAX" using idx_size [OF r] idx_size [OF u(1)] n g by simp
    show "nhash (?ul db') = ?n" using n by simp
  qed (use z k in auto)
  show thesis
  proof (cases "m key")
    case None
    obtain db1 where f: "db_find_and_lock db key True = Inr (- 1, db1)" and n: "nhash db1 = ?n"
      and k: "locked db1 L ?h WRLCK" and c: "db_counts db1 = db_counts db"
      using db_find_miss [OF r l, of key True] None m by auto
    show thesis
    proof (cases "flag = DB_REPLACE")
      case True
      show thesis
        by (rule err [of "db1\<lparr>cnt_storerr := cnt_storerr db1 + 1, db_errno := ENOENT\<rparr>"])
          (use f k n c None True fl' len in \<open>simp_all add: db_store_def store_rc_def tally_def\<close>,
           simp add: db_counts_def)
    next
      case False
      have mk: "lmap L key = None" using None m by simp
      obtain db2 L' where w: "db_store_new db1 key d = Inr db2" and s: "stored db1 L ?h key d db2 L'"
        and ct: "db_counts db2 = tally db1 (if \<exists>i \<in> set (lfree L). fits L (length key) (length d + 1) i then 6 else 5)"
        using db_store_new_ok [OF k _ _ kd ok(2), unfolded n, OF refl _ disjI2 [OF room]] mk by blast
      have cc: "db_counts db2 \<in> tally db ` {5, 6, 7, 8}" unfolding ct tally_cong [OF c] by simp
      have "stored db L ?h key d db2 L'" using s n by (simp add: stored_def)
      then show thesis using f w False None fl' len cc
        by (intro fin [of db2 L']) (simp_all add: db_store_def store_rc_def)
    qed
  next
    case (Some d0)
    obtain db1 xs i ys where f: "db_find_and_lock db key True = Inr (0, db1)" and n: "nhash db1 = ?n"
      and k: "locked db1 L ?h WRLCK" and c: "db_counts db1 = db_counts db"
      and ch: "lchains L ! Suc ?h = xs @ i # ys" and i: "skey (lslots L ! i) = key" "sdat (lslots L ! i) = d0"
      and a: "at_rec db1 (lslots L) i" and p: "ptroff db1 = int (prev_off ?n (lslots L) (Suc ?h) xs)"
      using db_find_hit [OF r l, of key d0 True] Some m by auto
    show thesis
    proof (cases "flag = DB_INSERT")
      case True
      show thesis
        by (rule err [of "db1\<lparr>cnt_storerr := cnt_storerr db1 + 1\<rparr>"])
          (use f k n c Some True fl' len ne in \<open>simp_all add: db_store_def store_rc_def tally_def\<close>,
           simp add: db_counts_def)
    next
      case False
      obtain db2 L' where w: "db_store_replace db1 key d = Inr db2" and s: "stored db1 L ?h key d db2 L'"
        and ct: "db_counts db2 = tally db1 (if length d = length d0 then 8 else 7)"
        using db_store_replace_ok [OF k _ ch i a _ kd ok(2), unfolded n, OF refl p disjI2 [OF room]] by blast
      have cc: "db_counts db2 \<in> tally db ` {5, 6, 7, 8}" unfolding ct tally_cong [OF c] by simp
      have "stored db L ?h key d db2 L'" using s n by (simp add: stored_def)
      then show thesis using f w False Some fl' len cc
        by (intro fin [of db2 L']) (simp_all add: db_store_def store_rc_def)
    qed
  qed
qed

end
