(* ===== verification/Db_Scan.thy ===== *)
theory Db_Scan
  imports Db_Store
begin

text \<open>
  \<^verbatim>\<open>db_rewind\<close> and \<^verbatim>\<open>db_nextrec\<close>: reading the index records one after the other. Calling
  \<^verbatim>\<open>db_nextrec\<close> until it returns nothing yields every record whose key is not blank, once.
\<close>

section \<open>The sequence of records\<close>

definition scan_from :: "slot list \<Rightarrow> nat \<Rightarrow> (string \<times> string) list" where
  "scan_from ss i = map (\<lambda>s. (skey s, sdat s)) (filter (\<lambda>s. \<not> blank (skey s)) (drop i ss))"

text \<open>The descriptor of the index file stands before slot \<open>i\<close>.\<close>

definition scan_at :: "DB \<Rightarrow> layout \<Rightarrow> nat \<Rightarrow> bool" where
  "scan_at db L i \<longleftrightarrow> db_rel db L \<and> i \<le> length (lslots L) \<and> fpos (idxfd db) = soff (nhash db) (lslots L) i"

lemma scan_from_end [simp]: "scan_from ss (length ss) = []"
  by (simp add: scan_from_def)

lemma scan_from_step:
  "i < length ss \<Longrightarrow> scan_from ss i =
     (if blank (skey (ss ! i)) then scan_from ss (Suc i) else (skey (ss ! i), sdat (ss ! i)) # scan_from ss (Suc i))"
  by (simp add: scan_from_def Cons_nth_drop_Suc [symmetric])

lemma db_readidx_next:
  assumes v: "db_view db ps ss" and i: "i < length ss" and p: "fpos (idxfd db) = soff (nhash db) ss i"
  shows "\<exists>db'. db_readidx db 0 = Inr (int (sptr (ss ! i)), db') \<and> same_db db db' \<and> at_rec db' ss i
    \<and> fpos (idxfd db') = soff (nhash db) ss (Suc i)"
proof -
  let ?A = "enc_ptrs ps @ [NL] @ enc_slots 0 (take i ss)"
  have l: "length ?A = soff (nhash db) ss i" by (rule length_before_slot [OF v])
  have f: "fdata (idxfd db) = ?A @ enc_slot (doff ss i) (ss ! i) @ enc_slots (doff ss (Suc i)) (drop (Suc i) ss)"
    using v enc_idx_slot_split [OF i] by (simp add: db_view_def)
  have s: "soff (nhash db) ss (Suc i) = soff (nhash db) ss i + slot_len (doff ss i) (ss ! i)"
    using i by (simp add: soff_def take_Suc_conv_app_nth slots_len_append doff_def)
  have "lseek (idxfd db) 0 (if (0::int) = 0 then SEEK_CUR else SEEK_SET)
      = Some (int (length ?A), (idxfd db)\<lparr>fpos := length ?A\<rparr>)"
    unfolding l using p by simp
  moreover have "slot_ok (doff ss i) (ss ! i)" using v i by (simp add: db_view_def slots_ok_nth)
  ultimately show ?thesis using db_readidx_at [OF f] unfolding l s by (simp add: same_db_def at_rec_def db_counts_def)
qed

lemma db_readidx_eof:
  assumes "db_view db ps ss" "fpos (idxfd db) = soff (nhash db) ss (length ss)"
  shows "\<exists>db'. db_readidx db 0 = Inr (- 1, db') \<and> same_db db db' \<and> fpos (idxfd db') = fpos (idxfd db)"
proof -
  have "length (fdata (idxfd db)) = fpos (idxfd db)"
    using assms length_enc_idx [OF assms(1)] by (simp add: db_view_def)
  then have "fread (idxfd db) (PTR_SZ + IDXLEN_SZ) = ([], idxfd db)" by (simp add: fread_def)
  then show ?thesis by (simp add: db_readidx_def same_db_def db_counts_def PTR_SZ_def)
qed

section \<open>One call\<close>

text \<open>The next record that is not blank, and the position behind it.\<close>

definition scan_res :: "DB \<Rightarrow> layout \<Rightarrow> nat \<Rightarrow> bool \<Rightarrow> DB \<Rightarrow> nat \<Rightarrow> bool" where
  "scan_res db L i found db' j \<longleftrightarrow> same_db db db' \<and> scan_at db' L j \<and>
     (case scan_from (lslots L) i of
        [] \<Rightarrow> \<not> found \<and> scan_from (lslots L) j = []
      | x # xs \<Rightarrow> found \<and> 0 < j \<and> at_rec db' (lslots L) (j - 1) \<and>
          x = (skey (lslots L ! (j - 1)), sdat (lslots L ! (j - 1))) \<and> scan_from (lslots L) j = xs)"

lemma db_nextrec_loop_eof:
  assumes s: "scan_at db L (length (lslots L))"
  shows "\<exists>db'. db_nextrec_loop n db = Inr (False, db') \<and> scan_res db L (length (lslots L)) False db' (length (lslots L))"
proof -
  let ?ss = "lslots L"
  have v: "db_view db (lptrs L) ?ss" and p: "fpos (idxfd db) = soff (nhash db) ?ss (length ?ss)"
    using s by (auto simp: scan_at_def db_rel_def)
  obtain db' where r: "db_readidx db 0 = Inr (- 1, db')" "same_db db db'" "fpos (idxfd db') = fpos (idxfd db)"
    using db_readidx_eof [OF v p] by blast
  have "scan_at db' L (length ?ss)"
    using s r db_rel_cong [OF r(2)] by (auto simp: scan_at_def same_db_def)
  then show ?thesis using r by (auto simp: db_nextrec_loop.simps [of n] scan_res_def)
qed

lemma db_nextrec_loop_ok:
  assumes "scan_at db L i" "length (lslots L) - i \<le> n"
  shows "\<exists>found db' j. db_nextrec_loop n db = Inr (found, db') \<and> scan_res db L i found db' j"
  using assms
proof (induction n arbitrary: db i)
  case 0
  then have "i = length (lslots L)" by (simp add: scan_at_def)
  then show ?case using db_nextrec_loop_eof [of db L 0] 0 by blast
next
  case (Suc n)
  let ?ss = "lslots L"
  show ?case
  proof (cases "i = length ?ss")
    case True
    then show ?thesis using db_nextrec_loop_eof [of db L "Suc n"] Suc.prems by blast
  next
    case False
    then have i: "i < length ?ss" using Suc.prems by (simp add: scan_at_def)
    have v: "db_view db (lptrs L) ?ss" and p: "fpos (idxfd db) = soff (nhash db) ?ss i"
      using Suc.prems by (auto simp: scan_at_def db_rel_def)
    obtain db1 where r: "db_readidx db 0 = Inr (int (sptr (?ss ! i)), db1)" "same_db db db1" "at_rec db1 ?ss i"
      "fpos (idxfd db1) = soff (nhash db) ?ss (Suc i)"
      using db_readidx_next [OF v i p] by blast
    have s1: "scan_at db1 L (Suc i)"
      using Suc.prems r i db_rel_cong [OF r(2)] by (auto simp: scan_at_def same_db_def)
    have b: "list_all (\<lambda>c. c = SPACE) (idxbuf db1) = blank (skey (?ss ! i))"
      using r(3) by (simp add: at_rec_def blank_def)
    show ?thesis
    proof (cases "blank (skey (?ss ! i))")
      case True
      have "length ?ss - Suc i \<le> n" using Suc.prems by simp
      then obtain found db' j where "db_nextrec_loop n db1 = Inr (found, db')" "scan_res db1 L (Suc i) found db' j"
        using Suc.IH [OF s1] by blast
      moreover have "scan_res db L i found db' j" using calculation True scan_from_step [OF i] same_db_trans [OF r(2)]
        by (simp add: scan_res_def)
      ultimately show ?thesis using True r(1) b by (auto simp: db_nextrec_loop.simps [of "Suc n"])
    next
      case False
      then have "scan_res db L i True db1 (Suc i)" using r s1 scan_from_step [OF i] by (simp add: scan_res_def)
      then show ?thesis using False r(1) b by (auto simp: db_nextrec_loop.simps [of "Suc n"])
    qed
  qed
qed

lemma db_nextrec_ok:
  assumes s: "scan_at db L i" and l: "held db = no_lock"
  obtains db' j where "scan_at db' L j" "held db' = no_lock" "db_files db' = db_files db"
    "case scan_from (lslots L) i of
        [] \<Rightarrow> db_nextrec db = Inr (None, db') \<and> db_counts db' = db_counts db
      | x # xs \<Rightarrow> db_nextrec db = Inr (Some x, db') \<and> db_counts db' = tally db 4 \<and> scan_from (lslots L) j = xs"
proof -
  let ?ss = "lslots L" and ?db0 = "readw_lock IdxFile FREE_OFF 1 db"
  have s0: "scan_at ?db0 L i" using s by (simp add: scan_at_def db_rel_def)
  have "length ?ss \<le> fsize (idxfd ?db0)"
    using slots_len_ge [of ?ss 0] s idx_size [of db L] by (simp add: scan_at_def idx_len_def soff_def)
  then obtain found db1 j where n: "db_nextrec_loop (fsize (idxfd ?db0)) ?db0 = Inr (found, db1)"
    and r: "scan_res ?db0 L i found db1 j" using db_nextrec_loop_ok [OF s0] diff_le_self le_trans by blast
  have h: "held (un_lock IdxFile FREE_OFF 1 db2) = no_lock" if "held db2 = held ?db0" for db2
    using that l by (auto simp: held_free no_lock_def fun_eq_iff)
  have s1: "same_db ?db0 db1" and j: "scan_at db1 L j" using r by (auto simp: scan_res_def)
  then have r1: "db_rel db1 L" and v: "db_view db1 (lptrs L) ?ss" by (auto simp: scan_at_def db_rel_def)
  show thesis
  proof (cases "scan_from ?ss i")
    case Nil
    let ?db' = "un_lock IdxFile FREE_OFF 1 db1"
    have "db_nextrec db = Inr (None, ?db')" using Nil r n by (simp add: db_nextrec_def scan_res_def)
    moreover have "scan_at ?db' L j" using j by (simp add: scan_at_def db_rel_def)
    moreover have "held ?db' = no_lock" using s1 by (intro h) (simp add: same_db_def)
    ultimately show thesis using that [of ?db' j] Nil s1 by (simp add: same_db_def db_files_def)
  next
    case (Cons x xs)
    then have f: "found" "0 < j" and a: "at_rec db1 ?ss (j - 1)" and x: "x = (skey (?ss ! (j - 1)), sdat (?ss ! (j - 1)))"
      and xs: "scan_from ?ss j = xs" using r by (auto simp: scan_res_def)
    have jl: "j - 1 < length ?ss" using f j by (auto simp: scan_at_def)
    let ?db2 = "db1\<lparr>datfd := (datfd db1)\<lparr>fpos := doff ?ss (Suc (j - 1))\<rparr>, datbuf := sdat (?ss ! (j - 1))\<rparr>"
    have g: "db_readdat db1 = Inr (sdat (?ss ! (j - 1)), ?db2)"
      using db_readdat_view [OF v jl] a by (simp add: at_rec_def)
    let ?db3 = "?db2\<lparr>cnt_nextrec := cnt_nextrec ?db2 + 1\<rparr>"
    let ?db' = "un_lock IdxFile FREE_OFF 1 ?db3"
    have "db_nextrec db = Inr (Some x, ?db')" using n g f a x by (simp add: db_nextrec_def at_rec_def)
    moreover have "scan_at ?db' L j" using j by (simp add: scan_at_def db_rel_def)
    moreover have "held ?db' = no_lock" using s1 by (intro h) (simp add: same_db_def)
    moreover have "db_counts ?db' = tally db 4" using s1 by (simp add: same_db_def tally_def) (simp add: db_counts_def)
    ultimately show thesis using that [of ?db' j] Cons xs s1 by (simp add: same_db_def db_files_def)
  qed
qed

section \<open>The whole scan\<close>

text \<open>A client that rewinds and calls \<^verbatim>\<open>db_nextrec\<close> until there is no record left.\<close>

fun db_scan :: "nat \<Rightarrow> DB \<Rightarrow> ((string \<times> string) list \<times> DB) res" where
  "db_scan 0 db = Inl Diverges"
| "db_scan (Suc n) db =
     bnd (db_nextrec db) (\<lambda>(r, db').
       case r of None \<Rightarrow> Inr ([], db')
       | Some x \<Rightarrow> bnd (db_scan n db') (\<lambda>(xs, db''). Inr (x # xs, db'')))"

lemma db_scan_ok:
  assumes "scan_at db L i" "held db = no_lock" "length (scan_from (lslots L) i) < n"
  shows "\<exists>db' j. db_scan n db = Inr (scan_from (lslots L) i, db') \<and> scan_at db' L j
    \<and> held db' = no_lock \<and> db_files db' = db_files db"
  using assms
proof (induction n arbitrary: db i)
  case (Suc n)
  obtain db1 j where d: "scan_at db1 L j" "held db1 = no_lock" "db_files db1 = db_files db"
    and c: "case scan_from (lslots L) i of
        [] \<Rightarrow> db_nextrec db = Inr (None, db1) \<and> db_counts db1 = db_counts db
      | x # xs \<Rightarrow> db_nextrec db = Inr (Some x, db1) \<and> db_counts db1 = tally db 4 \<and> scan_from (lslots L) j = xs"
    using db_nextrec_ok [OF Suc.prems(1,2)] by blast
  show ?case
  proof (cases "scan_from (lslots L) i")
    case Nil
    then show ?thesis using c d by auto
  next
    case (Cons x xs)
    then have n: "db_nextrec db = Inr (Some x, db1)" and xs: "scan_from (lslots L) j = xs" using c by auto
    have "length (scan_from (lslots L) j) < n" using Suc.prems(3) Cons xs by simp
    then obtain db2 k where "db_scan n db1 = Inr (xs, db2)" "scan_at db2 L k" "held db2 = no_lock" "db_files db2 = db_files db1"
      using Suc.IH [OF d(1,2)] xs by blast
    then show ?thesis using n Cons d(3) by auto
  qed
qed simp

lemma db_rewind_ok:
  assumes "db_rel db L"
  shows "\<exists>db'. db_rewind db = Inr db' \<and> scan_at db' L 0 \<and> held db' = held db \<and> db_files db' = db_files db
    \<and> nhash db' = nhash db"
proof -
  let ?p = "hdr_len (nhash db)"
  have e: "int ((nhash db + 1) * PTR_SZ) + 1 = int ?p" by (simp add: hdr_len_def)
  let ?db' = "db\<lparr>idxfd := (idxfd db)\<lparr>fpos := ?p\<rparr>, idxoff := int ?p\<rparr>"
  have "db_rewind db = Inr ?db'" unfolding db_rewind_def e by simp
  moreover have "scan_at ?db' L 0" using assms by (simp add: scan_at_def db_rel_def soff_def)
  ultimately show ?thesis by (simp add: db_files_def)
qed

text \<open>The records that are read are the map, less its blank keys.\<close>

lemma scan_from_nth:
  "scan_from ss 0 = map (\<lambda>i. (skey (ss ! i), sdat (ss ! i))) (filter (\<lambda>i. \<not> blank (skey (ss ! i))) [0..<length ss])"
proof -
  have "filter P ss = map (nth ss) (filter (\<lambda>i. P (ss ! i)) [0..<length ss])" for P
    using filter_map [of P "nth ss" "[0..<length ss]"] by (simp add: map_nth o_def)
  then show ?thesis by (simp add: scan_from_def)
qed

lemma scan_from_map:
  assumes L: "lay_ok n L"
  shows "distinct (map fst (scan_from (lslots L) 0))"
    and "map_of (scan_from (lslots L) 0) key = (if blank key then None else lmap L key)"
proof -
  let ?ss = "lslots L" and ?xs = "scan_from (lslots L) 0"
  have ku: "keys_unique L" and fb: "free_blank L" using L by (auto simp: lay_ok_def)
  have lv: "live L i" if "i < length ?ss" "\<not> blank (skey (?ss ! i))" for i
    using that fb by (auto simp: live_def free_blank_def)
  have "inj_on (\<lambda>i. skey (?ss ! i)) {i. i < length ?ss \<and> \<not> blank (skey (?ss ! i))}"
    using ku lv by (auto simp: inj_on_def keys_unique_def)
  then show d: "distinct (map fst ?xs)" by (auto simp: scan_from_nth distinct_map inj_on_def)
  have "map_of ?xs key = Some v \<longleftrightarrow> \<not> blank key \<and> lmap L key = Some v" for v
  proof -
    have "map_of ?xs key = Some v \<longleftrightarrow> (\<exists>i < length ?ss. \<not> blank (skey (?ss ! i)) \<and> key = skey (?ss ! i) \<and> v = sdat (?ss ! i))"
      using d by (auto simp: map_of_eq_Some_iff scan_from_nth)
    then show ?thesis using lv by (auto simp: lmap_Some [OF ku] live_def)
  qed
  then show "map_of ?xs key = (if blank key then None else lmap L key)"
    by (metis not_None_eq)
qed

lemma db_scan_all:
  assumes "db_repr db m"
  obtains xs db' where "bnd (db_rewind db) (db_scan (Suc (fsize (idxfd db)))) = Inr (xs, db')"
    "db_repr db' m" "db_files db' = db_files db" "distinct (map fst xs)"
    "map_of xs = (\<lambda>k. if blank k then None else m k)"
proof -
  obtain L where r: "db_rel db L" and l: "held db = no_lock" and m: "lmap L = m"
    using assms by (auto simp: db_repr_def)
  obtain db1 where w: "db_rewind db = Inr db1" "scan_at db1 L 0" "held db1 = held db" "db_files db1 = db_files db"
    using db_rewind_ok [OF r] by blast
  have "length (scan_from (lslots L) 0) \<le> length (lslots L)" by (simp add: scan_from_def)
  also have "\<dots> \<le> slots_len 0 (lslots L)" by (rule slots_len_ge)
  also have "\<dots> < Suc (fsize (idxfd db))" using idx_size [OF r] by (simp add: idx_len_def soff_def)
  finally obtain db2 j where s: "db_scan (Suc (fsize (idxfd db))) db1 = Inr (scan_from (lslots L) 0, db2)"
    "scan_at db2 L j" "held db2 = no_lock" "db_files db2 = db_files db1"
    using db_scan_ok [OF w(2)] w(3) l by metis
  have L: "lay_ok (nhash db) L" using r by (simp add: db_rel_def)
  have "db_repr db2 m" using s m by (auto simp: scan_at_def intro: db_reprI)
  then show thesis using that [of "scan_from (lslots L) 0" db2] w s scan_from_map [OF L] m by (auto simp: fun_eq_iff)
qed

end
