(* ===== verification/Kv_Store.thy ===== *)
theory Kv_Store
  imports Db_Scan
begin

text \<open>
  The contract of a key-value store, as the clients of the database library rely on it:
  fetching, storing and deleting answer like a finite map as long as the store is not full.
  What follows for a client is proved here once, for any provider of the contract.
\<close>

datatype kv_op =
    KFetch string
  | KStore string string int
  | KDelete string

datatype kv_ans =
    AData "string option"
  | ACode int

text \<open>A run of calls on a provider, stopping at a fatal error, and on a map.\<close>

fun kv_run ::
  "('s \<Rightarrow> string \<Rightarrow> (string option \<times> 's) res) \<Rightarrow> ('s \<Rightarrow> string \<Rightarrow> string \<Rightarrow> int \<Rightarrow> (int \<times> 's) res)
   \<Rightarrow> ('s \<Rightarrow> string \<Rightarrow> (int \<times> 's) res) \<Rightarrow> kv_op list \<Rightarrow> 's \<Rightarrow> (kv_ans list \<times> 's) res" where
  "kv_run fe st de [] s = Inr ([], s)"
| "kv_run fe st de (KFetch k # ops) s = bnd (fe s k) (\<lambda>(r, s1).
     bnd (kv_run fe st de ops s1) (\<lambda>(as, s2). Inr (AData r # as, s2)))"
| "kv_run fe st de (KStore k v fl # ops) s = bnd (st s k v fl) (\<lambda>(r, s1).
     bnd (kv_run fe st de ops s1) (\<lambda>(as, s2). Inr (ACode r # as, s2)))"
| "kv_run fe st de (KDelete k # ops) s = bnd (de s k) (\<lambda>(r, s1).
     bnd (kv_run fe st de ops s1) (\<lambda>(as, s2). Inr (ACode r # as, s2)))"

definition store_map :: "(string \<rightharpoonup> string) \<Rightarrow> string \<Rightarrow> string \<Rightarrow> int \<Rightarrow> (string \<rightharpoonup> string)" where
  "store_map m k v fl = (if store_rc m k fl = 0 then m(k \<mapsto> v) else m)"

fun kv_answers :: "kv_op list \<Rightarrow> (string \<rightharpoonup> string) \<Rightarrow> kv_ans list" where
  "kv_answers [] m = []"
| "kv_answers (KFetch k # ops) m = AData (m k) # kv_answers ops m"
| "kv_answers (KStore k v fl # ops) m = ACode (store_rc m k fl) # kv_answers ops (store_map m k v fl)"
| "kv_answers (KDelete k # ops) m = ACode (if m k = None then - 1 else 0) # kv_answers ops (m(k := None))"

fun kv_final :: "kv_op list \<Rightarrow> (string \<rightharpoonup> string) \<Rightarrow> (string \<rightharpoonup> string)" where
  "kv_final [] m = m"
| "kv_final (KFetch k # ops) m = kv_final ops m"
| "kv_final (KStore k v fl # ops) m = kv_final ops (store_map m k v fl)"
| "kv_final (KDelete k # ops) m = kv_final ops (m(k := None))"

fun op_ok :: "(string \<Rightarrow> string \<Rightarrow> bool) \<Rightarrow> kv_op \<Rightarrow> bool" where
  "op_ok acc (KStore k v fl) = (acc k v \<and> valid_flag fl)"
| "op_ok acc _ = True"

locale kv_store =
  fixes fe :: "'s \<Rightarrow> string \<Rightarrow> (string option \<times> 's) res"
    and st :: "'s \<Rightarrow> string \<Rightarrow> string \<Rightarrow> int \<Rightarrow> (int \<times> 's) res"
    and de :: "'s \<Rightarrow> string \<Rightarrow> (int \<times> 's) res"
    and repr :: "'s \<Rightarrow> (string \<rightharpoonup> string) \<Rightarrow> bool"
    and acc :: "string \<Rightarrow> string \<Rightarrow> bool"
    and used :: "'s \<Rightarrow> nat" and limit :: nat and step :: nat
  assumes fetch_law: "repr s m \<Longrightarrow> \<exists>s'. fe s k = Inr (m k, s') \<and> repr s' m \<and> used s' = used s"
    and delete_law: "repr s m \<Longrightarrow>
      \<exists>s'. de s k = Inr (if m k = None then - 1 else 0, s') \<and> repr s' (m(k := None)) \<and> used s' = used s"
    and store_law: "repr s m \<Longrightarrow> acc k v \<Longrightarrow> valid_flag fl \<Longrightarrow> used s \<le> limit \<Longrightarrow>
      \<exists>s'. st s k v fl = Inr (store_rc m k fl, s') \<and> repr s' (store_map m k v fl) \<and> used s' \<le> used s + step"
begin

lemma run_refines:
  assumes "repr s m" "list_all (op_ok acc) ops" "used s + step * length ops \<le> limit"
  shows "\<exists>s'. kv_run fe st de ops s = Inr (kv_answers ops m, s') \<and> repr s' (kv_final ops m)
    \<and> used s' \<le> used s + step * length ops"
  using assms
proof (induction ops arbitrary: s m)
  case (Cons op ops)
  show ?case
  proof (cases op)
    case (KFetch k)
    obtain s1 where s1: "fe s k = Inr (m k, s1)" "repr s1 m" "used s1 = used s"
      using fetch_law [OF Cons.prems(1)] by blast
    then obtain s2 where "kv_run fe st de ops s1 = Inr (kv_answers ops m, s2)" "repr s2 (kv_final ops m)"
      "used s2 \<le> used s1 + step * length ops" using Cons.IH [of s1 m] Cons.prems by auto
    then show ?thesis using KFetch s1 by auto
  next
    case (KStore k v fl)
    have u: "used s \<le> limit" and a: "acc k v" "valid_flag fl" using Cons.prems KStore by simp_all
    obtain s1 where s1: "st s k v fl = Inr (store_rc m k fl, s1)" "repr s1 (store_map m k v fl)"
      "used s1 \<le> used s + step" using store_law [OF Cons.prems(1) a u] by blast
    then obtain s2 where "kv_run fe st de ops s1 = Inr (kv_answers ops (store_map m k v fl), s2)"
      "repr s2 (kv_final ops (store_map m k v fl))" "used s2 \<le> used s1 + step * length ops"
      using Cons.IH [of s1 "store_map m k v fl"] Cons.prems by auto
    then show ?thesis using KStore s1 by auto
  next
    case (KDelete k)
    obtain s1 where s1: "de s k = Inr (if m k = None then - 1 else 0, s1)" "repr s1 (m(k := None))"
      "used s1 = used s" using delete_law [OF Cons.prems(1)] by blast
    obtain s2 where "kv_run fe st de ops s1 = Inr (kv_answers ops (m(k := None)), s2)"
      "repr s2 (kv_final ops (m(k := None)))" "used s2 \<le> used s1 + step * length ops"
      using Cons.IH [OF s1(2)] Cons.prems s1(3) by (auto simp del: fun_upd_apply)
    then show ?thesis using KDelete s1 by auto
  qed
qed simp

text \<open>What was stored is fetched, whatever other keys are stored or deleted in between.\<close>

lemma kv_final_other:
  "(\<forall>op \<in> set ops. case op of KFetch _ \<Rightarrow> True | KStore k' _ _ \<Rightarrow> k' \<noteq> k | KDelete k' \<Rightarrow> k' \<noteq> k) \<Longrightarrow>
   kv_final ops m k = m k"
proof (induction ops arbitrary: m)
  case (Cons op ops)
  then show ?case by (cases op) (auto simp: store_map_def)
qed simp

lemma kv_answers_append: "kv_answers (xs @ ys) m = kv_answers xs m @ kv_answers ys (kv_final xs m)"
proof (induction xs arbitrary: m)
  case (Cons op xs)
  then show ?case by (cases op) (auto simp del: fun_upd_apply)
qed simp

lemma read_back:
  assumes r: "repr s m" and k: "acc k v" and ops: "list_all (op_ok acc) ops"
    and o: "\<forall>op \<in> set ops. case op of KFetch _ \<Rightarrow> True | KStore k' _ _ \<Rightarrow> k' \<noteq> k | KDelete k' \<Rightarrow> k' \<noteq> k"
    and u: "used s + step * (length ops + 2) \<le> limit"
  shows "\<exists>as s'. kv_run fe st de (KStore k v DB_STORE # ops @ [KFetch k]) s = Inr (ACode 0 # as @ [AData (Some v)], s')"
proof -
  let ?ops = "KStore k v DB_STORE # ops @ [KFetch k]" and ?m = "store_map m k v DB_STORE"
  have rc: "store_rc m k DB_STORE = 0" by (simp add: store_rc_def db_consts)
  then have mk: "?m k = Some v" by (simp add: store_map_def)
  have "list_all (op_ok acc) ?ops" using k ops by (simp add: valid_flag_def)
  moreover have "used s + step * length ?ops \<le> limit" using u by (simp add: algebra_simps)
  ultimately obtain s' where "kv_run fe st de ?ops s = Inr (kv_answers ?ops m, s')"
    using run_refines [OF r] by blast
  then show ?thesis using kv_final_other [OF o] rc mk by (auto simp: kv_answers_append)
qed

end

end
