(* ===== verification/Db_Spec.thy ===== *)
theory Db_Spec
  imports Kv_Store
begin

text \<open>
  Opening and closing a database, the library as a provider of the key-value contract, and
  the test program \<^verbatim>\<open>original-src/apue.3e/db/t4.c\<close> as a client of it.
\<close>

section \<open>The empty database\<close>

definition lay_empty :: "nat \<Rightarrow> layout" where
  "lay_empty n = \<lparr>lptrs = replicate (n + 1) 0, lslots = [], lchains = replicate (n + 1) []\<rparr>"

lemma lay_empty_ok: "0 < n \<Longrightarrow> lay_ok n (lay_empty n)" "lmap (lay_empty n) = Map.empty"
  by (auto simp: lay_defs lay_empty_def live_def lfree_def lmap_def live_pairs_def nth_Cons')

lemma db_hash_init_enc: "db_hash_init = enc_idx (replicate (NHASH_DEF + 1) 0) []"
  by (simp add: db_hash_init_def enc_idx_def enc_ptrs_def enc_ptr_def sprint_int_def del: replicate_Suc)

lemma db_view_empty:
  assumes "fdata (idxfd db) = db_hash_init" "fdata (datfd db) = []" "nhash db = NHASH_DEF" "hashoff db = HASH_OFF"
  shows "db_rel db (lay_empty NHASH_DEF)"
  using assms lay_empty_ok(1) [of NHASH_DEF]
  by (simp add: db_rel_def db_view_def lay_empty_def db_hash_init_enc ptr_ok_def PTR_MAX_def NHASH_DEF_def
      del: replicate_Suc)

section \<open>Opening and closing\<close>

definition both :: "(string \<Rightarrow> bool) \<Rightarrow> string \<Rightarrow> bool" where
  "both perm path \<longleftrightarrow> perm (path @ ''.idx'') \<and> perm (path @ ''.dat'')"

lemma db_open_files:
  assumes p: "both perm path"
    and i: "fs_open perm fs (path @ ''.idx'') fl = (Some f, fs1)" and d: "fs_open perm fs1 (path @ ''.dat'') fl = (Some g, fs2)"
    and r: "db_rel (db_alloc\<lparr>nhash := NHASH_DEF, hashoff := HASH_OFF, dbname := path @ ''.dat'',
              idxfd := (if O_CREAT fl \<and> O_TRUNC fl \<and> fdata f = [] then fwrite f db_hash_init else f), datfd := g\<rparr>) L"
  shows "\<exists>db. db_open perm fs path fl = Inr (Some db, fs2) \<and> db_repr db (lmap L) \<and> nhash db = NHASH_DEF
    \<and> db_files db = (fdata (if O_CREAT fl \<and> O_TRUNC fl \<and> fdata f = [] then fwrite f db_hash_init else f), fdata g)"
proof -
  let ?db = "db_alloc\<lparr>nhash := NHASH_DEF, hashoff := HASH_OFF, dbname := path @ ''.dat'', idxfd := f, datfd := g\<rparr>"
  let ?db2 = "if O_CREAT fl \<and> O_TRUNC fl
     then un_lock IdxFile 0 0 (if fsize (idxfd (writew_lock IdxFile 0 0 ?db)) = 0
            then (writew_lock IdxFile 0 0 ?db)\<lparr>idxfd := fwrite (idxfd (writew_lock IdxFile 0 0 ?db)) db_hash_init\<rparr>
            else writew_lock IdxFile 0 0 ?db)
     else ?db"
  have r2: "db_rel ?db2 L" using r by (auto simp: db_rel_def fsize_def db_view_def split: if_splits)
  have h: "held ?db2 = no_lock" by (auto simp: lock_reg_def no_lock_def db_alloc_def fun_eq_iff)
  obtain db where w: "db_rewind ?db2 = Inr db" "scan_at db L 0" "held db = held ?db2" "db_files db = db_files ?db2"
    "nhash db = nhash ?db2" using db_rewind_ok [OF r2] by blast
  have "db_open perm fs path fl = Inr (Some db, fs2)"
    unfolding db_open_def Let_def i prod.case d option.case using w(1) by simp
  moreover have "db_repr db (lmap L)" using w h by (auto simp: scan_at_def intro: db_reprI)
  moreover have "nhash db = NHASH_DEF" using w(5) by simp
  moreover have "db_files ?db2 = (fdata (if O_CREAT fl \<and> O_TRUNC fl \<and> fdata f = [] then fwrite f db_hash_init else f), fdata g)"
    by (simp add: db_files_def fsize_def)
  ultimately show ?thesis using w(4) by simp
qed

lemma db_open_create:
  assumes p: "both perm path"
  shows "\<exists>db fs'. db_open perm fs path \<lparr>O_CREAT = True, O_TRUNC = True\<rparr> = Inr (Some db, fs')
    \<and> db_repr db Map.empty \<and> nhash db = NHASH_DEF \<and> fsize (idxfd db) = hdr_len NHASH_DEF"
proof -
  let ?fl = "\<lparr>O_CREAT = True, O_TRUNC = True\<rparr>" and ?e = "\<lparr>fdata = [], fpos = 0\<rparr>"
  have o1: "fs_open perm fs nm ?fl = (Some ?e, fs(nm \<mapsto> []))" if "perm nm" for fs nm
    using that by (simp add: fs_open_def split: option.splits)
  have w: "fwrite ?e db_hash_init = \<lparr>fdata = db_hash_init, fpos = length db_hash_init\<rparr>"
    using fsplice_end [of "[]"] by (simp add: fwrite_def)
  have r: "db_rel (db_alloc\<lparr>nhash := NHASH_DEF, hashoff := HASH_OFF, dbname := path @ ''.dat'',
      idxfd := (if O_CREAT ?fl \<and> O_TRUNC ?fl \<and> fdata ?e = [] then fwrite ?e db_hash_init else ?e), datfd := ?e\<rparr>)
      (lay_empty NHASH_DEF)"
    by (rule db_view_empty) (simp_all add: w)
  let ?fs1 = "fs(path @ ''.idx'' \<mapsto> [])"
  have oi: "fs_open perm fs (path @ ''.idx'') ?fl = (Some ?e, ?fs1)"
    and od: "fs_open perm ?fs1 (path @ ''.dat'') ?fl = (Some ?e, ?fs1(path @ ''.dat'' \<mapsto> []))"
    using p o1 by (auto simp: both_def)
  obtain db where d: "db_open perm fs path ?fl = Inr (Some db, ?fs1(path @ ''.dat'' \<mapsto> []))"
    "db_repr db Map.empty" "nhash db = NHASH_DEF" "db_files db = (db_hash_init, [])"
    using db_open_files [OF p oi od r] w lay_empty_ok(2) by auto
  have "\<forall>p \<in> set (replicate (NHASH_DEF + 1) 0). ptr_ok p" by (simp add: ptr_ok_def PTR_MAX_def)
  from length_enc_ptrs [OF this] have "length db_hash_init = hdr_len NHASH_DEF"
    by (simp add: db_hash_init_enc enc_idx_def hdr_len_def del: replicate_Suc)
  then have "fsize (idxfd db) = hdr_len NHASH_DEF" using d(4) by (simp add: db_files_def fsize_def)
  then show ?thesis using d by blast
qed

lemma db_reopen:
  assumes p: "both perm path" and r: "db_repr db m" and n: "nhash db = NHASH_DEF"
  shows "\<exists>db' fs'. db_open perm (db_close fs path db) path \<lparr>O_CREAT = c, O_TRUNC = False\<rparr> = Inr (Some db', fs')
    \<and> db_repr db' m \<and> db_files db' = db_files db \<and> nhash db' = NHASH_DEF"
proof -
  let ?fl = "\<lparr>O_CREAT = c, O_TRUNC = False\<rparr>" and ?fs = "db_close fs path db"
  let ?i = "\<lparr>fdata = fdata (idxfd db), fpos = 0\<rparr>" and ?d = "\<lparr>fdata = fdata (datfd db), fpos = 0\<rparr>"
  obtain L where L: "db_rel db L" "lmap L = m" using r by (auto simp: db_repr_def)
  have same: "?fs(path @ ''.idx'' \<mapsto> fdata (idxfd db)) = ?fs" "?fs(path @ ''.dat'' \<mapsto> fdata (datfd db)) = ?fs"
    by (auto simp: db_close_def)
  have oi: "fs_open perm ?fs (path @ ''.idx'') ?fl = (Some ?i, ?fs)"
    and od: "fs_open perm ?fs (path @ ''.dat'') ?fl = (Some ?d, ?fs)"
    using p same by (simp_all add: fs_open_def both_def) (simp_all add: db_close_def Let_def)
  have "db_rel (db_alloc\<lparr>nhash := NHASH_DEF, hashoff := HASH_OFF, dbname := path @ ''.dat'',
      idxfd := (if O_CREAT ?fl \<and> O_TRUNC ?fl \<and> fdata ?i = [] then fwrite ?i db_hash_init else ?i), datfd := ?d\<rparr>) L"
    using L n by (simp add: db_rel_def db_view_def)
  from db_open_files [OF p oi od this] show ?thesis using L by (auto simp: db_files_def)
qed

section \<open>The library provides the contract\<close>

definition rec_ok :: "string \<Rightarrow> string \<Rightarrow> bool" where
  "rec_ok k d \<longleftrightarrow> key_fit k \<and> dat_ok d"

interpretation dbkv: kv_store db_fetch db_store db_delete db_repr rec_ok "\<lambda>db. fsize (idxfd db)" "nat PTR_MAX" REC_MAX
proof unfold_locales
  fix s m and k :: string
  assume r: "db_repr s m"
  show "\<exists>s'. db_fetch s k = Inr (m k, s') \<and> db_repr s' m \<and> fsize (idxfd s') = fsize (idxfd s)"
    using db_fetch_ok [OF r, of k] by (metis db_files_def fsize_def prod.inject)
  show "\<exists>s'. db_delete s k = Inr (if m k = None then - 1 else 0, s') \<and> db_repr s' (m(k := None)) \<and>
      fsize (idxfd s') = fsize (idxfd s)"
    using db_delete_ok [OF r, of k] by metis
next
  fix s m and k v :: string and fl :: int
  assume r: "db_repr s m" and k: "rec_ok k v" and fl: "valid_flag fl" and u: "fsize (idxfd s) \<le> nat PTR_MAX"
  have "idx_room s" using u by (simp add: idx_room_def PTR_MAX_def)
  then show "\<exists>s'. db_store s k v fl = Inr (store_rc m k fl, s') \<and> db_repr s' (store_map m k v fl) \<and>
      fsize (idxfd s') \<le> fsize (idxfd s) + REC_MAX"
    using db_store_ok [OF r fl, of k v] k unfolding rec_ok_def store_map_def by metis
qed

text \<open>A new database, as \<^verbatim>\<open>db_open\<close> with \<^verbatim>\<open>O_CREAT\<close> and \<^verbatim>\<open>O_TRUNC\<close> leaves it.\<close>

definition db_new :: DB where
  "db_new = db_alloc\<lparr>nhash := NHASH_DEF, hashoff := HASH_OFF,
     idxfd := \<lparr>fdata = db_hash_init, fpos = length db_hash_init\<rparr>\<rparr>"

lemma db_new_repr: "db_repr db_new Map.empty"
  by (rule db_reprI [OF db_view_empty]) (simp_all add: db_new_def db_alloc_def no_lock_def lay_empty_ok)

lemma length_hash_init: "length db_hash_init = 967"
  unfolding db_hash_init_def NHASH_DEF_def PTR_SZ_def
  by (simp add: length_concat sum_list_replicate length_padl sprint_int_def dec.simps del: replicate_Suc)

lemma db_new_size: "fsize (idxfd db_new) = 967"
  by (simp add: db_new_def fsize_def length_hash_init)

section \<open>The test program\<close>

text \<open>\<^verbatim>\<open>main\<close> of \<^verbatim>\<open>t4.c\<close>: what the file system holds when it exits with status 0.\<close>

definition t4_main :: "(string \<Rightarrow> bool) \<Rightarrow> fs \<Rightarrow> fs res" where
  "t4_main perm fs =
     bnd (db_open perm fs ''db4'' \<lparr>O_CREAT = True, O_TRUNC = True\<rparr>) (\<lambda>(r, fs1).
     case r of None \<Rightarrow> Inl (Err_sys ''db_open error'')
     | Some db \<Rightarrow>
       bnd (db_store db ''Alpha'' ''data1'' DB_INSERT) (\<lambda>(rc1, db1).
       if rc1 \<noteq> 0 then Inl (Err_quit ''db_store error for alpha'') else
       bnd (db_store db1 ''beta'' ''Data for beta'' DB_INSERT) (\<lambda>(rc2, db2).
       if rc2 \<noteq> 0 then Inl (Err_quit ''db_store error for beta'') else
       bnd (db_store db2 ''gamma'' ''record3'' DB_INSERT) (\<lambda>(rc3, db3).
       if rc3 \<noteq> 0 then Inl (Err_quit ''db_store error for gamma'') else
       Inr (db_close fs1 ''db4'' db3)))))"

lemma db_insert_new:
  assumes "db_repr db m" "m k = None" "rec_ok k d" "fsize (idxfd db) \<le> nat PTR_MAX" "nhash db = NHASH_DEF"
  shows "\<exists>db'. db_store db k d DB_INSERT = Inr (0, db') \<and> db_repr db' (m(k \<mapsto> d)) \<and> nhash db' = NHASH_DEF
    \<and> fsize (idxfd db') \<le> fsize (idxfd db) + REC_MAX"
proof -
  have rc: "store_rc m k DB_INSERT = 0" using assms(2) by (simp add: store_rc_def db_consts)
  have a: "valid_flag DB_INSERT" "key_fit k" "dat_ok d" "idx_room db"
    using assms by (simp_all add: valid_flag_def rec_ok_def idx_room_def PTR_MAX_def)
  show ?thesis by (rule db_store_ok [OF assms(1) a]) (use rc assms(5) in auto)
qed

section \<open>Beyond the contract\<close>

text \<open>Formatting a record for a key of 1021 bytes or more writes past \<^verbatim>\<open>idxbuf\<close>.\<close>

lemma db_writeidx_overflow:
  assumes "1021 \<le> length key" "0 \<le> pv" "pv \<le> PTR_MAX"
  shows "db_writeidx db key offset wh pv = Inl (Undefined ''_db_writeidx: idxbuf'')"
proof -
  have "1 \<le> length (sprint_int (datoff db))" by (simp add: sprint_int_def Suc_le_eq)
  moreover have "1 \<le> length (dec (datlen db))" by (simp add: Suc_le_eq)
  ultimately have "IDXLEN_MAX + 2 < length (key @ [SEP] @ sprint_int (datoff db) @ [SEP] @ dec (datlen db) @ [NL]) + 1"
    using assms(1) by (simp add: IDXLEN_MAX_def)
  then show ?thesis using assms by (simp add: db_writeidx_def Let_def)
qed

lemma slot_key_short:
  assumes "lay_ok n L" "i < length (lslots L)"
  shows "length (skey (lslots L ! i)) < 1021"
proof -
  have "0 < length (dec (doff (lslots L) i))" by simp
  then show ?thesis using lay_ok_slot [OF assms] unfolding slot_ok_def len_ok_def slot_body_def IDXLEN_MAX_def
    by (auto simp del: length_dec_pos length_greater_0_conv)
qed

lemma db_store_new_overflow:
  assumes k: "locked db L h WRLCK" and key: "1021 \<le> length key"
  shows "db_store_new db key d = Inl (Undefined ''_db_writeidx: idxbuf'')"
proof -
  let ?p = "lptrs L ! Suc h"
  let ?db1 = "db\<lparr>idxfd := (idxfd db)\<lparr>fpos := tab_off (Suc (Suc h))\<rparr>\<rparr>"
  have v: "db_view db (lptrs L) (lslots L)" and hn: "h < nhash db" and co: "chainoff db = int (tab_off (Suc h))"
    and L: "lay_ok (nhash db) L" using k by (auto simp: locked_def db_rel_def)
  have j: "Suc h < length (lptrs L)" using v hn by (simp add: db_view_def)
  then have rp: "db_readptr db (chainoff db) = Inr (int ?p, ?db1)" using db_readptr_tab [OF v] co by simp
  have p: "ptr_ok ?p" using v j by (simp add: db_view_def)
  have s: "same_db db ?db1" by (simp add: same_db_def)
  have k1: "locked ?db1 L h WRLCK" using k by (simp only: locked_cong [OF s])
  have "\<forall>i \<in> set (lfree L). \<not> fits L (length key) (length d + 1) i"
    using slot_key_short [OF L] lay_ok_free(2) [OF L] key by (force simp: fits_def)
  then obtain db2 where f: "db_findfree ?db1 (length key) (length d + 1) = Inr (- 1, db2)"
    using db_findfree_miss [OF k1] by blast
  obtain db3 where w: "db_writedat db2 d 0 SEEK_END = Inr db3" by (simp add: db_writedat_def Let_def)
  have "db_writeidx db3 key 0 SEEK_END (int ?p) = Inl (Undefined ''_db_writeidx: idxbuf'')"
    using p by (intro db_writeidx_overflow [OF key]) (simp_all add: ptr_ok_def)
  then show ?thesis using rp f w by (simp add: db_store_new_def db_store_append_def)
qed

section \<open>Properties of the library\<close>

text \<open>
  C1: Any sequence of fetches, stores (with a valid flag, a key of 1 to 1000 bytes without
  colon and null bytes, data of 1 to 1023 bytes) and deletes on a well-formed database
  returns, answer by answer, what the same calls on a map return, and leaves a well-formed
  database that holds the final map with no lock left, as long as the index file cannot
  outgrow the biggest pointer.
\<close>

theorem db_run_refines_map:
  assumes "db_repr db m" "list_all (op_ok rec_ok) ops"
    and "fsize (idxfd db) + REC_MAX * length ops \<le> nat PTR_MAX"
  shows "\<exists>db'. kv_run db_fetch db_store db_delete ops db = Inr (kv_answers ops m, db')
    \<and> db_repr db' (kv_final ops m)"
  using dbkv.run_refines [OF assms] by blast

theorem db_run_refines_map_witness:
  "\<exists>db'. kv_run db_fetch db_store db_delete
       [KStore ''a'' ''one'' DB_INSERT, KStore ''b'' ''two'' DB_STORE, KStore ''a'' ''three'' DB_REPLACE,
        KDelete ''b'', KFetch ''a'', KFetch ''b''] db_new =
     Inr ([ACode 0, ACode 0, ACode 0, ACode 0, AData (Some ''three''), AData None], db')
   \<and> db_repr db' [''a'' \<mapsto> ''three'']"
proof -
  let ?ops = "[KStore ''a'' ''one'' DB_INSERT, KStore ''b'' ''two'' DB_STORE, KStore ''a'' ''three'' DB_REPLACE,
        KDelete ''b'', KFetch ''a'', KFetch ''b'']"
  have ok: "list_all (op_ok rec_ok) ?ops"
    by (simp add: valid_flag_def rec_ok_def key_fit_def key_ok_def dat_ok_def db_consts)
  have sz: "fsize (idxfd db_new) + REC_MAX * length ?ops \<le> nat PTR_MAX"
    by (simp add: db_new_size REC_MAX_def db_consts)
  have "kv_answers ?ops Map.empty = [ACode 0, ACode 0, ACode 0, ACode 0, AData (Some ''three''), AData None]"
    by (simp add: store_rc_def store_map_def db_consts)
  moreover have "kv_final ?ops Map.empty = [''a'' \<mapsto> ''three'']"
    by (simp add: store_rc_def store_map_def db_consts fun_eq_iff)
  ultimately show ?thesis using db_run_refines_map [OF db_new_repr ok sz] by simp
qed

text \<open>
  C2: \<^verbatim>\<open>db_store\<close> on a well-formed database. A new key is added unless the flag is
  \<^verbatim>\<open>DB_REPLACE\<close> (then the call returns -1 with \<^verbatim>\<open>ENOENT\<close>), an existing key is replaced unless
  the flag is \<^verbatim>\<open>DB_INSERT\<close> (then it returns 1); a refused store changes neither file and
  counts as a store error, a store that is done counts in one of the four store counters.
  The locks are released on every path.
\<close>

theorem db_store_spec:
  assumes "db_repr db m" "valid_flag flag" "key_fit key" "dat_ok d" "idx_room db"
  shows "\<exists>db'. db_store db key d flag = Inr (store_rc m key flag, db')
    \<and> db_repr db' (store_map m key d flag) \<and> held db' = no_lock
    \<and> (if store_rc m key flag = 0 then db_counts db' \<in> tally db ` {5, 6, 7, 8}
       else db_files db' = db_files db \<and> db_counts db' = tally db 9)
    \<and> (store_rc m key flag = - 1 \<longrightarrow> db_errno db' = ENOENT)"
  by (rule db_store_ok [OF assms]) (auto simp: store_map_def db_repr_def)

theorem db_store_spec_witness:
  "\<exists>db'. db_store db_new ''Alpha'' ''data1'' DB_INSERT = Inr (0, db') \<and> db_repr db' [''Alpha'' \<mapsto> ''data1'']"
proof -
  have a: "valid_flag DB_INSERT" "key_fit ''Alpha''" "dat_ok ''data1''" "idx_room db_new"
    by (simp_all add: valid_flag_def key_fit_def key_ok_def dat_ok_def idx_room_def db_new_size db_consts)
  have "store_rc Map.empty ''Alpha'' DB_INSERT = 0" by (simp add: store_rc_def db_consts)
  then show ?thesis using db_store_spec [OF db_new_repr a] by (auto simp: store_map_def)
qed

text \<open>
  C3: \<^verbatim>\<open>db_fetch\<close> on a well-formed database returns the data of the key, or NULL when the key
  is absent, changes no byte of either file, releases its lock and counts the result.
\<close>

theorem db_fetch_spec:
  assumes "db_repr db m"
  shows "\<exists>db'. db_fetch db key = Inr (m key, db') \<and> db_repr db' m \<and> held db' = no_lock
    \<and> db_files db' = db_files db \<and> db_counts db' = tally db (if m key = None then 3 else 2)"
  by (rule db_fetch_ok [OF assms, of key]) (auto simp: db_repr_def)

theorem db_fetch_spec_witness:
  "\<exists>db'. db_fetch db_new ''Alpha'' = Inr (None, db') \<and> db_files db' = db_files db_new"
  using db_fetch_spec [OF db_new_repr, of "''Alpha''"] by auto

text \<open>
  C4: \<^verbatim>\<open>db_delete\<close> on a well-formed database removes the key and returns 0, or returns -1 when
  the key is absent; the index file keeps its length and no lock is left.
\<close>

theorem db_delete_spec:
  assumes "db_repr db m"
  shows "\<exists>db'. db_delete db key = Inr (if m key = None then - 1 else 0, db')
    \<and> db_repr db' (m(key := None)) \<and> held db' = no_lock \<and> fsize (idxfd db') = fsize (idxfd db)
    \<and> db_counts db' = tally db (if m key = None then 1 else 0)"
  by (rule db_delete_ok [OF assms, of key]) (auto simp: db_repr_def)

theorem db_delete_spec_witness: "\<exists>db'. db_delete db_new ''Alpha'' = Inr (- 1, db') \<and> db_repr db' Map.empty"
  using db_delete_spec [OF db_new_repr, of "''Alpha''"] by auto

text \<open>
  C5: Rewinding a well-formed database and calling \<^verbatim>\<open>db_nextrec\<close> until it returns NULL ends,
  and yields exactly the records of the map whose key is not blank, each key once, without
  changing the files.
\<close>

theorem db_nextrec_enumerates:
  assumes "db_repr db m"
  shows "\<exists>xs db'. bnd (db_rewind db) (db_scan (Suc (fsize (idxfd db)))) = Inr (xs, db')
    \<and> distinct (map fst xs) \<and> map_of xs = (\<lambda>k. if blank k then None else m k)
    \<and> db_repr db' m \<and> db_files db' = db_files db"
  by (rule db_scan_all [OF assms]) auto

theorem db_nextrec_enumerates_witness:
  "\<exists>xs db'. bnd (db_rewind db_new) (db_scan (Suc (fsize (idxfd db_new)))) = Inr (xs, db') \<and> map_of xs = Map.empty"
  using db_nextrec_enumerates [OF db_new_repr] by (auto simp: fun_eq_iff)

text \<open>
  C6: A new database is empty, and closing a database and opening it again (without
  \<^verbatim>\<open>O_TRUNC\<close>) gives back the map and both files byte for byte.
\<close>

theorem db_close_reopen:
  assumes "both perm path" "db_repr db m" "nhash db = NHASH_DEF"
  shows "(\<exists>db0 fs0. db_open perm fs path \<lparr>O_CREAT = True, O_TRUNC = True\<rparr> = Inr (Some db0, fs0) \<and> db_repr db0 Map.empty)
    \<and> (\<exists>db' fs'. db_open perm (db_close fs path db) path \<lparr>O_CREAT = c, O_TRUNC = False\<rparr> = Inr (Some db', fs')
         \<and> db_repr db' m \<and> db_files db' = db_files db)"
  using db_open_create [OF assms(1)] db_reopen [OF assms, of fs c] by blast

theorem db_close_reopen_witness:
  "\<exists>db' fs'. db_open (\<lambda>_. True) (db_close Map.empty ''t'' db_new) ''t'' \<lparr>O_CREAT = False, O_TRUNC = False\<rparr> =
     Inr (Some db', fs') \<and> db_repr db' Map.empty"
proof -
  have "both (\<lambda>_. True) ''t''" "nhash db_new = NHASH_DEF" by (simp_all add: both_def db_new_def)
  from db_close_reopen [OF this(1) db_new_repr this(2), of Map.empty False] show ?thesis by blast
qed

text \<open>
  The test program \<^verbatim>\<open>t4\<close>, allowed to open its files, exits with status 0 and leaves a
  database that holds exactly its three records, whatever the files held before.
\<close>

theorem t4_main_stores:
  assumes "both perm ''db4''"
  shows "\<exists>fs' db fs''. t4_main perm fs = Inr fs'
    \<and> db_open perm fs' ''db4'' \<lparr>O_CREAT = False, O_TRUNC = False\<rparr> = Inr (Some db, fs'')
    \<and> db_repr db [''Alpha'' \<mapsto> ''data1'', ''beta'' \<mapsto> ''Data for beta'', ''gamma'' \<mapsto> ''record3'']"
proof -
  have ok: "rec_ok ''Alpha'' ''data1''" "rec_ok ''beta'' ''Data for beta''" "rec_ok ''gamma'' ''record3''"
    by (simp_all add: rec_ok_def key_fit_def key_ok_def dat_ok_def db_consts)
  have sz: "nat PTR_MAX = 9999999" "REC_MAX = 1035" "hdr_len NHASH_DEF = 967"
    by (simp_all add: REC_MAX_def hdr_len_def db_consts)
  obtain db0 fs0 where d0: "db_open perm fs ''db4'' \<lparr>O_CREAT = True, O_TRUNC = True\<rparr> = Inr (Some db0, fs0)"
    "db_repr db0 Map.empty" "nhash db0 = NHASH_DEF" "fsize (idxfd db0) = 967"
    using db_open_create [OF assms, of fs] sz(3) by auto
  obtain db1 where d1: "db_store db0 ''Alpha'' ''data1'' DB_INSERT = Inr (0, db1)"
    "db_repr db1 [''Alpha'' \<mapsto> ''data1'']" "nhash db1 = NHASH_DEF" "fsize (idxfd db1) \<le> 2002"
    using db_insert_new [OF d0(2) _ ok(1)] d0 sz by auto
  obtain db2 where d2: "db_store db1 ''beta'' ''Data for beta'' DB_INSERT = Inr (0, db2)"
    "db_repr db2 [''Alpha'' \<mapsto> ''data1'', ''beta'' \<mapsto> ''Data for beta'']" "nhash db2 = NHASH_DEF" "fsize (idxfd db2) \<le> 3037"
    using db_insert_new [OF d1(2) _ ok(2)] d1 sz by fastforce
  obtain db3 where d3: "db_store db2 ''gamma'' ''record3'' DB_INSERT = Inr (0, db3)" "nhash db3 = NHASH_DEF"
    "db_repr db3 [''Alpha'' \<mapsto> ''data1'', ''beta'' \<mapsto> ''Data for beta'', ''gamma'' \<mapsto> ''record3'']"
    using db_insert_new [OF d2(2) _ ok(3)] d2 sz by fastforce
  have "t4_main perm fs = Inr (db_close fs0 ''db4'' db3)" using d0(1) d1(1) d2(1) d3(1) by (simp add: t4_main_def)
  then show ?thesis using db_reopen [OF assms d3(3,2), of fs0 False] by blast
qed

theorem t4_main_stores_witness:
  "\<exists>fs' db fs''. t4_main (\<lambda>_. True) Map.empty = Inr fs'
    \<and> db_open (\<lambda>_. True) fs' ''db4'' \<lparr>O_CREAT = False, O_TRUNC = False\<rparr> = Inr (Some db, fs'')"
proof -
  have "both (\<lambda>_. True) ''db4''" by (simp add: both_def)
  from t4_main_stores [OF this, of Map.empty] show ?thesis by blast
qed

text \<open>
  A key of 1021 bytes or more that is not in the database makes \<^verbatim>\<open>db_store\<close> write past the
  end of the buffer it formats index records in: the length is checked after the \<^verbatim>\<open>sprintf\<close>.
\<close>

theorem db_store_long_key_overflows:
  assumes "db_repr db m" "m key = None" "1021 \<le> length key" "flag = DB_INSERT \<or> flag = DB_STORE" "dat_ok d"
  shows "db_store db key d flag = Inl (Undefined ''_db_writeidx: idxbuf'')"
proof -
  obtain L where L: "db_rel db L" "held db = no_lock" "lmap L = m" using assms(1) by (auto simp: db_repr_def)
  then obtain db1 where "db_find_and_lock db key True = Inr (- 1, db1)" "locked db1 L (hash_of (nhash db) key) WRLCK"
    using db_find_miss [OF L(1,2), of key True] assms(2) by auto
  then show ?thesis using db_store_new_overflow [of db1 L _ key d] assms
    by (auto simp: db_store_def dat_ok_def DB_INSERT_def DB_REPLACE_def DB_STORE_def)
qed

theorem db_store_long_key_overflows_witness:
  "db_store db_new (replicate 1021 CHR ''k'') ''v'' DB_INSERT = Inl (Undefined ''_db_writeidx: idxbuf'')"
  by (rule db_store_long_key_overflows [OF db_new_repr]) (simp_all add: dat_ok_def db_consts)

text \<open>
  Opening a database that does not exist with \<^verbatim>\<open>O_CREAT\<close> but without \<^verbatim>\<open>O_TRUNC\<close> succeeds,
  but the index file stays empty and every fetch then ends in \<^verbatim>\<open>err_dump\<close>.
\<close>

theorem db_open_creat_uninitialised:
  assumes "both perm path" "fs (path @ ''.idx'') = None" "fs (path @ ''.dat'') = None"
  shows "\<exists>db fs'. db_open perm fs path \<lparr>O_CREAT = True, O_TRUNC = False\<rparr> = Inr (Some db, fs') \<and> db_files db = ([], [])
    \<and> (\<forall>key. db_fetch db key = Inl (Err_dump ''_db_readptr: read error of ptr field''))"
proof -
  let ?fl = "\<lparr>O_CREAT = True, O_TRUNC = False\<rparr>" and ?e = "\<lparr>fdata = [], fpos = 0\<rparr>"
  let ?p = "hdr_len NHASH_DEF"
  let ?db = "db_alloc\<lparr>nhash := NHASH_DEF, hashoff := HASH_OFF, dbname := path @ ''.dat'',
     idxfd := ?e\<lparr>fpos := ?p\<rparr>, datfd := ?e, idxoff := int ?p\<rparr>"
  have e: "int ((NHASH_DEF + 1) * PTR_SZ) + 1 = int ?p" by (simp add: hdr_len_def)
  have "db_open perm fs path ?fl = Inr (Some ?db, fs(path @ ''.idx'' \<mapsto> [], path @ ''.dat'' \<mapsto> []))"
    using assms e lseek_set [of ?e ?p] by (simp add: db_open_def fs_open_def both_def db_rewind_def Let_def)
  moreover have "db_fetch ?db key = Inl (Err_dump ''_db_readptr: read error of ptr field'')" for key
    by (simp add: db_fetch_def db_find_and_lock_def Let_def db_readptr_def lseek_def HASH_OFF_def fread_def PTR_SZ_def)
  ultimately show ?thesis by (intro exI [of _ ?db]) (simp add: db_files_def)
qed

theorem db_open_creat_uninitialised_witness:
  "\<exists>db fs'. db_open (\<lambda>_. True) Map.empty ''t'' \<lparr>O_CREAT = True, O_TRUNC = False\<rparr> = Inr (Some db, fs')
    \<and> db_fetch db ''k'' = Inl (Err_dump ''_db_readptr: read error of ptr field'')"
proof -
  have "both (\<lambda>_. True) ''t''" by (simp add: both_def)
  from db_open_creat_uninitialised [OF this, of Map.empty] show ?thesis by auto
qed

end
