(* ===== verification/Byte_Stream.thy ===== *)
theory Byte_Stream
  imports Prelude
begin

text \<open>
  What a client of a seekable byte stream relies on, and what follows from it once for every
  provider: an open file, and a memory stream opened for update.
\<close>

lemma fsplice_in: "p \<le> length d \<Longrightarrow> fsplice d p b = take p d @ b @ drop (p + length b) d"
  by (simp add: fsplice_def)

lemma fsplice_read: "p \<le> length d \<Longrightarrow> take (length b) (drop p (fsplice d p b)) = b"
  by (simp add: fsplice_in)

lemma fsplice_before: "p \<le> length d \<Longrightarrow> take p (fsplice d p b) = take p d"
  by (simp add: fsplice_in)

lemma fsplice_fsplice:
  "p \<le> length d \<Longrightarrow> fsplice (fsplice d p a) (p + length a) b = fsplice d p (a @ b)"
  by (simp add: fsplice_def min_def ac_simps)

locale byte_stream =
  fixes ok :: "'s \<Rightarrow> bool" and cont :: "'s \<Rightarrow> string" and at :: "'s \<Rightarrow> nat"
    and room :: "'s \<Rightarrow> nat \<Rightarrow> bool"
    and rd :: "'s \<Rightarrow> nat \<Rightarrow> errno + (string \<times> 's)"
    and wr :: "'s \<Rightarrow> string \<Rightarrow> errno + (nat \<times> 's)"
    and sk :: "'s \<Rightarrow> int \<Rightarrow> whence \<Rightarrow> errno + (int \<times> 's)"
  assumes at_in: "ok s \<Longrightarrow> at s \<le> length (cont s)"
    and read_law: "ok s \<Longrightarrow> \<exists>s'. rd s n = Inr (take n (drop (at s) (cont s)), s') \<and> ok s' \<and> cont s' = cont s
          \<and> at s' = at s + length (take n (drop (at s) (cont s)))"
    and write_law: "ok s \<Longrightarrow> room s (length b) \<Longrightarrow> \<exists>s'. wr s b = Inr (length b, s') \<and> ok s'
          \<and> cont s' = fsplice (cont s) (at s) b \<and> at s' = at s + length b"
    and room_mono: "room s (i + n) \<Longrightarrow> room s i"
    and room_law: "ok s \<Longrightarrow> room s (length b + n) \<Longrightarrow> wr s b = Inr (k, s') \<Longrightarrow> room s' n"
    and seek_law: "ok s \<Longrightarrow> p \<le> length (cont s) \<Longrightarrow>
          \<exists>s'. sk s (int p) SEEK_SET = Inr (int p, s') \<and> ok s' \<and> cont s' = cont s \<and> at s' = p"
begin

text \<open>What was written is read back from where it was written.\<close>

lemma write_seek_read:
  assumes "ok s" "room s (length b)"
  shows "\<exists>s'. bnd (wr s b) (\<lambda>(_, s1). bnd (sk s1 (int (at s)) SEEK_SET) (\<lambda>(_, s2). rd s2 (length b))) = Inr (b, s')
    \<and> cont s' = fsplice (cont s) (at s) b"
proof -
  obtain s1 where s1: "wr s b = Inr (length b, s1)" "ok s1" "cont s1 = fsplice (cont s) (at s) b"
    using write_law [OF assms] by blast
  have "at s \<le> length (cont s1)" using at_in [OF assms(1)] by (simp add: s1 length_fsplice)
  then obtain s2 where s2: "sk s1 (int (at s)) SEEK_SET = Inr (int (at s), s2)" "ok s2" "cont s2 = cont s1" "at s2 = at s"
    using seek_law [OF s1(2)] by blast
  show ?thesis using read_law [OF s2(2), of "length b"] s1 s2 fsplice_read [OF at_in [OF assms(1)], of b] by auto
qed

text \<open>Two writes in a row are one write of both.\<close>

lemma write_write:
  assumes "ok s" "room s (length a + length b)"
  shows "\<exists>s' s''. bnd (wr s a) (\<lambda>(_, s1). wr s1 b) = Inr (length b, s') \<and> wr s (a @ b) = Inr (length a + length b, s'')
    \<and> cont s' = cont s'' \<and> at s' = at s''"
proof -
  obtain s1 where s1: "wr s a = Inr (length a, s1)" "ok s1" "cont s1 = fsplice (cont s) (at s) a" "at s1 = at s + length a"
    using write_law [OF assms(1) room_mono [OF assms(2)]] by blast
  obtain s2 where s2: "wr s1 b = Inr (length b, s2)" "cont s2 = fsplice (cont s1) (at s1) b" "at s2 = at s1 + length b"
    using write_law [OF s1(2) room_law [OF assms s1(1)]] by blast
  obtain s3 where "wr s (a @ b) = Inr (length (a @ b), s3)" "cont s3 = fsplice (cont s) (at s) (a @ b)"
    "at s3 = at s + length (a @ b)" using write_law [OF assms(1), of "a @ b"] assms(2) by auto
  then show ?thesis using s1 s2 fsplice_fsplice [OF at_in [OF assms(1)]] by auto
qed

end

section \<open>Open files\<close>

definition file_read :: "ofile \<Rightarrow> nat \<Rightarrow> errno + (string \<times> ofile)" where
  "file_read f n = Inr (fread f n)"

definition file_write :: "ofile \<Rightarrow> string \<Rightarrow> errno + (nat \<times> ofile)" where
  "file_write f b = Inr (length b, fwrite f b)"

definition file_seek :: "ofile \<Rightarrow> int \<Rightarrow> whence \<Rightarrow> errno + (int \<times> ofile)" where
  "file_seek f p wh = (case lseek f p wh of None \<Rightarrow> Inl EINVAL | Some r \<Rightarrow> Inr r)"

interpretation fstream: byte_stream "\<lambda>f. fpos f \<le> fsize f" fdata fpos "\<lambda>_ _. True" file_read file_write file_seek
  by unfold_locales
    (auto simp: file_read_def file_write_def file_seek_def fread_def fwrite_def Let_def fsize_def length_fsplice)

end
