(* ===== verification/Memstream.thy ===== *)
theory Memstream
  imports Byte_Stream
begin

text \<open>
  \<^verbatim>\<open>original-src/apue.3e/exercises/fmemopen.c\<close>: standard I/O streams on a memory buffer. The
  flags are a 32-bit word as in the C code; sizes and positions are natural numbers, and
  the variables of type \<^verbatim>\<open>int\<close> that take them are cut down to 32 bits where the code does
  so. What \<^verbatim>\<open>malloc\<close> and \<^verbatim>\<open>funopen\<close> return is an argument of \<^verbatim>\<open>fmemopen\<close>.
\<close>

unbundle bit_operations_syntax

section \<open>The structure and its flags\<close>

record memstream =
  ms_buf :: string
  rsize :: nat
  vsize :: nat
  curpos :: nat
  ms_flags :: "32 word"

definition MS_READ :: "32 word" where "MS_READ = 0x01"
definition MS_WRITE :: "32 word" where "MS_WRITE = 0x02"
definition MS_APPEND :: "32 word" where "MS_APPEND = 0x04"
definition MS_TRUNCATE :: "32 word" where "MS_TRUNCATE = 0x08"
definition MS_MYBUF :: "32 word" where "MS_MYBUF = 0x10"

lemmas ms_consts = MS_READ_def MS_WRITE_def MS_APPEND_def MS_TRUNCATE_def MS_MYBUF_def

definition has :: "32 word \<Rightarrow> 32 word \<Rightarrow> bool" where
  "has flags f \<longleftrightarrow> flags AND f \<noteq> 0"

text \<open>The value an \<^verbatim>\<open>int\<close> holds after it is assigned a wider number.\<close>

definition to_int32 :: "int \<Rightarrow> int" where
  "to_int32 i = signed_take_bit 31 i"

section \<open>Operations\<close>

fun type_to_flags_loop :: "string \<Rightarrow> 32 word \<Rightarrow> 32 word" where
  "type_to_flags_loop [] flags = flags"
| "type_to_flags_loop (c # cs) flags =
     (if c = CHR ''r'' then if flags \<noteq> 0 then 0 else type_to_flags_loop cs (flags OR MS_READ)
      else if c = CHR ''w'' then if flags \<noteq> 0 then 0 else type_to_flags_loop cs (flags OR (MS_WRITE OR MS_TRUNCATE))
      else if c = CHR ''a'' then if flags \<noteq> 0 then 0 else type_to_flags_loop cs (flags OR MS_APPEND)
      else if c = CHR ''+'' then if flags = 0 then 0 else type_to_flags_loop cs (flags OR (MS_READ OR MS_WRITE))
      else if c = CHR ''b'' then if flags = 0 then 0 else type_to_flags_loop cs flags
      else 0)"

definition type_to_flags :: "string \<Rightarrow> 32 word" where
  "type_to_flags type = type_to_flags_loop type 0"

fun find_end :: "string \<Rightarrow> nat \<Rightarrow> nat" where
  "find_end buf 0 = 0"
| "find_end [] (Suc len) = 0"
| "find_end (c # buf) (Suc len) = (if c = NUL then 0 else Suc (find_end buf len))"

record env =
  ms_alloc :: bool
  buf_alloc :: "nat \<Rightarrow> string option"
  funopen_errno :: "errno option"

definition fmemopen :: "env \<Rightarrow> string option \<Rightarrow> nat \<Rightarrow> string \<Rightarrow> errno + memstream" where
  "fmemopen e buf sz type =
     (if sz = 0 then Inl EINVAL
      else if \<not> ms_alloc e then Inl ENOMEM
      else
        let flags = type_to_flags type
        in if flags = 0 then Inl EINVAL
           else
             bnd (case buf of
                    None \<Rightarrow>
                      if flags AND (MS_READ OR MS_WRITE) \<noteq> MS_READ OR MS_WRITE then Inl EINVAL
                      else (case buf_alloc e sz of
                              None \<Rightarrow> Inl ENOMEM
                            | Some b \<Rightarrow> Inr \<lparr>ms_buf = b, rsize = sz, vsize = 0, curpos = 0,
                                            ms_flags = flags OR MS_MYBUF\<rparr>)
                  | Some b \<Rightarrow>
                      Inr \<lparr>ms_buf = b, rsize = sz, vsize = 0,
                           curpos = (if has flags MS_APPEND then find_end b sz else 0), ms_flags = flags\<rparr>)
               (\<lambda>ms.
                 let ms' = ms\<lparr>vsize := (if has (ms_flags ms) MS_APPEND then curpos ms
                                        else if has (ms_flags ms) MS_TRUNCATE then 0 else sz)\<rparr>
                 in case funopen_errno e of Some er \<Rightarrow> Inl er | None \<Rightarrow> Inr ms'))"

definition mstream_read :: "memstream \<Rightarrow> nat \<Rightarrow> errno + (string \<times> memstream)" where
  "mstream_read ms len =
     (if \<not> has (ms_flags ms) MS_READ then Inl EBADF
      else if vsize ms \<le> curpos ms then Inr ([], ms)
      else let nr = min len (vsize ms - curpos ms)
           in Inr (take nr (drop (curpos ms) (ms_buf ms)), ms\<lparr>curpos := curpos ms + nr\<rparr>))"

text \<open>
  The buffer after the two places where \<^verbatim>\<open>mstream_write\<close> stores a null byte behind the data.
\<close>

definition mstream_nul :: "32 word \<Rightarrow> bool \<Rightarrow> memstream \<Rightarrow> memstream" where
  "mstream_nul flags grown ms =
     (let ms1 = (if grown \<and> flags AND (MS_READ OR MS_WRITE) = MS_READ OR MS_WRITE \<and> vsize ms < rsize ms
                 then ms\<lparr>ms_buf := (ms_buf ms)[vsize ms := NUL]\<rparr> else ms)
      in if has flags (MS_WRITE OR MS_APPEND) \<and> \<not> has flags MS_READ
         then if curpos ms1 < rsize ms1 then ms1\<lparr>ms_buf := (ms_buf ms1)[curpos ms1 := NUL]\<rparr>
              else ms1\<lparr>ms_buf := (ms_buf ms1)[rsize ms1 - 1 := NUL]\<rparr>
         else ms1)"

definition mstream_write :: "memstream \<Rightarrow> string \<Rightarrow> errno + (nat \<times> memstream)" where
  "mstream_write ms data =
     (if \<not> has (ms_flags ms) (MS_APPEND OR MS_WRITE) then Inl EBADF
      else
        let off = (if has (ms_flags ms) MS_APPEND then vsize ms else curpos ms);
            nw = min (length data) (rsize ms - off);
            ms1 = ms\<lparr>ms_buf := fsplice (ms_buf ms) off (take nw data), curpos := off + nw\<rparr>;
            grown = vsize ms1 < curpos ms1;
            ms2 = (if grown then ms1\<lparr>vsize := curpos ms1\<rparr> else ms1)
        in Inr (nw, mstream_nul (ms_flags ms) grown ms2))"

definition mstream_seek :: "memstream \<Rightarrow> int \<Rightarrow> whence \<Rightarrow> errno + (int \<times> memstream)" where
  "mstream_seek ms pos wh =
     (let off = to_int32 (case wh of SEEK_SET \<Rightarrow> pos | SEEK_END \<Rightarrow> int (vsize ms) + pos
                                    | SEEK_CUR \<Rightarrow> int (curpos ms) + pos)
      in if off < 0 \<or> int (vsize ms) < off then Inl EINVAL
         else Inr (off, ms\<lparr>curpos := nat off\<rparr>))"

text \<open>\<^verbatim>\<open>mstream_close\<close>: whether it frees the buffer; the structure itself is always freed.\<close>

definition mstream_close :: "memstream \<Rightarrow> bool" where
  "mstream_close ms = has (ms_flags ms) MS_MYBUF"

section \<open>Invariant\<close>

definition ms_ok :: "memstream \<Rightarrow> bool" where
  "ms_ok ms \<longleftrightarrow> curpos ms \<le> vsize ms \<and> vsize ms \<le> rsize ms \<and> length (ms_buf ms) = rsize ms \<and>
     0 < rsize ms \<and> rsize ms < 2 ^ 31"

lemma find_end_le: "find_end b n \<le> n"
  by (induction b n rule: find_end.induct) auto

lemma to_int32_id: "0 \<le> i \<Longrightarrow> i < 2 ^ 31 \<Longrightarrow> to_int32 i = i"
  unfolding to_int32_def by (rule signed_take_bit_int_eq_self) auto

lemma length_fsplice_in: "p + length b \<le> length d \<Longrightarrow> length (fsplice d p b) = length d"
  by (simp add: length_fsplice max_def)

lemma mstream_nul_simps [simp]:
  "rsize (mstream_nul f g ms) = rsize ms" "vsize (mstream_nul f g ms) = vsize ms"
  "curpos (mstream_nul f g ms) = curpos ms" "ms_flags (mstream_nul f g ms) = ms_flags ms"
  "length (ms_buf (mstream_nul f g ms)) = length (ms_buf ms)"
  by (simp_all add: mstream_nul_def Let_def)

lemma mstream_nul_ok [simp]: "ms_ok (mstream_nul f g ms) = ms_ok ms"
  by (simp add: ms_ok_def)

lemma mstream_read_ok: "ms_ok ms \<Longrightarrow> mstream_read ms len = Inr (b, ms') \<Longrightarrow> ms_ok ms'"
  by (auto simp: mstream_read_def ms_ok_def Let_def split: if_splits)

lemma mstream_seek_ok: "ms_ok ms \<Longrightarrow> mstream_seek ms p wh = Inr (i, ms') \<Longrightarrow> ms_ok ms'"
  by (auto simp: mstream_seek_def ms_ok_def Let_def split: if_splits)

text \<open>A write, with the position and the count written out.\<close>

definition wr_off :: "memstream \<Rightarrow> nat" where
  "wr_off ms = (if has (ms_flags ms) MS_APPEND then vsize ms else curpos ms)"

definition wr_cnt :: "memstream \<Rightarrow> string \<Rightarrow> nat" where
  "wr_cnt ms data = min (length data) (rsize ms - wr_off ms)"

definition wr_body :: "memstream \<Rightarrow> string \<Rightarrow> memstream" where
  "wr_body ms data = ms\<lparr>ms_buf := fsplice (ms_buf ms) (wr_off ms) (take (wr_cnt ms data) data),
     curpos := wr_off ms + wr_cnt ms data, vsize := max (vsize ms) (wr_off ms + wr_cnt ms data)\<rparr>"

lemma mstream_write_body:
  "has (ms_flags ms) (MS_APPEND OR MS_WRITE) \<Longrightarrow> mstream_write ms data =
     Inr (wr_cnt ms data, mstream_nul (ms_flags ms) (vsize ms < wr_off ms + wr_cnt ms data) (wr_body ms data))"
  by (auto simp: mstream_write_def wr_body_def wr_cnt_def wr_off_def Let_def max_def)

lemma wr_body_ok:
  assumes "ms_ok ms" shows "ms_ok (wr_body ms data)"
proof -
  have "wr_off ms + wr_cnt ms data \<le> rsize ms" using assms by (auto simp: wr_off_def wr_cnt_def ms_ok_def)
  then show ?thesis using assms by (simp add: wr_body_def ms_ok_def length_fsplice_in wr_cnt_def)
qed

lemma mstream_write_ok: "ms_ok ms \<Longrightarrow> mstream_write ms data = Inr (n, ms') \<Longrightarrow> ms_ok ms'"
  using wr_body_ok by (cases "has (ms_flags ms) (MS_APPEND OR MS_WRITE)")
    (auto simp: mstream_write_body, simp add: mstream_write_def)

section \<open>Streams open for update are byte streams\<close>

definition rw :: "memstream \<Rightarrow> bool" where
  "rw ms \<longleftrightarrow> ms_flags ms AND (MS_READ OR MS_WRITE) = MS_READ OR MS_WRITE \<and> \<not> has (ms_flags ms) MS_APPEND"

definition ms_cont :: "memstream \<Rightarrow> string" where
  "ms_cont ms = take (vsize ms) (ms_buf ms)"

lemma and3:
  fixes f :: "32 word"
  assumes "f AND (MS_READ OR MS_WRITE) = MS_READ OR MS_WRITE"
  shows "has f MS_READ" "has f MS_WRITE" "has f (MS_APPEND OR MS_WRITE)" "has f (MS_WRITE OR MS_APPEND)"
proof -
  have a: "f AND 3 = 3" using assms by (simp add: ms_consts)
  have "f AND x = (f AND 3) AND x" if "3 AND x = x" for x using that by (simp add: and.assoc)
  then have f: "f AND 1 = 1" "f AND 2 = 2" unfolding a by simp_all
  have "(f AND 6) AND 2 = 2" using f by (simp add: and.assoc)
  then have "f AND 6 \<noteq> 0" by auto
  then show "has f MS_READ" "has f MS_WRITE" "has f (MS_APPEND OR MS_WRITE)" "has f (MS_WRITE OR MS_APPEND)"
    using f by (simp_all add: has_def ms_consts)
qed

lemma ms_cont_body:
  assumes "ms_ok ms" "rw ms"
  shows "ms_cont (wr_body ms data) = fsplice (ms_cont ms) (curpos ms) (take (rsize ms - curpos ms) data)"
proof -
  let ?n = "wr_cnt ms data"
  have o: "wr_off ms = curpos ms" using assms by (simp add: wr_off_def rw_def)
  have t: "take ?n data = take (rsize ms - curpos ms) data" by (simp add: wr_cnt_def o min_def)
  have le: "curpos ms \<le> vsize ms" "vsize ms \<le> length (ms_buf ms)" "length (take ?n data) = ?n"
    "curpos ms + ?n \<le> length (ms_buf ms)"
    using assms by (auto simp: ms_ok_def wr_cnt_def o)
  show ?thesis unfolding t [symmetric] using le
    by (auto simp: ms_cont_def wr_body_def o fsplice_in take_drop min_def max_def)
qed

lemma ms_cont_nul:
  assumes "ms_ok ms" "f AND (MS_READ OR MS_WRITE) = MS_READ OR MS_WRITE"
  shows "ms_cont (mstream_nul f g ms) = ms_cont ms"
  using assms(1) and3 [OF assms(2)] by (simp add: mstream_nul_def ms_cont_def Let_def ms_ok_def)

lemma mstream_write_rw:
  assumes "ms_ok ms" "rw ms"
  shows "\<exists>ms'. mstream_write ms data = Inr (min (length data) (rsize ms - curpos ms), ms') \<and> ms_ok ms' \<and> rw ms'
    \<and> ms_cont ms' = fsplice (ms_cont ms) (curpos ms) (take (rsize ms - curpos ms) data)
    \<and> curpos ms' = curpos ms + min (length data) (rsize ms - curpos ms) \<and> rsize ms' = rsize ms"
proof -
  have f: "ms_flags ms AND (MS_READ OR MS_WRITE) = MS_READ OR MS_WRITE" using assms by (simp add: rw_def)
  have o: "wr_off ms = curpos ms" using assms by (simp add: wr_off_def rw_def)
  note b = wr_body_ok [OF assms(1), of data]
  show ?thesis using mstream_write_body [OF and3(3) [OF f], of data] ms_cont_body [OF assms, of data] ms_cont_nul [OF b f]
      b assms(2) by (simp add: wr_cnt_def o rw_def) (simp add: wr_body_def wr_cnt_def o)
qed

interpretation mstream: byte_stream "\<lambda>ms. ms_ok ms \<and> rw ms" ms_cont curpos "\<lambda>ms n. curpos ms + n \<le> rsize ms"
  mstream_read mstream_write mstream_seek
proof unfold_locales
  fix s :: memstream
  assume s: "ms_ok s \<and> rw s"
  then show "curpos s \<le> length (ms_cont s)" by (simp add: ms_ok_def ms_cont_def)
  fix n
  have "has (ms_flags s) MS_READ" using s and3 by (simp add: rw_def)
  then show "\<exists>s'. mstream_read s n = Inr (take n (drop (curpos s) (ms_cont s)), s') \<and> (ms_ok s' \<and> rw s') \<and>
      ms_cont s' = ms_cont s \<and> curpos s' = curpos s + length (take n (drop (curpos s) (ms_cont s)))"
    using s by (auto simp: mstream_read_def Let_def ms_cont_def ms_ok_def rw_def drop_take min_def)
next
  fix s :: memstream and b :: string
  assume s: "ms_ok s \<and> rw s" and r: "curpos s + length b \<le> rsize s"
  then show "\<exists>s'. mstream_write s b = Inr (length b, s') \<and> (ms_ok s' \<and> rw s') \<and>
      ms_cont s' = fsplice (ms_cont s) (curpos s) b \<and> curpos s' = curpos s + length b"
    using mstream_write_rw [of s b] by (auto simp: min_def)
next
  fix s s' :: memstream and b :: string and n k
  assume s: "ms_ok s \<and> rw s" and r: "curpos s + (length b + n) \<le> rsize s" and w: "mstream_write s b = Inr (k, s')"
  then show "curpos s' + n \<le> rsize s'" using mstream_write_rw [of s b] by auto
next
  fix s :: memstream and p
  assume s: "ms_ok s \<and> rw s" and p: "p \<le> length (ms_cont s)"
  then have "p \<le> vsize s" "int p < 2 ^ 31" by (auto simp: ms_cont_def ms_ok_def)
  then show "\<exists>s'. mstream_seek s (int p) SEEK_SET = Inr (int p, s') \<and> (ms_ok s' \<and> rw s') \<and> ms_cont s' = ms_cont s \<and> curpos s' = p"
    using s to_int32_id [of "int p"] by (auto simp: mstream_seek_def ms_cont_def ms_ok_def rw_def)
qed auto

lemma mstream_nul_write_only:
  assumes "has f (MS_WRITE OR MS_APPEND)" "\<not> has f MS_READ" "curpos ms \<le> rsize ms"
  shows "ms_buf (mstream_nul f g ms) = (ms_buf ms)[min (curpos ms) (rsize ms - 1) := NUL]"
proof -
  have "f AND (MS_READ OR MS_WRITE) \<noteq> MS_READ OR MS_WRITE" using and3(1) assms(2) by blast
  moreover have "min (curpos ms) (rsize ms - 1) = (if curpos ms < rsize ms then curpos ms else rsize ms - 1)"
    using assms(3) by simp
  ultimately show ?thesis using assms by (simp only: mstream_nul_def Let_def) simp
qed

section \<open>Streams as they are used\<close>

inductive ms_reach :: "memstream \<Rightarrow> memstream \<Rightarrow> bool" for ms0 where
  opened: "ms_reach ms0 ms0"
| reads: "ms_reach ms0 ms \<Longrightarrow> mstream_read ms n = Inr (b, ms') \<Longrightarrow> ms_reach ms0 ms'"
| writes: "ms_reach ms0 ms \<Longrightarrow> mstream_write ms d = Inr (k, ms') \<Longrightarrow> ms_reach ms0 ms'"
| seeks: "ms_reach ms0 ms \<Longrightarrow> mstream_seek ms p wh = Inr (i, ms') \<Longrightarrow> ms_reach ms0 ms'"

lemma rsize_const:
  "mstream_read ms n = Inr (b, ms') \<Longrightarrow> rsize ms' = rsize ms \<and> ms_flags ms' = ms_flags ms"
  "mstream_seek ms p wh = Inr (i, ms') \<Longrightarrow> rsize ms' = rsize ms \<and> ms_flags ms' = ms_flags ms"
  "mstream_write ms d = Inr (k, ms') \<Longrightarrow> rsize ms' = rsize ms \<and> ms_flags ms' = ms_flags ms"
  by (auto simp: mstream_read_def mstream_seek_def mstream_write_def Let_def split: if_splits)

lemma ms_reach_ok: "ms_reach ms0 ms \<Longrightarrow> ms_ok ms0 \<Longrightarrow> ms_ok ms \<and> rsize ms = rsize ms0 \<and> ms_flags ms = ms_flags ms0"
  by (induction rule: ms_reach.induct)
    (auto dest: mstream_read_ok mstream_write_ok mstream_seek_ok rsize_const)

lemma fmemopen_ok:
  assumes "fmemopen e buf sz type = Inr ms" "sz < 2 ^ 31"
    and "\<And>b. buf = Some b \<Longrightarrow> length b = sz" "\<And>b. buf_alloc e sz = Some b \<Longrightarrow> length b = sz"
  shows "ms_ok ms" "rsize ms = sz"
  using assms find_end_le
  by (auto simp: fmemopen_def ms_ok_def Let_def bnd_def split: if_splits option.splits sum.splits)

section \<open>Mode strings\<close>

definition mode_base :: "char \<Rightarrow> 32 word" where
  "mode_base c = (if c = CHR ''r'' then MS_READ else if c = CHR ''w'' then MS_WRITE OR MS_TRUNCATE
     else if c = CHR ''a'' then MS_APPEND else 0)"

lemma or_neq_0: "(f :: 32 word) \<noteq> 0 \<Longrightarrow> f OR g \<noteq> 0"
  by (metis or_eq_0_iff)

lemma type_to_flags_tail:
  "flags \<noteq> 0 \<Longrightarrow> type_to_flags_loop cs flags =
     (if set cs \<subseteq> {CHR ''+'', CHR ''b''} then if CHR ''+'' \<in> set cs then flags OR (MS_READ OR MS_WRITE) else flags else 0)"
proof (induction cs arbitrary: flags)
  case (Cons c cs)
  then show ?case using Cons.IH [of "flags OR (MS_READ OR MS_WRITE)"] or_neq_0 [OF Cons.prems]
    by (auto simp: or.assoc)
qed simp

section \<open>Properties\<close>

text \<open>
  C10: What is written to a stream that is open for update (and not for appending) is read
  back unchanged after seeking to where it was written, as long as it fits in the buffer.
\<close>

theorem mstream_write_read_back:
  assumes "ms_ok ms" "rw ms" "curpos ms + length b \<le> rsize ms"
  shows "\<exists>ms'. bnd (mstream_write ms b) (\<lambda>(_, ms1). bnd (mstream_seek ms1 (int (curpos ms)) SEEK_SET)
      (\<lambda>(_, ms2). mstream_read ms2 (length b))) = Inr (b, ms')
    \<and> ms_cont ms' = fsplice (ms_cont ms) (curpos ms) b"
  by (rule mstream.write_seek_read) (use assms in auto)

definition ms_ex :: memstream where
  "ms_ex = \<lparr>ms_buf = replicate 8 CHR ''-'', rsize = 8, vsize = 0, curpos = 0, ms_flags = MS_READ OR MS_WRITE\<rparr>"

theorem mstream_write_read_back_witness:
  "\<exists>ms'. bnd (mstream_write ms_ex ''hello'') (\<lambda>(_, ms1). bnd (mstream_seek ms1 0 SEEK_SET)
      (\<lambda>(_, ms2). mstream_read ms2 (length ''hello''))) = Inr (''hello'', ms') \<and> ms_cont ms' = ''hello''"
proof -
  have "ms_ok ms_ex" "rw ms_ex" "curpos ms_ex + length ''hello'' \<le> rsize ms_ex"
    by (simp_all add: ms_ok_def rw_def ms_ex_def has_def ms_consts)
  from mstream_write_read_back [OF this] show ?thesis by (simp add: ms_ex_def ms_cont_def fsplice_def)
qed

text \<open>
  C11: A stream that \<^verbatim>\<open>fmemopen\<close> returned stays inside its buffer through any sequence of
  reads, writes and seeks: the position never passes the end of the data, the data never
  passes the end of the buffer, and the buffer never changes its size.
\<close>

theorem fmemopen_stays_in_buffer:
  assumes "fmemopen e buf sz type = Inr ms0" "sz < 2 ^ 31" "ms_reach ms0 ms"
    and "\<And>b. buf = Some b \<Longrightarrow> length b = sz" "\<And>b. buf_alloc e sz = Some b \<Longrightarrow> length b = sz"
  shows "curpos ms \<le> vsize ms \<and> vsize ms \<le> sz \<and> length (ms_buf ms) = sz \<and> ms_flags ms = ms_flags ms0"
  using ms_reach_ok [OF assms(3)] fmemopen_ok [OF assms(1,2) assms(4,5)] by (auto simp: ms_ok_def)

theorem fmemopen_stays_in_buffer_witness:
  "\<exists>ms0 ms. fmemopen \<lparr>ms_alloc = True, buf_alloc = (\<lambda>_. None), funopen_errno = None\<rparr> (Some ''ab--'') 4 ''w'' = Inr ms0
    \<and> mstream_write ms0 ''xyz'' = Inr (3, ms) \<and> curpos ms \<le> vsize ms \<and> vsize ms \<le> 4"
proof -
  let ?e = "\<lparr>ms_alloc = True, buf_alloc = (\<lambda>_. None), funopen_errno = None\<rparr>"
  let ?m0 = "\<lparr>ms_buf = ''ab--'', rsize = 4, vsize = 0, curpos = 0, ms_flags = MS_WRITE OR MS_TRUNCATE\<rparr>"
  have o: "fmemopen ?e (Some ''ab--'') 4 ''w'' = Inr ?m0"
    by (simp add: fmemopen_def type_to_flags_def has_def ms_consts Let_def)
  obtain ms where w: "mstream_write ?m0 ''xyz'' = Inr (3, ms)"
    by (simp add: mstream_write_def has_def ms_consts Let_def)
  have "ms_reach ?m0 ms" by (rule ms_reach.writes [OF ms_reach.opened w])
  then have "curpos ms \<le> vsize ms \<and> vsize ms \<le> 4 \<and> length (ms_buf ms) = 4 \<and> ms_flags ms = ms_flags ?m0"
    by (intro fmemopen_stays_in_buffer [OF o]) auto
  then show ?thesis using o w by blast
qed

text \<open>
  \<^verbatim>\<open>type_to_flags\<close> accepts exactly the modes that are one of \<open>r\<close>, \<open>w\<close>, \<open>a\<close> followed by any
  number of \<open>+\<close> and \<open>b\<close>, and a \<open>+\<close> anywhere adds reading and writing.
\<close>

theorem type_to_flags_modes:
  "type_to_flags type = (case type of [] \<Rightarrow> 0
     | c # cs \<Rightarrow> if c \<in> {CHR ''r'', CHR ''w'', CHR ''a''} \<and> set cs \<subseteq> {CHR ''+'', CHR ''b''}
                then if CHR ''+'' \<in> set cs then mode_base c OR (MS_READ OR MS_WRITE) else mode_base c
                else 0)"
proof (cases type)
  case (Cons c cs)
  have nz: "mode_base c \<noteq> 0" if "c \<in> {CHR ''r'', CHR ''w'', CHR ''a''}"
    using that by (auto simp: mode_base_def ms_consts)
  have "type_to_flags type = (if c \<in> {CHR ''r'', CHR ''w'', CHR ''a''} then type_to_flags_loop cs (mode_base c) else 0)"
    by (simp add: Cons type_to_flags_def mode_base_def)
  then show ?thesis using type_to_flags_tail [OF nz] Cons by simp
qed (simp add: type_to_flags_def)

text \<open>
  After any write to a stream that is open for writing or appending only, the buffer
  holds a null byte behind the data; when the data fills the buffer the null byte takes the
  place of its last byte, although that byte is counted as written.
\<close>

theorem mstream_write_only_terminated:
  assumes "ms_ok ms" "\<not> has (ms_flags ms) MS_READ" "mstream_write ms d = Inr (n, ms')"
  shows "n = min (length d) (rsize ms - wr_off ms) \<and> curpos ms' = wr_off ms + n
    \<and> ms_buf ms' = (fsplice (ms_buf ms) (wr_off ms) (take n d))[min (curpos ms') (rsize ms - 1) := NUL]"
proof (cases "has (ms_flags ms) (MS_APPEND OR MS_WRITE)")
  case True
  let ?b = "wr_body ms d"
  have "wr_off ms + wr_cnt ms d \<le> rsize ms" using assms(1) by (auto simp: wr_off_def wr_cnt_def ms_ok_def)
  then have c: "curpos ?b \<le> rsize ?b" by (simp add: wr_body_def)
  have w: "has (ms_flags ms) (MS_WRITE OR MS_APPEND)" using True by (simp add: or.commute)
  have e: "n = wr_cnt ms d" "ms' = mstream_nul (ms_flags ms) (vsize ms < wr_off ms + wr_cnt ms d) ?b"
    using assms(3) unfolding mstream_write_body [OF True] by auto
  have "ms_buf ms' = (ms_buf ?b)[min (curpos ?b) (rsize ?b - 1) := NUL]"
    unfolding e(2) by (rule mstream_nul_write_only [OF w assms(2) c])
  then show ?thesis unfolding e by (simp add: wr_body_def wr_cnt_def)
qed (use assms in \<open>simp add: mstream_write_def\<close>)

theorem mstream_write_only_terminated_witness:
  "\<exists>ms'. mstream_write \<lparr>ms_buf = ''----'', rsize = 4, vsize = 0, curpos = 0, ms_flags = MS_WRITE\<rparr> ''abcdef'' = Inr (4, ms')
     \<and> ms_buf ms' = ''abc'' @ [NUL]"
proof -
  let ?m = "\<lparr>ms_buf = ''----'', rsize = 4, vsize = 0, curpos = 0, ms_flags = MS_WRITE\<rparr>"
  have o: "ms_ok ?m" "\<not> has (ms_flags ?m) MS_READ" by (simp_all add: ms_ok_def has_def ms_consts)
  obtain n ms' where w: "mstream_write ?m ''abcdef'' = Inr (n, ms')"
    by (simp add: mstream_write_def has_def ms_consts Let_def)
  show ?thesis using mstream_write_only_terminated [OF o w] w
    by (simp add: wr_off_def has_def ms_consts fsplice_def)
qed

text \<open>
  \<^verbatim>\<open>mstream_seek\<close> moves to any position from the start to the end of the data and refuses
  others with \<^verbatim>\<open>EINVAL\<close>; but the position is cut down to an \<^verbatim>\<open>int\<close> first, so that an offset
  that is 4 GB too big is taken for the position itself.
\<close>

theorem mstream_seek_positions:
  assumes "ms_ok ms"
  shows "(\<forall>p. - (2 ^ 31) \<le> p \<and> p < 2 ^ 31 \<longrightarrow> mstream_seek ms p SEEK_SET =
           (if 0 \<le> p \<and> p \<le> int (vsize ms) then Inr (p, ms\<lparr>curpos := nat p\<rparr>) else Inl EINVAL))
    \<and> (\<forall>p wh. mstream_seek ms (p + 2 ^ 32) wh = mstream_seek ms p wh)"
proof -
  have per: "to_int32 (i + 2 ^ 32) = to_int32 i" for i
  proof -
    have "i + 2 ^ 32 + 2 ^ 31 = (i + 2 ^ 31) + 2 ^ Suc 31" by simp
    then have "take_bit (Suc 31) (i + 2 ^ 32 + 2 ^ 31) = take_bit (Suc 31) (i + 2 ^ 31)"
      unfolding take_bit_eq_mod by (simp only: mod_add_self2)
    then show ?thesis by (simp only: to_int32_def signed_take_bit_eq_take_bit_shift)
  qed
  have id: "to_int32 p = p" if "- (2 ^ 31) \<le> p" "p < 2 ^ 31" for p
    unfolding to_int32_def using that by (intro signed_take_bit_int_eq_self) auto
  have "mstream_seek ms (p + 2 ^ 32) wh = mstream_seek ms p wh" for p wh
    using per [of p] per [of "int (vsize ms) + p"] per [of "int (curpos ms) + p"]
    by (cases wh) (simp_all add: mstream_seek_def Let_def add.assoc)
  then show ?thesis using id by (auto simp: mstream_seek_def Let_def)
qed

theorem mstream_seek_positions_witness:
  "mstream_seek ms_ex (2 ^ 32) SEEK_SET = Inr (0, ms_ex) \<and> mstream_seek ms_ex 1 SEEK_SET = Inl EINVAL"
proof -
  have o: "ms_ok ms_ex" by (simp add: ms_ok_def ms_ex_def)
  have "mstream_seek ms_ex (0 + 2 ^ 32) SEEK_SET = mstream_seek ms_ex 0 SEEK_SET"
    using mstream_seek_positions [OF o] by blast
  moreover have "mstream_seek ms_ex p SEEK_SET =
      (if 0 \<le> p \<and> p \<le> int (vsize ms_ex) then Inr (p, ms_ex\<lparr>curpos := nat p\<rparr>) else Inl EINVAL)" if "p \<in> {0, 1}" for p
    using mstream_seek_positions [OF o] that by auto
  from this [of 0] this [of 1] have "mstream_seek ms_ex 0 SEEK_SET = Inr (0, ms_ex)" "mstream_seek ms_ex 1 SEEK_SET = Inl EINVAL"
    by (simp_all add: ms_ex_def)
  ultimately show ?thesis by simp
qed

end
