(* ===== verification/Fd_Passing.thy ===== *)
theory Fd_Passing
  imports Prelude
begin

text \<open>
  Passing a descriptor or an error over a stream pipe: \<^verbatim>\<open>send_fd\<close>, \<^verbatim>\<open>send_err\<close> and
  \<^verbatim>\<open>recv_fd\<close> of \<^verbatim>\<open>lib\<close>, and \<^verbatim>\<open>buf_args\<close>, which splits a request into arguments. What goes over
  the pipe is a list of messages, each with its bytes and perhaps a descriptor in its
  control part; how the receiving side's reads cut the bytes is up to the kernel.
\<close>

record msg =
  m_bytes :: string
  m_fd :: "int option"


section \<open>Sending\<close>

definition status_byte :: "int \<Rightarrow> char" where
  "status_byte code = (let b = char_of ((- code) mod 256) in if b = NUL then CHR 0x01 else b)"

text \<open>\<^verbatim>\<open>send_fd\<close>: the message it hands to \<^verbatim>\<open>sendmsg\<close>.\<close>

definition send_fd :: "int \<Rightarrow> msg" where
  "send_fd fd_to_send =
     (if fd_to_send < 0 then \<lparr>m_bytes = [NUL, status_byte fd_to_send], m_fd = None\<rparr>
      else \<lparr>m_bytes = [NUL, NUL], m_fd = Some fd_to_send\<rparr>)"

definition send_err :: "int \<Rightarrow> string \<Rightarrow> msg list" where
  "send_err errcode msg =
     (if msg \<noteq> [] then [\<lparr>m_bytes = msg, m_fd = None\<rparr>] else [])
     @ [send_fd (if 0 \<le> errcode then - 1 else errcode)]"

section \<open>Receiving\<close>

text \<open>
  What is on the pipe: bytes in order, where a descriptor is at the first byte of its message. For one call of \<^verbatim>\<open>recvmsg\<close> the kernel has an error (or there is no memory
  for the control part), or some bytes (none at the end of the stream); what does not fit the buffer is there for the next call. The call returns a descriptor that is
  among its bytes.
\<close>

type_synonym cell = "char \<times> int option"

datatype rcv = RErr | RMsg "cell list"

definition cells :: "msg \<Rightarrow> cell list" where
  "cells m = (case m_bytes m of [] \<Rightarrow> [] | c # cs \<Rightarrow> (c, m_fd m) # map (\<lambda>c. (c, None)) cs)"

definition ctl_of :: "cell list \<Rightarrow> int option" where
  "ctl_of p = (case filter (\<lambda>x. x \<noteq> None) (map snd p) of [] \<Rightarrow> None | x # _ \<Rightarrow> x)"

definition kept :: "nat \<Rightarrow> cell list \<Rightarrow> rcv list" where
  "kept n p = (if length p \<le> n then [] else [RMsg (drop n p)])"

text \<open>
  The scan of a received buffer from position \<open>ptr\<close> on, with \<open>nr\<close> bytes in it: the new
  count and the status byte behind the null byte, when there is one.
\<close>

fun recv_scan :: "string \<Rightarrow> nat \<Rightarrow> nat \<Rightarrow> (nat \<times> int option) res" where
  "recv_scan [] ptr nr = Inr (nr, None)"
| "recv_scan (c # rest) ptr nr =
     (if c = NUL
      then if Suc ptr \<noteq> nr - 1 then Inl (Err_dump ''message format error'')
           else Inr (nr - 2, Some (of_char (hd rest)))
      else recv_scan rest (Suc ptr) nr)"

text \<open>
  \<^verbatim>\<open>recv_fd\<close>: the descriptor or the negative status it returns, what was handed to
  \<^verbatim>\<open>userfunc\<close>, and what is left on the pipe. \<open>uf\<close> says whether \<^verbatim>\<open>userfunc\<close> takes all the bytes.
  When nothing is left to receive the call waits for ever.
\<close>

definition rcv_size :: "rcv list \<Rightarrow> nat" where
  "rcv_size ms = sum_list (map (\<lambda>r. case r of RErr \<Rightarrow> 1 | RMsg p \<Rightarrow> Suc (length p)) ms)"

function recv_fd :: "(string \<Rightarrow> bool) \<Rightarrow> rcv list \<Rightarrow> (int \<times> string \<times> rcv list) res" where
  "recv_fd uf [] = Inl Diverges"
| "recv_fd uf (RErr # ms) = Inr (- 1, [], ms)"
| "recv_fd uf (RMsg p # ms) =
     (let buf = map fst (take MAXLINE p); ms1 = kept MAXLINE p @ ms
      in if buf = [] then Inr (- 1, [], ms1)
      else bnd (recv_scan buf 0 (length buf)) (\<lambda>(nr, status).
        bnd (case status of
               None \<Rightarrow> Inr 0
             | Some st \<Rightarrow> if st = 0 then (case ctl_of (take MAXLINE p) of None \<Rightarrow> Inl (Err_dump ''status = 0 but no fd'')
                                                   | Some fd \<Rightarrow> Inr fd)
                         else Inr (- st))
          (\<lambda>newfd.
             let out = take nr buf
             in if 0 < nr \<and> \<not> uf out then Inr (- 1, out, ms1)
                else if status \<noteq> None then Inr (newfd, out, ms1)
                else bnd (recv_fd uf ms1) (\<lambda>(r, out', ms'). Inr (r, out @ out', ms')))))"
  by pat_completeness auto
termination by (relation "measure (\<lambda>(uf, ms). rcv_size ms)") (auto simp: rcv_size_def kept_def MAXLINE_def split: if_splits)

declare recv_fd.simps(3) [simp del]

section \<open>Splitting a request\<close>

definition MAXARGC :: nat where "MAXARGC = 50"

definition white :: "char \<Rightarrow> bool" where
  "white c \<longleftrightarrow> c = SPACE \<or> c = CHR 0x09 \<or> c = NL"

text \<open>\<^verbatim>\<open>strtok\<close>: the next token and what follows it.\<close>

definition strtok :: "string \<Rightarrow> (string \<times> string) option" where
  "strtok s = (case dropWhile white s of
       [] \<Rightarrow> None
     | c # r \<Rightarrow> Some (takeWhile (\<lambda>x. \<not> white x) (c # r), drop 1 (dropWhile (\<lambda>x. \<not> white x) (c # r))))"

text \<open>The loop that collects \<^verbatim>\<open>argv[1]\<close> and up; nothing when there are too many.\<close>

function buf_args_loop :: "nat \<Rightarrow> string \<Rightarrow> string list option" where
  "buf_args_loop argc s =
     (case strtok s of
        None \<Rightarrow> Some []
      | Some (t, r) \<Rightarrow>
          if MAXARGC - 1 \<le> argc + 1 then None
          else map_option ((#) t) (buf_args_loop (argc + 1) r))"
  by auto
termination by (relation "measure (\<lambda>(argc, _). MAXARGC - argc)") (auto simp: MAXARGC_def)

declare buf_args_loop.simps [simp del]

text \<open>
  \<^verbatim>\<open>buf_args\<close>: the first argument is the start of the buffer up to the end of the first
  token. The user's function acts on the caller's state.
\<close>

definition buf_args :: "string \<Rightarrow> (string list \<Rightarrow> 'g \<Rightarrow> int \<times> 'g) \<Rightarrow> 'g \<Rightarrow> int \<times> 'g" where
  "buf_args buf optfunc g =
     (let s = cstr buf
      in case strtok s of
           None \<Rightarrow> (- 1, g)
         | Some (t, r) \<Rightarrow>
             (case buf_args_loop 0 r of
                None \<Rightarrow> (- 1, g)
              | Some args \<Rightarrow> optfunc ((takeWhile white s @ t) # args) g))"

section \<open>Status bytes\<close>

lemma status_byte_neq [simp]: "status_byte c \<noteq> NUL"
  by (simp add: status_byte_def Let_def)

lemma of_char_eq_0 [simp]: "(of_char c :: int) = 0 \<longleftrightarrow> c = NUL"
  using of_char_eq_iff [of c NUL, where ?'a = int] by simp

lemma of_char_status:
  assumes "code < 0"
  shows "(of_char (status_byte code) :: int) = (if code mod 256 = 0 then 1 else (- code) mod 256)"
proof -
  have "(- code) mod 256 = 0 \<longleftrightarrow> code mod 256 = 0" by presburger
  moreover have "(char_of ((- code) mod 256) = NUL) \<longleftrightarrow> (- code) mod 256 = 0"
  proof -
    have "(of_char (char_of ((- code) mod 256) :: char) :: int) = (- code) mod 256"
      by (simp add: of_char_of)
    then show ?thesis using of_char_eq_0 by metis
  qed
  moreover have "(of_char (char_of ((- code) mod 256) :: char) :: int) = (- code) mod 256"
    by (simp add: of_char_of)
  ultimately show ?thesis by (simp add: status_byte_def Let_def)
qed

section \<open>Receiving what was sent\<close>

lemma recv_scan_text: "is_cstr s \<Longrightarrow> recv_scan s ptr nr = Inr (nr, None)"
  by (induction s arbitrary: ptr) auto

lemma recv_scan_final:
  "is_cstr s \<Longrightarrow> recv_scan (s @ [NUL, b]) ptr (ptr + length s + 2) = Inr (ptr + length s, Some (of_char b))"
proof (induction s arbitrary: ptr)
  case (Cons c s)
  then show ?case using Cons.IH [of "Suc ptr"] by simp
qed simp

lemma rcv_size_kept: "p \<noteq> [] \<Longrightarrow> rcv_size (kept MAXLINE p @ ms) < rcv_size (RMsg p # ms)"
  by (auto simp: rcv_size_def kept_def MAXLINE_def)

lemma recv_fd_text:
  assumes "p \<noteq> []" "is_cstr (map fst (take MAXLINE p))" "uf (map fst (take MAXLINE p))"
  shows "recv_fd uf (RMsg p # ms) = bnd (recv_fd uf (kept MAXLINE p @ ms)) (\<lambda>(r, out, ms'). Inr (r, map fst (take MAXLINE p) @ out, ms'))"
  using assms by (simp add: recv_fd.simps(3) recv_scan_text Let_def MAXLINE_def)

lemma recv_fd_final:
  assumes "map fst p = s @ [NUL, b]" "length p \<le> MAXLINE" "is_cstr s" "uf s" "b = NUL \<longleftrightarrow> ctl_of p \<noteq> None"
  shows "recv_fd uf (RMsg p # ms) = Inr (case ctl_of p of Some fd \<Rightarrow> fd | None \<Rightarrow> - of_char b, s, ms)"
proof -
  have t: "take MAXLINE p = p" using assms(2) by simp
  show ?thesis unfolding recv_fd.simps(3) Let_def t assms(1)
    using recv_scan_final [OF assms(3), of b 0] assms(2,4,5) by (auto simp: kept_def split: option.splits)
qed

lemma recv_scan_cut: "is_cstr s \<Longrightarrow> recv_scan (s @ [NUL]) ptr (ptr + length s + 1) = Inl (Err_dump ''message format error'')"
proof (induction s arbitrary: ptr)
  case (Cons c s)
  then show ?case using Cons.IH [of "Suc ptr"] by simp
qed simp

text \<open>
  The kernel delivers the bytes that were sent in order, in pieces of its choice. The last receive gets only the last byte when the last piece is one byte longer than
  a number of full buffers.
\<close>

definition delivery :: "msg list \<Rightarrow> rcv list \<Rightarrow> bool" where
  "delivery ms rs \<longleftrightarrow> (\<exists>ps. rs = map RMsg ps \<and> (\<forall>p \<in> set ps. p \<noteq> []) \<and> concat ps = concat (map cells ms))"

definition last_alone :: "rcv list \<Rightarrow> bool" where
  "last_alone rs \<longleftrightarrow> rs \<noteq> [] \<and> (case last rs of RErr \<Rightarrow> False | RMsg p \<Rightarrow> length p mod MAXLINE = 1)"

lemma last_alone_kept:
  assumes "rs \<noteq> [] \<or> MAXLINE < length p"
  shows "last_alone (kept MAXLINE p @ rs) \<longleftrightarrow> last_alone (RMsg p # rs)"
  using assms by (auto simp: last_alone_def kept_def mod_if [of "length p"])

lemma ctl_of_text: "\<forall>c \<in> set t. snd c = None \<Longrightarrow> ctl_of (t @ p) = ctl_of p"
  by (induction t) (auto simp: ctl_of_def)

lemma split_within: "q @ r = t @ e \<Longrightarrow> length q \<le> length t \<Longrightarrow> \<exists>u. t = q @ u \<and> r = u @ e"
  by (auto simp: append_eq_append_conv2)

lemma split_behind: "q @ r = t @ e \<Longrightarrow> length q = length t + n \<Longrightarrow> n \<le> length e \<Longrightarrow> q = t @ take n e \<and> r = drop n e"
  by (auto simp: append_eq_append_conv2)

lemma concat_none: "\<forall>x \<in> set ps. x \<noteq> [] \<Longrightarrow> concat ps = [] \<Longrightarrow> ps = []"
  by (cases ps) auto

lemma concat_one: "\<forall>x \<in> set ps. x \<noteq> [] \<Longrightarrow> concat ps = [c] \<Longrightarrow> ps = [[c]]"
  by (cases ps) (auto simp: append_eq_Cons_conv dest: concat_none)

text \<open>A text and the last two bytes, received in any pieces.\<close>

lemma recv_fd_pieces:
  assumes "\<forall>p \<in> set ps. p \<noteq> []" "concat ps = t @ [(NUL, ctl), (b, None)]" "\<forall>c \<in> set t. snd c = None" "is_cstr (map fst t)" "b = NUL \<longleftrightarrow> ctl \<noteq> None"
  shows "recv_fd (\<lambda>_. True) (map RMsg ps @ rest) =
    (if last_alone (map RMsg ps) then Inl (Err_dump ''message format error'')
     else Inr (case ctl of Some fd \<Rightarrow> fd | None \<Rightarrow> - of_char b, map fst t, rest))"
  using assms(1-4)
proof (induction "rcv_size (map RMsg ps)" arbitrary: ps t rule: less_induct)
  case less
  obtain p ps' where ps: "ps = p # ps'" using less.prems(2) by (cases ps) auto
  have pne: "p \<noteq> []" using less.prems(1) ps by simp
  let ?q = "take MAXLINE p" and ?left = "if length p \<le> MAXLINE then [] else [drop MAXLINE p]"
  let ?e = "[(NUL, ctl), (b, None)]"
  have k: "kept MAXLINE p = map RMsg ?left" by (simp add: kept_def)
  have all: "?q @ concat (?left @ ps') = t @ ?e" using less.prems(2) ps by (simp flip: append_assoc)
  have ne: "\<forall>x \<in> set (?left @ ps'). x \<noteq> []" using less.prems(1) ps by auto
  consider (inside) "length ?q \<le> length t" | (cut) "length ?q = length t + 1" | (whole) "length ?q = length t + 2"
    using arg_cong [OF all, of length] by fastforce
  then show ?case
  proof cases
    case inside
    then obtain u where u: "t = ?q @ u" "concat (?left @ ps') = u @ ?e" using split_within [OF all inside] by blast
    then have more: "?left @ ps' \<noteq> []" by auto
    have sz: "rcv_size (map RMsg (?left @ ps')) < rcv_size (map RMsg ps)" using rcv_size_kept [OF pne, of "map RMsg ps'"] ps k by simp
    have tu: "\<forall>c \<in> set u. snd c = None" "is_cstr (map fst u)" "is_cstr (map fst ?q)" using less.prems(3,4) u(1) by (metis UnCI set_append, metis is_cstr_append map_append, metis is_cstr_append map_append)
    have la: "last_alone (map RMsg (?left @ ps')) = last_alone (map RMsg ps)"
      using last_alone_kept [of "map RMsg ps'" p] more ps k by (auto split: if_splits)
    have "recv_fd (\<lambda>_. True) (map RMsg ps @ rest) =
        bnd (recv_fd (\<lambda>_. True) (map RMsg (?left @ ps') @ rest)) (\<lambda>(r, out, ms'). Inr (r, map fst ?q @ out, ms'))"
      using recv_fd_text [where uf = "\<lambda>_. True", OF pne tu(3)] ps k by simp
    then show ?thesis unfolding less.hyps [OF sz ne u(2) tu(1,2)] la using u(1) by (auto simp flip: map_append)
  next
    case cut
    then have q: "?q = t @ [(NUL, ctl)]" "concat (?left @ ps') = [(b, None)]" using split_behind [OF all cut] by simp_all
    have "recv_fd (\<lambda>_. True) (map RMsg ps @ rest) = Inl (Err_dump ''message format error'')"
      using recv_scan_cut [OF less.prems(4), of 0] q(1) ps by (simp add: recv_fd.simps(3) Let_def)
    moreover have "?left @ ps' = [[(b, None)]]" using concat_one [OF ne q(2)] .
    then have "length (last ps) mod MAXLINE = 1"
    proof (cases "length p \<le> MAXLINE")
      case False
      then have "length (drop MAXLINE p) = 1" "ps' = []" using \<open>?left @ ps' = [[(b, None)]]\<close> by auto
      then have "length p = MAXLINE + 1" using False by simp
      then show ?thesis using ps \<open>ps' = []\<close> by (simp add: MAXLINE_def)
    qed (use ps in \<open>simp add: MAXLINE_def\<close>)
    then have "last_alone (map RMsg ps)" using ps by (auto simp: last_alone_def last_map split: if_splits)
    ultimately show ?thesis by simp
  next
    case whole
    then have q: "?q = t @ ?e" "concat (?left @ ps') = []" using split_behind [OF all whole] by simp_all
    then have l: "length p \<le> MAXLINE" "ps' = []" using concat_none [OF ne q(2)] by (auto split: if_splits)
    then have p: "p = t @ ?e" using q(1) by simp
    have "ctl_of p = ctl" unfolding p ctl_of_text [OF less.prems(3)] by (cases ctl) (simp_all add: ctl_of_def)
    then have "recv_fd (\<lambda>_. True) (map RMsg ps @ rest) = Inr (case ctl of Some fd \<Rightarrow> fd | None \<Rightarrow> - of_char b, map fst t, rest)"
      using recv_fd_final [where uf = "\<lambda>_. True" and s = "map fst t" and b = b and p = p and ms = rest] p l less.prems(4) assms(5) ps by simp
    moreover have "\<not> last_alone (map RMsg ps)" using l p ps by (auto simp: last_alone_def MAXLINE_def mod_if)
    ultimately show ?thesis by simp
  qed
qed

text \<open>The answer when the last byte comes alone, and otherwise.\<close>

definition unless_alone :: "rcv list \<Rightarrow> 'a res \<Rightarrow> 'a res" where
  "unless_alone rs r = (if last_alone rs then Inl (Err_dump ''message format error'') else r)"

definition texts :: "msg list \<Rightarrow> string" where
  "texts ms = concat (map m_bytes ms)"

lemma cells_text: "m_fd m = None \<Longrightarrow> cells m = map (\<lambda>c. (c, None)) (m_bytes m)"
  by (cases "m_bytes m") (auto simp: cells_def)

lemma recv_fd_delivery:
  assumes d: "delivery (ts @ [m]) rs" and t: "\<forall>t \<in> set ts. m_fd t = None" "is_cstr (texts ts)"
    and f: "m_bytes m = [NUL, b]" "b = NUL \<longleftrightarrow> m_fd m \<noteq> None"
  shows "recv_fd (\<lambda>_. True) (rs @ rest) =
    unless_alone rs (Inr (case m_fd m of Some fd \<Rightarrow> fd | None \<Rightarrow> - of_char b, texts ts, rest))"
proof -
  let ?t = "concat (map cells ts)"
  have e: "cells m = [(NUL, m_fd m), (b, None)]" using f(1) by (simp add: cells_def)
  have mt: "?t = map (\<lambda>c. (c, None)) (texts ts)" using t(1) by (induction ts) (auto simp: cells_text texts_def)
  then have c: "\<forall>c \<in> set ?t. snd c = None" "map fst ?t = texts ts" by (auto simp: comp_def)
  obtain ps where ps: "rs = map RMsg ps" "\<forall>p \<in> set ps. p \<noteq> []" "concat ps = ?t @ [(NUL, m_fd m), (b, None)]"
    using d e by (auto simp: delivery_def)
  show ?thesis using recv_fd_pieces [OF ps(2,3) c(1) _ f(2), of rest] t(2) c(2) ps(1) by (simp add: unless_alone_def)
qed

lemma send_fd_final: "m_bytes (send_fd fd) = [NUL, if fd < 0 then status_byte fd else NUL]"
  "m_fd (send_fd fd) = (if fd < 0 then None else Some fd)"
  by (simp_all add: send_fd_def)

lemma recv_send_fd:
  "delivery [send_fd fd] rs \<Longrightarrow> 0 \<le> fd \<Longrightarrow> recv_fd (\<lambda>_. True) (rs @ rest) = unless_alone rs (Inr (fd, [], rest))"
  using recv_fd_delivery [of "[]" "send_fd fd" rs NUL rest] by (simp add: send_fd_final texts_def)

lemma recv_send_err:
  assumes "delivery (send_err code m) rs" "is_cstr m"
  shows "recv_fd (\<lambda>_. True) (rs @ rest) =
    unless_alone rs (Inr (- (if 0 \<le> code \<or> code mod 256 = 0 then 1 else (- code) mod 256), m, rest))"
proof -
  let ?c = "if 0 \<le> code then - 1 else code" and ?ts = "if m \<noteq> [] then [\<lparr>m_bytes = m, m_fd = None\<rparr>] else []"
  have c: "?c < 0" by simp
  have t: "texts ?ts = m" by (simp add: texts_def)
  have "recv_fd (\<lambda>_. True) (rs @ rest) = unless_alone rs (Inr (- of_char (status_byte ?c), m, rest))"
    using recv_fd_delivery [of ?ts "send_fd ?c" rs "status_byte ?c" rest] assms c unfolding t send_err_def
    by (simp add: send_fd_final del: of_char_of)
  then show ?thesis unfolding of_char_status [OF c] by auto
qed

text \<open>Messages that fit the buffer of the receiver and are received by one call do not come in such pieces.\<close>

definition whole :: "msg list \<Rightarrow> rcv list" where
  "whole ms = [RMsg (concat (map cells ms))]"

lemma length_cells: "length (cells m) = length (m_bytes m)"
  by (cases "m_bytes m") (simp_all add: cells_def)

lemma whole_delivery:
  assumes "2 \<le> length (texts ms)" "length (texts ms) \<le> MAXLINE"
  shows "delivery ms (whole ms)" "\<not> last_alone (whole ms)"
proof -
  have l: "length (concat (map cells ms)) = length (texts ms)" by (induction ms) (auto simp: texts_def length_cells)
  then show "\<not> last_alone (whole ms)" using assms by (auto simp: last_alone_def whole_def MAXLINE_def mod_if)
  have "length (concat (map cells ms)) \<noteq> 0" using l assms(1) by linarith
  then show "delivery ms (whole ms)" unfolding delivery_def whole_def by (intro exI [of _ "[concat (map cells ms)]"]) (auto simp del: concat_eq_Nil_conv)
qed

section \<open>Properties\<close>

text \<open>
  C15: Whatever pieces the kernel delivers the bytes in, with the buffer of \<^verbatim>\<open>recv_fd\<close>, the receiver of \<^verbatim>\<open>send_fd\<close> gets the
  descriptor that was sent, and the receiver of \<^verbatim>\<open>send_err\<close> gets the message text and, for
  error codes from -255 to -1, the code; codes that are not negative arrive as -1. The only
  exception is a receive that ends between the two bytes that are sent last, so that the last byte comes
  alone: then, and only then, the receiver ends with a format error.
\<close>

theorem send_recv_roundtrip:
  assumes "is_cstr m"
  shows "(0 \<le> fd \<and> delivery [send_fd fd] rs1 \<longrightarrow> recv_fd (\<lambda>_. True) (rs1 @ rest) =
        (if last_alone rs1 then Inl (Err_dump ''message format error'') else Inr (fd, [], rest)))
    \<and> (- 255 \<le> code \<and> delivery (send_err code m) rs2 \<longrightarrow> recv_fd (\<lambda>_. True) (rs2 @ rest) =
        (if last_alone rs2 then Inl (Err_dump ''message format error'') else Inr (if 0 \<le> code then - 1 else code, m, rest)))"
proof -
  have c: "(if 0 \<le> code \<or> code mod 256 = 0 then 1 else (- code) mod 256) = (if 0 \<le> code then 1 else - code)"
    if "- 255 \<le> code"
  proof (cases "0 \<le> code")
    case False
    then have "(- code) mod 256 = - code" using that by (intro mod_pos_pos_trivial) auto
    moreover have "code mod 256 \<noteq> 0" using False that by presburger
    ultimately show ?thesis using False by simp
  qed simp
  have neg: "- (if 0 \<le> code then 1 else - code) = (if 0 \<le> code then - 1 else code)" by simp
  show ?thesis
    using recv_send_fd [of fd rs1 rest] recv_send_err [of code m rs2 rest] assms c neg unfolding unless_alone_def by presburger
qed

theorem send_recv_roundtrip_witness:
  "recv_fd (\<lambda>_. True) [RMsg [(CHR ''n'', None), (CHR ''o'', None)], RMsg [(CHR ''t'', None), (NUL, None), (CHR 0x02, None)]] = Inr (- 2, ''not'', [])"
proof -
  let ?ps = "[[(CHR ''n'', None), (CHR ''o'', None)], [(CHR ''t'', None), (NUL, None), (CHR 0x02, None)]]"
  have s: "status_byte (- 2) = CHR 0x02" by code_simp
  have "delivery (send_err (- 2) ''not'') (map RMsg ?ps)"
    unfolding delivery_def by (intro exI [of _ ?ps]) (simp add: send_err_def send_fd_def cells_def s)
  moreover have "\<not> last_alone (map RMsg ?ps)" by (simp add: last_alone_def MAXLINE_def)
  ultimately show ?thesis using send_recv_roundtrip [of "''not''" 0 "[]" "[]" "- 2" "map RMsg ?ps"] by simp
qed

text \<open>A text that fills the buffer up to one byte, when all is there: the null byte is the last that fits.\<close>

lemma recv_fd_boundary:
  assumes "is_cstr m" "length m + 1 = MAXLINE"
  shows "recv_fd (\<lambda>_. True) (whole (send_err (- 1) m)) = Inl (Err_dump ''message format error'')"
proof -
  have ne: "m \<noteq> []" using assms(2) by (auto simp: MAXLINE_def)
  then have l: "length (concat (map cells (send_err (- 1) m))) = MAXLINE + 1" using assms(2) by (simp add: send_err_def send_fd_def length_cells)
  then have "last_alone (whole (send_err (- 1) m))" by (simp add: last_alone_def whole_def MAXLINE_def)
  moreover have "delivery (send_err (- 1) m) (whole (send_err (- 1) m))"
    unfolding delivery_def whole_def using l by (intro exI [of _ "[concat (map cells (send_err (- 1) m))]"]) (auto simp del: concat_eq_Nil_conv)
  ultimately show ?thesis using recv_send_err [of "- 1" m "whole (send_err (- 1) m)" "[]"] assms(1) by (simp add: unless_alone_def)
qed

end
