(* ===== verification/Opend.thy ===== *)
theory Opend
  imports Fd_Passing
begin

text \<open>
  The open server \<^verbatim>\<open>ipc2/opend\<close> and its client \<^verbatim>\<open>ipc2/open\<close>: the request a client sends, how
  the server parses and answers it, and the table of connected clients. What \<^verbatim>\<open>open(2)\<close>
  answers is an argument of the server. Sending to a client and allocating memory are taken
  to succeed.
\<close>

definition CL_OPEN :: string where "CL_OPEN = ''open''"

section \<open>A request\<close>

record opend =
  errmsg :: string
  pathname :: string
  oflag :: int

definition cli_args :: "string list \<Rightarrow> opend \<Rightarrow> int \<times> opend" where
  "cli_args argv g =
     (if length argv \<noteq> 3 \<or> argv ! 0 \<noteq> CL_OPEN
      then (- 1, g\<lparr>errmsg := ''usage: <pathname> <oflag>'' @ [NL]\<rparr>)
      else (0, g\<lparr>pathname := argv ! 1, oflag := atol (argv ! 2)\<rparr>))"

text \<open>
  \<^verbatim>\<open>handle_request\<close>: the messages sent back, the server's variables afterwards, and the
  descriptor that was opened, sent and closed, when the request succeeds.
\<close>

definition handle_request ::
  "(string \<Rightarrow> int \<Rightarrow> string + int) \<Rightarrow> string \<Rightarrow> int \<Rightarrow> opend \<Rightarrow> msg list \<times> opend \<times> int option" where
  "handle_request os buf uid g =
     (if last buf \<noteq> NUL
      then let m = take (MAXLINE - 2) (''request from uid '' @ sprint_int uid @ '' not null terminated: ''
                     @ padl (length buf) (cstr buf) @ [NL])
           in (send_err (- 1) m, g\<lparr>errmsg := m\<rparr>, None)
      else
        let (rc, g1) = buf_args buf cli_args g
        in if rc < 0 then (send_err (- 1) (errmsg g1), g1, None)
           else (case os (pathname g1) (oflag g1) of
                   Inl e \<Rightarrow>
                     let m = take (MAXLINE - 2) (''can'' @ [CHR 0x27] @ ''t open '' @ pathname g1 @ '': '' @ e @ [NL])
                     in (send_err (- 1) m, g1\<lparr>errmsg := m\<rparr>, None)
                 | Inr newfd \<Rightarrow> ([send_fd newfd], g1, Some newfd)))"

section \<open>The client's side\<close>

text \<open>The bytes \<^verbatim>\<open>csopen\<close> writes: the flag goes through a buffer of 12 bytes.\<close>

definition csopen_request :: "string \<Rightarrow> int \<Rightarrow> string res" where
  "csopen_request name oflg =
     (let buf = SPACE # sprint_int oflg
      in if 12 < length buf + 1 then Inl (Undefined ''csopen: buf'')
         else Inr (CL_OPEN @ [SPACE] @ name @ buf @ [NUL]))"

text \<open>
  \<^verbatim>\<open>csopen\<close>: connect once (\<open>conn\<close> is what \<^verbatim>\<open>cli_conn\<close> returns), send the request and wait for
  the descriptor; \<open>srv\<close> is what comes back. The result, what went to standard error, and the
  descriptor of the connection.
\<close>

definition csopen :: "int \<Rightarrow> int \<Rightarrow> (string \<Rightarrow> rcv list) \<Rightarrow> string \<Rightarrow> int \<Rightarrow> (int \<times> string \<times> int) res" where
  "csopen csfd conn srv name oflg =
     (let csfd' = (if csfd < 0 then conn else csfd)
      in if csfd' < 0 then Inr (- 1, [], csfd')
         else bnd (csopen_request name oflg) (\<lambda>rq.
              bnd (recv_fd (\<lambda>_. True) (srv rq)) (\<lambda>(r, out, _). Inr (r, out, csfd'))))"

section \<open>Parsing a request\<close>

definition word :: "string \<Rightarrow> bool" where
  "word t \<longleftrightarrow> t \<noteq> [] \<and> (\<forall>c \<in> set t. \<not> white c)"

lemma strtok_word:
  assumes "word t" "white c"
  shows "strtok (t @ c # r) = Some (t, r)"
proof -
  obtain x xs where t: "t = x # xs" using assms by (cases t) (auto simp: word_def)
  have "takeWhile (\<lambda>x. \<not> white x) (t @ c # r) = t" "dropWhile (\<lambda>x. \<not> white x) (t @ c # r) = c # r"
    using assms by (auto simp: word_def takeWhile_append dropWhile_append)
  moreover have "dropWhile white (t @ c # r) = t @ c # r" using assms t by (simp add: word_def)
  ultimately show ?thesis using t by (simp add: strtok_def)
qed

lemma strtok_last:
  assumes "word t" shows "strtok t = Some (t, [])"
proof -
  obtain x xs where t: "t = x # xs" using assms by (cases t) (auto simp: word_def)
  have "takeWhile (\<lambda>x. \<not> white x) t = t" "dropWhile (\<lambda>x. \<not> white x) t = []"
    using assms by (auto simp: word_def takeWhile_eq_all_conv)
  moreover have "dropWhile white t = t" using assms t by (simp add: word_def)
  ultimately show ?thesis using t by (simp add: strtok_def)
qed

lemma strtok_Nil [simp]: "strtok [] = None"
  by (simp add: strtok_def)

lemma word_dec: "word (dec n)"
  by (auto simp: word_def white_def isdigit_def dest!: dec_isdigit)

lemma buf_args_request:
  assumes "word a" "word b" "word c" "is_cstr a" "is_cstr b" "is_cstr c"
  shows "buf_args (a @ [SPACE] @ b @ [SPACE] @ c @ [NUL]) f g = f [a, b, c] g"
proof -
  have w: "white SPACE" by (simp add: white_def)
  let ?s = "a @ SPACE # b @ SPACE # c"
  have cs: "cstr (a @ [SPACE] @ b @ [SPACE] @ c @ [NUL]) = ?s"
    using cstr_append_NUL [of ?s "[]"] assms by simp
  have "takeWhile white ?s = []" using assms(1) by (cases a) (auto simp: word_def)
  moreover have "buf_args_loop 0 (b @ SPACE # c) = Some [b, c]"
    by (simp add: buf_args_loop.simps [of 0] buf_args_loop.simps [of "Suc 0"] buf_args_loop.simps [of "Suc (Suc 0)"]
        strtok_word [OF assms(2) w] strtok_last [OF assms(3)] MAXARGC_def)
  ultimately show ?thesis unfolding buf_args_def cs Let_def using strtok_word [OF assms(1) w] by simp
qed

lemma handle_request_open:
  assumes "word name" "is_cstr name" "0 \<le> oflg"
    and rq: "csopen_request name oflg = Inr rq"
  shows "handle_request os rq uid g = (let g1 = g\<lparr>pathname := name, oflag := oflg\<rparr> in
    case os name oflg of
      Inl e \<Rightarrow> let m = take (MAXLINE - 2) (''can'' @ [CHR 0x27] @ ''t open '' @ name @ '': '' @ e @ [NL])
              in (send_err (- 1) m, g1\<lparr>errmsg := m\<rparr>, None)
    | Inr newfd \<Rightarrow> ([send_fd newfd], g1, Some newfd))"
proof -
  have o: "word CL_OPEN" "is_cstr CL_OPEN" by (simp_all add: word_def white_def CL_OPEN_def)
  let ?o = "dec (nat oflg)"
  have so: "sprint_int oflg = ?o" using assms(3) by (simp add: sprint_int_def)
  have r: "rq = CL_OPEN @ [SPACE] @ name @ [SPACE] @ ?o @ [NUL]"
    using rq so by (simp add: csopen_request_def Let_def split: if_splits)
  have "buf_args rq cli_args g = cli_args [CL_OPEN, name, ?o] g"
    unfolding r using o assms word_dec by (intro buf_args_request) auto
  also have "\<dots> = (0, g\<lparr>pathname := name, oflag := oflg\<rparr>)" using assms(3) by (simp add: cli_args_def)
  finally show ?thesis unfolding handle_request_def using r by (simp add: Let_def cong: sum.case_cong)
qed

lemma is_cstr_take: "is_cstr s \<Longrightarrow> is_cstr (take n s)"
  by (auto simp: is_cstr_def dest: in_set_takeD)

lemma strtok_blank: "\<forall>c \<in> set s. white c \<Longrightarrow> strtok s = None"
proof -
  assume "\<forall>c \<in> set s. white c"
  then have "dropWhile white s = []" by simp
  then show ?thesis by (simp only: strtok_def list.case)
qed

section \<open>The table of clients\<close>

record Client =
  cfd :: int
  cuid :: "int option"

definition NALLOC :: nat where "NALLOC = 10"

text \<open>The user of an entry is unset (\<^verbatim>\<open>malloc\<close> leaves it so) until the entry is taken.\<close>

definition client_alloc :: "Client list \<Rightarrow> Client list" where
  "client_alloc client = client @ replicate NALLOC \<lparr>cfd = - 1, cuid = None\<rparr>"

fun client_find :: "int \<Rightarrow> Client list \<Rightarrow> nat option" where
  "client_find fd [] = None"
| "client_find fd (c # cs) = (if cfd c = fd then Some 0 else map_option Suc (client_find fd cs))"

text \<open>The search with its \<^verbatim>\<open>goto again\<close>; fuel bounds the number of times the table grows.\<close>

fun client_add_again :: "nat \<Rightarrow> Client list \<Rightarrow> int \<Rightarrow> int \<Rightarrow> (nat \<times> Client list) res" where
  "client_add_again n client fd uid =
     (case client_find (- 1) client of
        Some i \<Rightarrow> Inr (i, client[i := \<lparr>cfd = fd, cuid = Some uid\<rparr>])
      | None \<Rightarrow> (case n of 0 \<Rightarrow> Inl Diverges
                | Suc n' \<Rightarrow> client_add_again n' (client_alloc client) fd uid))"

declare client_add_again.simps [simp del]

definition client_add :: "Client list \<Rightarrow> int \<Rightarrow> int \<Rightarrow> (nat \<times> Client list) res" where
  "client_add client fd uid = client_add_again 1 (if client = [] then client_alloc client else client) fd uid"

definition client_del :: "Client list \<Rightarrow> int \<Rightarrow> Client list res" where
  "client_del client fd =
     (case client_find fd client of
        Some i \<Rightarrow> Inr (client[i := (client ! i)\<lparr>cfd := - 1\<rparr>])
      | None \<Rightarrow> Inl (Err_quit (''can'' @ [CHR 0x27] @ ''t find client entry for fd '' @ sprint_int fd)))"

section \<open>What the loops rely on\<close>

text \<open>A table of connections, seen as a map from descriptors to users.\<close>

datatype conn_ev = Connect int int | Hangup int

fun conn_run :: "('t \<Rightarrow> int \<Rightarrow> int \<Rightarrow> (nat \<times> 't) res) \<Rightarrow> ('t \<Rightarrow> int \<Rightarrow> 't res) \<Rightarrow> conn_ev list \<Rightarrow> 't \<Rightarrow> 't res" where
  "conn_run add del [] t = Inr t"
| "conn_run add del (Connect fd uid # es) t = bnd (add t fd uid) (\<lambda>(i, t'). conn_run add del es t')"
| "conn_run add del (Hangup fd # es) t = bnd (del t fd) (conn_run add del es)"

fun conn_map :: "conn_ev list \<Rightarrow> (int \<rightharpoonup> int) \<Rightarrow> (int \<rightharpoonup> int)" where
  "conn_map [] m = m"
| "conn_map (Connect fd uid # es) m = conn_map es (m(fd \<mapsto> uid))"
| "conn_map (Hangup fd # es) m = conn_map es (m(fd := None))"

text \<open>New descriptors are not in use (the kernel never hands out one that is), closed ones are.\<close>

fun conn_ok :: "conn_ev list \<Rightarrow> (int \<rightharpoonup> int) \<Rightarrow> bool" where
  "conn_ok [] m \<longleftrightarrow> True"
| "conn_ok (Connect fd uid # es) m \<longleftrightarrow> 0 \<le> fd \<and> m fd = None \<and> conn_ok es (m(fd \<mapsto> uid))"
| "conn_ok (Hangup fd # es) m \<longleftrightarrow> m fd \<noteq> None \<and> conn_ok es (m(fd := None))"

locale conn_table =
  fixes holds :: "'t \<Rightarrow> (int \<rightharpoonup> int) \<Rightarrow> bool"
    and add :: "'t \<Rightarrow> int \<Rightarrow> int \<Rightarrow> (nat \<times> 't) res" and del :: "'t \<Rightarrow> int \<Rightarrow> 't res"
  assumes add_law: "holds t m \<Longrightarrow> 0 \<le> fd \<Longrightarrow> m fd = None \<Longrightarrow> \<exists>i t'. add t fd uid = Inr (i, t') \<and> holds t' (m(fd \<mapsto> uid))"
    and del_law: "holds t m \<Longrightarrow> m fd \<noteq> None \<Longrightarrow> \<exists>t'. del t fd = Inr t' \<and> holds t' (m(fd := None))"
begin

lemma run_tracks:
  assumes "holds t m" "conn_ok es m"
  shows "\<exists>t'. conn_run add del es t = Inr t' \<and> holds t' (conn_map es m)"
  using assms
proof (induction es arbitrary: t m)
  case (Cons e es)
  show ?case
  proof (cases e)
    case (Connect fd uid)
    then obtain i t1 where t1: "add t fd uid = Inr (i, t1)" "holds t1 (m(fd \<mapsto> uid))"
      using add_law [OF Cons.prems(1), of fd uid] Cons.prems(2) by auto
    have "conn_ok es (m(fd \<mapsto> uid))" using Cons.prems(2) Connect by simp
    from Cons.IH [OF t1(2) this] show ?thesis using Connect t1(1) by (simp del: fun_upd_apply)
  next
    case (Hangup fd)
    have "m fd \<noteq> None" using Cons.prems(2) Hangup by simp
    then obtain t1 where t1: "del t fd = Inr t1" "holds t1 (m(fd := None))"
      using del_law [OF Cons.prems(1)] by blast
    have "conn_ok es (m(fd := None))" using Cons.prems(2) Hangup by simp
    from Cons.IH [OF t1(2) this] show ?thesis using Hangup t1(1) by (simp del: fun_upd_apply)
  qed
qed simp

end

section \<open>The array provides it\<close>

definition active :: "Client list \<Rightarrow> (int \<times> int option) list" where
  "active client = map (\<lambda>c. (cfd c, cuid c)) (filter (\<lambda>c. cfd c \<noteq> - 1) client)"

definition client_holds :: "Client list \<Rightarrow> (int \<rightharpoonup> int) \<Rightarrow> bool" where
  "client_holds client m \<longleftrightarrow> distinct (map fst (active client)) \<and>
     (\<forall>(fd, u) \<in> set (active client). 0 \<le> fd \<and> u \<noteq> None) \<and>
     m = (\<lambda>fd. Option.bind (map_of (active client) fd) id)"

lemma active_append [simp]: "active (xs @ ys) = active xs @ active ys"
  and active_Cons [simp]: "active (c # ys) = (if cfd c = - 1 then [] else [(cfd c, cuid c)]) @ active ys"
  and active_Nil [simp]: "active [] = []"
  by (simp_all add: active_def)

lemma client_find_split:
  "client_find fd client = Some i \<Longrightarrow> \<exists>xs c ys. client = xs @ c # ys \<and> length xs = i \<and> cfd c = fd"
proof (induction client arbitrary: i)
  case (Cons c cs)
  show ?case
  proof (cases "cfd c = fd")
    case True
    then show ?thesis using Cons.prems by (intro exI [of _ "[]"]) auto
  next
    case False
    then obtain k where k: "client_find fd cs = Some k" "i = Suc k" using Cons.prems by auto
    then obtain xs d ys where "cs = xs @ d # ys" "length xs = k" "cfd d = fd" using Cons.IH by blast
    then show ?thesis using k by (intro exI [of _ "c # xs"]) auto
  qed
qed simp

lemma client_find_None: "client_find fd client = None \<longleftrightarrow> (\<forall>c \<in> set client. cfd c \<noteq> fd)"
  by (induction client) auto

lemma client_find_alloc: "client_find (- 1) (client_alloc client) \<noteq> None"
  by (auto simp: client_find_None client_alloc_def NALLOC_def)

lemma active_alloc [simp]: "active (client_alloc client) = active client"
  by (simp add: client_alloc_def NALLOC_def active_def)

text \<open>Adding finds an entry after at most one round of growing the table.\<close>

lemma client_add_split:
  obtains xs c ys k where "xs @ c # ys = client @ replicate k \<lparr>cfd = - 1, cuid = None\<rparr>" "cfd c = - 1"
    "client_add client fd uid = Inr (length xs, xs @ \<lparr>cfd = fd, cuid = Some uid\<rparr> # ys)"
proof -
  let ?t = "if client = [] then client_alloc client else client"
  note goal = that
  have fin: thesis if f: "client_find (- 1) t = Some i" and t: "t = client @ replicate k \<lparr>cfd = - 1, cuid = None\<rparr>"
      "client_add client fd uid = Inr (i, t[i := \<lparr>cfd = fd, cuid = Some uid\<rparr>])" for t i k
  proof -
    obtain xs c ys where "t = xs @ c # ys" "length xs = i" "cfd c = - 1" using client_find_split [OF f] by blast
    then show thesis using goal [of xs c ys k] t by auto
  qed
  show thesis
  proof (cases "client_find (- 1) ?t")
    case (Some i)
    then show thesis
      by (intro fin [OF Some, of "if client = [] then NALLOC else 0"])
        (simp_all add: client_add_def client_add_again.simps [of "Suc 0"] client_alloc_def)
  next
    case None
    obtain i where i: "client_find (- 1) (client_alloc ?t) = Some i" using client_find_alloc by blast
    show thesis using None i
      by (intro fin [OF i, of "if client = [] then NALLOC + NALLOC else NALLOC"])
        (auto simp: client_add_def client_add_again.simps [of "Suc 0"] client_add_again.simps [of 0]
          client_alloc_def replicate_add)
  qed
qed

lemma map_of_mid:
  "distinct (map fst (xs @ (k, v) # ys)) \<Longrightarrow> map_of (xs @ (k, v) # ys) = (map_of (xs @ ys))(k \<mapsto> v)"
  "distinct (map fst (xs @ (k, v) # ys)) \<Longrightarrow> map_of (xs @ ys) = (map_of (xs @ (k, v) # ys))(k := None)"
  by (auto simp: fun_eq_iff map_add_def map_of_eq_None_iff split: option.splits dest: map_of_SomeD) force+

interpretation ctab: conn_table client_holds client_add client_del
proof unfold_locales
  fix t m fd uid
  assume h: "client_holds t m" and fd: "0 \<le> fd" "m fd = None"
  obtain xs c ys k where a: "xs @ c # ys = t @ replicate k \<lparr>cfd = - 1, cuid = None\<rparr>" "cfd c = - 1"
    and add: "client_add t fd uid = Inr (length xs, xs @ \<lparr>cfd = fd, cuid = Some uid\<rparr> # ys)"
    by (rule client_add_split)
  have "active t = active (t @ replicate k \<lparr>cfd = - 1, cuid = None\<rparr>)" by (simp add: active_def)
  then have at: "active t = active xs @ active ys" unfolding a(1) [symmetric] using a(2) by simp
  have "map_of (active t) fd = None"
  proof (rule ccontr)
    assume "map_of (active t) fd \<noteq> None"
    then obtain u where u: "map_of (active t) fd = Some u" by blast
    then have "u \<noteq> None" using h map_of_SomeD [OF u] by (auto simp: client_holds_def)
    then show False using h fd u by (auto simp: client_holds_def)
  qed
  then have d: "distinct (map fst (active xs @ (fd, Some uid) # active ys))"
    using h by (auto simp: client_holds_def at map_of_eq_None_iff)
  have e: "active (xs @ \<lparr>cfd = fd, cuid = Some uid\<rparr> # ys) = active xs @ (fd, Some uid) # active ys"
    using fd by simp
  have "client_holds (xs @ \<lparr>cfd = fd, cuid = Some uid\<rparr> # ys) (m(fd \<mapsto> uid))"
    unfolding client_holds_def e map_of_mid(1) [OF d] using d h fd
    by (auto simp: client_holds_def at fun_eq_iff)
  then show "\<exists>i t'. client_add t fd uid = Inr (i, t') \<and> client_holds t' (m(fd \<mapsto> uid))" using add by blast
next
  fix t m and fd :: int
  assume h: "client_holds t m" and fd: "m fd \<noteq> None"
  then obtain u where u: "map_of (active t) fd = Some u" by (cases "map_of (active t) fd") (auto simp: client_holds_def)
  have "(fd, u) \<in> set (active t)" using u by (rule map_of_SomeD)
  then have n1: "fd \<noteq> - 1" and "client_find fd t \<noteq> None" by (auto simp: active_def client_find_None)
  then obtain i where i: "client_find fd t = Some i" by blast
  obtain xs c ys where t: "t = xs @ c # ys" "length xs = i" "cfd c = fd" using client_find_split [OF i] by blast
  have at: "active t = active xs @ (fd, cuid c) # active ys" using t n1 by simp
  have dl: "client_del t fd = Inr (xs @ c\<lparr>cfd := - 1\<rparr> # ys)" using i t by (auto simp: client_del_def)
  have d: "distinct (map fst (active xs @ (fd, cuid c) # active ys))" using h at by (simp add: client_holds_def)
  have "client_holds (xs @ c\<lparr>cfd := - 1\<rparr> # ys) (m(fd := None))"
    unfolding client_holds_def using h d map_of_mid(2) [OF d]
    by (auto simp: client_holds_def at fun_eq_iff)
  then show "\<exists>t'. client_del t fd = Inr t' \<and> client_holds t' (m(fd := None))" using dl by blast
qed

end
