(* ===== verification/Opend_Loops.thy ===== *)
theory Opend_Loops
  imports Opend
begin

text \<open>
  The two main loops of the open server, one round at a time: \<^verbatim>\<open>loop.poll.c\<close> and
  \<^verbatim>\<open>loop.select.c\<close>. What \<^verbatim>\<open>poll\<close>, \<^verbatim>\<open>select\<close>, \<^verbatim>\<open>serv_accept\<close> and \<^verbatim>\<open>read\<close> return is the input of a
  round; the connections that are reported closed and the requests that are handled, with
  the user they are handled for, are its output.
\<close>

datatype sev =
    Closed int "int option"
  | Request string int "int option"

text \<open>The user in an entry of the table, read by index.\<close>

definition uid_at :: "Client list \<Rightarrow> nat \<Rightarrow> int option" where
  "uid_at client i = (if i < length client then cuid (client ! i) else None)"

section \<open>The loop over poll\<close>

record pfd =
  p_fd :: int
  p_hup :: bool
  p_in :: bool

text \<open>
  The inner \<^verbatim>\<open>for\<close> from entry \<open>i\<close> on. The entry of a client that hung up is replaced by the
  last one, which is then looked at in its place.
\<close>

function poll_scan :: "(int \<Rightarrow> string option) \<Rightarrow> nat \<Rightarrow> pfd list \<Rightarrow> Client list \<Rightarrow> (sev list \<times> pfd list \<times> Client list) res" where
  "poll_scan rd i pollfd client =
     (if length pollfd \<le> i then Inr ([], pollfd, client)
      else
        let p = pollfd ! i;
            next = (\<lambda>_::unit. poll_scan rd (Suc i) pollfd client);
            hungup = (\<lambda>_::unit.
              bnd (client_del client (p_fd p)) (\<lambda>client'.
              bnd (poll_scan rd i (if i < length pollfd - 1 then (butlast pollfd)[i := last pollfd] else butlast pollfd) client')
                (\<lambda>(evs, r). Inr (Closed (p_fd p) (uid_at client i) # evs, r))))
        in if p_hup p then hungup ()
           else if p_in p
           then (case rd (p_fd p) of
                   None \<Rightarrow> Inl (Err_sys ''read error on fd'')
                 | Some buf \<Rightarrow>
                     if buf = [] then hungup ()
                     else bnd (next ()) (\<lambda>(evs, r). Inr (Request buf (p_fd p) (uid_at client i) # evs, r)))
           else next ())"
  by auto
termination by (relation "measure (\<lambda>(rd, i, pollfd, client). length pollfd - i)") auto

declare poll_scan.simps [simp del]

record poll_state =
  pollfd :: "pfd list"
  maxfd :: nat
  pclient :: "Client list"

text \<open>Before the first round: the listening descriptor is entry 0 of both arrays.\<close>

definition poll_init :: "int \<Rightarrow> poll_state res" where
  "poll_init listenfd =
     bnd (client_add [] listenfd 0) (\<lambda>(_, client).
       Inr \<lparr>pollfd = [\<lparr>p_fd = listenfd, p_hup = False, p_in = False\<rparr>], maxfd = NALLOC, pclient = client\<rparr>)"

text \<open>
  One round: \<open>revs\<close> are the events \<^verbatim>\<open>poll\<close> reports for the entries, \<open>acc\<close> is what
  \<^verbatim>\<open>serv_accept\<close> returns, \<open>rd\<close> what reading from a descriptor returns.
\<close>

definition poll_round ::
  "(bool \<times> bool) list \<Rightarrow> int \<times> int \<Rightarrow> (int \<Rightarrow> string option) \<Rightarrow> poll_state \<Rightarrow> (sev list \<times> poll_state) res" where
  "poll_round revs acc rd st =
     (let pf = map (\<lambda>(p, (h, i)). p\<lparr>p_hup := h, p_in := i\<rparr>) (zip (pollfd st) revs)
      in bnd (if p_in (pf ! 0)
              then if fst acc < 0 then Inl (Err_sys ''serv_accept error'')
                   else bnd (client_add (pclient st) (fst acc) (snd acc)) (\<lambda>(_, client).
                        Inr (pf @ [\<lparr>p_fd = fst acc, p_hup = False, p_in = False\<rparr>],
                             if length pf = maxfd st then maxfd st + NALLOC else maxfd st, client))
              else Inr (pf, maxfd st, pclient st))
           (\<lambda>(pf1, mx, client).
             bnd (poll_scan rd 1 pf1 client) (\<lambda>(evs, pf2, client2).
             Inr (evs, \<lparr>pollfd = pf2, maxfd = mx, pclient = client2\<rparr>))))"

section \<open>The loop over select\<close>

record sel_state =
  allset :: "int set"
  smaxfd :: int
  maxi :: int
  sclient :: "Client list"

definition select_init :: "int \<Rightarrow> sel_state" where
  "select_init listenfd = \<lparr>allset = {listenfd}, smaxfd = listenfd, maxi = - 1, sclient = []\<rparr>"

text \<open>The inner \<^verbatim>\<open>for\<close> over the entries of the table.\<close>

fun select_scan :: "(int \<Rightarrow> string option) \<Rightarrow> (int \<Rightarrow> bool) \<Rightarrow> nat list \<Rightarrow> int set \<Rightarrow> Client list
    \<Rightarrow> (sev list \<times> int set \<times> Client list) res" where
  "select_scan rd rset [] all client = Inr ([], all, client)"
| "select_scan rd rset (i # is) all client =
     (let clifd = cfd (client ! i)
      in if clifd < 0 \<or> \<not> rset clifd then select_scan rd rset is all client
         else (case rd clifd of
                 None \<Rightarrow> Inl (Err_sys ''read error on fd'')
               | Some buf \<Rightarrow>
                   if buf = []
                   then bnd (client_del client clifd) (\<lambda>client'.
                        bnd (select_scan rd rset is (all - {clifd}) client') (\<lambda>(evs, r).
                        Inr (Closed clifd (uid_at client i) # evs, r)))
                   else bnd (select_scan rd rset is all client) (\<lambda>(evs, r).
                        Inr (Request buf clifd (uid_at client i) # evs, r))))"

definition select_round ::
  "int \<Rightarrow> (int \<Rightarrow> bool) \<Rightarrow> int \<times> int \<Rightarrow> (int \<Rightarrow> string option) \<Rightarrow> sel_state \<Rightarrow> (sev list \<times> sel_state) res" where
  "select_round listenfd rset acc rd st =
     (if rset listenfd
      then if fst acc < 0 then Inl (Err_sys ''serv_accept error'')
           else bnd (client_add (sclient st) (fst acc) (snd acc)) (\<lambda>(i, client).
                Inr ([], \<lparr>allset = insert (fst acc) (allset st), smaxfd = max (smaxfd st) (fst acc),
                          maxi = max (maxi st) (int i), sclient = client\<rparr>))
      else bnd (select_scan rd rset [0..<nat (maxi st + 1)] (allset st) (sclient st)) (\<lambda>(evs, all, client).
           Inr (evs, st\<lparr>allset := all, sclient := client\<rparr>)))"

section \<open>Entries and the map they stand for\<close>

lemma active_mem: "i < length client \<Longrightarrow> cfd (client ! i) \<noteq> - 1 \<Longrightarrow> (cfd (client ! i), cuid (client ! i)) \<in> set (active client)"
  by (auto simp: active_def)

lemma holds_entry:
  assumes "client_holds client m" "i < length client" "cfd (client ! i) \<noteq> - 1"
  shows "m (cfd (client ! i)) = cuid (client ! i)" "cuid (client ! i) \<noteq> None" "0 \<le> cfd (client ! i)"
proof -
  have a: "(cfd (client ! i), cuid (client ! i)) \<in> set (active client)" using active_mem assms by blast
  then show "cuid (client ! i) \<noteq> None" "0 \<le> cfd (client ! i)" using assms(1) by (auto simp: client_holds_def)
  have "map_of (active client) (cfd (client ! i)) = Some (cuid (client ! i))"
    using a assms(1) by (simp add: client_holds_def)
  then show "m (cfd (client ! i)) = cuid (client ! i)" using assms(1) by (simp add: client_holds_def)
qed

lemma holds_dom:
  assumes "client_holds client m" "m fd \<noteq> None"
  shows "\<exists>i < length client. cfd (client ! i) = fd \<and> fd \<noteq> - 1"
proof -
  obtain u where "map_of (active client) fd = Some u"
    using assms by (cases "map_of (active client) fd") (auto simp: client_holds_def)
  then have "(fd, u) \<in> set (active client)" by (rule map_of_SomeD)
  then show ?thesis by (auto simp: active_def in_set_conv_nth)
qed

lemma holds_find:
  assumes h: "client_holds client m" and i: "i < length client" "cfd (client ! i) = fd" "fd \<noteq> - 1"
  shows "client_find fd client = Some i"
proof -
  have "client_find fd client \<noteq> None" using i by (auto simp: client_find_None)
  then obtain j where j: "client_find fd client = Some j" by blast
  then obtain xs c ys where t: "client = xs @ c # ys" "length xs = j" "cfd c = fd" using client_find_split by blast
  have d: "distinct (map fst (active xs @ (fd, cuid c) # active ys))" using h t i by (simp add: client_holds_def)
  have no: "cfd a \<noteq> fd" if "a \<in> set xs \<union> set ys" for a
    using that d i(3) by (force simp: active_def)
  have "i = j"
  proof (rule ccontr)
    assume "i \<noteq> j"
    then have "client ! i \<in> set xs \<union> set ys" using t i(1) by (auto simp: nth_append nth_Cons' intro: nth_mem)
    then show False using no i(2) by blast
  qed
  then show ?thesis using j by simp
qed

section \<open>Packing the poll array\<close>

lemma pack_set:
  assumes "distinct xs" "i < length xs"
  defines "ys \<equiv> (if i < length xs - 1 then (butlast xs)[i := last xs] else butlast xs)"
  shows "distinct ys" "set ys = set xs - {xs ! i}"
proof -
  obtain zs l where x: "xs = zs @ [l]" using assms(2) by (cases xs rule: rev_cases) auto
  show "distinct ys" "set ys = set xs - {xs ! i}"
    using assms x set_update_distinct [of zs i l]
    by (auto simp: nth_append less_Suc_eq distinct_list_update split: if_splits)
qed

definition poll_inv :: "pfd list \<Rightarrow> Client list \<Rightarrow> (int \<rightharpoonup> int) \<Rightarrow> bool" where
  "poll_inv pf client m \<longleftrightarrow> client_holds client m \<and> distinct (map p_fd pf) \<and> p_fd ` set pf = dom m"

definition closed_fds :: "sev list \<Rightarrow> int set" where
  "closed_fds evs = {fd. \<exists>u. Closed fd u \<in> set evs}"

lemma closed_fds_simps [simp]:
  "closed_fds [] = {}" "closed_fds (Closed fd u # evs) = insert fd (closed_fds evs)"
  "closed_fds (Request b fd u # evs) = closed_fds evs"
  by (auto simp: closed_fds_def)

lemma poll_inv_hangup:
  assumes v: "poll_inv pf client m" and i: "i < length pf"
  defines "fd \<equiv> p_fd (pf ! i)"
  shows "\<exists>client'. client_del client fd = Inr client'
    \<and> poll_inv (if i < length pf - 1 then (butlast pf)[i := last pf] else butlast pf) client' (m(fd := None))"
proof -
  have "fd \<in> dom m" using v i by (auto simp: poll_inv_def fd_def)
  then obtain client' where d: "client_del client fd = Inr client'" "client_holds client' (m(fd := None))"
    using v ctab.del_law [of client m fd] by (auto simp: poll_inv_def)
  let ?pf = "if i < length pf - 1 then (butlast pf)[i := last pf] else butlast pf"
  let ?xs = "map p_fd pf"
  have "pf \<noteq> []" using i by auto
  then have e: "map p_fd ?pf = (if i < length ?xs - 1 then (butlast ?xs)[i := last ?xs] else butlast ?xs)"
    by (simp add: map_butlast map_update last_map)
  have "distinct (map p_fd ?pf)" "set (map p_fd ?pf) = set ?xs - {fd}"
    unfolding e using pack_set [of ?xs i] v i by (auto simp: poll_inv_def fd_def)
  then have "poll_inv ?pf client' (m(fd := None))" using d(2) v by (auto simp: poll_inv_def)
  then show ?thesis using d(1) by blast
qed

lemma poll_scan_ok:
  assumes "poll_inv pf client m" and rd: "\<And>fd. rd fd \<noteq> None"
  shows "\<exists>evs pf' client'. poll_scan rd i pf client = Inr (evs, pf', client')
    \<and> poll_inv pf' client' (m |` (- closed_fds evs))"
  using assms(1)
proof (induction "length pf - i" arbitrary: i pf client m rule: less_induct)
  case less
  note inv = less.prems
  show ?case
  proof (cases "length pf \<le> i")
    case True
    then show ?thesis using inv by (simp add: poll_scan.simps [of rd i] restrict_map_def)
  next
    case False
    let ?p = "pf ! i" and ?pf = "if i < length pf - 1 then (butlast pf)[i := last pf] else butlast pf"
    obtain buf where buf: "rd (p_fd ?p) = Some buf" using rd by blast
    have nx: "\<exists>evs pf' client'. poll_scan rd (Suc i) pf client = Inr (evs, pf', client')
        \<and> poll_inv pf' client' (m |` (- closed_fds evs))"
      using False by (intro less.hyps [OF _ inv]) simp
    show ?thesis
    proof (cases "p_hup ?p \<or> p_in ?p \<and> buf = []")
      case hup: True
      obtain client' where d: "client_del client (p_fd ?p) = Inr client'" and v: "poll_inv ?pf client' (m(p_fd ?p := None))"
        using poll_inv_hangup [OF inv, of i] False by auto
      have "length ?pf - i < length pf - i" using False by (auto simp: not_le)
      then obtain evs pf' client'' where s: "poll_scan rd i ?pf client' = Inr (evs, pf', client'')"
        and w: "poll_inv pf' client'' ((m(p_fd ?p := None)) |` (- closed_fds evs))" using less.hyps [OF _ v] by blast
      have e: "(m(p_fd ?p := None)) |` (- closed_fds evs) = m |` (- closed_fds (Closed (p_fd ?p) (uid_at client i) # evs))"
        by (auto simp: restrict_map_def fun_eq_iff)
      have "poll_scan rd i pf client = Inr (Closed (p_fd ?p) (uid_at client i) # evs, pf', client'')"
        using s d hup buf False by (subst poll_scan.simps) (auto simp: Let_def)
      then show ?thesis using w unfolding e by blast
    next
      case no: False
      show ?thesis
      proof (cases "p_in ?p")
        case True
        from nx obtain evs pf' client' where s: "poll_scan rd (Suc i) pf client = Inr (evs, pf', client')"
          "poll_inv pf' client' (m |` (- closed_fds evs))" by blast
        then have "poll_scan rd i pf client = Inr (Request buf (p_fd ?p) (uid_at client i) # evs, pf', client')"
          using True no buf False by (subst poll_scan.simps) (auto simp: Let_def)
        then show ?thesis using s(2) by (metis closed_fds_simps(3))
      next
        case F: False
        then have "poll_scan rd i pf client = poll_scan rd (Suc i) pf client"
          using no False by (subst poll_scan.simps) (auto simp: Let_def)
        then show ?thesis using nx by simp
      qed
    qed
  qed
qed

text \<open>Whether the round takes a new connection, and the connections it starts its scan with.\<close>

definition round_map :: "bool \<Rightarrow> int \<times> int \<Rightarrow> (int \<rightharpoonup> int) \<Rightarrow> (int \<rightharpoonup> int)" where
  "round_map ready acc m = (if ready then m(fst acc \<mapsto> snd acc) else m)"

lemma poll_inv_snoc:
  assumes "poll_inv pf client m" "client_holds client' (m(fd \<mapsto> u))" "m fd = None"
  shows "poll_inv (pf @ [\<lparr>p_fd = fd, p_hup = False, p_in = False\<rparr>]) client' (m(fd \<mapsto> u))"
proof -
  have "fd \<notin> p_fd ` set pf" using assms(1,3) by (simp add: poll_inv_def domIff)
  then show ?thesis using assms by (simp add: poll_inv_def)
qed

lemma poll_round_ok:
  assumes v: "poll_inv (pollfd st) (pclient st) m" and l: "length revs = length (pollfd st)" "pollfd st \<noteq> []"
    and f: "0 \<le> fst acc" "m (fst acc) = None" and rd: "\<And>fd. rd fd \<noteq> None"
  shows "\<exists>evs st'. poll_round revs acc rd st = Inr (evs, st')
    \<and> poll_inv (pollfd st') (pclient st') (round_map (snd (revs ! 0)) acc m |` (- closed_fds evs))"
proof -
  let ?pf = "map (\<lambda>(p, (h, i)). p\<lparr>p_hup := h, p_in := i\<rparr>) (zip (pollfd st) revs)"
  have fds: "map p_fd ?pf = map p_fd (pollfd st)" 
    by (rule nth_equalityI) (simp_all add: l(1) case_prod_beta)
  then have st: "p_fd ` set ?pf = p_fd ` set (pollfd st)" by (metis list.set_map)
  have v1: "poll_inv ?pf (pclient st) m" using v fds st by (simp add: poll_inv_def)
  have z: "p_in (?pf ! 0) = snd (revs ! 0)" using l by (cases "pollfd st"; cases revs) (auto simp: case_prod_beta)
  obtain pf1 mx client where a: "(if p_in (?pf ! 0)
              then if fst acc < 0 then Inl (Err_sys ''serv_accept error'')
                   else bnd (client_add (pclient st) (fst acc) (snd acc)) (\<lambda>(_, client).
                        Inr (?pf @ [\<lparr>p_fd = fst acc, p_hup = False, p_in = False\<rparr>],
                             if length ?pf = maxfd st then maxfd st + NALLOC else maxfd st, client))
              else Inr (?pf, maxfd st, pclient st)) = Inr (pf1, mx, client)"
    and v2: "poll_inv pf1 client (round_map (snd (revs ! 0)) acc m)"
  proof (cases "snd (revs ! 0)")
    case True
    obtain i client where c: "client_add (pclient st) (fst acc) (snd acc) = Inr (i, client)"
      "client_holds client (m(fst acc \<mapsto> snd acc))" using ctab.add_law [of "pclient st" m "fst acc" "snd acc"] f v by (auto simp: poll_inv_def)
    have "poll_inv (?pf @ [\<lparr>p_fd = fst acc, p_hup = False, p_in = False\<rparr>]) client (round_map True acc m)"
      unfolding round_map_def if_True by (rule poll_inv_snoc [OF v1 c(2) f(2)])
    then show thesis using that c(1) f(1) z True by simp
  next
    case False
    then show thesis using that z v1 by (simp add: round_map_def)
  qed
  obtain evs pf2 client2 where "poll_scan rd 1 pf1 client = Inr (evs, pf2, client2)"
    "poll_inv pf2 client2 (round_map (snd (revs ! 0)) acc m |` (- closed_fds evs))"
    using poll_scan_ok [where rd = rd and i = 1, OF v2 rd] by blast
  then show ?thesis unfolding poll_round_def Let_def a by auto
qed

section \<open>The scan of the select loop\<close>

lemma client_del_entry:
  assumes "client_holds client m" "i < length client" "cfd (client ! i) = fd" "fd \<noteq> - 1"
  shows "client_del client fd = Inr (client[i := (client ! i)\<lparr>cfd := - 1\<rparr>])"
    and "client_holds (client[i := (client ! i)\<lparr>cfd := - 1\<rparr>]) (m(fd := None))"
proof -
  show d: "client_del client fd = Inr (client[i := (client ! i)\<lparr>cfd := - 1\<rparr>])"
    using holds_find [OF assms] by (simp add: client_del_def)
  have "m fd \<noteq> None" using holds_entry [OF assms(1,2)] assms by auto
  then show "client_holds (client[i := (client ! i)\<lparr>cfd := - 1\<rparr>]) (m(fd := None))"
    using ctab.del_law [OF assms(1), of fd] d by auto
qed

text \<open>The event a ready client must produce.\<close>

definition event_of :: "(int \<Rightarrow> string option) \<Rightarrow> (int \<rightharpoonup> int) \<Rightarrow> int \<Rightarrow> sev" where
  "event_of rd m fd = (case rd fd of Some buf \<Rightarrow> if buf = [] then Closed fd (m fd) else Request buf fd (m fd)
                                   | None \<Rightarrow> Closed fd None)"

lemma event_of_upd: "fd \<noteq> g \<Longrightarrow> event_of rd (m(g := None)) fd = event_of rd m fd"
  by (simp add: event_of_def split: option.splits)

definition ready_at :: "(int \<Rightarrow> bool) \<Rightarrow> Client list \<Rightarrow> nat \<Rightarrow> bool" where
  "ready_at rset client i \<longleftrightarrow> 0 \<le> cfd (client ! i) \<and> rset (cfd (client ! i))"

lemma select_scan_ok:
  assumes "client_holds client m" "distinct is" "\<forall>i \<in> set is. i < length client" and rd: "\<And>fd. rd fd \<noteq> None"
  shows "\<exists>client'. select_scan rd rset is all client =
      Inr (map (\<lambda>i. event_of rd m (cfd (client ! i))) (filter (ready_at rset client) is),
           all - closed_fds (map (\<lambda>i. event_of rd m (cfd (client ! i))) (filter (ready_at rset client) is)), client')
    \<and> client_holds client' (m |` (- closed_fds (map (\<lambda>i. event_of rd m (cfd (client ! i))) (filter (ready_at rset client) is))))
    \<and> length client' = length client \<and> (\<forall>j < length client. cfd (client' ! j) \<noteq> - 1 \<longrightarrow> cfd (client ! j) \<noteq> - 1)"
  using assms(1-3)
proof (induction "is" arbitrary: all client m)
  case Nil
  then show ?case by (simp add: restrict_map_def)
next
  case (Cons i "is")
  let ?fd = "cfd (client ! i)"
  have i: "i < length client" and "is": "distinct is" "\<forall>j \<in> set is. j < length client" "i \<notin> set is" using Cons.prems by auto
  let ?ev = "\<lambda>client m. map (\<lambda>i. event_of rd m (cfd (client ! i))) (filter (ready_at rset client) is)"
  show ?case
  proof (cases "ready_at rset client i")
    case False
    then show ?thesis using Cons.IH [OF Cons.prems(1) "is"(1,2), of all] by (auto simp: ready_at_def Let_def)
  next
    case True
    then have fd: "?fd \<noteq> - 1" "\<not> (?fd < 0 \<or> \<not> rset ?fd)" by (auto simp: ready_at_def)
    obtain buf where buf: "rd ?fd = Some buf" using rd by blast
    have u: "uid_at client i = m ?fd" using holds_entry(1) [OF Cons.prems(1) i fd(1)] i by (simp add: uid_at_def)
    show ?thesis
    proof (cases "buf = []")
      case b: True
      let ?cl = "client[i := (client ! i)\<lparr>cfd := - 1\<rparr>]" and ?m = "m(?fd := None)"
      note d = client_del_entry [OF Cons.prems(1) i refl fd(1)]
      have same: "?cl ! j = client ! j" if "j \<in> set is" for j using that "is"(3) by (metis nth_list_update_neq)
      have "cfd (client ! j) \<noteq> ?fd" if "j \<in> set is" for j
        using holds_find [OF Cons.prems(1) i refl fd(1)] holds_find [OF Cons.prems(1), of j ?fd] that "is" fd(1) by auto
      then have ev: "?ev ?cl ?m = ?ev client m"
        using same by (auto simp: ready_at_def event_of_upd intro!: map_cong filter_cong)
      obtain client' where s: "select_scan rd rset is (all - {?fd}) ?cl =
          Inr (?ev client m, all - {?fd} - closed_fds (?ev client m), client')"
        and h: "client_holds client' (?m |` (- closed_fds (?ev client m)))"
        and k: "length client' = length client" "\<forall>j < length client. cfd (client' ! j) \<noteq> - 1 \<longrightarrow> cfd (?cl ! j) \<noteq> - 1"
        using Cons.IH [OF d(2) "is"(1), of "all - {?fd}", unfolded ev length_list_update] "is"(2) by blast
      have e: "event_of rd m ?fd = Closed ?fd (m ?fd)" using buf b by (simp add: event_of_def)
      have m: "?m |` (- closed_fds (?ev client m)) = m |` (- insert ?fd (closed_fds (?ev client m)))"
        by (auto simp: restrict_map_def fun_eq_iff)
      have "\<forall>j < length client. cfd (client' ! j) \<noteq> - 1 \<longrightarrow> cfd (client ! j) \<noteq> - 1"
        using k(2) fd(1) by (metis nth_list_update_neq)
      moreover have "select_scan rd rset (i # is) all client =
          Inr (Closed ?fd (m ?fd) # ?ev client m, all - insert ?fd (closed_fds (?ev client m)), client')"
        using fd(2) buf b d(1) s u Diff_insert2 [of all ?fd, symmetric] by (simp add: Let_def)
      moreover have F: "map (\<lambda>i. event_of rd m (cfd (client ! i))) (filter (ready_at rset client) (i # is)) =
          Closed ?fd (m ?fd) # ?ev client m" using True e by simp
      ultimately show ?thesis unfolding F closed_fds_simps using h [unfolded m] k(1) by blast
    next
      case b: False
      then have e: "event_of rd m ?fd = Request buf ?fd (m ?fd)" using buf by (simp add: event_of_def)
      show ?thesis using Cons.IH [OF Cons.prems(1) "is"(1,2), of all] True e fd(2) buf b u by (auto simp: Let_def)
    qed
  qed
qed

text \<open>
  The state between rounds: the table holds the connections, the descriptor set is theirs
  and the listening one's, and no entry in use lies behind \<^verbatim>\<open>maxi\<close>.
\<close>

definition sel_inv :: "int \<Rightarrow> sel_state \<Rightarrow> (int \<rightharpoonup> int) \<Rightarrow> bool" where
  "sel_inv listenfd st m \<longleftrightarrow> client_holds (sclient st) m \<and> allset st = insert listenfd (dom m) \<and> m listenfd = None \<and>
     (\<forall>i < length (sclient st). cfd (sclient st ! i) \<noteq> - 1 \<longrightarrow> int i \<le> maxi st) \<and>
     - 1 \<le> maxi st \<and> maxi st < int (length (sclient st)) \<and> (\<forall>fd \<in> allset st. fd \<le> smaxfd st)"

definition sel_start :: "int \<Rightarrow> sel_state \<Rightarrow> (int \<rightharpoonup> int) \<Rightarrow> bool" where
  "sel_start listenfd st m \<longleftrightarrow> sel_inv listenfd st m \<or> st = select_init listenfd \<and> m = Map.empty"

lemma sel_inv_close:
  assumes v: "sel_inv listenfd st m" and c: "C \<subseteq> dom m" and h: "client_holds client' (m |` (- C))"
    and k: "length client' = length (sclient st)"
      "\<forall>j < length (sclient st). cfd (client' ! j) \<noteq> - 1 \<longrightarrow> cfd (sclient st ! j) \<noteq> - 1"
  shows "sel_inv listenfd (st\<lparr>allset := allset st - C, sclient := client'\<rparr>) (m |` (- C))"
proof -
  have l: "listenfd \<notin> dom m" "allset st = insert listenfd (dom m)" using v by (auto simp: sel_inv_def)
  then have "allset st - C = insert listenfd (dom (m |` (- C)))" using c by auto
  moreover have "\<forall>fd \<in> allset st - C. fd \<le> smaxfd st" using v by (simp add: sel_inv_def)
  moreover have "(m |` (- C)) listenfd = None" using l by (simp add: restrict_map_def domIff)
  ultimately show ?thesis using v h k by (simp add: sel_inv_def)
qed

lemma sel_scan_all:
  assumes v: "sel_inv listenfd st m" and rd: "\<And>fd. rd fd \<noteq> None"
  shows "\<exists>evs st'. bnd (select_scan rd rset [0..<nat (maxi st + 1)] (allset st) (sclient st)) (\<lambda>(evs, all, client).
           Inr (evs, st\<lparr>allset := all, sclient := client\<rparr>)) = Inr (evs, st')
    \<and> sel_inv listenfd st' (m |` (- closed_fds evs)) \<and> set evs = event_of rd m ` {fd \<in> dom m. rset fd}"
proof -
  let ?c = "sclient st" and ?is = "[0..<nat (maxi st + 1)]"
  let ?evs = "map (\<lambda>i. event_of rd m (cfd (?c ! i))) (filter (ready_at rset ?c) ?is)"
  have h: "client_holds ?c m" and l: "\<forall>i \<in> set ?is. i < length ?c" and ls: "m listenfd = None"
    using v by (auto simp: sel_inv_def)
  obtain client' where s: "select_scan rd rset ?is (allset st) ?c = Inr (?evs, allset st - closed_fds ?evs, client')"
    and h': "client_holds client' (m |` (- closed_fds ?evs))" and k: "length client' = length ?c"
      "\<forall>j < length ?c. cfd (client' ! j) \<noteq> - 1 \<longrightarrow> cfd (?c ! j) \<noteq> - 1"
    using select_scan_ok [where rd = rd and rset = rset and all = "allset st", OF h _ l rd] by auto
  have idx: "(\<exists>i \<in> set ?is. ready_at rset ?c i \<and> cfd (?c ! i) = fd) \<longleftrightarrow> fd \<in> dom m \<and> rset fd" for fd
  proof
    assume "\<exists>i \<in> set ?is. ready_at rset ?c i \<and> cfd (?c ! i) = fd"
    then obtain i where "i < length ?c" "0 \<le> fd" "rset fd" "cfd (?c ! i) = fd" using l by (auto simp: ready_at_def)
    then show "fd \<in> dom m \<and> rset fd" using holds_entry [OF h, of i] by auto
  next
    assume a: "fd \<in> dom m \<and> rset fd"
    then obtain i where i: "i < length ?c" "cfd (?c ! i) = fd" "fd \<noteq> - 1" using holds_dom [OF h, of fd] by auto
    then have "int i \<le> maxi st" "0 \<le> fd" using v holds_entry [OF h, of i] by (auto simp: sel_inv_def)
    then show "\<exists>i \<in> set ?is. ready_at rset ?c i \<and> cfd (?c ! i) = fd"
      using i a by (intro bexI [of _ i]) (auto simp: ready_at_def)
  qed
  have "set ?evs = event_of rd m ` ((\<lambda>i. cfd (?c ! i)) ` {i \<in> set ?is. ready_at rset ?c i})" by auto
  also have "(\<lambda>i. cfd (?c ! i)) ` {i \<in> set ?is. ready_at rset ?c i} = {fd \<in> dom m. rset fd}"
    unfolding set_eq_iff mem_Collect_eq idx [symmetric] by blast
  finally have evs: "set ?evs = event_of rd m ` {fd \<in> dom m. rset fd}" .
  have "closed_fds ?evs \<subseteq> dom m" unfolding closed_fds_def evs by (auto simp: event_of_def split: option.splits if_splits)
  from sel_inv_close [OF v this h' k]
  have "sel_inv listenfd (st\<lparr>allset := allset st - closed_fds ?evs, sclient := client'\<rparr>) (m |` (- closed_fds ?evs))" .
  then show ?thesis unfolding s bnd_Inr prod.case using evs by blast
qed

lemma sel_accept:
  assumes v: "sel_start listenfd st m" and f: "0 \<le> fst acc" "m (fst acc) = None" "fst acc \<noteq> listenfd"
  shows "\<exists>st'. bnd (client_add (sclient st) (fst acc) (snd acc)) (\<lambda>(i, client).
      Inr ([], \<lparr>allset = insert (fst acc) (allset st), smaxfd = max (smaxfd st) (fst acc),
                maxi = max (maxi st) (int i), sclient = client\<rparr>)) = Inr ([] :: sev list, st')
    \<and> sel_inv listenfd st' (m(fst acc \<mapsto> snd acc))"
proof -
  let ?c = "sclient st" and ?e = "\<lparr>cfd = - 1, cuid = None\<rparr>" and ?n = "\<lparr>cfd = fst acc, cuid = Some (snd acc)\<rparr>"
  have h: "client_holds ?c m" "allset st = insert listenfd (dom m)" "m listenfd = None"
    "\<forall>i < length ?c. cfd (?c ! i) \<noteq> - 1 \<longrightarrow> int i \<le> maxi st" "- 1 \<le> maxi st" "maxi st \<le> int (length ?c)"
    "\<forall>fd \<in> allset st. fd \<le> smaxfd st" "maxi st < int (length ?c) \<or> maxi st = - 1"
    using v by (auto simp: sel_start_def sel_inv_def select_init_def client_holds_def fun_eq_iff)
  obtain xs c ys k where s: "xs @ c # ys = ?c @ replicate k ?e" "cfd c = - 1"
    and add: "client_add ?c (fst acc) (snd acc) = Inr (length xs, xs @ ?n # ys)" by (rule client_add_split)
  have hn: "client_holds (xs @ ?n # ys) (m(fst acc \<mapsto> snd acc))" using ctab.add_law [OF h(1) f(1,2), of "snd acc"] add by auto
  have "int i \<le> max (maxi st) (int (length xs))" if "i < length (xs @ ?n # ys)" "cfd ((xs @ ?n # ys) ! i) \<noteq> - 1" for i
  proof (cases "i = length xs")
    case False
    then have "(xs @ ?n # ys) ! i = (?c @ replicate k ?e) ! i" unfolding s(1) [symmetric] by (auto simp: nth_append nth_Cons')
    then have "i < length ?c \<and> cfd (?c ! i) \<noteq> - 1"
      using that s(1) by (metis (no_types, lifting) Client.select_convs(1) add_diff_inverse_nat length_append length_Cons
          length_replicate nat_add_left_cancel_less nth_append nth_replicate)
    then show ?thesis using h(4) by fastforce
  qed simp
  moreover have "length (xs @ ?n # ys) = length ?c + k" using s(1) by (metis length_append length_Cons length_replicate)
  ultimately have "sel_inv listenfd \<lparr>allset = insert (fst acc) (allset st), smaxfd = max (smaxfd st) (fst acc),
                maxi = max (maxi st) (int (length xs)), sclient = xs @ ?n # ys\<rparr> (m(fst acc \<mapsto> snd acc))"
    using hn h f(3) by (auto simp: sel_inv_def le_max_iff_disj)
  then show ?thesis using add by auto
qed

section \<open>Properties of the server\<close>

text \<open>
  A client that asks for a file by a name without white space gets, whatever pieces the
  answer arrives in, the descriptor the server opened with exactly that name and flag; when
  the server cannot open it, the client gets -1 and the reason on standard error. The flag
  must not be negative and the request must fit the buffer of the server, which gets what is sent with one call by one read of at most \<^verbatim>\<open>MAXLINE\<close>
  bytes. An answer whose last byte comes alone ends the client.
\<close>

definition open_request :: "string \<Rightarrow> int \<Rightarrow> string" where
  "open_request name oflg = CL_OPEN @ [SPACE] @ name @ SPACE # sprint_int oflg @ [NUL]"

theorem csopen_end_to_end:
  assumes "word name" "is_cstr name" "0 \<le> oflg" "oflg < 2 ^ 31" "0 \<le> csfd" "length (open_request name oflg) \<le> MAXLINE"
    and os: "\<And>fd. os name oflg = Inr fd \<Longrightarrow> 0 \<le> fd" "\<And>e. os name oflg = Inl e \<Longrightarrow> is_cstr e"
    and srv: "\<And>rq. delivery (fst (handle_request os (take MAXLINE rq) uid g)) (srv rq)"
  shows "csopen csfd conn srv name oflg = unless_alone (srv (open_request name oflg)) (Inr
    (case os name oflg of
       Inr fd \<Rightarrow> (fd, [], csfd)
     | Inl e \<Rightarrow> (- 1, take (MAXLINE - 2) (''can'' @ [CHR 0x27] @ ''t open '' @ name @ '': '' @ e @ [NL]), csfd)))"
proof -
  let ?rq = "open_request name oflg"
  have "length (dec (nat oflg)) \<le> 10" using assms(3,4) by (intro length_dec_le) auto
  then have rq: "csopen_request name oflg = Inr ?rq"
    using assms(3) by (simp add: csopen_request_def open_request_def sprint_int_def Let_def)
  note hr = handle_request_open [OF assms(1-3) rq, of os uid g, unfolded Let_def]
  have d: "delivery (fst (handle_request os ?rq uid g)) (srv ?rq)" using srv [of ?rq] assms(6) by simp
  show ?thesis
  proof (cases "os name oflg")
    case (Inr fd)
    have "delivery [send_fd fd] (srv ?rq)" using d hr Inr by simp
    from recv_send_fd [OF this os(1) [OF Inr], of "[]"] show ?thesis
      using Inr rq assms(5) by (simp add: csopen_def unless_alone_def)
  next
    case (Inl e)
    let ?m = "take (MAXLINE - 2) (''can'' @ [CHR 0x27] @ ''t open '' @ name @ '': '' @ e @ [NL])"
    have "delivery (send_err (- 1) ?m) (srv ?rq)" using d hr Inl by simp
    moreover have "is_cstr ?m" using assms(2) os(2) [OF Inl] by (intro is_cstr_take) simp
    ultimately have "recv_fd (\<lambda>_. True) (srv ?rq @ []) = unless_alone (srv ?rq) (Inr (- (if 0 \<le> (- 1 :: int) \<or> (- 1 :: int) mod 256 = 0 then 1 else (- (- 1)) mod 256), ?m, []))"
      by (rule recv_send_err)
    then have "recv_fd (\<lambda>_. True) (srv ?rq) = unless_alone (srv ?rq) (Inr (- 1, ?m, []))" by (simp del: append.simps)
    then show ?thesis using Inl rq assms(5) by (simp add: csopen_def unless_alone_def del: append.simps)
  qed
qed

text \<open>
  A request that is longer than the buffer is read in part, and the part does not end in a null byte: it is answered with an error, and so is the rest.
\<close>

lemma long_request_refused:
  assumes "MAXLINE < length (open_request name oflg)" "is_cstr name"
  shows "\<exists>m. fst (handle_request os (take MAXLINE (open_request name oflg)) uid g) = send_err (- 1) m"
proof -
  have "is_cstr (CL_OPEN @ [SPACE] @ name @ SPACE # sprint_int oflg)" using assms(2) by (simp add: CL_OPEN_def sprint_int_def)
  moreover have "open_request name oflg = (CL_OPEN @ [SPACE] @ name @ SPACE # sprint_int oflg) @ [NUL]" by (simp add: open_request_def)
  then have "take MAXLINE (open_request name oflg) = take MAXLINE (CL_OPEN @ [SPACE] @ name @ SPACE # sprint_int oflg)"
    using assms(1) by (simp only: take_append length_append) simp
  ultimately have c: "is_cstr (take MAXLINE (open_request name oflg))" by (metis is_cstr_take)
  have "take MAXLINE (open_request name oflg) \<noteq> []" by (simp add: open_request_def MAXLINE_def CL_OPEN_def)
  then have "last (take MAXLINE (open_request name oflg)) \<noteq> NUL" using c last_in_set unfolding is_cstr_def by metis
  then show ?thesis unfolding handle_request_def Let_def by (simp only: if_True not_False_eq_True fst_conv) (rule exI, rule refl)
qed

theorem csopen_end_to_end_witness:
  "csopen 7 0 (\<lambda>rq. whole (fst (handle_request (\<lambda>_ _. Inr 9) (take MAXLINE rq) 100 \<lparr>errmsg = [], pathname = [], oflag = 0\<rparr>))) ''/etc/motd'' 0 = Inr (9, [], 7)"
  by code_simp

text \<open>
  One round of the poll loop, for a new connection on a fresh descriptor and reads that
  do not fail, returns with both arrays in step: the descriptors polled, each once, are the
  connections of the table, which are those before the round and the new one, less those
  that were reported closed. In particular \<^verbatim>\<open>client_del\<close> always finds its entry.
\<close>

theorem poll_round_keeps_table:
  assumes "poll_inv (pollfd st) (pclient st) m" "length revs = length (pollfd st)" "pollfd st \<noteq> []"
    and "0 \<le> fst acc" "m (fst acc) = None" "\<And>fd. rd fd \<noteq> None"
  shows "\<exists>evs st'. poll_round revs acc rd st = Inr (evs, st')
    \<and> poll_inv (pollfd st') (pclient st') (round_map (snd (revs ! 0)) acc m |` (- closed_fds evs))"
  using poll_round_ok [OF assms] .

text \<open>A server with three clients: users 100, 200 and 300 on descriptors 4, 5 and 6.\<close>

definition poll_ex :: poll_state where
  "poll_ex = \<lparr>pollfd = map (\<lambda>fd. \<lparr>p_fd = fd, p_hup = False, p_in = False\<rparr>) [3, 4, 5, 6], maxfd = 10,
     pclient = [\<lparr>cfd = 3, cuid = Some 0\<rparr>, \<lparr>cfd = 4, cuid = Some 100\<rparr>, \<lparr>cfd = 5, cuid = Some 200\<rparr>,
                \<lparr>cfd = 6, cuid = Some 300\<rparr>]\<rparr>"

definition poll_ex_map :: "int \<rightharpoonup> int" where
  "poll_ex_map = [3 \<mapsto> 0, 4 \<mapsto> 100, 5 \<mapsto> 200, 6 \<mapsto> 300]"

lemma poll_ex_inv: "poll_inv (pollfd poll_ex) (pclient poll_ex) poll_ex_map"
  by (auto simp: poll_inv_def poll_ex_def poll_ex_map_def client_holds_def active_def fun_eq_iff split: if_splits)

theorem poll_round_keeps_table_witness:
  "\<exists>evs st'. poll_round [(False, False), (True, False), (False, False), (False, False)] (7, 400) (\<lambda>_. Some []) poll_ex = Inr (evs, st')
    \<and> poll_inv (pollfd st') (pclient st') (poll_ex_map |` (- closed_fds evs))"
proof -
  let ?r = "[(False, False), (True, False), (False, False), (False, False)]"
  have "length ?r = length (pollfd poll_ex)" "pollfd poll_ex \<noteq> []" "0 \<le> fst (7 :: int, 400 :: int)"
    "poll_ex_map (fst (7, 400 :: int)) = None" by (simp_all add: poll_ex_def poll_ex_map_def)
  from poll_round_keeps_table [OF poll_ex_inv this, of "\<lambda>_. Some []"] show ?thesis by (simp add: round_map_def)
qed

text \<open>
  C18: One round of the select loop, for a new connection on a fresh descriptor and reads that
  do not fail: a round with a new connection only adds it; any other round closes or serves
  every ready client, and every request is handled for the user who made the connection.
\<close>

theorem select_round_serves_users:
  assumes "if rset listenfd then sel_start listenfd st m else sel_inv listenfd st m"
    and "0 \<le> fst acc" "m (fst acc) = None" "fst acc \<noteq> listenfd" "\<And>fd. rd fd \<noteq> None"
  shows "\<exists>evs st'. select_round listenfd rset acc rd st = Inr (evs, st')
    \<and> (if rset listenfd then evs = [] \<and> sel_inv listenfd st' (m(fst acc \<mapsto> snd acc))
       else sel_inv listenfd st' (m |` (- closed_fds evs)) \<and> set evs = event_of rd m ` {fd \<in> dom m. rset fd})"
proof (cases "rset listenfd")
  case True
  then show ?thesis using sel_accept [of listenfd st m acc] assms by (auto simp: select_round_def)
next
  case False
  then show ?thesis using sel_scan_all [where rd = rd and rset = rset, OF _ assms(5), of listenfd st m] assms(1)
    by (auto simp: select_round_def)
qed

theorem select_round_serves_users_witness:
  "\<exists>evs st'. select_round 3 (\<lambda>fd. fd = 3) (4, 100) (\<lambda>_. Some ''x'') (select_init 3) = Inr (evs, st') \<and> evs = []
    \<and> sel_inv 3 st' [4 \<mapsto> 100]"
proof -
  have "if 3 = (3 :: int) then sel_start 3 (select_init 3) Map.empty else sel_inv 3 (select_init 3) Map.empty"
    by (simp add: sel_start_def)
  from select_round_serves_users [where rset = "\<lambda>fd. fd = 3" and acc = "(4, 100)" and rd = "\<lambda>_. Some ''x''", OF this]
  show ?thesis by simp
qed

text \<open>
  The poll loop handles a request for the wrong user: the user is read from the table at
  the index of the poll array, and the two arrays are ordered differently once a client has
  hung up. With users 100, 200 and 300 connected and the first of them gone, the next
  request of user 300 is handled for user 100.
\<close>

theorem poll_request_wrong_user:
  "\<exists>st1 st2. poll_round [(False, False), (True, False), (False, False), (False, False)] (7, 400) (\<lambda>_. Some []) poll_ex
       = Inr ([Closed 4 (Some 100)], st1)
    \<and> poll_round [(False, False), (False, True), (False, False)] (7, 400) (\<lambda>_. Some ''req'') st1
       = Inr ([Request ''req'' 6 (Some 100)], st2)
    \<and> client_holds (pclient st2) [3 \<mapsto> 0, 5 \<mapsto> 200, 6 \<mapsto> 300]"
proof -
  let ?pf = "\<lambda>fd i. \<lparr>p_fd = fd, p_hup = False, p_in = i\<rparr>"
  let ?c = "[\<lparr>cfd = 3, cuid = Some 0\<rparr>, \<lparr>cfd = - 1, cuid = Some 100\<rparr>, \<lparr>cfd = 5, cuid = Some 200\<rparr>, \<lparr>cfd = 6, cuid = Some 300\<rparr>]"
  let ?s1 = "\<lparr>pollfd = [?pf 3 False, ?pf 6 False, ?pf 5 False], maxfd = 10, pclient = ?c\<rparr>"
  let ?s2 = "\<lparr>pollfd = [?pf 3 False, ?pf 6 True, ?pf 5 False], maxfd = 10, pclient = ?c\<rparr>"
  have "poll_round [(False, False), (True, False), (False, False), (False, False)] (7, 400) (\<lambda>_. Some []) poll_ex
       = Inr ([Closed 4 (Some 100)], ?s1)"
    unfolding poll_ex_def poll_round_def by (simp add: poll_scan.simps client_del_def uid_at_def Let_def)
  moreover have "poll_round [(False, False), (False, True), (False, False)] (7, 400) (\<lambda>_. Some ''req'') ?s1
       = Inr ([Request ''req'' 6 (Some 100)], ?s2)"
    unfolding poll_round_def by (simp add: poll_scan.simps uid_at_def Let_def)
  moreover have "client_holds ?c [3 \<mapsto> 0, 5 \<mapsto> 200, 6 \<mapsto> 300]"
    by (auto simp: client_holds_def active_def fun_eq_iff)
  ultimately show ?thesis by (intro exI [of _ ?s1] exI [of _ ?s2]) simp
qed

text \<open>
  A request that is only white space is answered with the server's last error message,
  whoever that was about: \<^verbatim>\<open>buf_args\<close> fails without \<^verbatim>\<open>cli_args\<close> having set one.
\<close>

theorem blank_request_stale_message:
  assumes "\<forall>c \<in> set s. white c"
  shows "handle_request os (s @ [NUL]) uid g = (send_err (- 1) (errmsg g), g, None)"
proof -
  have "\<not> white NUL" by (simp add: white_def)
  then have "NUL \<notin> set s" using assms by blast
  then have "cstr (s @ [NUL]) = s" using cstr_append_NUL [of s "[]"] by (simp add: is_cstr_def)
  then show ?thesis using strtok_blank [OF assms] by (simp add: handle_request_def buf_args_def)
qed

theorem blank_request_stale_message_witness:
  "handle_request (\<lambda>_ _. Inr 9) ('' '' @ [NUL]) 200 \<lparr>errmsg = ''secret'', pathname = [], oflag = 0\<rparr> =
     (send_err (- 1) ''secret'', \<lparr>errmsg = ''secret'', pathname = [], oflag = 0\<rparr>, None)"
  using blank_request_stale_message [of "'' ''" "\<lambda>_ _. Inr 9" 200 "\<lparr>errmsg = ''secret'', pathname = [], oflag = 0\<rparr>"]
  by (simp add: white_def)

end
