(* ===== verification/Opend_Poll.thy ===== *)
theory Opend_Poll
  imports Opend_Loops
begin

text \<open>
  The loop over \<^verbatim>\<open>poll\<close> (\<^verbatim>\<open>ipc2/opend/loop.poll.c\<close>) on the array it allocates, which grows and whose entries are reused, with every access checked.
  The rounds of \<open>Opend_Loops\<close>, which work on the entries in use, are what it implements.
\<close>

section \<open>The array\<close>

definition free_pfd :: pfd where "free_pfd = \<lparr>p_fd = - 1, p_hup = False, p_in = False\<rparr>"

definition grow_pollfd :: "pfd list \<Rightarrow> nat \<Rightarrow> pfd list \<times> nat" where
  "grow_pollfd pfd oldmax = (let newmax = oldmax + NALLOC in (pfd @ replicate (newmax - oldmax) free_pfd, newmax))"

definition get_pfd :: "nat \<Rightarrow> pfd list \<Rightarrow> pfd res" where
  "get_pfd i arr = (if i < length arr then Inr (arr ! i) else Inl (Undefined ''pollfd[i]''))"

definition put_pfd :: "nat \<Rightarrow> pfd \<Rightarrow> pfd list \<Rightarrow> pfd list res" where
  "put_pfd i p arr = (if i < length arr then Inr (arr[i := p]) else Inl (Undefined ''pollfd[i]''))"

record poll_array =
  parr :: "pfd list"
  numfd :: nat
  amax :: nat
  aclient :: "Client list"

definition array_init :: "int \<Rightarrow> poll_array res" where
  "array_init listenfd =
     bnd (client_add [] listenfd 0) (\<lambda>(_, client).
     let arr = replicate NALLOC free_pfd in
     bnd (get_pfd 0 arr) (\<lambda>p. bnd (put_pfd 0 (p\<lparr>p_fd := listenfd\<rparr>) arr) (\<lambda>arr'.
     Inr \<lparr>parr = arr', numfd = 1, amax = NALLOC, aclient = client\<rparr>)))"

function array_scan :: "(int \<Rightarrow> string option) \<Rightarrow> nat \<Rightarrow> pfd list \<Rightarrow> nat \<Rightarrow> Client list \<Rightarrow> (sev list \<times> pfd list \<times> nat \<times> Client list) res" where
  "array_scan rd i arr num client =
     (if num \<le> i then Inr ([], arr, num, client)
      else bnd (get_pfd i arr) (\<lambda>p.
        let hungup = (\<lambda>_::unit.
              bnd (client_del client (p_fd p)) (\<lambda>client'.
              bnd (if i < num - 1 then bnd (get_pfd (num - 1) arr) (\<lambda>q. put_pfd i q arr) else Inr arr) (\<lambda>arr'.
              bnd (array_scan rd i arr' (num - 1) client') (\<lambda>(evs, r). Inr (Closed (p_fd p) (uid_at client i) # evs, r)))))
        in if p_hup p then hungup ()
           else if p_in p
           then (case rd (p_fd p) of
                   None \<Rightarrow> Inl (Err_sys ''read error on fd'')
                 | Some buf \<Rightarrow>
                     if buf = [] then hungup ()
                     else bnd (array_scan rd (Suc i) arr num client) (\<lambda>(evs, r). Inr (Request buf (p_fd p) (uid_at client i) # evs, r)))
           else array_scan rd (Suc i) arr num client))"
  by auto
termination by (relation "measure (\<lambda>(rd, i, arr, num, client). num - i)") auto

declare array_scan.simps [simp del]

text \<open>What \<^verbatim>\<open>poll\<close> does to the entries in use.\<close>

definition set_revents :: "(bool \<times> bool) list \<Rightarrow> nat \<Rightarrow> pfd list \<Rightarrow> pfd list" where
  "set_revents revs num arr = map (\<lambda>(p, (h, i)). p\<lparr>p_hup := h, p_in := i\<rparr>) (zip (take num arr) revs) @ drop num arr"

definition array_round ::
  "errno + (bool \<times> bool) list \<Rightarrow> int \<times> int \<Rightarrow> (int \<Rightarrow> string option) \<Rightarrow> poll_array \<Rightarrow> (sev list \<times> poll_array) res" where
  "array_round polled acc rd st =
     (case polled of
        Inl e \<Rightarrow> Inl (Err_sys ''poll error'')
      | Inr revs \<Rightarrow>
          let arr = set_revents revs (numfd st) (parr st) in
          bnd (get_pfd 0 arr) (\<lambda>p0.
          bnd (if p_in p0
               then if fst acc < 0 then Inl (Err_sys ''serv_accept error'')
                    else bnd (client_add (aclient st) (fst acc) (snd acc)) (\<lambda>(_, client).
                         case (if numfd st = amax st then grow_pollfd arr (amax st) else (arr, amax st)) of (arr1, mx) \<Rightarrow>
                         bnd (put_pfd (numfd st) \<lparr>p_fd = fst acc, p_hup = False, p_in = False\<rparr> arr1) (\<lambda>arr2.
                         Inr (arr2, numfd st + 1, mx, client)))
               else Inr (arr, numfd st, amax st, aclient st)) (\<lambda>(arr2, num, mx, client).
          bnd (array_scan rd 1 arr2 num client) (\<lambda>(evs, arr3, num3, client3).
          Inr (evs, \<lparr>parr = arr3, numfd = num3, amax = mx, aclient = client3\<rparr>)))))"

section \<open>It implements the rounds on the entries in use\<close>

definition array_ok :: "poll_array \<Rightarrow> bool" where
  "array_ok st \<longleftrightarrow> length (parr st) = amax st \<and> 0 < numfd st \<and> numfd st \<le> amax st"

definition in_use :: "poll_array \<Rightarrow> poll_state" where
  "in_use st = \<lparr>pollfd = take (numfd st) (parr st), maxfd = amax st, pclient = aclient st\<rparr>"

text \<open>What the loops return, seen without the entries that are not in use.\<close>

definition scan_view :: "(sev list \<times> pfd list \<times> nat \<times> Client list) res \<Rightarrow> (sev list \<times> pfd list \<times> Client list) res" where
  "scan_view = map_sum (\<lambda>e. e) (\<lambda>(evs, arr, num, client). (evs, take num arr, client))"

lemma scan_view_simps [simp]:
  "scan_view (Inl e) = Inl e" "scan_view (Inr (evs, arr, num, client)) = Inr (evs, take num arr, client)"
  "scan_view (bnd m (\<lambda>(evs, r). Inr (ev # evs, r))) = bnd (scan_view m) (\<lambda>(evs, r). Inr (ev # evs, r))"
  by (cases m; auto simp: scan_view_def)+

lemma take_pack:
  assumes "i < num" "num \<le> length arr"
  shows "take (num - 1) (if i < num - 1 then arr[i := arr ! (num - 1)] else arr) =
    (if i < length (take num arr) - 1 then (butlast (take num arr))[i := last (take num arr)] else butlast (take num arr))"
proof -
  have n: "take num arr \<noteq> []" "length (take num arr) = num" using assms by auto
  then have l: "last (take num arr) = arr ! (num - 1)" "butlast (take num arr) = take (num - 1) arr"
    using assms last_conv_nth [OF n(1)] by (simp_all add: butlast_take)
  with n show ?thesis by (simp add: take_update_swap)
qed

lemma array_scan_refines:
  "num \<le> length arr \<Longrightarrow> scan_view (array_scan rd i arr num client) = poll_scan rd i (take num arr) client"
proof (induction "num - i" arbitrary: i arr num client rule: less_induct)
  case less
  show ?case
  proof (cases "num \<le> i")
    case True
    then show ?thesis using less.prems by (simp add: array_scan.simps [of rd i] poll_scan.simps [of rd i])
  next
    case False
    let ?p = "arr ! i" and ?arr = "if i < num - 1 then arr[i := arr ! (num - 1)] else arr"
    have i: "i < num" "num \<le> length arr" "take num arr ! i = ?p" "length (take num arr) = num" using False less.prems by simp_all
    have g: "get_pfd i arr = Inr ?p" "(if i < num - 1 then bnd (get_pfd (num - 1) arr) (\<lambda>q. put_pfd i q arr) else Inr arr) = Inr ?arr"
      using i by (simp_all add: get_pfd_def put_pfd_def)
    note nx = less.hyps [OF _ i(2), of "Suc i" client]
    define pf where "pf = (if i < num - 1 then (butlast (take num arr))[i := last (take num arr)] else butlast (take num arr))"
    define packed where "packed = ?arr"
    have pk: "scan_view (array_scan rd i packed (num - 1) client') = poll_scan rd i pf client'" for client'
    proof -
      have "num - 1 - i < num - i" "num - 1 \<le> length packed" using i by (auto simp: packed_def)
      from less.hyps [OF this] show ?thesis using take_pack [OF i(1,2)] i(4) by (simp add: packed_def pf_def)
    qed
    show ?thesis
    proof (cases "p_hup ?p \<or> p_in ?p \<and> rd (p_fd ?p) = Some []")
      case True
      have "array_scan rd i arr num client = bnd (client_del client (p_fd ?p)) (\<lambda>client'. bnd (array_scan rd i packed (num - 1) client')
          (\<lambda>(evs, r). Inr (Closed (p_fd ?p) (uid_at client i) # evs, r)))"
        using i(1) g True by (cases "p_hup ?p") (subst array_scan.simps, simp add: Let_def packed_def split del: if_split)+
      moreover have "poll_scan rd i (take num arr) client = bnd (client_del client (p_fd ?p)) (\<lambda>client'.
          bnd (poll_scan rd i pf client')
          (\<lambda>(evs, r). Inr (Closed (p_fd ?p) (uid_at client i) # evs, r)))"
        using i True by (cases "p_hup ?p") (subst poll_scan.simps, simp add: Let_def pf_def split del: if_split)+
      ultimately show ?thesis using pk by (cases "client_del client (p_fd ?p)") simp_all
    next
      case no: False
      show ?thesis
        using no i g(1) nx by (subst array_scan.simps, subst poll_scan.simps) (auto simp: Let_def split: option.splits)
    qed
  qed
qed

lemma array_scan_keeps:
  "array_scan rd i arr num client = Inr (evs, arr', num', client') \<Longrightarrow> num \<le> length arr \<Longrightarrow> 0 < i \<Longrightarrow> 0 < num \<Longrightarrow>
   length arr' = length arr \<and> 0 < num' \<and> num' \<le> num \<and> arr' ! 0 = arr ! 0"
proof (induction "num - i" arbitrary: i arr num client evs rule: less_induct)
  case less
  show ?case
  proof (cases "num \<le> i")
    case True
    then show ?thesis using less.prems by (simp add: array_scan.simps [of rd i])
  next
    case False
    let ?p = "arr ! i" and ?arr = "if i < num - 1 then arr[i := arr ! (num - 1)] else arr"
    have g: "get_pfd i arr = Inr ?p" "(if i < num - 1 then bnd (get_pfd (num - 1) arr) (\<lambda>q. put_pfd i q arr) else Inr arr) = Inr ?arr"
      using False less.prems by (simp_all add: get_pfd_def put_pfd_def)
    have a: "length ?arr = length arr" "?arr ! 0 = arr ! 0" using less.prems(3) by simp_all
    have r: "0 < num - 1" "num - 1 \<le> length ?arr" using False less.prems by auto
    consider (hup) client1 evs1 where "client_del client (p_fd ?p) = Inr client1" "array_scan rd i ?arr (num - 1) client1 = Inr (evs1, arr', num', client')"
        "p_hup ?p \<or> p_in ?p \<and> rd (p_fd ?p) = Some []"
      | (req) buf evs1 where "\<not> p_hup ?p" "p_in ?p" "rd (p_fd ?p) = Some buf" "buf \<noteq> []" "array_scan rd (Suc i) arr num client = Inr (evs1, arr', num', client')"
      | (idle) "\<not> p_hup ?p" "\<not> p_in ?p" "array_scan rd (Suc i) arr num client = Inr (evs, arr', num', client')"
      using less.prems(1) False g
      by (subst (asm) array_scan.simps) (auto simp: Let_def bnd_eq_Inr_iff split: if_split_asm option.split_asm)
    then show ?thesis
    proof cases
      case hup
      have "num - 1 - i < num - i" using False by auto
      from less.hyps [OF this hup(2) r(2) less.prems(3) r(1)] show ?thesis unfolding a by (meson diff_le_self order_trans)
    next
      case req
      have "num - Suc i < num - i" using False by auto
      from less.hyps [OF this req(5)] show ?thesis using less.prems by simp
    next
      case idle
      have "num - Suc i < num - i" using False by auto
      from less.hyps [OF this idle(3)] show ?thesis using less.prems by simp
    qed
  qed
qed

lemma revents_view:
  assumes "length revs = num" "num \<le> length arr"
  shows "take num (set_revents revs num arr) = map (\<lambda>(p, (h, i)). p\<lparr>p_hup := h, p_in := i\<rparr>) (zip (take num arr) revs)"
    "length (set_revents revs num arr) = length arr" "0 < num \<Longrightarrow> p_fd (set_revents revs num arr ! 0) = p_fd (arr ! 0)"
proof -
  show "take num (set_revents revs num arr) = map (\<lambda>(p, (h, i)). p\<lparr>p_hup := h, p_in := i\<rparr>) (zip (take num arr) revs)"
    "length (set_revents revs num arr) = length arr" using assms by (simp_all add: set_revents_def)
  show "p_fd (set_revents revs num arr ! 0) = p_fd (arr ! 0)" if "0 < num"
    using assms that by (cases arr; cases revs; cases num) (auto simp: set_revents_def)
qed

text \<open>Adding a connection: the array is grown when it is full, so that the entry is inside.\<close>

lemma put_new:
  assumes "length arr = mx" "num \<le> mx" "0 < num" "(if num = mx then grow_pollfd arr mx else (arr, mx)) = (arr1, mx1)"
  shows "\<exists>arr2. put_pfd num p arr1 = Inr arr2 \<and> take (num + 1) arr2 = take num arr @ [p] \<and> length arr2 = mx1 \<and> num + 1 \<le> mx1 \<and>
    mx1 = (if num = mx then mx + NALLOC else mx) \<and> arr2 ! 0 = arr ! 0"
proof -
  have a: "length arr1 = mx1" "num < mx1" "take num arr1 = take num arr" "arr1 ! 0 = arr ! 0" "mx1 = (if num = mx then mx + NALLOC else mx)"
    using assms by (auto simp: grow_pollfd_def NALLOC_def Let_def nth_append split: if_splits)
  then have "take (num + 1) (arr1[num := p]) = take num arr @ [p]" by (simp add: take_Suc_conv_app_nth)
  then show ?thesis using a assms(3) by (simp add: put_pfd_def)
qed

text \<open>The state after a round, seen without the entries that are not in use.\<close>

definition round_view :: "(sev list \<times> poll_array) res \<Rightarrow> (sev list \<times> poll_state) res" where
  "round_view = map_sum (\<lambda>e. e) (\<lambda>(evs, st). (evs, in_use st))"

lemma array_round_refines:
  assumes ok: "array_ok st" and l: "length revs = numfd st"
  shows "round_view (array_round (Inr revs) acc rd st) = poll_round revs acc rd (in_use st) \<and>
    (\<forall>evs st'. array_round (Inr revs) acc rd st = Inr (evs, st') \<longrightarrow> array_ok st' \<and> p_fd (parr st' ! 0) = p_fd (parr st ! 0))"
proof -
  let ?arr = "set_revents revs (numfd st) (parr st)"
  have n: "numfd st \<le> length (parr st)" "0 < numfd st" "length (parr st) = amax st" using ok by (auto simp: array_ok_def)
  note rv = revents_view [OF l n(1)]
  let ?pf = "map (\<lambda>(p, (h, i)). p\<lparr>p_hup := h, p_in := i\<rparr>) (zip (take (numfd st) (parr st)) revs)"
  have p0: "get_pfd 0 ?arr = Inr (?pf ! 0)" "length ?pf = numfd st"
    using n l rv(2) nth_take [OF n(2), of ?arr] by (auto simp: get_pfd_def rv(1))
  have scan: "round_view (bnd (array_scan rd 1 arr num client) (\<lambda>(evs, arr3, num3, client3). Inr (evs, \<lparr>parr = arr3, numfd = num3, amax = mx, aclient = client3\<rparr>))) =
      bnd (poll_scan rd 1 (take num arr) client) (\<lambda>(evs, pf2, client2). Inr (evs, \<lparr>pollfd = pf2, maxfd = mx, pclient = client2\<rparr>))"
    if "num \<le> length arr" for arr num client mx
    using array_scan_refines [OF that, of rd 1 client] by (cases "array_scan rd 1 arr num client") (auto simp: round_view_def in_use_def simp flip: array_scan_refines [OF that])
  have keep: "array_ok st' \<and> p_fd (parr st' ! 0) = p_fd (arr ! 0)"
    if "bnd (array_scan rd 1 arr num client) (\<lambda>(evs, arr3, num3, client3). Inr (evs, \<lparr>parr = arr3, numfd = num3, amax = mx, aclient = client3\<rparr>)) = Inr (evs, st')"
      "num \<le> mx" "length arr = mx" "0 < num" for arr num client mx evs st'
    using that array_scan_keeps [of rd 1 arr num client] by (fastforce simp: bnd_eq_Inr_iff array_ok_def)
  show ?thesis
  proof (cases "p_in (?pf ! 0)")
    case False
    then have "array_round (Inr revs) acc rd st = bnd (array_scan rd 1 ?arr (numfd st) (aclient st))
        (\<lambda>(evs, arr3, num3, client3). Inr (evs, \<lparr>parr = arr3, numfd = num3, amax = amax st, aclient = client3\<rparr>))"
      using p0 by (simp add: array_round_def Let_def)
    moreover have "poll_round revs acc rd (in_use st) = bnd (poll_scan rd 1 ?pf (aclient st))
        (\<lambda>(evs, pf2, client2). Inr (evs, \<lparr>pollfd = pf2, maxfd = amax st, pclient = client2\<rparr>))"
      using False by (simp add: poll_round_def in_use_def)
    ultimately show ?thesis using scan [of "numfd st" ?arr] keep n rv by auto
  next
    case True
    show ?thesis
    proof (cases "fst acc < 0")
      case neg: True
      then show ?thesis using True p0 by (simp add: array_round_def poll_round_def round_view_def in_use_def)
    next
      case pos: False
      show ?thesis
      proof (cases "client_add (aclient st) (fst acc) (snd acc)")
        case (Inl e)
        then show ?thesis using True p0 pos by (simp add: array_round_def poll_round_def round_view_def in_use_def)
      next
        case (Inr kc)
        obtain k client where c: "kc = (k, client)" by fastforce
        let ?new = "\<lparr>p_fd = fst acc, p_hup = False, p_in = False\<rparr>"
        obtain arr1 mx where g: "(if numfd st = amax st then grow_pollfd ?arr (amax st) else (?arr, amax st)) = (arr1, mx)" by fastforce
        have la: "length ?arr = amax st" "numfd st \<le> amax st" using rv(2) n by simp_all
        obtain arr2 where a: "put_pfd (numfd st) ?new arr1 = Inr arr2" "take (numfd st + 1) arr2 = ?pf @ [?new]" "length arr2 = mx" "numfd st + 1 \<le> mx"
            "mx = (if numfd st = amax st then amax st + NALLOC else amax st)" "arr2 ! 0 = ?arr ! 0"
          using put_new [OF la n(2) g, of ?new] rv(1) by auto
        have "array_round (Inr revs) acc rd st = bnd (array_scan rd 1 arr2 (numfd st + 1) client)
            (\<lambda>(evs, arr3, num3, client3). Inr (evs, \<lparr>parr = arr3, numfd = num3, amax = mx, aclient = client3\<rparr>))"
          using p0 True pos Inr c g a(1) by (simp add: array_round_def Let_def)
        moreover have "poll_round revs acc rd (in_use st) = bnd (poll_scan rd 1 (?pf @ [?new]) client)
            (\<lambda>(evs, pf2, client2). Inr (evs, \<lparr>pollfd = pf2, maxfd = mx, pclient = client2\<rparr>))"
          using True pos Inr c a(5) p0(2) by (simp add: poll_round_def in_use_def Let_def)
        moreover have "numfd st + 1 \<le> length arr2" using a(3,4) by simp
        ultimately show ?thesis using scan [of "numfd st + 1" arr2] keep [of arr2 "numfd st + 1" client mx] a rv(3) n(2) by auto
      qed
    qed
  qed
qed

section \<open>Any number of rounds\<close>

text \<open>
  The server after some rounds, with the connections it has: \<^verbatim>\<open>poll\<close> reports anything, a new connection is on a descriptor that is not in use, and
  reading gives anything but an error.
\<close>

inductive serving :: "int \<Rightarrow> poll_array \<Rightarrow> (int \<rightharpoonup> int) \<Rightarrow> bool" for l where
  start: "array_init l = Inr st \<Longrightarrow> serving l st [l \<mapsto> 0]"
| round: "serving l st m \<Longrightarrow> length revs = numfd st \<Longrightarrow> 0 \<le> fst acc \<Longrightarrow> m (fst acc) = None \<Longrightarrow> (\<And>fd. rd fd \<noteq> None) \<Longrightarrow>
    array_round (Inr revs) acc rd st = Inr (evs, st') \<Longrightarrow> serving l st' (round_map (snd (revs ! 0)) acc m |` (- closed_fds evs))"

definition serving_inv :: "int \<Rightarrow> poll_array \<Rightarrow> (int \<rightharpoonup> int) \<Rightarrow> bool" where
  "serving_inv l st m \<longleftrightarrow> array_ok st \<and> poll_inv (take (numfd st) (parr st)) (aclient st) m \<and> p_fd (parr st ! 0) = l"

lemma array_init_ok:
  assumes "0 \<le> l"
  shows "\<exists>st. array_init l = Inr st \<and> serving_inv l st [l \<mapsto> 0]"
proof -
  have "client_holds [] Map.empty" by (simp add: client_holds_def fun_eq_iff)
  from ctab.add_law [OF this assms] obtain k client where c: "client_add [] l 0 = Inr (k, client)" "client_holds client [l \<mapsto> 0]" by force
  have t: "take (Suc 0) ((replicate 10 free_pfd)[0 := p]) = [p]" for p by (simp add: take_update_swap numeral_eq_Suc)
  show ?thesis using c
    by (auto simp: array_init_def get_pfd_def put_pfd_def NALLOC_def serving_inv_def array_ok_def poll_inv_def t Let_def)
qed

lemma array_round_ok:
  assumes "serving_inv l st m" "length revs = numfd st" "0 \<le> fst acc" "m (fst acc) = None" "\<And>fd. rd fd \<noteq> None"
  shows "\<exists>evs st'. array_round (Inr revs) acc rd st = Inr (evs, st') \<and> serving_inv l st' (round_map (snd (revs ! 0)) acc m |` (- closed_fds evs))"
proof -
  have ok: "array_ok st" and v: "poll_inv (pollfd (in_use st)) (pclient (in_use st)) m" and p: "p_fd (parr st ! 0) = l"
    using assms(1) by (simp_all add: serving_inv_def in_use_def)
  have l: "length revs = length (pollfd (in_use st))" "pollfd (in_use st) \<noteq> []"
    using ok assms(2) by (auto simp: in_use_def array_ok_def)
  obtain evs s where r: "poll_round revs acc rd (in_use st) = Inr (evs, s)"
    "poll_inv (pollfd s) (pclient s) (round_map (snd (revs ! 0)) acc m |` (- closed_fds evs))"
    using poll_round_ok [where rd = rd, OF v l assms(3,4) assms(5)] by blast
  note f = array_round_refines [OF ok assms(2), of acc rd]
  obtain st' where st': "array_round (Inr revs) acc rd st = Inr (evs, st')" "s = in_use st'"
    using f r(1) by (cases "array_round (Inr revs) acc rd st") (auto simp: round_view_def)
  then show ?thesis using f p r(2) by (auto simp: serving_inv_def in_use_def)
qed

lemma serving_invariant: "serving l st m \<Longrightarrow> 0 \<le> l \<Longrightarrow> serving_inv l st m"
proof (induction rule: serving.induct)
  case (start st)
  then show ?case using array_init_ok [of l] by (auto simp del: fun_upd_apply)
next
  case (round st m revs acc rd evs st')
  then show ?case using array_round_ok [of l st m revs acc rd] by fastforce
qed

section \<open>Properties\<close>

text \<open>
  C17: Any number of rounds of the poll loop. After whatever \<^verbatim>\<open>poll\<close> has reported so far, the array holds the listening descriptor in entry 0 and has room for what is in use; the next round
  returns, with no access outside of the array and with \<^verbatim>\<open>client_del\<close> finding its entry; it does on the array what the round on the entries in use does, and the
  descriptors polled, each once, are the connections of the table: those before and the new one, less those that were reported closed.
\<close>

theorem poll_loop_keeps_table:
  assumes "serving l st m" "0 \<le> l" "length revs = numfd st" "0 \<le> fst acc" "m (fst acc) = None" "\<And>fd. rd fd \<noteq> None"
  shows "length (parr st) = amax st \<and> numfd st \<le> amax st \<and> p_fd (parr st ! 0) = l \<and>
    (\<exists>evs st'. array_round (Inr revs) acc rd st = Inr (evs, st') \<and> poll_round revs acc rd (in_use st) = Inr (evs, in_use st') \<and>
       numfd st' \<le> length (parr st') \<and> p_fd (parr st' ! 0) = l \<and>
       poll_inv (take (numfd st') (parr st')) (aclient st') (round_map (snd (revs ! 0)) acc m |` (- closed_fds evs)))"
proof -
  have v: "serving_inv l st m" using serving_invariant assms(1,2) .
  obtain evs st' where r: "array_round (Inr revs) acc rd st = Inr (evs, st')" "serving_inv l st' (round_map (snd (revs ! 0)) acc m |` (- closed_fds evs))"
    using array_round_ok [where rd = rd, OF v assms(3,4,5) assms(6)] by blast
  have "array_ok st" using v by (simp add: serving_inv_def)
  from array_round_refines [OF this assms(3), of acc rd] r(1)
  have "poll_round revs acc rd (in_use st) = Inr (evs, in_use st')" by (simp add: round_view_def)
  then show ?thesis using v r by (auto simp: serving_inv_def array_ok_def)
qed

theorem poll_loop_keeps_table_witness:
  "\<exists>st evs st'. array_init 3 = Inr st \<and> array_round (Inr [(False, True)]) (4, 100) (\<lambda>_. Some []) st = Inr (evs, st') \<and>
     poll_inv (take (numfd st') (parr st')) (aclient st') ([3 \<mapsto> 0, 4 \<mapsto> 100] |` (- closed_fds evs))"
proof -
  obtain st where st: "array_init 3 = Inr st" using array_init_ok [of 3] by auto
  then have "numfd st = 1" by (auto simp: array_init_def bnd_eq_Inr_iff Let_def)
  then have "length [(False, True)] = numfd st" "0 \<le> (3 :: int)" "0 \<le> fst (4 :: int, 100 :: int)" "[3 \<mapsto> 0] (fst (4 :: int, 100 :: int)) = None" by simp_all
  from poll_loop_keeps_table [OF serving.start [OF st] this(2,1,3,4), of "\<lambda>_. Some []"]
  obtain evs st' where "array_round (Inr [(False, True)]) (4, 100) (\<lambda>_. Some []) st = Inr (evs, st')"
    "poll_inv (take (numfd st') (parr st')) (aclient st') ([3 \<mapsto> 0, 4 \<mapsto> 100] |` (- closed_fds evs))"
    by (auto simp: round_map_def simp del: restrict_upd_same restrict_fun_upd fun_upd_apply)
  with st show ?thesis by blast
qed

end
