(* ===== verification/Tty_Modes.thy ===== *)
theory Tty_Modes
  imports Prelude
begin

unbundle bit_operations_syntax

text \<open>
  Terminal modes (\<^verbatim>\<open>lib/ttymodes.c\<close>): putting a terminal into cbreak or raw mode, checking that
  the change has been made in full, and restoring the saved settings. The terminals are
  part of the state. What the driver does with a call is an argument: a list of answers to
  \<^verbatim>\<open>tcgetattr\<close> (failures), and a list of answers to \<^verbatim>\<open>tcsetattr\<close>, each a function of the current
  and the requested settings, because \<^verbatim>\<open>tcsetattr\<close> may make only some of the changes.
\<close>

section \<open>Settings\<close>

text \<open>The flags have the values of \<^verbatim>\<open><termios.h>\<close> on Linux.\<close>

definition ECHO :: "32 word" where "ECHO = 0x8"
definition ICANON :: "32 word" where "ICANON = 0x2"
definition IEXTEN :: "32 word" where "IEXTEN = 0x8000"
definition ISIG :: "32 word" where "ISIG = 0x1"
definition BRKINT :: "32 word" where "BRKINT = 0x2"
definition ICRNL :: "32 word" where "ICRNL = 0x100"
definition INPCK :: "32 word" where "INPCK = 0x10"
definition ISTRIP :: "32 word" where "ISTRIP = 0x20"
definition IXON :: "32 word" where "IXON = 0x400"
definition CSIZE :: "32 word" where "CSIZE = 0x30"
definition CS8 :: "32 word" where "CS8 = 0x30"
definition PARENB :: "32 word" where "PARENB = 0x100"
definition OPOST :: "32 word" where "OPOST = 0x1"
definition VMIN :: nat where "VMIN = 6"
definition VTIME :: nat where "VTIME = 5"

lemmas tty_flags = ECHO_def ICANON_def IEXTEN_def ISIG_def BRKINT_def ICRNL_def INPCK_def ISTRIP_def IXON_def
  CSIZE_def CS8_def PARENB_def OPOST_def VMIN_def VTIME_def

record termios =
  c_iflag :: "32 word"
  c_oflag :: "32 word"
  c_cflag :: "32 word"
  c_lflag :: "32 word"
  c_cc :: "nat \<Rightarrow> 8 word"

datatype ttymode = RESET | RAW | CBREAK

record ttys =
  save_termios :: termios
  ttysavefd :: int
  ttystate :: ttymode
  terrno :: errno
  attr :: "int \<Rightarrow> termios option"
  gets :: "errno option list"
  sets :: "(termios \<Rightarrow> termios \<Rightarrow> errno + termios) list"

definition ENOTTY :: errno where "ENOTTY = EOTHER 25"

definition tcgetattr :: "ttys \<Rightarrow> int \<Rightarrow> termios option \<times> ttys" where
  "tcgetattr s fd =
     (case attr s fd of None \<Rightarrow> (None, s\<lparr>terrno := ENOTTY\<rparr>)
      | Some t \<Rightarrow>
          (case gets s of [] \<Rightarrow> (Some t, s)
           | None # r \<Rightarrow> (Some t, s\<lparr>gets := r\<rparr>)
           | Some e # r \<Rightarrow> (None, s\<lparr>gets := r, terrno := e\<rparr>)))"

definition tcsetattr :: "ttys \<Rightarrow> int \<Rightarrow> termios \<Rightarrow> int \<times> ttys" where
  "tcsetattr s fd req =
     (case attr s fd of None \<Rightarrow> (-1, s\<lparr>terrno := ENOTTY\<rparr>)
      | Some t \<Rightarrow>
          (case sets s of [] \<Rightarrow> (0, s\<lparr>attr := (attr s)(fd \<mapsto> req)\<rparr>)
           | f # r \<Rightarrow>
               (case f t req of Inl e \<Rightarrow> (-1, s\<lparr>sets := r, terrno := e\<rparr>)
                | Inr t' \<Rightarrow> (0, s\<lparr>sets := r, attr := (attr s)(fd \<mapsto> t')\<rparr>))))"

section \<open>The functions of the module\<close>

text \<open>The changes of lines 23 to 32 and the check of lines 46 and 47.\<close>

definition cbreak_set :: "termios \<Rightarrow> termios" where
  "cbreak_set buf = buf\<lparr>c_lflag := c_lflag buf AND NOT (ECHO OR ICANON), c_cc := (c_cc buf)(VMIN := 1, VTIME := 0)\<rparr>"

definition cbreak_bad :: "termios \<Rightarrow> bool" where
  "cbreak_bad buf \<longleftrightarrow> c_lflag buf AND (ECHO OR ICANON) \<noteq> 0 \<or> c_cc buf VMIN \<noteq> 1 \<or> c_cc buf VTIME \<noteq> 0"

text \<open>The changes of lines 76 to 108 and the check of lines 122 to 126.\<close>

definition raw_set :: "termios \<Rightarrow> termios" where
  "raw_set buf =
     (let b1 = buf\<lparr>c_lflag := c_lflag buf AND NOT (ECHO OR ICANON OR IEXTEN OR ISIG)\<rparr>;
          b2 = b1\<lparr>c_iflag := c_iflag b1 AND NOT (BRKINT OR ICRNL OR INPCK OR ISTRIP OR IXON)\<rparr>;
          b3 = b2\<lparr>c_cflag := c_cflag b2 AND NOT (CSIZE OR PARENB)\<rparr>;
          b4 = b3\<lparr>c_cflag := c_cflag b3 OR CS8\<rparr>;
          b5 = b4\<lparr>c_oflag := c_oflag b4 AND NOT OPOST\<rparr>
      in b5\<lparr>c_cc := (c_cc b5)(VMIN := 1, VTIME := 0)\<rparr>)"

definition raw_bad :: "termios \<Rightarrow> bool" where
  "raw_bad buf \<longleftrightarrow> c_lflag buf AND (ECHO OR ICANON OR IEXTEN OR ISIG) \<noteq> 0 \<or>
     c_iflag buf AND (BRKINT OR ICRNL OR INPCK OR ISTRIP OR IXON) \<noteq> 0 \<or>
     c_cflag buf AND (CSIZE OR PARENB OR CS8) \<noteq> CS8 \<or>
     c_oflag buf AND OPOST \<noteq> 0 \<or> c_cc buf VMIN \<noteq> 1 \<or> c_cc buf VTIME \<noteq> 0"

text \<open>
  Setting and verifying, the same code in both functions (lines 33 to 59 and 109 to 138)
  up to the check and the mode that is entered.
\<close>

definition tty_change :: "ttys \<Rightarrow> int \<Rightarrow> termios \<Rightarrow> (termios \<Rightarrow> bool) \<Rightarrow> ttymode \<Rightarrow> int \<times> ttys" where
  "tty_change s fd buf bad mode =
     (case tcsetattr s fd buf of (r, s1) \<Rightarrow>
        if r < 0 then (-1, s1)
        else case tcgetattr s1 fd of
          (None, s2) \<Rightarrow>
            let err = terrno s2
            in (-1, (snd (tcsetattr s2 fd (save_termios s2)))\<lparr>terrno := err\<rparr>)
        | (Some got, s2) \<Rightarrow>
            if bad got then (-1, (snd (tcsetattr s2 fd (save_termios s2)))\<lparr>terrno := EINVAL\<rparr>)
            else (0, s2\<lparr>ttystate := mode, ttysavefd := fd\<rparr>))"

definition tty_cbreak :: "ttys \<Rightarrow> int \<Rightarrow> int \<times> ttys" where
  "tty_cbreak s fd =
     (if ttystate s \<noteq> RESET then (-1, s\<lparr>terrno := EINVAL\<rparr>)
      else case tcgetattr s fd of
        (None, s1) \<Rightarrow> (-1, s1)
      | (Some buf, s1) \<Rightarrow> tty_change (s1\<lparr>save_termios := buf\<rparr>) fd (cbreak_set buf) cbreak_bad CBREAK)"

definition tty_raw :: "ttys \<Rightarrow> int \<Rightarrow> int \<times> ttys" where
  "tty_raw s fd =
     (if ttystate s \<noteq> RESET then (-1, s\<lparr>terrno := EINVAL\<rparr>)
      else case tcgetattr s fd of
        (None, s1) \<Rightarrow> (-1, s1)
      | (Some buf, s1) \<Rightarrow> tty_change (s1\<lparr>save_termios := buf\<rparr>) fd (raw_set buf) raw_bad RAW)"

definition tty_reset :: "ttys \<Rightarrow> int \<Rightarrow> int \<times> ttys" where
  "tty_reset s fd =
     (if ttystate s = RESET then (0, s)
      else case tcsetattr s fd (save_termios s) of (r, s1) \<Rightarrow>
        if r < 0 then (-1, s1) else (0, s1\<lparr>ttystate := RESET\<rparr>))"

definition tty_atexit :: "ttys \<Rightarrow> ttys" where
  "tty_atexit s = (if 0 \<le> ttysavefd s then snd (tty_reset s (ttysavefd s)) else s)"

definition tty_termios :: "ttys \<Rightarrow> termios" where
  "tty_termios s = save_termios s"

section \<open>The requested changes pass the check\<close>

lemma and_not_and: "(x AND NOT y) AND y = (0 :: 32 word)"
  by (intro bit_word_eqI) (auto simp: bit_simps)

lemma cbreak_set_ok: "\<not> cbreak_bad (cbreak_set buf)"
  by (simp add: cbreak_bad_def cbreak_set_def and_not_and VMIN_def VTIME_def del: bit.de_Morgan_disj)

lemma cflag_ok: "((x AND NOT (CSIZE OR PARENB)) OR CS8) AND (CSIZE OR PARENB OR CS8) = CS8"
proof -
  have "CSIZE OR PARENB OR CS8 = CSIZE OR PARENB" "CS8 AND (CSIZE OR PARENB) = CS8" by (simp_all add: tty_flags)
  then show ?thesis by (simp add: and_not_and bit.conj_disj_distrib2 del: bit.de_Morgan_disj)
qed

lemma raw_set_ok: "\<not> raw_bad (raw_set buf)"
  by (simp add: raw_bad_def raw_set_def Let_def and_not_and cflag_ok VMIN_def VTIME_def del: bit.de_Morgan_disj)

section \<open>What a call does\<close>

text \<open>The mode a terminal is in, by the checks of the code.\<close>

definition in_mode :: "ttymode \<Rightarrow> termios \<Rightarrow> bool" where
  "in_mode m t = (case m of RESET \<Rightarrow> True | CBREAK \<Rightarrow> \<not> cbreak_bad t | RAW \<Rightarrow> \<not> raw_bad t)"

text \<open>What the module keeps, and the state of the terminals.\<close>

definition same_module :: "ttys \<Rightarrow> ttys \<Rightarrow> bool" where
  "same_module s s' \<longleftrightarrow> save_termios s' = save_termios s \<and> ttysavefd s' = ttysavefd s \<and> ttystate s' = ttystate s"

lemma tcgetattr_effect:
  assumes "tcgetattr s fd = (r, s')"
  shows "same_module s s'" "attr s' = attr s" "sets s' = sets s" "r = None \<or> r = attr s fd"
  using assms by (auto simp: tcgetattr_def same_module_def split: option.splits list.splits)

lemma tcsetattr_effect:
  assumes "tcsetattr s fd req = (r, s')"
  shows "same_module s s'" "set (sets s') \<subseteq> set (sets s)"
    "r = -1 \<and> attr s' = attr s \<or> r = 0 \<and> attr s fd \<noteq> None \<and> (\<exists>t. attr s' = (attr s)(fd \<mapsto> t))"
  using assms by (auto simp: tcsetattr_def same_module_def split: option.splits list.splits sum.splits)

text \<open>The driver makes a change in full, when the settings are among those it supports.\<close>

definition driver_ok :: "(termios \<Rightarrow> bool) \<Rightarrow> ttys \<Rightarrow> bool" where
  "driver_ok supported s \<longleftrightarrow> (\<forall>f \<in> set (sets s). \<forall>cur req. supported req \<longrightarrow> f cur req = Inr req)"

lemma tcsetattr_supported:
  assumes "tcsetattr s fd req = (r, s')" "driver_ok supported s" "supported req" "attr s fd \<noteq> None"
  shows "r = 0" "attr s' = (attr s)(fd \<mapsto> req)"
  using assms by (auto simp: tcsetattr_def driver_ok_def split: list.splits sum.splits)

lemma driver_ok_sub: "driver_ok supported s \<Longrightarrow> set (sets s') \<subseteq> set (sets s) \<Longrightarrow> driver_ok supported s'"
  by (auto simp: driver_ok_def)

lemma tty_change_effect:
  assumes "tty_change s fd buf bad mode = (r, s')" "attr s fd = Some t" "save_termios s = t"
    "driver_ok supported s" "supported t" 
  shows "set (sets s') \<subseteq> set (sets s) \<and> save_termios s' = t \<and>
    (r = -1 \<and> attr s' = attr s \<and> ttystate s' = ttystate s \<and> ttysavefd s' = ttysavefd s \<or>
     r = 0 \<and> (\<exists>got. \<not> bad got \<and> attr s' = (attr s)(fd \<mapsto> got)) \<and> ttystate s' = mode \<and> ttysavefd s' = fd)"
proof -
  obtain r1 s1 where 1: "tcsetattr s fd buf = (r1, s1)" by fastforce
  note e1 = tcsetattr_effect [OF 1]
  show ?thesis
  proof (cases "r1 < 0")
    case True
    then show ?thesis using assms(1,3) 1 e1 by (auto simp: tty_change_def same_module_def)
  next
    case False
    then obtain t1 where t1: "attr s1 = (attr s)(fd \<mapsto> t1)" using e1(3) by auto
    obtain g s2 where 2: "tcgetattr s1 fd = (g, s2)" by fastforce
    note e2 = tcgetattr_effect [OF 2]
    obtain r3 s3 where 3: "tcsetattr s2 fd (save_termios s2) = (r3, s3)" by fastforce
    note e3 = tcsetattr_effect [OF 3]
    have sv: "save_termios s2 = t" "ttystate s2 = ttystate s" "ttysavefd s2 = ttysavefd s"
      using e1(1) e2(1) assms(3) by (auto simp: same_module_def)
    have "driver_ok supported s2" using driver_ok_sub [OF assms(4)] e1(2) e2(3) by simp
    from tcsetattr_supported(2) [OF 3 this] have a3: "attr s3 = attr s"
      using assms(2,5) sv(1) e2(2) t1 by (auto simp: fun_upd_idem)
    show ?thesis
    proof (cases "\<exists>got. g = Some got \<and> \<not> bad got")
      case True
      then have t: "\<not> bad t1" "g = Some t1" using e2(4) t1 by auto
      then have "r = 0" "s' = s2\<lparr>ttystate := mode, ttysavefd := fd\<rparr>" using assms(1) 1 2 False by (auto simp: tty_change_def)
      then show ?thesis using e1(2) e2(2,3) sv(1) t1 t by (intro conjI disjI2 exI [of _ t1]) simp_all
    next
      case f: False
      then have "r = -1 \<and> (\<exists>e. s' = s3\<lparr>terrno := e\<rparr>)"
        using assms(1) 1 2 3 False by (cases g) (auto simp: tty_change_def Let_def)
      then show ?thesis using a3 e1(2) e2(3) e3(1,2) sv by (auto simp: same_module_def)
    qed
  qed
qed

section \<open>Sequences of calls\<close>

text \<open>
  A program calls the functions of the module in any order and on any descriptors, with one
  restriction: while a terminal is changed, \<^verbatim>\<open>tty_reset\<close> is not called on another one.
  \<open>s0\<close> is the state at the start.
\<close>

inductive tty_reach :: "ttys \<Rightarrow> ttys \<Rightarrow> bool" for s0 where
  start: "tty_reach s0 s0"
| cbreak: "tty_reach s0 s \<Longrightarrow> tty_reach s0 (snd (tty_cbreak s fd))"
| raw: "tty_reach s0 s \<Longrightarrow> tty_reach s0 (snd (tty_raw s fd))"
| reset: "tty_reach s0 s \<Longrightarrow> ttystate s = RESET \<or> fd = ttysavefd s \<or> attr s fd = None \<Longrightarrow> tty_reach s0 (snd (tty_reset s fd))"
| atexit: "tty_reach s0 s \<Longrightarrow> tty_reach s0 (tty_atexit s)"

definition tty_inv :: "(termios \<Rightarrow> bool) \<Rightarrow> (int \<Rightarrow> termios option) \<Rightarrow> ttys \<Rightarrow> bool" where
  "tty_inv supported orig s \<longleftrightarrow> driver_ok supported s \<and>
     (if ttystate s = RESET then attr s = orig
      else orig (ttysavefd s) = Some (save_termios s) \<and>
        (\<exists>cur. attr s = orig(ttysavefd s \<mapsto> cur) \<and> in_mode (ttystate s) cur))"

lemma tty_change_inv:
  assumes "tty_inv supported orig s" "ttystate s = RESET" "\<forall>fd t. orig fd = Some t \<longrightarrow> supported t"
    "tcgetattr s fd = (Some buf, s1)" "mode \<noteq> RESET" "\<And>t. \<not> bad t \<Longrightarrow> in_mode mode t"
  shows "tty_inv supported orig (snd (tty_change (s1\<lparr>save_termios := buf\<rparr>) fd b bad mode))"
proof -
  note g = tcgetattr_effect [OF assms(4)]
  have a: "attr s1 = orig" "orig fd = Some buf" "ttystate s1 = RESET" "driver_ok supported (s1\<lparr>save_termios := buf\<rparr>)"
    using assms(1,2) g by (auto simp: tty_inv_def same_module_def driver_ok_def)
  obtain r s' where c: "tty_change (s1\<lparr>save_termios := buf\<rparr>) fd b bad mode = (r, s')" by fastforce
  have "supported buf" using assms(3) a(2) by blast
  from tty_change_effect [OF c _ _ a(4) this] a(1-3) driver_ok_sub [OF a(4), of s']
  show ?thesis using c assms(5,6) by (auto simp: tty_inv_def)
qed

lemma tty_enter_inv:
  assumes "tty_inv supported orig s" "\<forall>fd t. orig fd = Some t \<longrightarrow> supported t"
  shows "tty_inv supported orig (snd (tty_cbreak s fd))" "tty_inv supported orig (snd (tty_raw s fd))"
proof -
  obtain g s1 where g: "tcgetattr s fd = (g, s1)" by fastforce
  note e = tcgetattr_effect [OF g]
  have keep: "tty_inv supported orig s1" "tty_inv supported orig (s\<lparr>terrno := EINVAL\<rparr>)"
    using assms(1) e by (auto simp: tty_inv_def same_module_def driver_ok_def)
  show "tty_inv supported orig (snd (tty_cbreak s fd))"
    using keep g tty_change_inv [OF assms(1) _ assms(2), of fd _ s1 CBREAK cbreak_bad]
    by (auto simp: tty_cbreak_def in_mode_def split: option.splits)
  show "tty_inv supported orig (snd (tty_raw s fd))"
    using keep g tty_change_inv [OF assms(1) _ assms(2), of fd _ s1 RAW raw_bad]
    by (auto simp: tty_raw_def in_mode_def split: option.splits)
qed

lemma tty_reset_restores:
  assumes "tty_inv supported orig s" "\<forall>fd t. orig fd = Some t \<longrightarrow> supported t" "tty_reset s (ttysavefd s) = (r, s')"
  shows "r = 0 \<and> ttystate s' = RESET \<and> attr s' = orig \<and> tty_inv supported orig s'"
proof (cases "ttystate s = RESET")
  case True
  then show ?thesis using assms by (auto simp: tty_reset_def tty_inv_def)
next
  case False
  then obtain cur where a: "attr s = orig(ttysavefd s \<mapsto> cur)" "orig (ttysavefd s) = Some (save_termios s)" "driver_ok supported s"
    using assms(1) by (auto simp: tty_inv_def)
  obtain r1 s1 where 1: "tcsetattr s (ttysavefd s) (save_termios s) = (r1, s1)" by fastforce
  have "r1 = 0" "attr s1 = orig" using tcsetattr_supported [OF 1 a(3)] a assms(2) by (auto simp: fun_upd_idem)
  moreover have "driver_ok supported s1" using driver_ok_sub a(3) tcsetattr_effect(2) [OF 1] by blast
  ultimately show ?thesis using assms(3) False 1 by (auto simp: tty_reset_def tty_inv_def driver_ok_def)
qed

text \<open>A call on a descriptor that is no terminal, or in the state \<^verbatim>\<open>RESET\<close>, changes no terminal.\<close>

lemma tty_reset_idle:
  assumes "tty_inv supported orig s" "ttystate s = RESET \<or> attr s fd = None"
  shows "tty_inv supported orig (snd (tty_reset s fd))"
  using assms by (auto simp: tty_reset_def tcsetattr_def tty_inv_def driver_ok_def)

text \<open>
  A call on another terminal than the changed one gives that one the saved settings, leaves the
  changed one as it is, and no later call of \<^verbatim>\<open>tty_reset\<close> or \<^verbatim>\<open>tty_atexit\<close> does anything.
\<close>

lemma tty_reset_other:
  assumes "tty_inv supported orig s" "\<forall>fd t. orig fd = Some t \<longrightarrow> supported t"
    "ttystate s \<noteq> RESET" "fd \<noteq> ttysavefd s" "orig fd \<noteq> None"
  shows "\<exists>s'. tty_reset s fd = (0, s') \<and> ttystate s' = RESET \<and> attr s' = (attr s)(fd \<mapsto> save_termios s) \<and>
    tty_atexit s' = s' \<and> (\<forall>d. tty_reset s' d = (0, s'))"
proof -
  have a: "attr s fd \<noteq> None" "supported (save_termios s)" "driver_ok supported s"
    using assms by (auto simp: tty_inv_def)
  obtain r1 s1 where 1: "tcsetattr s fd (save_termios s) = (r1, s1)" by fastforce
  have "r1 = 0" "attr s1 = (attr s)(fd \<mapsto> save_termios s)" using tcsetattr_supported [OF 1 a(3,2,1)] by auto
  then show ?thesis using 1 assms(3) by (auto simp: tty_reset_def tty_atexit_def)
qed

lemma tty_reach_inv:
  assumes "tty_reach s0 s" "tty_inv supported orig s0" "\<forall>fd t. orig fd = Some t \<longrightarrow> supported t"
  shows "tty_inv supported orig s"
  using assms(1)
proof induction
  case (reset s fd)
  show ?case
  proof (cases "ttystate s = RESET \<or> attr s fd = None")
    case True
    then show ?thesis using tty_reset_idle reset by blast
  next
    case False
    then show ?thesis using tty_reset_restores [OF _ assms(3)] reset by (metis prod.collapse)
  qed
next
  case (atexit s)
  then show ?case using tty_reset_restores [OF _ assms(3)] unfolding tty_atexit_def by (metis prod.collapse)
qed (use assms(2,3) tty_enter_inv in blast)+

section \<open>Properties\<close>

text \<open>
  C40: When the settings of a terminal are kept, and when they are lost. Whatever calls a program
  makes, and however the calls fail or are obeyed in part, as long as the driver accepts the
  settings the terminals had at the start, and \<^verbatim>\<open>tty_reset\<close> is not called on one terminal while
  another is changed: no terminal is changed while the state is \<^verbatim>\<open>RESET\<close>; otherwise only the terminal
  \<^verbatim>\<open>ttysavefd\<close> is, it is in the mode the state says, \<^verbatim>\<open>tty_termios\<close> returns its original settings, and
  \<^verbatim>\<open>tty_reset\<close> on it and, if its descriptor is not negative, \<^verbatim>\<open>tty_atexit\<close> bring every terminal back to
  its settings. A call of \<^verbatim>\<open>tty_reset\<close> on any other terminal succeeds, too: it gives that terminal the
  settings of the changed one, which stays changed, and nothing in the module restores either.
\<close>

theorem tty_settings_kept:
  assumes "tty_reach s0 s" "ttystate s0 = RESET" "driver_ok supported s0" "\<forall>fd t. attr s0 fd = Some t \<longrightarrow> supported t"
  shows "(if ttystate s = RESET then attr s = attr s0
      else attr s0 (ttysavefd s) = Some (tty_termios s) \<and>
        (\<exists>cur. attr s = (attr s0)(ttysavefd s \<mapsto> cur) \<and> in_mode (ttystate s) cur) \<and>
        (\<forall>fd. fd \<noteq> ttysavefd s \<and> attr s0 fd \<noteq> None \<longrightarrow>
          (\<exists>s'. tty_reset s fd = (0, s') \<and> ttystate s' = RESET \<and> attr s' = (attr s)(fd \<mapsto> tty_termios s) \<and>
            tty_atexit s' = s' \<and> (\<forall>d. tty_reset s' d = (0, s'))))) \<and>
    (\<exists>s'. tty_reset s (ttysavefd s) = (0, s') \<and> ttystate s' = RESET \<and> attr s' = attr s0) \<and>
    (0 \<le> ttysavefd s \<longrightarrow> ttystate (tty_atexit s) = RESET \<and> attr (tty_atexit s) = attr s0)"
proof -
  have "tty_inv supported (attr s0) s0" using assms(2,3) by (simp add: tty_inv_def)
  note inv = tty_reach_inv [OF assms(1) this assms(4)]
  obtain r s' where r: "tty_reset s (ttysavefd s) = (r, s')" by fastforce
  have ot: "\<forall>fd. fd \<noteq> ttysavefd s \<and> attr s0 fd \<noteq> None \<longrightarrow>
      (\<exists>s'. tty_reset s fd = (0, s') \<and> ttystate s' = RESET \<and> attr s' = (attr s)(fd \<mapsto> tty_termios s) \<and>
        tty_atexit s' = s' \<and> (\<forall>d. tty_reset s' d = (0, s')))" if "ttystate s \<noteq> RESET"
    using tty_reset_other [OF inv assms(4) that] unfolding tty_termios_def by blast
  from tty_reset_restores [OF inv assms(4) r] inv r ot show ?thesis
    by (cases "ttystate s = RESET") (simp_all add: tty_inv_def tty_termios_def tty_atexit_def)
qed

text \<open>A terminal 0 whose driver keeps the echo on when asked for raw mode, so that \<^verbatim>\<open>tty_raw\<close> fails, and then obeys.\<close>

definition tty_ex :: ttys where
  "tty_ex = \<lparr>save_termios = \<lparr>c_iflag = 0, c_oflag = 0, c_cflag = 0, c_lflag = 0, c_cc = \<lambda>_. 0\<rparr>, ttysavefd = -1, ttystate = RESET,
     terrno = ENONE, attr = [0 \<mapsto> \<lparr>c_iflag = 0x500, c_oflag = 5, c_cflag = 0xBF, c_lflag = 0x8A3B, c_cc = \<lambda>_. 0\<rparr>], gets = [],
     sets = [\<lambda>cur req. Inr (if c_lflag req = 0x8A3B then req else req\<lparr>c_lflag := c_lflag cur\<rparr>)]\<rparr>"

theorem tty_settings_kept_witness:
  "let s = snd (tty_cbreak (snd (tty_raw tty_ex 0)) 0)
   in ttystate (snd (tty_raw tty_ex 0)) = RESET \<and> ttystate s = CBREAK \<and> attr s \<noteq> attr tty_ex \<and> attr (tty_atexit s) = attr tty_ex"
proof -
  let ?r = "snd (tty_raw tty_ex 0)" and ?s = "snd (tty_cbreak (snd (tty_raw tty_ex 0)) 0)"
  have "tty_reach tty_ex ?s" by (intro tty_reach.intros)
  moreover have "ttystate tty_ex = RESET" "driver_ok (\<lambda>t. c_lflag t = 0x8A3B) tty_ex" "\<forall>fd t. attr tty_ex fd = Some t \<longrightarrow> c_lflag t = 0x8A3B"
    by (auto simp: tty_ex_def driver_ok_def split: if_splits)
  ultimately have "0 \<le> ttysavefd ?s \<longrightarrow> attr (tty_atexit ?s) = attr tty_ex"
    using tty_settings_kept by blast
  moreover have "ttysavefd ?s = 0 \<and> ttystate ?r = RESET \<and> ttystate ?s = CBREAK \<and> c_lflag (the (attr ?s 0)) \<noteq> c_lflag (the (attr tty_ex 0))"
    by (simp add: tty_ex_def tty_raw_def tty_cbreak_def tty_change_def tcgetattr_def tcsetattr_def raw_set_def cbreak_set_def
        raw_bad_def cbreak_bad_def tty_flags Let_def)
  ultimately show ?thesis by (auto simp: Let_def)
qed

end
