(* ===== verification/Processes.thy ===== *)
theory Processes
  imports Tty_Modes
begin

text \<open>
  Processes as the kernel sees them, for the programs that set up descriptors, sessions and terminals: a table of
  descriptors where a new one is the lowest that is free, the session, the controlling terminal, and a list of answers by
  which any call may fail. A fatal error of the code ends the process.
\<close>

section \<open>The state of a process\<close>

text \<open>What a descriptor refers to: the two sides of a pseudo terminal, an end of a pipe in both directions, or a file.\<close>

datatype fobj = Master nat | Slave nat | End nat bool | Null | Pathfile string | Plain nat

text \<open>\<open>tmodes\<close> and \<open>tsizes\<close> are the settings and window sizes of terminals that the process has set.\<close>

record process =
  fdt :: "nat \<Rightarrow> fobj option"
  fdlim :: nat
  pid :: nat
  sid :: nat
  ctty :: "nat option"
  ans :: "errno option list"
  err :: errno
  tmodes :: "nat \<Rightarrow> termios"
  tsizes :: "nat \<Rightarrow> int"
  cwd :: string
  cmask :: "32 word"
  hup_ign :: bool

definition leader :: "process \<Rightarrow> bool" where "leader p \<longleftrightarrow> sid p = pid p"

text \<open>The next call fails with the error of the next answer, if there is one.\<close>

definition p_call :: "process \<Rightarrow> errno option \<times> process" where
  "p_call p =
     (case ans p of
        [] \<Rightarrow> (None, p)
      | None # r \<Rightarrow> (None, p\<lparr>ans := r\<rparr>)
      | Some e # r \<Rightarrow> (Some e, p\<lparr>ans := r, err := e\<rparr>))"

text \<open>A call that only changes the process when it does not fail.\<close>

definition p_do :: "(process \<Rightarrow> process) \<Rightarrow> process \<Rightarrow> errno option \<times> process" where
  "p_do f p = (case p_call p of (None, p') \<Rightarrow> (None, f p') | (Some e, p') \<Rightarrow> (Some e, p'))"

definition lowest :: "process \<Rightarrow> nat option" where
  "lowest p = find (\<lambda>i. fdt p i = None) [0..<fdlim p]"

definition p_new :: "fobj \<Rightarrow> process \<Rightarrow> (errno + nat) \<times> process" where
  "p_new ob p =
     (case p_call p of
        (Some e, p') \<Rightarrow> (Inl e, p')
      | (None, p') \<Rightarrow>
          (case lowest p' of
             None \<Rightarrow> (Inl EMFILE, p'\<lparr>err := EMFILE\<rparr>)
           | Some i \<Rightarrow> (Inr i, p'\<lparr>fdt := (fdt p')(i \<mapsto> ob)\<rparr>)))"

definition p_close :: "nat \<Rightarrow> process \<Rightarrow> process" where
  "p_close fd p = p\<lparr>fdt := (fdt p)(fd := None)\<rparr>"

definition p_dup2 :: "nat \<Rightarrow> nat \<Rightarrow> process \<Rightarrow> errno option \<times> process" where
  "p_dup2 a b = p_do (\<lambda>p. p\<lparr>fdt := (fdt p)(b := fdt p a)\<rparr>)"

definition p_setsid :: "process \<Rightarrow> errno option \<times> process" where
  "p_setsid = p_do (\<lambda>p. p\<lparr>sid := pid p, ctty := None\<rparr>)"

text \<open>\<^verbatim>\<open>err_sys\<close>, \<^verbatim>\<open>err_quit\<close> when a call fails.\<close>

definition chk :: "fatal \<Rightarrow> errno option \<times> process \<Rightarrow> process res" where
  "chk f r = (case r of (None, p) \<Rightarrow> Inr p | (Some e, p) \<Rightarrow> Inl f)"

text \<open>\<^verbatim>\<open>fork\<close>: an error, or the number of the child and the answers to its own calls.\<close>

type_synonym forked = "errno + nat \<times> errno option list"

definition child_of :: "nat \<times> errno option list \<Rightarrow> process \<Rightarrow> process" where
  "child_of c p = p\<lparr>pid := fst c, ans := snd c\<rparr>"

text \<open>The first \<open>n\<close> bytes of a C string, padded with null bytes, and the terminator that the code puts at the end.\<close>

definition strncpy_term :: "nat \<Rightarrow> string \<Rightarrow> string res" where
  "strncpy_term n s = (if n = 0 then Inl (Undefined ''terminator'') else Inr ((take n s @ replicate (n - length s) NUL)[n - 1 := NUL]))"

section \<open>Their effect\<close>

text \<open>Calls change the answers left and the error number, and otherwise only what they are for.\<close>

definition same :: "process \<Rightarrow> process \<Rightarrow> bool" where
  "same p q \<longleftrightarrow> fdt q = fdt p \<and> fdlim q = fdlim p \<and> pid q = pid p \<and> sid q = sid p \<and> ctty q = ctty p \<and>
     tmodes q = tmodes p \<and> tsizes q = tsizes p \<and> cwd q = cwd p \<and> cmask q = cmask p \<and> hup_ign q = hup_ign p"

lemma same_refl [simp]: "same p p"
  by (simp add: same_def)

lemma same_trans [trans]: "same p q \<Longrightarrow> same q r \<Longrightarrow> same p r"
  by (simp add: same_def)

lemma same_err [simp]: "same p (q\<lparr>err := e\<rparr>) \<longleftrightarrow> same p q"
  by (simp add: same_def)

lemma same_fields:
  assumes "same p q"
  shows "fdt q = fdt p" "fdlim q = fdlim p" "pid q = pid p" "sid q = sid p" "ctty q = ctty p"
    "tmodes q = tmodes p" "tsizes q = tsizes p" "cwd q = cwd p" "cmask q = cmask p" "hup_ign q = hup_ign p"
  using assms by (simp_all add: same_def)

lemma p_call_same: "p_call p = (r, q) \<Longrightarrow> same p q"
  by (auto simp: p_call_def same_def split: list.splits option.splits)

lemma p_do_effect: "p_do f p = (r, q) \<Longrightarrow> \<exists>p'. same p p' \<and> q = (if r = None then f p' else p')"
  by (auto simp: p_do_def split: prod.splits option.splits dest!: p_call_same)

lemma chk_Inr: "chk f r = Inr q \<longleftrightarrow> r = (None, q)"
  by (auto simp: chk_def split: prod.splits option.splits)

lemma chk_do: "chk f (p_do g p) = Inr q \<Longrightarrow> \<exists>p'. same p p' \<and> q = g p'"
  unfolding chk_Inr using p_do_effect [of g p None q] by simp

lemma lowest_free: "lowest p = Some i \<Longrightarrow> fdt p i = None \<and> i < fdlim p \<and> (\<forall>j < i. fdt p j \<noteq> None)"
  unfolding lowest_def find_Some_iff by auto

lemma lowest_is: "fdt p i = None \<Longrightarrow> i < fdlim p \<Longrightarrow> \<forall>j < i. fdt p j \<noteq> None \<Longrightarrow> lowest p = Some i"
  unfolding lowest_def find_Some_iff by (intro exI [of _ i]) auto

lemma p_new_effect:
  assumes "p_new ob p = (r, q)"
  shows "case r of Inl e \<Rightarrow> same p q | Inr i \<Rightarrow> fdt p i = None \<and> same (p\<lparr>fdt := (fdt p)(i \<mapsto> ob)\<rparr>) q"
proof -
  obtain e p1 where c: "p_call p = (e, p1)" by fastforce
  have s: "same p p1" using c by (rule p_call_same)
  show ?thesis
  proof (cases e)
    case (Some x)
    then show ?thesis using assms c s by (auto simp: p_new_def)
  next
    case None
    then show ?thesis using assms c s lowest_free [of p1]
      by (cases "lowest p1") (auto simp: p_new_def same_def)
  qed
qed

section \<open>Standard descriptors\<close>

text \<open>
  The code's way to make a descriptor the standard input and output: duplicate it to each, then close it unless it is one of them itself.
\<close>

definition std_from :: "(nat \<times> fatal) list \<Rightarrow> nat \<Rightarrow> process \<Rightarrow> process res" where
  "std_from stds fd p =
     bnd (fold (\<lambda>(k, f) r. bnd r (\<lambda>p. chk f (p_dup2 fd k p))) stds (Inr p)) (\<lambda>p.
     Inr (if fd \<in> fst ` set stds then p else p_close fd p))"

lemma fold_Inl [simp]: "fold (\<lambda>(k, f) r. bnd r (g k f)) stds (Inl e) = Inl e"
  by (induction stds) auto

lemma fold_dup2:
  assumes "fold (\<lambda>(k, f) r. bnd r (\<lambda>p. chk f (p_dup2 fd k p))) stds (Inr p) = Inr q"
  shows "same (p\<lparr>fdt := \<lambda>i. if i \<in> fst ` set stds then fdt p fd else fdt p i\<rparr>) q"
  using assms
proof (induction stds arbitrary: p)
  case Nil
  then show ?case by (simp add: same_def)
next
  case (Cons c cs)
  obtain k f where c: "c = (k, f)" by fastforce
  show ?case
  proof (cases "chk f (p_dup2 fd k p)")
    case (Inl e)
    then show ?thesis using Cons.prems c by simp
  next
    case (Inr p1)
    obtain p' where p': "same p p'" "p1 = p'\<lparr>fdt := (fdt p')(k := fdt p' fd)\<rparr>"
      using chk_do Inr unfolding p_dup2_def by blast
    have "same (p1\<lparr>fdt := \<lambda>i. if i \<in> fst ` set cs then fdt p1 fd else fdt p1 i\<rparr>) q"
      using Cons.IH [of p1] Cons.prems c Inr by simp
    moreover have "fdt p1 = (fdt p)(k := fdt p fd)" using p' by (simp add: same_fields)
    ultimately show ?thesis using p' by (auto simp: same_def c)
  qed
qed

lemma std_from_effect:
  assumes "std_from stds fd p = Inr q"
  shows "same (p\<lparr>fdt := \<lambda>i. if i \<in> fst ` set stds then fdt p fd else if i = fd then None else fdt p i\<rparr>) q"
proof -
  obtain p1 where p1: "fold (\<lambda>(k, f) r. bnd r (\<lambda>p. chk f (p_dup2 fd k p))) stds (Inr p) = Inr p1"
    "q = (if fd \<in> fst ` set stds then p1 else p_close fd p1)"
    using assms by (auto simp: std_from_def bnd_eq_Inr_iff)
  note f = fold_dup2 [OF p1(1)]
  show ?thesis
  proof (cases "fd \<in> fst ` set stds")
    case True
    then have "(\<lambda>i. if i \<in> fst ` set stds then fdt p fd else if i = fd then None else fdt p i) =
        (\<lambda>i. if i \<in> fst ` set stds then fdt p fd else fdt p i)" by (metis (no_types))
    then show ?thesis using p1(2) f True by simp
  next
    case False
    then show ?thesis using p1(2) f by (auto simp: same_def p_close_def)
  qed
qed

section \<open>When nothing fails\<close>

definition calm :: "process \<Rightarrow> bool" where
  "calm p \<longleftrightarrow> set (ans p) \<subseteq> {None}"

lemma calm_call: "calm p \<Longrightarrow> \<exists>q. p_call p = (None, q) \<and> same p q \<and> calm q"
  by (cases "ans p") (auto simp: p_call_def calm_def same_def)

lemma calm_chk:
  assumes "calm p" "\<And>q. ans (g q) = ans q"
  shows "\<exists>q. chk f (p_do g p) = Inr (g q) \<and> same p q \<and> calm (g q)"
proof -
  obtain q where "p_call p = (None, q)" "same p q" "calm q" using calm_call [OF assms(1)] by blast
  then show ?thesis using assms(2) by (intro exI [of _ q]) (auto simp: chk_def p_do_def calm_def)
qed

lemma calm_new:
  assumes "calm p" "lowest p \<noteq> None"
  shows "\<exists>i q. p_new ob p = (Inr i, q) \<and> calm q"
proof -
  obtain q where q: "p_call p = (None, q)" "same p q" "calm q" using calm_call [OF assms(1)] by blast
  then have "lowest q = lowest p" by (simp add: lowest_def same_def)
  then show ?thesis using q assms(2) by (auto simp: p_new_def calm_def)
qed

lemma calm_std_from:
  assumes "calm p"
  shows "\<exists>q. std_from stds fd p = Inr q \<and> calm q"
proof -
  have "\<exists>q. fold (\<lambda>(k, f) r. bnd r (\<lambda>p. chk f (p_dup2 fd k p))) stds (Inr p) = Inr q \<and> calm q"
    using assms
  proof (induction stds arbitrary: p)
    case (Cons c cs)
    obtain k f where c: "c = (k, f)" by fastforce
    obtain q where "chk f (p_dup2 fd k p) = Inr q" "calm q"
      using calm_chk [OF Cons.prems, of "\<lambda>p. p\<lparr>fdt := (fdt p)(k := fdt p fd)\<rparr>" f] unfolding p_dup2_def by auto
    then show ?case using Cons.IH [of q] c by simp
  qed simp
  then obtain q where "fold (\<lambda>(k, f) r. bnd r (\<lambda>p. chk f (p_dup2 fd k p))) stds (Inr p) = Inr q" "calm q" by blast
  then show ?thesis unfolding std_from_def by (auto simp: p_close_def calm_def)
qed

end
