(* ===== verification/Netio.thy ===== *)
theory Netio
  imports Prelude
begin

text \<open>
  Reading and writing exactly \<open>n\<close> bytes: \<^verbatim>\<open>lib/readn.c\<close>, \<^verbatim>\<open>lib/writen.c\<close>, and the timed reads
  \<^verbatim>\<open>tread\<close> and \<^verbatim>\<open>treadn\<close> of \<^verbatim>\<open>printer/util.c\<close>. A descriptor is the list of what the kernel will
  do next: hand out bytes, report the end of the file, time out or fail; take some of the
  bytes that are written, or fail.
\<close>

section \<open>Descriptors\<close>

datatype rdev = RData string | REof | RTimeout | RFail errno

text \<open>\<^verbatim>\<open>read\<close>: nothing for an error, else the bytes; a timeout is no event for it.\<close>

fun sys_read :: "nat \<Rightarrow> rdev list \<Rightarrow> string option \<times> rdev list" where
  "sys_read n [] = (Some [], [])"
| "sys_read n (RData s # inp) =
     (if length s \<le> n then (Some s, inp) else (Some (take n s), RData (drop n s) # inp))"
| "sys_read n (REof # inp) = (Some [], inp)"
| "sys_read n (RTimeout # inp) = sys_read n inp"
| "sys_read n (RFail e # inp) = (None, inp)"

text \<open>\<^verbatim>\<open>tread\<close>: \<^verbatim>\<open>select\<close> reports a timeout as an error (\<^verbatim>\<open>ETIME\<close>), else the read is done.\<close>

fun tread :: "nat \<Rightarrow> rdev list \<Rightarrow> string option \<times> rdev list" where
  "tread n (RTimeout # inp) = (None, inp)"
| "tread n inp = sys_read n inp"

text \<open>The loop that \<^verbatim>\<open>readn\<close> and \<^verbatim>\<open>treadn\<close> share: read until \<open>n\<close> bytes are there.\<close>

function read_loop :: "(nat \<Rightarrow> 's \<Rightarrow> string option \<times> 's) \<Rightarrow> nat \<Rightarrow> nat \<Rightarrow> string \<Rightarrow> 's \<Rightarrow> string option \<times> 's" where
  "read_loop rd n nleft got inp =
     (if nleft = 0 then (Some got, inp)
      else case rd nleft inp of
             (None, inp') \<Rightarrow> if nleft = n then (None, inp') else (Some got, inp')
           | (Some b, inp') \<Rightarrow>
               if b = [] then (Some got, inp')
               else read_loop rd n (nleft - length b) (got @ b) inp')"
  by pat_completeness auto
termination by (relation "measure (\<lambda>(rd, n, nleft, got, inp). nleft)") auto

declare read_loop.simps [simp del]

definition readn :: "nat \<Rightarrow> rdev list \<Rightarrow> string option \<times> rdev list" where
  "readn n inp = read_loop sys_read n n [] inp"

definition treadn :: "nat \<Rightarrow> rdev list \<Rightarrow> string option \<times> rdev list" where
  "treadn n inp = read_loop tread n n [] inp"

datatype wrev = WTake nat | WFail errno

text \<open>\<^verbatim>\<open>write\<close>: how many of the bytes are taken, nothing for an error.\<close>

fun sys_write :: "string \<Rightarrow> wrev list \<Rightarrow> nat option \<times> wrev list" where
  "sys_write b [] = (Some (length b), [])"
| "sys_write b (WTake k # w) = (Some (min k (length b)), w)"
| "sys_write b (WFail e # w) = (None, w)"

text \<open>\<^verbatim>\<open>writen\<close>: its result, and what has been written.\<close>

function writen_loop :: "nat \<Rightarrow> string \<Rightarrow> string \<Rightarrow> wrev list \<Rightarrow> nat option \<times> string \<times> wrev list" where
  "writen_loop n ptr out w =
     (if ptr = [] then (Some (n - length ptr), out, w)
      else case sys_write ptr w of
             (None, w') \<Rightarrow> if length ptr = n then (None, out, w') else (Some (n - length ptr), out, w')
           | (Some k, w') \<Rightarrow>
               if k = 0 then (Some (n - length ptr), out, w')
               else writen_loop n (drop k ptr) (out @ take k ptr) w')"
  by pat_completeness auto
termination by (relation "measure (\<lambda>(n, ptr, out, w). length ptr)") auto

declare writen_loop.simps [simp del]

definition writen :: "string \<Rightarrow> wrev list \<Rightarrow> nat option \<times> string \<times> wrev list" where
  "writen data w = writen_loop (length data) data [] w"

section \<open>Reading until the end\<close>

text \<open>Every read that returns something leaves less to read.\<close>

definition rdev_size :: "rdev list \<Rightarrow> nat" where
  "rdev_size inp = sum_list (map (\<lambda>e. case e of RData s \<Rightarrow> Suc (length s) | _ \<Rightarrow> 1) inp)"

lemma rdev_size_simps [simp]:
  "rdev_size [] = 0" "rdev_size (RData s # inp) = Suc (length s) + rdev_size inp"
  "rdev_size (REof # inp) = Suc (rdev_size inp)" "rdev_size (RTimeout # inp) = Suc (rdev_size inp)"
  "rdev_size (RFail e # inp) = Suc (rdev_size inp)"
  by (simp_all add: rdev_size_def)

lemma sys_read_less: "sys_read n inp = (Some b, inp') \<Longrightarrow> b \<noteq> [] \<Longrightarrow> rdev_size inp' < rdev_size inp"
  by (induction n inp rule: sys_read.induct) (auto split: if_splits)

lemma tread_less: "tread n inp = (Some b, inp') \<Longrightarrow> b \<noteq> [] \<Longrightarrow> rdev_size inp' < rdev_size inp"
  by (cases "(n, inp)" rule: tread.cases) (auto dest: sys_read_less split: if_splits)

text \<open>Lines: what \<^verbatim>\<open>fgets\<close> takes from the stream.\<close>

fun fgets_take :: "nat \<Rightarrow> string \<Rightarrow> string" where
  "fgets_take 0 s = []"
| "fgets_take (Suc n) [] = []"
| "fgets_take (Suc n) (c # cs) = c # (if c = NL then [] else fgets_take n cs)"

text \<open>\<^verbatim>\<open>fgets\<close> with a buffer of \<open>n\<close> bytes: the bytes read and the rest of the stream.\<close>

definition fgets :: "nat \<Rightarrow> string \<Rightarrow> (string \<times> string) option" where
  "fgets n s = (if s = [] then None else let l = fgets_take (n - 1) s in Some (l, drop (length l) s))"

lemma fgets_progress: "fgets n s = Some (l, r) \<Longrightarrow> 2 \<le> n \<Longrightarrow> length r < length s"
  by (cases s; cases "n - 1") (auto simp: fgets_def Let_def split: if_splits)

lemma fgets_take_line: "NL \<notin> set l \<Longrightarrow> length l < n \<Longrightarrow> fgets_take n (l @ NL # r) = l @ [NL]"
proof (induction l arbitrary: n)
  case Nil
  then show ?case by (cases n) auto
next
  case (Cons c l)
  then show ?case by (cases n) auto
qed

section \<open>What a read loop returns\<close>

text \<open>
  A source of bytes: \<open>src s\<close> are the bytes it will deliver before its next end, timeout or
  error, and \<open>bad s\<close> says that the next thing it does is fail.
\<close>

locale source =
  fixes rd :: "nat \<Rightarrow> 's \<Rightarrow> string option \<times> 's" and src :: "'s \<Rightarrow> string" and bad :: "'s \<Rightarrow> bool"
  assumes data_law: "0 < n \<Longrightarrow> src s \<noteq> [] \<Longrightarrow>
      \<exists>b s'. rd n s = (Some b, s') \<and> b \<noteq> [] \<and> length b \<le> n \<and> src s = b @ src s'"
    and end_law: "src s = [] \<Longrightarrow> \<exists>s'. rd n s = (if bad s then None else Some [], s')"
begin

lemma loop_reads:
  "nleft \<le> n \<Longrightarrow> \<exists>s'. read_loop rd n nleft got s =
    (if 0 < nleft \<and> src s = [] \<and> bad s \<and> nleft = n then None else Some (got @ take nleft (src s)), s')"
proof (induction nleft arbitrary: got s rule: less_induct)
  case (less nleft)
  show ?case
  proof (cases "nleft = 0")
    case True
    then show ?thesis by (simp add: read_loop.simps [of rd])
  next
    case False
    show ?thesis
    proof (cases "src s = []")
      case True
      then show ?thesis using end_law [OF True, of nleft] False by (auto simp: read_loop.simps [of rd] split: if_splits)
    next
      case d: False
      obtain b s1 where b: "rd nleft s = (Some b, s1)" "b \<noteq> []" "length b \<le> nleft" "src s = b @ src s1"
        using data_law [OF _ d, of nleft] False by auto
      then have l: "nleft - length b < nleft" using False by (simp add: diff_less)
      have "read_loop rd n nleft got s = read_loop rd n (nleft - length b) (got @ b) s1"
        using b(1,2) False by (simp add: read_loop.simps [of rd n nleft])
      moreover have "(got @ b) @ take (nleft - length b) (src s1) = got @ take nleft (src s)" using b(3,4) by simp
      moreover have "nleft - length b \<le> n" "nleft - length b \<noteq> n" using l less.prems by simp_all
      ultimately show ?thesis using less.IH [OF l, of "got @ b" s1] d by (simp del: append.assoc)
    qed
  qed
qed

lemma loop_rest:
  "nleft \<le> length (src s) \<Longrightarrow> \<exists>s'. read_loop rd n nleft got s = (Some (got @ take nleft (src s)), s') \<and> src s' = drop nleft (src s)"
proof (induction nleft arbitrary: got s rule: less_induct)
  case (less nleft)
  show ?case
  proof (cases "nleft = 0")
    case True
    then show ?thesis by (simp add: read_loop.simps [of rd])
  next
    case False
    then have "src s \<noteq> []" using less.prems by auto
    then obtain b s1 where b: "rd nleft s = (Some b, s1)" "b \<noteq> []" "length b \<le> nleft" "src s = b @ src s1"
      using data_law [of nleft s] False by auto
    have l: "nleft - length b < nleft" "nleft - length b \<le> length (src s1)"
      using b False less.prems by (simp_all add: diff_less)
    have "read_loop rd n nleft got s = read_loop rd n (nleft - length b) (got @ b) s1"
      using b(1,2) False by (simp add: read_loop.simps [of rd n nleft])
    then show ?thesis using less.IH [OF l, of "got @ b"] b(3,4) by simp
  qed
qed

end

text \<open>The bytes before the first event that is none, for each kind of read.\<close>

fun avail :: "rdev list \<Rightarrow> string" where
  "avail (RData s # inp) = s @ (if s = [] then [] else avail inp)"
| "avail (RTimeout # inp) = avail inp"
| "avail _ = []"

fun fails :: "rdev list \<Rightarrow> bool" where
  "fails (RTimeout # inp) = fails inp"
| "fails (RFail e # inp) = True"
| "fails _ = False"

fun tavail :: "rdev list \<Rightarrow> string" where
  "tavail (RData s # inp) = s @ (if s = [] then [] else tavail inp)"
| "tavail _ = []"

fun tfails :: "rdev list \<Rightarrow> bool" where
  "tfails (RTimeout # inp) = True"
| "tfails (RFail e # inp) = True"
| "tfails _ = False"

lemma sys_read_data:
  "0 < n \<Longrightarrow> avail inp \<noteq> [] \<Longrightarrow> \<exists>b inp'. sys_read n inp = (Some b, inp') \<and> b \<noteq> [] \<and> length b \<le> n \<and> avail inp = b @ avail inp'"
  by (induction inp rule: avail.induct) (auto split: if_splits)

lemma sys_read_end: "avail inp = [] \<Longrightarrow> \<exists>inp'. sys_read n inp = (if fails inp then None else Some [], inp')"
  by (induction inp rule: avail.induct) (auto split: if_splits)

interpretation rdn: source sys_read avail fails
  by unfold_locales (use sys_read_data sys_read_end in auto)

interpretation trdn: source tread tavail tfails
proof unfold_locales
  fix n and s :: "rdev list"
  show "0 < n \<Longrightarrow> tavail s \<noteq> [] \<Longrightarrow>
      \<exists>b s'. tread n s = (Some b, s') \<and> b \<noteq> [] \<and> length b \<le> n \<and> tavail s = b @ tavail s'"
    by (cases s rule: tavail.cases) (auto split: if_splits)
  show "tavail s = [] \<Longrightarrow> \<exists>s'. tread n s = (if tfails s then None else Some [], s')"
    by (cases s rule: tavail.cases) (auto split: if_splits)
qed

section \<open>What a write loop returns\<close>

lemma writen_loop_out:
  assumes "length ptr \<le> n"
  shows "\<exists>k w'. k \<le> length ptr \<and> writen_loop n ptr out w =
     (if k = 0 \<and> ptr \<noteq> [] \<and> length ptr = n \<and> fst (sys_write ptr w) = None then None else Some (n - length ptr + k),
      out @ take k ptr, w')"
  using assms
proof (induction "length ptr" arbitrary: ptr out w rule: less_induct)
  case less
  show ?case
  proof (cases "ptr = []")
    case True
    then show ?thesis by (auto simp: writen_loop.simps [of n])
  next
    case ne: False
    show ?thesis
    proof (cases "fst (sys_write ptr w)")
      case None
      then show ?thesis using ne by (intro exI [of _ 0]) (auto simp: writen_loop.simps [of n ptr] split: prod.splits)
    next
      case (Some k)
      then obtain w1 where w1: "sys_write ptr w = (Some k, w1)" by (cases "sys_write ptr w") auto
      have k: "k \<le> length ptr" using w1 by (cases "(ptr, w)" rule: sys_write.cases) auto
      show ?thesis
      proof (cases "k = 0")
        case True
        then show ?thesis using w1 ne by (intro exI [of _ 0]) (auto simp: writen_loop.simps [of n ptr])
      next
        case False
        have l: "length (drop k ptr) < length ptr" "length (drop k ptr) \<le> n" "length (drop k ptr) \<noteq> n"
          using False ne k less.prems by (auto simp: diff_less)
        obtain j w' where j: "j \<le> length (drop k ptr)" and e: "writen_loop n (drop k ptr) (out @ take k ptr) w1 =
            (Some (n - length (drop k ptr) + j), (out @ take k ptr) @ take j (drop k ptr), w')"
          using less.hyps [OF l(1,2), of "out @ take k ptr" w1] l(3) by auto
        have "writen_loop n ptr out w = (Some (n - length ptr + (k + j)), out @ take (k + j) ptr, w')"
          using w1 ne False e j k less.prems by (simp add: writen_loop.simps [of n ptr] take_add)
        then show ?thesis using False j k by (intro exI [of _ "k + j"]) auto
      qed
    qed
  qed
qed

lemma writen_prefix: "writen b w = (Some k, out, w') \<Longrightarrow> k \<le> length b \<and> out = take k b"
  using writen_loop_out [of b "length b" "[]" w] by (auto simp: writen_def split: if_splits)

text \<open>
  The writes that take something, one after the other, until one takes nothing or fails; after
  the events of the list the kernel takes all that it is given.
\<close>

fun takes :: "wrev \<Rightarrow> bool" where
  "takes (WTake k) = (0 < k)"
| "takes (WFail e) = False"

fun taken :: "wrev \<Rightarrow> nat" where
  "taken (WTake k) = k"
| "taken (WFail e) = 0"

definition bytes_taken :: "nat \<Rightarrow> wrev list \<Rightarrow> nat" where
  "bytes_taken n w = (let g = takeWhile takes w in if g = w then n else min n (sum_list (map taken g)))"

fun write_fails :: "wrev list \<Rightarrow> bool" where
  "write_fails (WFail e # w) = True"
| "write_fails _ = False"

lemma bytes_taken_0 [simp]: "bytes_taken 0 w = 0"
  by (simp add: bytes_taken_def Let_def)

lemma bytes_taken_simps [simp]:
  "bytes_taken n [] = n"
  "bytes_taken n (WFail e # w) = 0"
  "bytes_taken n (WTake 0 # w) = 0"
  by (simp_all add: bytes_taken_def)

lemma bytes_taken_take: "0 < k \<Longrightarrow> bytes_taken n (WTake k # w) = (if n \<le> k then n else k + bytes_taken (n - k) w)"
  by (auto simp: bytes_taken_def Let_def min_def)

lemma writen_loop_exact:
  assumes "length ptr \<le> n"
  shows "\<exists>w'. writen_loop n ptr out w =
     (if ptr \<noteq> [] \<and> length ptr = n \<and> write_fails w then None else Some (n - length ptr + bytes_taken (length ptr) w),
      out @ take (bytes_taken (length ptr) w) ptr, w')"
  using assms
proof (induction "length ptr" arbitrary: ptr out w rule: less_induct)
  case less
  show ?case
  proof (cases "ptr = []")
    case True
    then show ?thesis by (simp add: writen_loop.simps [of n])
  next
    case ne: False
    show ?thesis
    proof (cases w)
      case Nil
      then show ?thesis using ne less.prems by (simp add: writen_loop.simps [of n])
    next
      case (Cons e v)
      show ?thesis
      proof (cases e)
        case (WFail x)
        then show ?thesis using ne Cons by (auto simp: writen_loop.simps [of n ptr])
      next
        case (WTake k)
        show ?thesis
        proof (cases "k = 0")
          case True
          then show ?thesis using ne Cons WTake by (simp add: writen_loop.simps [of n ptr])
        next
          case False
          let ?k = "min k (length ptr)"
          have k: "0 < ?k" using False ne by simp
          have l: "length (drop ?k ptr) < length ptr" "length (drop ?k ptr) \<le> n" "length (drop ?k ptr) \<noteq> n"
            using k less.prems ne length_greater_0_conv [of ptr] by (auto simp: min_def simp del: length_greater_0_conv)
          obtain w' where "writen_loop n (drop ?k ptr) (out @ take ?k ptr) v =
              (Some (n - length (drop ?k ptr) + bytes_taken (length (drop ?k ptr)) v),
               (out @ take ?k ptr) @ take (bytes_taken (length (drop ?k ptr)) v) (drop ?k ptr), w')"
            using less.hyps [OF l(1,2), of "out @ take ?k ptr" v] l(3) by auto
          then show ?thesis using Cons WTake ne False k less.prems
            by (auto simp: writen_loop.simps [of n ptr] bytes_taken_take take_add min_def)
        qed
      qed
    qed
  qed
qed

section \<open>Properties\<close>

text \<open>
  C23: \<^verbatim>\<open>readn\<close> and \<^verbatim>\<open>treadn\<close> return exactly the first \<open>n\<close> bytes that arrive before the stream ends,
  fails or (for \<^verbatim>\<open>treadn\<close>) times out, however the bytes are cut into reads, and -1 only when
  nothing at all was read. \<^verbatim>\<open>writen\<close> writes the beginning of its argument up to the first write
  that fails or takes nothing (all of it when there is none, however little each write takes),
  nothing else, and returns its length; it returns -1 exactly when the first write fails.
\<close>

theorem readn_writen_exact:
  "fst (readn n inp) = (if 0 < n \<and> avail inp = [] \<and> fails inp then None else Some (take n (avail inp)))
   \<and> fst (treadn n inp) = (if 0 < n \<and> tavail inp = [] \<and> tfails inp then None else Some (take n (tavail inp)))
   \<and> fst (writen data w) = (if data \<noteq> [] \<and> write_fails w then None else Some (bytes_taken (length data) w))
   \<and> fst (snd (writen data w)) = take (bytes_taken (length data) w) data
   \<and> (bytes_taken (length data) w = length data \<longleftrightarrow>
        (\<forall>e\<in>set w. takes e) \<or> length data \<le> sum_list (map taken (takeWhile takes w)))"
proof -
  obtain s1 where 1: "readn n inp = (if 0 < n \<and> avail inp = [] \<and> fails inp then None else Some (take n (avail inp)), s1)"
    using rdn.loop_reads [of n n "[]" inp] by (auto simp: readn_def)
  obtain s2 where 2: "treadn n inp = (if 0 < n \<and> tavail inp = [] \<and> tfails inp then None else Some (take n (tavail inp)), s2)"
    using trdn.loop_reads [of n n "[]" inp] by (auto simp: treadn_def)
  obtain w' where 3: "writen data w =
      (if data \<noteq> [] \<and> write_fails w then None else Some (bytes_taken (length data) w), take (bytes_taken (length data) w) data, w')"
    using writen_loop_exact [of data "length data" "[]" w] by (auto simp: writen_def)
  have "bytes_taken (length data) w = length data \<longleftrightarrow>
      (\<forall>e\<in>set w. takes e) \<or> length data \<le> sum_list (map taken (takeWhile takes w))"
    by (auto simp: bytes_taken_def Let_def takeWhile_eq_all_conv)
  then show ?thesis using 1 2 3 by simp
qed

theorem readn_writen_exact_witness:
  "fst (writen ''abcdef'' [WTake 2, WTake 3, WTake 9]) = Some 6 \<and> fst (writen ''abcdef'' [WTake 2, WFail EINTR]) = Some 2"
  using readn_writen_exact [of 0 "[]" "''abcdef''" "[WTake 2, WTake 3, WTake 9]"]
    readn_writen_exact [of 0 "[]" "''abcdef''" "[WTake 2, WFail EINTR]"]
  by (simp add: bytes_taken_def)

end
