(* ===== verification/Pty.thy ===== *)
theory Pty
  imports Processes Netio
begin

text \<open>
  Programs on pseudo terminals: opening the two sides (\<^verbatim>\<open>lib/ptyopen.c\<close>), starting a child on the slave side
  (\<^verbatim>\<open>lib/ptyfork.c\<close>), connecting a driver (\<^verbatim>\<open>pty/driver.c\<close>, \<^verbatim>\<open>lib/spipe.c\<close>), copying (\<^verbatim>\<open>pty/loop.c\<close>) and the program that
  uses them (\<^verbatim>\<open>pty/main.c\<close>).
\<close>

section \<open>The two sides of a pseudo terminal\<close>

text \<open>
  \<open>fresh\<close> is the number of the terminal that \<^verbatim>\<open>posix_openpt\<close> makes, \<open>ptsname\<close> the name of its slave side, if it can be told, and \<open>dev\<close> what
  a path names. \<open>bsd\<close>: a session leader gets its controlling terminal by \<^verbatim>\<open>ioctl\<close> and not by opening it.
\<close>

record ptyk =
  fresh :: nat
  ptsname :: "string option"
  dev :: "string \<Rightarrow> nat option"
  bsd :: bool

definition ptym_open :: "ptyk \<Rightarrow> string \<Rightarrow> nat \<Rightarrow> process \<Rightarrow> (int \<times> string \<times> process) res" where
  "ptym_open K pts_name pts_namesz p =
     (case p_new (Master (fresh K)) p of
        (Inl e, p1) \<Rightarrow> Inr (-1, pts_name, p1)
      | (Inr fdm, p1) \<Rightarrow>
          let errout = (\<lambda>e q. Inr (-1, pts_name, (p_close fdm q)\<lparr>err := e\<rparr>))
          in case p_call p1 of (Some e, p2) \<Rightarrow> errout e p2 | (None, p2) \<Rightarrow>
            (case p_call p2 of (Some e, p3) \<Rightarrow> errout e p3 | (None, p3) \<Rightarrow>
              (case ptsname K of None \<Rightarrow> errout (err p3) p3 | Some ptr \<Rightarrow>
                 bnd (strncpy_term pts_namesz ptr) (\<lambda>buf. Inr (int fdm, buf, p3)))))"

text \<open>Opening the slave side makes it the controlling terminal of a session leader that has none.\<close>

definition acquire :: "nat \<Rightarrow> process \<Rightarrow> process" where
  "acquire k p = (if leader p \<and> ctty p = None then p\<lparr>ctty := Some k\<rparr> else p)"

definition ptys_open :: "ptyk \<Rightarrow> string \<Rightarrow> process \<Rightarrow> int \<times> process" where
  "ptys_open K pts_name p =
     (case dev K (cstr pts_name) of
        None \<Rightarrow> (case p_call p of (Some e, p') \<Rightarrow> (-1, p') | (None, p') \<Rightarrow> (-1, p'\<lparr>err := ENOENT\<rparr>))
      | Some k \<Rightarrow>
          (case p_new (Slave k) p of
             (Inl e, p1) \<Rightarrow> (-1, p1)
           | (Inr fds, p1) \<Rightarrow> (int fds, if bsd K then p1 else acquire k p1)))"

section \<open>A child on a pseudo terminal\<close>

definition stds3 :: "(nat \<times> fatal) list" where
  "stds3 = [(0, Err_sys ''dup2 error to stdin''), (1, Err_sys ''dup2 error to stdout''), (2, Err_sys ''dup2 error to stderr'')]"

text \<open>Settings go to the terminal behind a descriptor.\<close>

definition term_of :: "nat \<Rightarrow> process \<Rightarrow> nat" where
  "term_of fd p = (case fdt p fd of Some (Slave k) \<Rightarrow> k | _ \<Rightarrow> 0)"

definition opt_set :: "'v option \<Rightarrow> ('v \<Rightarrow> process \<Rightarrow> process) \<Rightarrow> fatal \<Rightarrow> process \<Rightarrow> process res" where
  "opt_set v f e p = (case v of None \<Rightarrow> Inr p | Some x \<Rightarrow> chk e (p_do (f x) p))"

definition set_tmodes :: "nat \<Rightarrow> termios \<Rightarrow> process \<Rightarrow> process" where
  "set_tmodes k x p = p\<lparr>tmodes := (tmodes p)(k := x)\<rparr>"

definition set_tsizes :: "nat \<Rightarrow> int \<Rightarrow> process \<Rightarrow> process" where
  "set_tsizes k x p = p\<lparr>tsizes := (tsizes p)(k := x)\<rparr>"

text \<open>Lines 28 to 69 of \<^verbatim>\<open>lib/ptyfork.c\<close>.\<close>

definition pty_child :: "ptyk \<Rightarrow> nat \<Rightarrow> string \<Rightarrow> termios option \<Rightarrow> int option \<Rightarrow> process \<Rightarrow> process res" where
  "pty_child K fdm pts_name slave_termios slave_winsize c =
     bnd (chk (Err_sys ''setsid error'') (p_setsid c)) (\<lambda>c1.
     case ptys_open K pts_name c1 of (fds, c2) \<Rightarrow>
       if fds < 0 then Inl (Err_sys ''can't open slave pty'')
       else
         let c3 = p_close fdm c2; k = term_of (nat fds) c3 in
         bnd (if bsd K then chk (Err_sys ''TIOCSCTTY error'') (p_do (acquire k) c3) else Inr c3) (\<lambda>c4.
         bnd (opt_set slave_termios (set_tmodes k) (Err_sys ''tcsetattr error on slave pty'') c4) (\<lambda>c5.
         bnd (opt_set slave_winsize (set_tsizes k) (Err_sys ''TIOCSWINSZ error on slave pty'') c5) (\<lambda>c6.
         std_from stds3 (nat fds) c6))))"

text \<open>
  What the parent returns: the result, the descriptor of the master side, the buffer for the name and the process, and the child, if there is one.
  The array \<^verbatim>\<open>pts_name\<close> has 20 bytes of whatever is on the stack; when opening fails, they are printed.
\<close>

record pty_ret =
  ret :: int
  ptrfdm :: "int option"
  slave_name :: "string option"
  parent :: process
  child :: "process res option"

definition pty_fork ::
  "ptyk \<Rightarrow> string \<Rightarrow> (string \<times> nat) option \<Rightarrow> termios option \<Rightarrow> int option \<Rightarrow> forked \<Rightarrow> process \<Rightarrow> pty_ret res" where
  "pty_fork K stack slave slave_termios slave_winsize fk p =
     bnd (ptym_open K stack 20 p) (\<lambda>(fdm, pts_name, p1).
     if fdm < 0 then Inl (if NUL \<in> set stack then Err_sys ''can't open master pty'' else Undefined ''pts_name'')
     else
       bnd (case slave of None \<Rightarrow> Inr None | Some (buf, sz) \<Rightarrow> bnd (strncpy_term sz (cstr pts_name)) (\<lambda>b. Inr (Some b))) (\<lambda>sname.
       case fk of
         Inl e \<Rightarrow> Inr \<lparr>ret = -1, ptrfdm = None, slave_name = sname, parent = p1\<lparr>err := e\<rparr>, child = None\<rparr>
       | Inr c \<Rightarrow>
           Inr \<lparr>ret = int (fst c), ptrfdm = Some fdm, slave_name = sname, parent = p1,
                child = Some (pty_child K (nat fdm) pts_name slave_termios slave_winsize (child_of c p1))\<rparr>))"

section \<open>What they do\<close>

lemma strncpy_term_cstr:
  assumes "strncpy_term n s = Inr b" "is_cstr s"
  shows "0 < n" "length b = n" "cstr b = take (n - 1) s"
proof -
  have n: "0 < n" and b: "b = (take n s @ replicate (n - length s) NUL)[n - 1 := NUL]"
    using assms(1) by (auto simp: strncpy_term_def split: if_splits)
  show "0 < n" "length b = n" using n b by auto
  have t: "is_cstr (take k s)" for k using assms(2) by (auto simp: is_cstr_def dest: in_set_takeD)
  show "cstr b = take (n - 1) s"
  proof (cases "n \<le> length s")
    case True
    then have "b = take (n - 1) s @ [NUL]" using n b
      by (cases n) (auto simp: take_Suc_conv_app_nth list_update_append)
    then show ?thesis using t by simp
  next
    case False
    then obtain k where k: "n - length s = Suc k" by (cases "n - length s") auto
    have "(take n s @ replicate (n - length s) NUL) ! (n - 1) = NUL" using False n by (simp add: nth_append)
    then have "b = take n s @ replicate (n - length s) NUL" using b by (metis list_update_id)
    then have "b = s @ NUL # replicate k NUL" using False k by simp
    then show ?thesis using False assms(2) by simp
  qed
qed

lemma ptym_open_effect:
  assumes "ptym_open K g sz p = Inr (fdm, buf, q)"
  shows "if fdm < 0 then same p q
    else fdt p (nat fdm) = None \<and> same (p\<lparr>fdt := (fdt p)(nat fdm \<mapsto> Master (fresh K))\<rparr>) q \<and>
         (\<exists>ptr. ptsname K = Some ptr \<and> strncpy_term sz ptr = Inr buf)"
proof -
  obtain r p1 where N: "p_new (Master (fresh K)) p = (r, p1)" by fastforce
  note n = p_new_effect [OF N]
  obtain e2 p2 where c2: "p_call p1 = (e2, p2)" by fastforce
  obtain e3 p3 where c3: "p_call p2 = (e3, p3)" by fastforce
  have s: "same p1 p2" "same p2 p3" using c2 c3 by (auto dest: p_call_same)
  show ?thesis
  proof (cases r)
    case (Inl e)
    then show ?thesis using assms N n by (simp add: ptym_open_def)
  next
    case (Inr fd)
    then have f: "fdt p fd = None" "same (p\<lparr>fdt := (fdt p)(fd \<mapsto> Master (fresh K))\<rparr>) p1" using n by auto
    have undo: "same p ((p_close fd x)\<lparr>err := e\<rparr>)" if "same p1 x" for x e
      using f that by (auto simp: same_def p_close_def)
    show ?thesis
    proof (cases "e2 = None \<and> e3 = None \<and> ptsname K \<noteq> None")
      case True
      then obtain ptr where ptr: "ptsname K = Some ptr" by auto
      then have "strncpy_term sz ptr = Inr buf" "fdm = int fd" "q = p3"
        using assms True N c2 c3 Inr by (auto simp: ptym_open_def Let_def bnd_eq_Inr_iff)
      then show ?thesis using f s ptr by (auto simp: same_def)
    next
      case False
      then have "fdm = -1" "\<exists>x e. same p1 x \<and> q = (p_close fd x)\<lparr>err := e\<rparr>"
        using assms N c2 c3 Inr s by (auto simp: ptym_open_def Let_def split: option.splits dest: same_trans)
      then show ?thesis using undo by auto
    qed
  qed
qed

lemma ptys_open_effect:
  assumes "ptys_open K nm p = (fds, q)" "dev K (cstr nm) = Some k" "0 \<le> fds"
  shows "fdt p (nat fds) = None"
    "same (let p1 = p\<lparr>fdt := (fdt p)(nat fds \<mapsto> Slave k)\<rparr> in if bsd K then p1 else acquire k p1) q"
proof -
  obtain r p1 where N: "p_new (Slave k) p = (r, p1)" by fastforce
  obtain fd where fd: "r = Inr fd" "fds = int fd" "q = (if bsd K then p1 else acquire k p1)"
    using assms N by (cases r) (auto simp: ptys_open_def)
  have n: "fdt p fd = None" "same (p\<lparr>fdt := (fdt p)(fd \<mapsto> Slave k)\<rparr>) p1" using p_new_effect [OF N] fd(1) by auto
  show "fdt p (nat fds) = None" using n fd by simp
  show "same (let p1 = p\<lparr>fdt := (fdt p)(nat fds \<mapsto> Slave k)\<rparr> in if bsd K then p1 else acquire k p1) q"
    using n fd by (auto simp: same_def acquire_def leader_def Let_def)
qed

lemma opt_set_effect: "opt_set v f e p = Inr q \<Longrightarrow> \<exists>p'. same p p' \<and> q = (case v of None \<Rightarrow> p' | Some x \<Rightarrow> f x p')"
  by (cases v) (auto simp: opt_set_def dest: chk_do)

text \<open>A child that comes into being has the terminal as its standard files, and nothing else that its parent had not.\<close>

lemma pty_child_effect:
  assumes "pty_child K fdm nm tio win c = Inr d" "dev K (cstr nm) = Some k" "fdt c fdm \<noteq> None"
  shows "fdt d = (\<lambda>i. if i < 3 then Some (Slave k) else if i = fdm then None else fdt c i)" "leader d" "ctty d = Some k" "pid d = pid c"
    "tmodes d = (case tio of None \<Rightarrow> tmodes c | Some x \<Rightarrow> (tmodes c)(k := x))"
    "tsizes d = (case win of None \<Rightarrow> tsizes c | Some x \<Rightarrow> (tsizes c)(k := x))"
proof -
  obtain c1 where c1: "chk (Err_sys ''setsid error'') (p_setsid c) = Inr c1"
    using assms(1) by (auto simp: pty_child_def bnd_eq_Inr_iff)
  obtain fds c2 where c2: "ptys_open K nm c1 = (fds, c2)" by fastforce
  have f0: "0 \<le> fds" using assms(1) c1 c2 by (auto simp: pty_child_def split: if_splits)
  define c3 where "c3 = p_close fdm c2"
  define t where "t = term_of (nat fds) c3"
  obtain c4 c5 c6 where c4: "(if bsd K then chk (Err_sys ''TIOCSCTTY error'') (p_do (acquire t) c3) else Inr c3) = Inr c4"
    and c5: "opt_set tio (set_tmodes t) (Err_sys ''tcsetattr error on slave pty'') c4 = Inr c5"
    and c6: "opt_set win (set_tsizes t) (Err_sys ''TIOCSWINSZ error on slave pty'') c5 = Inr c6"
    and d: "std_from stds3 (nat fds) c6 = Inr d"
    using assms(1) c1 c2 f0 unfolding c3_def t_def by (auto simp: pty_child_def bnd_eq_Inr_iff Let_def)
  obtain c' where c': "same c c'" "c1 = c'\<lparr>sid := pid c', ctty := None\<rparr>" using chk_do c1 unfolding p_setsid_def by blast
  have s1: "fdt c1 = fdt c" "leader c1" "ctty c1 = None" "pid c1 = pid c" "tmodes c1 = tmodes c" "tsizes c1 = tsizes c"
    using c' by (auto simp: same_def leader_def)
  note o = ptys_open_effect [OF c2 assms(2) f0]
  have ne: "nat fds \<noteq> fdm" using o(1) s1(1) assms(3) by auto
  have s3: "fdt c3 = (fdt c)(nat fds \<mapsto> Slave k, fdm := None)" "leader c3" "ctty c3 = (if bsd K then None else Some k)"
    "pid c3 = pid c" "tmodes c3 = tmodes c" "tsizes c3 = tsizes c"
    using o(2) s1 by (auto simp: c3_def p_close_def same_def acquire_def leader_def Let_def)
  have t: "t = k" using s3(1) ne by (simp add: t_def term_of_def)
  have s4: "fdt c4 = fdt c3" "leader c4" "ctty c4 = Some k" "pid c4 = pid c" "tmodes c4 = tmodes c" "tsizes c4 = tsizes c"
  proof -
    have "\<exists>x. same c3 x \<and> c4 = (if bsd K then acquire k x else x)" using c4 t by (auto split: if_splits dest: chk_do)
    then show "fdt c4 = fdt c3" "leader c4" "ctty c4 = Some k" "pid c4 = pid c" "tmodes c4 = tmodes c" "tsizes c4 = tsizes c"
      using s3 by (auto simp: acquire_def leader_def same_def)
  qed
  have s6: "fdt c6 = fdt c3" "leader c6" "ctty c6 = Some k" "pid c6 = pid c"
    "tmodes c6 = (case tio of None \<Rightarrow> tmodes c | Some x \<Rightarrow> (tmodes c)(k := x))"
    "tsizes c6 = (case win of None \<Rightarrow> tsizes c | Some x \<Rightarrow> (tsizes c)(k := x))"
    using opt_set_effect [OF c5] opt_set_effect [OF c6] s4 t
    by (auto simp: same_def leader_def set_tmodes_def set_tsizes_def split: option.splits)
  have std: "fst ` set stds3 = {0, 1, 2}" by (simp add: stds3_def)
  note e = std_from_effect [OF d, unfolded std]
  have "fdt d = (\<lambda>i. if i \<in> {0, 1, 2} then fdt c6 (nat fds) else if i = nat fds then None else fdt c6 i)"
    using e by (simp add: same_def)
  moreover have "fdt c6 (nat fds) = Some (Slave k)" using s6(1) s3(1) ne by simp
  moreover have "fdt c (nat fds) = None" using o(1) s1(1) by simp
  ultimately show "fdt d = (\<lambda>i. if i < 3 then Some (Slave k) else if i = fdm then None else fdt c i)"
    using s6(1) s3(1) by (auto simp: fun_eq_iff)
  show "leader d" "ctty d = Some k" "pid d = pid c"
    "tmodes d = (case tio of None \<Rightarrow> tmodes c | Some x \<Rightarrow> (tmodes c)(k := x))"
    "tsizes d = (case win of None \<Rightarrow> tsizes c | Some x \<Rightarrow> (tsizes c)(k := x))"
    using e s6 by (auto simp: same_def leader_def)
qed

lemma ans_acquire [simp]: "ans (acquire k q) = ans q"
  by (simp add: acquire_def)

lemma pty_child_calm:
  assumes "calm c" "lowest c \<noteq> None" "dev K (cstr nm) = Some k"
  shows "\<exists>d. pty_child K fdm nm tio win c = Inr d"
proof -
  obtain c1 where c1: "chk (Err_sys ''setsid error'') (p_setsid c) = Inr c1" "calm c1" "lowest c1 = lowest c"
    using calm_chk [OF assms(1), of "\<lambda>p. p\<lparr>sid := pid p, ctty := None\<rparr>" "Err_sys ''setsid error''"]
    unfolding p_setsid_def by (auto simp: same_def lowest_def)
  obtain i q where N: "p_new (Slave k) c1 = (Inr i, q)" "calm q" using calm_new [OF c1(2)] c1(3) assms(2) by metis
  define c2 where "c2 = (if bsd K then q else acquire k q)"
  have c2: "ptys_open K nm c1 = (int i, c2)" "calm c2"
    using N assms(3) by (auto simp: ptys_open_def c2_def acquire_def calm_def)
  define c3 where "c3 = p_close fdm c2"
  define t where "t = term_of i c3"
  have "calm c3" using c2(2) by (simp add: c3_def p_close_def calm_def)
  then obtain c4 where c4: "(if bsd K then chk (Err_sys ''TIOCSCTTY error'') (p_do (acquire t) c3) else Inr c3) = Inr c4" "calm c4"
    using calm_chk [of c3 "acquire t" "Err_sys ''TIOCSCTTY error''"] by (cases "bsd K") auto
  obtain c5 where c5: "opt_set tio (set_tmodes t) (Err_sys ''tcsetattr error on slave pty'') c4 = Inr c5" "calm c5"
    using calm_chk [OF c4(2), of "set_tmodes t x" for x] c4(2) by (cases tio) (auto simp: opt_set_def set_tmodes_def)
  obtain c6 where c6: "opt_set win (set_tsizes t) (Err_sys ''TIOCSWINSZ error on slave pty'') c5 = Inr c6" "calm c6"
    using calm_chk [OF c5(2), of "set_tsizes t x" for x] c5(2) by (cases win) (auto simp: opt_set_def set_tsizes_def)
  obtain d where "std_from stds3 i c6 = Inr d" using calm_std_from [OF c6(2)] by blast
  then show ?thesis using c1(1) c2(1) c4(1) c5(1) c6(1)
    unfolding t_def c3_def by (cases "bsd K") (simp_all add: pty_child_def Let_def)
qed

text \<open>
  When \<^verbatim>\<open>pty_fork\<close> returns the number of a child, the parent holds one more descriptor, the
  master side; a child that gets to its program leads a session whose controlling terminal is the slave side, has it as standard input, output and error with the
  settings asked for, and otherwise the descriptors of its parent without the master side. It fails only if one of its calls does or it has no descriptor left. When
  \<^verbatim>\<open>fork\<close> fails, -1 is returned and the master side stays open, though the caller does not get to know it.
\<close>

lemma pty_fork_spec:
  assumes "pty_fork K stack slave tio win fk p = Inr R"
    and "ptsname K = Some nm" "is_cstr nm" "length nm < 20" "dev K nm = Some (fresh K)"
  shows "\<exists>fdm. fdt p fdm = None \<and> fdt (parent R) = (fdt p)(fdm \<mapsto> Master (fresh K)) \<and>
      (\<forall>buf sz. slave = Some (buf, sz) \<longrightarrow> (\<exists>b. slave_name R = Some b \<and> length b = sz \<and> cstr b = take (sz - 1) nm)) \<and>
      (case fk of
         Inl e \<Rightarrow> ret R = -1 \<and> ptrfdm R = None \<and> child R = None
       | Inr (n, a) \<Rightarrow> ret R = int n \<and> ptrfdm R = Some (int fdm) \<and>
           (case child R of
              None \<Rightarrow> False
            | Some (Inl f) \<Rightarrow> set a \<subseteq> {None} \<longrightarrow> lowest (parent R) = None
            | Some (Inr c) \<Rightarrow> fdt c = (fdt p)(0 \<mapsto> Slave (fresh K), 1 \<mapsto> Slave (fresh K), 2 \<mapsto> Slave (fresh K)) \<and>
                pid c = n \<and> leader c \<and> ctty c = Some (fresh K) \<and>
                (\<forall>x. tio = Some x \<longrightarrow> tmodes c (fresh K) = x) \<and> (\<forall>x. win = Some x \<longrightarrow> tsizes c (fresh K) = x)))"
proof -
  obtain m buf p1 where O: "ptym_open K stack 20 p = Inr (m, buf, p1)" "\<not> m < 0"
    using assms(1) by (auto simp: pty_fork_def bnd_eq_Inr_iff split: if_splits)
  obtain sname where sn: "(case slave of None \<Rightarrow> Inr None | Some (b, sz) \<Rightarrow> bnd (strncpy_term sz (cstr buf)) (\<lambda>b. Inr (Some b))) = Inr sname"
    "(case fk of
         Inl e \<Rightarrow> Inr \<lparr>ret = -1, ptrfdm = None, slave_name = sname, parent = p1\<lparr>err := e\<rparr>, child = None\<rparr>
       | Inr c \<Rightarrow> Inr \<lparr>ret = int (fst c), ptrfdm = Some m, slave_name = sname, parent = p1,
                child = Some (pty_child K (nat m) buf tio win (child_of c p1))\<rparr>) = (Inr R :: pty_ret res)"
    using assms(1) O by (auto simp: pty_fork_def bnd_eq_Inr_iff split: if_splits)
  have o: "fdt p (nat m) = None" "same (p\<lparr>fdt := (fdt p)(nat m \<mapsto> Master (fresh K))\<rparr>) p1" "strncpy_term 20 nm = Inr buf"
    using ptym_open_effect [OF O(1)] O(2) assms(2) by auto
  have b: "cstr buf = nm" using strncpy_term_cstr(3) [OF o(3) assms(3)] assms(4) by simp
  have t1: "fdt p1 = (fdt p)(nat m \<mapsto> Master (fresh K))" using o(2) by (simp add: same_def)
  have name: "\<exists>b. sname = Some b \<and> length b = sz \<and> cstr b = take (sz - 1) nm" if "slave = Some (buf', sz)" for buf' sz
    using sn(1) that b strncpy_term_cstr [of sz nm] assms(3) by (auto simp: bnd_eq_Inr_iff)
  show ?thesis
  proof (cases fk)
    case (Inl e)
    then show ?thesis using sn(2) o(1) t1 name by (auto intro!: exI [of _ "nat m"])
  next
    case (Inr c)
    obtain n a where c: "c = (n, a)" by fastforce
    define d where "d = pty_child K (nat m) buf tio win (child_of c p1)"
    have R: "R = \<lparr>ret = int n, ptrfdm = Some m, slave_name = sname, parent = p1, child = Some d\<rparr>" using sn(2) Inr c d_def by simp
    have ch: "fdt (child_of c p1) = fdt p1" "lowest (child_of c p1) = lowest p1" "pid (child_of c p1) = n" "ans (child_of c p1) = a"
      by (simp_all add: child_of_def lowest_def c)
    have "case d of Inl f \<Rightarrow> set a \<subseteq> {None} \<longrightarrow> lowest p1 = None
      | Inr c \<Rightarrow> fdt c = (fdt p)(0 \<mapsto> Slave (fresh K), 1 \<mapsto> Slave (fresh K), 2 \<mapsto> Slave (fresh K)) \<and>
                pid c = n \<and> leader c \<and> ctty c = Some (fresh K) \<and>
                (\<forall>x. tio = Some x \<longrightarrow> tmodes c (fresh K) = x) \<and> (\<forall>x. win = Some x \<longrightarrow> tsizes c (fresh K) = x)"
    proof (cases d)
      case (Inl f)
      then have "\<not> (calm (child_of c p1) \<and> lowest (child_of c p1) \<noteq> None)"
        using pty_child_calm [of "child_of c p1" K buf "fresh K" "nat m" tio win] b assms(5) by (auto simp: d_def simp del: not_None_eq)
      then show ?thesis using Inl ch by (auto simp: calm_def)
    next
      case (Inr q)
      then have "pty_child K (nat m) buf tio win (child_of c p1) = Inr q" by (simp add: d_def)
      note e = pty_child_effect [OF this, unfolded b, OF assms(5), unfolded ch]
      have m0: "fdt p1 (nat m) \<noteq> None" using t1 by simp
      have "fdt q = (fdt p)(0 \<mapsto> Slave (fresh K), 1 \<mapsto> Slave (fresh K), 2 \<mapsto> Slave (fresh K))"
        using e(1) [OF m0] t1 o(1) by (auto simp: fun_eq_iff)
      then show ?thesis using Inr e(2-6) [OF m0] by auto
    qed
    moreover have "ptrfdm R = Some (int (nat m))" using R O(2) by simp
    ultimately show ?thesis using R o(1) t1 name Inr c by (intro exI [of _ "nat m"]) (simp add: sum.case_eq_if)
  qed
qed

lemma pty_fork_child:
  assumes "pty_fork K stack slave tio win fk p = Inr R"
    and "ptsname K = Some nm" "is_cstr nm" "length nm < 20" "dev K nm = Some (fresh K)" "child R = Some c0"
  obtains fdm where "fdt p fdm = None" "fdt (parent R) = (fdt p)(fdm \<mapsto> Master (fresh K))" "ptrfdm R = Some (int fdm)"
    "\<And>c. c0 = Inr c \<Longrightarrow> fdt c = (fdt p)(0 \<mapsto> Slave (fresh K), 1 \<mapsto> Slave (fresh K), 2 \<mapsto> Slave (fresh K)) \<and> leader c \<and> ctty c = Some (fresh K) \<and>
      (\<forall>x. tio = Some x \<longrightarrow> tmodes c (fresh K) = x) \<and> (\<forall>x. win = Some x \<longrightarrow> tsizes c (fresh K) = x)"
proof -
  let ?child = "\<lambda>c n. fdt c = (fdt p)(0 \<mapsto> Slave (fresh K), 1 \<mapsto> Slave (fresh K), 2 \<mapsto> Slave (fresh K)) \<and>
                pid c = n \<and> leader c \<and> ctty c = Some (fresh K) \<and>
                (\<forall>x. tio = Some x \<longrightarrow> tmodes c (fresh K) = x) \<and> (\<forall>x. win = Some x \<longrightarrow> tsizes c (fresh K) = x)"
  obtain fdm where A: "fdt p fdm = None" "fdt (parent R) = (fdt p)(fdm \<mapsto> Master (fresh K))"
    "case fk of Inl e \<Rightarrow> ret R = -1 \<and> ptrfdm R = None \<and> child R = None
       | Inr (n, a) \<Rightarrow> ret R = int n \<and> ptrfdm R = Some (int fdm) \<and>
           (case child R of None \<Rightarrow> False | Some (Inl f) \<Rightarrow> set a \<subseteq> {None} \<longrightarrow> lowest (parent R) = None | Some (Inr c) \<Rightarrow> ?child c n)"
    using pty_fork_spec [OF assms(1-5)] by blast
  obtain n a where fk: "fk = Inr (n, a)" using A(3) assms(6) by (cases fk) auto
  show thesis
  proof (rule that [OF A(1,2)])
    show "ptrfdm R = Some (int fdm)" using A(3) fk by simp
    fix c assume "c0 = Inr c"
    then have "?child c n" using A(3) fk assms(6) by simp
    then show "fdt c = (fdt p)(0 \<mapsto> Slave (fresh K), 1 \<mapsto> Slave (fresh K), 2 \<mapsto> Slave (fresh K)) \<and> leader c \<and> ctty c = Some (fresh K) \<and>
      (\<forall>x. tio = Some x \<longrightarrow> tmodes c (fresh K) = x) \<and> (\<forall>x. win = Some x \<longrightarrow> tsizes c (fresh K) = x)" by blast
  qed
qed

section \<open>A driver\<close>

text \<open>\<^verbatim>\<open>fd_pipe\<close>: the two ends of connection \<open>n\<close>.\<close>

definition fd_pipe :: "nat \<Rightarrow> process \<Rightarrow> (errno + nat \<times> nat) \<times> process" where
  "fd_pipe n p =
     (case p_call p of
        (Some e, p') \<Rightarrow> (Inl e, p')
      | (None, p') \<Rightarrow>
          (case lowest p' of
             None \<Rightarrow> (Inl EMFILE, p'\<lparr>err := EMFILE\<rparr>)
           | Some i \<Rightarrow>
               let p1 = p'\<lparr>fdt := (fdt p')(i \<mapsto> End n False)\<rparr>
               in case lowest p1 of
                    None \<Rightarrow> (Inl EMFILE, p'\<lparr>err := EMFILE\<rparr>)
                  | Some j \<Rightarrow> (Inr (i, j), p1\<lparr>fdt := (fdt p1)(j \<mapsto> End n True)\<rparr>)))"

definition stds2 :: "(nat \<times> fatal) list" where
  "stds2 = [(0, Err_sys ''dup2 error to stdin''), (1, Err_sys ''dup2 error to stdout'')]"

text \<open>The parent and the driver; a driver that cannot be run ends with an error.\<close>

definition do_driver :: "nat \<Rightarrow> forked \<Rightarrow> process \<Rightarrow> (process res \<times> process res) res" where
  "do_driver n fk p =
     (case fd_pipe n p of
        (Inl e, p1) \<Rightarrow> Inl (Err_sys ''can't create stream pipe'')
      | (Inr (a, b), p1) \<Rightarrow>
          (case fk of
             Inl e \<Rightarrow> Inl (Err_sys ''fork error'')
           | Inr c \<Rightarrow>
               Inr (std_from stds2 b (p_close a p1),
                    bnd (std_from stds2 a (p_close b (child_of c p1))) (\<lambda>d.
                    chk (Err_sys ''execlp error'') (p_call d)))))"

lemma fd_pipe_effect:
  assumes "fd_pipe n p = (Inr (a, b), q)"
  shows "fdt p a = None" "fdt p b = None" "a \<noteq> b" "same (p\<lparr>fdt := (fdt p)(a \<mapsto> End n False, b \<mapsto> End n True)\<rparr>) q"
proof -
  obtain e p' where c: "p_call p = (e, p')" by fastforce
  then have s: "same p p'" by (rule p_call_same)
  have e: "e = None" using assms c by (cases e) (auto simp: fd_pipe_def)
  obtain i where i: "lowest p' = Some i" using assms c e by (auto simp: fd_pipe_def split: option.splits)
  define p1 where "p1 = p'\<lparr>fdt := (fdt p')(i \<mapsto> End n False)\<rparr>"
  obtain j where j: "lowest p1 = Some j" using assms c e i by (auto simp: fd_pipe_def Let_def p1_def split: option.splits)
  have r: "a = i" "b = j" "q = p1\<lparr>fdt := (fdt p1)(j \<mapsto> End n True)\<rparr>"
    using assms c e i j by (auto simp: fd_pipe_def Let_def p1_def)
  show "fdt p a = None" "fdt p b = None" "a \<noteq> b" "same (p\<lparr>fdt := (fdt p)(a \<mapsto> End n False, b \<mapsto> End n True)\<rparr>) q"
    using r s lowest_free [OF i] lowest_free [OF j] by (auto simp: p1_def same_def split: if_splits)
qed

lemma do_driver_spec:
  assumes "do_driver n fk p = Inr (Inr q, d)"
  shows "fdt q = (fdt p)(0 \<mapsto> End n True, 1 \<mapsto> End n True)"
    "d = Inr c \<Longrightarrow> fdt c = (fdt p)(0 \<mapsto> End n False, 1 \<mapsto> End n False)"
proof -
  obtain r p1 where f: "fd_pipe n p = (r, p1)" by fastforce
  obtain a b ch where ab: "r = Inr (a, b)" "fk = Inr ch" "std_from stds2 b (p_close a p1) = Inr q"
    "d = bnd (std_from stds2 a (p_close b (child_of ch p1))) (\<lambda>d. chk (Err_sys ''execlp error'') (p_call d))"
    using assms f by (auto simp: do_driver_def split: sum.splits)
  note e = fd_pipe_effect [OF f [unfolded ab(1)]]
  have t: "fdt p1 = (fdt p)(a \<mapsto> End n False, b \<mapsto> End n True)" using e(4) by (simp add: same_def)
  have std: "fst ` set stds2 = {0, 1}" by (simp add: stds2_def)
  have "fdt q = (\<lambda>i. if i \<in> {0, 1} then fdt (p_close a p1) b else if i = b then None else fdt (p_close a p1) i)"
    using std_from_effect [OF ab(3)] by (simp add: same_def std)
  then show "fdt q = (fdt p)(0 \<mapsto> End n True, 1 \<mapsto> End n True)" using e(1-3) by (auto simp: p_close_def t fun_eq_iff)
  assume "d = Inr c"
  then obtain c' where c': "std_from stds2 a (p_close b (child_of ch p1)) = Inr c'" "same c' c"
    using ab(4) by (auto simp: bnd_eq_Inr_iff chk_Inr dest: p_call_same)
  have "fdt c' = (\<lambda>i. if i \<in> {0, 1} then fdt (p_close b (child_of ch p1)) a else if i = a then None else fdt (p_close b (child_of ch p1)) i)"
    using std_from_effect [OF c'(1)] by (simp add: same_def std)
  then show "fdt c = (fdt p)(0 \<mapsto> End n False, 1 \<mapsto> End n False)" using e(1-3) c'(2)
    by (auto simp: p_close_def child_of_def t fun_eq_iff same_def)
qed

end
