(* ===== verification/Daemon.thy ===== *)
theory Daemon
  imports Pty
begin

text \<open>
  Daemons: leaving the terminal and the descriptors behind (\<^verbatim>\<open>lib/daemonize.c\<close>, the same as \<^verbatim>\<open>daemons/init.c\<close>), running only
  once (\<^verbatim>\<open>daemons/single.c\<close>, \<^verbatim>\<open>advio/lockfile.c\<close>), and a program made of both that reads its configuration again on a
  signal (\<^verbatim>\<open>daemons/reread.c\<close>).
\<close>

section \<open>Becoming a daemon\<close>

definition p_dup :: "nat \<Rightarrow> process \<Rightarrow> (errno + nat) \<times> process" where
  "p_dup fd p = (case fdt p fd of None \<Rightarrow> (Inl EBADF, p\<lparr>err := EBADF\<rparr>) | Some ob \<Rightarrow> p_new ob p)"

text \<open>
  \<open>rlim_max\<close> is the limit that \<^verbatim>\<open>getrlimit\<close> gives, if there is one. The parents exit; the result is the process that goes on. A child
  that has just been forked leads no group, so that \<^verbatim>\<open>setsid\<close> does not fail.
\<close>

definition daemon_closed :: "nat option \<Rightarrow> process \<Rightarrow> process" where
  "daemon_closed rlim_max p = fold p_close [0..<(case rlim_max of None \<Rightarrow> 1024 | Some m \<Rightarrow> m)] p"

definition null_fds :: "process \<Rightarrow> process res" where
  "null_fds p =
     (case p_new Null p of (fd0, p1) \<Rightarrow> case p_dup 0 p1 of (fd1, p2) \<Rightarrow> case p_dup 0 p2 of (fd2, p3) \<Rightarrow>
        if fd0 \<noteq> Inr 0 \<or> fd1 \<noteq> Inr 1 \<or> fd2 \<noteq> Inr 2 then Inl (Err_quit ''unexpected file descriptors'') else Inr p3)"

definition daemonize :: "nat option \<Rightarrow> forked \<Rightarrow> forked \<Rightarrow> process \<Rightarrow> process res" where
  "daemonize rlim_max fk1 fk2 p =
     bnd (chk (Err_quit ''can't get file limit'') (p_call (p\<lparr>cmask := 0\<rparr>))) (\<lambda>p1.
     case fk1 of Inl e \<Rightarrow> Inl (Err_quit ''can't fork'') | Inr c1 \<Rightarrow>
       let p2 = child_of c1 p1; p3 = p2\<lparr>sid := pid p2, ctty := None\<rparr> in
       bnd (chk (Err_quit ''can't ignore SIGHUP'') (p_do (\<lambda>q. q\<lparr>hup_ign := True\<rparr>) p3)) (\<lambda>p4.
       case fk2 of Inl e \<Rightarrow> Inl (Err_quit ''can't fork'') | Inr c2 \<Rightarrow>
         bnd (chk (Err_quit ''can't change directory to /'') (p_do (\<lambda>q. q\<lparr>cwd := ''/''\<rparr>) (child_of c2 p4))) (\<lambda>p5.
         null_fds (daemon_closed rlim_max p5))))"

section \<open>What is left of the process\<close>

lemma p_close_sel:
  "fdt (p_close x p) = (fdt p)(x := None)" "fdlim (p_close x p) = fdlim p" "pid (p_close x p) = pid p" "sid (p_close x p) = sid p"
  "ctty (p_close x p) = ctty p" "tmodes (p_close x p) = tmodes p" "tsizes (p_close x p) = tsizes p" "cwd (p_close x p) = cwd p"
  "cmask (p_close x p) = cmask p" "hup_ign (p_close x p) = hup_ign p"
  by (simp_all add: p_close_def)

lemma fold_close_fields: "same (p\<lparr>fdt := \<lambda>i. if i \<in> set xs then None else fdt p i\<rparr>) (fold p_close xs p)"
proof (induction xs arbitrary: p)
  case (Cons x xs)
  have "same ((p_close x p)\<lparr>fdt := \<lambda>i. if i \<in> set xs then None else fdt (p_close x p) i\<rparr>) (fold p_close xs (p_close x p))" by (rule Cons.IH)
  moreover have "(\<lambda>i. if i \<in> set xs then None else fdt (p_close x p) i) = (\<lambda>i. if i \<in> set (x # xs) then None else fdt p i)"
    by (auto simp: p_close_sel fun_eq_iff)
  ultimately show ?case by (simp add: same_def p_close_sel)
qed (simp add: same_def)

lemma p_dup_effect:
  assumes "p_dup fd p = (Inr i, q)"
  shows "fdt p i = None \<and> fdt p fd \<noteq> None \<and> same (p\<lparr>fdt := (fdt p)(i := fdt p fd)\<rparr>) q"
proof -
  obtain ob where ob: "fdt p fd = Some ob" "p_new ob p = (Inr i, q)" using assms by (auto simp: p_dup_def split: option.splits)
  then show ?thesis using p_new_effect [OF ob(2)] by simp
qed

lemma null_fds_effect:
  assumes "null_fds p = Inr q"
  shows "same (p\<lparr>fdt := \<lambda>i. if i < 3 then Some Null else fdt p i\<rparr>) q"
proof -
  obtain p1 p2 where p: "p_new Null p = (Inr 0, p1)" "p_dup 0 p1 = (Inr 1, p2)" "p_dup 0 p2 = (Inr 2, q)"
    using assms by (auto simp: null_fds_def split: prod.splits if_splits)
  have 1: "fdt p 0 = None" "same (p\<lparr>fdt := (fdt p)(0 \<mapsto> Null)\<rparr>) p1" using p_new_effect [OF p(1)] by auto
  note 2 = p_dup_effect [OF p(2)] and 3 = p_dup_effect [OF p(3)]
  have "fdt p1 = (fdt p)(0 \<mapsto> Null)" using 1 by (simp add: same_def)
  moreover from this have "fdt p2 = (fdt p)(0 \<mapsto> Null, 1 \<mapsto> Null)" using 2 by (simp add: same_def)
  ultimately have "fdt q = (fdt p)(0 \<mapsto> Null, 1 \<mapsto> Null, 2 \<mapsto> Null)" using 3 by (simp add: same_def)
  moreover have "(fdt p)(0 \<mapsto> Null, 1 \<mapsto> Null, 2 \<mapsto> Null) = (\<lambda>i. if i < 3 then Some Null else fdt p i)" by (auto simp: fun_eq_iff)
  ultimately have "fdt q = (\<lambda>i. if i < 3 then Some Null else fdt p i)" by simp
  then show ?thesis using 1 2 3 by (simp add: same_def)
qed

lemma daemonize_effect:
  assumes "daemonize rlim_max fk1 fk2 p = Inr d"
  shows "\<exists>c1 c2. fk1 = Inr c1 \<and> fk2 = Inr c2 \<and> pid d = fst c2 \<and> sid d = fst c1 \<and> ctty d = None \<and> cwd d = ''/'' \<and> cmask d = 0 \<and> hup_ign d \<and>
    fdlim d = fdlim p \<and>
    fdt d = (\<lambda>i. if i < 3 then Some Null else if i < (case rlim_max of None \<Rightarrow> 1024 | Some m \<Rightarrow> m) then None else fdt p i)"
proof -
  obtain p1 where p1: "chk (Err_quit ''can't get file limit'') (p_call (p\<lparr>cmask := 0\<rparr>)) = Inr p1"
    using assms by (auto simp: daemonize_def bnd_eq_Inr_iff)
  obtain c1 where c1: "fk1 = Inr c1" using assms p1 by (cases fk1) (auto simp: daemonize_def)
  define p3 where "p3 = (child_of c1 p1)\<lparr>sid := pid (child_of c1 p1), ctty := None\<rparr>"
  obtain p4 where p4: "chk (Err_quit ''can't ignore SIGHUP'') (p_do (\<lambda>q. q\<lparr>hup_ign := True\<rparr>) p3) = Inr p4"
    using assms p1 c1 by (auto simp: daemonize_def bnd_eq_Inr_iff Let_def p3_def)
  obtain c2 where c2: "fk2 = Inr c2" using assms p1 c1 p4 by (cases fk2) (auto simp: daemonize_def Let_def p3_def)
  obtain p5 where p5: "chk (Err_quit ''can't change directory to /'') (p_do (\<lambda>q. q\<lparr>cwd := ''/''\<rparr>) (child_of c2 p4)) = Inr p5"
    "null_fds (daemon_closed rlim_max p5) = Inr d"
    using assms p1 c1 p4 c2 by (auto simp: daemonize_def bnd_eq_Inr_iff Let_def p3_def)
  have 1: "same (p\<lparr>cmask := 0\<rparr>) p1" using p1 by (auto simp: chk_Inr dest: p_call_same)
  obtain q4 where 4: "same p3 q4" "p4 = q4\<lparr>hup_ign := True\<rparr>" using chk_do [OF p4] by blast
  obtain q5 where 5: "same (child_of c2 p4) q5" "p5 = q5\<lparr>cwd := ''/''\<rparr>" using chk_do [OF p5(1)] by blast
  let ?m = "case rlim_max of None \<Rightarrow> 1024 | Some m \<Rightarrow> m"
  have 6: "same (p5\<lparr>fdt := \<lambda>i. if i \<in> set [0..<?m] then None else fdt p5 i\<rparr>) (daemon_closed rlim_max p5)"
    unfolding daemon_closed_def by (rule fold_close_fields)
  note 7 = null_fds_effect [OF p5(2)]
  have s5: "fdt p5 = fdt p" "pid p5 = fst c2" "sid p5 = fst c1" "ctty p5 = None" "cwd p5 = ''/''" "cmask p5 = 0" "hup_ign p5" "fdlim p5 = fdlim p"
    using 1 4 5 by (simp_all add: same_def p3_def child_of_def)
  have "fdt (daemon_closed rlim_max p5) = (\<lambda>i. if i < ?m then None else fdt p i)" using 6 s5(1) by (auto simp: same_def fun_eq_iff)
  then have "fdt d = (\<lambda>i. if i < 3 then Some Null else if i < ?m then None else fdt p i)" using 7 by (auto simp: same_def fun_eq_iff)
  then show ?thesis using c1 c2 s5 6 7 by (simp add: same_def)
qed

section \<open>Only one of them\<close>

definition LOCKFILE :: string where "LOCKFILE = ''/var/run/daemon.pid''"
definition EACCES :: errno where "EACCES = EOTHER 13"

text \<open>The lock on the file, which a process keeps until it closes the file or ends, and what the file holds.\<close>

record lockst =
  lk_owner :: "nat option"
  lk_data :: string

definition lk_release :: "nat \<Rightarrow> lockst \<Rightarrow> lockst" where
  "lk_release k L = (if lk_owner L = Some k then L\<lparr>lk_owner := None\<rparr> else L)"

definition lockfile :: "process \<Rightarrow> lockst \<Rightarrow> errno option \<times> process \<times> lockst" where
  "lockfile p L =
     (case p_call p of
        (Some e, p') \<Rightarrow> (Some e, p', L)
      | (None, p') \<Rightarrow>
          if lk_owner L = None \<or> lk_owner L = Some (pid p) then (None, p', L\<lparr>lk_owner := Some (pid p)\<rparr>)
          else (Some EAGAIN, p'\<lparr>err := EAGAIN\<rparr>, L))"

text \<open>The results of \<^verbatim>\<open>ftruncate\<close> and \<^verbatim>\<open>write\<close> are not looked at.\<close>

definition already_running :: "process \<Rightarrow> lockst \<Rightarrow> (nat \<times> process \<times> lockst) res" where
  "already_running p L =
     (case p_new (Pathfile LOCKFILE) p of
        (Inl e, p1) \<Rightarrow> Inl (Err_quit ''can't open'')
      | (Inr fd, p1) \<Rightarrow>
          (case lockfile p1 L of
             (Some e, p2, L2) \<Rightarrow>
               if e = EACCES \<or> e = EAGAIN then Inr (1, p_close fd p2, lk_release (pid p) L2) else Inl (Err_quit ''can't lock'')
           | (None, p2, L2) \<Rightarrow>
               let s = dec (pid p) in
               if 16 < length s + 1 then Inl (Undefined ''buf'')
               else
                 case p_call p2 of (t, p3) \<Rightarrow> case p_call p3 of (w, p4) \<Rightarrow>
                   let d = (if t = None then [] else lk_data L2)
                   in Inr (0, p4, L2\<lparr>lk_data := (if w = None then s @ NUL # drop (length s + 1) d else d)\<rparr>)))"

text \<open>The start of a daemon, lines 71 to 82 of \<^verbatim>\<open>daemons/reread.c\<close>: a value other than 0 makes it exit.\<close>

definition daemon_start :: "nat option \<Rightarrow> forked \<Rightarrow> forked \<Rightarrow> process \<Rightarrow> lockst \<Rightarrow> (nat \<times> process \<times> lockst) res" where
  "daemon_start rl fk1 fk2 p L = bnd (daemonize rl fk1 fk2 p) (\<lambda>d. already_running d L)"

text \<open>What the thread for signals does with what \<^verbatim>\<open>sigwait\<close> gives: the configurations read again, and how it ends, if it does.\<close>

datatype dsignal = D_hup | D_term | D_other nat

fun thr_fn :: "(errno + dsignal) list \<Rightarrow> nat \<Rightarrow> nat \<times> int option" where
  "thr_fn [] n = (n, None)"
| "thr_fn (Inl e # ss) n = (n, Some 1)"
| "thr_fn (Inr D_hup # ss) n = thr_fn ss (n + 1)"
| "thr_fn (Inr D_term # ss) n = (n, Some 0)"
| "thr_fn (Inr (D_other k) # ss) n = thr_fn ss n"

text \<open>Daemons that run, by number, and the lock; a daemon is started from any process and may end at any time.\<close>

record dsys =
  running :: "nat \<Rightarrow> process option"
  lk :: lockst

inductive dstep :: "dsys \<Rightarrow> dsys \<Rightarrow> bool" where
  start: "daemon_start rl (Inr c1) (Inr c2) p (lk s) = Inr (r, d, L) \<Longrightarrow> fst c1 \<noteq> fst c2 \<Longrightarrow> running s (fst c2) = None \<Longrightarrow>
     dstep s (if r = 0 then s\<lparr>running := (running s)(fst c2 \<mapsto> d), lk := L\<rparr> else s\<lparr>lk := L\<rparr>)"
| stop: "running s k = Some d \<Longrightarrow> dstep s (s\<lparr>running := (running s)(k := None), lk := lk_release k (lk s)\<rparr>)"

inductive dreach :: "dsys \<Rightarrow> dsys \<Rightarrow> bool" for s0 where
  init: "dreach s0 s0"
| step: "dreach s0 s \<Longrightarrow> dstep s t \<Longrightarrow> dreach s0 t"

definition detached :: "process \<Rightarrow> bool" where
  "detached d \<longleftrightarrow> (\<forall>i < 3. fdt d i = Some Null) \<and> \<not> leader d \<and> ctty d = None \<and> cwd d = ''/'' \<and> cmask d = 0 \<and> hup_ign d"

definition dsys_inv :: "dsys \<Rightarrow> bool" where
  "dsys_inv s \<longleftrightarrow> (\<forall>k d. running s k = Some d \<longrightarrow> lk_owner (lk s) = Some k \<and> pid d = k \<and> detached d)"

lemma lockfile_effect:
  assumes "lockfile p L = (r, q, L')"
  shows "same p q" "r = None \<Longrightarrow> lk_owner L \<in> {None, Some (pid p)} \<and> lk_owner L' = Some (pid p)" "r \<noteq> None \<Longrightarrow> L' = L"
  using assms by (auto simp: lockfile_def dest!: p_call_same split: prod.splits option.splits if_splits)

lemma already_running_effect:
  assumes "already_running p L = Inr (r, d, L')"
  shows "pid d = pid p \<and> (\<forall>i. fdt p i \<noteq> None \<longrightarrow> fdt d i = fdt p i) \<and> sid d = sid p \<and> ctty d = ctty p \<and> cwd d = cwd p \<and> cmask d = cmask p \<and> hup_ign d = hup_ign p \<and>
    (if r = 0 then lk_owner L \<in> {None, Some (pid p)} \<and> lk_owner L' = Some (pid p) \<and> (\<exists>fd. fdt d fd = Some (Pathfile LOCKFILE))
     else fdt d = fdt p \<and> L' = lk_release (pid p) L)"
proof -
  obtain x p1 where N: "p_new (Pathfile LOCKFILE) p = (x, p1)" by fastforce
  obtain fd where x: "x = Inr fd" using assms N by (cases x) (auto simp: already_running_def)
  note n = p_new_effect [OF N, unfolded x sum.case]
  obtain e p2 L2 where K: "lockfile p1 L = (e, p2, L2)" by (metis prod_cases3)
  note k = lockfile_effect [OF K]
  have pid1: "pid p1 = pid p" using n by (simp add: same_def)
  show ?thesis
  proof (cases e)
    case (Some a)
    then have r: "r = 1" "d = p_close fd p2" "L' = lk_release (pid p) L2" using assms N K x by (auto simp: already_running_def split: if_splits)
    have "fdt d = fdt p" using n k(1) r(2) by (auto simp: same_def p_close_def)
    then show ?thesis using r n k Some by (simp add: same_def p_close_def)
  next
    case None
    obtain t p3 where t: "p_call p2 = (t, p3)" by fastforce
    obtain w p4 where w: "p_call p3 = (w, p4)" by fastforce
    have r: "r = 0" "d = p4" "lk_owner L' = lk_owner L2"
      using assms N K x None t w by (auto simp: already_running_def Let_def split: if_splits)
    have "same (p\<lparr>fdt := (fdt p)(fd \<mapsto> Pathfile LOCKFILE)\<rparr>) d"
      using n k(1) p_call_same [OF t] p_call_same [OF w] r(2) by (auto simp: same_def)
    then show ?thesis using r(1,3) n k(2) None pid1 by (auto simp: same_def)
  qed
qed

lemma daemon_start_effect:
  assumes "daemon_start rl (Inr c1) (Inr c2) p L = Inr (r, d, L')" "fst c1 \<noteq> fst c2"
  shows "pid d = fst c2 \<and> detached d \<and> (if r = 0 then lk_owner L \<in> {None, Some (fst c2)} \<and> lk_owner L' = Some (fst c2) else L' = lk_release (fst c2) L)"
proof -
  obtain q where q: "daemonize rl (Inr c1) (Inr c2) p = Inr q" "already_running q L = Inr (r, d, L')"
    using assms(1) by (auto simp: daemon_start_def bnd_eq_Inr_iff)
  have e: "pid q = fst c2" "sid q = fst c1" "ctty q = None" "cwd q = ''/''" "cmask q = 0" "hup_ign q" "\<And>i. i < 3 \<Longrightarrow> fdt q i = Some Null"
    using daemonize_effect [OF q(1)] by auto
  note a = already_running_effect [OF q(2)]
  have "fdt d i = Some Null" if "i < 3" for i using a e(7) [OF that] by auto
  then have "detached d" using a e assms(2) by (simp add: detached_def leader_def)
  then show ?thesis using a e(1) by (cases "r = 0") auto
qed

lemma dstep_inv:
  assumes "dstep s t" "dsys_inv s"
  shows "dsys_inv t"
  using assms(1)
proof cases
  case (start rl c1 c2 p r d L)
  note e = daemon_start_effect [OF start(2,3)]
  show ?thesis
  proof (cases "r = 0")
    case True
    have "lk_owner (lk s) = None \<or> lk_owner (lk s) = Some (fst c2)" using e True by simp
    then have "running s k = None" for k using assms(2) start(4) unfolding dsys_inv_def by (cases "running s k") force+
    then show ?thesis using start(1) e True by (auto simp: dsys_inv_def)
  next
    case False
    have "k \<noteq> fst c2" if "running s k = Some x" for k x using start(4) that by auto
    then show ?thesis using start(1) e False assms(2) by (auto simp: dsys_inv_def lk_release_def)
  qed
next
  case (stop k d)
  then have "lk_owner (lk s) = Some k" using assms(2) by (simp add: dsys_inv_def)
  then have "j = k" if "running s j = Some e" for j e using that assms(2) by (auto simp: dsys_inv_def)
  then have "running t j = None" for j using stop(1) by (cases "running s j") auto
  then show ?thesis by (simp add: dsys_inv_def)
qed

lemma dreach_inv: "dreach s0 s \<Longrightarrow> dsys_inv s0 \<Longrightarrow> dsys_inv s"
  by (induction rule: dreach.induct) (auto intro: dstep_inv)

text \<open>
  C12: Daemons run one at a time. Whenever daemons are started, from any process and with any failures, and end, at most one is past \<^verbatim>\<open>already_running\<close>, and it
  holds the lock. It has \<^verbatim>\<open>/dev/null\<close> as its three standard files, no controlling terminal, and leads no session, so that opening a terminal does not give it
  one; its directory is the root. A daemon that is started while another one runs, with no call failing, finds out that it does, and keeps no descriptor.
\<close>

theorem daemon_runs_once:
  assumes "dreach s0 s" "\<And>k. running s0 k = None" "running s j = Some d"
  shows "(\<forall>k e. running s k = Some e \<longrightarrow> k = j) \<and> lk_owner (lk s) = Some j \<and> pid d = j \<and>
    (\<forall>i < 3. fdt d i = Some Null) \<and> (\<forall>t. acquire t d = d) \<and> ctty d = None \<and> cwd d = ''/'' \<and> hup_ign d \<and>
    (\<forall>q. calm q \<longrightarrow> pid q \<noteq> j \<longrightarrow> lowest q \<noteq> None \<longrightarrow> (\<exists>q'. already_running q (lk s) = Inr (1, q', lk s) \<and> fdt q' = fdt q))"
proof -
  have "dsys_inv s0" using assms(2) by (simp add: dsys_inv_def)
  then have I: "dsys_inv s" using dreach_inv assms(1) by blast
  then have o: "lk_owner (lk s) = Some j" "pid d = j" "detached d" using assms(3) by (auto simp: dsys_inv_def)
  have "k = j" if "running s k = Some e" for k e using I o(1) that by (auto simp: dsys_inv_def)
  moreover have "acquire t d = d" for t using o(3) by (simp add: acquire_def detached_def)
  moreover have "\<exists>q'. already_running q (lk s) = Inr (1, q', lk s) \<and> fdt q' = fdt q"
    if q: "calm q" "pid q \<noteq> j" "lowest q \<noteq> None" for q
  proof -
    obtain fd p1 where n: "p_new (Pathfile LOCKFILE) q = (Inr fd, p1)" "calm p1" using calm_new [OF q(1,3)] by metis
    have s1: "same (q\<lparr>fdt := (fdt q)(fd \<mapsto> Pathfile LOCKFILE)\<rparr>) p1" using p_new_effect [OF n(1)] by simp
    obtain p2 where p2: "p_call p1 = (None, p2)" using calm_call [OF n(2)] by blast
    have "lockfile p1 (lk s) = (Some EAGAIN, p2\<lparr>err := EAGAIN\<rparr>, lk s)" using p2 o(1) q(2) s1 by (simp add: lockfile_def same_def)
    then have a: "already_running q (lk s) = Inr (1, p_close fd (p2\<lparr>err := EAGAIN\<rparr>), lk_release (pid q) (lk s))"
      using n(1) by (simp add: already_running_def)
    moreover have "lk_release (pid q) (lk s) = lk s" using o(1) q(2) by (simp add: lk_release_def)
    ultimately show ?thesis using already_running_effect [OF a] by simp
  qed
  ultimately show ?thesis using o by (auto simp: detached_def)
qed

definition shell_modes :: termios where
  "shell_modes = \<lparr>c_iflag = 0x500, c_oflag = 0x5, c_cflag = 0xBF, c_lflag = 0x8A3B, c_cc = (\<lambda>_. 0)\<rparr>"

definition shell_proc :: process where
  "shell_proc = \<lparr>fdt = [0 \<mapsto> Slave 7, 1 \<mapsto> Slave 7, 2 \<mapsto> Slave 7], fdlim = 8, pid = 100, sid = 90, ctty = Some 7, ans = [], err = ENONE,
     tmodes = (\<lambda>_. shell_modes), tsizes = (\<lambda>_. 0), cwd = ''/home'', cmask = 0x12, hup_ign = False\<rparr>"

definition no_daemons :: dsys where
  "no_daemons = \<lparr>running = (\<lambda>_. None), lk = \<lparr>lk_owner = None, lk_data = []\<rparr>\<rparr>"

theorem daemon_runs_once_witness:
  "\<exists>s d q'. dreach no_daemons s \<and> running s 102 = Some d \<and> fdt d 0 = Some Null \<and> ctty d = None \<and>
     already_running shell_proc (lk s) = Inr (1, q', lk s) \<and> fdt q' = fdt shell_proc"
proof -
  let ?f = "daemon_start (Some 8) (Inr (101, [])) (Inr (102, [])) shell_proc (lk no_daemons)"
  have "case ?f of Inl _ \<Rightarrow> False | Inr x \<Rightarrow> fst x = 0" by code_simp
  then obtain d L where f: "?f = Inr (0, d, L)" by (auto split: sum.splits)
  define s where "s = no_daemons\<lparr>running := (running no_daemons)(102 \<mapsto> d), lk := L\<rparr>"
  have "dstep no_daemons s" using dstep.start [OF f] by (simp add: s_def no_daemons_def)
  then have r: "dreach no_daemons s" using dreach.intros by blast
  have q: "calm shell_proc" "pid shell_proc \<noteq> 102" "lowest shell_proc \<noteq> None"
    by (simp add: calm_def shell_proc_def, simp add: shell_proc_def, code_simp)
  have n: "running no_daemons k = None" for k by (simp add: no_daemons_def)
  have j: "running s 102 = Some d" by (simp add: s_def)
  show ?thesis using daemon_runs_once [OF r n j] r j q by (metis zero_less_numeral)
qed

end
