(* ===== verification/Unix_Sockets.thy ===== *)
theory Unix_Sockets
  imports Prelude
begin

unbundle bit_operations_syntax

text \<open>
  Connections over local sockets (\<^verbatim>\<open>lib/servlisten.c\<close>, \<^verbatim>\<open>lib/cliconn.c\<close>, \<^verbatim>\<open>lib/servaccept.c\<close>, \<^verbatim>\<open>sockets/initsrv2.c\<close>), by which the
  open server learns who its clients are: a client binds its socket to a name that only it can have made, and the
  server looks at the file of that name. The names of the file system and the listening sockets are shared, each process has its own
  descriptors and a list of answers that makes any of its calls fail.
\<close>

section \<open>Sockets in the kernel\<close>

record inode =
  i_sock :: bool
  i_mode :: "32 word"
  i_uid :: int
  i_atime :: int
  i_ctime :: int
  i_mtime :: int

text \<open>\<open>backlog n\<close>: the names of the clients waiting at a listening socket of name \<open>n\<close>; \<open>addr_nul\<close>: the kernel counts the null byte in an address.\<close>

record net =
  names :: "string \<Rightarrow> inode option"
  backlog :: "string \<Rightarrow> string list option"
  addr_nul :: bool

text \<open>A process: its descriptors, the names they are bound to, its user and process number, the time, and the errors its next calls give.\<close>

record uproc =
  ufds :: "nat set"
  ubound :: "nat \<Rightarrow> string option"
  uuid :: int
  upid :: int
  uumask :: "32 word"
  unow :: int
  uerr :: errno
  uans :: "errno option list"

definition SUN_PATH :: nat where "SUN_PATH = 108"
definition S_IRWXU :: "32 word" where "S_IRWXU = 0x1C0"
definition S_IRWXG :: "32 word" where "S_IRWXG = 0x38"
definition S_IRWXO :: "32 word" where "S_IRWXO = 0x7"
definition ENAMETOOLONG :: errno where "ENAMETOOLONG = EOTHER 36"
definition EADDRINUSE :: errno where "EADDRINUSE = EOTHER 98"
definition ECONNREFUSED :: errno where "ECONNREFUSED = EOTHER 111"

text \<open>A call that may fail: the next answer, and what the call itself decides.\<close>

definition sys :: "uproc \<Rightarrow> errno option \<Rightarrow> errno option \<times> uproc" where
  "sys p own =
     (case uans p of
        Some e # r \<Rightarrow> (Some e, p\<lparr>uans := r, uerr := e\<rparr>)
      | None # r \<Rightarrow> (case own of None \<Rightarrow> (None, p\<lparr>uans := r\<rparr>) | Some e \<Rightarrow> (Some e, p\<lparr>uans := r, uerr := e\<rparr>))
      | [] \<Rightarrow> (case own of None \<Rightarrow> (None, p) | Some e \<Rightarrow> (Some e, p\<lparr>uerr := e\<rparr>)))"

definition k_socket :: "nat \<Rightarrow> uproc \<Rightarrow> errno option \<times> uproc" where
  "k_socket fd p = (case sys p None of (None, p') \<Rightarrow> (None, p'\<lparr>ufds := insert fd (ufds p')\<rparr>) | (Some e, p') \<Rightarrow> (Some e, p'))"

definition k_close :: "nat \<Rightarrow> uproc \<Rightarrow> uproc" where
  "k_close fd p = p\<lparr>ufds := ufds p - {fd}, ubound := (ubound p)(fd := None)\<rparr>"

text \<open>\<^verbatim>\<open>unlink\<close>, whose result the code never looks at. A listening socket stays, but can no longer be found.\<close>

definition k_unlink :: "string \<Rightarrow> uproc \<Rightarrow> net \<Rightarrow> uproc \<times> net" where
  "k_unlink nm p n =
     (case sys p (if names n nm = None then Some ENOENT else None) of
        (None, p') \<Rightarrow> (p', n\<lparr>names := (names n)(nm := None), backlog := (backlog n)(nm := None)\<rparr>)
      | (Some e, p') \<Rightarrow> (p', n))"

definition k_bind :: "nat \<Rightarrow> string \<Rightarrow> uproc \<Rightarrow> net \<Rightarrow> errno option \<times> uproc \<times> net" where
  "k_bind fd nm p n =
     (case sys p (if names n nm \<noteq> None then Some EADDRINUSE else None) of
        (None, p') \<Rightarrow>
          (None, p'\<lparr>ubound := (ubound p')(fd \<mapsto> nm)\<rparr>,
           n\<lparr>names := (names n)(nm \<mapsto> \<lparr>i_sock = True, i_mode = 0x1FF AND NOT (uumask p'), i_uid = uuid p', i_atime = unow p', i_ctime = unow p', i_mtime = unow p'\<rparr>)\<rparr>)
      | (Some e, p') \<Rightarrow> (Some e, p', n))"

definition k_listen :: "nat \<Rightarrow> uproc \<Rightarrow> net \<Rightarrow> errno option \<times> uproc \<times> net" where
  "k_listen fd p n =
     (case sys p None of
        (None, p') \<Rightarrow> (None, p', case ubound p' fd of None \<Rightarrow> n | Some nm \<Rightarrow> n\<lparr>backlog := (backlog n)(nm \<mapsto> [])\<rparr>)
      | (Some e, p') \<Rightarrow> (Some e, p', n))"

definition k_chmod :: "string \<Rightarrow> 32 word \<Rightarrow> uproc \<Rightarrow> net \<Rightarrow> errno option \<times> uproc \<times> net" where
  "k_chmod nm m p n =
     (case names n nm of
        None \<Rightarrow> (case sys p (Some ENOENT) of (_, p') \<Rightarrow> (Some ENOENT, p', n))
      | Some i \<Rightarrow>
          (case sys p None of
             (None, p') \<Rightarrow> (None, p', n\<lparr>names := (names n)(nm \<mapsto> i\<lparr>i_mode := m, i_ctime := unow p'\<rparr>)\<rparr>)
           | (Some e, p') \<Rightarrow> (Some e, p', n)))"

definition k_connect :: "nat \<Rightarrow> string \<Rightarrow> uproc \<Rightarrow> net \<Rightarrow> errno option \<times> uproc \<times> net" where
  "k_connect fd nm p n =
     (case sys p (if names n nm = None then Some ENOENT else if backlog n nm = None then Some ECONNREFUSED else None) of
        (None, p') \<Rightarrow> (None, p', n\<lparr>backlog := (backlog n)(nm \<mapsto> the (backlog n nm) @ [case ubound p' fd of None \<Rightarrow> [] | Some b \<Rightarrow> b])\<rparr>)
      | (Some e, p') \<Rightarrow> (Some e, p', n))"

text \<open>\<^verbatim>\<open>accept\<close> on a socket bound to \<open>lname\<close> with somebody waiting: the name of the client.\<close>

definition k_accept :: "string \<Rightarrow> nat \<Rightarrow> uproc \<Rightarrow> net \<Rightarrow> (errno + string) \<times> uproc \<times> net" where
  "k_accept lname fd p n =
     (case backlog n lname of
        Some (c # q) \<Rightarrow>
          (case sys p None of
             (None, p') \<Rightarrow> (Inr c, p'\<lparr>ufds := insert fd (ufds p')\<rparr>, n\<lparr>backlog := (backlog n)(lname \<mapsto> q)\<rparr>)
           | (Some e, p') \<Rightarrow> (Inl e, p', n))
      | _ \<Rightarrow> (Inl EINTR, p\<lparr>uerr := EINTR\<rparr>, n))"

section \<open>The functions\<close>

text \<open>\<open>fd\<close> is the descriptor that the kernel gives.\<close>

definition serv_listen :: "nat \<Rightarrow> string \<Rightarrow> uproc \<Rightarrow> net \<Rightarrow> int \<times> uproc \<times> net" where
  "serv_listen fd name p n =
     (if SUN_PATH \<le> length name then (-1, p\<lparr>uerr := ENAMETOOLONG\<rparr>, n)
      else case k_socket fd p of
        (Some e, p1) \<Rightarrow> (-2, p1, n)
      | (None, p1) \<Rightarrow>
          (case k_unlink name p1 n of (p2, n2) \<Rightarrow>
             case k_bind fd name p2 n2 of
               (Some e, p3, n3) \<Rightarrow> (-3, k_close fd p3, n3)
             | (None, p3, n3) \<Rightarrow>
                 (case k_listen fd p3 n3 of
                    (Some e, p4, n4) \<Rightarrow> (-4, k_close fd p4, n4)
                  | (None, p4, n4) \<Rightarrow> (int fd, p4, n4))))"

text \<open>\<^verbatim>\<open>sprintf\<close> with \<^verbatim>\<open>%s%05ld\<close>.\<close>

definition pad5 :: "string \<Rightarrow> string" where
  "pad5 s = replicate (5 - length s) (CHR ''0'') @ s"

definition CLI_PATH :: string where "CLI_PATH = ''/var/tmp/''"

definition cli_name :: "uproc \<Rightarrow> string" where
  "cli_name p = CLI_PATH @ pad5 (dec (nat (upid p)))"

definition cli_conn :: "nat \<Rightarrow> string \<Rightarrow> uproc \<Rightarrow> net \<Rightarrow> int \<times> uproc \<times> net" where
  "cli_conn fd name p n =
     (if SUN_PATH \<le> length name then (-1, p\<lparr>uerr := ENAMETOOLONG\<rparr>, n)
      else case k_socket fd p of
        (Some e, p1) \<Rightarrow> (-1, p1, n)
      | (None, p1) \<Rightarrow>
          let path = cli_name p
          in case k_unlink path p1 n of (p2, n2) \<Rightarrow>
             case k_bind fd path p2 n2 of
               (Some e, p3, n3) \<Rightarrow> (-2, (k_close fd p3)\<lparr>uerr := e\<rparr>, n3)
             | (None, p3, n3) \<Rightarrow>
                 (case k_chmod path S_IRWXU p3 n3 of
                    (Some e, p4, n4) \<Rightarrow> (case k_unlink path (k_close fd p4) n4 of (p5, n5) \<Rightarrow> (-3, p5\<lparr>uerr := e\<rparr>, n5))
                  | (None, p4, n4) \<Rightarrow>
                      (case k_connect fd name p4 n4 of
                         (Some e, p5, n5) \<Rightarrow> (case k_unlink path (k_close fd p5) n5 of (p6, n6) \<Rightarrow> (-4, p6\<lparr>uerr := e\<rparr>, n6))
                       | (None, p5, n5) \<Rightarrow> (int fd, p5, n5))))"

definition STALE :: int where "STALE = 30"

text \<open>
  \<open>room\<close> is the number of bytes that \<^verbatim>\<open>malloc\<close> gave for the name: none when it fails. What is asked for is the
  size of a pointer, because \<^verbatim>\<open>sizeof\<close> is applied to \<^verbatim>\<open>un.sun_path + 1\<close>.
\<close>

definition name_request :: nat where "name_request = 8"

text \<open>The bytes of the address of a client with name \<open>c\<close>, none if it has no name.\<close>

definition sun_addr :: "net \<Rightarrow> string \<Rightarrow> string" where
  "sun_addr n c = (if c \<noteq> [] \<and> addr_nul n then c @ [NUL] else c)"

text \<open>The checks of lines 43 to 61, as the value that is returned when one fails, and 0 otherwise.\<close>

definition stat_verdict :: "inode \<Rightarrow> int \<Rightarrow> int" where
  "stat_verdict st staletime =
     (if \<not> i_sock st then -4
      else if i_mode st AND (S_IRWXG OR S_IRWXO) \<noteq> 0 \<or> i_mode st AND S_IRWXU \<noteq> S_IRWXU then -5
      else if i_atime st < staletime \<or> i_ctime st < staletime \<or> i_mtime st < staletime then -6
      else 0)"

text \<open>Lines 38 to 75, once the connection is accepted and the name is known.\<close>

definition accept_named :: "string \<Rightarrow> nat \<Rightarrow> uproc \<Rightarrow> net \<Rightarrow> int \<times> int option \<times> uproc \<times> net" where
  "accept_named name fd p n =
     (case sys p (if names n name = None then Some ENOENT else None) of
        (Some e, p2) \<Rightarrow> (-3, None, k_close fd p2, n)
      | (None, p2) \<Rightarrow>
          let st = the (names n name); v = stat_verdict st (unow p2 - STALE)
          in if v < 0 then (v, None, k_close fd p2, n)
             else case k_unlink name p2 n of (p3, n3) \<Rightarrow> (int fd, Some (i_uid st), p3, n3))"

definition serv_accept :: "nat option \<Rightarrow> string \<Rightarrow> nat \<Rightarrow> uproc \<Rightarrow> net \<Rightarrow> (int \<times> int option \<times> uproc \<times> net) res" where
  "serv_accept room lname fd p n =
     (case room of
        None \<Rightarrow> Inr (-1, None, p\<lparr>uerr := ENOMEM\<rparr>, n)
      | Some m \<Rightarrow>
          (case k_accept lname fd p n of
             (Inl e, p1, n1) \<Rightarrow> Inr (-2, None, p1, n1)
           | (Inr c, p1, n1) \<Rightarrow>
               let addr = sun_addr n1 c
               in if m < length addr + 1 then Inl (Undefined ''name'') else Inr (accept_named (cstr addr) fd p1 n1)))"

section \<open>Routines that give a descriptor\<close>

text \<open>
  What the callers of such a routine rely on: it returns the descriptor it was given by the kernel and opens only that, or it
  fails and leaves no descriptor behind. The number of descriptors then only grows by the calls that succeed.
\<close>

locale fd_source =
  fixes run :: "'a \<Rightarrow> nat \<Rightarrow> 's \<Rightarrow> int \<times> 's" and fds :: "'s \<Rightarrow> nat set"
  assumes ok: "run a fd s = (r, s') \<Longrightarrow> fd \<notin> fds s \<Longrightarrow> 0 \<le> r \<Longrightarrow> r = int fd \<and> fds s' = insert fd (fds s)"
    and fails: "run a fd s = (r, s') \<Longrightarrow> fd \<notin> fds s \<Longrightarrow> r < 0 \<Longrightarrow> fds s' = fds s"
begin

fun calls :: "('a \<times> nat) list \<Rightarrow> 's \<Rightarrow> int list \<times> 's" where
  "calls [] s = ([], s)"
| "calls ((a, fd) # cs) s = (case run a fd s of (r, s') \<Rightarrow> case calls cs s' of (rs, t) \<Rightarrow> (r # rs, t))"

lemma calls_fds:
  assumes "distinct (map snd cs)" "\<forall>c \<in> set cs. snd c \<notin> fds s" "calls cs s = (rs, t)"
  shows "fds t = fds s \<union> {fd. int fd \<in> set rs}"
  using assms
proof (induction cs arbitrary: s rs)
  case (Cons c cs)
  obtain a fd r s1 rs1 where c: "c = (a, fd)" "run a fd s = (r, s1)" "calls cs s1 = (rs1, t)" "rs = r # rs1"
    using Cons.prems(3) by (cases c) (auto split: prod.splits)
  have new: "fd \<notin> fds s" "distinct (map snd cs)" "\<forall>c \<in> set cs. snd c \<noteq> fd \<and> snd c \<notin> fds s"
    using Cons.prems(1,2) c(1) by (auto simp: image_iff)
  show ?case
  proof (cases "0 \<le> r")
    case True
    from ok [OF c(2) new(1) this] have s1: "r = int fd" "fds s1 = insert fd (fds s)" by auto
    then have "fds t = fds s1 \<union> {fd. int fd \<in> set rs1}" using Cons.IH [OF new(2) _ c(3)] new(3) by auto
    then show ?thesis using s1 c(4) by auto
  next
    case False
    from fails [OF c(2) new(1)] False have s1: "fds s1 = fds s" by simp
    then have "fds t = fds s1 \<union> {fd. int fd \<in> set rs1}" using Cons.IH [OF new(2) _ c(3)] new(3) by auto
    then show ?thesis using s1 c(4) False by auto
  qed
qed simp

end

lemma sys_fds: "sys p own = (r, p') \<Longrightarrow> ufds p' = ufds p \<and> ubound p' = ubound p \<and> uuid p' = uuid p \<and> unow p' = unow p \<and> upid p' = upid p"
  by (auto simp: sys_def split: list.splits option.splits)

lemmas call_defs = k_socket_def k_unlink_def k_bind_def k_listen_def k_chmod_def k_connect_def k_close_def

lemma call_fds:
  "k_socket fd p = (r, p') \<Longrightarrow> ufds p' = (if r = None then insert fd (ufds p) else ufds p)"
  "k_unlink nm p n = (p', n') \<Longrightarrow> ufds p' = ufds p"
  "k_bind fd nm p n = (r, p', n') \<Longrightarrow> ufds p' = ufds p"
  "k_listen fd p n = (r, p', n') \<Longrightarrow> ufds p' = ufds p"
  "k_chmod nm m p n = (r, p', n') \<Longrightarrow> ufds p' = ufds p"
  "k_connect fd nm p n = (r, p', n') \<Longrightarrow> ufds p' = ufds p"
  "ufds (k_close fd p) = ufds p - {fd}"
  by (auto simp: call_defs dest: sys_fds split: prod.splits option.splits)

interpretation sl: fd_source "\<lambda>name fd (p, n). serv_listen fd name p n" "\<lambda>(p, n). ufds p"
  by unfold_locales
    (auto simp: serv_listen_def call_fds dest!: call_fds(1-6) split: prod.splits option.splits if_splits)

interpretation cc: fd_source "\<lambda>name fd (p, n). cli_conn fd name p n" "\<lambda>(p, n). ufds p"
  by unfold_locales
    (auto simp: cli_conn_def call_fds Let_def dest!: call_fds(1-6) split: prod.splits option.splits if_splits)

text \<open>After undefined behaviour \<^verbatim>\<open>serv_accept\<close> makes no promise; the contract is about the other calls.\<close>

lemma accept_named_fds:
  assumes "accept_named name fd p n = (r, u, p', n')"
  shows "r = int fd \<and> ufds p' = ufds p \<or> r < 0 \<and> ufds p' = ufds p - {fd}"
proof -
  obtain e p2 where S: "sys p (if names n name = None then Some ENOENT else None) = (e, p2)" by fastforce
  obtain p3 n3 where U: "k_unlink name p2 n = (p3, n3)" by fastforce
  have "ufds p2 = ufds p" "ufds p3 = ufds p2" using sys_fds [OF S] call_fds(2) [OF U] by auto
  then show ?thesis using assms S U by (cases e) (auto simp: accept_named_def call_fds(7) Let_def split: if_splits)
qed

lemma serv_accept_fds:
  assumes "serv_accept (Some m) lname fd p n = Inr (r, u, p', n')" "fd \<notin> ufds p"
  shows "r = int fd \<and> ufds p' = insert fd (ufds p) \<or> r < 0 \<and> ufds p' = ufds p"
proof -
  obtain x p1 n1 where A: "k_accept lname fd p n = (x, p1, n1)" by (cases "k_accept lname fd p n") auto
  then have a: "ufds p1 = (case x of Inl e \<Rightarrow> ufds p | Inr c \<Rightarrow> insert fd (ufds p))"
    by (auto simp: k_accept_def dest: sys_fds split: prod.splits option.splits list.splits)
  show ?thesis
  proof (cases x)
    case (Inl e)
    then show ?thesis using assms(1) A a by (auto simp: serv_accept_def)
  next
    case (Inr c)
    then have "accept_named (cstr (sun_addr n1 c)) fd p1 n1 = (r, u, p', n')" using assms(1) A by (simp add: serv_accept_def Let_def split: if_splits)
    from accept_named_fds [OF this] show ?thesis using a Inr assms(2) by auto
  qed
qed

definition accept_run :: "nat \<times> string \<Rightarrow> nat \<Rightarrow> uproc \<times> net \<Rightarrow> int \<times> uproc \<times> net" where
  "accept_run a fd s = (case serv_accept (Some (fst a)) (snd a) fd (fst s) (snd s) of Inl e \<Rightarrow> (-1, s) | Inr (r, u, s') \<Rightarrow> (r, s'))"

lemma accept_run_fds:
  assumes "accept_run a fd s = (r, s')" "fd \<notin> ufds (fst s)"
  shows "r = int fd \<and> ufds (fst s') = insert fd (ufds (fst s)) \<or> r < 0 \<and> ufds (fst s') = ufds (fst s)"
proof (cases "serv_accept (Some (fst a)) (snd a) fd (fst s) (snd s)")
  case (Inr x)
  obtain r' u p' n' where x: "x = (r', u, p', n')" by (cases x) auto
  then have "r = r' \<and> s' = (p', n')" using assms(1) Inr by (simp add: accept_run_def)
  then show ?thesis using serv_accept_fds [OF Inr [unfolded x] assms(2)] by auto
qed (use assms(1) in \<open>simp add: accept_run_def\<close>)

interpretation sa: fd_source accept_run "\<lambda>s. ufds (fst s)"
  by unfold_locales (auto dest: accept_run_fds)

section \<open>A socket for a service\<close>

text \<open>\<^verbatim>\<open>initserver\<close>: \<open>stream\<close> says whether the type is one with connections. The address is bound without a name in the file system.\<close>

definition initserver :: "bool \<Rightarrow> nat \<Rightarrow> uproc \<Rightarrow> int \<times> uproc" where
  "initserver stream fd p =
     (let errout = (\<lambda>e q. (-1, (k_close fd q)\<lparr>uerr := e\<rparr>))
      in case k_socket fd p of
        (Some e, p1) \<Rightarrow> (-1, p1)
      | (None, p1) \<Rightarrow>
          (case sys p1 None of
             (Some e, p2) \<Rightarrow> errout e p2
           | (None, p2) \<Rightarrow>
               (case sys p2 None of
                  (Some e, p3) \<Rightarrow> errout e p3
                | (None, p3) \<Rightarrow>
                    if \<not> stream then (int fd, p3)
                    else case sys p3 None of (Some e, p4) \<Rightarrow> errout e p4 | (None, p4) \<Rightarrow> (int fd, p4))))"

interpretation si: fd_source initserver ufds
  by unfold_locales
    (auto simp: initserver_def call_fds Let_def dest!: call_fds(1) sys_fds split: prod.splits option.splits if_splits)

section \<open>Who the client is\<close>

text \<open>What a client leaves behind when it has connected.\<close>

lemma cli_conn_connected:
  assumes "cli_conn fd name p n = (r, p', n')" "0 \<le> r" "name \<noteq> cli_name p"
  shows "backlog n name \<noteq> None" "backlog n' name = Some (the (backlog n name) @ [cli_name p])" "addr_nul n' = addr_nul n"
    "names n' (cli_name p) = Some \<lparr>i_sock = True, i_mode = S_IRWXU, i_uid = uuid p, i_atime = unow p, i_ctime = unow p, i_mtime = unow p\<rparr>"
proof -
  have len: "\<not> SUN_PATH \<le> length name" using assms(1,2) by (auto simp: cli_conn_def)
  obtain e1 p1 where 1: "k_socket fd p = (e1, p1)" by fastforce
  obtain p2 n2 where 2: "k_unlink (cli_name p) p1 n = (p2, n2)" by fastforce
  obtain e3 p3 n3 where 3: "k_bind fd (cli_name p) p2 n2 = (e3, p3, n3)" by (metis prod_cases3)
  obtain e4 p4 n4 where 4: "k_chmod (cli_name p) S_IRWXU p3 n3 = (e4, p4, n4)" by (metis prod_cases3)
  obtain e5 p5 n5 where 5: "k_connect fd name p4 n4 = (e5, p5, n5)" by (metis prod_cases3)
  have e: "e1 = None" "e3 = None" "e4 = None" "e5 = None" "n' = n5"
    using assms(1,2) len 1 2 3 4 5 by (cases e1; cases e3; cases e4; cases e5; simp add: cli_conn_def Let_def case_prod_beta; fail)+
  have s1: "uuid p1 = uuid p" "unow p1 = unow p" using 1 by (auto simp: k_socket_def dest!: sys_fds split: prod.splits option.splits)
  have s2: "uuid p2 = uuid p" "unow p2 = unow p" "backlog n2 name = backlog n name" "addr_nul n2 = addr_nul n"
    using 2 s1 assms(3) by (auto simp: k_unlink_def dest!: sys_fds split: prod.splits option.splits)
  have s3: "unow p3 = unow p" "ubound p3 fd = Some (cli_name p)" "backlog n3 = backlog n2" "addr_nul n3 = addr_nul n2"
    "names n3 (cli_name p) = Some \<lparr>i_sock = True, i_mode = 0x1FF AND NOT (uumask p3), i_uid = uuid p, i_atime = unow p, i_ctime = unow p, i_mtime = unow p\<rparr>"
    using 3 s2 e(2) by (auto simp: k_bind_def dest!: sys_fds split: prod.splits option.splits)
  have s4: "ubound p4 fd = Some (cli_name p)" "backlog n4 = backlog n2" "addr_nul n4 = addr_nul n2"
    "names n4 (cli_name p) = Some \<lparr>i_sock = True, i_mode = S_IRWXU, i_uid = uuid p, i_atime = unow p, i_ctime = unow p, i_mtime = unow p\<rparr>"
    using 4 s3 e(3) by (auto simp: k_chmod_def dest!: sys_fds split: prod.splits option.splits)
  have own: "\<not> (names n4 name = None \<or> backlog n4 name = None)"
    using 5 e(4) by (auto simp: k_connect_def sys_def split: prod.splits option.splits list.splits if_splits)
  then have s5: "n5 = n4\<lparr>backlog := (backlog n4)(name \<mapsto> the (backlog n4 name) @ [cli_name p])\<rparr>"
    using 5 e(4) s4(1) by (auto simp: k_connect_def dest!: sys_fds split: prod.splits option.splits)
  show "backlog n name \<noteq> None" using own s4(2) s2(3) by simp
  show "backlog n' name = Some (the (backlog n name) @ [cli_name p])" "addr_nul n' = addr_nul n"
    "names n' (cli_name p) = Some \<lparr>i_sock = True, i_mode = S_IRWXU, i_uid = uuid p, i_atime = unow p, i_ctime = unow p, i_mtime = unow p\<rparr>"
    using e(5) s5 s4 s2(3,4) by simp_all
qed

lemma is_cstr_cli_name: "is_cstr (cli_name p)" and cli_name_long: "14 \<le> length (cli_name p)"
proof -
  have "is_cstr (replicate k (CHR ''0''))" for k by (induction k) auto
  then show "is_cstr (cli_name p)" by (simp add: cli_name_def pad5_def CLI_PATH_def)
  show "14 \<le> length (cli_name p)" by (simp add: cli_name_def pad5_def CLI_PATH_def)
qed

lemma stat_verdict_client:
  "t \<le> now \<Longrightarrow> stat_verdict \<lparr>i_sock = True, i_mode = S_IRWXU, i_uid = u, i_atime = now, i_ctime = now, i_mtime = now\<rparr> t = 0"
  by (simp add: stat_verdict_def S_IRWXU_def S_IRWXG_def S_IRWXO_def)

lemma accept_client:
  assumes "backlog n lname = Some (c # q)" "c \<noteq> []" "is_cstr c" "uans p = []"
  shows "serv_accept (Some m) lname fd p n =
    (let p1 = p\<lparr>ufds := insert fd (ufds p)\<rparr>; n1 = n\<lparr>backlog := (backlog n)(lname \<mapsto> q)\<rparr>
     in if m < length (sun_addr n c) + 1 then Inl (Undefined ''name'')
        else case names n c of
          None \<Rightarrow> Inr (-3, None, k_close fd (p1\<lparr>uerr := ENOENT\<rparr>), n1)
        | Some st \<Rightarrow>
            let v = stat_verdict st (unow p - STALE)
            in if v < 0 then Inr (v, None, k_close fd p1, n1)
               else Inr (int fd, Some (i_uid st), p1, n1\<lparr>names := (names n)(c := None), backlog := (backlog n1)(c := None)\<rparr>))"
proof -
  have "cstr (sun_addr n c) = c" using assms(2,3) by (simp add: sun_addr_def)
  then show ?thesis using assms(1,4)
    by (cases "names n c") (simp_all add: serv_accept_def accept_named_def k_accept_def sys_def k_unlink_def sun_addr_def Let_def)
qed

text \<open>
  C9: A client that connects to a server with nobody waiting is known to the server by its user number: \<^verbatim>\<open>serv_accept\<close>
  returns the descriptor and the user of the client, whatever the calls of \<^verbatim>\<open>cli_conn\<close> met, and the name that the client made is gone. That is so
  when the clocks of the two processes are at most \<^verbatim>\<open>STALE\<close> seconds apart and the buffer for the name is large enough; with the buffer that the code asks
  for, the name of any client is written past its end.
\<close>

theorem client_identified:
  assumes "cli_conn cfd lname cp n = (r, cp', n')" "0 \<le> r" "lname \<noteq> cli_name cp" "backlog n lname = Some []"
    and "uans p = []" "unow p \<le> unow cp + STALE" "length (cli_name cp) + 2 \<le> m"
  shows "(\<exists>n''. serv_accept (Some m) lname fd p n' = Inr (int fd, Some (uuid cp), p\<lparr>ufds := insert fd (ufds p)\<rparr>, n'') \<and>
      names n'' (cli_name cp) = None \<and> backlog n'' lname = Some [] \<and> (\<forall>nm. nm \<noteq> cli_name cp \<longrightarrow> names n'' nm = names n' nm)) \<and>
    serv_accept (Some name_request) lname fd p n' = Inl (Undefined ''name'')"
proof -
  note c = cli_conn_connected [OF assms(1-3)]
  have q: "backlog n' lname = Some (cli_name cp # [])" using c(2) assms(4) by simp
  have l: "cli_name cp \<noteq> []" "length (sun_addr n' (cli_name cp)) + 1 \<le> m" "\<not> length (sun_addr n' (cli_name cp)) + 1 \<le> name_request"
    using cli_name_long [of cp] assms(7) by (auto simp: sun_addr_def name_request_def)
  note a = accept_client [OF q l(1) is_cstr_cli_name assms(5)]
  have v: "stat_verdict (the (names n' (cli_name cp))) (unow p - STALE) = 0"
    using assms(6) by (simp add: c(4) stat_verdict_client)
  have "serv_accept (Some name_request) lname fd p n' = Inl (Undefined ''name'')" using a [of name_request] l(3) by (simp add: Let_def)
  moreover have "\<exists>n''. serv_accept (Some m) lname fd p n' = Inr (int fd, Some (uuid cp), p\<lparr>ufds := insert fd (ufds p)\<rparr>, n'') \<and>
      names n'' (cli_name cp) = None \<and> backlog n'' lname = Some [] \<and> (\<forall>nm. nm \<noteq> cli_name cp \<longrightarrow> names n'' nm = names n' nm)"
    using a [of m] l(2) v c(4) assms(3) by (simp add: Let_def)
  ultimately show ?thesis by blast
qed

definition demo_user :: uproc where
  "demo_user = \<lparr>ufds = {0, 1, 2}, ubound = Map.empty, uuid = 205, upid = 1234, uumask = 0x12, unow = 1000, uerr = ENONE, uans = []\<rparr>"

definition demo_net :: net where
  "demo_net = \<lparr>names = [''/tmp/opend'' \<mapsto> \<lparr>i_sock = True, i_mode = 0x1ED, i_uid = 0, i_atime = 1, i_ctime = 1, i_mtime = 1\<rparr>],
     backlog = [''/tmp/opend'' \<mapsto> []], addr_nul = True\<rparr>"

theorem client_identified_witness:
  "\<exists>n''. serv_accept (Some 110) ''/tmp/opend'' 5 (demo_user\<lparr>uuid := 0\<rparr>) (snd (snd (cli_conn 3 ''/tmp/opend'' demo_user demo_net))) =
     Inr (5, Some 205, (demo_user\<lparr>uuid := 0\<rparr>)\<lparr>ufds := insert 5 {0, 1, 2}\<rparr>, n'')"
proof -
  have n: "cli_name demo_user = ''/var/tmp/01234''"
    by code_simp
  obtain cp' n' where c: "cli_conn 3 ''/tmp/opend'' demo_user demo_net = (3, cp', n')"
  proof -
    have "fst (cli_conn 3 ''/tmp/opend'' demo_user demo_net) = 3" by code_simp
    then show thesis using that by (cases "cli_conn 3 ''/tmp/opend'' demo_user demo_net") auto
  qed
  have "\<exists>n''. serv_accept (Some 110) ''/tmp/opend'' 5 (demo_user\<lparr>uuid := 0\<rparr>) n' =
      Inr (int 5, Some (uuid demo_user), (demo_user\<lparr>uuid := 0\<rparr>)\<lparr>ufds := insert 5 (ufds (demo_user\<lparr>uuid := 0\<rparr>))\<rparr>, n'') \<and>
      names n'' (cli_name demo_user) = None \<and> backlog n'' ''/tmp/opend'' = Some [] \<and> (\<forall>nm. nm \<noteq> cli_name demo_user \<longrightarrow> names n'' nm = names n' nm)"
    by (rule conjunct1 [OF client_identified [OF c]]) (simp_all only: n, simp_all add: demo_user_def demo_net_def STALE_def)
  then show ?thesis using c by (auto simp: demo_user_def)
qed

end
