(* ===== verification/Net_Process.thy ===== *)
theory Net_Process
  imports Processes Unix_Sockets
begin

text \<open>A server has descriptors that \<open>Processes\<close> is about and sockets that \<open>Unix_Sockets\<close> is about; this is how one gives the other.\<close>

text \<open>
  The same process as \<open>Unix_Sockets\<close> sees it: its descriptors, the answers to its calls; \<open>u\<close> is its user.
\<close>

definition net_view :: "int \<Rightarrow> process \<Rightarrow> uproc" where
  "net_view u p = \<lparr>ufds = set (filter (\<lambda>i. fdt p i \<noteq> None) [0..<fdlim p]), ubound = Map.empty, uuid = u, upid = int (pid p), uumask = cmask p, unow = 0,
     uerr = err p, uans = ans p\<rparr>"

lemma find_free: "find (\<lambda>i. i \<notin> S) [0..<lim] = Some fd \<Longrightarrow> fd \<notin> S"
  by (auto simp: find_Some_iff)

end
