(* ===== verification/Opend_Main.thy ===== *)
theory Opend_Main
  imports Opend_Poll Daemon Net_Process
begin

text \<open>
  The two programs around the open server: \<^verbatim>\<open>ipc2/opend/main.c\<close> up to its loop, and the client \<^verbatim>\<open>ipc2/open/main.c\<close>, which copies the files named on its standard input to its
  standard output.
\<close>

section \<open>The server\<close>

definition CS_OPEN :: string where "CS_OPEN = ''/tmp/opend.socket''"

text \<open>\<^verbatim>\<open>getopt\<close> with the option \<^verbatim>\<open>d\<close>: the first character that is no option, or whether \<^verbatim>\<open>d\<close> was given.\<close>

fun opend_opts :: "string list \<Rightarrow> bool \<Rightarrow> char + bool" where
  "opend_opts [] debug = Inr debug"
| "opend_opts (a # as) debug =
     (if a = ''--'' \<or> a = ''-'' \<or> a = [] \<or> hd a \<noteq> CHR ''-'' then Inr debug
      else case find (\<lambda>c. c \<noteq> CHR ''d'') (tl a) of Some c \<Rightarrow> Inl c | None \<Rightarrow> opend_opts as True)"

record opend_proc =
  o_proc :: process
  o_net :: uproc
  o_kernel :: net
  o_poll :: poll_array

text \<open>Up to the first call of \<^verbatim>\<open>poll\<close>; \<open>u\<close> is the user of the server.\<close>

definition opend_main :: "string list \<Rightarrow> nat option \<Rightarrow> forked \<Rightarrow> forked \<Rightarrow> int \<Rightarrow> net \<Rightarrow> process \<Rightarrow> opend_proc res" where
  "opend_main args rlim fk1 fk2 u n p =
     (case opend_opts args False of
        Inl c \<Rightarrow> Inl (Err_quit ''unrecognized option'')
      | Inr debug \<Rightarrow>
          bnd (if debug then Inr p else daemonize rlim fk1 fk2 p) (\<lambda>d.
          case lowest d of
            None \<Rightarrow> Inl (Err_sys ''serv_listen error'')
          | Some fd \<Rightarrow>
              (case serv_listen fd CS_OPEN (net_view u d) n of (listenfd, q, n') \<Rightarrow>
                 if listenfd < 0 then Inl (Err_sys ''serv_listen error'')
                 else bnd (array_init listenfd) (\<lambda>st. Inr \<lparr>o_proc = d, o_net = q, o_kernel = n', o_poll = st\<rparr>))))"

section \<open>The client\<close>

definition BUFFSIZE_open :: nat where "BUFFSIZE_open = 8192"
definition O_RDONLY :: int where "O_RDONLY = 0"

text \<open>The loop that copies a file, with what is written so far.\<close>

function cat_loop :: "rdev list \<Rightarrow> wrev list \<Rightarrow> string \<Rightarrow> (string \<times> wrev list) res" where
  "cat_loop inp w out =
     (case sys_read BUFFSIZE_open inp of
        (None, _) \<Rightarrow> Inl (Err_sys ''read error'')
      | (Some b, inp') \<Rightarrow>
          if b = [] then Inr (out, w)
          else case sys_write b w of
                 (None, _) \<Rightarrow> Inl (Err_sys ''write error'')
               | (Some k, w') \<Rightarrow> if k \<noteq> length b then Inl (Err_sys ''write error'') else cat_loop inp' w' (out @ b))"
  by pat_completeness auto
termination
  by (relation "measure (\<lambda>(inp, w, out). rdev_size inp)") (auto dest: sys_read_less [OF sym])

declare cat_loop.simps [simp del]

text \<open>The line without its newline; a line that starts with a null byte is looked at before its beginning.\<close>

definition chomp :: "string \<Rightarrow> string res" where
  "chomp line =
     (let s = cstr line
      in if s = [] then Inl (Undefined ''line[-1]'') else Inr (if last s = NL then butlast s else s))"

text \<open>
  The main loop over the standard input \<open>inp\<close>. For line number \<open>k\<close>, \<open>conn k\<close> is what \<^verbatim>\<open>cli_conn\<close> would return, \<open>srv k\<close> what comes back for a request, and \<open>content k fd\<close> what can be read
  from a descriptor that was received. The result: standard output and standard error.
\<close>

function open_main :: "(nat \<Rightarrow> int) \<Rightarrow> (nat \<Rightarrow> string \<Rightarrow> rcv list) \<Rightarrow> (nat \<Rightarrow> int \<Rightarrow> rdev list) \<Rightarrow> nat \<Rightarrow> string \<Rightarrow> int \<Rightarrow> wrev list \<Rightarrow> string \<Rightarrow> string
    \<Rightarrow> (string \<times> string) res" where
  "open_main conn srv content k inp csfd w out errs =
     (case fgets MAXLINE inp of
        None \<Rightarrow> Inr (out, errs)
      | Some (line, rest) \<Rightarrow>
          bnd (chomp line) (\<lambda>nm.
          bnd (csopen csfd (conn k) (srv k) nm O_RDONLY) (\<lambda>(fd, e, csfd').
            if fd < 0 then open_main conn srv content (Suc k) rest csfd' w out (errs @ e)
            else bnd (cat_loop (content k fd) w out) (\<lambda>(out', w').
                   open_main conn srv content (Suc k) rest csfd' w' out' (errs @ e)))))"
  by pat_completeness auto
termination
  by (relation "measure (\<lambda>(conn, srv, content, k, inp, csfd, w, out, errs). length inp)") (auto dest: fgets_progress simp: MAXLINE_def)

declare open_main.simps [simp del]

section \<open>What they do\<close>

text \<open>Writes that take all of a buffer.\<close>

definition takes_whole :: "wrev list \<Rightarrow> bool" where
  "takes_whole w \<longleftrightarrow> (\<forall>e \<in> set w. \<exists>k. e = WTake k \<and> BUFFSIZE_open \<le> k)"

lemma sys_write_whole: "takes_whole w \<Longrightarrow> length b \<le> BUFFSIZE_open \<Longrightarrow> \<exists>w'. sys_write b w = (Some (length b), w') \<and> takes_whole w'"
  by (cases w) (auto simp: takes_whole_def)

lemma cat_loop_copies:
  assumes "takes_whole w" "\<forall>e \<in> set inp. \<exists>s. e = RData s \<and> s \<noteq> []"
  shows "\<exists>w'. cat_loop inp w out = Inr (out @ avail inp, w') \<and> takes_whole w'"
  using assms
proof (induction "rdev_size inp" arbitrary: inp w out rule: less_induct)
  case less
  show ?case
  proof (cases inp)
    case Nil
    then show ?thesis using less.prems by (simp add: cat_loop.simps)
  next
    case (Cons e inp1)
    then obtain s where s: "e = RData s" "s \<noteq> []" using less.prems(2) by auto
    define b where "b = take BUFFSIZE_open s"
    define inp' where "inp' = (if length s \<le> BUFFSIZE_open then inp1 else RData (drop BUFFSIZE_open s) # inp1)"
    have r: "sys_read BUFFSIZE_open inp = (Some b, inp')" using Cons s by (simp add: b_def inp'_def)
    have b: "b \<noteq> []" "length b \<le> BUFFSIZE_open" using s by (simp_all add: b_def BUFFSIZE_open_def)
    have ok: "\<forall>e \<in> set inp'. \<exists>s. e = RData s \<and> s \<noteq> []" using less.prems(2) Cons by (auto simp: inp'_def)
    have av: "avail inp = b @ avail inp'" using Cons s by (auto simp: b_def inp'_def)
    obtain w1 where w1: "sys_write b w = (Some (length b), w1)" "takes_whole w1" using sys_write_whole [OF less.prems(1) b(2)] by blast
    have "cat_loop inp w out = cat_loop inp' w1 (out @ b)" using r b w1(1) by (simp add: cat_loop.simps [of inp])
    then show ?thesis using less.hyps [OF sys_read_less [OF r b(1)] w1(2) ok, of "out @ b"] av by simp
  qed
qed

lemma chomp_line: "is_cstr nm \<Longrightarrow> chomp (nm @ [NL]) = Inr nm"
  by (simp add: chomp_def Let_def)

lemma csopen_connects: "csfd < 0 \<Longrightarrow> 0 \<le> conn \<Longrightarrow> csopen csfd conn srv nm oflg = csopen conn conn srv nm oflg"
  by (simp add: csopen_def)

text \<open>The answer to line number \<open>k\<close>, and what it adds to the two outputs.\<close>

definition open_error :: "string \<Rightarrow> string \<Rightarrow> string" where
  "open_error nm e = take (MAXLINE - 2) (''can'' @ [CHR 0x27] @ ''t open '' @ nm @ '': '' @ e @ [NL])"

definition file_text :: "(string \<Rightarrow> int \<Rightarrow> string + int) \<Rightarrow> (nat \<Rightarrow> int \<Rightarrow> rdev list) \<Rightarrow> nat \<times> string \<Rightarrow> string" where
  "file_text os content x = (case os (snd x) O_RDONLY of Inl e \<Rightarrow> [] | Inr fd \<Rightarrow> avail (content (fst x) fd))"

definition error_text :: "(string \<Rightarrow> int \<Rightarrow> string + int) \<Rightarrow> nat \<times> string \<Rightarrow> string" where
  "error_text os x = (case os (snd x) O_RDONLY of Inl e \<Rightarrow> open_error (snd x) e | Inr fd \<Rightarrow> [])"

text \<open>A name whose request fits the server's buffer of \<^verbatim>\<open>MAXLINE\<close> bytes; its line then fits the client's.\<close>

definition file_name :: "string \<Rightarrow> bool" where
  "file_name nm \<longleftrightarrow> word nm \<and> is_cstr nm \<and> length (open_request nm O_RDONLY) \<le> MAXLINE"

lemma file_name_length: "file_name nm \<Longrightarrow> length nm + 1 < MAXLINE"
  by (simp add: file_name_def open_request_def CL_OPEN_def)

lemma fgets_name:
  assumes "file_name nm" shows "fgets MAXLINE (nm @ NL # r) = Some (nm @ [NL], r)"
proof -
  have "NL \<notin> set nm" using assms by (auto simp: file_name_def word_def white_def)
  then have "fgets_take (MAXLINE - 1) (nm @ NL # r) = nm @ [NL]" using assms by (intro fgets_take_line) (auto dest: file_name_length)
  then show ?thesis by (simp add: fgets_def)
qed

text \<open>What comes back for the lines from number \<open>k\<close> on; an answer whose last byte comes alone ends the client.\<close>

definition answers :: "(nat \<Rightarrow> string \<Rightarrow> rcv list) \<Rightarrow> nat \<Rightarrow> string list \<Rightarrow> rcv list list" where
  "answers srv k nms = map (\<lambda>(k, nm). srv k (open_request nm O_RDONLY)) (enumerate k nms)"

definition unless_any :: "rcv list list \<Rightarrow> 'a res \<Rightarrow> 'a res" where
  "unless_any rss r = (if \<exists>rs \<in> set rss. last_alone rs then Inl (Err_dump ''message format error'') else r)"

lemma unless_any_Cons: "unless_any (rs # rss) r = unless_alone rs (unless_any rss r)"
  by (simp add: unless_any_def unless_alone_def)

lemma bnd_unless [simp]: "bnd (unless_alone rs r) f = unless_alone rs (bnd r f)"
  by (simp add: unless_alone_def)

lemma open_main_lines:
  assumes "\<forall>nm \<in> set nms. file_name nm" "\<And>k. 0 \<le> conn k"
    and os: "\<And>nm fd. os nm O_RDONLY = Inr fd \<Longrightarrow> 0 \<le> fd" "\<And>nm e. os nm O_RDONLY = Inl e \<Longrightarrow> is_cstr e"
    and srv: "\<And>k rq. delivery (fst (handle_request os (take MAXLINE rq) uid (g k))) (srv k rq)"
    and rd: "\<And>k fd. \<forall>e \<in> set (content k fd). \<exists>s. e = RData s \<and> s \<noteq> []" and w: "takes_whole w"
  shows "open_main conn srv content k (concat (map (\<lambda>nm. nm @ [NL]) nms)) csfd w out errs = unless_any (answers srv k nms)
    (Inr (out @ concat (map (file_text os content) (enumerate k nms)), errs @ concat (map (error_text os) (enumerate k nms))))"
  using assms(1) w
proof (induction nms arbitrary: k csfd w out errs)
  case Nil
  then show ?case by (simp add: open_main.simps fgets_def answers_def unless_any_def)
next
  case (Cons nm nms)
  have nm: "file_name nm" "word nm" "is_cstr nm" "length (open_request nm O_RDONLY) \<le> MAXLINE" using Cons.prems(1) by (auto simp: file_name_def)
  let ?rest = "concat (map (\<lambda>nm. nm @ [NL]) nms)" and ?c = "if csfd < 0 then conn k else csfd" and ?rs = "srv k (open_request nm O_RDONLY)"
  have c0: "0 \<le> ?c" using assms(2) by simp
  have a: "answers srv k (nm # nms) = ?rs # answers srv (Suc k) nms" by (simp add: answers_def)
  have "csopen csfd (conn k) (srv k) nm O_RDONLY = csopen ?c (conn k) (srv k) nm O_RDONLY"
    using csopen_connects [of csfd "conn k"] assms(2) by simp
  also have "\<dots> = unless_alone ?rs (Inr (case os nm O_RDONLY of Inr fd \<Rightarrow> (fd, [], ?c) | Inl e \<Rightarrow> (- 1, open_error nm e, ?c)))"
    unfolding open_error_def by (rule csopen_end_to_end [OF nm(2,3) _ _ c0 nm(4) os srv]) (simp_all add: O_RDONLY_def)
  finally have cs: "csopen csfd (conn k) (srv k) nm O_RDONLY =
    unless_alone ?rs (Inr (case os nm O_RDONLY of Inr fd \<Rightarrow> (fd, [], ?c) | Inl e \<Rightarrow> (- 1, open_error nm e, ?c)))" .
  have line: "fgets MAXLINE (concat (map (\<lambda>nm. nm @ [NL]) (nm # nms))) = Some (nm @ [NL], ?rest)" using fgets_name [OF nm(1)] by simp
  show ?case
  proof (cases "os nm O_RDONLY")
    case (Inl e)
    then have "open_main conn srv content k (concat (map (\<lambda>nm. nm @ [NL]) (nm # nms))) csfd w out errs =
        unless_alone ?rs (open_main conn srv content (Suc k) ?rest ?c w out (errs @ open_error nm e))"
      unfolding open_main.simps [of _ _ _ k] line using chomp_line [OF nm(3)] cs by simp
    then show ?thesis using Cons.IH [of w "Suc k" ?c out "errs @ open_error nm e"] Cons.prems Inl
      by (simp add: a unless_any_Cons file_text_def error_text_def)
  next
    case (Inr fd)
    obtain w1 where w1: "cat_loop (content k fd) w out = Inr (out @ avail (content k fd), w1)" "takes_whole w1"
      using cat_loop_copies [OF Cons.prems(2) rd] by blast
    have "open_main conn srv content k (concat (map (\<lambda>nm. nm @ [NL]) (nm # nms))) csfd w out errs =
        unless_alone ?rs (open_main conn srv content (Suc k) ?rest ?c w1 (out @ avail (content k fd)) errs)"
      unfolding open_main.simps [of _ _ _ k] line using chomp_line [OF nm(3)] cs Inr os(1) [OF Inr] w1(1) by simp
    then show ?thesis using Cons.IH [of w1 "Suc k" ?c "out @ avail (content k fd)" errs] Cons.prems w1(2) Inr
      by (simp add: a unless_any_Cons file_text_def error_text_def)
  qed
qed

text \<open>The server when it reaches its loop: it waits on a socket of its name, as nobody else could be connected to, and its array is that of a server without clients.\<close>

lemma opend_main_starts:
  assumes "opend_main args rlim fk1 fk2 u n p = Inr S"
  shows "\<exists>l. serving (int l) (o_poll S) [int l \<mapsto> 0] \<and> l \<in> ufds (o_net S) \<and>
    (opend_opts args False = Inr False \<longrightarrow> daemonize rlim fk1 fk2 p = Inr (o_proc S))"
proof -
  obtain debug where o: "opend_opts args False = Inr debug" using assms by (cases "opend_opts args False") (auto simp: opend_main_def)
  obtain d where d: "(if debug then Inr p else daemonize rlim fk1 fk2 p) = Inr d" using assms o by (auto simp: opend_main_def bnd_eq_Inr_iff)
  obtain fd where fd: "lowest d = Some fd" using assms o d by (cases "lowest d") (auto simp: opend_main_def)
  obtain r q n' where l: "serv_listen fd CS_OPEN (net_view u d) n = (r, q, n')" by (metis prod_cases3)
  have r: "0 \<le> r" using assms o d fd l by (auto simp: opend_main_def split: if_splits)
  obtain st where st: "array_init r = Inr st" "S = \<lparr>o_proc = d, o_net = q, o_kernel = n', o_poll = st\<rparr>"
    using assms o d fd l r by (auto simp: opend_main_def bnd_eq_Inr_iff)
  have "fd \<notin> ufds (net_view u d)" using lowest_free [OF fd] by (simp add: net_view_def)
  moreover have "(case (net_view u d, n) of (p, n) \<Rightarrow> serv_listen fd CS_OPEN p n) = (r, (q, n'))" using l by simp
  ultimately have "r = int fd \<and> ufds q = insert fd (ufds (net_view u d))" using sl.ok [OF _ _ r] by force
  then show ?thesis using serving.start [OF st(1)] st(2) o d by auto
qed

section \<open>Properties\<close>

text \<open>
  C16: The client, the server and the protocol together. The client is given names of files, one on a line, without white space, whose requests fit the
  buffer of the server. It asks the server on one connection for each of them in turn, and its standard output is the contents of those that the server could
  open, in the order asked for; on its standard error is the server's message for each of the others. The answers may arrive in any pieces; a receive that ends between the
  two last bytes of an answer, and nothing else, ends the client with a format error. Reading the files and writing must not fail.
\<close>

theorem open_cats_files:
  assumes "\<forall>nm \<in> set nms. file_name nm" "\<And>k. 0 \<le> conn k"
    and "\<And>nm fd. os nm O_RDONLY = Inr fd \<Longrightarrow> 0 \<le> fd" "\<And>nm e. os nm O_RDONLY = Inl e \<Longrightarrow> is_cstr e"
    and "\<And>k rq. delivery (fst (handle_request os (take MAXLINE rq) uid (g k))) (srv k rq)"
    and "\<And>k fd. \<forall>e \<in> set (content k fd). \<exists>s. e = RData s \<and> s \<noteq> []" "takes_whole w"
  shows "open_main conn srv content 0 (concat (map (\<lambda>nm. nm @ [NL]) nms)) (- 1) w [] [] =
    (if \<exists>rs \<in> set (answers srv 0 nms). last_alone rs then Inl (Err_dump ''message format error'')
     else Inr (concat (map (file_text os content) (enumerate 0 nms)), concat (map (error_text os) (enumerate 0 nms))))"
  using open_main_lines [where os = os and srv = srv and g = g and uid = uid and content = content and k = 0 and csfd = "- 1" and out = "[]" and errs = "[]",
    OF assms(1,2) assms(3) assms(4) assms(5) assms(6) assms(7)] by (simp add: unless_any_def)

text \<open>An answer that arrives whole.\<close>

lemma send_err_size: "2 \<le> length (texts (send_err c m)) \<and> length (texts (send_err c m)) = length m + 2"
  by (simp add: texts_def send_err_def send_fd_def)

lemma whole_answer:
  assumes "length (errmsg g) \<le> MAXLINE - 2"
  shows "delivery (fst (handle_request os rq uid g)) (whole (fst (handle_request os rq uid g)))"
    "\<not> last_alone (whole (fst (handle_request os rq uid g)))"
proof -
  let ?ms = "fst (handle_request os rq uid g)"
  have "length (errmsg (snd (buf_args rq cli_args g))) \<le> MAXLINE - 2"
    using assms by (simp add: buf_args_def cli_args_def Let_def MAXLINE_def split: option.splits prod.splits)
  then have "2 \<le> length (texts ?ms) \<and> length (texts ?ms) \<le> MAXLINE"
    by (auto simp: handle_request_def Let_def send_err_size MAXLINE_def split: prod.splits sum.splits) (simp_all add: texts_def send_fd_def)
  then show "delivery ?ms (whole ?ms)" "\<not> last_alone (whole ?ms)" using whole_delivery [of ?ms] by auto
qed

definition ex_open :: "string \<Rightarrow> int \<Rightarrow> string + int" where
  "ex_open nm oflg = (if nm = ''/etc/motd'' then Inr 9 else Inl ''No such file or directory'')"

definition ex_opend :: opend where "ex_opend = \<lparr>errmsg = [], pathname = [], oflag = 0\<rparr>"

theorem open_cats_files_witness:
  "open_main (\<lambda>_. 7) (\<lambda>_ rq. whole (fst (handle_request ex_open (take MAXLINE rq) 100 ex_opend))) (\<lambda>_ _. [RData ''welcome'']) 0
     (''/etc/motd'' @ [NL] @ ''x'' @ [NL] @ ''/etc/motd'' @ [NL]) (- 1) [] [] [] =
   Inr (''welcomewelcome'', open_error ''x'' ''No such file or directory'')"
proof -
  let ?nms = "[''/etc/motd'', ''x'', ''/etc/motd'']"
  let ?srv = "\<lambda>(_ :: nat) rq. whole (fst (handle_request ex_open (take MAXLINE rq) 100 ex_opend))"
  have n: "\<forall>nm \<in> set ?nms. file_name nm" by (simp add: file_name_def word_def white_def MAXLINE_def open_request_def CL_OPEN_def O_RDONLY_def sprint_int_def dec.simps)
  have o: "ex_open nm O_RDONLY = Inr fd \<Longrightarrow> 0 \<le> fd" "ex_open nm O_RDONLY = Inl e \<Longrightarrow> is_cstr e" for nm fd e
    by (auto simp: ex_open_def split: if_splits)
  have c: "\<forall>e \<in> set [RData ''welcome'']. \<exists>s. e = RData s \<and> s \<noteq> []" "takes_whole []" "0 \<le> (7 :: int)" by (simp_all add: takes_whole_def)
  have g: "length (errmsg ex_opend) \<le> MAXLINE - 2" by (simp add: ex_opend_def)
  have "\<not> (\<exists>rs \<in> set (answers ?srv 0 ?nms). last_alone rs)" using whole_answer(2) [OF g] by (auto simp: answers_def)
  then show ?thesis
    using open_cats_files [where os = ex_open and conn = "\<lambda>_. 7" and content = "\<lambda>_ _. [RData ''welcome'']" and uid = 100 and g = "\<lambda>_. ex_opend", OF n c(3) o(1) o(2) whole_answer(1) [OF g] c(1,2)]
    by (simp add: file_text_def error_text_def ex_open_def)
qed

text \<open>An empty line with a null byte at its start.\<close>

lemma open_main_null_line: "open_main conn srv content k (NUL # r) csfd w out errs = Inl (Undefined ''line[-1]'')"
proof -
  obtain l rest where f: "fgets MAXLINE (NUL # r) = Some (NUL # l, rest)" by (simp add: fgets_def MAXLINE_def numeral_eq_Suc)
  have "cstr (NUL # l) = []" using cstr_append_NUL [of "[]" l] by simp
  then show ?thesis unfolding open_main.simps [of _ _ _ k] f by (simp add: chomp_def)
qed

end
