(* ===== verification/Opend_Fe.thy ===== *)
theory Opend_Fe
  imports Opend_Main Pty
begin

text \<open>
  The version of the open server that its client starts (\<^verbatim>\<open>ipc2/open.fe\<close>, \<^verbatim>\<open>ipc2/opend.fe\<close>): the server reads its requests from its standard input, which is
  one end of a stream pipe, and answers on its standard output, the same end. Requests and answers are those of \<open>Opend\<close>.
\<close>

section \<open>The server\<close>

definition fe_handle_request :: "(string \<Rightarrow> int \<Rightarrow> string + int) \<Rightarrow> string \<Rightarrow> opend \<Rightarrow> msg list \<times> opend \<times> int option" where
  "fe_handle_request os buf g =
     (if last buf \<noteq> NUL
      then let m = take (MAXLINE - 2) (''request not null terminated: '' @ padl (length buf) (cstr buf) @ [NL])
           in (send_err (- 1) m, g\<lparr>errmsg := m\<rparr>, None)
      else
        let (rc, g1) = buf_args buf cli_args g
        in if rc < 0 then (send_err (- 1) (errmsg g1), g1, None)
           else (case os (pathname g1) (oflag g1) of
                   Inl e \<Rightarrow>
                     let m = take (MAXLINE - 2) (''can'' @ [CHR 0x27] @ ''t open '' @ pathname g1 @ '': '' @ e @ [NL])
                     in (send_err (- 1) m, g1\<lparr>errmsg := m\<rparr>, None)
                 | Inr newfd \<Rightarrow> ([send_fd newfd], g1, Some newfd)))"

text \<open>The loop over what \<^verbatim>\<open>read\<close> returns, at most \<^verbatim>\<open>MAXLINE\<close> bytes at a time: all that is sent, and how it ends.\<close>

function fe_loop :: "(string \<Rightarrow> int \<Rightarrow> string + int) \<Rightarrow> rdev list \<Rightarrow> opend \<Rightarrow> msg list list \<times> unit res" where
  "fe_loop os inp g =
     (case sys_read MAXLINE inp of
        (None, _) \<Rightarrow> ([], Inl (Err_sys ''read error on stream pipe''))
      | (Some buf, inp') \<Rightarrow>
          if buf = [] then ([], Inr ())
          else (case fe_handle_request os buf g of (ms, g', _) \<Rightarrow> case fe_loop os inp' g' of (mss, r) \<Rightarrow> (ms # mss, r)))"
  by pat_completeness auto
termination
  by (relation "measure (\<lambda>(os, inp, g). rdev_size inp)") (auto dest: sys_read_less [OF sym])

declare fe_loop.simps [simp del]

section \<open>The client\<close>

text \<open>The child: the end of the pipe becomes its standard input and output, and it runs the server.\<close>

definition fe_child :: "nat \<Rightarrow> nat \<Rightarrow> process \<Rightarrow> process res" where
  "fe_child a b p =
     (let p1 = p_close a p in
      bnd (if b \<noteq> 0 then chk (Err_sys ''dup2 error to stdin'') (p_dup2 b 0 p1) else Inr p1) (\<lambda>p2.
      bnd (if b \<noteq> 1 then chk (Err_sys ''dup2 error to stdout'') (p_dup2 b 1 p2) else Inr p2) (\<lambda>p3.
      chk (Err_sys ''execl error'') (p_call p3))))"

text \<open>
  The first part of \<^verbatim>\<open>csopen\<close>: start the server unless that was done. \<open>fd0\<close> is \<^verbatim>\<open>fd[0]\<close>, \<open>n\<close> the number of the connection, \<open>fk\<close> what \<^verbatim>\<open>fork\<close> gives. The
  result says whether it goes on, with the new \<^verbatim>\<open>fd[0]\<close>, the process, and the child if one was made.
\<close>

definition fe_start :: "nat \<Rightarrow> forked \<Rightarrow> int \<Rightarrow> process \<Rightarrow> bool \<times> int \<times> process \<times> process res option" where
  "fe_start n fk fd0 p =
     (if 0 \<le> fd0 then (True, fd0, p, None)
      else case fd_pipe n p of
             (Inl e, p1) \<Rightarrow> (False, fd0, p1, None)
           | (Inr (a, b), p1) \<Rightarrow>
               (case fk of
                  Inl e \<Rightarrow> (False, int a, p1\<lparr>err := e\<rparr>, None)
                | Inr c \<Rightarrow> (True, int a, p_close b p1, Some (fe_child a b (child_of c p1)))))"

definition fe_request :: "string \<Rightarrow> int \<Rightarrow> string res" where
  "fe_request name oflg =
     (let buf = SPACE # sprint_int oflg
      in if 10 < length buf + 1 then Inl (Undefined ''csopen: buf'')
         else Inr (CL_OPEN @ [SPACE] @ name @ buf @ [NUL]))"

definition fe_csopen :: "nat \<Rightarrow> forked \<Rightarrow> (string \<Rightarrow> rcv list) \<Rightarrow> string \<Rightarrow> int \<Rightarrow> int \<Rightarrow> process \<Rightarrow> (int \<times> string \<times> int \<times> process) res" where
  "fe_csopen n fk srv name oflg fd0 p =
     (case fe_start n fk fd0 p of
        (False, fd0', p', _) \<Rightarrow> Inr (- 1, [], fd0', p')
      | (True, fd0', p', _) \<Rightarrow>
          bnd (fe_request name oflg) (\<lambda>rq. bnd (recv_fd (\<lambda>_. True) (srv rq)) (\<lambda>(r, out, _). Inr (r, out, fd0', p'))))"

section \<open>The same requests and answers\<close>

lemma fe_handle_same: "last buf = NUL \<Longrightarrow> fe_handle_request os buf g = handle_request os buf uid g"
  by (simp add: fe_handle_request_def handle_request_def)

text \<open>The buffer for the flag is two bytes shorter than that of the other client.\<close>

lemma fe_request_same:
  "length (sprint_int oflg) \<le> 8 \<Longrightarrow> fe_request name oflg = csopen_request name oflg"
  "8 < length (sprint_int oflg) \<Longrightarrow> length (sprint_int oflg) \<le> 10 \<Longrightarrow>
     fe_request name oflg = Inl (Undefined ''csopen: buf'') \<and> csopen_request name oflg \<noteq> Inl (Undefined ''csopen: buf'')"
  by (simp_all add: fe_request_def csopen_request_def Let_def)

lemma dup_onto: "(if b \<noteq> k then chk f (p_dup2 b k p) else Inr p) = Inr q \<Longrightarrow> fdt q = (fdt p)(k := fdt p b)"
proof (cases "b = k")
  case False
  assume "(if b \<noteq> k then chk f (p_dup2 b k p) else Inr p) = Inr q"
  then obtain p' where "same p p'" "q = p'\<lparr>fdt := (fdt p')(k := fdt p' b)\<rparr>" using False chk_do unfolding p_dup2_def by (metis (no_types, lifting))
  then show ?thesis by (simp add: same_fields)
qed simp

text \<open>Starting the server: both ends of the connection are where they should be.\<close>

lemma fe_start_ends:
  assumes "fe_start n (Inr c) (- 1) p = (True, fd0, q, Some (Inr d))"
  shows "fdt q = (fdt p)(nat fd0 \<mapsto> End n False) \<and> fdt p (nat fd0) = None \<and> 0 \<le> fd0 \<and>
    fdt d 0 = Some (End n True) \<and> fdt d 1 = Some (End n True) \<and> (\<forall>i. fdt d i \<noteq> Some (End n False) \<or> fdt p i = Some (End n False))"
proof -
  obtain r p1 where f: "fd_pipe n p = (r, p1)" by fastforce
  then obtain a b where ab: "r = Inr (a, b)" using assms by (cases r) (auto simp: fe_start_def)
  note e = fd_pipe_effect [OF f [unfolded ab]]
  have t: "fdt p1 = (fdt p)(a \<mapsto> End n False, b \<mapsto> End n True)" using e(4) by (simp add: same_def)
  have q: "fd0 = int a" "q = p_close b p1" "fe_child a b (child_of c p1) = Inr d" using assms f ab by (auto simp: fe_start_def)
  define p2 where "p2 = p_close a (child_of c p1)"
  have t2: "fdt p2 = (fdt p)(b \<mapsto> End n True)" using e(1,3) by (auto simp: p2_def p_close_def child_of_def t fun_eq_iff)
  obtain p3 where p3: "(if b \<noteq> 0 then chk (Err_sys ''dup2 error to stdin'') (p_dup2 b 0 p2) else Inr p2) = Inr p3"
    using q(3) by (auto simp: fe_child_def Let_def p2_def [symmetric] bnd_eq_Inr_iff)
  obtain p4 where p4: "(if b \<noteq> 1 then chk (Err_sys ''dup2 error to stdout'') (p_dup2 b 1 p3) else Inr p3) = Inr p4" "p_call p4 = (None, d)"
    using q(3) p3 by (auto simp: fe_child_def Let_def p2_def [symmetric] bnd_eq_Inr_iff chk_Inr)
  have "fdt p3 = (fdt p2)(0 := fdt p2 b)" using p3 by (rule dup_onto)
  then have t3: "fdt p3 = (fdt p)(b \<mapsto> End n True, 0 \<mapsto> End n True)" using t2 by simp
  have "fdt p4 = (fdt p3)(1 := fdt p3 b)" using p4(1) by (rule dup_onto)
  then have "fdt p4 = (fdt p)(b \<mapsto> End n True, 0 \<mapsto> End n True, 1 \<mapsto> End n True)" using t3 by simp
  then have "fdt d = (fdt p)(b \<mapsto> End n True, 0 \<mapsto> End n True, 1 \<mapsto> End n True)" using p_call_same [OF p4(2)] by (simp add: same_def)
  then show ?thesis using q e(1-3) t by (auto simp: p_close_def fun_eq_iff)
qed

text \<open>The whole exchange gives what the other client gets from the other server.\<close>

lemma fe_csopen_same:
  assumes "fe_start n fk fd0 p = (True, fd0', q, ch)" "0 \<le> csfd" "length (sprint_int oflg) \<le> 8"
  shows "fe_csopen n fk srv name oflg fd0 p = bnd (csopen csfd conn srv name oflg) (\<lambda>(r, out, _). Inr (r, out, fd0', q))"
  using assms by (simp add: fe_csopen_def csopen_def fe_request_same(1) bnd_def case_prod_beta split: sum.split)

text \<open>The server loop answers every request it reads whole, in order, until the client closes the pipe.\<close>

lemma fe_loop_answers:
  assumes "\<forall>rq \<in> set rqs. rq \<noteq> [] \<and> last rq = NUL \<and> length rq \<le> MAXLINE"
  shows "\<exists>gs. fe_loop os (map RData rqs) g = (map (\<lambda>(rq, g). fst (handle_request os rq uid g)) (zip rqs gs), Inr ()) \<and> length gs = length rqs"
  using assms
proof (induction rqs arbitrary: g)
  case Nil
  then show ?case by (simp add: fe_loop.simps)
next
  case (Cons rq rqs)
  then have rq: "rq \<noteq> []" "last rq = NUL" "length rq \<le> MAXLINE" by auto
  obtain ms g' nf where h: "handle_request os rq uid g = (ms, g', nf)" by (metis prod_cases3)
  obtain gs where gs: "fe_loop os (map RData rqs) g' = (map (\<lambda>(rq, g). fst (handle_request os rq uid g)) (zip rqs gs), Inr ())" "length gs = length rqs"
    using Cons by force
  have "fe_loop os (map RData (rq # rqs)) g = (map (\<lambda>(rq, g). fst (handle_request os rq uid g)) (zip (rq # rqs) (g # gs)), Inr ())"
    using rq h gs(1) fe_handle_same [OF rq(2), of os g uid] by (simp add: fe_loop.simps [of os "RData rq # _"])
  then show ?case using gs(2) by (intro exI [of _ "g # gs"]) simp
qed

text \<open>
  When \<^verbatim>\<open>fork\<close> fails, \<^verbatim>\<open>fd[0]\<close> has been set all the same. The next call takes that as a server that is running, and waits for the answer of nobody.
\<close>

lemma fe_fork_fails_then_waits:
  assumes "fd_pipe n p = (Inr (a, b), p1)" "length (sprint_int oflg) \<le> 8"
  shows "fe_csopen n (Inl e) srv name oflg (- 1) p = Inr (- 1, [], int a, p1\<lparr>err := e\<rparr>) \<and>
    fe_csopen n fk (\<lambda>_. []) name' oflg (int a) q = Inl Diverges"
proof -
  obtain rq where "fe_request name' oflg = Inr rq" using assms(2) by (simp add: fe_request_def Let_def)
  then show ?thesis using assms(1) by (simp add: fe_csopen_def fe_start_def)
qed

end
