(* ===== verification/Semaph.thy ===== *)
theory Semaph
  imports Prelude
begin

text \<open>
  The semaphore library on top of System V semaphores (\<^verbatim>\<open>lib/semaph.c\<close>). A set of three
  values per semaphore: the value itself, a counter of the processes that use it, and a lock. The
  kernel calls \<^verbatim>\<open>semget\<close>, \<^verbatim>\<open>semop\<close>, \<^verbatim>\<open>semctl\<close> and the undoing of operations when a process ends are
  modelled first. A function of the library is then a machine that makes one kernel call per step, because
  other processes may run between two calls; its states say what the process will call next.
\<close>

section \<open>Semaphores in the kernel\<close>

definition SEMVMX :: int where "SEMVMX = 32767"

text \<open>The values of a set, and for every process what is added to them when it ends.\<close>

record semset =
  sval :: "nat \<Rightarrow> int"
  sadj :: "nat \<Rightarrow> nat \<Rightarrow> int"
  skey :: int

text \<open>Identifiers are not used again, as those of the kernel carry a sequence number.\<close>

record kern =
  kids :: "nat \<Rightarrow> semset option"
  kkey :: "int \<Rightarrow> nat option"
  knext :: nat

definition EIDRM :: errno where "EIDRM = EOTHER 43"
definition ERANGE :: errno where "ERANGE = EOTHER 34"

text \<open>\<open>fail\<close>: a permission problem, or the tables are full.\<close>

definition semget :: "kern \<Rightarrow> int \<Rightarrow> bool \<Rightarrow> bool \<Rightarrow> nat option \<times> kern" where
  "semget k key creat fail =
     (if fail then (None, k)
      else case kkey k key of
        Some i \<Rightarrow> (Some i, k)
      | None \<Rightarrow>
          if creat then (Some (knext k), k\<lparr>kids := (kids k)(knext k \<mapsto> \<lparr>sval = \<lambda>_. 0, sadj = \<lambda>_ _. 0, skey = key\<rparr>),
            kkey := (kkey k)(key \<mapsto> knext k), knext := knext k + 1\<rparr>)
          else (None, k))"

record sembuf =
  sem_num :: nat
  sem_opv :: int
  sem_undo :: bool

datatype semres = Blocks | SErr errno | SOk kern

fun semop_try :: "nat \<Rightarrow> semset \<Rightarrow> sembuf list \<Rightarrow> (errno option + semset)" where
  "semop_try p ss [] = Inr ss"
| "semop_try p ss (b # bs) =
     (let v = sval ss (sem_num b); w = v + sem_opv b
      in if sem_opv b = 0 \<and> v \<noteq> 0 \<or> w < 0 then Inl None
         else if SEMVMX < w then Inl (Some ERANGE)
         else semop_try p (ss\<lparr>sval := (sval ss)(sem_num b := w),
                sadj := (if sem_undo b then (sadj ss)(p := (sadj ss p)(sem_num b := sadj ss p (sem_num b) - sem_opv b)) else sadj ss)\<rparr>) bs)"

text \<open>All operations or none. A process that is already waiting (\<open>slept\<close>) when the set is removed gets \<^verbatim>\<open>EIDRM\<close>, a later call \<^verbatim>\<open>EINVAL\<close>.\<close>

definition semop :: "kern \<Rightarrow> nat \<Rightarrow> bool \<Rightarrow> nat \<Rightarrow> sembuf list \<Rightarrow> semres" where
  "semop k p slept i ops =
     (case kids k i of None \<Rightarrow> SErr (if slept then EIDRM else EINVAL)
      | Some ss \<Rightarrow>
          (case semop_try p ss ops of Inl None \<Rightarrow> Blocks | Inl (Some e) \<Rightarrow> SErr e
           | Inr ss' \<Rightarrow> SOk (k\<lparr>kids := (kids k)(i \<mapsto> ss')\<rparr>)))"

definition semctl_getval :: "kern \<Rightarrow> nat \<Rightarrow> nat \<Rightarrow> int" where
  "semctl_getval k i n = (case kids k i of None \<Rightarrow> -1 | Some ss \<Rightarrow> sval ss n)"

text \<open>\<^verbatim>\<open>SETVAL\<close> also clears what all processes would undo on this value.\<close>

definition semctl_setval :: "kern \<Rightarrow> nat \<Rightarrow> nat \<Rightarrow> int \<Rightarrow> kern option" where
  "semctl_setval k i n v =
     (case kids k i of None \<Rightarrow> None
      | Some ss \<Rightarrow> if v < 0 \<or> SEMVMX < v then None
          else Some (k\<lparr>kids := (kids k)(i \<mapsto> ss\<lparr>sval := (sval ss)(n := v), sadj := (\<lambda>p. (sadj ss p)(n := 0))\<rparr>)\<rparr>))"

definition semctl_rmid :: "kern \<Rightarrow> nat \<Rightarrow> kern option" where
  "semctl_rmid k i =
     (case kids k i of None \<Rightarrow> None
      | Some ss \<Rightarrow> Some (k\<lparr>kids := (kids k)(i := None), kkey := (kkey k)(skey ss := None)\<rparr>))"

definition clamp :: "int \<Rightarrow> int" where
  "clamp v = (if v < 0 then 0 else if SEMVMX < v then SEMVMX else v)"

definition undo :: "nat \<Rightarrow> semset \<Rightarrow> semset" where
  "undo p ss = ss\<lparr>sval := (\<lambda>n. clamp (sval ss n + sadj ss p n)), sadj := (sadj ss)(p := \<lambda>_. 0)\<rparr>"

text \<open>The end of a process.\<close>

definition proc_exit :: "nat \<Rightarrow> kern \<Rightarrow> kern" where
  "proc_exit p k = k\<lparr>kids := (\<lambda>i. map_option (undo p) (kids k i))\<rparr>"

section \<open>The library\<close>

definition BIGCOUNT :: int where "BIGCOUNT = 10000"

abbreviation sb :: "nat \<Rightarrow> int \<Rightarrow> bool \<Rightarrow> sembuf" where
  "sb n v u \<equiv> \<lparr>sem_num = n, sem_opv = v, sem_undo = u\<rparr>"

definition op_lock :: "sembuf list" where "op_lock = [sb 2 0 False, sb 2 1 True]"
definition op_endcreate :: "sembuf list" where "op_endcreate = [sb 1 (-1) True, sb 2 (-1) True]"
definition op_open :: "sembuf list" where "op_open = [sb 1 (-1) True]"
definition op_close :: "sembuf list" where "op_close = [sb 2 0 False, sb 2 1 True, sb 1 1 True]"
definition op_unlock :: "sembuf list" where "op_unlock = [sb 2 (-1) True]"
definition op_op :: "int \<Rightarrow> sembuf list" where "op_op v = [sb 0 v True]"

lemmas sem_ops = op_lock_def op_endcreate_def op_open_def op_close_def op_unlock_def op_op_def

text \<open>
  What a process does next: outside of the library (with the last value returned), in
  \<^verbatim>\<open>sem_create\<close>, in \<^verbatim>\<open>sem_open\<close>, using a semaphore, in \<^verbatim>\<open>sem_op\<close>, in \<^verbatim>\<open>sem_close\<close>, or ended by an error routine. The
  truth value of a call of \<^verbatim>\<open>semop\<close> says whether the process is already waiting in it.
\<close>

datatype pc =
    Idle int
  | Cr_Get int int | Cr_Lock bool nat int int | Cr_Getval nat int | Cr_Set0 nat int | Cr_Set1 nat | Cr_End bool nat
  | Op_Get int | Op_Dec bool nat
  | Use nat | Sem_Op bool nat int
  | Cl_Lock bool nat | Cl_Getval nat | Cl_Rm nat | Cl_Unlock bool nat
  | Dead fatal

text \<open>The error routines end the process.\<close>

definition die :: "nat \<Rightarrow> fatal \<Rightarrow> kern \<Rightarrow> pc \<times> kern" where
  "die p e k = (Dead e, proc_exit p k)"

definition sem_create :: "int \<Rightarrow> int \<Rightarrow> pc" where
  "sem_create key initval = (if key = 0 then Idle (-1) else if key = -1 then Idle (-1) else Cr_Get key initval)"

fun create_step :: "bool \<Rightarrow> nat \<Rightarrow> pc \<Rightarrow> kern \<Rightarrow> pc \<times> kern" where
  "create_step fail p (Cr_Get key v) k =
     (case semget k key True fail of (None, k') \<Rightarrow> (Idle (-1), k') | (Some i, k') \<Rightarrow> (Cr_Lock False i key v, k'))"
| "create_step fail p (Cr_Lock slept i key v) k =
     (case semop k p slept i op_lock of
        Blocks \<Rightarrow> (Cr_Lock True i key v, k)
      | SErr e \<Rightarrow> if e = EINVAL then (Cr_Get key v, k) else die p (Err_sys ''can't lock'') k
      | SOk k' \<Rightarrow> (Cr_Getval i v, k'))"
| "create_step fail p (Cr_Getval i v) k =
     (let semval = semctl_getval k i 1
      in if semval < 0 then die p (Err_sys ''can't GETVAL'') k
         else if semval = 0 then (Cr_Set0 i v, k) else (Cr_End False i, k))"
| "create_step fail p (Cr_Set0 i v) k =
     (case semctl_setval k i 0 v of None \<Rightarrow> die p (Err_sys ''can SETVAL[0]'') k | Some k' \<Rightarrow> (Cr_Set1 i, k'))"
| "create_step fail p (Cr_Set1 i) k =
     (case semctl_setval k i 1 BIGCOUNT of None \<Rightarrow> die p (Err_sys ''can SETVAL[1]'') k | Some k' \<Rightarrow> (Cr_End False i, k'))"
| "create_step fail p (Cr_End slept i) k =
     (case semop k p slept i op_endcreate of
        Blocks \<Rightarrow> (Cr_End True i, k) | SErr e \<Rightarrow> die p (Err_sys ''can't end create'') k | SOk k' \<Rightarrow> (Use i, k'))"
| "create_step fail p s k = (s, k)"

definition sem_open :: "int \<Rightarrow> pc" where
  "sem_open key = (if key = 0 then Idle (-1) else if key = -1 then Idle (-1) else Op_Get key)"

fun open_step :: "bool \<Rightarrow> nat \<Rightarrow> pc \<Rightarrow> kern \<Rightarrow> pc \<times> kern" where
  "open_step fail p (Op_Get key) k =
     (case semget k key False fail of (None, k') \<Rightarrow> (Idle (-1), k') | (Some i, k') \<Rightarrow> (Op_Dec False i, k'))"
| "open_step fail p (Op_Dec slept i) k =
     (case semop k p slept i op_open of
        Blocks \<Rightarrow> (Op_Dec True i, k) | SErr e \<Rightarrow> die p (Err_sys ''can't open'') k | SOk k' \<Rightarrow> (Use i, k'))"
| "open_step fail p s k = (s, k)"

definition sem_rm :: "nat \<Rightarrow> nat \<Rightarrow> kern \<Rightarrow> fatal option \<times> kern" where
  "sem_rm p i k = (case semctl_rmid k i of None \<Rightarrow> (Some (Err_sys ''can't IPC_RMID''), proc_exit p k) | Some k' \<Rightarrow> (None, k'))"

definition sem_close :: "nat \<Rightarrow> pc" where
  "sem_close i = Cl_Lock False i"

fun close_step :: "nat \<Rightarrow> pc \<Rightarrow> kern \<Rightarrow> pc \<times> kern" where
  "close_step p (Cl_Lock slept i) k =
     (case semop k p slept i op_close of
        Blocks \<Rightarrow> (Cl_Lock True i, k) | SErr e \<Rightarrow> die p (Err_sys ''can't semop'') k | SOk k' \<Rightarrow> (Cl_Getval i, k'))"
| "close_step p (Cl_Getval i) k =
     (let semval = semctl_getval k i 1
      in if semval < 0 then die p (Err_sys ''can't GETVAL'') k
         else if BIGCOUNT < semval then die p (Err_dump ''sem[1] > BIGCOUNT'') k
         else if semval = BIGCOUNT then (Cl_Rm i, k)
         else (Cl_Unlock False i, k))"
| "close_step p (Cl_Rm i) k =
     (case sem_rm p i k of (Some e, k') \<Rightarrow> (Dead e, k') | (None, k') \<Rightarrow> (Idle 0, k'))"
| "close_step p (Cl_Unlock slept i) k =
     (case semop k p slept i op_unlock of
        Blocks \<Rightarrow> (Cl_Unlock True i, k) | SErr e \<Rightarrow> die p (Err_sys ''can't unlock'') k | SOk k' \<Rightarrow> (Idle 0, k'))"
| "close_step p s k = (s, k)"

definition sem_op :: "nat \<Rightarrow> nat \<Rightarrow> int \<Rightarrow> kern \<Rightarrow> pc \<times> kern" where
  "sem_op p i value k = (if value = 0 then die p (Err_sys ''can't have value == 0'') k else (Sem_Op False i value, k))"

definition sem_wait :: "nat \<Rightarrow> nat \<Rightarrow> kern \<Rightarrow> pc \<times> kern" where
  "sem_wait p i k = sem_op p i (-1) k"

definition sem_signal :: "nat \<Rightarrow> nat \<Rightarrow> kern \<Rightarrow> pc \<times> kern" where
  "sem_signal p i k = sem_op p i 1 k"

fun op_step :: "nat \<Rightarrow> pc \<Rightarrow> kern \<Rightarrow> pc \<times> kern" where
  "op_step p (Sem_Op slept i value) k =
     (case semop k p slept i (op_op value) of
        Blocks \<Rightarrow> (Sem_Op True i value, k) | SErr e \<Rightarrow> die p (Err_sys ''sem_op error'') k | SOk k' \<Rightarrow> (Use i, k'))"
| "op_step p s k = (s, k)"

text \<open>One kernel call of process \<open>p\<close>, whatever function of the library it is in.\<close>

definition sem_step :: "bool \<Rightarrow> nat \<Rightarrow> pc \<Rightarrow> kern \<Rightarrow> pc \<times> kern" where
  "sem_step fail p s k =
     (case s of Idle r \<Rightarrow> (s, k) | Use i \<Rightarrow> (s, k) | Dead e \<Rightarrow> (s, k)
      | Op_Get key \<Rightarrow> open_step fail p s k | Op_Dec b i \<Rightarrow> open_step fail p s k
      | Sem_Op b i v \<Rightarrow> op_step p s k
      | Cl_Lock b i \<Rightarrow> close_step p s k | Cl_Getval i \<Rightarrow> close_step p s k | Cl_Rm i \<Rightarrow> close_step p s k | Cl_Unlock b i \<Rightarrow> close_step p s k
      | _ \<Rightarrow> create_step fail p s k)"

section \<open>Processes that use semaphores\<close>

text \<open>
  Processes below \<open>N\<close>, in any order: a process outside of the library creates a semaphore, one that
  uses a semaphore operates on it or closes it, any process inside of the library makes its
  next call, and any process may end at any time, its place being taken by a new one.
\<close>

record sys =
  kernel :: kern
  procs :: "nat \<Rightarrow> pc"

definition proc :: "nat \<Rightarrow> sys \<Rightarrow> pc \<times> kern \<Rightarrow> sys" where
  "proc p c r = c\<lparr>kernel := snd r, procs := (procs c)(p := fst r)\<rparr>"

inductive sem_sys :: "nat \<Rightarrow> sys \<Rightarrow> sys \<Rightarrow> bool" for N where
  create: "p < N \<Longrightarrow> procs c p = Idle r \<Longrightarrow> sem_sys N c (proc p c (sem_create key v, kernel c))"
| operate: "p < N \<Longrightarrow> procs c p = Use i \<Longrightarrow> sem_sys N c (proc p c (sem_op p i v (kernel c)))"
| close: "p < N \<Longrightarrow> procs c p = Use i \<Longrightarrow> sem_sys N c (proc p c (sem_close i, kernel c))"
| run: "p < N \<Longrightarrow> sem_sys N c (proc p c (sem_step fail p (procs c p) (kernel c)))"
| exit: "p < N \<Longrightarrow> sem_sys N c (proc p c (Idle 0, proc_exit p (kernel c)))"

definition sem_init :: sys where
  "sem_init = \<lparr>kernel = \<lparr>kids = \<lambda>_. None, kkey = \<lambda>_. None, knext = 0\<rparr>, procs = \<lambda>_. Idle 0\<rparr>"

inductive sem_reach :: "nat \<Rightarrow> sys \<Rightarrow> bool" for N where
  reach_init: "sem_reach N sem_init"
| reach_step: "sem_reach N c \<Longrightarrow> sem_sys N c d \<Longrightarrow> sem_reach N d"

end
