(* ===== verification/Semaph_Safe.thy ===== *)
theory Semaph_Safe
  imports Semaph
begin

text \<open>
  The processes of \<^verbatim>\<open>lib/semaph.c\<close> in any interleaving: an invariant that ties the lock, the
  counter and the undo values of every semaphore to what the processes are doing.
\<close>

section \<open>The invariant\<close>

text \<open>The processes that hold the lock of set \<open>i\<close>, and those the counter counts as its users.\<close>

fun locks :: "nat \<Rightarrow> pc \<Rightarrow> bool" where
  "locks i (Cr_Getval j v) = (j = i)"
| "locks i (Cr_Set0 j v) = (j = i)"
| "locks i (Cr_Set1 j) = (j = i)"
| "locks i (Cr_End b j) = (j = i)"
| "locks i (Cl_Getval j) = (j = i)"
| "locks i (Cl_Rm j) = (j = i)"
| "locks i (Cl_Unlock b j) = (j = i)"
| "locks i _ = False"

fun uses :: "nat \<Rightarrow> pc \<Rightarrow> bool" where
  "uses i (Use j) = (j = i)"
| "uses i (Sem_Op b j v) = (j = i)"
| "uses i (Cl_Lock b j) = (j = i)"
| "uses i _ = False"

text \<open>What a process that holds the lock knows of the counter.\<close>

fun phase :: "nat \<Rightarrow> pc \<Rightarrow> int \<Rightarrow> bool" where
  "phase i (Cr_Set0 j v) x = (j = i \<longrightarrow> x = 0)"
| "phase i (Cr_Set1 j) x = (j = i \<longrightarrow> x = 0)"
| "phase i (Cr_End b j) x = (j = i \<longrightarrow> x \<noteq> 0)"
| "phase i (Cl_Getval j) x = (j = i \<longrightarrow> x \<noteq> 0)"
| "phase i (Cl_Rm j) x = (j = i \<longrightarrow> x = BIGCOUNT)"
| "phase i (Cl_Unlock b j) x = (j = i \<longrightarrow> x \<noteq> 0)"
| "phase i _ x = True"

definition users :: "nat \<Rightarrow> (nat \<Rightarrow> pc) \<Rightarrow> nat \<Rightarrow> int" where
  "users N ps i = int (card {p. p < N \<and> uses i (ps p)})"

definition set_ok :: "nat \<Rightarrow> (nat \<Rightarrow> pc) \<Rightarrow> nat \<Rightarrow> semset \<Rightarrow> bool" where
  "set_ok N ps i ss \<longleftrightarrow>
     (\<forall>p. sadj ss p 2 = (if locks i (ps p) then -1 else 0)) \<and> (\<forall>p. sadj ss p 1 = (if uses i (ps p) then 1 else 0)) \<and>
     sval ss 2 = (if \<exists>p. locks i (ps p) then 1 else 0) \<and> (\<forall>p q. locks i (ps p) \<longrightarrow> locks i (ps q) \<longrightarrow> p = q) \<and>
     (sval ss 1 = 0 \<and> users N ps i = 0 \<or> sval ss 1 = BIGCOUNT - users N ps i) \<and> (\<forall>p. phase i (ps p) (sval ss 1))"

text \<open>The errors a process can end with; \<^verbatim>\<open>sem_open\<close> is not used.\<close>

fun admissible :: "pc \<Rightarrow> bool" where
  "admissible (Dead e) = (e \<in> Err_sys ` {''can't lock'', ''can SETVAL[0]'', ''can't have value == 0'', ''sem_op error''})"
| "admissible (Op_Get key) = False"
| "admissible (Op_Dec b i) = False"
| "admissible _ = True"

text \<open>Keys and identifiers belong together.\<close>

definition keys_ok :: "kern \<Rightarrow> bool" where
  "keys_ok k \<longleftrightarrow> (\<forall>i. kids k i \<noteq> None \<longrightarrow> i < knext k) \<and> (\<forall>key i. kkey k key = Some i \<longleftrightarrow> map_option skey (kids k i) = Some key)"

definition refs_ok :: "(nat \<Rightarrow> pc) \<Rightarrow> kern \<Rightarrow> bool" where
  "refs_ok ps k \<longleftrightarrow> (\<forall>p i. locks i (ps p) \<or> uses i (ps p) \<longrightarrow> kids k i \<noteq> None)"

definition sem_inv :: "nat \<Rightarrow> sys \<Rightarrow> bool" where
  "sem_inv N c \<longleftrightarrow> (\<forall>p. N \<le> p \<longrightarrow> procs c p = Idle 0) \<and> (\<forall>p. admissible (procs c p)) \<and> keys_ok (kernel c) \<and> refs_ok (procs c) (kernel c) \<and>
     (\<forall>i ss. kids (kernel c) i = Some ss \<longrightarrow> set_ok N (procs c) i ss)"

lemma keys_ok_upd:
  assumes "keys_ok k" "\<And>i. map_option skey (f i) = map_option skey (kids k i)"
  shows "keys_ok (k\<lparr>kids := f\<rparr>)"
proof -
  have "f i \<noteq> None \<longleftrightarrow> kids k i \<noteq> None" for i using assms(2) [of i] by (metis option.map_disc_iff)
  then show ?thesis using assms by (simp add: keys_ok_def)
qed

lemma keys_ok_rm:
  assumes "keys_ok k" "kids k i = Some ss"
  shows "keys_ok (k\<lparr>kids := (kids k)(i := None), kkey := (kkey k)(skey ss := None)\<rparr>)"
proof -
  have "kkey k (skey ss) = Some i" using assms by (simp add: keys_ok_def)
  then have "map_option skey (kids k j) = Some (skey ss) \<Longrightarrow> j = i" for j
    using assms(1) unfolding keys_ok_def by (metis option.inject)
  then show ?thesis using assms by (auto simp: keys_ok_def)
qed

lemma keys_ok_new:
  assumes "keys_ok k" "kkey k (skey ss) = None"
  shows "keys_ok (k\<lparr>kids := (kids k)(knext k \<mapsto> ss), kkey := (kkey k)(skey ss \<mapsto> knext k), knext := knext k + 1\<rparr>)"
proof -
  have "kids k (knext k) = None" using assms(1) by (auto simp: keys_ok_def)
  moreover have "map_option skey (kids k j) \<noteq> Some (skey ss)" for j using assms by (metis keys_ok_def option.distinct(1))
  ultimately show ?thesis using assms(1) by (auto simp: keys_ok_def less_SucI)
qed

lemma sem_invD:
  assumes "sem_inv N c"
  shows "keys_ok (kernel c)" "refs_ok (procs c) (kernel c)" "kids (kernel c) i = Some ss \<Longrightarrow> set_ok N (procs c) i ss"
  using assms by (simp_all add: sem_inv_def)

text \<open>A step of process \<open>p\<close>.\<close>

lemma sem_invI:
  assumes "sem_inv N c" "p < N" "admissible s" "keys_ok k"
    "\<And>i. locks i s \<or> uses i s \<Longrightarrow> kids k i \<noteq> None" "\<And>q i. q \<noteq> p \<Longrightarrow> locks i (procs c q) \<or> uses i (procs c q) \<Longrightarrow> kids k i \<noteq> None"
    "\<And>i ss. kids k i = Some ss \<Longrightarrow> set_ok N ((procs c)(p := s)) i ss"
  shows "sem_inv N (proc p c (s, k))"
  using assms by (simp add: sem_inv_def proc_def refs_ok_def)

lemma phase_unlocked: "\<not> locks i s \<Longrightarrow> phase i s x"
  by (cases s) auto

lemma locks_or_uses: "locks i s \<Longrightarrow> \<not> uses i s"
  by (cases s) auto

lemma users_upd:
  assumes "p < N"
  shows "users N (ps(p := s)) i = users N ps i + (if uses i s then 1 else 0) - (if uses i (ps p) then 1 else 0)"
proof -
  let ?A = "{q. q < N \<and> uses i (ps q)} - {p}"
  have e: "{q. q < N \<and> uses i ((ps(p := s)) q)} = (if uses i s then insert p ?A else ?A)"
    "{q. q < N \<and> uses i (ps q)} = (if uses i (ps p) then insert p ?A else ?A)" using assms by auto
  have "finite ?A" "p \<notin> ?A" by auto
  then have "card (insert p ?A) = Suc (card ?A)" by (rule card_insert_disjoint)
  then show ?thesis unfolding users_def e(1) by (subst e(2)) auto
qed

lemma users_bounds: "0 \<le> users N ps i" "users N ps i \<le> int N" "p < N \<Longrightarrow> uses i (ps p) \<Longrightarrow> 1 \<le> users N ps i"
proof -
  show "0 \<le> users N ps i" by (simp add: users_def)
  have "card {p. p < N \<and> uses i (ps p)} \<le> card {..<N}" by (rule card_mono) auto
  then show "users N ps i \<le> int N" by (simp add: users_def)
  assume "p < N" "uses i (ps p)"
  then have "0 < card {p. p < N \<and> uses i (ps p)}" by (auto simp: card_gt_0_iff)
  then show "1 \<le> users N ps i" by (simp add: users_def)
qed

section \<open>One set\<close>

lemma set_frame:
  assumes "set_ok N ps i ss" "p < N" "locks i s = locks i (ps p)" "uses i s = uses i (ps p)" "phase i s (sval ss 1)"
    "sval ss' 1 = sval ss 1" "sval ss' 2 = sval ss 2" "\<And>q. sadj ss' q 1 = sadj ss q 1" "\<And>q. sadj ss' q 2 = sadj ss q 2"
  shows "set_ok N (ps(p := s)) i ss'"
proof -
  have "locks i ((ps(p := s)) q) = locks i (ps q)" "uses i ((ps(p := s)) q) = uses i (ps q)" for q using assms(3,4) by auto
  moreover have "users N (ps(p := s)) i = users N ps i" using users_upd [OF assms(2), of ps s i] assms(4) by simp
  ultimately show ?thesis using assms(1,5-9) by (auto simp: set_ok_def)
qed

lemma set_lock:
  assumes "set_ok N ps i ss" "p < N" "\<not> locks i (ps p)" "locks i s" "sval ss 2 = 0" "phase i s (sval ss' 1)"
    "sval ss' 2 = 1" "sval ss' 1 = (if uses i (ps p) then sval ss 1 + 1 else sval ss 1)"
    "sadj ss' = (sadj ss)(p := a)" "a 2 = -1" "a 1 = 0"
  shows "set_ok N (ps(p := s)) i ss'"
proof -
  have free: "\<not> locks i (ps q)" for q using assms(1,5) by (auto simp: set_ok_def split: if_splits)
  have s: "\<not> uses i s" using assms(4) locks_or_uses by blast
  have u: "users N (ps(p := s)) i = users N ps i - (if uses i (ps p) then 1 else 0)"
    using users_upd [OF assms(2), of ps s i] s by simp
  have "sval ss' 1 = 0 \<and> users N (ps(p := s)) i = 0 \<or> sval ss' 1 = BIGCOUNT - users N (ps(p := s)) i"
    using assms(1,8) u users_bounds(3) [OF assms(2), of i ps] by (auto simp: set_ok_def)
  then show ?thesis using assms(1,4,6,7,9-11) free s by (auto simp: set_ok_def phase_unlocked)
qed

lemma set_unlock:
  assumes "set_ok N ps i ss" "p < N" "locks i (ps p)" "\<not> locks i s" "sval ss 1 \<noteq> 0"
    "sval ss' 2 = 0" "sval ss' 1 = (if uses i s then sval ss 1 - 1 else sval ss 1)"
    "sadj ss' = (sadj ss)(p := a)" "a 2 = 0" "a 1 = (if uses i s then 1 else 0)"
  shows "set_ok N (ps(p := s)) i ss'"
proof -
  have only: "locks i (ps q) \<longleftrightarrow> q = p" for q using assms(1,3) by (auto simp: set_ok_def)
  have "\<not> uses i (ps p)" using assms(3) locks_or_uses by blast
  then have "users N (ps(p := s)) i = users N ps i + (if uses i s then 1 else 0)"
    using users_upd [OF assms(2), of ps s i] by simp
  then have "sval ss' 1 = BIGCOUNT - users N (ps(p := s)) i" using assms(1,5,7) by (auto simp: set_ok_def)
  then show ?thesis using assms(1,4,6,8-10) only by (auto simp: set_ok_def phase_unlocked)
qed

lemma set_undo:
  assumes "set_ok N ps i ss" "p < N" "\<not> locks i s" "\<not> uses i s" "int N < BIGCOUNT"
  shows "set_ok N (ps(p := s)) i (undo p ss)"
proof -
  have u: "users N (ps(p := s)) i = users N ps i - (if uses i (ps p) then 1 else 0)"
    using users_upd [OF assms(2), of ps s i] assms(4) by simp
  have b: "0 \<le> users N ps i" "users N ps i \<le> int N" "uses i (ps p) \<Longrightarrow> 1 \<le> users N ps i"
    using users_bounds(1,2) [of N ps i] users_bounds(3) [OF assms(2)] by auto
  note ok = assms(1) [unfolded set_ok_def]
  have s1: "sval (undo p ss) 1 = sval ss 1 + (if uses i (ps p) then 1 else 0)"
    using ok b assms(5) by (auto simp: undo_def clamp_def SEMVMX_def BIGCOUNT_def)
  have s2: "sval (undo p ss) 2 = (if locks i (ps p) then 0 else sval ss 2)"
    using ok by (auto simp: undo_def clamp_def SEMVMX_def)
  have only: "locks i (ps p) \<Longrightarrow> locks i (ps q) \<Longrightarrow> q = p" for q using ok by blast
  have cnt: "sval (undo p ss) 1 = 0 \<and> users N (ps(p := s)) i = 0 \<or> sval (undo p ss) 1 = BIGCOUNT - users N (ps(p := s)) i"
    using ok s1 u b by auto
  have ph: "phase i ((ps(p := s)) q) (sval (undo p ss) 1)" for q
  proof (cases "q \<noteq> p \<and> locks i (ps q) \<and> uses i (ps p)")
    case True
    have "sval ss 1 \<noteq> 0" "sval ss 1 < BIGCOUNT" "phase i (ps q) (sval ss 1)" using True ok b assms(5) by auto
    moreover have "0 < sval ss 1" using ok b assms(5) True by auto
    ultimately have "phase i (ps q) (sval ss 1 + 1)" by (cases "ps q") (auto split: if_splits)
    then show ?thesis using True s1 by simp
  next
    case False
    then show ?thesis using ok s1 assms(3) by (auto simp: phase_unlocked)
  qed
  have "sadj (undo p ss) q n = (if q = p then 0 else sadj ss q n)" for q n by (simp add: undo_def)
  moreover have "(\<exists>q. locks i ((ps(p := s)) q)) \<longleftrightarrow> (\<exists>q. q \<noteq> p \<and> locks i (ps q))" using assms(3) by auto
  then have "sval (undo p ss) 2 = (if \<exists>q. locks i ((ps(p := s)) q) then 1 else 0)" using s2 ok only by (metis (full_types))
  ultimately show ?thesis using ok cnt ph assms(3,4) unfolding set_ok_def by auto
qed

section \<open>One call\<close>

text \<open>A step that changes one set at most, and is of no other one.\<close>

lemma inv_set:
  assumes "sem_inv N c" "p < N" "kids (kernel c) i = Some ss" "skey ss' = skey ss" "set_ok N ((procs c)(p := s)) i ss'"
    "admissible s" "\<And>j. j \<noteq> i \<Longrightarrow> \<not> locks j s \<and> \<not> uses j s \<and> \<not> locks j (procs c p) \<and> \<not> uses j (procs c p)"
  shows "sem_inv N (proc p c (s, (kernel c)\<lparr>kids := (kids (kernel c))(i \<mapsto> ss')\<rparr>))"
proof (rule sem_invI [OF assms(1,2,6)])
  have fr: "set_ok N ((procs c)(p := s)) j ssj" if "j \<noteq> i" "kids (kernel c) j = Some ssj" for j ssj
    using set_frame [OF sem_invD(3) [OF assms(1) that(2)] assms(2)] assms(7) [OF that(1)] by (simp add: phase_unlocked)
  show "set_ok N ((procs c)(p := s)) j t" if "kids ((kernel c)\<lparr>kids := (kids (kernel c))(i \<mapsto> ss')\<rparr>) j = Some t" for j t
    using that fr assms(5) by (cases "j = i") auto
  show "keys_ok ((kernel c)\<lparr>kids := (kids (kernel c))(i \<mapsto> ss')\<rparr>)"
    by (rule keys_ok_upd [OF sem_invD(1) [OF assms(1)]]) (simp add: assms(3,4))
qed (use assms(7) sem_invD(2) [OF assms(1)] in \<open>auto simp: refs_ok_def\<close>)

text \<open>A step that changes no set.\<close>

lemma inv_pc:
  assumes "sem_inv N c" "p < N" "admissible s" "\<And>j. locks j s = locks j (procs c p) \<and> uses j s = uses j (procs c p)"
    "\<And>j ss. kids (kernel c) j = Some ss \<Longrightarrow> phase j s (sval ss 1)"
  shows "sem_inv N (proc p c (s, kernel c))"
proof (rule sem_invI [OF assms(1-3)])
  show "set_ok N ((procs c)(p := s)) j ss" if "kids (kernel c) j = Some ss" for j ss
    using set_frame [OF sem_invD(3) [OF assms(1) that] assms(2)] assms(4) [of j] assms(5) [OF that] by simp
qed (use assms(4) sem_invD [OF assms(1)] in \<open>auto simp: refs_ok_def\<close>)

text \<open>The end of a process.\<close>

lemma inv_exit:
  assumes "sem_inv N c" "p < N" "int N < BIGCOUNT" "admissible s" "\<And>j. \<not> locks j s \<and> \<not> uses j s"
  shows "sem_inv N (proc p c (s, proc_exit p (kernel c)))"
proof (rule sem_invI [OF assms(1,2,4)])
  have "set_ok N ((procs c)(p := s)) j (undo p ss)" if "kids (kernel c) j = Some ss" for j ss
    using set_undo [OF sem_invD(3) [OF assms(1) that] assms(2)] assms(3,5) by simp
  then show "set_ok N ((procs c)(p := s)) j t" if "kids (proc_exit p (kernel c)) j = Some t" for j t
    using that by (auto simp: proc_exit_def)
  show "keys_ok (proc_exit p (kernel c))" unfolding proc_exit_def
    by (rule keys_ok_upd [OF sem_invD(1) [OF assms(1)]]) (simp add: option.map_comp comp_def undo_def)
qed (use assms(5) sem_invD(2) [OF assms(1)] in \<open>auto simp: refs_ok_def proc_exit_def\<close>)

lemma inv_rm:
  assumes "sem_inv N c" "p < N" "procs c p = Cl_Rm i"
  shows "\<exists>k. sem_rm p i (kernel c) = (None, k) \<and> sem_inv N (proc p c (Idle 0, k))"
proof -
  let ?k = "kernel c"
  obtain ss where ss: "kids ?k i = Some ss" "set_ok N (procs c) i ss"
    using sem_invD(2,3) [OF assms(1)] assms(3) by (metis locks.simps(6) not_None_eq refs_ok_def)
  have "phase i (procs c p) (sval ss 1)" using ss(2) by (simp add: set_ok_def)
  then have "users N (procs c) i = 0" using ss(2) assms(3) by (auto simp: set_ok_def BIGCOUNT_def)
  then have nu: "\<not> uses i (procs c q)" for q
    using users_bounds(3) [of q N i "procs c"] assms(1) by (cases "q < N") (auto simp: sem_inv_def)
  have nl: "locks i (procs c q) \<Longrightarrow> q = p" for q using ss(2) assms(3) by (auto simp: set_ok_def)
  let ?k' = "?k\<lparr>kids := (kids ?k)(i := None), kkey := (kkey ?k)(skey ss := None)\<rparr>"
  have "sem_inv N (proc p c (Idle 0, ?k'))"
  proof (rule sem_invI [OF assms(1,2)])
    show "set_ok N ((procs c)(p := Idle 0)) j t" if "kids ?k' j = Some t" for j t
    proof -
      have j: "j \<noteq> i" "kids ?k j = Some t" using that by (auto split: if_splits)
      then show ?thesis using set_frame [OF sem_invD(3) [OF assms(1) j(2)] assms(2), of "Idle 0" t] assms(3) by simp
    qed
    show "keys_ok ?k'" by (rule keys_ok_rm [OF sem_invD(1) [OF assms(1)] ss(1)])
    show "kids ?k' j \<noteq> None" if "q \<noteq> p" "locks j (procs c q) \<or> uses j (procs c q)" for q j
    proof -
      have "j \<noteq> i" using that nu nl by blast
      then show ?thesis using that(2) sem_invD(2) [OF assms(1)] by (auto simp: refs_ok_def)
    qed
  qed simp_all
  moreover have "sem_rm p i ?k = (None, ?k')" by (simp add: sem_rm_def semctl_rmid_def ss(1))
  ultimately show ?thesis by blast
qed

section \<open>Every call keeps the invariant\<close>

lemma counter_range:
  assumes "set_ok N ps i ss" "int N < BIGCOUNT"
  shows "0 \<le> sval ss 1" "sval ss 1 \<le> BIGCOUNT" "p < N \<Longrightarrow> uses i (ps p) \<Longrightarrow> 0 < sval ss 1 \<and> sval ss 1 < BIGCOUNT"
  using assms users_bounds(1,2) [of N ps i] users_bounds(3) [of p N i ps] by (auto simp: set_ok_def BIGCOUNT_def)

lemma lock_free: "set_ok N ps i ss \<Longrightarrow> sval ss 2 = 0 \<or> sval ss 2 = 1"
  by (auto simp: set_ok_def)

lemma lock_held: "set_ok N ps i ss \<Longrightarrow> locks i (ps p) \<Longrightarrow> sval ss 2 = 1 \<and> sadj ss p 2 = -1 \<and> sadj ss p 1 = 0"
  using locks_or_uses by (auto simp: set_ok_def)

lemma live_set:
  assumes "sem_inv N c" "locks i (procs c p) \<or> uses i (procs c p)"
  obtains ss where "kids (kernel c) i = Some ss" "set_ok N (procs c) i ss"
  using sem_invD(2,3) [OF assms(1)] assms(2) unfolding refs_ok_def by (metis not_None_eq)

lemma inv_get:
  assumes "sem_inv N c" "p < N" "procs c p = Cr_Get key v"
  shows "sem_inv N (proc p c (create_step fail p (procs c p) (kernel c)))"
proof (cases "fail \<or> kkey (kernel c) key \<noteq> None")
  case True
  have "sem_inv N (proc p c (s, kernel c))" if "s = Idle (-1) \<or> (\<exists>i. s = Cr_Lock False i key v)" for s
    by (rule inv_pc [OF assms(1,2)]) (use that assms(3) in auto)
  then show ?thesis using True assms(3) by (auto simp: semget_def)
next
  case False
  let ?k = "kernel c" and ?ss = "\<lparr>sval = \<lambda>_. 0, sadj = \<lambda>_ _. 0, skey = key\<rparr>"
  let ?s = "Cr_Lock False (knext ?k) key v"
  let ?k' = "?k\<lparr>kids := (kids ?k)(knext ?k \<mapsto> ?ss), kkey := (kkey ?k)(key \<mapsto> knext ?k), knext := knext ?k + 1\<rparr>"
  have "kids ?k (knext ?k) = None" using sem_invD(1) [OF assms(1)] by (auto simp: keys_ok_def)
  then have none: "\<not> locks (knext ?k) (procs c q)" "\<not> uses (knext ?k) (procs c q)" for q
    using sem_invD(2) [OF assms(1)] unfolding refs_ok_def by blast+
  have "sem_inv N (proc p c (?s, ?k'))"
  proof (rule sem_invI [OF assms(1,2)])
    show "keys_ok ?k'" using keys_ok_new [OF sem_invD(1) [OF assms(1)], of ?ss] False by simp
    show "set_ok N ((procs c)(p := ?s)) j t" if "kids ?k' j = Some t" for j t
    proof (cases "j = knext ?k")
      case True
      have "{q. q < N \<and> uses (knext ?k) (((procs c)(p := ?s)) q)} = {}" using none by auto
      then show ?thesis using that True none by (auto simp: set_ok_def users_def phase_unlocked)
    next
      case False
      then show ?thesis using that set_frame [OF sem_invD(3) [OF assms(1)] assms(2), of j t ?s t] assms(3) by simp
    qed
  qed (use sem_invD(2) [OF assms(1)] in \<open>auto simp: refs_ok_def\<close>)
  then show ?thesis using False assms(3) by (simp add: semget_def)
qed

lemma inv_lock:
  assumes "sem_inv N c" "p < N" "int N < BIGCOUNT" "procs c p = Cr_Lock b i key v"
  shows "sem_inv N (proc p c (create_step fail p (procs c p) (kernel c)))"
proof (cases "kids (kernel c) i")
  case None
  have "sem_inv N (proc p c (Cr_Get key v, kernel c))" by (rule inv_pc [OF assms(1,2)]) (use assms(4) in auto)
  moreover have "sem_inv N (proc p c (Dead (Err_sys ''can't lock''), proc_exit p (kernel c)))"
    by (rule inv_exit [OF assms(1-3)]) auto
  ultimately show ?thesis using assms(4) None by (simp add: semop_def EIDRM_def die_def)
next
  case (Some ss)
  note ok = sem_invD(3) [OF assms(1) Some]
  let ?ss' = "ss\<lparr>sval := (sval ss)(2 := 1), sadj := (sadj ss)(p := (sadj ss p)(2 := -1))\<rparr>"
  have "sadj ss p 2 = 0" "sadj ss p 1 = 0" using ok assms(4) by (auto simp: set_ok_def)
  then have r: "create_step fail p (procs c p) (kernel c) =
      (if sval ss 2 = 0 then (Cr_Getval i v, (kernel c)\<lparr>kids := (kids (kernel c))(i \<mapsto> ?ss')\<rparr>) else (Cr_Lock True i key v, kernel c))"
    using assms(4) Some lock_free [OF ok] by (auto simp: semop_def sem_ops SEMVMX_def)
  show ?thesis
  proof (cases "sval ss 2 = 0")
    case True
    have "set_ok N ((procs c)(p := Cr_Getval i v)) i ?ss'"
      by (rule set_lock [OF ok assms(2), where a = "(sadj ss p)(2 := -1)"]) (use assms(4) True \<open>sadj ss p 1 = 0\<close> in auto)
    from inv_set [OF assms(1,2) Some _ this] show ?thesis using r True assms(4) by simp
  next
    case False
    have "sem_inv N (proc p c (Cr_Lock True i key v, kernel c))" by (rule inv_pc [OF assms(1,2)]) (use assms(4) in auto)
    then show ?thesis using r False by simp
  qed
qed

lemma inv_create_getval:
  assumes "sem_inv N c" "p < N" "int N < BIGCOUNT" "procs c p = Cr_Getval i v"
  shows "sem_inv N (proc p c (create_step fail p (procs c p) (kernel c)))"
proof -
  obtain ss where ss: "kids (kernel c) i = Some ss" "set_ok N (procs c) i ss" using live_set [OF assms(1), of i p] assms(4) by auto
  have "sem_inv N (proc p c (if sval ss 1 = 0 then Cr_Set0 i v else Cr_End False i, kernel c))"
    by (rule inv_pc [OF assms(1,2)]) (use assms(4) ss(1) in auto)
  then show ?thesis using assms(4) ss(1) counter_range(1) [OF ss(2) assms(3)]
    by (auto simp: semctl_getval_def Let_def split: if_splits)
qed

lemma inv_set0:
  assumes "sem_inv N c" "p < N" "int N < BIGCOUNT" "procs c p = Cr_Set0 i v"
  shows "sem_inv N (proc p c (create_step fail p (procs c p) (kernel c)))"
proof -
  obtain ss where ss: "kids (kernel c) i = Some ss" "set_ok N (procs c) i ss" using live_set [OF assms(1), of i p] assms(4) by auto
  let ?ss' = "ss\<lparr>sval := (sval ss)(0 := v), sadj := (\<lambda>p. (sadj ss p)(0 := 0))\<rparr>"
  have "phase i (procs c p) (sval ss 1)" using ss(2) by (simp add: set_ok_def)
  then have "set_ok N ((procs c)(p := Cr_Set1 i)) i ?ss'"
    by (intro set_frame [OF ss(2) assms(2)]) (use assms(4) in auto)
  from inv_set [OF assms(1,2) ss(1) _ this]
  have "sem_inv N (proc p c (Cr_Set1 i, (kernel c)\<lparr>kids := (kids (kernel c))(i \<mapsto> ?ss')\<rparr>))" using assms(4) by simp
  moreover have "sem_inv N (proc p c (Dead (Err_sys ''can SETVAL[0]''), proc_exit p (kernel c)))"
    by (rule inv_exit [OF assms(1-3)]) auto
  ultimately show ?thesis using assms(4) ss(1) by (simp add: semctl_setval_def die_def)
qed

lemma inv_set1:
  assumes "sem_inv N c" "p < N" "procs c p = Cr_Set1 i" "int N < BIGCOUNT"
  shows "sem_inv N (proc p c (create_step fail p (procs c p) (kernel c)))"
proof -
  obtain ss where ss: "kids (kernel c) i = Some ss" "set_ok N (procs c) i ss" using live_set [OF assms(1), of i p] assms(3) by auto
  let ?ss' = "ss\<lparr>sval := (sval ss)(1 := BIGCOUNT), sadj := (\<lambda>p. (sadj ss p)(1 := 0))\<rparr>"
  have "phase i (procs c p) (sval ss 1)" using ss(2) by (simp add: set_ok_def)
  then have z: "users N (procs c) i = 0" using ss(2) users_bounds(2) [of N "procs c" i] assms(2-4) by (auto simp: set_ok_def)
  have "\<not> uses i (procs c q)" for q
    using users_bounds(3) [of q N i "procs c"] z assms(1) by (cases "q < N") (auto simp: sem_inv_def)
  moreover have "locks i (procs c q) \<longleftrightarrow> q = p" for q using ss(2) assms(3) by (auto simp: set_ok_def)
  moreover have "users N ((procs c)(p := Cr_End False i)) i = 0" using users_upd [OF assms(2)] z assms(3) by simp
  ultimately have "set_ok N ((procs c)(p := Cr_End False i)) i ?ss'"
    using ss(2) by (auto simp: set_ok_def BIGCOUNT_def phase_unlocked)
  from inv_set [OF assms(1,2) ss(1) _ this] show ?thesis using assms(3) ss(1) by (simp add: semctl_setval_def SEMVMX_def BIGCOUNT_def)
qed

lemma inv_end:
  assumes "sem_inv N c" "p < N" "int N < BIGCOUNT" "procs c p = Cr_End b i"
  shows "sem_inv N (proc p c (create_step fail p (procs c p) (kernel c)))"
proof -
  obtain ss where ss: "kids (kernel c) i = Some ss" "set_ok N (procs c) i ss" using live_set [OF assms(1), of i p] assms(4) by auto
  have h: "sval ss 2 = 1" "sadj ss p 2 = -1" "sadj ss p 1 = 0" using lock_held [OF ss(2), of p] assms(4) by auto
  have "phase i (procs c p) (sval ss 1)" using ss(2) by (simp add: set_ok_def)
  then have v: "0 < sval ss 1" "sval ss 1 \<le> BIGCOUNT" using counter_range(1,2) [OF ss(2) assms(3)] assms(4) by auto
  let ?a = "(sadj ss p)(1 := 1, 2 := 0)"
  let ?ss' = "ss\<lparr>sval := (sval ss)(1 := sval ss 1 - 1, 2 := 0), sadj := (sadj ss)(p := ?a)\<rparr>"
  have "set_ok N ((procs c)(p := Use i)) i ?ss'"
    by (rule set_unlock [OF ss(2) assms(2), where a = ?a]) (use assms(4) v in auto)
  from inv_set [OF assms(1,2) ss(1) _ this] show ?thesis
    using assms(4) ss(1) h v by (simp add: semop_def sem_ops SEMVMX_def BIGCOUNT_def)
qed

lemma inv_op:
  assumes "sem_inv N c" "p < N" "int N < BIGCOUNT" "procs c p = Sem_Op b i v"
  shows "sem_inv N (proc p c (op_step p (procs c p) (kernel c)))"
proof -
  obtain ss where ss: "kids (kernel c) i = Some ss" "set_ok N (procs c) i ss" using live_set [OF assms(1), of i p] assms(4) by auto
  let ?ss' = "ss\<lparr>sval := (sval ss)(0 := sval ss 0 + v), sadj := (sadj ss)(p := (sadj ss p)(0 := sadj ss p 0 - v))\<rparr>"
  have "set_ok N ((procs c)(p := Use i)) i ?ss'" by (rule set_frame [OF ss(2) assms(2)]) (use assms(4) in auto)
  from inv_set [OF assms(1,2) ss(1) _ this]
  have "sem_inv N (proc p c (Use i, (kernel c)\<lparr>kids := (kids (kernel c))(i \<mapsto> ?ss')\<rparr>))" using assms(4) by simp
  moreover have "sem_inv N (proc p c (Sem_Op True i v, kernel c))" by (rule inv_pc [OF assms(1,2)]) (use assms(4) in auto)
  moreover have "sem_inv N (proc p c (Dead (Err_sys ''sem_op error''), proc_exit p (kernel c)))"
    by (rule inv_exit [OF assms(1-3)]) auto
  ultimately show ?thesis using assms(4) ss(1) by (simp add: semop_def sem_ops die_def Let_def)
qed

lemma inv_close_lock:
  assumes "sem_inv N c" "p < N" "int N < BIGCOUNT" "procs c p = Cl_Lock b i"
  shows "sem_inv N (proc p c (close_step p (procs c p) (kernel c)))"
proof -
  obtain ss where ss: "kids (kernel c) i = Some ss" "set_ok N (procs c) i ss" using live_set [OF assms(1), of i p] assms(4) by auto
  have a: "sadj ss p 2 = 0" "sadj ss p 1 = 1" using ss(2) assms(4) by (auto simp: set_ok_def)
  have v: "0 < sval ss 1" "sval ss 1 < BIGCOUNT" using counter_range(3) [OF ss(2) assms(3,2)] assms(4) by auto
  let ?a = "(sadj ss p)(2 := -1, 1 := 0)"
  let ?ss' = "ss\<lparr>sval := (sval ss)(2 := 1, 1 := sval ss 1 + 1), sadj := (sadj ss)(p := ?a)\<rparr>"
  have "sem_inv N (proc p c (Cl_Getval i, (kernel c)\<lparr>kids := (kids (kernel c))(i \<mapsto> ?ss')\<rparr>))" if "sval ss 2 = 0"
  proof -
    have "set_ok N ((procs c)(p := Cl_Getval i)) i ?ss'"
      by (rule set_lock [OF ss(2) assms(2), where a = ?a]) (use assms(4) v that in auto)
    from inv_set [OF assms(1,2) ss(1) _ this] show ?thesis using assms(4) by simp
  qed
  moreover have "sem_inv N (proc p c (Cl_Lock True i, kernel c))" by (rule inv_pc [OF assms(1,2)]) (use assms(4) in auto)
  ultimately show ?thesis using lock_free [OF ss(2)] assms(4) ss(1) a v
    by (auto simp: semop_def sem_ops SEMVMX_def BIGCOUNT_def)
qed

lemma inv_close_getval:
  assumes "sem_inv N c" "p < N" "int N < BIGCOUNT" "procs c p = Cl_Getval i"
  shows "sem_inv N (proc p c (close_step p (procs c p) (kernel c)))"
proof -
  obtain ss where ss: "kids (kernel c) i = Some ss" "set_ok N (procs c) i ss" using live_set [OF assms(1), of i p] assms(4) by auto
  have "phase i (procs c p) (sval ss 1)" using ss(2) by (simp add: set_ok_def)
  then have "sem_inv N (proc p c (if sval ss 1 = BIGCOUNT then Cl_Rm i else Cl_Unlock False i, kernel c))"
    by (intro inv_pc [OF assms(1,2)]) (use assms(4) ss(1) in auto)
  then show ?thesis using assms(4) ss(1) counter_range(1,2) [OF ss(2) assms(3)]
    by (auto simp: semctl_getval_def Let_def split: if_splits)
qed

lemma inv_unlock:
  assumes "sem_inv N c" "p < N" "int N < BIGCOUNT" "procs c p = Cl_Unlock b i"
  shows "sem_inv N (proc p c (close_step p (procs c p) (kernel c)))"
proof -
  obtain ss where ss: "kids (kernel c) i = Some ss" "set_ok N (procs c) i ss" using live_set [OF assms(1), of i p] assms(4) by auto
  have h: "sval ss 2 = 1" "sadj ss p 2 = -1" "sadj ss p 1 = 0" using lock_held [OF ss(2), of p] assms(4) by auto
  have "phase i (procs c p) (sval ss 1)" using ss(2) by (simp add: set_ok_def)
  then have v: "sval ss 1 \<noteq> 0" using assms(4) by auto
  let ?a = "(sadj ss p)(2 := 0)"
  let ?ss' = "ss\<lparr>sval := (sval ss)(2 := 0), sadj := (sadj ss)(p := ?a)\<rparr>"
  have "set_ok N ((procs c)(p := Idle 0)) i ?ss'"
    by (rule set_unlock [OF ss(2) assms(2), where a = ?a]) (use assms(4) v h in auto)
  from inv_set [OF assms(1,2) ss(1) _ this] show ?thesis
    using assms(4) ss(1) h by (simp add: semop_def sem_ops SEMVMX_def)
qed

lemmas inv_calls = inv_get inv_lock inv_create_getval inv_set0 inv_set1 inv_end inv_op inv_close_lock inv_close_getval inv_unlock

lemma sem_step_inv:
  assumes "sem_inv N c" "p < N" "int N < BIGCOUNT"
  shows "sem_inv N (proc p c (sem_step fail p (procs c p) (kernel c)))"
proof -
  have id: "sem_inv N (proc p c (procs c p, kernel c))"
    using assms(1) by (simp add: proc_def)
  have adm: "admissible (procs c p)" using assms(1) by (simp add: sem_inv_def)
  show ?thesis
  proof (cases "procs c p")
    case (Cl_Rm i)
    then show ?thesis using inv_rm [OF assms(1,2) Cl_Rm] by (auto simp: sem_step_def)
  qed (use id adm inv_calls [OF assms(1,2)] assms(3) in \<open>simp_all add: sem_step_def\<close>)
qed

lemma sem_sys_inv:
  assumes "sem_sys N c d" "sem_inv N c" "int N < BIGCOUNT"
  shows "sem_inv N d"
  using assms(1)
proof cases
  case (create p r key v)
  show ?thesis unfolding create(1) by (rule inv_pc [OF assms(2) create(2)]) (use create(3) in \<open>auto simp: sem_create_def\<close>)
next
  case (operate p i v)
  have "sem_inv N (proc p c (Dead (Err_sys ''can't have value == 0''), proc_exit p (kernel c)))"
    by (rule inv_exit [OF assms(2) operate(2) assms(3)]) auto
  moreover have "sem_inv N (proc p c (Sem_Op False i v, kernel c))"
    by (rule inv_pc [OF assms(2) operate(2)]) (use operate(3) in auto)
  ultimately show ?thesis unfolding operate(1) by (simp add: sem_op_def die_def)
next
  case (close p i)
  show ?thesis unfolding close(1) by (rule inv_pc [OF assms(2) close(2)]) (use close(3) in \<open>auto simp: sem_close_def\<close>)
next
  case (run p fail)
  then show ?thesis using sem_step_inv [OF assms(2) _ assms(3)] by simp
next
  case (exit p)
  show ?thesis unfolding exit(1) by (rule inv_exit [OF assms(2) exit(2) assms(3)]) auto
qed

lemma sem_reach_inv:
  assumes "sem_reach N c" "int N < BIGCOUNT"
  shows "sem_inv N c"
  using assms(1)
proof induction
  case reach_init
  show ?case by (simp add: sem_inv_def sem_init_def keys_ok_def refs_ok_def)
next
  case (reach_step c d)
  then show ?case using sem_sys_inv assms(2) by blast
qed

section \<open>Progress\<close>

text \<open>How many calls a process that holds a lock makes before it has released it.\<close>

fun rank :: "pc \<Rightarrow> nat" where
  "rank (Cr_Getval i v) = 4"
| "rank (Cr_Set0 i v) = 3"
| "rank (Cr_Set1 i) = 2"
| "rank (Cr_End b i) = 1"
| "rank (Cl_Getval i) = 2"
| "rank (Cl_Rm i) = 1"
| "rank (Cl_Unlock b i) = 1"
| "rank _ = 0"

lemma rank_locks: "rank s = 0 \<longleftrightarrow> (\<forall>i. \<not> locks i s)"
  by (cases s) auto

definition run_alone :: "nat \<Rightarrow> sys \<Rightarrow> sys" where
  "run_alone p c = proc p c (sem_step False p (procs c p) (kernel c))"

lemma rank_decreases:
  assumes "sem_inv N c" "int N < BIGCOUNT" "locks i (procs c p)"
  shows "rank (procs (run_alone p c) p) < rank (procs c p)"
proof -
  obtain ss where ss: "kids (kernel c) i = Some ss" "set_ok N (procs c) i ss" using live_set [OF assms(1), of i p] assms(3) by auto
  have h: "sval ss 2 = 1" using lock_held [OF ss(2) assms(3)] by auto
  have ph: "phase i (procs c p) (sval ss 1)" using ss(2) by (simp add: set_ok_def)
  note v = counter_range(1,2) [OF ss(2) assms(2)]
  show ?thesis
    using assms(3) ss(1) h ph v
    by (cases "procs c p")
      (auto simp: run_alone_def proc_def sem_step_def die_def semctl_getval_def semctl_setval_def semop_def sem_ops sem_rm_def semctl_rmid_def
        SEMVMX_def BIGCOUNT_def Let_def)
qed

lemma locks_in_range: "sem_inv N c \<Longrightarrow> locks i (procs c p) \<Longrightarrow> p < N"
  by (metis linorder_not_le locks.simps(8) sem_inv_def)

lemma lock_released:
  assumes "sem_inv N c" "int N < BIGCOUNT" "rank (procs c p) \<le> n"
  shows "\<exists>m \<le> n. rank (procs ((run_alone p ^^ m) c) p) = 0"
  using assms(1,3)
proof (induction n arbitrary: c)
  case (Suc n)
  show ?case
  proof (cases "rank (procs c p) = 0")
    case False
    then obtain i where i: "locks i (procs c p)" using rank_locks [of "procs c p"] by auto
    have "sem_inv N (run_alone p c)" unfolding run_alone_def
      by (rule sem_step_inv [OF Suc.prems(1) locks_in_range [OF Suc.prems(1) i] assms(2)])
    moreover have "rank (procs (run_alone p c) p) \<le> n" using rank_decreases [OF Suc.prems(1) assms(2) i] Suc.prems(2) by simp
    ultimately obtain m where "m \<le> n" "rank (procs ((run_alone p ^^ m) (run_alone p c)) p) = 0" using Suc.IH by blast
    then show ?thesis by (intro exI [of _ "Suc m"]) (simp add: funpow_swap1)
  qed (intro exI [of _ 0], simp)
qed simp

lemma rank_le: "rank s \<le> 4"
  by (cases s) auto

section \<open>Properties\<close>

text \<open>
  C20: The protocol of the semaphore library is safe. In every state that fewer than \<^verbatim>\<open>BIGCOUNT\<close>
  processes can reach with \<^verbatim>\<open>sem_create\<close>, \<^verbatim>\<open>sem_op\<close> and \<^verbatim>\<open>sem_close\<close>, interleaved call by call, with any
  process ending at any point: a semaphore in use is never removed; at most one process holds the
  lock of a set, the lock says whether one does, and left alone that process has released it after at most four calls;
  while a semaphore is in use its counter is \<^verbatim>\<open>BIGCOUNT\<close> less the number of its users; and a process is only
  ended by a wrong argument, an overflow of the value, or a set that was removed while it waited in \<^verbatim>\<open>sem_create\<close>.
\<close>

theorem sem_protocol_safe:
  assumes "sem_reach N c" "int N < BIGCOUNT"
  shows "(\<forall>p i. uses i (procs c p) \<longrightarrow> kids (kernel c) i \<noteq> None) \<and>
    (\<forall>i ss. kids (kernel c) i = Some ss \<longrightarrow>
       (\<forall>p q. locks i (procs c p) \<and> locks i (procs c q) \<longrightarrow> p = q) \<and> sval ss 2 = (if \<exists>p. locks i (procs c p) then 1 else 0) \<and>
       ((\<exists>p. uses i (procs c p)) \<longrightarrow> sval ss 1 = BIGCOUNT - int (card {p. p < N \<and> uses i (procs c p)}))) \<and>
    (\<forall>p. \<exists>m \<le> 4. \<forall>i. \<not> locks i (procs ((run_alone p ^^ m) c) p)) \<and>
    (\<forall>p e. procs c p = Dead e \<longrightarrow>
       e \<in> Err_sys ` {''can't lock'', ''can SETVAL[0]'', ''can't have value == 0'', ''sem_op error''})"
proof (intro conjI)
  note inv = sem_reach_inv [OF assms]
  show "\<forall>p i. uses i (procs c p) \<longrightarrow> kids (kernel c) i \<noteq> None" using sem_invD(2) [OF inv] unfolding refs_ok_def by blast
  have "sval ss 1 = BIGCOUNT - users N (procs c) i" if "kids (kernel c) i = Some ss" "uses i (procs c p)" for i ss p
  proof -
    have "p < N" using inv that(2) by (metis linorder_not_le sem_inv_def uses.simps(4))
    then show ?thesis using users_bounds(3) [of p N i "procs c"] sem_invD(3) [OF inv that(1)] that(2) by (auto simp: set_ok_def)
  qed
  then show "\<forall>i ss. kids (kernel c) i = Some ss \<longrightarrow>
       (\<forall>p q. locks i (procs c p) \<and> locks i (procs c q) \<longrightarrow> p = q) \<and> sval ss 2 = (if \<exists>p. locks i (procs c p) then 1 else 0) \<and>
       ((\<exists>p. uses i (procs c p)) \<longrightarrow> sval ss 1 = BIGCOUNT - int (card {p. p < N \<and> uses i (procs c p)}))"
    using sem_invD(3) [OF inv] unfolding users_def set_ok_def by blast
  show "\<forall>p. \<exists>m \<le> 4. \<forall>i. \<not> locks i (procs ((run_alone p ^^ m) c) p)" using lock_released [OF inv assms(2) rank_le] rank_locks by blast
  show "\<forall>p e. procs c p = Dead e \<longrightarrow> e \<in> Err_sys ` {''can't lock'', ''can SETVAL[0]'', ''can't have value == 0'', ''sem_op error''}"
    using inv unfolding sem_inv_def by (metis admissible.simps(1))
qed

text \<open>Process 0 has created a semaphore of value 1.\<close>

lemma reach_run: "sem_reach N c \<Longrightarrow> p < N \<Longrightarrow> sem_reach N ((run_alone p ^^ n) c)"
  by (induction n) (auto simp: run_alone_def intro: sem_reach.reach_step sem_sys.run)

definition ex_created :: sys where
  "ex_created = (run_alone 0 ^^ 6) (proc 0 sem_init (sem_create 5 1, kernel sem_init))"

lemma ex_created_reach: "0 < N \<Longrightarrow> sem_reach N ex_created"
  unfolding ex_created_def
  by (intro reach_run sem_reach.reach_step [OF sem_reach.reach_init] sem_sys.create) (auto simp: sem_init_def)

lemmas sem_eval = run_alone_def proc_def sem_step_def die_def semget_def semctl_getval_def semctl_setval_def semop_def sem_ops sem_rm_def semctl_rmid_def
  SEMVMX_def BIGCOUNT_def Let_def sem_init_def sem_create_def sem_close_def sem_open_def EIDRM_def

lemma ex_created_eq:
  "ex_created = \<lparr>kernel = \<lparr>kids = [0 \<mapsto> \<lparr>sval = (\<lambda>_. 0)(0 := 1, 1 := 9999, 2 := 0), sadj = (\<lambda>_ _. 0)(0 := (\<lambda>_. 0)(1 := 1)), skey = 5\<rparr>],
     kkey = [5 \<mapsto> 0], knext = 1\<rparr>, procs = (\<lambda>_. Idle 0)(0 := Use 0)\<rparr>"
  by (simp add: ex_created_def eval_nat_numeral sem_eval fun_upd_def fun_eq_iff)

theorem sem_protocol_safe_witness:
  "procs ex_created 0 = Use 0 \<and> (\<exists>ss. kids (kernel ex_created) 0 = Some ss \<and> sval ss 1 = BIGCOUNT - 1 \<and> sval ss 2 = 0)"
proof -
  have r: "sem_reach 2 ex_created" "int 2 < BIGCOUNT" by (simp_all add: ex_created_reach BIGCOUNT_def)
  have u: "uses i (procs ex_created p) \<longleftrightarrow> i = 0 \<and> p = 0" "\<not> locks i (procs ex_created p)" for i p by (simp_all add: ex_created_eq)
  have one: "{p. p < 2 \<and> uses 0 (procs ex_created p)} = {0}" using u(1) by auto
  obtain ss where ss: "kids (kernel ex_created) 0 = Some ss" by (simp add: ex_created_eq)
  from sem_protocol_safe [OF r] ss have
    "sval ss 2 = (if \<exists>p. locks 0 (procs ex_created p) then 1 else 0)"
    "(\<exists>p. uses 0 (procs ex_created p)) \<longrightarrow> sval ss 1 = BIGCOUNT - int (card {p. p < 2 \<and> uses 0 (procs ex_created p)})" by blast+
  then have "sval ss 2 = 0" "sval ss 1 = BIGCOUNT - 1" unfolding one using u by auto
  moreover have "procs ex_created 0 = Use 0" by (simp add: ex_created_eq)
  ultimately show ?thesis using ss by blast
qed

text \<open>
  A process that already waits in \<^verbatim>\<open>sem_create\<close> when the last user removes the set is ended: the call returns
  \<^verbatim>\<open>EIDRM\<close>, and only \<^verbatim>\<open>EINVAL\<close> leads back to \<^verbatim>\<open>again\<close>.
\<close>

definition ex_waiting :: sys where
  "ex_waiting =
     (let c1 = run_alone 0 (proc 0 ex_created (sem_close 0, kernel ex_created))
      in (run_alone 1 ^^ 2) (proc 1 c1 (sem_create 5 1, kernel c1)))"

theorem sem_create_race_dies:
  "procs ex_waiting 1 = Cr_Lock True 0 5 1"
  "procs (run_alone 1 ((run_alone 0 ^^ 2) ex_waiting)) 1 = Dead (Err_sys ''can't lock'')"
  "sem_reach 2 (run_alone 1 ((run_alone 0 ^^ 2) ex_waiting))"
proof -
  show "procs ex_waiting 1 = Cr_Lock True 0 5 1" "procs (run_alone 1 ((run_alone 0 ^^ 2) ex_waiting)) 1 = Dead (Err_sys ''can't lock'')"
    by (simp_all add: ex_waiting_def ex_created_eq eval_nat_numeral sem_eval)
  let ?c0 = "proc 0 ex_created (sem_close 0, kernel ex_created)"
  let ?c1 = "run_alone 0 ?c0"
  have "sem_reach 2 ?c0" by (intro sem_reach.reach_step [OF ex_created_reach] sem_sys.close) (simp_all add: ex_created_eq)
  then have "sem_reach 2 ?c1" using reach_run [of 2 ?c0 0 1] by simp
  then have "sem_reach 2 (proc 1 ?c1 (sem_create 5 1, kernel ?c1))"
    by (rule sem_reach.reach_step) (rule sem_sys.create, simp_all add: ex_created_eq sem_eval)
  then have "sem_reach 2 ex_waiting" unfolding ex_waiting_def Let_def by (rule reach_run) simp
  then have "sem_reach 2 ((run_alone 0 ^^ 2) ex_waiting)" by (rule reach_run) simp
  then show "sem_reach 2 (run_alone 1 ((run_alone 0 ^^ 2) ex_waiting))" using reach_run [of 2 _ 1 1] by simp
qed

text \<open>
  \<^verbatim>\<open>sem_open\<close> does not take the lock. A process that opens a semaphore between the moment when the
  last user has read the counter and its removal is left with a semaphore that does not exist.
\<close>

theorem sem_open_race_removed:
  defines "c1 \<equiv> (run_alone 0 ^^ 2) (proc 0 ex_created (sem_close 0, kernel ex_created))"
  defines "c2 \<equiv> (run_alone 1 ^^ 2) (proc 1 c1 (sem_open 5, kernel c1))"
  shows "procs c2 1 = Use 0" "procs (run_alone 0 c2) 1 = Use 0" "kids (kernel (run_alone 0 c2)) 0 = None"
  by (simp_all add: c1_def c2_def ex_created_eq eval_nat_numeral sem_eval)

end
