(* ===== verification/Job_Queue.thy ===== *)
theory Job_Queue
  imports Prelude
begin

text \<open>
  Doubly linked job queues over an explicit store: the queue of
  \<^verbatim>\<open>original-src/apue.3e/threads/rwlock.c\<close> and the list of pending jobs of the print daemon
  (\<^verbatim>\<open>printer/printd.c\<close>). Both are shown to provide one contract, that of a list. A pointer is
  a number, 0 is the null pointer, and writing through it has no defined result. Each
  operation runs under its lock from beginning to end, so it is one step.
\<close>

section \<open>The store\<close>

record 'v jobq =
  nxt :: "nat \<Rightarrow> nat"
  prv :: "nat \<Rightarrow> nat"
  jdat :: "nat \<Rightarrow> 'v"
  qhead :: nat
  qtail :: nat

definition set_next :: "nat \<Rightarrow> nat \<Rightarrow> 'v jobq \<Rightarrow> 'v jobq res" where
  "set_next a v q = (if a = 0 then Inl (Undefined ''null pointer'') else Inr (q\<lparr>nxt := (nxt q)(a := v)\<rparr>))"

definition set_prev :: "nat \<Rightarrow> nat \<Rightarrow> 'v jobq \<Rightarrow> 'v jobq res" where
  "set_prev a v q = (if a = 0 then Inl (Undefined ''null pointer'') else Inr (q\<lparr>prv := (prv q)(a := v)\<rparr>))"

section \<open>The queue of rwlock.c\<close>

text \<open>
  \<^verbatim>\<open>queue_init\<close> returns what \<^verbatim>\<open>pthread_rwlock_init\<close> returns, here \<open>err\<close>: 0, or the error for
  which there is no lock. The pointers are set in either case.
\<close>

definition queue_init :: "int \<Rightarrow> 'v jobq \<Rightarrow> int \<times> 'v jobq" where
  "queue_init err q = (let q1 = q\<lparr>qhead := 0, qtail := 0\<rparr> in if err \<noteq> 0 then (err, q1) else (0, q1))"

definition job_insert :: "'v jobq \<Rightarrow> nat \<Rightarrow> 'v jobq res" where
  "job_insert q jp =
     bnd (set_next jp (qhead q) q) (\<lambda>q1.
     bnd (set_prev jp 0 q1) (\<lambda>q2.
     bnd (if qhead q2 \<noteq> 0 then set_prev (qhead q2) jp q2 else Inr (q2\<lparr>qtail := jp\<rparr>)) (\<lambda>q3.
     Inr (q3\<lparr>qhead := jp\<rparr>))))"

definition job_append :: "'v jobq \<Rightarrow> nat \<Rightarrow> 'v jobq res" where
  "job_append q jp =
     bnd (set_next jp 0 q) (\<lambda>q1.
     bnd (set_prev jp (qtail q1) q1) (\<lambda>q2.
     bnd (if qtail q2 \<noteq> 0 then set_next (qtail q2) jp q2 else Inr (q2\<lparr>qhead := jp\<rparr>)) (\<lambda>q3.
     Inr (q3\<lparr>qtail := jp\<rparr>))))"

definition job_remove :: "'v jobq \<Rightarrow> nat \<Rightarrow> 'v jobq res" where
  "job_remove q jp =
     (if jp = qhead q
      then let q1 = q\<lparr>qhead := nxt q jp\<rparr>
           in if qtail q1 = jp then Inr (q1\<lparr>qtail := 0\<rparr>) else set_prev (nxt q1 jp) (prv q1 jp) q1
      else if jp = qtail q
      then let q1 = q\<lparr>qtail := prv q jp\<rparr> in set_next (prv q1 jp) (nxt q1 jp) q1
      else bnd (set_next (prv q jp) (nxt q jp) q) (\<lambda>q1. set_prev (nxt q1 jp) (prv q1 jp) q1))"

text \<open>The search of \<^verbatim>\<open>job_find\<close>; a list that is not a cycle ends within the fuel.\<close>

fun job_find_loop :: "nat \<Rightarrow> 'v jobq \<Rightarrow> ('v \<Rightarrow> bool) \<Rightarrow> nat \<Rightarrow> nat res" where
  "job_find_loop n q eq jp =
     (if jp = 0 then Inr 0
      else if eq (jdat q jp) then Inr jp
      else case n of 0 \<Rightarrow> Inl Diverges | Suc n' \<Rightarrow> job_find_loop n' q eq (nxt q jp))"

declare job_find_loop.simps [simp del]

text \<open>The lock for reading may be refused (\<open>rd\<close> is what \<^verbatim>\<open>pthread_rwlock_rdlock\<close> returns).\<close>

definition job_find :: "nat \<Rightarrow> int \<Rightarrow> 'v jobq \<Rightarrow> ('v \<Rightarrow> bool) \<Rightarrow> nat res" where
  "job_find n rd q eq = (if rd \<noteq> 0 then Inr 0 else job_find_loop n q eq (qhead q))"

section \<open>The job list of printd.c\<close>

text \<open>\<^verbatim>\<open>add_job\<close>: \<open>jp\<close> is the structure \<^verbatim>\<open>malloc\<close> returned, \<open>v\<close> the job's number and request.\<close>

definition add_job :: "'v jobq \<Rightarrow> nat \<Rightarrow> 'v \<Rightarrow> 'v jobq res" where
  "add_job q jp v =
     (let q0 = q\<lparr>jdat := (jdat q)(jp := v)\<rparr>
      in bnd (set_next jp 0 q0) (\<lambda>q1.
         bnd (set_prev jp (qtail q1) q1) (\<lambda>q2.
         bnd (if qtail q2 = 0 then Inr (q2\<lparr>qhead := jp\<rparr>) else set_next (qtail q2) jp q2) (\<lambda>q3.
         Inr (q3\<lparr>qtail := jp\<rparr>)))))"

definition replace_job :: "'v jobq \<Rightarrow> nat \<Rightarrow> 'v jobq res" where
  "replace_job q jp =
     bnd (set_prev jp 0 q) (\<lambda>q1.
     bnd (set_next jp (qhead q1) q1) (\<lambda>q2.
     bnd (if qhead q2 = 0 then Inr (q2\<lparr>qtail := jp\<rparr>) else set_prev (qhead q2) jp q2) (\<lambda>q3.
     Inr (q3\<lparr>qhead := jp\<rparr>))))"

definition remove_job :: "'v jobq \<Rightarrow> nat \<Rightarrow> 'v jobq res" where
  "remove_job q target =
     bnd (if nxt q target \<noteq> 0 then set_prev (nxt q target) (prv q target) q
          else Inr (q\<lparr>qtail := prv q target\<rparr>)) (\<lambda>q1.
     if prv q1 target \<noteq> 0 then set_next (prv q1 target) (nxt q1 target) q1
     else Inr (q1\<lparr>qhead := nxt q1 target\<rparr>))"

section \<open>Linked segments\<close>

fun dseg :: "(nat \<Rightarrow> nat) \<Rightarrow> (nat \<Rightarrow> nat) \<Rightarrow> nat \<Rightarrow> nat list \<Rightarrow> nat \<Rightarrow> bool" where
  "dseg nx pr p [] z \<longleftrightarrow> True"
| "dseg nx pr p (x # xs) z \<longleftrightarrow> pr x = p \<and> nx x = hd (xs @ [z]) \<and> dseg nx pr x xs z"

definition dlist :: "'v jobq \<Rightarrow> nat list \<Rightarrow> bool" where
  "dlist q xs \<longleftrightarrow> distinct xs \<and> 0 \<notin> set xs \<and> qhead q = hd (xs @ [0]) \<and> qtail q = last (0 # xs) \<and>
     dseg (nxt q) (prv q) 0 xs 0"

lemma dseg_append:
  "dseg nx pr p (xs @ ys) z \<longleftrightarrow> dseg nx pr p xs (hd (ys @ [z])) \<and> dseg nx pr (last (p # xs)) ys z"
  by (induction xs arbitrary: p) (auto simp: hd_append)

lemma dseg_upd [simp]:
  "a \<notin> set xs \<Longrightarrow> dseg (nx(a := v)) pr p xs z = dseg nx pr p xs z"
  "a \<notin> set xs \<Longrightarrow> dseg nx (pr(a := v)) p xs z = dseg nx pr p xs z"
  by (induction xs arbitrary: p) auto

section \<open>Each operation is one on lists\<close>

lemma job_insert_dlist:
  assumes "dlist q xs" "jp \<noteq> 0" "jp \<notin> set xs"
  shows "\<exists>q'. job_insert q jp = Inr q' \<and> dlist q' (jp # xs) \<and> jdat q' = jdat q"
  using assms by (cases xs) (auto simp: job_insert_def set_next_def set_prev_def dlist_def)

lemma replace_job_dlist:
  assumes "dlist q xs" "jp \<noteq> 0" "jp \<notin> set xs"
  shows "\<exists>q'. replace_job q jp = Inr q' \<and> dlist q' (jp # xs) \<and> jdat q' = jdat q"
  using assms by (cases xs) (auto simp: replace_job_def set_next_def set_prev_def dlist_def)

lemma job_append_dlist:
  assumes "dlist q xs" "jp \<noteq> 0" "jp \<notin> set xs"
  shows "\<exists>q'. job_append q jp = Inr q' \<and> dlist q' (xs @ [jp]) \<and> jdat q' = jdat q"
  using assms by (cases xs rule: rev_cases) (auto simp: job_append_def set_next_def set_prev_def dlist_def dseg_append hd_append)

lemma add_job_dlist:
  assumes "dlist q xs" "jp \<noteq> 0" "jp \<notin> set xs"
  shows "\<exists>q'. add_job q jp v = Inr q' \<and> dlist q' (xs @ [jp]) \<and> jdat q' = (jdat q)(jp := v)"
  using assms
  by (cases xs rule: rev_cases) (auto simp: add_job_def set_next_def set_prev_def dlist_def dseg_append hd_append Let_def)

lemma job_remove_dlist:
  assumes "dlist q xs" "jp \<in> set xs"
  shows "\<exists>q'. job_remove q jp = Inr q' \<and> dlist q' (remove1 jp xs) \<and> jdat q' = jdat q"
proof -
  obtain as bs where xs: "xs = as @ jp # bs" "jp \<notin> set as" using assms(2) by (metis split_list_first)
  then have r: "remove1 jp xs = as @ bs" by (simp add: remove1_append)
  have nl: "last bs \<noteq> jp" if "bs \<noteq> []" using that assms(1) xs last_in_set [OF that] by (auto simp: dlist_def)
  show ?thesis unfolding r
  proof (cases as rule: rev_cases)
    case Nil
    then show "\<exists>q'. job_remove q jp = Inr q' \<and> dlist q' (as @ bs) \<and> jdat q' = jdat q"
      using assms(1) xs nl by (cases bs) (auto simp: job_remove_def set_prev_def dlist_def Let_def split: if_splits)
  next
    case (snoc cs c)
    then show "\<exists>q'. job_remove q jp = Inr q' \<and> dlist q' (as @ bs) \<and> jdat q' = jdat q"
      using assms(1) xs
      by (cases bs) (auto simp: job_remove_def set_prev_def set_next_def dlist_def dseg_append hd_append Let_def)
  qed
qed

lemma remove_job_dlist:
  assumes "dlist q xs" "jp \<in> set xs"
  shows "\<exists>q'. remove_job q jp = Inr q' \<and> dlist q' (remove1 jp xs) \<and> jdat q' = jdat q"
proof -
  obtain as bs where xs: "xs = as @ jp # bs" "jp \<notin> set as" using assms(2) by (metis split_list_first)
  then have r: "remove1 jp xs = as @ bs" by (simp add: remove1_append)
  show ?thesis unfolding r
  proof (cases as rule: rev_cases)
    case Nil
    then show "\<exists>q'. remove_job q jp = Inr q' \<and> dlist q' (as @ bs) \<and> jdat q' = jdat q"
      using assms(1) xs by (cases bs) (auto simp: remove_job_def set_prev_def dlist_def)
  next
    case (snoc cs c)
    then show "\<exists>q'. remove_job q jp = Inr q' \<and> dlist q' (as @ bs) \<and> jdat q' = jdat q"
      using assms(1) xs
      by (cases bs) (auto simp: remove_job_def set_prev_def set_next_def dlist_def dseg_append hd_append)
  qed
qed

lemma job_find_loop_ok:
  assumes "dseg (nxt q) (prv q) p xs 0" "0 \<notin> set xs" "length xs \<le> n"
  shows "job_find_loop n q eq (hd (xs @ [0])) = Inr (case List.find (\<lambda>x. eq (jdat q x)) xs of None \<Rightarrow> 0 | Some x \<Rightarrow> x)"
  using assms
proof (induction xs arbitrary: p n)
  case Nil
  then show ?case by (simp add: job_find_loop.simps [of n])
next
  case (Cons x xs)
  then obtain k where k: "n = Suc k" "length xs \<le> k" by (cases n) auto
  have "job_find_loop k q eq (hd (xs @ [0])) = Inr (case List.find (\<lambda>x. eq (jdat q x)) xs of None \<Rightarrow> 0 | Some x \<Rightarrow> x)"
    using Cons.IH [of x k] Cons.prems k by auto
  then show ?case using Cons.prems k by (simp add: job_find_loop.simps [of "Suc k"])
qed

section \<open>The contract of a job list\<close>

datatype job_op = Push nat | Append nat | Remove nat

fun job_run :: "('q \<Rightarrow> nat \<Rightarrow> 'q res) \<Rightarrow> ('q \<Rightarrow> nat \<Rightarrow> 'q res) \<Rightarrow> ('q \<Rightarrow> nat \<Rightarrow> 'q res) \<Rightarrow> job_op list \<Rightarrow> 'q \<Rightarrow> 'q res" where
  "job_run pu ap re [] q = Inr q"
| "job_run pu ap re (Push j # ops) q = bnd (pu q j) (job_run pu ap re ops)"
| "job_run pu ap re (Append j # ops) q = bnd (ap q j) (job_run pu ap re ops)"
| "job_run pu ap re (Remove j # ops) q = bnd (re q j) (job_run pu ap re ops)"

fun job_list_run :: "job_op list \<Rightarrow> nat list \<Rightarrow> nat list" where
  "job_list_run [] xs = xs"
| "job_list_run (Push j # ops) xs = job_list_run ops (j # xs)"
| "job_list_run (Append j # ops) xs = job_list_run ops (xs @ [j])"
| "job_list_run (Remove j # ops) xs = job_list_run ops (remove1 j xs)"

text \<open>Only structures that are not queued are queued, only queued ones are removed.\<close>

fun job_ops_ok :: "job_op list \<Rightarrow> nat list \<Rightarrow> bool" where
  "job_ops_ok [] xs \<longleftrightarrow> True"
| "job_ops_ok (Push j # ops) xs \<longleftrightarrow> j \<noteq> 0 \<and> j \<notin> set xs \<and> job_ops_ok ops (j # xs)"
| "job_ops_ok (Append j # ops) xs \<longleftrightarrow> j \<noteq> 0 \<and> j \<notin> set xs \<and> job_ops_ok ops (xs @ [j])"
| "job_ops_ok (Remove j # ops) xs \<longleftrightarrow> j \<in> set xs \<and> job_ops_ok ops (remove1 j xs)"

locale job_list =
  fixes holds :: "'q \<Rightarrow> nat list \<Rightarrow> bool" and pu ap re :: "'q \<Rightarrow> nat \<Rightarrow> 'q res"
  assumes push_law: "holds q xs \<Longrightarrow> j \<noteq> 0 \<Longrightarrow> j \<notin> set xs \<Longrightarrow> \<exists>q'. pu q j = Inr q' \<and> holds q' (j # xs)"
    and append_law: "holds q xs \<Longrightarrow> j \<noteq> 0 \<Longrightarrow> j \<notin> set xs \<Longrightarrow> \<exists>q'. ap q j = Inr q' \<and> holds q' (xs @ [j])"
    and remove_law: "holds q xs \<Longrightarrow> j \<in> set xs \<Longrightarrow> \<exists>q'. re q j = Inr q' \<and> holds q' (remove1 j xs)"
begin

lemma run_lists:
  assumes "holds q xs" "job_ops_ok ops xs"
  shows "\<exists>q'. job_run pu ap re ops q = Inr q' \<and> holds q' (job_list_run ops xs)"
  using assms
proof (induction ops arbitrary: q xs)
  case (Cons op ops)
  show ?case
  proof (cases op)
    case (Push j)
    then obtain q1 where "pu q j = Inr q1" "holds q1 (j # xs)" using push_law [OF Cons.prems(1)] Cons.prems(2) by auto
    then show ?thesis using Cons.IH [of q1 "j # xs"] Cons.prems(2) Push by simp
  next
    case (Append j)
    then obtain q1 where "ap q j = Inr q1" "holds q1 (xs @ [j])" using append_law [OF Cons.prems(1)] Cons.prems(2) by auto
    then show ?thesis using Cons.IH [of q1 "xs @ [j]"] Cons.prems(2) Append by simp
  next
    case (Remove j)
    then obtain q1 where "re q j = Inr q1" "holds q1 (remove1 j xs)" using remove_law [OF Cons.prems(1)] Cons.prems(2) by auto
    then show ?thesis using Cons.IH [of q1 "remove1 j xs"] Cons.prems(2) Remove by simp
  qed
qed simp

text \<open>Jobs appended to an empty queue leave it in the order they came.\<close>

lemma fifo:
  assumes "holds q []" "distinct js" "0 \<notin> set js"
  shows "\<exists>q'. job_run pu ap re (map Append js @ map Remove (take n js)) q = Inr q' \<and> holds q' (drop n js)"
proof -
  have app: "job_ops_ok (map Append js @ ops) xs = (job_ops_ok ops (xs @ js)) \<and>
      job_list_run (map Append js @ ops) xs = job_list_run ops (xs @ js)"
    if "distinct (xs @ js)" "0 \<notin> set js" for xs js ops
    using that by (induction js arbitrary: xs) auto
  have rem: "job_ops_ok (map Remove (take n js)) js \<and> job_list_run (map Remove (take n js)) js = drop n js" for n js
    by (induction js arbitrary: n) (case_tac n; simp)+
  show ?thesis using run_lists [OF assms(1), of "map Append js @ map Remove (take n js)"] app [of "[]" js] assms rem by simp
qed

end

interpretation rwq: job_list dlist job_insert job_append job_remove
  by unfold_locales (use job_insert_dlist job_append_dlist job_remove_dlist in blast)+

interpretation prq: job_list dlist replace_job "\<lambda>q j. add_job q j (w j)" remove_job for w
proof unfold_locales
  fix q :: "'a jobq" and xs j
  show "dlist q xs \<Longrightarrow> j \<noteq> 0 \<Longrightarrow> j \<notin> set xs \<Longrightarrow> \<exists>q'. replace_job q j = Inr q' \<and> dlist q' (j # xs)"
    using replace_job_dlist [of q xs j] by blast
  show "dlist q xs \<Longrightarrow> j \<noteq> 0 \<Longrightarrow> j \<notin> set xs \<Longrightarrow> \<exists>q'. add_job q j (w j) = Inr q' \<and> dlist q' (xs @ [j])"
    using add_job_dlist [of q xs j "w j"] by blast
  show "dlist q xs \<Longrightarrow> j \<in> set xs \<Longrightarrow> \<exists>q'. remove_job q j = Inr q' \<and> dlist q' (remove1 j xs)"
    using remove_job_dlist [of q xs j] by blast
qed

text \<open>No operation of \<^verbatim>\<open>rwlock.c\<close> changes the jobs themselves.\<close>

lemma job_run_keeps:
  assumes "dlist q xs" "job_ops_ok ops xs" "job_run job_insert job_append job_remove ops q = Inr q'"
  shows "jdat q' = jdat q"
  using assms
proof (induction ops arbitrary: q xs)
  case (Cons op ops)
  show ?case
  proof (cases op)
    case (Push j)
    then obtain q1 where "job_insert q j = Inr q1" "dlist q1 (j # xs)" "jdat q1 = jdat q"
      using job_insert_dlist [OF Cons.prems(1)] Cons.prems(2) by auto
    then show ?thesis using Cons.IH [of q1 "j # xs"] Cons.prems Push by simp
  next
    case (Append j)
    then obtain q1 where "job_append q j = Inr q1" "dlist q1 (xs @ [j])" "jdat q1 = jdat q"
      using job_append_dlist [OF Cons.prems(1)] Cons.prems(2) by auto
    then show ?thesis using Cons.IH [of q1 "xs @ [j]"] Cons.prems Append by simp
  next
    case (Remove j)
    then obtain q1 where "job_remove q j = Inr q1" "dlist q1 (remove1 j xs)" "jdat q1 = jdat q"
      using job_remove_dlist [OF Cons.prems(1)] Cons.prems(2) by auto
    then show ?thesis using Cons.IH [of q1 "remove1 j xs"] Cons.prems Remove by simp
  qed
qed simp

section \<open>Properties\<close>

text \<open>
  C21: The queue of \<^verbatim>\<open>rwlock.c\<close> is a list. \<^verbatim>\<open>queue_init\<close> returns 0 or the error of the lock's
  initialisation; after it returned 0, any sequence of inserting at the head, appending at the
  tail and removing (of jobs that are not, or are, on the queue) follows no null pointer, leaves
  both chains of pointers consistent, leaves the queue the list the operations describe, and
  changes no job. \<^verbatim>\<open>job_find\<close> then returns the first job of that list with the given thread, and
  NULL in exactly two cases: the list has no such job, or the lock for reading was refused.
\<close>

theorem rwlock_queue_is_list:
  assumes "queue_init err q = (0, q0)" "job_ops_ok ops []" "length (job_list_run ops []) \<le> n"
  shows "err = 0 \<and> (\<exists>q'. job_run job_insert job_append job_remove ops q0 = Inr q' \<and> dlist q' (job_list_run ops [])
    \<and> jdat q' = jdat q
    \<and> job_find n rd q' eq = Inr (if rd \<noteq> 0 then 0
        else case List.find (\<lambda>j. eq (jdat q j)) (job_list_run ops []) of None \<Rightarrow> 0 | Some j \<Rightarrow> j)
    \<and> (job_find n rd q' eq = Inr 0 \<longleftrightarrow> rd \<noteq> 0 \<or> (\<forall>j\<in>set (job_list_run ops []). \<not> eq (jdat q j))))"
proof -
  let ?l = "job_list_run ops []"
  have e: "err = 0" and q0: "q0 = q\<lparr>qhead := 0, qtail := 0\<rparr>"
    using assms(1) by (auto simp: queue_init_def Let_def split: if_splits)
  have d: "dlist q0 []" by (simp add: dlist_def q0)
  then obtain q' where q': "job_run job_insert job_append job_remove ops q0 = Inr q'" "dlist q' ?l"
    using rwq.run_lists [OF _ assms(2)] by blast
  have k: "jdat q' = jdat q" using job_run_keeps [OF d assms(2) q'(1)] q0 by simp
  have "dseg (nxt q') (prv q') 0 ?l 0" and z: "0 \<notin> set ?l" and h: "qhead q' = hd (?l @ [0])"
    using q'(2) by (simp_all add: dlist_def)
  from job_find_loop_ok [OF this(1,2) assms(3), of eq] h
  have f: "job_find n rd q' eq = Inr (if rd \<noteq> 0 then 0
      else case List.find (\<lambda>j. eq (jdat q j)) ?l of None \<Rightarrow> 0 | Some j \<Rightarrow> j)"
    by (auto simp: job_find_def k)
  have "(case List.find (\<lambda>j. eq (jdat q j)) ?l of None \<Rightarrow> 0 | Some j \<Rightarrow> j) = 0 \<longleftrightarrow> (\<forall>j\<in>set ?l. \<not> eq (jdat q j))"
    using z by (auto simp: find_None_iff find_Some_iff split: option.split) (metis nth_mem)
  then show ?thesis using e q' k f by auto
qed

theorem rwlock_queue_is_list_witness:
  "\<exists>q'. job_run job_insert job_append job_remove [Append 1, Append 2, Push 3, Remove 1]
      (snd (queue_init 0 \<lparr>nxt = (\<lambda>_. 9), prv = (\<lambda>_. 9), jdat = (\<lambda>j. 10 * j :: nat), qhead = 9, qtail = 9\<rparr>)) = Inr q'
    \<and> dlist q' [3, 2] \<and> job_find 2 0 q' ((=) 20) = Inr 2"
proof -
  let ?q = "\<lparr>nxt = (\<lambda>_. 9), prv = (\<lambda>_. 9), jdat = (\<lambda>j. 10 * j), qhead = 9, qtail = 9\<rparr> :: nat jobq"
  let ?ops = "[Append 1, Append 2, Push 3, Remove 1]"
  have i: "queue_init 0 ?q = (0, snd (queue_init 0 ?q))" by (simp add: queue_init_def)
  have a: "job_ops_ok ?ops []" and r: "job_list_run ?ops [] = [3, 2]" by simp_all
  then have l: "length (job_list_run ?ops []) \<le> 2" by simp
  from rwlock_queue_is_list [OF i a l, where rd = 0 and eq = "(=) 20", unfolded r] show ?thesis by auto
qed

text \<open>
  The pending jobs of the print daemon are printed in the order in which they were added:
  after any jobs are added to an empty list, taking the first one \<open>n\<close> times leaves the list
  without its first \<open>n\<close> jobs, and a job that is put back is the first again.
\<close>

theorem printd_jobs_fifo:
  fixes q :: "'v jobq"
  assumes "dlist q []" "distinct js" "0 \<notin> set js" "n < length js"
  shows "\<exists>q1 q2 q3. job_run replace_job (\<lambda>q j. add_job q j (w j)) remove_job (map Append js @ map Remove (take n js)) q = Inr q1
    \<and> dlist q1 (drop n js) \<and> qhead q1 = js ! n
    \<and> remove_job q1 (qhead q1) = Inr q2 \<and> dlist q2 (drop (Suc n) js)
    \<and> replace_job q2 (js ! n) = Inr q3 \<and> dlist q3 (drop n js) \<and> qhead q3 = js ! n"
proof -
  obtain q1 where q1: "job_run replace_job (\<lambda>q j. add_job q j (w j)) remove_job (map Append js @ map Remove (take n js)) q = Inr q1"
    "dlist q1 (drop n js)" using prq.fifo [OF assms(1-3), of w n] by blast
  have d: "drop n js = js ! n # drop (Suc n) js" using assms(4) by (simp add: Cons_nth_drop_Suc)
  have h: "qhead q = js ! n" if "dlist q (drop n js)" for q :: "'v jobq" using that by (simp add: dlist_def d)
  obtain q2 where q2: "remove_job q1 (js ! n) = Inr q2" "dlist q2 (drop (Suc n) js)"
    using remove_job_dlist [OF q1(2), of "js ! n"] by (auto simp: d)
  have "distinct (drop n js)" "0 \<notin> set (drop n js)" using assms by (auto dest: in_set_dropD)
  then have "js ! n \<noteq> 0" "js ! n \<notin> set (drop (Suc n) js)" by (auto simp: d)
  then obtain q3 where "replace_job q2 (js ! n) = Inr q3" "dlist q3 (drop n js)"
    using replace_job_dlist [OF q2(2)] by (auto simp: d)
  then show ?thesis using q1 q2 h [OF q1(2)] h by auto
qed

theorem printd_jobs_fifo_witness:
  "\<exists>q1 q2 q3. job_run replace_job (\<lambda>q j. add_job q j ''doc'') remove_job (map Append [5, 7] @ map Remove (take 1 [5, 7]))
        \<lparr>nxt = (\<lambda>_. 9), prv = (\<lambda>_. 9), jdat = (\<lambda>_. []), qhead = 0, qtail = 0\<rparr> = Inr q1
    \<and> qhead q1 = 7 \<and> remove_job q1 7 = Inr q2 \<and> dlist q2 [] \<and> replace_job q2 7 = Inr q3 \<and> dlist q3 [7]"
proof -
  let ?q = "\<lparr>nxt = (\<lambda>_. 9), prv = (\<lambda>_. 9), jdat = (\<lambda>_. [] :: string), qhead = 0, qtail = 0\<rparr>"
  have "dlist ?q []" by (simp add: dlist_def)
  from printd_jobs_fifo [OF this, of "[5, 7]" 1 "\<lambda>_. ''doc''"] show ?thesis by fastforce
qed

end
