(* ===== verification/Print_Wire.thy ===== *)
theory Print_Wire
  imports Netio
begin

text \<open>
  What the print client, the print daemon and the printer say to each other
  (\<^verbatim>\<open>printer/print.h\<close>, \<^verbatim>\<open>printer/ipp.h\<close>, \<^verbatim>\<open>printer/print.c\<close> and \<^verbatim>\<open>add_option\<close> of
  \<^verbatim>\<open>printer/printd.c\<close>): numbers in network byte order, the request and response structures as
  the bytes they occupy, the client that submits a file, and the options of an IPP request.
  The host is little-endian with 32-bit \<^verbatim>\<open>int\<close>. Memory the code never wrote is an argument.
\<close>

section \<open>C buffers\<close>

text \<open>Writing into a buffer of fixed size; running past its end has no defined result.\<close>

definition buf_put :: "string \<Rightarrow> nat \<Rightarrow> string \<Rightarrow> string res" where
  "buf_put b i s = (if i + length s \<le> length b then Inr (take i b @ s @ drop (i + length s) b)
                    else Inl (Undefined ''buffer overflow''))"

definition buf_strcpy :: "string \<Rightarrow> nat \<Rightarrow> string \<Rightarrow> string res" where
  "buf_strcpy b i s = buf_put b i (s @ [NUL])"

text \<open>\<^verbatim>\<open>strncpy\<close> pads with null bytes and may leave no terminator, \<^verbatim>\<open>strncat\<close> always writes one.\<close>

definition strncpy_bytes :: "string \<Rightarrow> nat \<Rightarrow> string" where
  "strncpy_bytes s n = take n s @ replicate (n - length s) NUL"

definition buf_strncat :: "string \<Rightarrow> string \<Rightarrow> nat \<Rightarrow> string res" where
  "buf_strncat b s n = buf_strcpy b (length (cstr b)) (take n s)"

lemma length_strncpy_bytes [simp]: "length (strncpy_bytes s n) = n"
  by (simp add: strncpy_bytes_def)

lemma buf_put_length: "buf_put b i s = Inr b' \<Longrightarrow> length b' = length b"
  by (auto simp: buf_put_def split: if_splits)

section \<open>Numbers in memory\<close>

text \<open>The four bytes of a number on this host, and the byte swap of \<^verbatim>\<open>htonl\<close> and \<^verbatim>\<open>ntohl\<close>.\<close>

definition mem32 :: "32 word \<Rightarrow> string" where
  "mem32 w = [char_of (unat w), char_of (unat w div 256), char_of (unat w div 65536), char_of (unat w div 16777216)]"

definition get32 :: "string \<Rightarrow> 32 word" where
  "get32 b = of_nat (of_char (b ! 0) + 256 * of_char (b ! 1) + 65536 * of_char (b ! 2) + 16777216 * of_char (b ! 3))"

definition htonl :: "32 word \<Rightarrow> 32 word" where
  "htonl w = get32 (rev (mem32 w))"

abbreviation ntohl :: "32 word \<Rightarrow> 32 word" where "ntohl \<equiv> htonl"

text \<open>Two bytes, most significant first: \<^verbatim>\<open>htons\<close> followed by the copy of \<^verbatim>\<open>u.c\<close>.\<close>

definition be16 :: "nat \<Rightarrow> string" where
  "be16 n = [char_of (n div 256), char_of n]"

lemma length_mem32 [simp]: "length (mem32 w) = 4"
  by (simp add: mem32_def)

lemma length_be16 [simp]: "length (be16 n) = 2"
  by (simp add: be16_def)

lemma nat_bytes4:
  fixes n :: nat
  assumes "n < 4294967296"
  shows "n mod 256 + 256 * (n div 256 mod 256) + 65536 * (n div 65536 mod 256) + 16777216 * (n div 16777216 mod 256) = n"
proof -
  define a b c where abc: "a = n div 256" "b = a div 256" "c = b div 256"
  have e: "n div 65536 = b" "n div 16777216 = c" by (simp_all add: abc div_mult2_eq [symmetric])
  have "c < 256" using assms unfolding e(2) [symmetric] by (simp add: less_mult_imp_div_less)
  then have "c mod 256 = c" by simp
  moreover have "n = 256 * a + n mod 256" "a = 256 * b + a mod 256" "b = 256 * c + b mod 256" by (simp_all add: abc)
  ultimately show ?thesis unfolding e abc(1) [symmetric] by linarith
qed

lemma get32_mem32 [simp]: "get32 (mem32 w @ r) = w"
proof -
  have l: "unat w < 4294967296" using unsigned_less [of w, where 'a = nat] by simp
  have "get32 (mem32 w @ r) = of_nat (unat w mod 256 + 256 * (unat w div 256 mod 256) +
      65536 * (unat w div 65536 mod 256) + 16777216 * (unat w div 16777216 mod 256))"
    by (simp add: get32_def mem32_def of_char_of nth_append)
  also have "\<dots> = of_nat (unat w)" unfolding nat_bytes4 [OF l] ..
  finally show ?thesis by simp
qed

lemma get32_mem32_alone [simp]: "get32 (mem32 w) = w"
  using get32_mem32 [of w "[]"] by simp

lemma of_char_less: "(of_char c :: nat) < 256"
  by (metis of_char_mod_256 mod_less_divisor zero_less_numeral)

lemma mem32_get32:
  assumes "length b = 4"
  shows "mem32 (get32 b) = b"
proof -
  obtain c0 c1 c2 c3 where b: "b = [c0, c1, c2, c3]"
    using assms by (auto simp: length_Suc_conv numeral_eq_Suc)
  let ?n = "of_char c0 + 256 * of_char c1 + 65536 * of_char c2 + 16777216 * of_char c3 :: nat"
  note l = of_char_less [of c0] of_char_less [of c1] of_char_less [of c2] of_char_less [of c3]
  have lt: "?n < 4294967296" using l by linarith
  have "get32 b = of_nat ?n" by (simp add: get32_def b)
  moreover have "unat (of_nat ?n :: 32 word) = ?n" unfolding unat_of_nat using lt by simp
  ultimately have u: "unat (get32 b) = ?n" by presburger
  have d: "?n div 256 = of_char c1 + 256 * of_char c2 + 65536 * of_char c3" using l by linarith
  have d2: "?n div 65536 = of_char c2 + 256 * of_char c3" using l by linarith
  have d3: "?n div 16777216 = of_char c3" using l by linarith
  have m: "?n mod 256 = of_char c0" "(of_char c1 + 256 * of_char c2 + 65536 * of_char c3) mod 256 = (of_char c1 :: nat)"
      "(of_char c2 + 256 * of_char c3) mod 256 = (of_char c2 :: nat)" "of_char c3 mod 256 = (of_char c3 :: nat)"
    using l by (simp_all add: mod_add_eq [symmetric])
  have ch: "k mod 256 = of_char c \<Longrightarrow> char_of (k :: nat) = c" for k c
    by (metis char_of_mod_256 char_of_char)
  have "mem32 (get32 b) = [c0, c1, c2, c3]"
    unfolding mem32_def u d d2 d3 using m [THEN ch] by (simp only:)
  then show ?thesis by (simp only: b)
qed

lemma htonl_htonl [simp]: "htonl (htonl w) = w"
  by (simp add: htonl_def mem32_get32)

lemma mem32_htonl: "mem32 (htonl w) = rev (mem32 w)"
  by (simp add: htonl_def mem32_get32)

section \<open>Requests and responses\<close>

definition USERNM_MAX :: nat where "USERNM_MAX = 64"
definition JOBNM_MAX :: nat where "JOBNM_MAX = 256"
definition MSGLEN_MAX :: nat where "MSGLEN_MAX = 512"
definition IOBUFSZ :: nat where "IOBUFSZ = 8192"
definition PR_TEXT :: "32 word" where "PR_TEXT = 1"

text \<open>\<^verbatim>\<open>struct printreq\<close> and \<^verbatim>\<open>struct printresp\<close>: fields and the bytes they occupy.\<close>

record printreq =
  rsize :: "32 word"
  rflags :: "32 word"
  usernm :: string
  jobnm :: string

record printresp =
  retcode :: "32 word"
  rjobid :: "32 word"
  rmsg :: string

definition printreq_bytes :: "printreq \<Rightarrow> string" where
  "printreq_bytes r = mem32 (rsize r) @ mem32 (rflags r) @ usernm r @ jobnm r"

definition printreq_of :: "string \<Rightarrow> printreq" where
  "printreq_of b = \<lparr>rsize = get32 b, rflags = get32 (drop 4 b), usernm = take USERNM_MAX (drop 8 b),
     jobnm = take JOBNM_MAX (drop (8 + USERNM_MAX) b)\<rparr>"

definition sizeof_printreq :: nat where "sizeof_printreq = 8 + USERNM_MAX + JOBNM_MAX"

definition printresp_bytes :: "printresp \<Rightarrow> string" where
  "printresp_bytes r = mem32 (retcode r) @ mem32 (rjobid r) @ rmsg r"

definition printresp_of :: "string \<Rightarrow> printresp" where
  "printresp_of b = \<lparr>retcode = get32 b, rjobid = get32 (drop 4 b), rmsg = take MSGLEN_MAX (drop 8 b)\<rparr>"

definition sizeof_printresp :: nat where "sizeof_printresp = 8 + MSGLEN_MAX"

definition req_ok :: "printreq \<Rightarrow> bool" where
  "req_ok r \<longleftrightarrow> length (usernm r) = USERNM_MAX \<and> length (jobnm r) = JOBNM_MAX"

lemmas size_defs = USERNM_MAX_def JOBNM_MAX_def MSGLEN_MAX_def IOBUFSZ_def sizeof_printreq_def sizeof_printresp_def

lemma length_printreq_bytes: "req_ok r \<Longrightarrow> length (printreq_bytes r) = sizeof_printreq"
  by (simp add: req_ok_def printreq_bytes_def size_defs)

lemma printreq_of_bytes [simp]: "req_ok r \<Longrightarrow> printreq_of (printreq_bytes r) = r"
  by (simp add: req_ok_def printreq_bytes_def printreq_of_def size_defs)

lemma req_ok_printreq_of: "length b = sizeof_printreq \<Longrightarrow> req_ok (printreq_of b)"
  by (simp add: req_ok_def printreq_of_def size_defs)

lemma length_printresp_bytes: "length (rmsg r) = MSGLEN_MAX \<Longrightarrow> length (printresp_bytes r) = sizeof_printresp"
  by (simp add: printresp_bytes_def size_defs)

lemma printresp_of_bytes [simp]: "length (rmsg r) = MSGLEN_MAX \<Longrightarrow> printresp_of (printresp_bytes r) = r"
  by (simp add: printresp_bytes_def printresp_of_def size_defs)

section \<open>Submitting a file\<close>

text \<open>The user's name; \<open>None\<close> when \<^verbatim>\<open>getpwuid\<close> knows none. \<open>g\<close> is the field before.\<close>

definition submit_user :: "string \<Rightarrow> string option \<Rightarrow> string res" where
  "submit_user g pwd = (case pwd of
       None \<Rightarrow> buf_strcpy g 0 ''unknown''
     | Some nm \<Rightarrow> bnd (buf_put g 0 (strncpy_bytes nm (USERNM_MAX - 1))) (\<lambda>b. buf_put b (USERNM_MAX - 1) [NUL]))"

text \<open>The job's name: the last part of a long file name after a mark.\<close>

definition submit_jobnm :: "string \<Rightarrow> string \<Rightarrow> string res" where
  "submit_jobnm g fname =
     (if length fname \<ge> JOBNM_MAX
      then bnd (buf_strcpy g 0 ''... '') (\<lambda>b. buf_strncat b (drop (length fname - JOBNM_MAX + 5) fname) (JOBNM_MAX - 5))
      else buf_strcpy g 0 fname)"

definition submit_header :: "printreq \<Rightarrow> string option \<Rightarrow> string \<Rightarrow> nat \<Rightarrow> bool \<Rightarrow> printreq res" where
  "submit_header g pwd fname nbytes text =
     bnd (submit_user (usernm g) pwd) (\<lambda>u.
     bnd (submit_jobnm (jobnm g) fname) (\<lambda>j.
     Inr \<lparr>rsize = htonl (of_nat nbytes), rflags = (if text then htonl PR_TEXT else 0), usernm = u, jobnm = j\<rparr>))"

text \<open>
  The copy loop: bytes of the file to the socket. A failing read returns -1, which is
  handed to \<^verbatim>\<open>writen\<close> as a huge count.
\<close>

datatype send_end = Sent | Send_sys | Send_quit | Send_undef

function send_loop :: "rdev list \<Rightarrow> wrev list \<Rightarrow> string \<Rightarrow> send_end \<times> string \<times> wrev list" where
  "send_loop inp w out =
     (case sys_read IOBUFSZ inp of
        (None, _) \<Rightarrow> (Send_undef, out, w)
      | (Some b, inp') \<Rightarrow>
          if b = [] then (Sent, out, w)
          else case writen b w of
                 (None, o', w') \<Rightarrow> (Send_sys, out @ o', w')
               | (Some k, o', w') \<Rightarrow>
                   if k \<noteq> length b then (Send_quit, out @ o', w') else send_loop inp' w' (out @ o'))"
  by pat_completeness auto
termination
  by (relation "measure (\<lambda>(inp, w, out). rdev_size inp)") (auto dest: sys_read_less [OF sym])

declare send_loop.simps [simp del]

datatype submit_end = Job_id "32 word" | Rejected string

text \<open>
  \<^verbatim>\<open>submit_file\<close>: the bytes that went to the server and how the call ended. \<open>inp\<close> is the open
  file, \<open>w\<close> how the socket takes what is written, \<open>rsp\<close> what the server sends back.
\<close>

definition submit_file ::
  "printreq \<Rightarrow> string option \<Rightarrow> string \<Rightarrow> nat \<Rightarrow> bool \<Rightarrow> rdev list \<Rightarrow> wrev list \<Rightarrow> rdev list \<Rightarrow> string \<times> submit_end res" where
  "submit_file g pwd fname nbytes text inp w rsp =
     (case submit_header g pwd fname nbytes text of
        Inl e \<Rightarrow> ([], Inl e)
      | Inr req \<Rightarrow>
          (case writen (printreq_bytes req) w of
             (None, o1, _) \<Rightarrow> (o1, Inl (Err_sys ''can't write to print server''))
           | (Some k, o1, w1) \<Rightarrow>
               if k \<noteq> sizeof_printreq then (o1, Inl (Err_quit ''short write to print server''))
               else case send_loop inp w1 o1 of
                      (Send_undef, o2, _) \<Rightarrow> (o2, Inl (Undefined ''writen of -1 bytes''))
                    | (Send_sys, o2, _) \<Rightarrow> (o2, Inl (Err_sys ''can't write to print server''))
                    | (Send_quit, o2, _) \<Rightarrow> (o2, Inl (Err_quit ''short write to print server''))
                    | (Sent, o2, _) \<Rightarrow>
                        (case readn sizeof_printresp rsp of
                           (None, _) \<Rightarrow> (o2, Inl (Err_sys ''can't read response from server''))
                         | (Some b, _) \<Rightarrow>
                             if length b \<noteq> sizeof_printresp then (o2, Inl (Err_sys ''can't read response from server''))
                             else if retcode (printresp_of b) \<noteq> 0 then (o2, Inr (Rejected (cstr (rmsg (printresp_of b)))))
                             else (o2, Inr (Job_id (ntohl (rjobid (printresp_of b))))))))"

text \<open>What the header holds: C strings that fit, whatever the names are.\<close>

definition job_name :: "string \<Rightarrow> string" where
  "job_name fname = (if length fname < JOBNM_MAX then fname else ''... '' @ drop (length fname - (JOBNM_MAX - 5)) fname)"

definition user_name :: "string option \<Rightarrow> string" where
  "user_name pwd = (case pwd of None \<Rightarrow> ''unknown'' | Some nm \<Rightarrow> take (USERNM_MAX - 1) nm)"

lemma submit_user_ok:
  assumes "length g = USERNM_MAX" "\<And>nm. pwd = Some nm \<Longrightarrow> is_cstr nm"
  shows "\<exists>u. submit_user g pwd = Inr u \<and> length u = USERNM_MAX \<and> cstr u = user_name pwd"
proof (cases pwd)
  case None
  then show ?thesis using assms(1)
    by (auto simp: submit_user_def buf_strcpy_def buf_put_def user_name_def size_defs cstr_def)
next
  case (Some nm)
  have "is_cstr (take 63 nm)" using assms(2) [OF Some] by (auto simp: is_cstr_def dest: in_set_takeD)
  moreover have "strncpy_bytes nm 63 @ [NUL] = take 63 nm @ NUL # replicate (63 - length nm) NUL"
    by (simp add: strncpy_bytes_def replicate_append_same)
  ultimately have "cstr (strncpy_bytes nm 63 @ [NUL]) = take 63 nm" by simp
  then show ?thesis using assms(1) Some
    by (auto simp: submit_user_def buf_put_def user_name_def size_defs)
qed

lemma submit_jobnm_ok:
  assumes "length g = JOBNM_MAX" "is_cstr fname"
  shows "\<exists>j. submit_jobnm g fname = Inr j \<and> length j = JOBNM_MAX \<and> cstr j = job_name fname"
proof (cases "length fname < JOBNM_MAX")
  case True
  then show ?thesis using assms by (auto simp: submit_jobnm_def buf_strcpy_def buf_put_def job_name_def size_defs)
next
  case False
  let ?t = "drop (length fname - 251) fname"
  have t: "length ?t = 251" "is_cstr ?t" "''... '' @ take 251 ?t = ''... '' @ ?t"
    using False assms(2) by (auto simp: size_defs is_cstr_def dest: in_set_dropD)
  have d: "length fname - JOBNM_MAX + 5 = length fname - 251" using False by (simp add: size_defs)
  let ?b = "''... '' @ NUL # drop 5 g"
  have b: "buf_strcpy g 0 ''... '' = Inr ?b" "cstr ?b = ''... ''" "length ?b = 256"
    using assms(1) by (auto simp: buf_strcpy_def buf_put_def size_defs cstr_def numeral_eq_Suc)
  have "buf_strncat ?b ?t 251 = Inr (''... '' @ ?t @ [NUL])"
    unfolding buf_strncat_def b(2) buf_strcpy_def buf_put_def using b(3) t(1) by simp
  moreover have "cstr (''... '' @ ?t @ [NUL]) = ''... '' @ ?t"
    using cstr_append_NUL [of "''... '' @ ?t" "[]"] t(2) by simp
  ultimately show ?thesis using False b(1) t(1)
    unfolding submit_jobnm_def d by (auto simp: job_name_def size_defs)
qed

lemma submit_header_ok:
  assumes "req_ok g" "is_cstr fname" "\<And>nm. pwd = Some nm \<Longrightarrow> is_cstr nm"
  shows "\<exists>req. submit_header g pwd fname nbytes txt = Inr req \<and> req_ok req \<and>
    cstr (usernm req) = user_name pwd \<and> cstr (jobnm req) = job_name fname \<and>
    ntohl (rsize req) = of_nat nbytes \<and> ntohl (rflags req) = (if txt then PR_TEXT else 0)"
proof -
  have z: "htonl 0 = 0" by (simp add: htonl_def mem32_def get32_def)
  obtain u where u: "submit_user (usernm g) pwd = Inr u" "length u = USERNM_MAX" "cstr u = user_name pwd"
    using submit_user_ok [of "usernm g" pwd] assms by (auto simp: req_ok_def)
  obtain j where j: "submit_jobnm (jobnm g) fname = Inr j" "length j = JOBNM_MAX" "cstr j = job_name fname"
    using submit_jobnm_ok [of "jobnm g" fname] assms by (auto simp: req_ok_def)
  show ?thesis using u j by (simp add: submit_header_def req_ok_def z)
qed

text \<open>A socket that takes everything in the end, in pieces of any size.\<close>

definition takes_all :: "wrev list \<Rightarrow> bool" where
  "takes_all w \<longleftrightarrow> (\<forall>e \<in> set w. \<exists>k. e = WTake (Suc k))"

lemma writen_loop_takes_all:
  "takes_all w \<Longrightarrow> length ptr \<le> n \<Longrightarrow> \<exists>w'. writen_loop n ptr out w = (Some n, out @ ptr, w') \<and> takes_all w'"
proof (induction "length ptr" arbitrary: ptr out w rule: less_induct)
  case less
  show ?case
  proof (cases "ptr = []")
    case True
    then show ?thesis using less.prems by (simp add: writen_loop.simps [of n])
  next
    case ne: False
    show ?thesis
    proof (cases w)
      case Nil
      then show ?thesis using less.prems ne
        by (simp add: writen_loop.simps [of n ptr] writen_loop.simps [of n "[]"])
    next
      case (Cons e w1)
      then obtain k where k: "e = WTake (Suc k)" and w1: "takes_all w1"
        using less.prems(1) by (auto simp: takes_all_def)
      have l: "length (drop (Suc k) ptr) < length ptr" "length (drop (Suc k) ptr) \<le> n"
        using ne less.prems(2) by auto
      obtain j where j: "min (Suc k) (length ptr) = Suc j" using ne by (cases ptr) auto
      have d: "drop (Suc j) ptr = drop (Suc k) ptr" "take (Suc j) ptr = take (Suc k) ptr"
        unfolding j [symmetric] by (cases "Suc k \<le> length ptr"; simp)+
      have "sys_write ptr w = (Some (Suc j), w1)" using Cons k j by simp
      then have "writen_loop n ptr out w = writen_loop n (drop (Suc k) ptr) (out @ take (Suc k) ptr) w1"
        using ne d by (simp add: writen_loop.simps [of n ptr])
      then show ?thesis using less.hyps [OF l(1) w1 l(2), of "out @ take (Suc k) ptr"] by simp
    qed
  qed
qed

lemma writen_takes_all: "takes_all w \<Longrightarrow> \<exists>w'. writen s w = (Some (length s), s, w') \<and> takes_all w'"
  using writen_loop_takes_all [of w s "length s" "[]"] by (simp add: writen_def)

lemma send_loop_sends:
  assumes "takes_all w" "\<forall>e \<in> set inp. \<exists>s. e = RData s \<and> s \<noteq> []"
  shows "\<exists>w'. send_loop inp w out = (Sent, out @ avail inp, w')"
  using assms
proof (induction "rdev_size inp" arbitrary: inp w out rule: less_induct)
  case less
  show ?case
  proof (cases inp)
    case Nil
    then show ?thesis by (simp add: send_loop.simps)
  next
    case (Cons e inp1)
    then obtain s where s: "e = RData s" "s \<noteq> []" using less.prems(2) by auto
    define b where "b = take IOBUFSZ s"
    define inp' where "inp' = (if length s \<le> IOBUFSZ then inp1 else RData (drop IOBUFSZ s) # inp1)"
    have r: "sys_read IOBUFSZ inp = (Some b, inp')" using Cons s by (simp add: b_def inp'_def)
    have b: "b \<noteq> []" using s by (simp add: b_def size_defs)
    have ok: "\<forall>e \<in> set inp'. \<exists>s. e = RData s \<and> s \<noteq> []"
      using less.prems(2) Cons by (auto simp: inp'_def)
    have av: "avail inp = b @ avail inp'"
      using Cons s by (auto simp: b_def inp'_def)
    obtain w1 where w1: "writen b w = (Some (length b), b, w1)" "takes_all w1"
      using writen_takes_all [OF less.prems(1)] by blast
    have "send_loop inp w out = send_loop inp' w1 (out @ b)"
      using r b w1(1) by (simp add: send_loop.simps [of inp])
    then show ?thesis using less.hyps [OF sys_read_less [OF r b] w1(2) ok, of "out @ b"] av by simp
  qed
qed

end
