(* ===== verification/Print_Ipp.thy ===== *)
theory Print_Ipp
  imports Print_Wire
begin

text \<open>
  The headers the print daemon puts before a file it sends to the printer: the IPP request
  built with \<^verbatim>\<open>add_option\<close> and the HTTP header (\<^verbatim>\<open>printer/printd.c\<close>, lines 634 to 784). The
  buffers are C buffers of fixed size, so that running over their end is visible; an
  independent decoder of IPP attributes reads the request back.
\<close>

named_theorems ipp_consts \<open>tags and sizes of the IPP request\<close>

definition IBUFSZ :: nat where [ipp_consts]: "IBUFSZ = 512"
definition HBUFSZ :: nat where [ipp_consts]: "HBUFSZ = 512"
definition IPP_PORT :: nat where [ipp_consts]: "IPP_PORT = 631"
definition OP_PRINT_JOB :: nat where [ipp_consts]: "OP_PRINT_JOB = 2"
definition TAG_OPERATION_ATTR :: nat where [ipp_consts]: "TAG_OPERATION_ATTR = 1"
definition TAG_END_OF_ATTR :: nat where [ipp_consts]: "TAG_END_OF_ATTR = 3"
definition TAG_NAMEWOLANG :: nat where [ipp_consts]: "TAG_NAMEWOLANG = 0x42"
definition TAG_URI :: nat where [ipp_consts]: "TAG_URI = 0x45"
definition TAG_CHARSET :: nat where [ipp_consts]: "TAG_CHARSET = 0x47"
definition TAG_NATULANG :: nat where [ipp_consts]: "TAG_NATULANG = 0x48"
definition TAG_MIMETYPE :: nat where [ipp_consts]: "TAG_MIMETYPE = 0x49"

section \<open>Building the request\<close>

definition add_option :: "string \<Rightarrow> nat \<Rightarrow> nat \<Rightarrow> string \<Rightarrow> string \<Rightarrow> (string \<times> nat) res" where
  "add_option b cp tag optname optval =
     bnd (buf_put b cp [char_of tag]) (\<lambda>b.
     bnd (buf_put b (cp + 1) (be16 (length optname))) (\<lambda>b.
     bnd (buf_strcpy b (cp + 3) optname) (\<lambda>b.
     bnd (buf_put b (cp + 3 + length optname) (be16 (length optval))) (\<lambda>b.
     bnd (buf_strcpy b (cp + 5 + length optname) optval) (\<lambda>b.
     Inr (b, cp + 5 + length optname + length optval))))))"

fun add_options :: "string \<Rightarrow> nat \<Rightarrow> (nat \<times> string \<times> string) list \<Rightarrow> (string \<times> nat) res" where
  "add_options b cp [] = Inr (b, cp)"
| "add_options b cp ((tag, nm, v) # os) = bnd (add_option b cp tag nm v) (\<lambda>(b', cp'). add_options b' cp' os)"

text \<open>The attributes of a print request, and the URI in its buffer \<^verbatim>\<open>str\<close> of 64 bytes.\<close>

definition printer_uri :: "string \<Rightarrow> string res" where
  "printer_uri printer_name =
     (let s = ''http://'' @ printer_name @ ''/ipp''
      in if length s < 64 then Inr s else Inl (Undefined ''buffer overflow''))"

definition doc_format :: "32 word \<Rightarrow> string" where
  "doc_format flags = (if and flags PR_TEXT \<noteq> 0 then ''text/plain'' else ''application/postscript'')"

text \<open>
  A name in a field of the request, as \<^verbatim>\<open>strlen\<close> and \<^verbatim>\<open>strcpy\<close> read it. The request comes from the network as it is: when
  the field has no null byte they run past its end.
\<close>

definition field_str :: "string \<Rightarrow> string res" where
  "field_str s = (if NUL \<in> set s then Inr (cstr s) else Inl (Undefined ''string runs past its field''))"

definition job_options :: "string \<Rightarrow> printreq \<Rightarrow> (nat \<times> string \<times> string) list res" where
  "job_options uri req =
     bnd (field_str (usernm req)) (\<lambda>user.
     bnd (field_str (jobnm req)) (\<lambda>job.
     Inr
      [(TAG_CHARSET, ''attributes-charset'', ''utf-8''),
       (TAG_NATULANG, ''attributes-natural-language'', ''en-us''),
       (TAG_URI, ''printer-uri'', uri),
       (TAG_NAMEWOLANG, ''requesting-user-name'', user),
       (TAG_NAMEWOLANG, ''job-name'', job),
       (TAG_MIMETYPE, ''document-format'', doc_format (rflags req))]))"

text \<open>What they are when both names end within their fields.\<close>

definition names_end :: "printreq \<Rightarrow> bool" where
  "names_end req \<longleftrightarrow> NUL \<in> set (usernm req) \<and> NUL \<in> set (jobnm req)"

definition job_attrs :: "string \<Rightarrow> printreq \<Rightarrow> (nat \<times> string \<times> string) list" where
  "job_attrs uri req =
     [(TAG_CHARSET, ''attributes-charset'', ''utf-8''),
      (TAG_NATULANG, ''attributes-natural-language'', ''en-us''),
      (TAG_URI, ''printer-uri'', uri),
      (TAG_NAMEWOLANG, ''requesting-user-name'', cstr (usernm req)),
      (TAG_NAMEWOLANG, ''job-name'', cstr (jobnm req)),
      (TAG_MIMETYPE, ''document-format'', doc_format (rflags req))]"

text \<open>Lines 740 to 767: the filled \<^verbatim>\<open>ibuf\<close> and \<^verbatim>\<open>ilen\<close>.\<close>

definition ipp_request :: "string \<Rightarrow> string \<Rightarrow> 32 word \<Rightarrow> printreq \<Rightarrow> (string \<times> nat) res" where
  "ipp_request g printer_name jobid req =
     bnd (buf_put g 0 ([char_of (1::nat), char_of (1::nat)] @ be16 OP_PRINT_JOB @ mem32 (htonl jobid))) (\<lambda>b.
     bnd (buf_put b 8 [char_of TAG_OPERATION_ATTR]) (\<lambda>b.
     bnd (printer_uri printer_name) (\<lambda>uri.
     bnd (job_options uri req) (\<lambda>os.
     bnd (add_options b 9 os) (\<lambda>(b, icp).
     bnd (buf_put b icp [char_of TAG_END_OF_ATTR]) (\<lambda>b.
     Inr (b, icp + 1)))))))"

lemma job_options_names:
  "job_options uri req = (if names_end req then Inr (job_attrs uri req) else Inl (Undefined ''string runs past its field''))"
  by (simp add: job_options_def job_attrs_def names_end_def field_str_def)

text \<open>Lines 772 to 784: the filled \<^verbatim>\<open>hbuf\<close> and \<^verbatim>\<open>hlen\<close>.\<close>

definition CRLF :: string where "CRLF = [CHR 0x0D, NL]"

fun buf_cats :: "string \<Rightarrow> nat \<Rightarrow> string list \<Rightarrow> (string \<times> nat) res" where
  "buf_cats b i [] = Inr (b, i)"
| "buf_cats b i (s # ss) = bnd (buf_strcpy b i s) (\<lambda>b'. buf_cats b' (i + length s) ss)"

definition http_lines :: "string \<Rightarrow> nat \<Rightarrow> string list" where
  "http_lines printer_name len =
     [''POST /ipp HTTP/1.1'' @ CRLF, ''Content-Length: '' @ dec len @ CRLF,
      ''Content-Type: application/ipp'' @ CRLF, ''Host: '' @ printer_name @ '':'' @ dec IPP_PORT @ CRLF]"

definition http_header :: "string \<Rightarrow> string \<Rightarrow> nat \<Rightarrow> (string \<times> nat) res" where
  "http_header g printer_name len =
     bnd (buf_cats g 0 (http_lines printer_name len)) (\<lambda>(b, hcp).
     bnd (buf_put b hcp CRLF) (\<lambda>b. Inr (b, hcp + 2)))"

section \<open>Reading a request back\<close>

text \<open>One attribute: its tag, its name and its value, each string after its length.\<close>

definition be16_val :: "string \<Rightarrow> nat" where
  "be16_val s = 256 * of_char (s ! 0) + of_char (s ! 1)"

definition get_str :: "string \<Rightarrow> (string \<times> string) option" where
  "get_str s = (if length s < 2 \<or> length s < 2 + be16_val s then None
                else Some (take (be16_val s) (drop 2 s), drop (2 + be16_val s) s))"

lemma get_str_shorter: "get_str s = Some (x, r) \<Longrightarrow> length r < length s"
  by (auto simp: get_str_def split: if_splits)

function ipp_attrs :: "string \<Rightarrow> ((nat \<times> string \<times> string) list \<times> string) option" where
  "ipp_attrs s =
     (case s of [] \<Rightarrow> None
      | t # r \<Rightarrow>
          if of_char t = TAG_END_OF_ATTR then Some ([], r)
          else case get_str r of None \<Rightarrow> None
               | Some (nm, r1) \<Rightarrow>
                   (case get_str r1 of None \<Rightarrow> None
                    | Some (v, r2) \<Rightarrow> map_option (\<lambda>(as, r3). ((of_char t, nm, v) # as, r3)) (ipp_attrs r2)))"
  by pat_completeness auto
termination by (relation "measure length") (auto dest!: get_str_shorter)

declare ipp_attrs.simps [simp del]

definition option_bytes :: "nat \<times> string \<times> string \<Rightarrow> string" where
  "option_bytes = (\<lambda>(tag, nm, v). [char_of tag] @ be16 (length nm) @ nm @ be16 (length v) @ v)"

definition option_ok :: "nat \<times> string \<times> string \<Rightarrow> bool" where
  "option_ok = (\<lambda>(tag, nm, v). tag < 256 \<and> tag \<noteq> TAG_END_OF_ATTR \<and> length nm < 65536 \<and> length v < 65536)"

lemma be16_val_be16: "n < 65536 \<Longrightarrow> be16_val (be16 n @ s) = n"
  by (simp add: be16_val_def be16_def of_char_of less_mult_imp_div_less)

lemma get_str_be16: "length nm < 65536 \<Longrightarrow> get_str (be16 (length nm) @ nm @ r) = Some (nm, r)"
  by (simp add: get_str_def be16_val_be16)

lemma ipp_attrs_options:
  "\<forall>x \<in> set os. option_ok x \<Longrightarrow> ipp_attrs (concat (map option_bytes os) @ [char_of TAG_END_OF_ATTR]) = Some (os, [])"
proof (induction os)
  case Nil
  then show ?case by (simp add: ipp_attrs.simps ipp_consts of_char_of)
next
  case (Cons x os)
  obtain tag nm v where x: "x = (tag, nm, v)" by (cases x) auto
  have ok: "tag < 256" "tag \<noteq> TAG_END_OF_ATTR" "length nm < 65536" "length v < 65536"
    using Cons.prems by (auto simp: x option_ok_def)
  have b: "option_bytes x = char_of tag # be16 (length nm) @ nm @ be16 (length v) @ v"
    by (simp add: x option_bytes_def)
  show ?case using Cons ok
    by (subst ipp_attrs.simps) (simp add: b of_char_of get_str_be16, simp add: x)
qed

section \<open>What the buffers hold\<close>

lemma buf_put_ok:
  assumes "i + length s \<le> length b" "take i b = p" "i \<le> length b"
  shows "\<exists>b'. buf_put b i s = Inr b' \<and> length b' = length b \<and> take (i + length s) b' = p @ s"
  using assms by (auto simp: buf_put_def)

lemma take_before: "take (n + 1) b = p @ [c] \<Longrightarrow> length p = n \<Longrightarrow> take n b = p"
  by (metis append_eq_conv_conj min_def le_add1 take_take)

lemma add_option_ok:
  assumes "cp + length (option_bytes (tag, nm, v)) < length b"
  shows "\<exists>b'. add_option b cp tag nm v = Inr (b', cp + length (option_bytes (tag, nm, v))) \<and> length b' = length b \<and>
    take (cp + length (option_bytes (tag, nm, v))) b' = take cp b @ option_bytes (tag, nm, v)"
proof -
  have l: "cp + 5 + length nm + length v < length b" using assms by (simp add: option_bytes_def)
  obtain b1 where b1: "buf_put b cp [char_of tag] = Inr b1" "length b1 = length b" "take (cp + 1) b1 = take cp b @ [char_of tag]"
    using buf_put_ok [of cp "[char_of tag]" b "take cp b"] l by auto
  obtain b2 where b2: "buf_put b1 (cp + 1) (be16 (length nm)) = Inr b2" "length b2 = length b"
      "take (cp + 3) b2 = take cp b @ [char_of tag] @ be16 (length nm)"
    using buf_put_ok [of "cp + 1" "be16 (length nm)" b1 "take cp b @ [char_of tag]"] l b1
    by (auto simp: numeral_eq_Suc)
  obtain b3 where b3: "buf_strcpy b2 (cp + 3) nm = Inr b3" "length b3 = length b"
      "take (cp + 3 + length nm + 1) b3 = (take cp b @ [char_of tag] @ be16 (length nm) @ nm) @ [NUL]"
    using buf_put_ok [of "cp + 3" "nm @ [NUL]" b2 "take cp b @ [char_of tag] @ be16 (length nm)"] l b2
    by (auto simp: buf_strcpy_def)
  have c: "length (take cp b @ [char_of tag] @ be16 (length nm) @ nm) = cp + 3 + length nm" using l by simp
  have t3: "take (cp + 3 + length nm) b3 = take cp b @ [char_of tag] @ be16 (length nm) @ nm"
    by (rule take_before [OF b3(3) c])
  obtain b4 where b4: "buf_put b3 (cp + 3 + length nm) (be16 (length v)) = Inr b4" "length b4 = length b"
      "take (cp + 5 + length nm) b4 = take cp b @ [char_of tag] @ be16 (length nm) @ nm @ be16 (length v)"
    using buf_put_ok [of "cp + 3 + length nm" "be16 (length v)" b3 "take cp b @ [char_of tag] @ be16 (length nm) @ nm"] l b3 t3
    by (auto simp: numeral_eq_Suc)
  obtain b5 where b5: "buf_strcpy b4 (cp + 5 + length nm) v = Inr b5" "length b5 = length b"
      "take (cp + 5 + length nm + length v + 1) b5 = (take cp b @ option_bytes (tag, nm, v)) @ [NUL]"
    using buf_put_ok [of "cp + 5 + length nm" "v @ [NUL]" b4 "take cp b @ [char_of tag] @ be16 (length nm) @ nm @ be16 (length v)"] l b4
    by (auto simp: buf_strcpy_def option_bytes_def)
  have lo: "cp + length (option_bytes (tag, nm, v)) = cp + 5 + length nm + length v" by (simp add: option_bytes_def)
  have t5: "take (cp + 5 + length nm + length v) b5 = take cp b @ option_bytes (tag, nm, v)"
    by (rule take_before [OF b5(3)]) (use l lo in simp)
  show ?thesis using b1(1) b2(1) b3(1) b4(1) b5(1,2) t5 unfolding add_option_def lo by simp
qed

lemma add_options_ok:
  assumes "cp + length (concat (map option_bytes os)) < length b"
  shows "\<exists>b'. add_options b cp os = Inr (b', cp + length (concat (map option_bytes os))) \<and> length b' = length b \<and>
    take (cp + length (concat (map option_bytes os))) b' = take cp b @ concat (map option_bytes os)"
  using assms
proof (induction os arbitrary: b cp)
  case Nil
  then show ?case by simp
next
  case (Cons x os)
  obtain tag nm v where x: "x = (tag, nm, v)" by (cases x) auto
  let ?cp = "cp + length (option_bytes x)"
  obtain b1 where b1: "add_option b cp tag nm v = Inr (b1, ?cp)" "length b1 = length b" "take ?cp b1 = take cp b @ option_bytes x"
    using add_option_ok [of cp tag nm v b] Cons.prems by (auto simp: x)
  have "?cp + length (concat (map option_bytes os)) < length b1" using Cons.prems b1(2) by (simp add: add.assoc)
  from Cons.IH [OF this] b1 show ?case by (auto simp: x add.assoc)
qed

lemma add_option_overflow:
  assumes "length b \<le> cp + length (option_bytes (tag, nm, v))"
  shows "add_option b cp tag nm v = Inl (Undefined ''buffer overflow'')"
  using assms by (auto simp: add_option_def buf_strcpy_def buf_put_def bnd_def option_bytes_def split: sum.splits if_splits)

lemma add_options_overflow:
  assumes "length b \<le> cp + length (concat (map option_bytes os))" "cp < length b"
  shows "add_options b cp os = Inl (Undefined ''buffer overflow'')"
  using assms
proof (induction os arbitrary: b cp)
  case Nil
  then show ?case by simp
next
  case (Cons x os)
  obtain tag nm v where x: "x = (tag, nm, v)" by (cases x) auto
  show ?case
  proof (cases "cp + length (option_bytes x) < length b")
    case False
    then show ?thesis using add_option_overflow [of b cp tag nm v] by (simp add: x)
  next
    case True
    then obtain b1 where b1: "add_option b cp tag nm v = Inr (b1, cp + length (option_bytes x))" "length b1 = length b"
      using add_option_ok [of cp tag nm v b] by (auto simp: x)
    then show ?thesis using Cons.IH [of b1 "cp + length (option_bytes x)"] Cons.prems(1) True by (simp add: x add.assoc)
  qed
qed

lemma buf_strcpy_ok:
  assumes "i + length s < length b"
  shows "\<exists>b'. buf_strcpy b i s = Inr b' \<and> length b' = length b \<and> take (i + length s) b' = take i b @ s"
proof -
  obtain b' where b': "buf_put b i (s @ [NUL]) = Inr b'" "length b' = length b" "take (i + length s + 1) b' = (take i b @ s) @ [NUL]"
    using buf_put_ok [of i "s @ [NUL]" b "take i b"] assms by auto
  have "take (i + length s) b' = take i b @ s" by (rule take_before [OF b'(3)]) (use assms in simp)
  then show ?thesis using b' by (simp add: buf_strcpy_def)
qed

lemma buf_cats_ok:
  assumes "i + length (concat ss) < length b"
  shows "\<exists>b'. buf_cats b i ss = Inr (b', i + length (concat ss)) \<and> length b' = length b \<and>
    take (i + length (concat ss)) b' = take i b @ concat ss"
  using assms
proof (induction ss arbitrary: b i)
  case Nil
  then show ?case by simp
next
  case (Cons s ss)
  obtain b1 where b1: "buf_strcpy b i s = Inr b1" "length b1 = length b" "take (i + length s) b1 = take i b @ s"
    using buf_strcpy_ok [of i s b] Cons.prems by auto
  have "i + length s + length (concat ss) < length b1" using Cons.prems b1(2) by (simp add: add.assoc)
  from Cons.IH [OF this] b1 show ?case by (auto simp: add.assoc)
qed

definition http_text :: "string \<Rightarrow> nat \<Rightarrow> string" where
  "http_text printer_name len = concat (http_lines printer_name len) @ CRLF"

lemma http_header_ok:
  assumes "length (http_text printer_name len) \<le> HBUFSZ" "length g = HBUFSZ"
  shows "\<exists>b. http_header g printer_name len = Inr (b, length (http_text printer_name len)) \<and>
    take (length (http_text printer_name len)) b = http_text printer_name len"
proof -
  let ?s = "concat (http_lines printer_name len)"
  have t: "http_text printer_name len = ?s @ CRLF" "length (http_text printer_name len) = length ?s + 2"
    by (simp_all add: http_text_def CRLF_def)
  obtain b1 where b1: "buf_cats g 0 (http_lines printer_name len) = Inr (b1, length ?s)" "length b1 = length g" "take (length ?s) b1 = ?s"
    using buf_cats_ok [of 0 "http_lines printer_name len" g] assms t(2) by auto
  obtain b2 where "buf_put b1 (length ?s) CRLF = Inr b2" "take (length ?s + 2) b2 = ?s @ CRLF"
    using buf_put_ok [of "length ?s" CRLF b1 ?s] assms t(2) b1 by (auto simp: CRLF_def)
  then show ?thesis using b1(1) t by (simp add: http_header_def)
qed

lemma http_text_length:
  assumes "length printer_name \<le> 52" "len < 10 ^ 20"
  shows "length (http_text printer_name len) \<le> HBUFSZ"
proof -
  have "length (dec len) \<le> 20" using length_dec_le [OF assms(2)] by simp
  moreover have "length (dec 631) \<le> 3" by (rule length_dec_le) simp_all
  ultimately show ?thesis using assms(1) by (simp add: http_text_def http_lines_def CRLF_def ipp_consts)
qed

definition ipp_bytes :: "32 word \<Rightarrow> string \<Rightarrow> printreq \<Rightarrow> string" where
  "ipp_bytes jobid uri req = [char_of (1::nat), char_of (1::nat)] @ be16 OP_PRINT_JOB @ mem32 (htonl jobid) @
     [char_of TAG_OPERATION_ATTR] @ concat (map option_bytes (job_attrs uri req)) @ [char_of TAG_END_OF_ATTR]"

definition job_uri :: "string \<Rightarrow> string" where
  "job_uri printer_name = ''http://'' @ printer_name @ ''/ipp''"

lemma ipp_request_buf:
  assumes "length g = IBUFSZ" "length printer_name \<le> 52"
  shows "if \<not> names_end req then ipp_request g printer_name jobid req = Inl (Undefined ''string runs past its field'')
    else if length (ipp_bytes jobid (job_uri printer_name) req) \<le> IBUFSZ
    then \<exists>b. ipp_request g printer_name jobid req = Inr (b, length (ipp_bytes jobid (job_uri printer_name) req)) \<and>
      take (length (ipp_bytes jobid (job_uri printer_name) req)) b = ipp_bytes jobid (job_uri printer_name) req
    else ipp_request g printer_name jobid req = Inl (Undefined ''buffer overflow'')"
proof -
  let ?u = "job_uri printer_name"
  let ?h = "[char_of (1::nat), char_of (1::nat)] @ be16 OP_PRINT_JOB @ mem32 (htonl jobid)"
  let ?h1 = "?h @ [char_of TAG_OPERATION_ATTR]"
  let ?o = "concat (map option_bytes (job_attrs ?u req))"
  have uri: "printer_uri printer_name = Inr ?u" using assms(2) by (simp add: printer_uri_def job_uri_def Let_def)
  have h: "length ?h = 8" by simp
  have lb: "length (ipp_bytes jobid ?u req) = 10 + length ?o" "ipp_bytes jobid ?u req = ?h1 @ ?o @ [char_of TAG_END_OF_ATTR]"
    by (simp_all add: ipp_bytes_def)
  obtain b1 where b1: "buf_put g 0 ?h = Inr b1" "length b1 = 512" "take 8 b1 = ?h"
    using buf_put_ok [of 0 ?h g "[]"] assms(1) h by (auto simp: ipp_consts)
  obtain b2 where b2: "buf_put b1 8 [char_of TAG_OPERATION_ATTR] = Inr b2" "length b2 = 512" "take 9 b2 = ?h1"
    using buf_put_ok [of 8 "[char_of TAG_OPERATION_ATTR]" b1 ?h] b1 by auto
  note run = ipp_request_def b1(1) b2(1) uri bnd_Inr job_options_names
  show ?thesis
  proof (cases "names_end req")
    case False
    then show ?thesis unfolding run by simp
  next
    case ends: True
    show ?thesis
  proof (cases "length (ipp_bytes jobid ?u req) \<le> IBUFSZ")
    case True
    then have "9 + length ?o < length b2" using lb b2(2) by (simp add: ipp_consts)
    then obtain b3 where b3: "add_options b2 9 (job_attrs ?u req) = Inr (b3, 9 + length ?o)" "length b3 = 512"
        "take (9 + length ?o) b3 = ?h1 @ ?o"
      using add_options_ok [of 9 "job_attrs ?u req" b2] b2 by auto
    obtain b4 where "buf_put b3 (9 + length ?o) [char_of TAG_END_OF_ATTR] = Inr b4"
        "take (10 + length ?o) b4 = (?h1 @ ?o) @ [char_of TAG_END_OF_ATTR]"
      using buf_put_ok [of "9 + length ?o" "[char_of TAG_END_OF_ATTR]" b3 "?h1 @ ?o"] b3 \<open>9 + length ?o < length b2\<close> b2(2)
      by auto
    then show ?thesis using True ends b3(1) lb unfolding run by simp
  next
    case False
    then have "length b2 \<le> 9 + length ?o" using lb b2(2) by (simp add: ipp_consts)
    then have "add_options b2 9 (job_attrs ?u req) = Inl (Undefined ''buffer overflow'')"
      by (rule add_options_overflow) (simp add: b2(2))
    then show ?thesis using False ends unfolding run by simp
  qed
  qed
qed

lemma length_ipp_bytes:
  "length (ipp_bytes jobid (job_uri printer_name) req) =
     148 + length (doc_format (rflags req)) + length printer_name + 11 + length (cstr (usernm req)) + length (cstr (jobnm req)) + 1"
  by (simp add: ipp_bytes_def job_attrs_def option_bytes_def job_uri_def)

lemma job_attrs_ok:
  assumes "length (ipp_bytes jobid (job_uri printer_name) req) \<le> IBUFSZ"
  shows "\<forall>x \<in> set (job_attrs (job_uri printer_name) req). option_ok x"
  using assms unfolding length_ipp_bytes
  by (simp add: job_attrs_def option_ok_def ipp_consts job_uri_def)

text \<open>Conversely, what the buffers hold whenever a header has been built, whatever their size.\<close>

lemma buf_put_fits: "buf_put b i s = Inr b' \<Longrightarrow> i + length s \<le> length b"
  by (auto simp: buf_put_def split: if_splits)

lemma buf_cats_result:
  assumes "buf_cats b i ss = Inr (b', n)" "i \<le> length b"
  shows "n = i + length (concat ss) \<and> length b' = length b \<and> n \<le> length b \<and> take n b' = take i b @ concat ss"
  using assms
proof (induction ss arbitrary: b i)
  case (Cons s ss)
  then obtain b1 where b1: "buf_strcpy b i s = Inr b1" "buf_cats b1 (i + length s) ss = Inr (b', n)" by (auto simp: bnd_eq_Inr_iff)
  have l: "i + length s < length b" using buf_put_fits b1(1) by (fastforce simp: buf_strcpy_def)
  have e: "length b1 = length b" "take (i + length s) b1 = take i b @ s" using buf_strcpy_ok [OF l] b1(1) by auto
  then show ?case using Cons.IH [OF b1(2)] l by (auto simp: add.assoc)
qed simp

lemma http_header_result:
  assumes "http_header g printer_name len = Inr (b, n)"
  shows "n = length (http_text printer_name len) \<and> take n b = http_text printer_name len"
proof -
  obtain b1 h where b1: "buf_cats g 0 (http_lines printer_name len) = Inr (b1, h)" "buf_put b1 h CRLF = Inr b" "n = h + 2"
    using assms by (auto simp: http_header_def bnd_eq_Inr_iff)
  have r: "h = length (concat (http_lines printer_name len))" "h \<le> length b1" "take h b1 = concat (http_lines printer_name len)"
    using buf_cats_result [OF b1(1)] by auto
  have "take (h + length CRLF) b = concat (http_lines printer_name len) @ CRLF"
    using buf_put_ok [OF buf_put_fits [OF b1(2)] r(3,2)] b1(2) by auto
  then show ?thesis using b1(3) r(1) by (simp add: http_text_def CRLF_def)
qed

lemma add_options_result:
  assumes "add_options b cp os = Inr (b', n)" "cp < length b"
  shows "n = cp + length (concat (map option_bytes os)) \<and> length b' = length b \<and> take n b' = take cp b @ concat (map option_bytes os)"
proof -
  have "cp + length (concat (map option_bytes os)) < length b"
    by (rule ccontr) (use add_options_overflow [of b cp os] assms in auto)
  from add_options_ok [OF this] assms(1) show ?thesis by auto
qed

lemma ipp_request_result:
  assumes "ipp_request g printer_name jobid req = Inr (b, n)"
  shows "names_end req \<and> n = length (ipp_bytes jobid (job_uri printer_name) req) \<and> take n b = ipp_bytes jobid (job_uri printer_name) req"
proof -
  let ?u = "job_uri printer_name"
  let ?h = "[char_of (1::nat), char_of (1::nat)] @ be16 OP_PRINT_JOB @ mem32 (htonl jobid)"
  let ?h1 = "?h @ [char_of TAG_OPERATION_ATTR]"
  let ?o = "concat (map option_bytes (job_attrs ?u req))"
  obtain b1 b2 b3 icp where b: "buf_put g 0 ?h = Inr b1" "buf_put b1 8 [char_of TAG_OPERATION_ATTR] = Inr b2"
      "add_options b2 9 (job_attrs ?u req) = Inr (b3, icp)" "buf_put b3 icp [char_of TAG_END_OF_ATTR] = Inr b" "n = icp + 1" "names_end req"
    using assms
    by (auto simp: ipp_request_def printer_uri_def job_uri_def job_options_names Let_def bnd_eq_Inr_iff split: if_splits)
  have "take (0 + length ?h) b1 = [] @ ?h" using buf_put_ok [OF buf_put_fits [OF b(1)], of "[]"] b(1) by auto
  then have b1: "take 8 b1 = ?h" by simp
  have "length b1 = length g" "length b2 = length b1" using b(1,2) by (auto simp: buf_put_def split: if_splits)
  then have l: "9 \<le> length b2" using buf_put_fits [OF b(2)] by simp
  have b2: "take 9 b2 = ?h1" using buf_put_ok [OF buf_put_fits [OF b(2)] b1] buf_put_fits [OF b(2)] b(2) by auto
  have l2: "9 < length b2"
  proof (rule ccontr)
    assume "\<not> 9 < length b2"
    then have "length b2 \<le> 9 + length (option_bytes (TAG_CHARSET, ''attributes-charset'', ''utf-8''))" by simp
    from add_option_overflow [OF this] show False using b(3) by (simp add: job_attrs_def)
  qed
  have b3: "icp = 9 + length ?o" "take icp b3 = ?h1 @ ?o" "length b3 = length b2"
    using add_options_result [OF b(3) l2] b2 by auto
  have "take (icp + 1) b = (?h1 @ ?o) @ [char_of TAG_END_OF_ATTR]"
    using buf_put_ok [OF buf_put_fits [OF b(4)] b3(2)] buf_put_fits [OF b(4)] b(4) by auto
  then show ?thesis using b(5,6) b3(1) by (simp add: ipp_bytes_def)
qed

section \<open>Properties\<close>

text \<open>
  C24: The IPP request of a print job. For a printer name that fits the URI buffer, the
  request is built inside \<^verbatim>\<open>ibuf\<close> exactly when the names of user and job end within their fields and
  the three names leave room: then its first bytes are version 1.1, the print operation and the job
  number in network order, and decoding the rest gives back the six attributes in order. A name without a
  null byte is read past the end of its field, which the daemon does not check although the
  request comes from the network; and when the names do not fit, \<^verbatim>\<open>add_option\<close> writes past the end of the buffer.
\<close>

theorem ipp_request_roundtrip:
  assumes "length g = IBUFSZ" "length printer_name \<le> 52"
  shows "if NUL \<notin> set (usernm req) \<or> NUL \<notin> set (jobnm req)
    then ipp_request g printer_name jobid req = Inl (Undefined ''string runs past its field'')
    else if 160 + length (doc_format (rflags req)) + length printer_name + length (cstr (usernm req)) + length (cstr (jobnm req)) \<le> IBUFSZ
    then \<exists>b n. ipp_request g printer_name jobid req = Inr (b, n) \<and> n \<le> IBUFSZ \<and>
       take 8 b = [char_of (1::nat), char_of (1::nat), NUL, char_of (2::nat)] @ rev (mem32 jobid) \<and>
       ipp_attrs (drop 9 (take n b)) = Some
         ([(TAG_CHARSET, ''attributes-charset'', ''utf-8''), (TAG_NATULANG, ''attributes-natural-language'', ''en-us''),
           (TAG_URI, ''printer-uri'', ''http://'' @ printer_name @ ''/ipp''),
           (TAG_NAMEWOLANG, ''requesting-user-name'', cstr (usernm req)), (TAG_NAMEWOLANG, ''job-name'', cstr (jobnm req)),
           (TAG_MIMETYPE, ''document-format'', doc_format (rflags req))], [])
    else ipp_request g printer_name jobid req = Inl (Undefined ''buffer overflow'')"
proof -
  let ?u = "job_uri printer_name"
  let ?s = "ipp_bytes jobid ?u req"
  have fits: "160 + length (doc_format (rflags req)) + length printer_name + length (cstr (usernm req)) + length (cstr (jobnm req)) \<le> IBUFSZ
      \<longleftrightarrow> length ?s \<le> IBUFSZ" unfolding length_ipp_bytes by (simp add: add.assoc)
  have names: "NUL \<notin> set (usernm req) \<or> NUL \<notin> set (jobnm req) \<longleftrightarrow> \<not> names_end req" by (simp add: names_end_def)
  show ?thesis
  proof (cases "names_end req \<and> length ?s \<le> IBUFSZ")
    case True
    then obtain b where b: "ipp_request g printer_name jobid req = Inr (b, length ?s)" "take (length ?s) b = ?s"
      using ipp_request_buf [OF assms, of req jobid] by auto
    have "8 \<le> length ?s" by (simp add: ipp_bytes_def)
    then have "take 8 b = take 8 ?s" using arg_cong [OF b(2), of "take 8"] by (simp add: min_def)
    moreover have "take 8 ?s = [char_of (1::nat), char_of (1::nat), NUL, char_of (2::nat)] @ rev (mem32 jobid)"
      by (simp add: ipp_bytes_def be16_def ipp_consts mem32_htonl char_of_def [of "0::nat"])
    moreover have "drop 9 ?s = concat (map option_bytes (job_attrs ?u req)) @ [char_of TAG_END_OF_ATTR]"
      by (simp add: ipp_bytes_def)
    then have "ipp_attrs (drop 9 (take (length ?s) b)) = Some (job_attrs ?u req, [])"
      using ipp_attrs_options [OF job_attrs_ok [OF conjunct2 [OF True]]] b(2) by simp
    ultimately show ?thesis using True b(1) unfolding fits names
      by (simp add: job_attrs_def job_uri_def)
  next
    case False
    then show ?thesis using ipp_request_buf [OF assms, of req jobid] unfolding fits names by (auto split: if_splits)
  qed
qed

theorem ipp_request_roundtrip_witness:
  "(let g = replicate 512 NUL; req = \<lparr>rsize = 0, rflags = 1, usernm = ''sar'' @ replicate 61 NUL, jobnm = ''ch21'' @ replicate 252 NUL\<rparr>
    in \<exists>b n. ipp_request g ''lj4'' 17 req = Inr (b, n) \<and> take 8 b = [char_of (1::nat), char_of (1::nat), NUL, char_of (2::nat)] @ rev (mem32 17))
   \<and> (let g = replicate 512 NUL; req = \<lparr>rsize = 0, rflags = 0, usernm = replicate 63 CHR ''u'' @ [NUL], jobnm = replicate 255 CHR ''j'' @ [NUL]\<rparr>
    in ipp_request g ''printer.example'' 17 req = Inl (Undefined ''buffer overflow''))
   \<and> (let g = replicate 512 NUL; req = \<lparr>rsize = 0, rflags = 0, usernm = replicate 64 CHR ''u'', jobnm = ''ch21'' @ replicate 252 NUL\<rparr>
    in ipp_request g ''lj4'' 17 req = Inl (Undefined ''string runs past its field''))"
proof -
  have c: "cstr (replicate n c @ [NUL]) = replicate n c" if "c \<noteq> NUL" for n c
    using cstr_append_NUL [of "replicate n c" "[]"] that by (simp add: is_cstr_def)
  have d: "cstr (''sar'' @ replicate 61 NUL) = ''sar''" "cstr (''ch21'' @ replicate 252 NUL) = ''ch21''"
    by (simp_all add: cstr_def numeral_eq_Suc)
  show ?thesis unfolding Let_def
    using ipp_request_roundtrip [of "replicate 512 NUL" "''lj4''" "\<lparr>rsize = 0, rflags = 1, usernm = ''sar'' @ replicate 61 NUL, jobnm = ''ch21'' @ replicate 252 NUL\<rparr>" 17]
      ipp_request_roundtrip [of "replicate 512 NUL" "''printer.example''" "\<lparr>rsize = 0, rflags = 0, usernm = replicate 63 CHR ''u'' @ [NUL], jobnm = replicate 255 CHR ''j'' @ [NUL]\<rparr>" 17]
      ipp_request_roundtrip [of "replicate 512 NUL" "''lj4''" "\<lparr>rsize = 0, rflags = 0, usernm = replicate 64 CHR ''u'', jobnm = ''ch21'' @ replicate 252 NUL\<rparr>" 17]
    by (auto simp: ipp_consts d [simplified] c doc_format_def PR_TEXT_def split: if_splits)
qed

end
