(* ===== verification/Print_Workers.thy ===== *)
theory Print_Workers
  imports Job_Queue
begin

text \<open>
  The list of worker threads of the print daemon and the thread that waits for signals
  (\<^verbatim>\<open>add_worker\<close>, \<^verbatim>\<open>kill_workers\<close>, \<^verbatim>\<open>client_cleanup\<close> and \<^verbatim>\<open>signal_thread\<close> of
  \<^verbatim>\<open>printer/printd.c\<close>). The structures live in an explicit store that knows which addresses
  are allocated: following the null pointer or one that was freed has no defined result.
\<close>

record wstore =
  wnext :: "nat \<Rightarrow> nat"
  wprev :: "nat \<Rightarrow> nat"
  wtid :: "nat \<Rightarrow> nat"
  wsock :: "nat \<Rightarrow> int"
  walive :: "nat \<Rightarrow> bool"
  workers :: nat
  wclosed :: "int list"

definition deref :: "wstore \<Rightarrow> nat \<Rightarrow> unit res" where
  "deref s a = (if a = 0 \<or> \<not> walive s a then Inl (Undefined ''dangling pointer'') else Inr ())"

section \<open>The operations\<close>

text \<open>\<^verbatim>\<open>wtp\<close> is the address \<^verbatim>\<open>malloc\<close> returned.\<close>

definition add_worker :: "wstore \<Rightarrow> nat \<Rightarrow> nat \<Rightarrow> int \<Rightarrow> wstore res" where
  "add_worker s wtp tid sockfd =
     (let s1 = s\<lparr>walive := (walive s)(wtp := True), wtid := (wtid s)(wtp := tid), wsock := (wsock s)(wtp := sockfd),
                wprev := (wprev s)(wtp := 0), wnext := (wnext s)(wtp := workers s)\<rparr>
      in if workers s1 = 0 then Inr (s1\<lparr>workers := wtp\<rparr>)
         else bnd (deref s1 (workers s1)) (\<lambda>_. Inr (s1\<lparr>wprev := (wprev s1)(workers s1 := wtp)\<rparr>)))"

text \<open>The threads that are cancelled, in order. The fuel bounds the length of the list.\<close>

fun kill_loop :: "nat \<Rightarrow> wstore \<Rightarrow> nat \<Rightarrow> nat list res" where
  "kill_loop n s wtp =
     (if wtp = 0 then Inr []
      else bnd (deref s wtp) (\<lambda>_.
           case n of 0 \<Rightarrow> Inl Diverges
           | Suc n' \<Rightarrow> bnd (kill_loop n' s (wnext s wtp)) (\<lambda>ts. Inr (wtid s wtp # ts))))"

declare kill_loop.simps [simp del]

definition kill_workers :: "nat \<Rightarrow> wstore \<Rightarrow> nat list res" where
  "kill_workers n s = kill_loop n s (workers s)"

fun cleanup_find :: "nat \<Rightarrow> wstore \<Rightarrow> nat \<Rightarrow> nat \<Rightarrow> nat res" where
  "cleanup_find n s tid wtp =
     (if wtp = 0 then Inr 0
      else bnd (deref s wtp) (\<lambda>_.
           if wtid s wtp = tid then Inr wtp
           else case n of 0 \<Rightarrow> Inl Diverges | Suc n' \<Rightarrow> cleanup_find n' s tid (wnext s wtp)))"

declare cleanup_find.simps [simp del]

definition cleanup_unlink :: "wstore \<Rightarrow> nat \<Rightarrow> wstore res" where
  "cleanup_unlink s wtp =
     bnd (if wnext s wtp \<noteq> 0
          then bnd (deref s (wnext s wtp)) (\<lambda>_. Inr (s\<lparr>wprev := (wprev s)(wnext s wtp := wprev s wtp)\<rparr>))
          else Inr s) (\<lambda>s1.
     if wprev s1 wtp \<noteq> 0
     then bnd (deref s1 (wprev s1 wtp)) (\<lambda>_. Inr (s1\<lparr>wnext := (wnext s1)(wprev s1 wtp := wnext s1 wtp)\<rparr>))
     else Inr (s1\<lparr>workers := wnext s1 wtp\<rparr>))"

definition client_cleanup :: "nat \<Rightarrow> wstore \<Rightarrow> nat \<Rightarrow> wstore res" where
  "client_cleanup n s tid =
     bnd (cleanup_find n s tid (workers s)) (\<lambda>wtp.
     if wtp = 0 then Inr s
     else bnd (cleanup_unlink s wtp) (\<lambda>s1.
          Inr (s1\<lparr>wclosed := wsock s1 wtp # wclosed s1, walive := (walive s1)(wtp := False)\<rparr>)))"

text \<open>
  \<^verbatim>\<open>signal_thread\<close>: what \<^verbatim>\<open>sigwait\<close> returns, one after the other. The thread ends only by ending
  the process, after it has cancelled the workers; \<^verbatim>\<open>reread\<close> asks for the configuration to
  be read again.
\<close>

datatype signal = SIGHUP | SIGTERM | SIGUNEXP nat | Sigwait_error errno

datatype sig_end = Waiting bool | Exit0 "nat list" | Quit "nat list" string

fun signal_thread :: "nat \<Rightarrow> wstore \<Rightarrow> bool \<Rightarrow> signal list \<Rightarrow> sig_end res" where
  "signal_thread n s reread [] = Inr (Waiting reread)"
| "signal_thread n s reread (SIGHUP # sg) = signal_thread n s True sg"
| "signal_thread n s reread (SIGTERM # sg) = bnd (kill_workers n s) (\<lambda>ts. Inr (Exit0 ts))"
| "signal_thread n s reread (SIGUNEXP k # sg) = bnd (kill_workers n s) (\<lambda>ts. Inr (Quit ts ''unexpected signal''))"
| "signal_thread n s reread (Sigwait_error e # sg) = Inr (Quit [] ''sigwait failed'')"

section \<open>Lists of workers\<close>

definition wlist :: "wstore \<Rightarrow> nat list \<Rightarrow> bool" where
  "wlist s xs \<longleftrightarrow> distinct xs \<and> 0 \<notin> set xs \<and> (\<forall>x \<in> set xs. walive s x) \<and> workers s = hd (xs @ [0]) \<and>
     dseg (wnext s) (wprev s) 0 xs 0"

lemma kill_loop_seg:
  "dseg (wnext s) pr p xs 0 \<Longrightarrow> 0 \<notin> set xs \<Longrightarrow> \<forall>x \<in> set xs. walive s x \<Longrightarrow> length xs \<le> n \<Longrightarrow>
   kill_loop n s (hd (xs @ [0])) = Inr (map (wtid s) xs)"
proof (induction xs arbitrary: p n)
  case Nil
  then show ?case by (simp add: kill_loop.simps)
next
  case (Cons x xs)
  then show ?case by (cases n) (auto simp: kill_loop.simps [of "Suc m" for m] deref_def)
qed

lemma cleanup_find_seg:
  "dseg (wnext s) pr p xs 0 \<Longrightarrow> 0 \<notin> set xs \<Longrightarrow> \<forall>x \<in> set xs. walive s x \<Longrightarrow> length xs \<le> n \<Longrightarrow>
   cleanup_find n s tid (hd (xs @ [0])) = Inr (case List.find (\<lambda>x. wtid s x = tid) xs of None \<Rightarrow> 0 | Some x \<Rightarrow> x)"
proof (induction xs arbitrary: p n)
  case Nil
  then show ?case by (simp add: cleanup_find.simps)
next
  case (Cons x xs)
  then show ?case by (cases n) (auto simp: cleanup_find.simps [of "Suc m" for m] deref_def)
qed

lemma kill_workers_wlist: "wlist s xs \<Longrightarrow> length xs \<le> n \<Longrightarrow> kill_workers n s = Inr (map (wtid s) xs)"
  unfolding kill_workers_def wlist_def using kill_loop_seg [of s "wprev s" 0 xs n] by simp

lemma cleanup_find_wlist:
  "wlist s xs \<Longrightarrow> length xs \<le> n \<Longrightarrow>
   cleanup_find n s tid (workers s) = Inr (case List.find (\<lambda>x. wtid s x = tid) xs of None \<Rightarrow> 0 | Some x \<Rightarrow> x)"
  unfolding wlist_def using cleanup_find_seg [of s "wprev s" 0 xs n] by simp

lemma cleanup_unlink_wlist:
  assumes "wlist s xs" "x \<in> set xs"
  shows "\<exists>s'. cleanup_unlink s x = Inr s' \<and> wlist s' (remove1 x xs) \<and> wsock s' = wsock s \<and> walive s' = walive s \<and>
    wtid s' = wtid s \<and> wclosed s' = wclosed s"
proof -
  obtain as bs where xs: "xs = as @ x # bs" "x \<notin> set as" using assms(2) by (metis split_list_first)
  then have r: "remove1 x xs = as @ bs" by (simp add: remove1_append)
  show ?thesis unfolding r
  proof (cases as rule: rev_cases)
    case Nil
    then show "\<exists>s'. cleanup_unlink s x = Inr s' \<and> wlist s' (as @ bs) \<and> wsock s' = wsock s \<and> walive s' = walive s \<and>
        wtid s' = wtid s \<and> wclosed s' = wclosed s"
      using assms(1) xs by (cases bs) (auto simp: cleanup_unlink_def wlist_def deref_def)
  next
    case (snoc cs c)
    then show "\<exists>s'. cleanup_unlink s x = Inr s' \<and> wlist s' (as @ bs) \<and> wsock s' = wsock s \<and> walive s' = walive s \<and>
        wtid s' = wtid s \<and> wclosed s' = wclosed s"
      using assms(1) xs by (cases bs) (auto simp: cleanup_unlink_def wlist_def deref_def dseg_append hd_append)
  qed
qed

lemma find_map_tid:
  assumes "distinct (map f xs)" "x \<in> set xs"
  shows "List.find (\<lambda>y. f y = f x) xs = Some x"
  using assms by (induction xs) auto

lemma wlist_free: "wlist s xs \<Longrightarrow> a \<notin> set xs \<Longrightarrow> wlist (s\<lparr>wclosed := c, walive := (walive s)(a := False)\<rparr>) xs"
  by (auto simp: wlist_def)

section \<open>Properties\<close>

text \<open>
  On a well-formed list of workers with different thread ids, \<^verbatim>\<open>kill_workers\<close> (and with
  it SIGTERM) cancels exactly the listed threads in order, and the cleanup handler of a listed thread
  unlinks its structure, closes its socket and frees it, leaving a well-formed list of the
  others; the handler of a thread that is not listed changes nothing. The first worker of
  an empty list makes a well-formed list.
\<close>

theorem workers_well_formed:
  assumes "wlist s xs" "distinct (map (wtid s) xs)" "length xs \<le> n"
  shows "kill_workers n s = Inr (map (wtid s) xs) \<and> signal_thread n s r [SIGHUP, SIGTERM] = Inr (Exit0 (map (wtid s) xs))
    \<and> (\<forall>x \<in> set xs. \<exists>s'. client_cleanup n s (wtid s x) = Inr s' \<and> wlist s' (remove1 x xs) \<and>
          wclosed s' = wsock s x # wclosed s \<and> walive s' = (walive s)(x := False))
    \<and> (\<forall>tid. tid \<notin> set (map (wtid s) xs) \<longrightarrow> client_cleanup n s tid = Inr s)
    \<and> (xs = [] \<longrightarrow> (\<forall>w tid fd. w \<noteq> 0 \<longrightarrow> (\<exists>s'. add_worker s w tid fd = Inr s' \<and> wlist s' [w] \<and> wtid s' w = tid \<and> wsock s' w = fd)))"
proof (intro conjI ballI allI impI)
  show k: "kill_workers n s = Inr (map (wtid s) xs)" using kill_workers_wlist [OF assms(1,3)] .
  then show "signal_thread n s r [SIGHUP, SIGTERM] = Inr (Exit0 (map (wtid s) xs))" by simp
  show "client_cleanup n s tid = Inr s" if "tid \<notin> set (map (wtid s) xs)" for tid
  proof -
    have "List.find (\<lambda>x. wtid s x = tid) xs = None" using that by (auto simp: find_None_iff)
    then show ?thesis using cleanup_find_wlist [OF assms(1,3), of tid] by (simp add: client_cleanup_def)
  qed
next
  fix x assume x: "x \<in> set xs"
  have nz: "x \<noteq> 0" "distinct xs" using x assms(1) unfolding wlist_def by metis+
  obtain s1 where s1: "cleanup_unlink s x = Inr s1" "wlist s1 (remove1 x xs)" "wsock s1 = wsock s" "walive s1 = walive s" "wclosed s1 = wclosed s"
    using cleanup_unlink_wlist [OF assms(1) x] by blast
  have "cleanup_find n s (wtid s x) (workers s) = Inr x"
    using cleanup_find_wlist [OF assms(1,3)] find_map_tid [OF assms(2) x] by simp
  then have "client_cleanup n s (wtid s x) = Inr (s1\<lparr>wclosed := wsock s1 x # wclosed s1, walive := (walive s1)(x := False)\<rparr>)"
    using s1(1) nz(1) by (simp add: client_cleanup_def)
  then show "\<exists>s'. client_cleanup n s (wtid s x) = Inr s' \<and> wlist s' (remove1 x xs) \<and>
      wclosed s' = wsock s x # wclosed s \<and> walive s' = (walive s)(x := False)"
    using wlist_free [OF s1(2), of x "wsock s1 x # wclosed s1"] nz(2) s1 by simp
next
  fix w tid fd assume "xs = []" "w \<noteq> (0 :: nat)"
  then show "\<exists>s'. add_worker s w tid fd = Inr s' \<and> wlist s' [w] \<and> wtid s' w = tid \<and> wsock s' w = fd"
    using assms(1) by (simp add: add_worker_def wlist_def)
qed

theorem workers_well_formed_witness:
  "(let s = \<lparr>wnext = (\<lambda>_. 0)(1 := 2), wprev = (\<lambda>_. 0)(2 := 1), wtid = (\<lambda>a. 100 + a), wsock = (\<lambda>a. 10 + int a), walive = (\<lambda>a. a \<in> {1, 2}), workers = 1, wclosed = []\<rparr>
    in kill_workers 2 s = Inr [101, 102] \<and> (\<exists>s'. client_cleanup 2 s 102 = Inr s' \<and> wlist s' [1] \<and> wclosed s' = [12]))"
proof -
  let ?s = "\<lparr>wnext = (\<lambda>_. 0)(1 := 2), wprev = (\<lambda>_. 0)(2 := 1), wtid = (\<lambda>a. 100 + a), wsock = (\<lambda>a. 10 + int a), walive = (\<lambda>a. a \<in> {1, 2}), workers = 1, wclosed = []\<rparr>"
  have w: "wlist ?s [1, 2]" by (simp add: wlist_def)
  note p = workers_well_formed [OF w, of 2 True]
  have "kill_workers 2 ?s = Inr [101, 102]" using p by simp
  moreover obtain s' where "client_cleanup 2 ?s (wtid ?s 2) = Inr s'" "wlist s' (remove1 2 [1, 2])" "wclosed s' = wsock ?s 2 # wclosed ?s"
    using p by auto
  ultimately show ?thesis by (simp add: Let_def)
qed

text \<open>
  Two clients at a time. When a worker is listed and another one arrives, \<^verbatim>\<open>add_worker\<close>
  leaves \<^verbatim>\<open>workers\<close> pointing at the first: the second is never cancelled, its own cleanup
  handler neither closes its socket nor frees its structure, and once the first has ended,
  \<^verbatim>\<open>workers\<close> points at freed memory, so that both \<^verbatim>\<open>kill_workers\<close> and the next \<^verbatim>\<open>add_worker\<close> follow
  a dangling pointer.
\<close>

theorem workers_overlap_lost:
  assumes "wlist s [a]" "b \<noteq> 0" "b \<noteq> a" "tb \<noteq> wtid s a" "0 < n" "c \<noteq> 0" "c \<noteq> a"
  shows "\<exists>s1 s2. add_worker s b tb fb = Inr s1
    \<and> kill_workers n s1 = Inr [wtid s a]
    \<and> client_cleanup n s1 tb = Inr s1 \<and> walive s1 b \<and> wclosed s1 = wclosed s
    \<and> client_cleanup n s1 (wtid s a) = Inr s2 \<and> workers s2 = a \<and> \<not> walive s2 a
    \<and> kill_workers n s2 = Inl (Undefined ''dangling pointer'')
    \<and> add_worker s2 c tc fc = Inl (Undefined ''dangling pointer'')"
proof -
  have a: "a \<noteq> 0" "walive s a" "workers s = a" "wnext s a = 0" "wprev s a = 0" using assms(1) by (simp_all add: wlist_def)
  obtain m where n: "n = Suc m" using assms(5) by (cases n) auto
  define s1 where "s1 = s\<lparr>walive := (walive s)(b := True), wtid := (wtid s)(b := tb), wsock := (wsock s)(b := fb),
    wprev := (wprev s)(b := 0, a := b), wnext := (wnext s)(b := a)\<rparr>"
  define s2 where "s2 = s1\<lparr>wnext := (wnext s1)(b := 0), wclosed := wsock s a # wclosed s, walive := (walive s1)(a := False)\<rparr>"
  have e: "add_worker s b tb fb = Inr s1"
    using a assms(2,3) by (simp add: add_worker_def deref_def s1_def Let_def)
  have k: "kill_workers n s1 = Inr [wtid s a]"
    using a assms(3) by (simp add: kill_workers_def kill_loop.simps n deref_def s1_def)
  have c: "client_cleanup n s1 tb = Inr s1"
    using a assms(3,4) by (simp add: client_cleanup_def cleanup_find.simps n deref_def s1_def)
  have c2: "client_cleanup n s1 (wtid s a) = Inr s2"
    using a assms(2,3) by (simp add: client_cleanup_def cleanup_find.simps [of "Suc m"] n deref_def s1_def s2_def cleanup_unlink_def)
  have k2: "kill_workers n s2 = Inl (Undefined ''dangling pointer'')"
    using a by (simp add: kill_workers_def kill_loop.simps [of n] deref_def s1_def s2_def)
  have d: "add_worker s2 c tc fc = Inl (Undefined ''dangling pointer'')"
    using a assms(7) by (simp add: add_worker_def deref_def s1_def s2_def Let_def)
  show ?thesis using e k c c2 k2 d a by (intro exI [of _ s1] exI [of _ s2]) (simp add: s1_def s2_def)
qed

theorem workers_overlap_lost_witness:
  "\<exists>s1 s2. add_worker \<lparr>wnext = (\<lambda>_. 0), wprev = (\<lambda>_. 0), wtid = (\<lambda>_. 7), wsock = (\<lambda>_. 4), walive = (\<lambda>x. x = 1), workers = 1, wclosed = []\<rparr> 2 8 5 = Inr s1
    \<and> kill_workers 3 s1 = Inr [7] \<and> client_cleanup 3 s1 8 = Inr s1 \<and> client_cleanup 3 s1 7 = Inr s2
    \<and> add_worker s2 3 9 6 = Inl (Undefined ''dangling pointer'')"
proof -
  let ?s = "\<lparr>wnext = (\<lambda>_. 0), wprev = (\<lambda>_. 0), wtid = (\<lambda>_. 7), wsock = (\<lambda>_. 4), walive = (\<lambda>x. x = 1), workers = 1, wclosed = []\<rparr>"
  have w: "wlist ?s [1]" by (simp add: wlist_def)
  show ?thesis using workers_overlap_lost [OF w, of 2 8 3 3 5 9 6] by auto
qed

end
