(* ===== verification/Print_Status.thy ===== *)
theory Print_Status
  imports Print_Wire
begin

text \<open>
  The answer of the printer: \<^verbatim>\<open>readmore\<close> and \<^verbatim>\<open>printer_status\<close> of \<^verbatim>\<open>printer/printd.c\<close>. The buffer is a
  list of bytes that still holds what earlier reads left there; looking past its end has
  no defined result. The search loops take fuel: running out of it is a loop that never
  ends when it happens for every amount.
\<close>

section \<open>Looking into the buffer\<close>

definition oob :: "'a res" where "oob = Inl (Undefined ''out of bounds'')"

definition rd :: "string \<Rightarrow> nat \<Rightarrow> char res" where
  "rd b i = (if i < length b then Inr (b ! i) else oob)"

definition wr :: "string \<Rightarrow> nat \<Rightarrow> char \<Rightarrow> string res" where
  "wr b i c = (if i < length b then Inr (b[i := c]) else oob)"

text \<open>\<^verbatim>\<open>while (P(*cp)) cp++;\<close>\<close>

definition scan :: "(char \<Rightarrow> bool) \<Rightarrow> string \<Rightarrow> nat \<Rightarrow> nat res" where
  "scan P b i = (let j = i + length (takeWhile P (drop i b)) in if j < length b then Inr j else oob)"

definition tolower :: "char \<Rightarrow> char" where
  "tolower c = (if 65 \<le> (of_char c :: nat) \<and> (of_char c :: nat) \<le> 90 then char_of (of_char c + 32 :: nat) else c)"

text \<open>\<^verbatim>\<open>strncasecmp\<close> with a constant: it stops at the first difference.\<close>

fun ci_match :: "string \<Rightarrow> string \<Rightarrow> bool res" where
  "ci_match [] s = Inr True"
| "ci_match (p # ps) [] = oob"
| "ci_match (p # ps) (c # cs) = (if tolower p = tolower c then ci_match ps cs else Inr False)"

section \<open>readmore\<close>

text \<open>
  The new buffer, the result (\<^verbatim>\<open>-1\<close> is \<open>None\<close>) and the rest of the input; \<open>g\<close> is what the memory
  that \<^verbatim>\<open>realloc\<close> adds holds.
\<close>

definition readmore :: "string \<Rightarrow> string \<Rightarrow> nat \<Rightarrow> rdev list \<Rightarrow> (string \<times> nat option \<times> rdev list) res" where
  "readmore g bp off inp =
     (let b = (if off \<ge> length bp then bp @ take IOBUFSZ (g @ replicate IOBUFSZ NUL) else bp)
      in if off > length b then oob
         else case tread (length b - off) inp of
                (None, inp') \<Rightarrow> Inr (b, None, inp')
              | (Some d, inp') \<Rightarrow>
                  if d = [] then Inr (b, None, inp')
                  else Inr (take off b @ d @ drop (off + length d) b, Some (off + length d), inp'))"

text \<open>\<^verbatim>\<open>if (i >= datsz) { readmore ... datsz += nr }\<close>; no buffer means \<^verbatim>\<open>goto out\<close>.\<close>

definition need_more :: "bool \<Rightarrow> string \<Rightarrow> string \<Rightarrow> nat \<Rightarrow> nat \<Rightarrow> rdev list \<Rightarrow> (string \<times> nat \<times> rdev list) option res" where
  "need_more c g bp i datsz inp =
     (if c then bnd (readmore g bp i inp) (\<lambda>(b, nr, inp').
                case nr of None \<Rightarrow> Inr None | Some k \<Rightarrow> Inr (Some (b, datsz + k, inp')))
      else Inr (Some (bp, datsz, inp)))"

section \<open>printer\_status\<close>

definition CLEN :: string where "CLEN = ''Content-Length:''"

text \<open>Lines 929 to 932: the next \<^verbatim>\<open>C\<close> or \<^verbatim>\<open>c\<close>; the byte is looked at before the bound is.\<close>

definition find_c :: "string \<Rightarrow> nat \<Rightarrow> nat \<Rightarrow> nat res" where
  "find_c bp datsz i =
     (let j = i + length (takeWhile (\<lambda>c. c \<noteq> CHR ''C'' \<and> c \<noteq> CHR ''c'') (take (datsz - i) (drop i bp)))
      in if j < length bp then Inr j else oob)"

text \<open>Lines 928 to 957: the value of Content-Length and where its line goes on.\<close>

fun clen_loop :: "nat \<Rightarrow> string \<Rightarrow> string \<Rightarrow> nat \<Rightarrow> nat \<Rightarrow> rdev list \<Rightarrow> (string \<times> nat \<times> nat \<times> int \<times> rdev list) option res" where
  "clen_loop n g bp datsz i0 inp =
     bnd (find_c bp datsz i0) (\<lambda>i.
     bnd (need_more (i \<ge> datsz) g bp i datsz inp) (\<lambda>r.
     case r of None \<Rightarrow> Inr None
     | Some (bp, datsz, inp) \<Rightarrow>
         bnd (ci_match CLEN (drop i bp)) (\<lambda>eq.
         if eq then
           bnd (scan isspace bp (i + 15)) (\<lambda>v.
           bnd (scan isdigit bp v) (\<lambda>e.
           bnd (wr bp e NUL) (\<lambda>bp'.
           Inr (Some (bp', datsz, e + 1, atol (cstr (drop v bp')), inp)))))
         else case n of 0 \<Rightarrow> Inl Diverges | Suc n' \<Rightarrow> clen_loop n' g bp datsz (i + 1) inp)))"

declare clen_loop.simps [simp del]

text \<open>Lines 969 to 979: where the end of the header was found, or where the search stopped.\<close>

function eoh_scan :: "string \<Rightarrow> nat \<Rightarrow> nat \<Rightarrow> (bool \<times> nat) res" where
  "eoh_scan bp datsz i =
     (if i + 2 < datsz then
        bnd (rd bp i) (\<lambda>c0.
        bnd (if c0 = NL then bnd (rd bp (i + 1)) (\<lambda>c1. if c1 = CHR 0x0D then bnd (rd bp (i + 2)) (\<lambda>c2. Inr (c2 = NL)) else Inr False)
             else Inr False) (\<lambda>found.
        if found then Inr (True, i + 3) else eoh_scan bp datsz (i + 1)))
      else Inr (False, i))"
  by pat_completeness auto
termination by (relation "measure (\<lambda>(bp, datsz, i). datsz - i)") auto

declare eoh_scan.simps [simp del]

text \<open>Lines 968 to 988.\<close>

fun eoh_loop :: "nat \<Rightarrow> string \<Rightarrow> string \<Rightarrow> nat \<Rightarrow> nat \<Rightarrow> rdev list \<Rightarrow> (string \<times> nat \<times> nat \<times> rdev list) option res" where
  "eoh_loop n g bp datsz i0 inp =
     bnd (eoh_scan bp datsz i0) (\<lambda>(found, i).
     bnd (need_more (i \<ge> datsz) g bp i datsz inp) (\<lambda>r.
     case r of None \<Rightarrow> Inr None
     | Some (bp, datsz, inp) \<Rightarrow>
         if found then Inr (Some (bp, datsz, i, inp))
         else case n of 0 \<Rightarrow> Inl Diverges | Suc n' \<Rightarrow> eoh_loop n' g bp datsz i inp))"

declare eoh_loop.simps [simp del]

text \<open>Lines 999 to 1012: the IPP status and the number of the job it is about.\<close>

definition ipp_status :: "string \<Rightarrow> nat \<Rightarrow> 32 word \<Rightarrow> bool res" where
  "ipp_status bp i jobid =
     (if i + 8 \<le> length bp
      then Inr (get32 (rev (take 4 (drop (i + 4) bp))) = jobid \<and> 256 * (of_char (bp ! (i + 2)) :: nat) + of_char (bp ! (i + 3)) \<le> 0xFF)
      else oob)"

text \<open>Lines 927 to 1013: a successful HTTP status.\<close>

definition ipp_answer :: "nat \<Rightarrow> string \<Rightarrow> string \<Rightarrow> nat \<Rightarrow> nat \<Rightarrow> rdev list \<Rightarrow> 32 word \<Rightarrow> bool res" where
  "ipp_answer n g bp datsz i inp jobid =
     bnd (clen_loop n g bp datsz i inp) (\<lambda>r.
     case r of None \<Rightarrow> Inr False
     | Some (bp, datsz, i, len, inp) \<Rightarrow>
         bnd (need_more (i \<ge> datsz) g bp i datsz inp) (\<lambda>r.
         case r of None \<Rightarrow> Inr False
         | Some (bp, datsz, inp) \<Rightarrow>
             bnd (eoh_loop n g bp datsz i inp) (\<lambda>r.
             case r of None \<Rightarrow> Inr False
             | Some (bp, datsz, i, inp) \<Rightarrow>
                 bnd (need_more (int datsz - int i < len) g bp i datsz inp) (\<lambda>r.
                 case r of None \<Rightarrow> Inr False
                 | Some (bp, datsz, inp) \<Rightarrow> ipp_status bp i jobid))))"

text \<open>
  The status line at the start of what was read: nothing when it is malformed, else the
  buffer with the line cut up, the code and where the line ends.
\<close>

definition status_line :: "string \<Rightarrow> (string \<times> int \<times> nat) option res" where
  "status_line bp =
     bnd (scan isspace bp 8) (\<lambda>s.
     bnd (scan isdigit bp s) (\<lambda>e.
     if e = s then Inr None
     else bnd (wr bp e NUL) (\<lambda>bp.
          bnd (scan (\<lambda>c. c \<noteq> CHR 0x0D \<and> c \<noteq> NL) bp (e + 1)) (\<lambda>i.
          bnd (wr bp i NUL) (\<lambda>bp. Inr (Some (bp, atol (cstr (drop s bp)), i)))))))"

definition HTTP_INFO :: "int \<Rightarrow> bool" where "HTTP_INFO x \<longleftrightarrow> 100 \<le> x \<and> x \<le> 199"
definition HTTP_SUCCESS :: "int \<Rightarrow> bool" where "HTTP_SUCCESS x \<longleftrightarrow> 200 \<le> x \<and> x \<le> 299"

function printer_status :: "nat \<Rightarrow> string \<Rightarrow> string \<Rightarrow> rdev list \<Rightarrow> 32 word \<Rightarrow> bool res" where
  "printer_status n g bp inp jobid =
     (case tread (length bp) inp of
        (None, _) \<Rightarrow> Inr False
      | (Some b, inp') \<Rightarrow>
          if b = [] then Inr False
          else bnd (status_line (b @ drop (length b) bp)) (\<lambda>r.
               case r of None \<Rightarrow> printer_status n g (b @ drop (length b) bp) inp' jobid
               | Some (bp', code, i) \<Rightarrow>
                   if HTTP_INFO code then printer_status n g bp' inp' jobid
                   else if \<not> HTTP_SUCCESS code then bnd (wr bp' (length b) NUL) (\<lambda>_. Inr False)
                   else ipp_answer n g bp' (length b) i inp' jobid))"
  by pat_completeness auto
termination
  by (relation "measure (\<lambda>(n, g, bp, inp, jobid). rdev_size inp)") (auto dest: tread_less [OF sym])

declare printer_status.simps [simp del]

section \<open>Searching a buffer that is known\<close>

lemma scan_at:
  assumes "\<forall>x \<in> set w. P x" "\<not> P c" "i = length A"
  shows "scan P (A @ w @ c # Z) i = Inr (i + length w)"
  using assms by (simp add: scan_def takeWhile_append)

lemma wr_at: "i = length A \<Longrightarrow> wr (A @ c # Z) i d = Inr (A @ d # Z)"
  by (simp add: wr_def)

lemma rd_at: "rd (A @ c # Z) (length A) = Inr c"
  by (simp add: rd_def)

text \<open>No earlier place matches the name of the header line, or ends the header.\<close>

definition no_clen :: "string \<Rightarrow> string \<Rightarrow> bool" where
  "no_clen pre ts \<longleftrightarrow> (\<forall>k < length pre. ci_match CLEN (drop k pre @ ts) = Inr False)"

definition no_eoh :: "string \<Rightarrow> string \<Rightarrow> bool" where
  "no_eoh hdrs ts \<longleftrightarrow> (\<forall>k < length hdrs. take 3 (drop k hdrs @ ts) \<noteq> [NL, CHR 0x0D, NL])"

lemma no_clen_Cons: "no_clen (c # pre) ts \<longleftrightarrow> ci_match CLEN (c # pre @ ts) = Inr False \<and> no_clen pre ts"
  by (auto simp: no_clen_def less_Suc_eq_0_disj)

lemma no_eoh_Cons: "no_eoh (c # hdrs) ts \<longleftrightarrow> take 3 (c # hdrs @ ts) \<noteq> [NL, CHR 0x0D, NL] \<and> no_eoh hdrs ts"
  by (auto simp: no_eoh_def less_Suc_eq_0_disj)

lemma no_clen_drop: "no_clen (p1 @ p2) ts \<Longrightarrow> no_clen p2 ts"
  by (induction p1) (auto simp: no_clen_Cons)

lemma ci_match_self: "ci_match p (p @ s) = Inr True"
  by (induction p) auto

lemma eoh_scan_at:
  assumes "no_eoh hdrs ([NL, CHR 0x0D, NL] @ ts)" "length A + length hdrs + 2 < datsz"
  shows "eoh_scan (A @ hdrs @ [NL, CHR 0x0D, NL] @ ts) datsz (length A) = Inr (True, length A + length hdrs + 3)"
  using assms
proof (induction hdrs arbitrary: A)
  case Nil
  then show ?case by (subst eoh_scan.simps) (simp add: rd_def nth_append)
next
  case (Cons c hdrs)
  let ?r = "hdrs @ [NL, CHR 0x0D, NL] @ ts"
  obtain c1 c2 r where r: "?r = c1 # c2 # r" by (cases hdrs; cases "List.tl hdrs"; auto)
  have "take 3 (c # ?r) \<noteq> [NL, CHR 0x0D, NL]" using Cons.prems(1) unfolding no_eoh_Cons by blast
  then have n: "\<not> (c = NL \<and> c1 = CHR 0x0D \<and> c2 = NL)" unfolding r by (auto simp: numeral_eq_Suc)
  have b: "A @ (c # hdrs) @ [NL, CHR 0x0D, NL] @ ts = A @ c # c1 # c2 # r" using r by simp
  have "eoh_scan (A @ c # c1 # c2 # r) datsz (length A) = eoh_scan (A @ c # c1 # c2 # r) datsz (length A + 1)"
    using Cons.prems(2) n by (subst eoh_scan.simps) (auto simp: rd_def nth_append)
  also have "\<dots> = eoh_scan ((A @ [c]) @ hdrs @ [NL, CHR 0x0D, NL] @ ts) datsz (length (A @ [c]))" using r by simp
  also have "\<dots> = Inr (True, length (A @ [c]) + length hdrs + 3)"
    by (rule Cons.IH) (use Cons.prems in \<open>simp_all add: no_eoh_Cons\<close>)
  finally show ?case using b by simp
qed

lemma find_c_at:
  assumes "\<forall>x \<in> set p. x \<noteq> CHR ''C'' \<and> x \<noteq> CHR ''c''" "c = CHR ''C'' \<or> c = CHR ''c''" "length A + length p < datsz"
  shows "find_c (A @ p @ c # Z) datsz (length A) = Inr (length A + length p)"
proof -
  obtain k where "datsz - length A = length p + Suc k" using assms(3) by (metis add_Suc_right less_imp_Suc_add add_diff_cancel_left' add.assoc)
  then have "take (datsz - length A) (p @ c # Z) = p @ c # take k Z" by simp
  then show ?thesis using assms by (auto simp: find_c_def takeWhile_append)
qed

lemma clen_loop_at:
  assumes "no_clen pre (CLEN @ SPACE # dec len @ c # Z)" "\<not> isdigit c"
    and "length A + length pre + 15 < datsz" "length (filter (\<lambda>x. x = CHR ''C'' \<or> x = CHR ''c'') pre) \<le> n"
  shows "clen_loop n g (A @ pre @ CLEN @ SPACE # dec len @ c # Z) datsz (length A) inp =
    Inr (Some (A @ pre @ CLEN @ SPACE # dec len @ NUL # Z, datsz, length A + length pre + 17 + length (dec len), int len, inp))"
  using assms(1,3,4)
proof (induction "length pre" arbitrary: pre A n rule: less_induct)
  case less
  let ?t = "CLEN @ SPACE # dec len @ c # Z"
  obtain ts where C: "CLEN = CHR ''C'' # ts" "length CLEN = 15" by (simp add: CLEN_def)
  let ?P = "\<lambda>x. x \<noteq> CHR ''C'' \<and> x \<noteq> CHR ''c''"
  define p1 where "p1 = takeWhile ?P pre"
  define p2 where "p2 = dropWhile ?P pre"
  have p: "pre = p1 @ p2" "\<forall>x \<in> set p1. ?P x" by (auto simp: p1_def p2_def dest: set_takeWhileD)
  show ?case
  proof (cases p2)
    case Nil
    have f: "find_c (A @ pre @ ?t) datsz (length A) = Inr (length A + length pre)"
      using find_c_at [of pre "CHR ''C''" A datsz "ts @ SPACE # dec len @ c # Z"] p Nil less.prems(2) unfolding C(1) by simp
    have sp: "scan isspace (A @ pre @ ?t) (length A + length pre + 15) = Inr (length A + length pre + 16)"
    proof -
      obtain d ds where d: "dec len = d # ds" by (cases "dec len") auto
      then have "\<not> isspace d" using dec_isdigit [of d len] isdigit_not_isspace by simp
      then show ?thesis using scan_at [of "[SPACE]" isspace d "length A + length pre + 15" "A @ pre @ CLEN" "ds @ c # Z"] C(2) d by simp
    qed
    have dg: "scan isdigit (A @ pre @ ?t) (length A + length pre + 16) = Inr (length A + length pre + 16 + length (dec len))"
      using scan_at [of "dec len" isdigit c "length A + length pre + 16" "A @ pre @ CLEN @ [SPACE]" Z] assms(2) C(2) dec_isdigit by simp
    have w: "wr (A @ pre @ ?t) (length A + length pre + 16 + length (dec len)) NUL = Inr (A @ pre @ CLEN @ SPACE # dec len @ NUL # Z)"
      using wr_at [of "length A + length pre + 16 + length (dec len)" "A @ pre @ CLEN @ SPACE # dec len" c Z NUL] C(2) by simp
    have v: "atol (cstr (drop (length A + length pre + 16) (A @ pre @ CLEN @ SPACE # dec len @ NUL # Z))) = int len"
      using C(2) by simp
    show ?thesis using f sp dg w v less.prems(2)
      by (simp add: clen_loop.simps [of n] need_more_def ci_match_self)
  next
    case (Cons d p3)
    have d: "d = CHR ''C'' \<or> d = CHR ''c''" using Cons dropWhile_eq_Cons_conv [of ?P pre] by (auto simp: p2_def)
    obtain m where m: "n = Suc m" "length (filter (\<lambda>x. x = CHR ''C'' \<or> x = CHR ''c'') p3) \<le> m"
      using less.prems(3) p(1) Cons d by (cases n) auto
    let ?A = "A @ p1 @ [d]"
    have f: "find_c (A @ pre @ ?t) datsz (length A) = Inr (length A + length p1)"
      using find_c_at [OF p(2) d, of A datsz "p3 @ ?t"] p(1) Cons less.prems(2) by simp
    have nc: "no_clen (d # p3) ?t" using less.prems(1) no_clen_drop [of p1 "d # p3"] p(1) Cons by simp
    then have "ci_match CLEN (drop (length A + length p1) (A @ pre @ ?t)) = Inr False"
      using p(1) Cons by (simp add: no_clen_Cons)
    then have "clen_loop n g (A @ pre @ ?t) datsz (length A) inp = clen_loop m g (?A @ p3 @ ?t) datsz (length ?A) inp"
      using f m(1) p(1) Cons less.prems(2) by (simp add: clen_loop.simps [of "Suc m"] need_more_def)
    also have "\<dots> = Inr (Some (?A @ p3 @ CLEN @ SPACE # dec len @ NUL # Z, datsz, length ?A + length p3 + 17 + length (dec len), int len, inp))"
      by (rule less.hyps) (use p(1) Cons nc less.prems(2) m(2) in \<open>simp_all add: no_clen_Cons\<close>)
    finally show ?thesis using p(1) Cons by simp
  qed
qed

lemma status_line_at:
  assumes "length ver = 8" "CHR 0x0D \<notin> set reason" "NL \<notin> set reason"
  shows "status_line (ver @ SPACE # dec code @ SPACE # reason @ CHR 0x0D # Z) =
    Inr (Some (ver @ SPACE # dec code @ NUL # reason @ NUL # Z, int code, 10 + length (dec code) + length reason))"
proof -
  let ?b = "ver @ SPACE # dec code @ SPACE # reason @ CHR 0x0D # Z"
  let ?e = "9 + length (dec code)"
  obtain d ds where d: "dec code = d # ds" by (cases "dec code") auto
  then have "\<not> isspace d" using dec_isdigit [of d code] isdigit_not_isspace by simp
  then have s: "scan isspace ?b 8 = Inr 9"
    using scan_at [of "[SPACE]" isspace d 8 ver "ds @ SPACE # reason @ CHR 0x0D # Z"] assms(1) d by simp
  have e: "scan isdigit ?b 9 = Inr ?e"
    using scan_at [of "dec code" isdigit SPACE 9 "ver @ [SPACE]" "reason @ CHR 0x0D # Z"] assms(1) dec_isdigit by simp
  have w: "wr ?b ?e NUL = Inr (ver @ SPACE # dec code @ NUL # reason @ CHR 0x0D # Z)"
    using wr_at [of ?e "ver @ SPACE # dec code" SPACE "reason @ CHR 0x0D # Z" NUL] assms(1) by simp
  have r: "scan (\<lambda>c. c \<noteq> CHR 0x0D \<and> c \<noteq> NL) (ver @ SPACE # dec code @ NUL # reason @ CHR 0x0D # Z) (?e + 1) = Inr (?e + 1 + length reason)"
    using scan_at [of reason "\<lambda>c. c \<noteq> CHR 0x0D \<and> c \<noteq> NL" "CHR 0x0D" "?e + 1" "ver @ SPACE # dec code @ [NUL]" Z] assms by auto
  have w2: "wr (ver @ SPACE # dec code @ NUL # reason @ CHR 0x0D # Z) (?e + 1 + length reason) NUL = Inr (ver @ SPACE # dec code @ NUL # reason @ NUL # Z)"
    using wr_at [of "?e + 1 + length reason" "ver @ SPACE # dec code @ NUL # reason" "CHR 0x0D" Z NUL] assms(1) by simp
  have "drop 9 (ver @ SPACE # dec code @ NUL # reason @ NUL # Z) = dec code @ NUL # reason @ NUL # Z" using assms(1) by simp
  then have a: "atol (cstr (drop 9 (ver @ SPACE # dec code @ NUL # reason @ NUL # Z))) = int code" by simp
  show ?thesis using s e w r w2 a by (simp add: status_line_def)
qed

text \<open>
  An answer of the printer: the status line, header lines before and after the one that
  gives the length of the body, the empty line, the body.
\<close>

definition http_reply :: "string \<Rightarrow> nat \<Rightarrow> string \<Rightarrow> string \<Rightarrow> nat \<Rightarrow> string \<Rightarrow> string \<Rightarrow> string" where
  "http_reply ver code reason pre len hdrs body =
     ver @ SPACE # dec code @ SPACE # reason @ CHR 0x0D # NL # pre @ CLEN @ SPACE # dec len @ CHR 0x0D # hdrs @ [NL, CHR 0x0D, NL] @ body"

definition body_ok :: "string \<Rightarrow> 32 word \<Rightarrow> bool" where
  "body_ok body jobid \<longleftrightarrow> get32 (rev (take 4 (drop 4 body))) = jobid \<and> 256 * (of_char (body ! 2) :: nat) + of_char (body ! 3) \<le> 0xFF"

definition reply_ok :: "string \<Rightarrow> string \<Rightarrow> string \<Rightarrow> nat \<Rightarrow> string \<Rightarrow> string \<Rightarrow> bool" where
  "reply_ok ver reason pre len hdrs body \<longleftrightarrow> length ver = 8 \<and> CHR 0x0D \<notin> set reason \<and> NL \<notin> set reason \<and>
     no_clen (NUL # NL # pre) (CLEN @ SPACE # dec len @ CHR 0x0D # hdrs @ [NL, CHR 0x0D, NL] @ body) \<and>
     no_eoh hdrs ([NL, CHR 0x0D, NL] @ body)"

lemma no_clen_junk: "no_clen pre ts \<Longrightarrow> no_clen pre (ts @ junk)"
proof -
  have "ci_match p s = Inr False \<Longrightarrow> ci_match p (s @ junk) = Inr False" for p s
    by (induction p s rule: ci_match.induct) (auto simp: oob_def split: if_splits)
  then show "no_clen pre ts \<Longrightarrow> no_clen pre (ts @ junk)" unfolding no_clen_def append.assoc [symmetric] by blast
qed

lemma no_eoh_junk: "no_eoh hdrs ([NL, CHR 0x0D, NL] @ body) \<Longrightarrow> no_eoh hdrs ([NL, CHR 0x0D, NL] @ body @ junk)"
proof -
  have "take 3 (s @ [NL, CHR 0x0D, NL] @ body @ junk) = take 3 (s @ [NL, CHR 0x0D, NL] @ body)" for s
    by (cases s; cases "List.tl s"; cases "List.tl (List.tl s)") (auto simp: numeral_eq_Suc)
  then show "no_eoh hdrs ([NL, CHR 0x0D, NL] @ body) \<Longrightarrow> no_eoh hdrs ([NL, CHR 0x0D, NL] @ body @ junk)"
    unfolding no_eoh_def by metis
qed

lemma ipp_answer_at:
  assumes "no_clen pre (CLEN @ SPACE # dec len @ CHR 0x0D # hdrs @ [NL, CHR 0x0D, NL] @ body)"
    and "no_eoh hdrs ([NL, CHR 0x0D, NL] @ body)" "8 \<le> length body" "len \<le> length body" "length pre \<le> n"
    and "datsz = length A + length pre + 20 + length (dec len) + length hdrs + length body"
  shows "ipp_answer n g (A @ pre @ CLEN @ SPACE # dec len @ CHR 0x0D # hdrs @ [NL, CHR 0x0D, NL] @ body @ junk) datsz (length A) inp jobid
    = Inr (body_ok body jobid)"
proof -
  let ?Z = "hdrs @ [NL, CHR 0x0D, NL] @ body @ junk"
  have C: "length CLEN = 15" by (simp add: CLEN_def)
  obtain B where B: "B = A @ pre @ CLEN @ SPACE # dec len @ [NUL]" by simp
  have lA: "length B = length A + length pre + 17 + length (dec len)" using C by (simp add: B)
  have dz: "datsz = length B + length hdrs + 3 + length body" using assms(6) lA by simp
  have ne: "body \<noteq> []" using assms(3) by auto
  let ?b = "B @ ?Z"
  have c: "clen_loop n g (A @ pre @ CLEN @ SPACE # dec len @ CHR 0x0D # ?Z) datsz (length A) inp = Inr (Some (?b, datsz, length B, int len, inp))"
    using clen_loop_at [of pre len "CHR 0x0D" ?Z A datsz n g inp] le_trans [OF length_filter_le assms(5)] no_clen_junk [OF assms(1), of junk] assms(5,6) C lA
    by (simp add: isdigit_def B)
  have e: "eoh_loop n g ?b datsz (length B) inp = Inr (Some (?b, datsz, length B + length hdrs + 3, inp))"
    using eoh_scan_at [OF no_eoh_junk [OF assms(2), of junk], of B datsz] ne assms(3) dz
    by (subst eoh_loop.simps) (simp add: need_more_def)
  let ?i = "length B + length hdrs + 3"
  have n4: "?b ! (?i + k) = body ! k" if "k < 8" for k using that assms(3) by (simp add: nth_append)
  have n23: "?b ! (?i + 2) = body ! 2" "?b ! (?i + 3) = body ! 3" by (rule n4, simp)+
  have d: "drop (?i + 4) ?b = drop 4 body @ junk" using assms(3) by simp
  have i: "?i + 8 \<le> length ?b" using assms(3) by simp
  have "ipp_status ?b ?i jobid = Inr (body_ok body jobid)"
    unfolding ipp_status_def body_ok_def if_P [OF i] n23 d using assms(3) by simp
  then show ?thesis using c e assms(3,4) dz by (simp add: ipp_answer_def need_more_def)
qed

lemma printer_status_read:
  assumes "length ver = 8" "CHR 0x0D \<notin> set reason" "NL \<notin> set reason" "length bp = IOBUFSZ"
    and "R = ver @ SPACE # dec code @ SPACE # reason @ CHR 0x0D # Z" "length R \<le> IOBUFSZ" "\<not> HTTP_INFO (int code)"
  shows "printer_status n g bp (RData R # inp) jobid =
    (if HTTP_SUCCESS (int code)
     then ipp_answer n g (ver @ SPACE # dec code @ NUL # reason @ NUL # Z @ drop (length R) bp) (length R) (10 + length (dec code) + length reason) inp jobid
     else if length R < IOBUFSZ then Inr False else oob)"
proof -
  have "R \<noteq> []" using assms(5) by simp
  moreover have "status_line (R @ drop (length R) bp) = Inr (Some (ver @ SPACE # dec code @ NUL # reason @ NUL # Z @ drop (length R) bp,
      int code, 10 + length (dec code) + length reason))"
    using status_line_at [OF assms(1-3), of code "Z @ drop (length R) bp"] assms(5) by simp
  moreover have "length (ver @ SPACE # dec code @ NUL # reason @ NUL # Z @ drop (length R) bp) = IOBUFSZ"
    using assms(4,5,6) by simp
  ultimately show ?thesis using assms(4,6,7) by (subst printer_status.simps) (simp add: wr_def oob_def)
qed

lemma eoh_loop_diverges: "i < datsz \<Longrightarrow> datsz \<le> i + 2 \<Longrightarrow> eoh_loop m g b datsz i inp = Inl Diverges"
proof (induction m)
  case 0
  then show ?case by (simp add: eoh_loop.simps [of 0] eoh_scan.simps need_more_def)
next
  case (Suc m)
  then show ?case by (simp add: eoh_loop.simps [of "Suc m"] eoh_scan.simps need_more_def)
qed

lemma ipp_answer_cut:
  assumes "no_clen pre (CLEN @ SPACE # dec len @ CHR 0x0D # NL # j)" "datsz = length A + length pre + 18 + length (dec len)"
    and "length (filter (\<lambda>x. x = CHR ''C'' \<or> x = CHR ''c'') pre) \<le> n"
  shows "ipp_answer n g (A @ pre @ CLEN @ SPACE # dec len @ CHR 0x0D # NL # j) datsz (length A) inp jobid = Inl Diverges"
proof -
  define i where "i = length A + length pre + 17 + length (dec len)"
  have i: "i < datsz" "datsz \<le> i + 2" using assms(2) by (simp_all add: i_def)
  obtain b where "clen_loop n g (A @ pre @ CLEN @ SPACE # dec len @ CHR 0x0D # NL # j) datsz (length A) inp = Inr (Some (b, datsz, i, int len, inp))"
    using clen_loop_at [OF assms(1) _ _ assms(3), of A datsz g inp] assms(2) by (simp add: isdigit_def i_def)
  then show ?thesis using i eoh_loop_diverges [OF i] by (simp add: ipp_answer_def need_more_def)
qed

lemma printer_status_answer:
  assumes "reply_ok ver reason pre len hdrs body" "8 \<le> length body" "len \<le> length body" "length pre + 2 \<le> n"
    and "length bp = IOBUFSZ" "length (http_reply ver code reason pre len hdrs body) < IOBUFSZ" "\<not> HTTP_INFO (int code)"
  shows "printer_status n g bp (RData (http_reply ver code reason pre len hdrs body) # inp) jobid =
    Inr (HTTP_SUCCESS (int code) \<and> body_ok body jobid)"
proof -
  let ?R = "http_reply ver code reason pre len hdrs body"
  let ?Z = "NL # pre @ CLEN @ SPACE # dec len @ CHR 0x0D # hdrs @ [NL, CHR 0x0D, NL] @ body"
  let ?A = "ver @ SPACE # dec code @ NUL # reason"
  have ok: "length ver = 8" "CHR 0x0D \<notin> set reason" "NL \<notin> set reason" "no_eoh hdrs ([NL, CHR 0x0D, NL] @ body)"
      "no_clen (NUL # NL # pre) (CLEN @ SPACE # dec len @ CHR 0x0D # hdrs @ [NL, CHR 0x0D, NL] @ body)"
    using assms(1) by (simp_all add: reply_ok_def)
  have R: "?R = ver @ SPACE # dec code @ SPACE # reason @ CHR 0x0D # ?Z" by (simp add: http_reply_def)
  have lA: "length ?A = 10 + length (dec code) + length reason" using ok(1) by simp
  have lR: "length ?R = length ?A + length (NUL # NL # pre) + 20 + length (dec len) + length hdrs + length body"
    unfolding R using lA by (simp add: CLEN_def)
  have "ipp_answer n g (?A @ (NUL # NL # pre) @ CLEN @ SPACE # dec len @ CHR 0x0D # hdrs @ [NL, CHR 0x0D, NL] @ body @ drop (length ?R) bp)
      (length ?R) (length ?A) inp jobid = Inr (body_ok body jobid)"
    by (rule ipp_answer_at [OF ok(5,4) assms(2,3) _ lR]) (use assms(4) in simp)
  then show ?thesis
    unfolding printer_status_read [OF ok(1-3) assms(5) R less_imp_le [OF assms(6)] assms(7), of n g inp jobid] lA [symmetric]
    using assms(6) by simp
qed

section \<open>Properties\<close>

text \<open>
  An answer that arrives in one read. For every answer with a Content-Length line, any
  header lines before and after it, and a body as long as announced, \<^verbatim>\<open>printer_status\<close>
  returns; it reports success exactly when the HTTP status is 2xx, the IPP status class is
  \<^verbatim>\<open>OK\<close> and the request id is that of the job, whatever an earlier job left in the buffer.
\<close>

theorem printer_status_single_read:
  assumes "reply_ok ver reason pre len hdrs body" "8 \<le> length body" "len \<le> length body" "length pre + 2 \<le> n"
    and "length bp = IOBUFSZ" "length (http_reply ver code reason pre len hdrs body) < IOBUFSZ" "\<not> HTTP_INFO (int code)"
  shows "printer_status n g bp (RData (http_reply ver code reason pre len hdrs body) # inp) jobid =
    Inr (HTTP_SUCCESS (int code) \<and> body_ok body jobid)"
  using assms by (rule printer_status_answer)

theorem printer_status_single_read_witness:
  "printer_status 2 [] (replicate 8192 NUL)
     [RData (http_reply ''HTTP/1.1'' 200 ''OK'' [] 8 [] [CHR 0x01, CHR 0x01, NUL, NUL, NUL, NUL, NUL, CHR 0x07])] 7 = Inr True"
proof -
  let ?body = "[CHR 0x01, CHR 0x01, NUL, NUL, NUL, NUL, NUL, CHR 0x07]"
  have "reply_ok ''HTTP/1.1'' ''OK'' [] 8 [] ?body"
    by (simp add: reply_ok_def no_clen_Cons CLEN_def tolower_def) (simp add: no_clen_def no_eoh_def)
  moreover have "length (http_reply ''HTTP/1.1'' 200 ''OK'' [] 8 [] ?body) < IOBUFSZ"
    by (simp add: http_reply_def CLEN_def IOBUFSZ_def dec.simps)
  moreover have "body_ok ?body 7" "HTTP_SUCCESS 200" "\<not> HTTP_INFO 200"
    by (simp_all add: body_ok_def get32_def HTTP_SUCCESS_def HTTP_INFO_def)
  ultimately show ?thesis
    using printer_status_single_read [of "''HTTP/1.1''" "''OK''" "[]" 8 "[]" ?body 2 "replicate 8192 NUL" 200 "[]" "[]" 7]
    by (simp add: IOBUFSZ_def)
qed

text \<open>
  An answer that is cut after the Content-Length line. When the first read ends there,
  the search for the end of the header stops two bytes before the end of the data and never
  asks for more: \<^verbatim>\<open>printer_status\<close> loops for ever, whatever the printer sends next, and with
  it the only thread that prints.
\<close>

theorem printer_status_hangs:
  assumes "length ver = 8" "CHR 0x0D \<notin> set reason" "NL \<notin> set reason" "length bp = IOBUFSZ" "HTTP_SUCCESS (int code)"
    and "length (ver @ SPACE # dec code @ SPACE # reason @ [CHR 0x0D, NL] @ CLEN @ SPACE # dec len @ [CHR 0x0D, NL]) \<le> IOBUFSZ"
  shows "printer_status n g bp (RData (ver @ SPACE # dec code @ SPACE # reason @ [CHR 0x0D, NL] @ CLEN @ SPACE # dec len @ [CHR 0x0D, NL]) # inp) jobid
    = Inl Diverges"
proof -
  let ?R = "ver @ SPACE # dec code @ SPACE # reason @ [CHR 0x0D, NL] @ CLEN @ SPACE # dec len @ [CHR 0x0D, NL]"
  let ?j = "drop (length ?R) bp"
  let ?A = "ver @ SPACE # dec code @ NUL # reason"
  let ?b = "?A @ [NUL, NL] @ CLEN @ SPACE # dec len @ NUL # NL # ?j"
  have C: "CLEN = CHR ''C'' # ''ontent-Length:''" "length CLEN = 15" by (simp_all add: CLEN_def)
  have R: "?R = ver @ SPACE # dec code @ SPACE # reason @ CHR 0x0D # (NL # CLEN @ SPACE # dec len @ [CHR 0x0D, NL])" by simp
  have info: "\<not> HTTP_INFO (int code)" using assms(5) by (simp add: HTTP_INFO_def HTTP_SUCCESS_def)
  have lA: "length ?A = 10 + length (dec code) + length reason" using assms(1) by simp
  have lR: "length ?R = length ?A + 20 + length (dec len)" using assms(1) C(2) by simp
  have nc: "no_clen [NUL, NL] (CLEN @ SPACE # dec len @ CHR 0x0D # NL # ?j)"
    by (simp add: no_clen_Cons CLEN_def tolower_def) (simp add: no_clen_def)
  have "ipp_answer n g (?A @ [NUL, NL] @ CLEN @ SPACE # dec len @ CHR 0x0D # NL # ?j) (length ?R) (length ?A) inp jobid = Inl Diverges"
    by (rule ipp_answer_cut [OF nc]) (use lR in simp_all)
  then show ?thesis
    unfolding printer_status_read [OF assms(1-4) R assms(6) info, of n g inp jobid] lA [symmetric] using assms(5) by simp
qed

theorem printer_status_hangs_witness:
  "printer_status 1000 [] (replicate 8192 NUL)
     [RData (''HTTP/1.1 200 OK'' @ [CHR 0x0D, NL] @ ''Content-Length: 8'' @ [CHR 0x0D, NL]), RData [CHR 0x0D, NL]] 7 = Inl Diverges"
proof -
  have d: "dec 200 = ''200''" "dec 8 = ''8''" by code_simp+
  show ?thesis
    using printer_status_hangs [of "''HTTP/1.1''" "''OK''" "replicate 8192 NUL" 200 8 1000 "[]" "[RData [CHR 0x0D, NL]]" 7]
    by (simp add: d CLEN_def IOBUFSZ_def HTTP_SUCCESS_def)
qed

end
