(* ===== verification/Print_Daemon.thy ===== *)
theory Print_Daemon
  imports Print_Ipp Print_Workers Print_Status "HOL-Library.Sublist"
begin

text \<open>
  The print daemon (\<^verbatim>\<open>printer/printd.c\<close>): job numbers and the file that keeps them, the spool
  directory, the thread that takes a job from a client, the queue rebuilt at start-up and
  one round of the thread that talks to the printer. What the kernel does (which calls
  fail, how much is read or written) is an argument of each thread; memory that was
  never written is one too.
\<close>

section \<open>Names, numbers and state\<close>

definition SPOOLDIR :: string where "SPOOLDIR = ''/var/spool/printer''"
definition JOBFILE :: string where "JOBFILE = ''jobno''"
definition DATADIR :: string where "DATADIR = ''data''"
definition REQDIR :: string where "REQDIR = ''reqs''"
definition FILENMSZ :: nat where "FILENMSZ = 64"

definition spool_path :: "string \<Rightarrow> string \<Rightarrow> string" where
  "spool_path dir nm = SPOOLDIR @ ''/'' @ dir @ ''/'' @ nm"

definition data_name :: "32 word \<Rightarrow> string" where
  "data_name jobid = spool_path DATADIR (sprint_int (sint jobid))"

definition req_name :: "32 word \<Rightarrow> string" where
  "req_name jobid = spool_path REQDIR (sprint_int (sint jobid))"

text \<open>The error numbers of Linux, as \<^verbatim>\<open>errno\<close> holds them.\<close>

fun eno :: "errno \<Rightarrow> 32 word" where
  "eno ENONE = 0" | "eno EINVAL = 22" | "eno ENOENT = 2" | "eno ENOMEM = 12" | "eno EBADF = 9" | "eno EIO = 5"
| "eno ETIME = 62" | "eno EMFILE = 24" | "eno EINTR = 4" | "eno EAGAIN = 11" | "eno (EOTHER n) = of_nat n"

record printd =
  pfiles :: "string \<Rightarrow> string option"
  nextjob :: "32 word"
  jobfile :: ofile
  jq :: "(32 word \<times> printreq) jobq"
  pbrk :: nat
  pw :: wstore
  reread :: bool
  printer_name :: string

section \<open>Job numbers\<close>

definition get_newjobno :: "printd \<Rightarrow> 32 word \<times> printd" where
  "get_newjobno st =
     (let jobid = nextjob st; nx = nextjob st + 1
      in (jobid, st\<lparr>nextjob := (if sint nx \<le> 0 then 1 else nx)\<rparr>))"

text \<open>
  \<^verbatim>\<open>init_request\<close>: only one daemon gets the lock. The number is read into the buffer that
  still holds the name of the file; \<open>g\<close> is the rest of that buffer.
\<close>

definition init_request :: "bool \<Rightarrow> string \<Rightarrow> printd \<Rightarrow> printd res" where
  "init_request locked g st =
     (if \<not> locked then Inl (Err_quit ''daemon already running'')
      else let name = SPOOLDIR @ ''/'' @ JOBFILE @ NUL # g;
               (b, jf) = fread ((jobfile st)\<lparr>fpos := 0\<rparr>) FILENMSZ;
               name' = b @ drop (length b) name
           in Inr (st\<lparr>jobfile := jf, nextjob := (if b = [] then 1 else of_int (atol (cstr name')))\<rparr>))"

text \<open>
  \<^verbatim>\<open>init_printer\<close>: the name of the printer from its address, if there is one; without an
  address the daemon exits.
\<close>

definition init_printer :: "string option option \<Rightarrow> string option" where
  "init_printer addr = (case addr of None \<Rightarrow> None | Some None \<Rightarrow> Some ''printer'' | Some (Some nm) \<Rightarrow> Some nm)"

text \<open>
  \<^verbatim>\<open>update_jobno\<close>: \<open>seek\<close> is whether \<^verbatim>\<open>lseek\<close> succeeds, \<open>w\<close> what \<^verbatim>\<open>write\<close> does. When one of them fails \<^verbatim>\<open>log_sys\<close> ends the
  daemon; a write of fewer bytes is accepted.
\<close>

definition update_jobno :: "bool \<Rightarrow> wrev list \<Rightarrow> printd \<Rightarrow> printd res" where
  "update_jobno seek w st =
     (case (if seek then lseek (jobfile st) 0 SEEK_SET else None) of
        None \<Rightarrow> Inl (Err_sys ''can't seek in job file'')
      | Some (_, f) \<Rightarrow>
          let buf = sprint_int (sint (nextjob st))
          in case sys_write buf w of
               (None, _) \<Rightarrow> Inl (Err_sys ''can't update job file'')
             | (Some k, _) \<Rightarrow> Inr (st\<lparr>jobfile := fwrite f (take k buf)\<rparr>))"

section \<open>Taking a job from a client\<close>

record cenv =
  c_creat1 :: "errno option"
  c_w1 :: "wrev list"
  c_creat2 :: "errno option"
  c_w2 :: "wrev list"
  c_buf :: string
  c_msg :: string

definition werr :: "wrev list \<Rightarrow> errno" where
  "werr w = (case w of WFail e # _ \<Rightarrow> e | _ \<Rightarrow> EIO)"

definition rerr :: "rdev list \<Rightarrow> errno" where
  "rerr inp = (case inp of RFail e # _ \<Rightarrow> e | _ \<Rightarrow> ETIME)"

text \<open>
  Lines 446 to 468: the data of the job. The result is the errno of a failed write or the
  flags of the request, and what the data file holds. \<open>buf\<close> is the buffer before.
\<close>

function spool_loop :: "bool \<Rightarrow> 32 word \<Rightarrow> string \<Rightarrow> rdev list \<Rightarrow> wrev list \<Rightarrow> string \<Rightarrow> (errno + 32 word) \<times> string" where
  "spool_loop first flags buf inp w data =
     (case tread IOBUFSZ inp of
        (None, _) \<Rightarrow> (Inr flags, data)
      | (Some b, inp') \<Rightarrow>
          if b = [] then (Inr flags, data)
          else let buf' = b @ drop (length b) buf;
                   flags' = (if first \<and> take 4 buf' \<noteq> ''%!PS'' then or flags PR_TEXT else flags)
               in case sys_write b w of
                    (None, w') \<Rightarrow> (Inl (werr w), data)
                  | (Some nw, w') \<Rightarrow>
                      if nw \<noteq> length b then (Inl EIO, data @ take nw b)
                      else spool_loop False flags' buf' inp' w' (data @ b))"
  by pat_completeness auto
termination
  by (relation "measure (\<lambda>(first, flags, buf, inp, w, data). rdev_size inp)") (auto dest: tread_less [OF sym])

declare spool_loop.simps [simp del]

text \<open>An answer that rejects the job; the message is looked up for the swapped number.\<close>

definition reject :: "(32 word \<Rightarrow> string) \<Rightarrow> errno \<Rightarrow> printresp" where
  "reject strerror e =
     \<lparr>retcode = htonl (eno e), rjobid = 0, rmsg = strncpy_bytes (strerror (htonl (eno e))) MSGLEN_MAX\<rparr>"

definition accept_resp :: "string \<Rightarrow> 32 word \<Rightarrow> printresp" where
  "accept_resp g jobid =
     (let m = ''request ID '' @ sprint_int (sint jobid) @ [NUL]
      in \<lparr>retcode = 0, rjobid = htonl jobid, rmsg = m @ drop (length m) g\<rparr>)"

definition set_file :: "string \<Rightarrow> string \<Rightarrow> printd \<Rightarrow> printd" where
  "set_file nm d st = st\<lparr>pfiles := (pfiles st)(nm := Some d)\<rparr>"

definition unlink :: "string \<Rightarrow> printd \<Rightarrow> printd" where
  "unlink nm st = st\<lparr>pfiles := (pfiles st)(nm := None)\<rparr>"

text \<open>Lines 408 to 520, between registering the worker and cleaning up.\<close>

definition client_body :: "(32 word \<Rightarrow> string) \<Rightarrow> cenv \<Rightarrow> rdev list \<Rightarrow> printd \<Rightarrow> (printresp \<times> printd) res" where
  "client_body strerror env inp st =
     (case treadn sizeof_printreq inp of
        (None, _) \<Rightarrow> Inr (reject strerror (rerr inp), st)
      | (Some b, inp1) \<Rightarrow>
          if length b \<noteq> sizeof_printreq then Inr (reject strerror EIO, st)
          else
            let req = (printreq_of b)\<lparr>rsize := ntohl (rsize (printreq_of b)), rflags := ntohl (rflags (printreq_of b))\<rparr>;
                (jobid, st1) = get_newjobno st
            in case c_creat1 env of
                 Some e \<Rightarrow> Inr (reject strerror e, st1)
               | None \<Rightarrow>
                   (let st2 = set_file (data_name jobid) [] st1
                    in case spool_loop True (rflags req) (c_buf env) inp1 (c_w1 env) [] of
                         (Inl e, data) \<Rightarrow> Inr (reject strerror e, unlink (data_name jobid) (set_file (data_name jobid) data st2))
                       | (Inr flags, data) \<Rightarrow>
                           (let st3 = set_file (data_name jobid) data st2; req' = req\<lparr>rflags := flags\<rparr>
                            in case c_creat2 env of
                                 Some e \<Rightarrow> Inr (reject strerror e, unlink (data_name jobid) st3)
                               | None \<Rightarrow>
                                   (let st4 = set_file (req_name jobid) [] st3
                                    in case sys_write (printreq_bytes req') (c_w2 env) of
                                         (None, _) \<Rightarrow> Inr (reject strerror (werr (c_w2 env)), unlink (data_name jobid) (unlink (req_name jobid) st4))
                                       | (Some nw, _) \<Rightarrow>
                                           if nw \<noteq> sizeof_printreq
                                           then Inr (reject strerror EIO, unlink (data_name jobid) (unlink (req_name jobid) st4))
                                           else
                                             let st5 = set_file (req_name jobid) (printreq_bytes req') st4
                                             in bnd (add_job (jq st5) (pbrk st5) (jobid, req')) (\<lambda>q.
                                                Inr (accept_resp (c_msg env) jobid, st5\<lparr>jq := q, pbrk := pbrk st5 + 1\<rparr>))))))"

text \<open>\<^verbatim>\<open>client_thread\<close>: \<open>w\<close> is the address of the worker structure, the fuel bounds the list of workers.\<close>

definition client_thread ::
  "nat \<Rightarrow> (32 word \<Rightarrow> string) \<Rightarrow> cenv \<Rightarrow> nat \<Rightarrow> nat \<Rightarrow> int \<Rightarrow> rdev list \<Rightarrow> printd \<Rightarrow> (printresp \<times> printd) res" where
  "client_thread n strerror env w tid sockfd inp st =
     bnd (add_worker (pw st) w tid sockfd) (\<lambda>p1.
     bnd (client_body strerror env inp (st\<lparr>pw := p1\<rparr>)) (\<lambda>(r, st1).
     bnd (client_cleanup n (pw st1) tid) (\<lambda>p2. Inr (r, st1\<lparr>pw := p2\<rparr>))))"

section \<open>Starting up\<close>

text \<open>\<^verbatim>\<open>build_qonstart\<close>: the names of the directory in the order \<^verbatim>\<open>readdir\<close> gives them.\<close>

fun build_qonstart :: "string list \<Rightarrow> printd \<Rightarrow> printd res" where
  "build_qonstart [] st = Inr st"
| "build_qonstart (nm # nms) st =
     (if nm = ''.'' \<or> nm = ''..'' then build_qonstart nms st
      else if FILENMSZ \<le> length (spool_path REQDIR nm) then Inl (Undefined ''buffer overflow'')
      else case pfiles st (spool_path REQDIR nm) of
             None \<Rightarrow> build_qonstart nms st
           | Some d \<Rightarrow>
               let b = take sizeof_printreq d
               in if length b \<noteq> sizeof_printreq
                  then build_qonstart nms (unlink (spool_path DATADIR nm) (unlink (spool_path REQDIR nm) st))
                  else bnd (add_job (jq st) (pbrk st) (of_int (atol nm), printreq_of b)) (\<lambda>q.
                       build_qonstart nms (st\<lparr>jq := q, pbrk := pbrk st + 1\<rparr>)))"

section \<open>Printing\<close>

text \<open>
  One round of \<^verbatim>\<open>printer_thread\<close>, once the list is not empty. The environment says which
  calls fail: updating the number file, opening and examining the data file, connecting, the headers, the extra byte
  of a text file, reading the file; how the printer takes the data and what it answers; the
  result of reading the configuration again. \<open>p_cuts\<close> says how many bytes each read of the
  data file gives, or with which error it fails; the bytes are those of the file.
\<close>

record penv =
  p_seek :: bool
  p_jobw :: "wrev list"
  p_addr :: "string option option"
  p_open :: bool
  p_fstat :: bool
  p_connect :: bool
  p_writev :: bool
  p_write1 :: bool
  p_cuts :: "(errno + nat) list"
  p_sock :: "wrev list"
  p_reply :: "rdev list"
  p_hbuf :: string
  p_ibuf :: string
  p_bp :: string
  p_g :: string

fun file_reads :: "(errno + nat) list \<Rightarrow> string \<Rightarrow> rdev list" where
  "file_reads [] d = [RData d]"
| "file_reads (Inl e # cs) d = [RFail e]"
| "file_reads (Inr k # cs) d = RData (take (Suc k) d) # file_reads cs (drop (Suc k) d)"

function copy_loop :: "rdev list \<Rightarrow> wrev list \<Rightarrow> string \<Rightarrow> bool \<times> string \<times> wrev list" where
  "copy_loop inp w out =
     (case sys_read IOBUFSZ inp of
        (None, _) \<Rightarrow> (False, out, w)
      | (Some b, inp') \<Rightarrow>
          if b = [] then (True, out, w)
          else case writen b w of
                 (None, o', w') \<Rightarrow> (False, out @ o', w')
               | (Some k, o', w') \<Rightarrow> if k \<noteq> length b then (False, out @ o', w') else copy_loop inp' w' (out @ o'))"
  by pat_completeness auto
termination
  by (relation "measure (\<lambda>(inp, w, out). rdev_size inp)") (auto dest: sys_read_less [OF sym])

declare copy_loop.simps [simp del]

text \<open>
  Lines 740 to 825: what goes to the printer and whether the job is done. \<open>d\<close> are the contents of the
  data file, which give both its size and the bytes that are read from it.
\<close>

definition send_job :: "nat \<Rightarrow> penv \<Rightarrow> string \<Rightarrow> 32 word \<Rightarrow> printreq \<Rightarrow> string \<Rightarrow> (bool \<times> string) res" where
  "send_job n env pname jobid req d =
     bnd (ipp_request (p_ibuf env) pname jobid req) (\<lambda>(ibuf, ilen).
     let extra = (if and (rflags req) PR_TEXT \<noteq> 0 then 1 else 0)
     in bnd (http_header (p_hbuf env) pname (length d + ilen + extra)) (\<lambda>(hbuf, hlen).
        if \<not> p_writev env then Inr (False, [])
        else let out = take hlen hbuf @ take ilen ibuf
             in if extra = 1 \<and> \<not> p_write1 env then Inr (False, out)
                else let out = (if extra = 1 then out @ [CHR 0x08] else out)
                     in case copy_loop (file_reads (p_cuts env) d) (p_sock env) out of
                          (False, o', _) \<Rightarrow> Inr (False, o')
                        | (True, o', _) \<Rightarrow> bnd (printer_status n (p_g env) (p_bp env) (p_reply env) jobid) (\<lambda>ok. Inr (ok, o'))))"

datatype round_end = Printed | Canceled | Deferred | Exited

definition printer_round :: "nat \<Rightarrow> penv \<Rightarrow> printd \<Rightarrow> (round_end \<times> string \<times> printd) res" where
  "printer_round n env st =
     (let jp = qhead (jq st); (jobid, req) = jdat (jq st) jp
      in bnd (remove_job (jq st) jp) (\<lambda>q1.
         bnd (update_jobno (p_seek env) (p_jobw env) (st\<lparr>jq := q1\<rparr>)) (\<lambda>st1.
         let conf = (if reread st1 then (case init_printer (p_addr env) of None \<Rightarrow> None | Some nm \<Rightarrow> Some (st1\<lparr>reread := False, printer_name := nm\<rparr>))
                     else Some st1)
         in case conf of
              None \<Rightarrow> Inr (Exited, [], st1)
            | Some st2 \<Rightarrow>
                (case pfiles st2 (data_name jobid) of
                   None \<Rightarrow> Inr (Canceled, [], st2)
                 | Some d \<Rightarrow>
                     if \<not> p_open env \<or> \<not> p_fstat env then Inr (Canceled, [], st2)
                     else bnd (if p_connect env then send_job n env (printer_name st2) jobid req d else Inr (False, []))
                            (\<lambda>(ok, out).
                          if ok then Inr (Printed, out, unlink (req_name jobid) (unlink (data_name jobid) st2))
                          else bnd (replace_job (jq st2) jp) (\<lambda>q. Inr (Deferred, out, st2\<lparr>jq := q\<rparr>)))))))"

section \<open>What the reads of a client deliver\<close>

lemma treadn_exact:
  assumes "n \<le> length (tavail inp)"
  shows "\<exists>inp'. treadn n inp = (Some (take n (tavail inp)), inp') \<and> tavail inp' = drop n (tavail inp)"
  using trdn.loop_rest [OF assms, of n "[]"] by (simp add: treadn_def)

definition ps_flags :: "string \<Rightarrow> string \<Rightarrow> 32 word \<Rightarrow> 32 word" where
  "ps_flags c buf flags = (if take 4 (c @ drop (length c) buf) = ''%!PS'' then flags else or flags PR_TEXT)"

lemma spool_loop_rest: "spool_loop False flags buf inp [] data = (Inr flags, data @ tavail inp)"
proof (induction "rdev_size inp" arbitrary: inp buf data rule: less_induct)
  case less
  show ?case
  proof (cases "tavail inp = []")
    case True
    then obtain inp' where "tread IOBUFSZ inp = (if tfails inp then None else Some [], inp')" using trdn.end_law by blast
    then show ?thesis using True by (simp add: spool_loop.simps [of False] split: if_splits)
  next
    case False
    then obtain b inp' where b: "tread IOBUFSZ inp = (Some b, inp')" "b \<noteq> []" "tavail inp = b @ tavail inp'"
      using trdn.data_law [of IOBUFSZ inp] by (auto simp: IOBUFSZ_def)
    have "spool_loop False flags buf inp [] data = spool_loop False flags (b @ drop (length b) buf) inp' [] (data @ b)"
      using b by (simp add: spool_loop.simps [of False flags buf inp] Let_def)
    then show ?thesis using less [OF tread_less [OF b(1,2)]] b(3) by simp
  qed
qed

lemma spool_loop_all:
  "\<exists>c. prefix c (tavail inp) \<and> (tavail inp \<noteq> [] \<longrightarrow> c \<noteq> []) \<and>
    spool_loop True flags buf inp [] [] = (Inr (if tavail inp = [] then flags else ps_flags c buf flags), tavail inp)"
proof (cases "tavail inp = []")
  case True
  then obtain inp' where "tread IOBUFSZ inp = (if tfails inp then None else Some [], inp')" using trdn.end_law by blast
  then show ?thesis using True by (simp add: spool_loop.simps [of True] split: if_splits)
next
  case False
  then obtain b inp' where b: "tread IOBUFSZ inp = (Some b, inp')" "b \<noteq> []" "tavail inp = b @ tavail inp'"
    using trdn.data_law [of IOBUFSZ inp] by (auto simp: IOBUFSZ_def)
  then show ?thesis using False
    by (intro exI [of _ b]) (simp add: spool_loop.simps [of True flags buf inp] Let_def spool_loop_rest ps_flags_def)
qed

section \<open>A job that is accepted\<close>

definition host_req :: "printreq \<Rightarrow> printreq" where
  "host_req r = r\<lparr>rsize := ntohl (rsize r), rflags := ntohl (rflags r)\<rparr>"

lemma req_ok_upd [simp]: "req_ok (r\<lparr>rflags := f\<rparr>) = req_ok r" "req_ok (r\<lparr>rsize := f\<rparr>) = req_ok r"
  by (simp_all add: req_ok_def)

lemma req_ok_host [simp]: "req_ok (host_req r) = req_ok r"
  by (simp add: host_req_def)

text \<open>A client's data is what its socket delivers, and the daemon's disk works.\<close>

definition disk_ok :: "cenv \<Rightarrow> bool" where
  "disk_ok env \<longleftrightarrow> c_creat1 env = None \<and> c_creat2 env = None \<and> c_w1 env = [] \<and> c_w2 env = []"

definition queue_ok :: "printd \<Rightarrow> nat list \<Rightarrow> bool" where
  "queue_ok st xs \<longleftrightarrow> dlist (jq st) xs \<and> pbrk st \<noteq> 0 \<and> (\<forall>x \<in> set xs. x < pbrk st)"

definition queued :: "printd \<Rightarrow> nat list \<Rightarrow> (32 word \<times> printreq) list" where
  "queued st xs = map (jdat (jq st)) xs"

lemma client_body_accepts:
  assumes "tavail inp = printreq_bytes hdr @ contents" "req_ok hdr" "disk_ok env" "queue_ok st xs"
  defines "j \<equiv> nextjob st"
  shows "\<exists>c st'. prefix c contents \<and> (contents \<noteq> [] \<longrightarrow> c \<noteq> []) \<and>
    (let f = ntohl (rflags hdr); req = (host_req hdr)\<lparr>rflags := if contents = [] then f else ps_flags c (c_buf env) f\<rparr>
     in client_body strerror env inp st = Inr (accept_resp (c_msg env) j, st') \<and>
        pfiles st' = (pfiles st)(data_name j := Some contents, req_name j := Some (printreq_bytes req)) \<and>
        queue_ok st' (xs @ [pbrk st]) \<and> queued st' (xs @ [pbrk st]) = queued st xs @ [(j, req)] \<and>
        nextjob st' = nextjob (snd (get_newjobno st)) \<and> jobfile st' = jobfile st \<and> pw st' = pw st)"
proof -
  have l: "length (printreq_bytes hdr) = sizeof_printreq" using length_printreq_bytes [OF assms(2)] .
  obtain inp1 where t: "treadn sizeof_printreq inp = (Some (printreq_bytes hdr), inp1)" "tavail inp1 = contents"
    using treadn_exact [of sizeof_printreq inp] assms(1) l by auto
  let ?f = "ntohl (rflags hdr)"
  obtain c where c: "prefix c contents" "contents \<noteq> [] \<longrightarrow> c \<noteq> []"
      "spool_loop True ?f (c_buf env) inp1 [] [] = (Inr (if contents = [] then ?f else ps_flags c (c_buf env) ?f), contents)"
    using spool_loop_all [of inp1 ?f "c_buf env"] t(2) by auto
  define req where "req = (host_req hdr)\<lparr>rflags := if contents = [] then ?f else ps_flags c (c_buf env) ?f\<rparr>"
  have lr: "length (printreq_bytes req) = sizeof_printreq"
    by (rule length_printreq_bytes) (simp add: req_def assms(2))
  have q: "dlist (jq st) xs" "pbrk st \<noteq> 0" "pbrk st \<notin> set xs" "\<forall>x \<in> set xs. x < pbrk st"
    using assms(4) by (auto simp: queue_ok_def)
  obtain q' where q': "add_job (jq st) (pbrk st) (j, req) = Inr q'" "dlist q' (xs @ [pbrk st])" "jdat q' = (jdat (jq st))(pbrk st := (j, req))"
    using add_job_dlist [OF q(1-3), of "(j, req)"] by blast
  define st' where "st' = (snd (get_newjobno st))\<lparr>pfiles := (pfiles st)(data_name j := Some contents, req_name j := Some (printreq_bytes req)),
      jq := q', pbrk := pbrk st + 1\<rparr>"
  have "client_body strerror env inp st = Inr (accept_resp (c_msg env) j, st')"
    using t c(3) l lr q'(1) assms(2,3)
    by (simp add: client_body_def get_newjobno_def Let_def disk_ok_def set_file_def st'_def j_def req_def host_req_def)
  moreover have "queue_ok st' (xs @ [pbrk st])" using q q'(2) by (auto simp: queue_ok_def st'_def)
  moreover have "queued st' (xs @ [pbrk st]) = queued st xs @ [(j, req)]" using q q'(3) by (auto simp: queued_def st'_def)
  ultimately show ?thesis using c(1,2)
    by (intro exI [of _ c] exI [of _ st']) (simp add: Let_def st'_def req_def get_newjobno_def)
qed

lemma length_sprint_sint: "length (sprint_int (sint (j :: 32 word))) \<le> 11"
proof -
  have "- (2 ^ 31) \<le> sint j" "sint j < 2 ^ 31" using sint_range_size [of j] by (simp_all add: word_size)
  then have "nat (sint j) < 10 ^ 10" "nat (- sint j) < 10 ^ 10" by simp_all
  then have "length (dec (nat (sint j))) \<le> 10" "length (dec (nat (- sint j))) \<le> 10" by (simp_all add: length_dec_le)
  then show ?thesis by (simp add: sprint_int_def)
qed

lemma accept_resp_fields:
  "length g = MSGLEN_MAX \<Longrightarrow> length (rmsg (accept_resp g j)) = MSGLEN_MAX"
  "retcode (accept_resp g j) = 0" "rjobid (accept_resp g j) = htonl j"
  using length_sprint_sint [of j] by (simp_all add: accept_resp_def Let_def MSGLEN_MAX_def)

lemma readn_exact: "length b = n \<Longrightarrow> avail inp = b \<Longrightarrow> \<exists>inp'. readn n inp = (Some b, inp')"
  using rdn.loop_rest [of n inp n "[]"] by (auto simp: readn_def)

lemma submit_file_sends:
  assumes "req_ok g" "is_cstr fname" "\<And>nm. pwd = Some nm \<Longrightarrow> is_cstr nm" "takes_all w"
    and "\<forall>e \<in> set inp. \<exists>s. e = RData s \<and> s \<noteq> []"
  shows "\<exists>req. req_ok req \<and> cstr (usernm req) = user_name pwd \<and> cstr (jobnm req) = job_name fname \<and>
    ntohl (rsize req) = of_nat nbytes \<and> ntohl (rflags req) = (if txt then PR_TEXT else 0) \<and>
    fst (submit_file g pwd fname nbytes txt inp w rsp) = printreq_bytes req @ avail inp \<and>
    (\<forall>m j. avail rsp = printresp_bytes (accept_resp m j) \<longrightarrow> length m = MSGLEN_MAX \<longrightarrow>
       snd (submit_file g pwd fname nbytes txt inp w rsp) = Inr (Job_id j))"
proof -
  obtain req where h: "submit_header g pwd fname nbytes txt = Inr req" "req_ok req" "cstr (usernm req) = user_name pwd"
      "cstr (jobnm req) = job_name fname" "ntohl (rsize req) = of_nat nbytes" "ntohl (rflags req) = (if txt then PR_TEXT else 0)"
    using submit_header_ok [where pwd = pwd, OF assms(1-3)] by blast
  obtain w1 where w1: "writen (printreq_bytes req) w = (Some sizeof_printreq, printreq_bytes req, w1)" "takes_all w1"
    using writen_takes_all [OF assms(4), of "printreq_bytes req"] length_printreq_bytes [OF h(2)] by auto
  obtain w2 where w2: "send_loop inp w1 (printreq_bytes req) = (Sent, printreq_bytes req @ avail inp, w2)"
    using send_loop_sends [OF w1(2) assms(5)] by blast
  have "snd (submit_file g pwd fname nbytes txt inp w rsp) = Inr (Job_id j)"
    if a: "avail rsp = printresp_bytes (accept_resp m j)" "length m = MSGLEN_MAX" for m j
  proof -
    have "length (printresp_bytes (accept_resp m j)) = sizeof_printresp"
      by (rule length_printresp_bytes) (rule accept_resp_fields(1) [OF a(2)])
    moreover from readn_exact [OF this a(1)] obtain r' where "readn sizeof_printresp rsp = (Some (printresp_bytes (accept_resp m j)), r')"
      by blast
    ultimately show ?thesis using h(1) w1(1) w2 printresp_of_bytes [OF accept_resp_fields(1) [OF a(2)], of j]
      by (simp add: submit_file_def accept_resp_fields(2,3))
  qed
  moreover have "fst (submit_file g pwd fname nbytes txt inp w rsp) = printreq_bytes req @ avail inp"
    using h(1) w1(1) w2 by (simp add: submit_file_def split: option.splits prod.splits)
  ultimately show ?thesis using h by blast
qed

lemma spool_names_differ [simp]: "spool_path DATADIR a \<noteq> spool_path REQDIR b" "spool_path REQDIR b \<noteq> spool_path DATADIR a"
  by (simp_all add: spool_path_def DATADIR_def REQDIR_def)

lemma data_req_differ [simp]: "data_name i \<noteq> req_name j" "req_name j \<noteq> data_name i"
  by (simp_all add: data_name_def req_name_def)

section \<open>Properties of job submission\<close>

text \<open>
  C29: From the file to the queue. Whatever the client sends with \<^verbatim>\<open>submit_file\<close>, in
  however many pieces it reaches the daemon before the stream ends or falls silent, the
  thread that serves it stores exactly the contents of the file under the new job number,
  stores the request with the names and the size the client gave and the text flag added unless
  the first piece looks like PostScript, appends the job to the queue, and the client, given the
  answer in any pieces, reports that job number.
\<close>

theorem print_submit_end_to_end:
  assumes "req_ok g" "is_cstr fname" "\<And>nm. pwd = Some nm \<Longrightarrow> is_cstr nm" "takes_all w"
    and "\<forall>e \<in> set doc. \<exists>s. e = RData s \<and> s \<noteq> []"
    and "tavail sock = fst (submit_file g pwd fname (length (avail doc)) txt doc w rsp)"
    and "disk_ok env" "length (c_msg env) = MSGLEN_MAX" "queue_ok st xs"
  shows "\<exists>c req res st'. prefix c (avail doc) \<and> (avail doc \<noteq> [] \<longrightarrow> c \<noteq> []) \<and>
    client_body strerror env sock st = Inr (res, st') \<and>
    (avail rsp = printresp_bytes res \<longrightarrow> snd (submit_file g pwd fname (length (avail doc)) txt doc w rsp) = Inr (Job_id (nextjob st))) \<and>
    pfiles st' = (pfiles st)(data_name (nextjob st) := Some (avail doc), req_name (nextjob st) := Some (printreq_bytes req)) \<and>
    queue_ok st' (xs @ [pbrk st]) \<and> queued st' (xs @ [pbrk st]) = queued st xs @ [(nextjob st, req)] \<and>
    cstr (usernm req) = user_name pwd \<and> cstr (jobnm req) = job_name fname \<and> rsize req = of_nat (length (avail doc)) \<and>
    rflags req = (let f = if txt then PR_TEXT else 0 in if avail doc = [] then f else ps_flags c (c_buf env) f)"
proof -
  obtain hdr where h: "req_ok hdr" "cstr (usernm hdr) = user_name pwd" "cstr (jobnm hdr) = job_name fname"
      "ntohl (rsize hdr) = of_nat (length (avail doc))" "ntohl (rflags hdr) = (if txt then PR_TEXT else 0)"
      "fst (submit_file g pwd fname (length (avail doc)) txt doc w rsp) = printreq_bytes hdr @ avail doc"
      "\<forall>m j. avail rsp = printresp_bytes (accept_resp m j) \<longrightarrow> length m = MSGLEN_MAX \<longrightarrow>
        snd (submit_file g pwd fname (length (avail doc)) txt doc w rsp) = Inr (Job_id j)"
    using submit_file_sends [where pwd = pwd and inp = doc and nbytes = "length (avail doc)" and rsp = rsp, OF assms(1-5)] by metis
  obtain c st' where c: "prefix c (avail doc)" "avail doc \<noteq> [] \<longrightarrow> c \<noteq> []"
    and b: "let f = ntohl (rflags hdr); req = (host_req hdr)\<lparr>rflags := if avail doc = [] then f else ps_flags c (c_buf env) f\<rparr>
     in client_body strerror env sock st = Inr (accept_resp (c_msg env) (nextjob st), st') \<and>
        pfiles st' = (pfiles st)(data_name (nextjob st) := Some (avail doc), req_name (nextjob st) := Some (printreq_bytes req)) \<and>
        queue_ok st' (xs @ [pbrk st]) \<and> queued st' (xs @ [pbrk st]) = queued st xs @ [(nextjob st, req)] \<and>
        nextjob st' = nextjob (snd (get_newjobno st)) \<and> jobfile st' = jobfile st \<and> pw st' = pw st"
    using client_body_accepts [of sock hdr "avail doc", OF _ h(1) assms(7,9)] assms(6) h(6) by metis
  define req where "req = (host_req hdr)\<lparr>rflags := if avail doc = [] then ntohl (rflags hdr) else ps_flags c (c_buf env) (ntohl (rflags hdr))\<rparr>"
  show ?thesis
    by (rule exI [of _ c], rule exI [of _ req], rule exI [of _ "accept_resp (c_msg env) (nextjob st)"], rule exI [of _ st'])
      (use b c h assms(8) in \<open>simp add: Let_def req_def host_req_def\<close>)
qed

definition ex_env :: cenv where
  "ex_env = \<lparr>c_creat1 = None, c_w1 = [], c_creat2 = None, c_w2 = [], c_buf = [], c_msg = replicate 512 NUL\<rparr>"

definition ex_state :: printd where
  "ex_state = \<lparr>pfiles = (\<lambda>_. None), nextjob = 1, jobfile = \<lparr>fdata = [], fpos = 0\<rparr>,
     jq = \<lparr>nxt = (\<lambda>_. 0), prv = (\<lambda>_. 0), jdat = (\<lambda>_. (0, \<lparr>rsize = 0, rflags = 0, usernm = [], jobnm = []\<rparr>)), qhead = 0, qtail = 0\<rparr>, pbrk = 1,
     pw = \<lparr>wnext = (\<lambda>_. 0), wprev = (\<lambda>_. 0), wtid = (\<lambda>_. 0), wsock = (\<lambda>_. 0), walive = (\<lambda>_. False), workers = 0, wclosed = []\<rparr>,
     reread = False, printer_name = ''lj4''\<rparr>"

definition ex_req :: printreq where
  "ex_req = \<lparr>rsize = 0, rflags = 0, usernm = replicate 64 NUL, jobnm = replicate 256 NUL\<rparr>"

lemma ex_ok: "disk_ok ex_env" "length (c_msg ex_env) = MSGLEN_MAX" "queue_ok ex_state []" "req_ok ex_req" "nextjob ex_state = 1" "pfiles ex_state = (\<lambda>_. None)"
  by (simp_all add: ex_env_def disk_ok_def MSGLEN_MAX_def queue_ok_def ex_state_def dlist_def ex_req_def req_ok_def size_defs)

theorem print_submit_end_to_end_witness:
  "\<exists>res st'. client_body (\<lambda>_. []) ex_env [RData (fst (submit_file ex_req None ''a.txt'' 2 False [RData ''hi''] [WTake 1] [])), RTimeout] ex_state = Inr (res, st')
     \<and> pfiles st' (data_name 1) = Some ''hi''"
proof -
  let ?o = "fst (submit_file ex_req None ''a.txt'' 2 False [RData ''hi''] [WTake 1] [])"
  have w: "takes_all [WTake 1]" by (simp add: takes_all_def)
  have "?o \<noteq> []"
    using submit_file_sends [where pwd = None and inp = "[RData ''hi'']" and nbytes = 2 and rsp = "[]", OF ex_ok(4) _ _ w, of "''a.txt''" False] by auto
  then have t: "tavail [RData ?o, RTimeout] = ?o" by simp
  show ?thesis
    using print_submit_end_to_end [where pwd = None and doc = "[RData ''hi'']" and sock = "[RData ?o, RTimeout]" and rsp = "[]" and xs = "[]"
        and strerror = "\<lambda>_. []", OF ex_ok(4) _ _ w _ _ ex_ok(1-3), of "''a.txt''" False] t
    by (auto simp: ex_ok(5,6) numeral_2_eq_2)
qed

text \<open>
  C30: A job that is rejected leaves no trace. Whenever the answer carries an error number, the
  spool directory and the queue are as before (the two names of the new job being unused), and
  only the job number may have been used up. The message that goes with the number is the
  one for the number with its bytes swapped.
\<close>

theorem client_reject_leaves_no_trace:
  assumes "client_body strerror env inp st = Inr (res, st')" "retcode res \<noteq> 0"
    and "pfiles st (data_name (nextjob st)) = None" "pfiles st (req_name (nextjob st)) = None"
  shows "pfiles st' = pfiles st \<and> jq st' = jq st \<and> jobfile st' = jobfile st \<and>
    nextjob st' \<in> {nextjob st, nextjob (snd (get_newjobno st))} \<and>
    rjobid res = 0 \<and> rmsg res = strncpy_bytes (strerror (retcode res)) MSGLEN_MAX \<and> (\<exists>e. retcode res = htonl (eno e))"
proof -
  have u: "(pfiles st)(data_name (nextjob st) := None) = pfiles st" "(pfiles st)(req_name (nextjob st) := None) = pfiles st"
      "(pfiles st)(data_name (nextjob st) := None, req_name (nextjob st) := None) = pfiles st"
    using assms(3,4) by (simp_all add: fun_upd_idem)
  have r: "retcode (reject strerror e) = htonl (eno e)" "rjobid (reject strerror e) = 0"
      "rmsg (reject strerror e) = strncpy_bytes (strerror (htonl (eno e))) MSGLEN_MAX" for e
    by (simp_all add: reject_def)
  have tw: "fun_upd (fun_upd (fun_upd f a x) b y) a z = (f(b := y, a := z) :: string \<Rightarrow> string option)" if "a \<noteq> b" for f a b x y z
    using that by (simp add: fun_upd_twist)
  show ?thesis using assms(1,2)
    by (auto simp: client_body_def Let_def get_newjobno_def set_file_def unlink_def u r tw bnd_eq_Inr_iff accept_resp_fields simp del: eno.simps
        split: prod.splits option.splits if_splits sum.splits)
qed

theorem client_reject_leaves_no_trace_witness:
  "\<exists>res st'. client_body (\<lambda>c. if c = 62 then ''Timer expired'' else ''Unknown error'') ex_env [RTimeout] ex_state = Inr (res, st')
     \<and> pfiles st' = pfiles ex_state \<and> rmsg res = strncpy_bytes ''Unknown error'' 512"
proof -
  let ?s = "\<lambda>c :: 32 word. if c = 62 then ''Timer expired'' else ''Unknown error''"
  have h: "htonl 62 = 0x3E000000" by (simp add: htonl_def mem32_def get32_def of_char_of)
  have t: "treadn sizeof_printreq [RTimeout] = (None, [])" by (simp add: treadn_def read_loop.simps size_defs)
  have e: "client_body ?s ex_env [RTimeout] ex_state = Inr (reject ?s ETIME, ex_state)"
    by (simp add: client_body_def t rerr_def)
  have n: "retcode (reject ?s ETIME) \<noteq> 0" by (simp add: reject_def h)
  show ?thesis
    using client_reject_leaves_no_trace [OF e n] e h by (simp add: ex_ok(6) MSGLEN_MAX_def reject_def)
qed

end
