(* ===== verification/Print_Recovery.thy ===== *)
theory Print_Recovery
  imports Print_Daemon
begin

text \<open>
  What survives a restart of the print daemon: the job numbers and the file that keeps the
  next one, and the queue rebuilt from the spool directory.
\<close>

section \<open>Job numbers\<close>

fun newjobs :: "nat \<Rightarrow> printd \<Rightarrow> 32 word list" where
  "newjobs 0 st = []"
| "newjobs (Suc k) st = fst (get_newjobno st) # newjobs k (snd (get_newjobno st))"

lemma sint_succ:
  fixes x :: "32 word"
  assumes "1 \<le> sint x"
  shows "sint (if sint (x + 1) \<le> 0 then 1 else x + 1) = (if sint x = 2147483647 then 1 else sint x + 1)"
proof -
  have r: "sint x \<le> 2147483647" using sint_range_size [of x] by (simp add: word_size)
  have p: "sint (x + 1) = signed_take_bit 31 (sint x + 1)" by (simp add: sint_word_ariths)
  show ?thesis
  proof (cases "sint x = 2147483647")
    case True
    then have "sint (x + 1) = signed_take_bit 31 2147483648" using p by simp
    also have "\<dots> = - 2147483648" by (simp add: signed_take_bit_eq_take_bit_shift take_bit_eq_mod)
    finally show ?thesis using True by simp
  next
    case False
    then have "signed_take_bit 31 (sint x + 1) = sint x + 1"
      using assms r by (intro signed_take_bit_int_eq_self) simp_all
    then show ?thesis using p False assms by simp
  qed
qed

lemma nextjob_succ:
  assumes "1 \<le> sint (nextjob st)"
  shows "sint (nextjob (snd (get_newjobno st))) = 1 + sint (nextjob st) mod 2147483647"
proof -
  have "sint (nextjob st) \<le> 2147483647" using sint_range_size [of "nextjob st"] by (simp add: word_size)
  then show ?thesis using sint_succ [OF assms] assms by (auto simp: get_newjobno_def Let_def)
qed

lemma newjobs_nth:
  assumes "1 \<le> sint (nextjob st)" "k < n"
  shows "sint (newjobs n st ! k) = 1 + (sint (nextjob st) - 1 + int k) mod 2147483647"
  using assms
proof (induction n arbitrary: st k)
  case (Suc n)
  have r: "sint (nextjob st) \<le> 2147483647" using sint_range_size [of "nextjob st"] by (simp add: word_size)
  show ?case
  proof (cases k)
    case 0
    then show ?thesis using Suc.prems(1) r by (simp add: get_newjobno_def Let_def)
  next
    case (Suc i)
    let ?st = "snd (get_newjobno st)"
    have s: "sint (nextjob ?st) = 1 + sint (nextjob st) mod 2147483647" by (rule nextjob_succ [OF Suc.prems(1)])
    then have "1 \<le> sint (nextjob ?st)" by simp
    from Suc.IH [OF this, of i] have "sint (newjobs n ?st ! i) = 1 + (sint (nextjob st) mod 2147483647 + int i) mod 2147483647"
      using Suc.prems(2) Suc s by simp
    then show ?thesis using Suc by (simp add: mod_simps)
  qed
qed simp

lemma length_newjobs [simp]: "length (newjobs n st) = n"
  by (induction n arbitrary: st) auto

section \<open>The file of the next job number\<close>

lemma atol_sprint_int [simp]: "atol (sprint_int i) = i"
  by (simp add: sprint_int_def atol_def isspace_def) (metis atol_dec atol_def int_nat_eq linorder_not_less)

definition jobno_path :: string where "jobno_path = ''/var/spool/printer/jobno''"

lemma jobno_path_eq: "SPOOLDIR @ ''/'' @ JOBFILE = jobno_path"
  by (simp add: SPOOLDIR_def JOBFILE_def jobno_path_def)

lemma jobno_path_chars: "\<forall>c \<in> set jobno_path. \<not> isdigit c \<and> c \<noteq> NUL"
  by (simp add: jobno_path_def isdigit_def)

lemma length_jobno_path: "length jobno_path = 24"
  by (simp add: jobno_path_def)

text \<open>Reading a short file over the path name in the buffer gives the file's number.\<close>

lemma init_request_reads:
  assumes "fdata (jobfile st) = d" "length d \<le> 24" "is_cstr d"
  shows "init_request True g st = Inr (st\<lparr>jobfile := \<lparr>fdata = d, fpos = length d\<rparr>,
    nextjob := (if d = [] then 1 else of_int (atol (d @ drop (length d) jobno_path)))\<rparr>)"
proof -
  have f: "fread ((jobfile st)\<lparr>fpos := 0\<rparr>) FILENMSZ = (d, \<lparr>fdata = d, fpos = length d\<rparr>)"
    using assms by (cases "jobfile st") (simp add: fread_def FILENMSZ_def)
  have "is_cstr (d @ drop (length d) jobno_path)"
    using assms(3) jobno_path_chars by (auto simp: is_cstr_def dest: in_set_dropD)
  then have "cstr ((d @ drop (length d) jobno_path) @ NUL # g) = d @ drop (length d) jobno_path" by (rule cstr_append_NUL)
  moreover have "d @ drop (length d) (SPOOLDIR @ ''/'' @ JOBFILE @ NUL # g) = (d @ drop (length d) jobno_path) @ NUL # g"
    using assms(2) length_jobno_path jobno_path_eq by (metis append.assoc append_Cons append_eq_conv_conj diff_is_0_eq drop0 drop_append append_Nil)
  ultimately show ?thesis by (simp add: init_request_def f Let_def)
qed

lemma atol_dec_path: "atol (dec k @ drop n jobno_path) = int k"
proof (rule atol_dec_append)
  show "drop n jobno_path = [] \<or> \<not> isdigit (hd (drop n jobno_path))"
    using jobno_path_chars by (metis hd_in_set in_set_dropD)
qed

text \<open>What \<^verbatim>\<open>update_jobno\<close> changes, when it returns and when it does.\<close>

lemma update_jobno_cases:
  "update_jobno seek w st =
     (if \<not> seek then Inl (Err_sys ''can't seek in job file'')
      else if write_fails w then Inl (Err_sys ''can't update job file'')
      else Inr (st\<lparr>jobfile := jobfile (projr (update_jobno seek w st))\<rparr>))"
  by (cases w rule: write_fails.cases) (auto simp: update_jobno_def lseek_def Let_def split: option.split)

lemma update_jobno_fields:
  assumes "update_jobno seek w st = Inr st1"
  shows "nextjob st1 = nextjob st" "pfiles st1 = pfiles st" "jq st1 = jq st" "pbrk st1 = pbrk st" "pw st1 = pw st"
    "reread st1 = reread st" "printer_name st1 = printer_name st"
  using assms by (auto simp: update_jobno_def Let_def split: option.splits if_splits prod.splits)

lemma update_jobno_data:
  "\<exists>st1. update_jobno True [] st = Inr st1 \<and>
    fdata (jobfile st1) = sprint_int (sint (nextjob st)) @ drop (length (sprint_int (sint (nextjob st)))) (fdata (jobfile st))"
  by (auto simp: update_jobno_def fwrite_def fsplice_def Let_def)

lemma update_jobno_queue: "update_jobno seek w (st\<lparr>jq := q\<rparr>) = bnd (update_jobno seek w st) (\<lambda>s. Inr (s\<lparr>jq := q\<rparr>))"
  by (auto simp: update_jobno_def Let_def split: option.split prod.split)

section \<open>Properties of job numbers\<close>

text \<open>
  Job numbers: from any positive start they count up to \<open>2\<^sup>31 - 1\<close> and go on from 1, so
  that numbers are always positive and any \<open>2\<^sup>31 - 1\<close> numbers in a row are different.
\<close>

theorem job_numbers_distinct:
  assumes "1 \<le> sint (nextjob st)"
  shows "(\<forall>k < n. sint (newjobs n st ! k) = 1 + (sint (nextjob st) - 1 + int k) mod (2 ^ 31 - 1)) \<and>
    (\<forall>j \<in> set (newjobs n st). 1 \<le> sint j) \<and> (n \<le> 2 ^ 31 - 1 \<longrightarrow> distinct (newjobs n st))"
proof (intro conjI allI impI ballI)
  fix k assume "k < n"
  then show "sint (newjobs n st ! k) = 1 + (sint (nextjob st) - 1 + int k) mod (2 ^ 31 - 1)"
    using newjobs_nth [OF assms] by simp
next
  fix j assume "j \<in> set (newjobs n st)"
  then obtain k where "k < n" "j = newjobs n st ! k" by (metis in_set_conv_nth length_newjobs)
  then show "1 \<le> sint j" using newjobs_nth [OF assms, of k n] by simp
next
  assume n: "n \<le> 2 ^ 31 - 1"
  let ?f = "\<lambda>k. (sint (nextjob st) - 1 + int k) mod 2147483647"
  have "i = k" if "i < n" "k < n" "newjobs n st ! i = newjobs n st ! k" for i k
  proof -
    have "?f i = ?f k" using newjobs_nth [OF assms that(1)] newjobs_nth [OF assms that(2)] that(3) by simp
    then have d: "2147483647 dvd int i - int k" by (simp add: mod_eq_dvd_iff)
    have "\<bar>int i - int k\<bar> < 2147483647" using that(1,2) n by simp
    then have "int i - int k = 0" using dvd_imp_le_int [OF _ d] by fastforce
    then show ?thesis by simp
  qed
  then show "distinct (newjobs n st)" by (auto simp: distinct_conv_nth)
qed

theorem job_numbers_distinct_witness:
  "sint (newjobs 3 (ex_state\<lparr>nextjob := 0x7FFFFFFE\<rparr>) ! 2) = 1 \<and> distinct (newjobs 3 (ex_state\<lparr>nextjob := 0x7FFFFFFE\<rparr>))"
proof -
  have s: "sint (0x7FFFFFFE :: 32 word) = 2147483646" by simp
  then have "1 \<le> sint (nextjob (ex_state\<lparr>nextjob := 0x7FFFFFFE\<rparr>))" by simp
  from job_numbers_distinct [OF this, of 3] show ?thesis using s by auto
qed

text \<open>
  The next job number over a restart. What \<^verbatim>\<open>update_jobno\<close> stores, when the write succeeds, is what
  \<^verbatim>\<open>init_request\<close> reads back, although the buffer holds the rest of a path name behind it, as long as the
  number has no fewer digits than the one it overwrites; a second daemon does not get the lock.
  (After the numbers wrap around to 1 the old digits stay in the file.)
\<close>

theorem jobno_file_roundtrip:
  assumes "1 \<le> sint (nextjob st)" "length (fdata (jobfile st)) \<le> length (sprint_int (sint (nextjob st)))"
  shows "\<exists>st1. update_jobno True [] st = Inr st1 \<and>
    (\<exists>st'. init_request True g st1 = Inr st' \<and> nextjob st' = nextjob st \<and>
      fdata (jobfile st') = sprint_int (sint (nextjob st)) \<and> pfiles st' = pfiles st \<and> jq st' = jq st)
    \<and> init_request False g st1 = Inl (Err_quit ''daemon already running'')"
proof -
  let ?d = "sprint_int (sint (nextjob st))"
  have d: "?d = dec (nat (sint (nextjob st)))" using assms(1) by (simp add: sprint_int_def)
  obtain st1 where u: "update_jobno True [] st = Inr st1" "fdata (jobfile st1) = ?d"
    using update_jobno_data [of st] assms(2) by auto
  have l: "length ?d \<le> 24" "is_cstr ?d" using length_sprint_sint [of "nextjob st"] d by simp_all
  have "of_int (atol (?d @ drop (length ?d) jobno_path)) = nextjob st"
    unfolding d atol_dec_path using assms(1) by simp
  then show ?thesis using init_request_reads [OF u(2) l, of g] d u
    by (simp add: update_jobno_fields [OF u(1)] init_request_def)
qed

theorem jobno_file_roundtrip_witness:
  "\<exists>st1 st'. update_jobno True [] (ex_state\<lparr>nextjob := 42\<rparr>) = Inr st1 \<and> init_request True ''xyz'' st1 = Inr st' \<and> nextjob st' = 42"
  using jobno_file_roundtrip [of "ex_state\<lparr>nextjob := 42\<rparr>" "''xyz''"] by (auto simp: ex_state_def)

section \<open>Rebuilding the queue\<close>

text \<open>
  What the spool directory holds: the entries that are no directories, the jobs whose
  control files are complete, and the names of those that are cut short.
\<close>

definition entry :: "string \<Rightarrow> bool" where
  "entry nm \<longleftrightarrow> nm \<noteq> ''.'' \<and> nm \<noteq> ''..''"

fun spool_jobs :: "(string \<Rightarrow> string option) \<Rightarrow> string list \<Rightarrow> (32 word \<times> printreq) list" where
  "spool_jobs fs [] = []"
| "spool_jobs fs (nm # nms) =
     (case fs (spool_path REQDIR nm) of
        Some d \<Rightarrow> if entry nm \<and> sizeof_printreq \<le> length d
                  then (of_int (atol nm), printreq_of (take sizeof_printreq d)) # spool_jobs fs nms else spool_jobs fs nms
      | None \<Rightarrow> spool_jobs fs nms)"

definition cut_short :: "(string \<Rightarrow> string option) \<Rightarrow> string \<Rightarrow> bool" where
  "cut_short fs nm \<longleftrightarrow> entry nm \<and> (case fs (spool_path REQDIR nm) of Some d \<Rightarrow> length d < sizeof_printreq | None \<Rightarrow> False)"

definition swept :: "(string \<Rightarrow> string option) \<Rightarrow> string list \<Rightarrow> string \<Rightarrow> string option" where
  "swept fs nms p = (if \<exists>nm \<in> set nms. cut_short fs nm \<and> (p = spool_path REQDIR nm \<or> p = spool_path DATADIR nm) then None else fs p)"

lemma spool_path_inj [simp]: "spool_path d a = spool_path d b \<longleftrightarrow> a = b"
  by (simp add: spool_path_def)

lemma spool_jobs_cong: "\<forall>nm \<in> set nms. fs (spool_path REQDIR nm) = fs' (spool_path REQDIR nm) \<Longrightarrow> spool_jobs fs nms = spool_jobs fs' nms"
  by (induction nms) (auto split: option.splits)

lemma swept_cong:
  assumes "\<forall>nm \<in> set nms. fs (spool_path REQDIR nm) = fs' (spool_path REQDIR nm)"
  shows "swept fs nms p = (if \<exists>nm \<in> set nms. cut_short fs' nm \<and> (p = spool_path REQDIR nm \<or> p = spool_path DATADIR nm) then None else fs p)"
  using assms by (auto simp: swept_def cut_short_def)

lemma build_qonstart_ok:
  assumes "queue_ok st xs" "distinct nms" "\<forall>nm \<in> set nms. length nm < 40"
  shows "\<exists>st' ys. build_qonstart nms st = Inr st' \<and> queue_ok st' (xs @ ys) \<and>
    queued st' (xs @ ys) = queued st xs @ spool_jobs (pfiles st) nms \<and> pfiles st' = swept (pfiles st) nms \<and>
    nextjob st' = nextjob st \<and> jobfile st' = jobfile st"
  using assms
proof (induction nms arbitrary: st xs)
  case Nil
  then show ?case by (intro exI [of _ st] exI [of _ "[]"]) (auto simp: swept_def)
next
  case (Cons nm nms)
  have fits: "\<not> FILENMSZ \<le> length (spool_path REQDIR nm)"
    using Cons.prems(3) by (simp add: FILENMSZ_def spool_path_def SPOOLDIR_def REQDIR_def)
  have ds: "distinct nms" "\<forall>n \<in> set nms. length n < 40" "nm \<notin> set nms" using Cons.prems by simp_all
  show ?case
  proof (cases "entry nm \<and> pfiles st (spool_path REQDIR nm) \<noteq> None")
    case False
    then have e: "build_qonstart (nm # nms) st = build_qonstart nms st" "spool_jobs (pfiles st) (nm # nms) = spool_jobs (pfiles st) nms"
        "\<not> cut_short (pfiles st) nm"
      using fits by (auto simp: entry_def cut_short_def split: option.splits)
    then have "swept (pfiles st) (nm # nms) = swept (pfiles st) nms" by (auto simp: swept_def fun_eq_iff)
    then show ?thesis using Cons.IH [OF Cons.prems(1) ds(1,2)] unfolding e by simp
  next
    case True
    then obtain d where d: "pfiles st (spool_path REQDIR nm) = Some d" "entry nm" by auto
    show ?thesis
    proof (cases "sizeof_printreq \<le> length d")
      case True
      let ?v = "(of_int (atol nm), printreq_of (take sizeof_printreq d))"
      have q: "dlist (jq st) xs" "pbrk st \<noteq> 0" "pbrk st \<notin> set xs" "\<forall>x \<in> set xs. x < pbrk st"
        using Cons.prems(1) by (auto simp: queue_ok_def)
      obtain q' where q': "add_job (jq st) (pbrk st) ?v = Inr q'" "dlist q' (xs @ [pbrk st])" "jdat q' = (jdat (jq st))(pbrk st := ?v)"
        using add_job_dlist [OF q(1-3), of ?v] by blast
      define st1 where "st1 = st\<lparr>jq := q', pbrk := pbrk st + 1\<rparr>"
      have ok: "queue_ok st1 (xs @ [pbrk st])" "queued st1 (xs @ [pbrk st]) = queued st xs @ [?v]"
        using q q'(2,3) by (auto simp: queue_ok_def queued_def st1_def)
      have e: "build_qonstart (nm # nms) st = build_qonstart nms st1" "spool_jobs (pfiles st) (nm # nms) = ?v # spool_jobs (pfiles st) nms"
        using fits d True q'(1) by (auto simp: entry_def st1_def Let_def)
      have sw: "swept (pfiles st) (nm # nms) = swept (pfiles st) nms"
        using d True by (auto simp: swept_def cut_short_def fun_eq_iff)
      have f: "pfiles st1 = pfiles st" "nextjob st1 = nextjob st" "jobfile st1 = jobfile st" by (simp_all add: st1_def)
      obtain st' ys where "build_qonstart nms st1 = Inr st'" "queue_ok st' ((xs @ [pbrk st]) @ ys)"
          "queued st' ((xs @ [pbrk st]) @ ys) = (queued st xs @ [?v]) @ spool_jobs (pfiles st) nms" "pfiles st' = swept (pfiles st) nms"
          "nextjob st' = nextjob st" "jobfile st' = jobfile st"
        using Cons.IH [OF ok(1) ds(1,2)] unfolding ok(2) f by blast
      then show ?thesis unfolding e sw by (intro exI [of _ st'] exI [of _ "pbrk st # ys"]) simp
    next
      case False
      define st1 where "st1 = unlink (spool_path DATADIR nm) (unlink (spool_path REQDIR nm) st)"
      have ok: "queue_ok st1 xs" "queued st1 xs = queued st xs" "nextjob st1 = nextjob st" "jobfile st1 = jobfile st"
        using Cons.prems(1) by (simp_all add: queue_ok_def queued_def st1_def unlink_def)
      have e: "build_qonstart (nm # nms) st = build_qonstart nms st1" "spool_jobs (pfiles st) (nm # nms) = spool_jobs (pfiles st) nms"
        using fits d False by (auto simp: entry_def st1_def Let_def)
      have same: "\<forall>n \<in> set nms. pfiles st1 (spool_path REQDIR n) = pfiles st (spool_path REQDIR n)"
        using ds(3) by (auto simp: st1_def unlink_def)
      have c: "cut_short (pfiles st) nm" using d False by (simp add: cut_short_def)
      have "swept (pfiles st1) nms = swept (pfiles st) (nm # nms)"
      proof
        fix p show "swept (pfiles st1) nms p = swept (pfiles st) (nm # nms) p"
          unfolding swept_cong [OF same] using c by (auto simp: swept_def st1_def unlink_def)
      qed
      then show ?thesis using Cons.IH [OF ok(1) ds(1,2)] spool_jobs_cong [OF same] unfolding e ok(2-4) by metis
    qed
  qed
qed

lemma spool_jobs_member:
  assumes "nm \<in> set nms" "nm = sprint_int (sint j)" "fs (req_name j) = Some (printreq_bytes req)" "req_ok req"
  shows "(j, req) \<in> set (spool_jobs fs nms)"
proof -
  have e: "entry nm"
    using assms(2) dec_isdigit [of _ "nat (sint j)"] dec_isdigit [of _ "nat (- sint j)"]
    by (auto simp: entry_def sprint_int_def isdigit_def split: if_splits dest!: arg_cong [where f = set])
  have l: "length (printreq_bytes req) = sizeof_printreq" using length_printreq_bytes [OF assms(4)] .
  have v: "(of_int (atol nm), printreq_of (take sizeof_printreq (printreq_bytes req))) = (j, req)"
    using assms(2,4) l by simp
  show ?thesis using assms(1)
  proof (induction nms)
    case (Cons n nms)
    show ?case
    proof (cases "n = nm")
      case True
      then show ?thesis using e l v assms(2,3) by (simp add: req_name_def)
    next
      case False
      then show ?thesis using Cons by (auto split: option.splits)
    qed
  qed simp
qed

text \<open>Everything that is in memory only is gone after a restart.\<close>

definition reboot :: "printd \<Rightarrow> printd" where
  "reboot st = st\<lparr>jq := (jq st)\<lparr>qhead := 0, qtail := 0\<rparr>, pbrk := 1, reread := False\<rparr>"

lemma queue_ok_reboot: "queue_ok (reboot st) []" "pfiles (reboot st) = pfiles st" "jobfile (reboot st) = jobfile st"
  by (simp_all add: queue_ok_def reboot_def dlist_def)

text \<open>
  Recovery. From any directory listing of distinct names that fit the name buffer,
  \<^verbatim>\<open>build_qonstart\<close> returns a well-formed queue that holds, behind what was there, the jobs with a complete
  control file, in the order of the directory; control files that are cut short are removed with their data,
  and no other file changes. In particular every job \<^verbatim>\<open>client_thread\<close> stored is queued again with its
  number and request.
\<close>

theorem restart_recovers_jobs:
  assumes "queue_ok st xs" "distinct nms" "\<forall>nm \<in> set nms. length nm < 40"
  shows "\<exists>st' ys. build_qonstart nms st = Inr st' \<and> queue_ok st' (xs @ ys) \<and>
    queued st' (xs @ ys) = queued st xs @ spool_jobs (pfiles st) nms \<and> pfiles st' = swept (pfiles st) nms \<and>
    (\<forall>j req. sprint_int (sint j) \<in> set nms \<longrightarrow> req_ok req \<longrightarrow> pfiles st (req_name j) = Some (printreq_bytes req) \<longrightarrow>
       (j, req) \<in> set (queued st' (xs @ ys)))"
  using build_qonstart_ok [OF assms] spool_jobs_member [OF _ refl, of _ nms "pfiles st"] by fastforce

theorem restart_recovers_jobs_witness:
  "\<exists>st' ys. build_qonstart [''.'', ''..'', ''7'', ''8''] (ex_state\<lparr>pfiles := [req_name 7 \<mapsto> printreq_bytes ex_req, spool_path REQDIR ''8'' \<mapsto> ''cut'']\<rparr>) = Inr st'
     \<and> (7, ex_req) \<in> set (queued st' ys)"
proof -
  let ?st = "ex_state\<lparr>pfiles := [req_name 7 \<mapsto> printreq_bytes ex_req, spool_path REQDIR ''8'' \<mapsto> ''cut'']\<rparr>"
  have q: "queue_ok ?st []" using ex_ok(3) by (simp add: queue_ok_def)
  have n: "sprint_int (sint (7 :: 32 word)) = ''7''" by code_simp
  then have f: "pfiles ?st (req_name 7) = Some (printreq_bytes ex_req)" by (simp add: req_name_def)
  show ?thesis
  proof -
    have d: "distinct [''.'', ''..'', ''7'', ''8'']" "\<forall>nm \<in> set [''.'', ''..'', ''7'', ''8'']. length nm < 40" by simp_all
    have m: "sprint_int (sint (7 :: 32 word)) \<in> set [''.'', ''..'', ''7'', ''8'']" unfolding n by simp
    from restart_recovers_jobs [OF q d] m f ex_ok(4) show ?thesis by blast
  qed
qed

text \<open>
  A job number given twice. The number file is written only when the printer thread picks a
  job up. When the daemon stops before that, a job it has accepted is queued again at the next
  start, but the first client then gets the same number, and its data replaces
  the data of the job that is waiting.
\<close>

theorem restart_reuses_number:
  assumes "init_request True g0 st0 = Inr st" "length (fdata (jobfile st0)) \<le> 24" "is_cstr (fdata (jobfile st0))"
    and "queue_ok st xs" "disk_ok env" "tavail sock1 = printreq_bytes h1 @ c1" "req_ok h1" "tavail sock2 = printreq_bytes h2 @ c2" "req_ok h2"
    and "distinct nms" "\<forall>nm \<in> set nms. length nm < 40" "sprint_int (sint (nextjob st)) \<in> set nms"
  shows "\<exists>res1 st1 st2 st3 ys req1 res2 st4. client_body se env sock1 st = Inr (res1, st1) \<and> pfiles st1 (data_name (nextjob st)) = Some c1 \<and>
    init_request True g (reboot st1) = Inr st2 \<and> build_qonstart nms st2 = Inr st3 \<and> (nextjob st, req1) \<in> set (queued st3 ys) \<and>
    client_body se env sock2 st3 = Inr (res2, st4) \<and> rjobid res2 = rjobid res1 \<and> pfiles st4 (data_name (nextjob st)) = Some c2"
proof -
  let ?j = "nextjob st"
  obtain c st1 where r1: "let f = ntohl (rflags h1); req = (host_req h1)\<lparr>rflags := if c1 = [] then f else ps_flags c (c_buf env) f\<rparr>
     in client_body se env sock1 st = Inr (accept_resp (c_msg env) ?j, st1) \<and>
        pfiles st1 = (pfiles st)(data_name ?j := Some c1, req_name ?j := Some (printreq_bytes req)) \<and>
        queue_ok st1 (xs @ [pbrk st]) \<and> queued st1 (xs @ [pbrk st]) = queued st xs @ [(?j, req)] \<and>
        nextjob st1 = nextjob (snd (get_newjobno st)) \<and> jobfile st1 = jobfile st \<and> pw st1 = pw st"
    using client_body_accepts [OF assms(6,7,5,4), of se] by blast
  define req1 where "req1 = (host_req h1)\<lparr>rflags := if c1 = [] then ntohl (rflags h1) else ps_flags c (c_buf env) (ntohl (rflags h1))\<rparr>"
  have ok1: "req_ok req1" using assms(7) by (simp add: req1_def)
  have p1: "pfiles st1 (data_name ?j) = Some c1" "pfiles st1 (req_name ?j) = Some (printreq_bytes req1)"
      "client_body se env sock1 st = Inr (accept_resp (c_msg env) ?j, st1)" "jobfile st1 = jobfile st"
    using r1 by (simp_all add: Let_def req1_def)
  note i0 = init_request_reads [OF refl assms(2,3), of g0]
  have jf: "fdata (jobfile st1) = fdata (jobfile st0)" "?j = (if fdata (jobfile st0) = [] then 1 else of_int (atol (fdata (jobfile st0) @ drop (length (fdata (jobfile st0))) jobno_path)))"
    using i0 assms(1) p1(4) by auto
  have d1: "fdata (jobfile (reboot st1)) = fdata (jobfile st0)" by (simp add: queue_ok_reboot jf)
  obtain st2 where st2: "init_request True g (reboot st1) = Inr st2" "nextjob st2 = ?j" "pfiles st2 = pfiles st1" "queue_ok st2 []"
    using init_request_reads [OF d1 assms(2,3), of g] jf(2) queue_ok_reboot(1) [of st1] by (simp add: queue_ok_reboot queue_ok_def)
  obtain st3 ys where st3: "build_qonstart nms st2 = Inr st3" "queue_ok st3 ys" "queued st3 ys = queued st2 [] @ spool_jobs (pfiles st2) nms" "nextjob st3 = nextjob st2"
    using build_qonstart_ok [OF st2(4) assms(10,11)] by auto
  have m: "(?j, req1) \<in> set (queued st3 ys)"
    using spool_jobs_member [OF assms(12) refl, of "pfiles st2" req1] p1(2) ok1 st2(3) st3(3) by simp
  obtain st4 where "client_body se env sock2 st3 = Inr (accept_resp (c_msg env) (nextjob st3), st4)" "pfiles st4 (data_name (nextjob st3)) = Some c2"
    using client_body_accepts [OF assms(8,9,5) st3(2), of se] by (auto simp: Let_def)
  note b2 = this [unfolded st3(4) st2(2)]
  show ?thesis
    by (intro exI conjI, rule p1(3), rule p1(1), rule st2(1), rule st3(1), rule m, rule b2(1), rule refl, rule b2(2))
qed

theorem restart_reuses_number_witness:
  "\<exists>res1 st1 st2 st3 res2 st4. client_body (\<lambda>_. []) ex_env [RData (printreq_bytes ex_req @ ''one''), REof] ex_state = Inr (res1, st1)
     \<and> pfiles st1 (data_name 1) = Some ''one'' \<and> init_request True [] (reboot st1) = Inr st2 \<and> build_qonstart [''1''] st2 = Inr st3
     \<and> client_body (\<lambda>_. []) ex_env [RData (printreq_bytes ex_req @ ''two''), REof] st3 = Inr (res2, st4) \<and> pfiles st4 (data_name 1) = Some ''two''"
proof -
  have i: "init_request True [] ex_state = Inr ex_state"
    by (simp add: init_request_def ex_state_def fread_def)
  have n: "sprint_int (sint (1 :: 32 word)) = ''1''" by code_simp
  have t: "tavail [RData (printreq_bytes ex_req @ s), REof] = printreq_bytes ex_req @ s" for s
    by (simp add: printreq_bytes_def mem32_def)
  have f: "length (fdata (jobfile ex_state)) \<le> 24" "is_cstr (fdata (jobfile ex_state))" by (simp_all add: ex_state_def)
  have m: "distinct [''1'']" "\<forall>nm \<in> set [''1'']. length nm < 40" "sprint_int (sint (nextjob ex_state)) \<in> set [''1'']"
    using n by (simp_all add: ex_ok(5))
  show ?thesis
    using restart_reuses_number [OF i f ex_ok(3,1) t ex_ok(4) t ex_ok(4) m, of "\<lambda>_. []" "''one''" "[]" "''two''"]
    unfolding ex_ok(5) by blast
qed

end
