(* ===== verification/Print_Rounds.thy ===== *)
theory Print_Rounds
  imports Print_Recovery
begin

text \<open>
  The thread that talks to the printer: what one round does to the queue and the spool
  directory, what it sends, and that a round in which nothing fails prints the first job.
\<close>

section \<open>What is sent\<close>

definition text_mark :: "printreq \<Rightarrow> string" where
  "text_mark req = (if and (rflags req) PR_TEXT \<noteq> 0 then [CHR 0x08] else [])"

definition job_body :: "string \<Rightarrow> 32 word \<Rightarrow> printreq \<Rightarrow> string \<Rightarrow> string" where
  "job_body pname jobid req d = ipp_bytes jobid (job_uri pname) req @ text_mark req @ d"

lemma copy_loop_true: "copy_loop inp w out = (True, out', w') \<Longrightarrow> out' = out @ avail inp"
proof (induction "rdev_size inp" arbitrary: inp w out rule: less_induct)
  case less
  show ?case
  proof (cases "avail inp = []")
    case True
    then obtain inp' where "sys_read IOBUFSZ inp = (if fails inp then None else Some [], inp')" using rdn.end_law by blast
    then show ?thesis using less.prems True by (simp add: copy_loop.simps [of inp] split: if_splits)
  next
    case False
    then obtain b inp' where b: "sys_read IOBUFSZ inp = (Some b, inp')" "b \<noteq> []" "avail inp = b @ avail inp'"
      using rdn.data_law [of IOBUFSZ inp] by (auto simp: IOBUFSZ_def)
    obtain k o' w1 where w1: "writen b w = (Some k, o', w1)" "k = length b" "copy_loop inp' w1 (out @ o') = (True, out', w')"
      using less.prems b(1,2) by (auto simp: copy_loop.simps [of inp] split: prod.splits option.splits if_splits)
    have "o' = b" using writen_prefix [OF w1(1)] w1(2) by simp
    then show ?thesis using less.hyps [OF sys_read_less [OF b(1,2)] w1(3)] b(3) by simp
  qed
qed


lemma copy_loop_send_loop: "copy_loop inp w out = (case send_loop inp w out of (r, out', w') \<Rightarrow> (r = Sent, out', w'))"
proof (induction inp w out rule: send_loop.induct)
  case (1 inp w out)
  then show ?case
    by (subst copy_loop.simps, subst send_loop.simps) (auto split: prod.splits option.splits)
qed

text \<open>A loop that ends well has read the whole file, and one that nothing disturbs ends well.\<close>

lemma copy_loop_piece:
  assumes "s \<noteq> []" "copy_loop (RData s # rest) w out = (True, out', w')"
  shows "\<exists>w1. copy_loop rest w1 (out @ s) = (True, out', w')"
  using assms
proof (induction "length s" arbitrary: s w out rule: less_induct)
  case less
  show ?case
  proof (cases "length s \<le> IOBUFSZ")
    case True
    then obtain k o' w1 where w1: "writen s w = (Some k, o', w1)" "k = length s" "copy_loop rest w1 (out @ o') = (True, out', w')"
      using less.prems by (auto simp: copy_loop.simps [of "RData s # rest"] split: prod.splits option.splits if_splits)
    then show ?thesis using writen_prefix [OF w1(1)] by auto
  next
    case False
    let ?b = "take IOBUFSZ s" and ?r = "drop IOBUFSZ s"
    have ne: "?b \<noteq> []" "?r \<noteq> []" "length ?r < length s" using False less.prems(1) by (auto simp: IOBUFSZ_def)
    obtain k o' w1 where w1: "writen ?b w = (Some k, o', w1)" "k = length ?b" "copy_loop (RData ?r # rest) w1 (out @ o') = (True, out', w')"
      using less.prems(2) False ne(1) by (auto simp: copy_loop.simps [of "RData s # rest"] split: prod.splits option.splits if_splits)
    have "o' = ?b" using writen_prefix [OF w1(1)] w1(2) by (metis take_all order_refl)
    then show ?thesis using less.hyps [OF ne(3,2) w1(3)] by simp
  qed
qed

lemma copy_loop_whole: "copy_loop (file_reads cs d) w out = (True, out', w') \<Longrightarrow> out' = out @ d"
proof (induction cs d arbitrary: w out rule: file_reads.induct)
  case (1 d)
  then show ?case using copy_loop_true [of "[RData d]"] by fastforce
next
  case (2 e cs d)
  then show ?case by (simp add: copy_loop.simps)
next
  case (3 k cs d)
  show ?case
  proof (cases "d = []")
    case True
    then show ?thesis using 3 by (simp add: copy_loop.simps [of "RData [] # inp" for inp])
  next
    case False
    then have "take (Suc k) d \<noteq> []" by simp
    from copy_loop_piece [OF this 3(2) [unfolded file_reads.simps]]
    obtain w1 where "copy_loop (file_reads cs (drop (Suc k) d)) w1 (out @ take (Suc k) d) = (True, out', w')" ..
    then show ?thesis using "3.IH" by fastforce
  qed
qed

lemma copy_loop_copies:
  assumes "takes_all w" "\<forall>e. Inl e \<notin> set cs"
  shows "\<exists>w'. copy_loop (file_reads cs d) w out = (True, out @ d, w')"
proof -
  have "\<exists>w'. copy_loop inp w out = (True, out @ avail inp, w')" if "takes_all w" "\<forall>e \<in> set inp. \<exists>s. e = RData s" for inp w out
    using that
  proof (induction "rdev_size inp" arbitrary: inp w out rule: less_induct)
    case less
    show ?case
    proof (cases "avail inp = []")
      case True
      have "\<not> fails inp" using less.prems(2) by (cases inp) auto
      then obtain inp' where "sys_read IOBUFSZ inp = (Some [], inp')" using rdn.end_law [OF True] by metis
      then show ?thesis using True by (simp add: copy_loop.simps [of inp])
    next
      case False
      then obtain b inp' where b: "sys_read IOBUFSZ inp = (Some b, inp')" "b \<noteq> []" "avail inp = b @ avail inp'"
        using rdn.data_law [of IOBUFSZ inp] by (auto simp: IOBUFSZ_def)
      obtain w1 where w1: "writen b w = (Some (length b), b, w1)" "takes_all w1" using writen_takes_all [OF less.prems(1)] by blast
      have "\<forall>e \<in> set inp'. \<exists>s. e = RData s" using b(1) less.prems(2) by (cases inp) (auto split: if_splits)
      from less.hyps [OF sys_read_less [OF b(1,2)] w1(2) this, of "out @ b"] show ?thesis
        using b w1(1) by (simp add: copy_loop.simps [of inp])
    qed
  qed
  moreover have "\<forall>e \<in> set (file_reads cs d). \<exists>s. e = RData s" using assms(2) by (induction cs d rule: file_reads.induct) auto
  moreover have "avail (file_reads cs d) = d" using assms(2) by (induction cs d rule: file_reads.induct) auto
  ultimately show ?thesis using assms(1) by metis
qed

text \<open>The buffers of the thread and the length of the printer's name.\<close>

definition bufs_ok :: "penv \<Rightarrow> string \<Rightarrow> bool" where
  "bufs_ok env pname \<longleftrightarrow> length (p_ibuf env) = IBUFSZ \<and> length (p_hbuf env) = HBUFSZ \<and> length pname \<le> 52"

text \<open>All that the printer gets for a job: the HTTP header and the body whose length it announces.\<close>

definition printed_bytes :: "string \<Rightarrow> 32 word \<Rightarrow> printreq \<Rightarrow> string \<Rightarrow> string" where
  "printed_bytes pname jobid req d = http_text pname (length (job_body pname jobid req d)) @ job_body pname jobid req d"

text \<open>When a job has been sent, this went out, and nothing else.\<close>

lemma send_job_sent:
  assumes "send_job n env pname jobid req d = Inr (True, out)"
  shows "out = printed_bytes pname jobid req d"
proof -
  let ?i = "ipp_bytes jobid (job_uri pname) req" and ?x = "text_mark req"
  obtain ibuf ilen where i: "ipp_request (p_ibuf env) pname jobid req = Inr (ibuf, ilen)"
    using assms by (auto simp: send_job_def bnd_eq_Inr_iff)
  note ir = ipp_request_result [OF i]
  let ?n = "length d + ilen + length ?x"
  obtain hbuf hlen where h: "http_header (p_hbuf env) pname ?n = Inr (hbuf, hlen)"
    using assms i by (auto simp: send_job_def bnd_eq_Inr_iff Let_def text_mark_def split: if_splits)
  note hr = http_header_result [OF h]
  have "\<exists>w'. copy_loop (file_reads (p_cuts env) d) (p_sock env) ((http_text pname ?n @ ?i) @ ?x) = (True, out, w')"
    using assms i h ir hr unfolding send_job_def
    by (cases "and (rflags req) PR_TEXT = 0")
      (auto simp: Let_def text_mark_def bnd_eq_Inr_iff split: if_splits prod.splits bool.splits)
  then have "out = ((http_text pname ?n @ ?i) @ ?x) @ d" using copy_loop_whole by blast
  moreover have "length (job_body pname jobid req d) = ?n" using ir by (simp add: job_body_def)
  ultimately show ?thesis unfolding printed_bytes_def by (simp only: job_body_def append_assoc)
qed

lemma send_job_works:
  assumes "bufs_ok env pname" "names_end req" "length (ipp_bytes jobid (job_uri pname) req) \<le> IBUFSZ" "length d < 10 ^ 19"
    and "p_writev env" "p_write1 env" "takes_all (p_sock env)" "\<forall>e. Inl e \<notin> set (p_cuts env)"
    and "printer_status n (p_g env) (p_bp env) (p_reply env) jobid = Inr ok"
  shows "\<exists>out. send_job n env pname jobid req d = Inr (ok, out)"
proof -
  have b: "length (p_ibuf env) = IBUFSZ" "length (p_hbuf env) = HBUFSZ" "length pname \<le> 52"
    using assms(1) by (simp_all add: bufs_ok_def)
  let ?i = "length (ipp_bytes jobid (job_uri pname) req)" and ?x = "if and (rflags req) PR_TEXT \<noteq> 0 then 1 else 0"
  obtain ibuf where i: "ipp_request (p_ibuf env) pname jobid req = Inr (ibuf, ?i)"
    using ipp_request_buf [OF b(1,3), of req jobid] assms(2,3) by auto
  have "length d + ?i + ?x < 10 ^ 20" using assms(3,4) by (simp add: IBUFSZ_def)
  then obtain hbuf hl where h: "http_header (p_hbuf env) pname (length d + ?i + ?x) = Inr (hbuf, hl)"
    using http_header_ok [OF http_text_length [OF b(3)] b(2)] by blast
  have c: "\<exists>w' o'. copy_loop (file_reads (p_cuts env) d) (p_sock env) out = (True, o', w')" for out
    using copy_loop_copies [OF assms(7,8)] by blast
  obtain w' o' where co: "copy_loop (file_reads (p_cuts env) d) (p_sock env) ((take hl hbuf @ take ?i ibuf) @ text_mark req) = (True, o', w')"
    using c by blast
  show ?thesis using i h co assms(5,6,9)
    by (cases "and (rflags req) PR_TEXT = 0") (auto simp: send_job_def Let_def text_mark_def)
qed

section \<open>One round\<close>

lemma pop_job:
  assumes "queue_ok st (x # xs)"
  shows "\<exists>q1. remove_job (jq st) (qhead (jq st)) = Inr q1 \<and> qhead (jq st) = x \<and> dlist q1 xs \<and> jdat q1 = jdat (jq st) \<and>
    (\<forall>y \<in> set xs. y < pbrk st) \<and> pbrk st \<noteq> 0 \<and> x \<noteq> 0 \<and> x \<notin> set xs \<and> x < pbrk st"
proof -
  have d: "dlist (jq st) (x # xs)" using assms by (simp add: queue_ok_def)
  then have h: "qhead (jq st) = x" "x \<noteq> 0" "x \<notin> set xs" by (auto simp: dlist_def)
  obtain q1 where "remove_job (jq st) x = Inr q1" "dlist q1 xs" "jdat q1 = jdat (jq st)"
    using remove_job_dlist [OF d, of x] by auto
  then show ?thesis using h assms by (auto simp: queue_ok_def)
qed

lemma queued_cong: "jdat (jq st') = jdat (jq st) \<Longrightarrow> queued st' ys = queued st ys"
  by (simp add: queued_def)

section \<open>Properties of printing\<close>

text \<open>
  C35: What a round of the printer thread can do to a job, whatever the calls it makes meet. When the round returns, the
  queue is well-formed, the other jobs keep their order, the number file is as \<^verbatim>\<open>update_jobno\<close> left it, and the job
  was printed, and then the printer has got exactly the headers and the contents of its data file, the job has left the queue and both its
  files are removed; or deferred, and then it is the first of the queue again with its files untouched; or cancelled, because its data
  cannot be opened or examined, and then it has left the queue, its control file stays; or the daemon exits, because the configuration it
  reads again has no printer, and then the files stay for the next start. A round fails to return only when the number file cannot be
  updated (the daemon ends, with all files untouched), or in talking to the printer about the stored data.
\<close>

theorem printer_round_outcomes:
  assumes "queue_ok st (x # xs)" "jdat (jq st) x = (j, req)"
  shows "case printer_round n env st of
      Inl f \<Rightarrow> update_jobno (p_seek env) (p_jobw env) st = Inl f \<or>
        (\<exists>d pn. pfiles st (data_name j) = Some d \<and> send_job n env pn j req d = Inl f)
    | Inr (r, out, st') \<Rightarrow>
        (\<exists>st1. update_jobno (p_seek env) (p_jobw env) st = Inr st1 \<and> jobfile st' = jobfile st1) \<and> nextjob st' = nextjob st \<and>
        queue_ok st' (case r of Deferred \<Rightarrow> x # xs | _ \<Rightarrow> xs) \<and> queued st' xs = queued st xs \<and>
        (case r of
           Printed \<Rightarrow> (\<exists>d pn. pfiles st (data_name j) = Some d \<and> out = printed_bytes pn j req d) \<and>
             pfiles st' = (pfiles st)(data_name j := None, req_name j := None)
         | Deferred \<Rightarrow> jdat (jq st') x = (j, req) \<and> pfiles st (data_name j) \<noteq> None \<and> pfiles st' = pfiles st
         | Canceled \<Rightarrow> (pfiles st (data_name j) = None \<or> \<not> p_open env \<or> \<not> p_fstat env) \<and> pfiles st' = pfiles st
         | Exited \<Rightarrow> reread st \<and> init_printer (p_addr env) = None \<and> pfiles st' = pfiles st)"
proof -
  obtain q1 where q1: "remove_job (jq st) (qhead (jq st)) = Inr q1" "qhead (jq st) = x" "dlist q1 xs" "jdat q1 = jdat (jq st)"
      "\<forall>y \<in> set xs. y < pbrk st" "pbrk st \<noteq> 0" "x \<noteq> 0" "x \<notin> set xs" "x < pbrk st"
    using pop_job [OF assms(1)] by blast
  obtain q2 where q2: "replace_job q1 x = Inr q2" "dlist q2 (x # xs)" "jdat q2 = jdat q1"
    using replace_job_dlist [OF q1(3,7,8)] by blast
  show ?thesis
  proof (cases "update_jobno (p_seek env) (p_jobw env) st")
    case (Inl f)
    then show ?thesis using q1(1) by (simp add: printer_round_def Let_def update_jobno_queue split: prod.split)
  next
    case (Inr st1)
    note u = update_jobno_fields [OF Inr]
    let ?st2 = "\<lambda>nm. st1\<lparr>jq := q1, reread := False, printer_name := nm\<rparr>"
    have ok: "queue_ok s xs" "queued s xs = queued st xs" if "jq s = q1" "pbrk s = pbrk st" for s
      using that q1 by (simp_all add: queue_ok_def queued_def)
    have def: "queue_ok s (x # xs)" "queued s xs = queued st xs" if "jq s = q2" "pbrk s = pbrk st" for s
      using that q1 q2(2,3) by (auto simp: queue_ok_def queued_def)
    show ?thesis
      using q1(1,2,4) q2(1,3) assms(2) u Inr ok def unfolding printer_round_def
      by (auto dest!: send_job_sent simp: Let_def unlink_def update_jobno_queue bnd_def split: option.split if_split prod.split sum.split)
  qed
qed

definition ex_penv :: penv where
  "ex_penv = \<lparr>p_seek = True, p_jobw = [], p_addr = None, p_open = True, p_fstat = True, p_connect = True, p_writev = True, p_write1 = True,
     p_cuts = [Inr 0], p_sock = [WTake 3], p_reply = [RData (http_reply ''HTTP/1.1'' 200 ''OK'' [] 8 [] [CHR 0x01, CHR 0x01, NUL, NUL, NUL, NUL, NUL, CHR 0x07])],
     p_hbuf = replicate 512 NUL, p_ibuf = replicate 512 NUL, p_bp = replicate 8192 NUL, p_g = []\<rparr>"

definition ex_queue :: printd where
  "ex_queue = ex_state\<lparr>pfiles := [data_name 7 \<mapsto> ''hi'', req_name 7 \<mapsto> printreq_bytes ex_req], pbrk := 2,
     jq := (jq ex_state)\<lparr>jdat := (\<lambda>_. (7, ex_req)), qhead := 1, qtail := 1\<rparr>\<rparr>"

lemma ex_queue_ok: "queue_ok ex_queue [1]" "jdat (jq ex_queue) 1 = (7, ex_req)" "pfiles ex_queue (data_name 7) = Some ''hi''" "\<not> reread ex_queue"
    "printer_name ex_queue = ''lj4''"
  by (simp_all add: ex_queue_def ex_state_def queue_ok_def dlist_def)

theorem printer_round_outcomes_witness:
  "\<exists>out st'. printer_round 5 (ex_penv\<lparr>p_connect := False\<rparr>) ex_queue = Inr (Deferred, out, st') \<and> queue_ok st' [1] \<and> jdat (jq st') 1 = (7, ex_req)"
proof -
  obtain q1 where q1: "remove_job (jq ex_queue) (qhead (jq ex_queue)) = Inr q1" "qhead (jq ex_queue) = 1" "dlist q1 []"
    using pop_job [OF ex_queue_ok(1)] by blast
  obtain q2 where q2: "replace_job q1 1 = Inr q2" using replace_job_dlist [OF q1(3), of 1] by auto
  obtain st1 where u: "update_jobno True [] ex_queue = Inr st1" using update_jobno_data [of ex_queue] by blast
  obtain st' where e: "printer_round 5 (ex_penv\<lparr>p_connect := False\<rparr>) ex_queue = Inr (Deferred, [], st')"
    using q1(1,2) q2 ex_queue_ok u by (simp add: printer_round_def Let_def update_jobno_queue update_jobno_fields [OF u] ex_penv_def)
  show ?thesis using printer_round_outcomes [OF ex_queue_ok(1,2), where n = 5 and env = "ex_penv\<lparr>p_connect := False\<rparr>"] e by auto
qed

text \<open>
  C36: A job gets printed. When the number file can be updated, the data file and the printer can be opened, the names of the request
  end within their fields and fit the buffers, no read of the file fails, everything is
  written, however reads and writes are cut up, and the printer answers in one piece that the job is accepted, a
  round returns, the printer has received the HTTP header with the exact length of what follows, the
  IPP request, the mark of a text file and the whole file, and the job and its files are gone.
\<close>

theorem printer_round_prints:
  assumes "queue_ok st (x # xs)" "jdat (jq st) x = (j, req)" "pfiles st (data_name j) = Some d" "\<not> reread st"
    and "p_seek env" "\<not> write_fails (p_jobw env)"
    and "p_open env" "p_fstat env" "p_connect env" "p_writev env" "p_write1 env"
    and "bufs_ok env (printer_name st)" "length d < 10 ^ 19"
    and "NUL \<in> set (usernm req)" "NUL \<in> set (jobnm req)"
    and "160 + length (doc_format (rflags req)) + length (printer_name st) + length (cstr (usernm req)) + length (cstr (jobnm req)) \<le> IBUFSZ"
    and "takes_all (p_sock env)" "\<forall>e. Inl e \<notin> set (p_cuts env)"
    and "p_reply env = RData (http_reply ver code reason pre len hdrs body) # rest" "reply_ok ver reason pre len hdrs body"
    and "8 \<le> length body" "len \<le> length body" "length pre + 2 \<le> n" "length (p_bp env) = IOBUFSZ"
    and "length (http_reply ver code reason pre len hdrs body) < IOBUFSZ" "HTTP_SUCCESS (int code)" "body_ok body j"
  shows "\<exists>b st'. printer_round n env st = Inr (Printed, http_text (printer_name st) (length b) @ b, st') \<and>
    b = ipp_bytes j (job_uri (printer_name st)) req @ text_mark req @ d \<and>
    queue_ok st' xs \<and> queued st' xs = queued st xs \<and> pfiles st' (data_name j) = None \<and> pfiles st' (req_name j) = None"
proof -
  let ?pn = "printer_name st"
  have fit: "length (ipp_bytes j (job_uri ?pn) req) \<le> IBUFSZ" using assms(16) unfolding length_ipp_bytes by (simp add: add.assoc)
  have ne: "names_end req" using assms(14,15) by (simp add: names_end_def)
  have info: "\<not> HTTP_INFO (int code)" using assms(26) by (simp add: HTTP_INFO_def HTTP_SUCCESS_def)
  have ps: "printer_status n (p_g env) (p_bp env) (p_reply env) j = Inr True"
    using printer_status_answer [OF assms(20-25) info] assms(19,26,27) by simp
  obtain out where s: "send_job n env ?pn j req d = Inr (True, out)"
    using send_job_works [OF assms(12) ne fit assms(13,10,11,17,18) ps] by blast
  have out: "out = printed_bytes ?pn j req d" using send_job_sent [OF s] .
  obtain q1 where q1: "remove_job (jq st) (qhead (jq st)) = Inr q1" "qhead (jq st) = x" "dlist q1 xs" "jdat q1 = jdat (jq st)"
      "\<forall>y \<in> set xs. y < pbrk st" "pbrk st \<noteq> 0"
    using pop_job [OF assms(1)] by blast
  obtain st1 where u: "update_jobno (p_seek env) (p_jobw env) st = Inr st1"
    using update_jobno_cases [of "p_seek env" "p_jobw env" st] assms(5,6) by auto
  note uf = update_jobno_fields [OF u]
  define st' where "st' = unlink (req_name j) (unlink (data_name j) (st1\<lparr>jq := q1\<rparr>))"
  have r: "printer_round n env st = Inr (Printed, out, st')"
    using q1(1,2) assms(2-4,7-9) s u uf by (simp add: printer_round_def Let_def update_jobno_queue st'_def)
  have "queue_ok st' xs" "queued st' xs = queued st xs"
    using q1 uf by (simp_all add: queue_ok_def queued_def st'_def unlink_def)
  then show ?thesis using r out
    by (intro exI [of _ "job_body ?pn j req d"] exI [of _ st']) (simp add: job_body_def printed_bytes_def st'_def unlink_def)
qed

theorem printer_round_prints_witness:
  "\<exists>b st'. printer_round 2 ex_penv ex_queue = Inr (Printed, http_text ''lj4'' (length b) @ b, st') \<and> queue_ok st' [] \<and> pfiles st' (data_name 7) = None"
proof -
  let ?body = "[CHR 0x01, CHR 0x01, NUL, NUL, NUL, NUL, NUL, CHR 0x07]"
  have r: "reply_ok ''HTTP/1.1'' ''OK'' [] 8 [] ?body"
    by (simp add: reply_ok_def no_clen_Cons CLEN_def tolower_def) (simp add: no_clen_def no_eoh_def)
  have l: "length (http_reply ''HTTP/1.1'' 200 ''OK'' [] 8 [] ?body) < IOBUFSZ"
    by (simp add: http_reply_def CLEN_def IOBUFSZ_def dec.simps)
  have b: "body_ok ?body 7" "HTTP_SUCCESS (int 200)" by (simp_all add: body_ok_def get32_def HTTP_SUCCESS_def)
  have c: "cstr (usernm ex_req) = []" "cstr (jobnm ex_req) = []" "NUL \<in> set (usernm ex_req)" "NUL \<in> set (jobnm ex_req)"
    by (simp_all add: ex_req_def cstr_def)
  have e: "p_seek ex_penv" "\<not> write_fails (p_jobw ex_penv)"
      "p_open ex_penv" "p_fstat ex_penv" "p_connect ex_penv" "p_writev ex_penv" "p_write1 ex_penv" "bufs_ok ex_penv (printer_name ex_queue)"
      "takes_all (p_sock ex_penv)" "\<forall>e. Inl e \<notin> set (p_cuts ex_penv)"
      "p_reply ex_penv = RData (http_reply ''HTTP/1.1'' 200 ''OK'' [] 8 [] ?body) # []" "length (p_bp ex_penv) = IOBUFSZ"
    by (simp_all add: ex_penv_def bufs_ok_def ex_queue_ok(5) takes_all_def IBUFSZ_def HBUFSZ_def IOBUFSZ_def)
  have f: "length ''hi'' < 10 ^ 19" "160 + length (doc_format (rflags ex_req)) + length (printer_name ex_queue) + length (cstr (usernm ex_req)) + length (cstr (jobnm ex_req)) \<le> IBUFSZ"
    by (simp_all add: c doc_format_def ex_queue_ok(5) IBUFSZ_def)
  have z: "8 \<le> length ?body" "length ([] :: string) + 2 \<le> 2" by simp_all
  show ?thesis
    using printer_round_prints [OF ex_queue_ok(1-4) e(1-8) f(1) c(3,4) f(2) e(9-11) r z(1) z(1) z(2) e(12) l b(2,1)] unfolding ex_queue_ok(5) by blast
qed

end
