(* ===== verification/Foo_Objects.thy ===== *)
theory Foo_Objects
  imports Prelude
begin

text \<open>
  Objects with a reference count (\<^verbatim>\<open>threads/mutex1.c\<close>, \<^verbatim>\<open>mutex2.c\<close>, \<^verbatim>\<open>mutex3.c\<close>): a count and a
  lock per object; the same with a hash table of objects and a second lock; the same with one
  lock for table and counts. The objects are an explicit store that knows what is
  allocated. A stretch of code between taking a lock and releasing it is one step, because
  the data it works on is protected by that lock. A count is a C \<^verbatim>\<open>int\<close>: adding beyond its range has no
  defined result.
\<close>

section \<open>The store\<close>

definition NHASH :: nat where "NHASH = 29"

text \<open>\<^verbatim>\<open>((unsigned long)id)%NHASH\<close>, with 64-bit \<^verbatim>\<open>long\<close>.\<close>

definition HASH :: "int \<Rightarrow> nat" where
  "HASH oid = nat (oid mod 2 ^ 64) mod NHASH"

record foos =
  fcount :: "nat \<Rightarrow> int"
  fid :: "nat \<Rightarrow> int"
  fnext :: "nat \<Rightarrow> nat"
  falive :: "nat \<Rightarrow> bool"
  fh :: "nat \<Rightarrow> nat"

definition fder :: "foos \<Rightarrow> nat \<Rightarrow> unit res" where
  "fder s a = (if a = 0 \<or> \<not> falive s a then Inl (Undefined ''freed object'') else Inr ())"

definition set_count :: "nat \<Rightarrow> int \<Rightarrow> foos \<Rightarrow> foos" where
  "set_count x c s = s\<lparr>fcount := (fcount s)(x := c)\<rparr>"

text \<open>\<^verbatim>\<open>f_count\<close> is an \<^verbatim>\<open>int\<close>: what leaves its range is not defined.\<close>

definition INT_MAX :: nat where "INT_MAX = 2147483647"

definition add_count :: "nat \<Rightarrow> int \<Rightarrow> foos \<Rightarrow> foos res" where
  "add_count x d s =
     (let c = fcount s x + d
      in if c < - int INT_MAX - 1 \<or> int INT_MAX < c then Inl (Undefined ''overflow of f_count'') else Inr (set_count x c s))"

definition foo_free :: "nat \<Rightarrow> foos \<Rightarrow> foos" where
  "foo_free x s = s\<lparr>falive := (falive s)(x := False)\<rparr>"

section \<open>mutex1.c\<close>

text \<open>\<open>m\<close> is what \<^verbatim>\<open>malloc\<close> returned, \<open>ok\<close> whether the lock could be initialised.\<close>

definition foo_alloc1 :: "foos \<Rightarrow> nat option \<Rightarrow> bool \<Rightarrow> int \<Rightarrow> nat \<times> foos" where
  "foo_alloc1 s m ok oid =
     (case m of None \<Rightarrow> (0, s)
      | Some fp \<Rightarrow>
          if ok then (fp, s\<lparr>falive := (falive s)(fp := True), fcount := (fcount s)(fp := 1), fid := (fid s)(fp := oid)\<rparr>)
          else (0, s))"

definition foo_hold :: "foos \<Rightarrow> nat \<Rightarrow> foos res" where
  "foo_hold s fp = bnd (fder s fp) (\<lambda>_. add_count fp 1 s)"

definition foo_rele1 :: "foos \<Rightarrow> nat \<Rightarrow> foos res" where
  "foo_rele1 s fp = bnd (fder s fp) (\<lambda>_. bnd (add_count fp (- 1) s) (\<lambda>s1.
     if fcount s1 fp = 0 then Inr (foo_free fp s1) else Inr s1))"

section \<open>mutex2.c: a hash table\<close>

definition foo_alloc2 :: "foos \<Rightarrow> nat option \<Rightarrow> bool \<Rightarrow> int \<Rightarrow> nat \<times> foos" where
  "foo_alloc2 s m ok oid =
     (case m of None \<Rightarrow> (0, s)
      | Some fp \<Rightarrow>
          if ok then
            let idx = HASH oid;
                s1 = s\<lparr>falive := (falive s)(fp := True), fcount := (fcount s)(fp := 1), fid := (fid s)(fp := oid)\<rparr>;
                s2 = s1\<lparr>fnext := (fnext s1)(fp := fh s1 idx)\<rparr>
            in (fp, s2\<lparr>fh := (fh s2)(idx := fp)\<rparr>)
          else (0, s))"

fun find_loop :: "nat \<Rightarrow> foos \<Rightarrow> int \<Rightarrow> nat \<Rightarrow> nat res" where
  "find_loop n s oid fp =
     (if fp = 0 then Inr 0
      else bnd (fder s fp) (\<lambda>_. if fid s fp = oid then Inr fp
           else case n of 0 \<Rightarrow> Inl Diverges | Suc n' \<Rightarrow> find_loop n' s oid (fnext s fp)))"

declare find_loop.simps [simp del]

definition foo_find2 :: "nat \<Rightarrow> foos \<Rightarrow> int \<Rightarrow> (nat \<times> foos) res" where
  "foo_find2 n s oid = bnd (find_loop n s oid (fh s (HASH oid))) (\<lambda>fp.
     if fp = 0 then Inr (0, s) else bnd (foo_hold s fp) (\<lambda>s'. Inr (fp, s')))"

fun unlink_loop :: "nat \<Rightarrow> foos \<Rightarrow> nat \<Rightarrow> nat \<Rightarrow> nat res" where
  "unlink_loop n s fp tfp =
     bnd (fder s tfp) (\<lambda>_. if fnext s tfp = fp then Inr tfp
       else case n of 0 \<Rightarrow> Inl Diverges | Suc n' \<Rightarrow> unlink_loop n' s fp (fnext s tfp))"

declare unlink_loop.simps [simp del]

text \<open>Lines 87 to 95: taking the object off its chain.\<close>

definition foo_unlink :: "nat \<Rightarrow> foos \<Rightarrow> nat \<Rightarrow> foos res" where
  "foo_unlink n s fp =
     (let idx = HASH (fid s fp)
      in if fh s idx = fp then Inr (s\<lparr>fh := (fh s)(idx := fnext s fp)\<rparr>)
         else bnd (unlink_loop n s fp (fh s idx)) (\<lambda>tfp. Inr (s\<lparr>fnext := (fnext s)(tfp := fnext s fp)\<rparr>)))"

text \<open>
  \<^verbatim>\<open>foo_rele\<close> in two steps: under the lock of the object, and, when the last reference seems
  to be released, again under both locks. The first step says whether the second is needed.
\<close>

definition foo_rele2_a :: "foos \<Rightarrow> nat \<Rightarrow> (foos \<times> bool) res" where
  "foo_rele2_a s fp = bnd (fder s fp) (\<lambda>_.
     if fcount s fp = 1 then Inr (s, True) else bnd (add_count fp (- 1) s) (\<lambda>s1. Inr (s1, False)))"

definition foo_rele2_b :: "nat \<Rightarrow> foos \<Rightarrow> nat \<Rightarrow> foos res" where
  "foo_rele2_b n s fp = bnd (fder s fp) (\<lambda>_.
     if fcount s fp \<noteq> 1 then add_count fp (- 1) s
     else bnd (foo_unlink n s fp) (\<lambda>s1. Inr (foo_free fp s1)))"

definition foo_rele2 :: "nat \<Rightarrow> foos \<Rightarrow> nat \<Rightarrow> foos res" where
  "foo_rele2 n s fp = bnd (foo_rele2_a s fp) (\<lambda>(s1, last). if last then foo_rele2_b n s1 fp else Inr s1)"

section \<open>mutex3.c: one lock\<close>

definition foo_find3 :: "nat \<Rightarrow> foos \<Rightarrow> int \<Rightarrow> (nat \<times> foos) res" where
  "foo_find3 n s oid = bnd (find_loop n s oid (fh s (HASH oid))) (\<lambda>fp.
     if fp = 0 then Inr (0, s) else bnd (add_count fp 1 s) (\<lambda>s'. Inr (fp, s')))"

definition foo_rele3 :: "nat \<Rightarrow> foos \<Rightarrow> nat \<Rightarrow> foos res" where
  "foo_rele3 n s fp = bnd (fder s fp) (\<lambda>_. bnd (add_count fp (- 1) s) (\<lambda>s1.
     if fcount s1 fp = 0 then bnd (foo_unlink n s1 fp) (\<lambda>s2. Inr (foo_free fp s2)) else Inr s1))"

section \<open>Counts and chains\<close>

text \<open>
  \<open>rc x\<close> is the number of references to \<open>x\<close> that somebody holds. The count in the object
  is that number, within the range of \<^verbatim>\<open>int\<close>, and an object is allocated as long as it is not 0.
\<close>

definition counts :: "foos \<Rightarrow> (nat \<Rightarrow> nat) \<Rightarrow> bool" where
  "counts s rc \<longleftrightarrow> \<not> falive s 0 \<and> (\<forall>x. falive s x \<longleftrightarrow> 0 < rc x) \<and> (\<forall>x. falive s x \<longrightarrow> fcount s x = int (rc x)) \<and>
     (\<forall>x. rc x \<le> INT_MAX)"

fun fchain :: "(nat \<Rightarrow> nat) \<Rightarrow> nat \<Rightarrow> nat list \<Rightarrow> bool" where
  "fchain nx a [] \<longleftrightarrow> a = 0"
| "fchain nx a (x # xs) \<longleftrightarrow> a = x \<and> x \<noteq> 0 \<and> fchain nx (nx x) xs"

definition table :: "foos \<Rightarrow> (nat \<Rightarrow> nat list) \<Rightarrow> bool" where
  "table s L \<longleftrightarrow> (\<forall>i < NHASH. fchain (fnext s) (fh s i) (L i) \<and> distinct (L i) \<and> (\<forall>x \<in> set (L i). falive s x \<and> HASH (fid s x) = i)) \<and>
     (\<forall>x. falive s x \<longrightarrow> x \<in> set (L (HASH (fid s x))))"

definition foo_ok :: "foos \<Rightarrow> (nat \<Rightarrow> nat) \<Rightarrow> bool" where
  "foo_ok s rc \<longleftrightarrow> counts s rc \<and> (\<exists>L. table s L)"

lemma HASH_less [simp]: "HASH oid < NHASH"
  by (simp add: HASH_def NHASH_def)

lemma fchain_upd [simp]: "x \<notin> set xs \<Longrightarrow> fchain (nx(x := v)) a xs = fchain nx a xs"
  by (induction xs arbitrary: a) auto

lemma fchain_split: "fchain nx a (as @ x # bs) \<Longrightarrow> fchain nx x (x # bs)"
  by (induction as arbitrary: a) auto

lemma fder_alive: "counts s rc \<Longrightarrow> 0 < rc x \<Longrightarrow> fder s x = Inr ()"
  by (cases "x = 0") (auto simp: fder_def counts_def)

lemma find_loop_chain:
  "fchain (fnext s) a xs \<Longrightarrow> \<forall>x \<in> set xs. falive s x \<Longrightarrow> length xs \<le> n \<Longrightarrow>
   find_loop n s oid a = Inr (case List.find (\<lambda>x. fid s x = oid) xs of None \<Rightarrow> 0 | Some x \<Rightarrow> x)"
proof (induction xs arbitrary: a n)
  case Nil
  then show ?case by (simp add: find_loop.simps)
next
  case (Cons x xs)
  then show ?case by (cases n) (auto simp: find_loop.simps [of "Suc m" for m] fder_def)
qed

lemma unlink_loop_chain:
  "fchain (fnext s) a (as @ t # x # bs) \<Longrightarrow> \<forall>y \<in> set (as @ [t]). falive s y \<Longrightarrow> x \<notin> set (as @ [t]) \<Longrightarrow> length as \<le> n \<Longrightarrow>
   unlink_loop n s x a = Inr t"
proof (induction as arbitrary: a n)
  case Nil
  then show ?case by (simp add: unlink_loop.simps [of n] fder_def)
next
  case (Cons y as)
  then obtain k where k: "n = Suc k" by (cases n) auto
  have "fnext s y \<noteq> x" using Cons.prems(1,3) by (cases as) auto
  then show ?case using Cons k by (simp add: unlink_loop.simps [of "Suc k"] fder_def)
qed

lemma fchain_unlink:
  "fchain nx a (as @ t # x # bs) \<Longrightarrow> distinct (as @ t # x # bs) \<Longrightarrow> fchain (nx(t := nx x)) a (as @ t # bs)"
  by (induction as arbitrary: a) auto

lemma tableI:
  assumes "\<And>j. j < NHASH \<Longrightarrow> fchain (fnext s) (fh s j) (L j) \<and> distinct (L j) \<and> (\<forall>x \<in> set (L j). falive s x \<and> HASH (fid s x) = j)"
    and "\<And>x. falive s x \<Longrightarrow> x \<in> set (L (HASH (fid s x)))"
  shows "table s L"
  using assms unfolding table_def by blast

text \<open>Taking an object off its chain takes it out of the list of its bucket and nothing else.\<close>

lemma foo_unlink_table:
  assumes "table s L" "falive s x" "x \<noteq> 0"
  defines "i \<equiv> HASH (fid s x)"
  shows "\<exists>s1. (\<forall>n \<ge> length (L i). foo_unlink n s x = Inr s1) \<and> fcount s1 = fcount s \<and> fid s1 = fid s \<and> falive s1 = falive s \<and>
    table (foo_free x s1) (L(i := remove1 x (L i)))"
proof -
  have i: "i < NHASH" by (simp add: i_def)
  have ch: "fchain (fnext s) (fh s j) (L j)" "distinct (L j)" "\<forall>y \<in> set (L j). falive s y \<and> HASH (fid s y) = j" if "j < NHASH" for j
    using assms(1) that by (auto simp: table_def)
  have all: "falive s y \<Longrightarrow> y \<in> set (L (HASH (fid s y)))" for y using assms(1) by (simp add: table_def)
  have x: "x \<in> set (L i)" using all [OF assms(2)] by (simp add: i_def)
  have nx: "x \<notin> set (L j)" if "j < NHASH" "j \<noteq> i" for j using ch(3) [OF that(1)] that(2) by (auto simp: i_def)
  have tab: "table (foo_free x s1) (L(i := remove1 x (L i)))"
    if e: "fid s1 = fid s" "falive s1 = falive s"
      and c: "\<And>j. j < NHASH \<Longrightarrow> j \<noteq> i \<Longrightarrow> fchain (fnext s1) (fh s1 j) (L j)" "fchain (fnext s1) (fh s1 i) (remove1 x (L i))" for s1
  proof -
    let ?L = "L(i := remove1 x (L i))" and ?s = "foo_free x s1"
    have "fchain (fnext ?s) (fh ?s j) (?L j) \<and> distinct (?L j) \<and> (\<forall>y \<in> set (?L j). falive ?s y \<and> HASH (fid ?s y) = j)"
      if j: "j < NHASH" for j
      using ch(2,3) [OF j] nx [OF j] c(1) [OF j] c(2) by (cases "j = i") (auto simp: e set_remove1_eq foo_free_def)
    moreover have "y \<in> set (?L (HASH (fid ?s y)))" if y: "falive ?s y" for y
    proof -
      have "y \<noteq> x" "y \<in> set (L (HASH (fid s y)))" using y all [of y] by (auto simp: e foo_free_def split: if_splits)
      then show ?thesis using ch(2) [OF i] by (auto simp: e set_remove1_eq foo_free_def)
    qed
    ultimately show ?thesis by (rule tableI)
  qed
  obtain as bs where ab: "L i = as @ x # bs" "x \<notin> set as" using x by (metis split_list_first)
  then have r: "remove1 x (L i) = as @ bs" by (simp add: remove1_append)
  show ?thesis
  proof (cases as rule: rev_cases)
    case Nil
    then have h: "fh s i = x" "fchain (fnext s) (fnext s x) bs" using ch(1) [OF i] ab by auto
    have "table (foo_free x (s\<lparr>fh := (fh s)(i := fnext s x)\<rparr>)) (L(i := remove1 x (L i)))"
      by (rule tab) (use ch(1) h r Nil in auto)
    then show ?thesis using h by (intro exI [of _ "s\<lparr>fh := (fh s)(i := fnext s x)\<rparr>"]) (auto simp: foo_unlink_def i_def [symmetric] Let_def)
  next
    case (snoc cs t)
    let ?s = "s\<lparr>fnext := (fnext s)(t := fnext s x)\<rparr>"
    have L: "L i = cs @ t # x # bs" using ab snoc by simp
    have d: "distinct (cs @ t # x # bs)" using ch(2) [OF i] L by simp
    have ne: "fh s i \<noteq> x" using ch(1) [OF i] L d by (cases cs) auto
    have u: "unlink_loop n s x (fh s i) = Inr t" if "length (L i) \<le> n" for n
      by (rule unlink_loop_chain [of s _ cs t x bs]) (use ch(1,3) [OF i] L d that in auto)
    have t: "t \<notin> set (L j)" if "j < NHASH" "j \<noteq> i" for j
      using ch(3) [OF that(1)] ch(3) [OF i] that(2) L by auto
    have cu: "fchain ((fnext s)(t := fnext s x)) (fh s i) (cs @ t # bs)"
      by (rule fchain_unlink) (use ch(1) [OF i] L d in simp_all)
    have "table (foo_free x ?s) (L(i := remove1 x (L i)))"
      by (rule tab) (use ch(1) t cu r snoc in auto)
    then show ?thesis using u ne by (intro exI [of _ ?s]) (auto simp: foo_unlink_def i_def [symmetric] Let_def)
  qed
qed

section \<open>Each operation changes one count\<close>

lemma set_count_simps [simp]:
  "fcount (set_count x c s) = (fcount s)(x := c)" "fid (set_count x c s) = fid s" "fnext (set_count x c s) = fnext s"
  "falive (set_count x c s) = falive s" "fh (set_count x c s) = fh s"
  by (simp_all add: set_count_def)

lemma table_set_count [simp]: "table (set_count x c s) L = table s L"
  by (simp add: table_def)

lemma add_count_in: "fcount s x + d = int k \<Longrightarrow> k \<le> INT_MAX \<Longrightarrow> add_count x d s = Inr (set_count x (int k) s)"
  by (simp add: add_count_def)

lemma add_count_over: "fcount s x = int INT_MAX \<Longrightarrow> add_count x 1 s = Inl (Undefined ''overflow of f_count'')"
  by (simp add: add_count_def)

lemma counts_dec:
  assumes "counts s rc" "0 < rc x"
  shows "add_count x (- 1) s = Inr (set_count x (int (rc x - 1)) s)"
proof (rule add_count_in)
  have "fcount s x = int (rc x)" "rc x \<le> INT_MAX" using assms by (auto simp: counts_def)
  then show "fcount s x + - 1 = int (rc x - 1)" "rc x - 1 \<le> INT_MAX" using assms(2) by simp_all
qed

lemma counts_upd:
  assumes "counts s rc" "0 < rc x" "0 < k" "k \<le> INT_MAX"
  shows "counts (set_count x (int k) s) (rc(x := k))"
  using assms by (auto simp: counts_def)

lemma counts_free: "counts s rc \<Longrightarrow> counts (foo_free x s) (rc(x := 0))"
  by (auto simp: counts_def foo_free_def)

lemma counts_cong: "fcount s1 = fcount s \<Longrightarrow> falive s1 = falive s \<Longrightarrow> counts s1 rc = counts s rc"
  by (simp only: counts_def)

lemma foo_hold_counts:
  assumes "counts s rc" "0 < rc x"
  shows "foo_hold s x = (if rc x < INT_MAX then Inr (set_count x (int (Suc (rc x))) s) else Inl (Undefined ''overflow of f_count''))"
    "rc x < INT_MAX \<Longrightarrow> counts (set_count x (int (Suc (rc x))) s) (rc(x := Suc (rc x)))"
proof -
  have c: "fcount s x = int (rc x)" "rc x \<le> INT_MAX" using assms by (auto simp: counts_def)
  show "foo_hold s x = (if rc x < INT_MAX then Inr (set_count x (int (Suc (rc x))) s) else Inl (Undefined ''overflow of f_count''))"
    using fder_alive [OF assms] c add_count_in [of s x 1 "Suc (rc x)"] add_count_over [of s x]
    by (simp add: foo_hold_def del: of_nat_Suc)
  show "rc x < INT_MAX \<Longrightarrow> counts (set_count x (int (Suc (rc x))) s) (rc(x := Suc (rc x)))"
    by (rule counts_upd [OF assms]) simp_all
qed

lemma foo_ok_count: "foo_ok s rc \<Longrightarrow> 0 < rc x \<Longrightarrow> 0 < k \<Longrightarrow> k \<le> INT_MAX \<Longrightarrow> foo_ok (set_count x (int k) s) (rc(x := k))"
  using counts_upd by (auto simp: foo_ok_def)

lemma foo_ok_alive: "foo_ok s rc \<Longrightarrow> 0 < rc x \<Longrightarrow> fder s x = Inr () \<and> fcount s x = int (rc x) \<and> falive s x \<and> x \<noteq> 0"
  using fder_alive by (cases "x = 0") (auto simp: foo_ok_def counts_def)

lemma foo_ok_max: "foo_ok s rc \<Longrightarrow> rc x \<le> INT_MAX"
  by (auto simp: foo_ok_def counts_def)

lemma foo_ok_dec: "foo_ok s rc \<Longrightarrow> 0 < rc x \<Longrightarrow> add_count x (- 1) s = Inr (set_count x (int (rc x - 1)) s)"
  using counts_dec by (auto simp: foo_ok_def)

text \<open>The last reference: the object leaves its chain and is freed.\<close>

lemma foo_unlink_free:
  assumes "foo_ok s rc" "rc x = Suc 0"
  shows "\<exists>n0 s1. (\<forall>n \<ge> n0. foo_unlink n s x = Inr s1) \<and> foo_ok (foo_free x s1) (rc(x := 0)) \<and> fid s1 = fid s"
proof -
  obtain L where L: "table s L" using assms(1) by (auto simp: foo_ok_def)
  have x: "falive s x" "x \<noteq> 0" using foo_ok_alive [of s rc x] assms by auto
  obtain s1 where s1: "\<forall>n \<ge> length (L (HASH (fid s x))). foo_unlink n s x = Inr s1" "fcount s1 = fcount s" "fid s1 = fid s" "falive s1 = falive s"
      "\<exists>L. table (foo_free x s1) L"
    using foo_unlink_table [OF L x] by blast
  have "counts s1 rc" using assms(1) counts_cong [OF s1(2,4)] by (simp add: foo_ok_def)
  then have "foo_ok (foo_free x s1) (rc(x := 0))" using s1(5) counts_free by (simp add: foo_ok_def)
  then show ?thesis using s1(1,3) by blast
qed

lemma foo_rele3_ok:
  assumes "foo_ok s rc" "0 < rc x"
  shows "\<exists>n0 s'. (\<forall>n \<ge> n0. foo_rele3 n s x = Inr s') \<and> foo_ok s' (rc(x := rc x - 1)) \<and> fid s' = fid s"
proof -
  note a = foo_ok_alive [OF assms]
  show ?thesis
  proof (cases "rc x = Suc 0")
    case True
    let ?s = "set_count x 0 s"
    obtain L where L: "table ?s L" using assms(1) by (auto simp: foo_ok_def)
    have x: "falive ?s x" "x \<noteq> 0" using a by auto
    obtain s1 where s1: "\<forall>n \<ge> length (L (HASH (fid ?s x))). foo_unlink n ?s x = Inr s1" "fcount s1 = fcount ?s" "fid s1 = fid ?s" "falive s1 = falive ?s"
        "\<exists>L. table (foo_free x s1) L"
      using foo_unlink_table [OF L x] by blast
    have "counts (foo_free x s1) (rc(x := 0))" using assms(1) s1(2,4) by (auto simp: foo_ok_def counts_def foo_free_def)
    then have "foo_ok (foo_free x s1) (rc(x := rc x - 1))" using s1(5) True by (simp add: foo_ok_def)
    moreover have "\<forall>n \<ge> length (L (HASH (fid ?s x))). foo_rele3 n s x = Inr (foo_free x s1)"
      using s1(1) a True foo_ok_dec [OF assms] by (simp add: foo_rele3_def)
    ultimately show ?thesis using s1(3) by (intro exI conjI) (assumption+, simp add: foo_free_def)
  next
    case False
    then have c: "0 < rc x - 1" "rc x - 1 \<le> INT_MAX" using assms(2) foo_ok_max [OF assms(1), of x] by auto
    have "foo_rele3 n s x = Inr (set_count x (int (rc x - 1)) s)" for n
      using a c(1) foo_ok_dec [OF assms] unfolding foo_rele3_def by simp
    then show ?thesis using foo_ok_count [OF assms c]
      by (intro exI [of _ 0] exI [of _ "set_count x (int (rc x - 1)) s"]) simp
  qed
qed

lemma foo_rele2_b_ok:
  assumes "foo_ok s rc" "0 < rc x"
  shows "\<exists>n0 s'. (\<forall>n \<ge> n0. foo_rele2_b n s x = Inr s') \<and> foo_ok s' (rc(x := rc x - 1)) \<and> fid s' = fid s"
proof -
  note a = foo_ok_alive [OF assms]
  show ?thesis
  proof (cases "rc x = Suc 0")
    case True
    obtain n0 s1 where "\<forall>n \<ge> n0. foo_unlink n s x = Inr s1" "foo_ok (foo_free x s1) (rc(x := 0))" "fid s1 = fid s"
      using foo_unlink_free [OF assms(1) True] by blast
    then show ?thesis using a True
      by (intro exI [of _ n0] exI [of _ "foo_free x s1"]) (simp add: foo_rele2_b_def foo_free_def)
  next
    case False
    then have c: "0 < rc x - 1" "rc x - 1 \<le> INT_MAX" "fcount s x \<noteq> 1" using a assms(2) foo_ok_max [OF assms(1), of x] by auto
    have "foo_rele2_b n s x = Inr (set_count x (int (rc x - 1)) s)" for n
      using a c(3) foo_ok_dec [OF assms] unfolding foo_rele2_b_def by simp
    then show ?thesis using foo_ok_count [OF assms c(1,2)]
      by (intro exI [of _ 0] exI [of _ "set_count x (int (rc x - 1)) s"]) simp
  qed
qed

lemma foo_rele2_a_ok:
  assumes "foo_ok s rc" "0 < rc x"
  shows "foo_rele2_a s x = (if rc x = 1 then Inr (s, True) else Inr (set_count x (int (rc x - 1)) s, False))"
    and "rc x \<noteq> 1 \<Longrightarrow> foo_ok (set_count x (int (rc x - 1)) s) (rc(x := rc x - 1))"
proof -
  note a = foo_ok_alive [OF assms]
  show "foo_rele2_a s x = (if rc x = 1 then Inr (s, True) else Inr (set_count x (int (rc x - 1)) s, False))"
  proof -
    have e: "foo_rele2_a s x = (if fcount s x = 1 then Inr (s, True) else Inr (set_count x (int (rc x - 1)) s, False))"
      using a foo_ok_dec [OF assms] by (simp add: foo_rele2_a_def)
    have f: "(fcount s x = 1) = (rc x = 1)" using a by auto
    show ?thesis unfolding e f ..
  qed
  show "rc x \<noteq> 1 \<Longrightarrow> foo_ok (set_count x (int (rc x - 1)) s) (rc(x := rc x - 1))"
    using foo_ok_count [OF assms, of "rc x - 1"] assms(2) foo_ok_max [OF assms(1), of x] by simp
qed

lemma foo_rele2_ok:
  assumes "foo_ok s rc" "0 < rc x"
  shows "\<exists>n0 s'. (\<forall>n \<ge> n0. foo_rele2 n s x = Inr s') \<and> foo_ok s' (rc(x := rc x - 1)) \<and> fid s' = fid s"
proof (cases "rc x = 1")
  case True
  then show ?thesis using foo_rele2_a_ok(1) [OF assms] foo_rele2_b_ok [OF assms] by (simp add: foo_rele2_def)
next
  case False
  then show ?thesis using foo_rele2_a_ok [OF assms]
    by (intro exI [of _ 0] exI [of _ "set_count x (int (rc x - 1)) s"]) (simp add: foo_rele2_def)
qed

lemma find_loop_ok:
  assumes "foo_ok s rc"
  shows "\<exists>n0 x. (\<forall>n \<ge> n0. find_loop n s oid (fh s (HASH oid)) = Inr x) \<and>
    (if x = 0 then \<forall>y. 0 < rc y \<longrightarrow> fid s y \<noteq> oid else fid s x = oid \<and> 0 < rc x)"
proof -
  obtain L where L: "table s L" and c: "counts s rc" using assms by (auto simp: foo_ok_def)
  let ?xs = "L (HASH oid)"
  have ch: "fchain (fnext s) (fh s (HASH oid)) ?xs" "\<forall>x \<in> set ?xs. falive s x" using L HASH_less [of oid] unfolding table_def by blast+
  have nz: "0 \<notin> set ?xs" using ch(2) c by (auto simp: counts_def)
  let ?r = "List.find (\<lambda>x. fid s x = oid) ?xs"
  have e: "\<forall>n \<ge> length ?xs. find_loop n s oid (fh s (HASH oid)) = Inr (case ?r of None \<Rightarrow> 0 | Some x \<Rightarrow> x)"
    using find_loop_chain [OF ch] by blast
  show ?thesis
  proof (cases ?r)
    case None
    have "fid s y \<noteq> oid" if "0 < rc y" for y
    proof
      assume "fid s y = oid"
      then have "y \<in> set ?xs" using that L c by (auto simp: table_def counts_def)
      then show False using None \<open>fid s y = oid\<close> by (auto simp: find_None_iff)
    qed
    then show ?thesis using e None by (intro exI [of _ "length ?xs"] exI [of _ 0]) simp
  next
    case (Some x)
    then have "x \<in> set ?xs" "fid s x = oid" by (auto simp: find_Some_iff)
    moreover have "x \<noteq> 0" using nz \<open>x \<in> set ?xs\<close> by metis
    ultimately have "x \<noteq> 0" "0 < rc x" using ch(2) c by (simp_all add: counts_def)
    then show ?thesis using e Some \<open>fid s x = oid\<close> by (intro exI [of _ "length ?xs"] exI [of _ x]) simp
  qed
qed

lemma foo_alloc2_ok:
  assumes "foo_ok s rc" "fp \<noteq> 0" "rc fp = 0"
  shows "fst (foo_alloc2 s (Some fp) True oid) = fp \<and> foo_ok (snd (foo_alloc2 s (Some fp) True oid)) (rc(fp := 1)) \<and>
    fid (snd (foo_alloc2 s (Some fp) True oid)) = (fid s)(fp := oid)"
proof -
  obtain L where L: "table s L" and c: "counts s rc" using assms(1) by (auto simp: foo_ok_def)
  let ?s = "snd (foo_alloc2 s (Some fp) True oid)" and ?i = "HASH oid"
  let ?L = "L(?i := fp # L ?i)"
  have na: "\<not> falive s fp" using c assms(3) by (simp add: counts_def)
  have nx: "fp \<notin> set (L j)" if "j < NHASH" for j using L na that by (auto simp: table_def)
  have ch: "fchain (fnext s) (fh s j) (L j)" "distinct (L j)" "\<forall>y \<in> set (L j). falive s y \<and> HASH (fid s y) = j" if "j < NHASH" for j
    using L that by (auto simp: table_def)
  have all: "falive s y \<Longrightarrow> y \<in> set (L (HASH (fid s y)))" for y using L by (simp add: table_def)
  note d = foo_alloc2_def Let_def
  have "table ?s ?L"
  proof (rule tableI)
    fix j assume j: "j < NHASH"
    show "fchain (fnext ?s) (fh ?s j) (?L j) \<and> distinct (?L j) \<and> (\<forall>y \<in> set (?L j). falive ?s y \<and> HASH (fid ?s y) = j)"
      using ch [OF j] nx [OF j] assms(2) by (cases "j = ?i") (auto simp: d)
  next
    fix y assume "falive ?s y"
    then show "y \<in> set (?L (HASH (fid ?s y)))" using all [of y] by (auto simp: d split: if_splits)
  qed
  moreover have "counts ?s (rc(fp := 1))" using c assms(2) by (auto simp: counts_def d INT_MAX_def)
  ultimately show ?thesis by (auto simp: foo_ok_def d)
qed

section \<open>The contract of counted objects\<close>

text \<open>Taking and giving back several references.\<close>

fun holds :: "('s \<Rightarrow> nat \<Rightarrow> 's res) \<Rightarrow> nat \<Rightarrow> 's \<Rightarrow> nat \<Rightarrow> 's res" where
  "holds ho 0 s x = Inr s"
| "holds ho (Suc k) s x = bnd (ho s x) (\<lambda>s'. holds ho k s' x)"

fun reles :: "('s \<Rightarrow> nat \<Rightarrow> 's res) \<Rightarrow> nat \<Rightarrow> 's \<Rightarrow> nat \<Rightarrow> 's res" where
  "reles rl 0 s x = Inr s"
| "reles rl (Suc k) s x = bnd (rl s x) (\<lambda>s'. reles rl k s' x)"

text \<open>
  Objects that are counted: holding and releasing a reference one has. A table of them adds
  finding an object, which comes with a reference to it.
\<close>

locale refcounted =
  fixes good :: "'s \<Rightarrow> (nat \<Rightarrow> nat) \<Rightarrow> bool" and hold :: "'s \<Rightarrow> nat \<Rightarrow> 's res" and rele :: "nat \<Rightarrow> 's \<Rightarrow> nat \<Rightarrow> 's res"
  assumes hold_law: "good s rc \<Longrightarrow> 0 < rc x \<Longrightarrow> rc x < INT_MAX \<Longrightarrow> \<exists>s'. hold s x = Inr s' \<and> good s' (rc(x := Suc (rc x)))"
    and rele_law: "good s rc \<Longrightarrow> 0 < rc x \<Longrightarrow> \<exists>n0 s'. (\<forall>n \<ge> n0. rele n s x = Inr s') \<and> good s' (rc(x := rc x - 1))"
begin

lemma holds_good: "good s rc \<Longrightarrow> 0 < rc x \<Longrightarrow> rc x + k \<le> INT_MAX \<Longrightarrow> \<exists>s'. holds hold k s x = Inr s' \<and> good s' (rc(x := rc x + k))"
proof (induction k arbitrary: s rc)
  case (Suc k)
  obtain s1 where s1: "hold s x = Inr s1" "good s1 (rc(x := Suc (rc x)))" using hold_law [OF Suc.prems(1,2)] Suc.prems(3) by auto
  then show ?case using Suc.IH [OF s1(2)] Suc.prems(3) by (simp add: fun_upd_same del: fun_upd_apply)
qed simp

lemma reles_good: "good s rc \<Longrightarrow> k \<le> rc x \<Longrightarrow> \<exists>n0 s'. (\<forall>n \<ge> n0. reles (rele n) k s x = Inr s') \<and> good s' (rc(x := rc x - k))"
proof (induction k arbitrary: s rc)
  case (Suc k)
  obtain n1 s1 where s1: "\<forall>n \<ge> n1. rele n s x = Inr s1" "good s1 (rc(x := rc x - 1))"
    using rele_law [OF Suc.prems(1), of x] Suc.prems(2) by auto
  have le: "k \<le> rc x - Suc 0" using Suc.prems(2) by simp
  obtain n2 s2 where "\<forall>n \<ge> n2. reles (rele n) k s1 x = Inr s2" "good s2 (rc(x := rc x - Suc k))"
    using Suc.IH [OF s1(2)] le by (auto simp: fun_upd_same simp del: fun_upd_apply)
  then show ?case using s1(1) by (intro exI [of _ "max n1 n2"] exI [of _ s2]) (simp del: fun_upd_apply)
qed auto

lemma holds_reles:
  assumes "good s rc" "0 < rc x" "rc x + k \<le> INT_MAX" "j \<le> rc x + k"
  shows "\<exists>n0 s1 s2. holds hold k s x = Inr s1 \<and> (\<forall>n \<ge> n0. reles (rele n) j s1 x = Inr s2) \<and> good s2 (rc(x := rc x + k - j))"
proof -
  obtain s1 where s1: "holds hold k s x = Inr s1" "good s1 (rc(x := rc x + k))" using holds_good [OF assms(1-3)] by blast
  then show ?thesis using reles_good [OF s1(2), of j x] assms(4) by auto
qed

end

locale refcount_table = refcounted good hold rele for good :: "'s \<Rightarrow> (nat \<Rightarrow> nat) \<Rightarrow> bool" and hold rele +
  fixes find :: "nat \<Rightarrow> 's \<Rightarrow> int \<Rightarrow> (nat \<times> 's) res" and ident :: "'s \<Rightarrow> nat \<Rightarrow> int"
  assumes find_law: "good s rc \<Longrightarrow> \<forall>y. ident s y = oid \<longrightarrow> rc y < INT_MAX \<Longrightarrow>
      \<exists>n0 x s'. (\<forall>n \<ge> n0. find n s oid = Inr (x, s')) \<and>
      (if x = 0 then s' = s \<and> (\<forall>y. 0 < rc y \<longrightarrow> ident s y \<noteq> oid)
       else ident s x = oid \<and> 0 < rc x \<and> good s' (rc(x := Suc (rc x))))"
    and find_sound: "good s rc \<Longrightarrow> find n s oid = Inr (x, s') \<Longrightarrow> x \<noteq> 0 \<Longrightarrow>
      ident s x = oid \<and> 0 < rc x \<and> good s' (rc(x := Suc (rc x)))"
begin

text \<open>An object that somebody holds is found, and giving back what was found changes nothing.\<close>

lemma find_held:
  assumes "good s rc" "0 < rc y" "ident s y = oid" "\<forall>z. ident s z = oid \<longrightarrow> rc z < INT_MAX"
  shows "\<exists>n0 x s' s''. (\<forall>n \<ge> n0. find n s oid = Inr (x, s')) \<and> x \<noteq> 0 \<and> ident s x = oid \<and> good s' (rc(x := Suc (rc x))) \<and>
    (\<forall>n \<ge> n0. rele n s' x = Inr s'') \<and> good s'' rc"
proof -
  obtain n1 x s' where f: "\<forall>n \<ge> n1. find n s oid = Inr (x, s')" "x \<noteq> 0" "ident s x = oid" "good s' (rc(x := Suc (rc x)))"
    using find_law [OF assms(1,4)] assms(2,3) by (metis (no_types, lifting))
  obtain n2 s'' where "\<forall>n \<ge> n2. rele n s' x = Inr s''" "good s'' rc"
    using rele_law [OF f(4), of x] by auto
  then show ?thesis using f by (intro exI [of _ "max n1 n2"] exI [of _ x] exI [of _ s'] exI [of _ s'']) auto
qed

end

text \<open>\<^verbatim>\<open>mutex1.c\<close> keeps the first contract, the two tables keep both.\<close>

interpretation m1: refcounted counts foo_hold "\<lambda>_. foo_rele1"
proof unfold_locales
  fix s rc and x :: nat assume c: "counts s rc" "0 < rc x"
  then have f: "fder s x = Inr ()" using fder_alive by blast
  show "rc x < INT_MAX \<Longrightarrow> \<exists>s'. foo_hold s x = Inr s' \<and> counts s' (rc(x := Suc (rc x)))" using foo_hold_counts [OF c] by simp
  show "\<exists>(n0 :: nat) s'. (\<forall>n \<ge> n0. foo_rele1 s x = Inr s') \<and> counts s' (rc(x := rc x - 1))"
  proof (cases "rc x = 1")
    case True
    have "counts (foo_free x (set_count x 0 s)) (rc(x := 0))" using c(1) by (auto simp: counts_def foo_free_def)
    then show ?thesis using f True counts_dec [OF c]
      by (intro exI [of _ 0] exI [of _ "foo_free x (set_count x 0 s)"]) (simp add: foo_rele1_def)
  next
    case False
    then have k: "0 < rc x - 1" "rc x - 1 \<le> INT_MAX" using c by (auto simp: counts_def intro: le_trans [OF diff_le_self])
    have "foo_rele1 s x = Inr (set_count x (int (rc x - 1)) s)" using f k(1) counts_dec [OF c] by (simp add: foo_rele1_def)
    then show ?thesis using counts_upd [OF c k] by auto
  qed
qed

lemma foo_hold_ok: "foo_ok s rc \<Longrightarrow> 0 < rc x \<Longrightarrow> rc x < INT_MAX \<Longrightarrow> \<exists>s'. foo_hold s x = Inr s' \<and> foo_ok s' (rc(x := Suc (rc x)))"
  using foo_hold_counts [of s rc x] by (auto simp: foo_ok_def)

lemma foo_hold_fits:
  assumes "foo_ok s rc" "0 < rc x" "foo_hold s x = Inr s'"
  shows "rc x < INT_MAX" "foo_ok s' (rc(x := Suc (rc x)))"
proof -
  show l: "rc x < INT_MAX" using foo_hold_counts(1) [of s rc x] assms by (auto simp: foo_ok_def split: if_splits)
  show "foo_ok s' (rc(x := Suc (rc x)))" using foo_hold_ok [OF assms(1,2) l] assms(3) by auto
qed

lemma find_loop_sound: "find_loop n s oid a = Inr x \<Longrightarrow> x \<noteq> 0 \<Longrightarrow> fid s x = oid \<and> falive s x"
proof (induction n arbitrary: a)
  case 0
  then show ?case by (auto simp: find_loop.simps [of 0] fder_def bnd_eq_Inr_iff split: if_splits)
next
  case (Suc n)
  then show ?case by (auto simp: find_loop.simps [of "Suc n"] fder_def bnd_eq_Inr_iff split: if_splits)
qed

lemma foo_find2_sound:
  assumes "foo_ok s rc" "foo_find2 n s oid = Inr (x, s')" "x \<noteq> 0"
  shows "fid s x = oid \<and> 0 < rc x \<and> foo_ok s' (rc(x := Suc (rc x)))"
proof -
  have f: "find_loop n s oid (fh s (HASH oid)) = Inr x" "foo_hold s x = Inr s'"
    using assms(2,3) by (auto simp: foo_find2_def bnd_eq_Inr_iff split: if_splits)
  have "fid s x = oid" "0 < rc x" using find_loop_sound [OF f(1) assms(3)] assms(1) by (auto simp: foo_ok_def counts_def)
  then show ?thesis using foo_hold_fits(2) [OF assms(1) _ f(2)] by blast
qed

interpretation m2: refcount_table foo_ok foo_hold foo_rele2 foo_find2 fid
proof unfold_locales
  fix s rc and x :: nat and oid :: int assume c: "foo_ok s rc"
  show "0 < rc x \<Longrightarrow> rc x < INT_MAX \<Longrightarrow> \<exists>s'. foo_hold s x = Inr s' \<and> foo_ok s' (rc(x := Suc (rc x)))" using foo_hold_ok [OF c] .
  show "0 < rc x \<Longrightarrow> \<exists>n0 s'. (\<forall>n \<ge> n0. foo_rele2 n s x = Inr s') \<and> foo_ok s' (rc(x := rc x - 1))"
    using foo_rele2_ok [OF c] by blast
  show "foo_find2 n s oid = Inr (x, s') \<Longrightarrow> x \<noteq> 0 \<Longrightarrow> fid s x = oid \<and> 0 < rc x \<and> foo_ok s' (rc(x := Suc (rc x)))" for n s'
    using foo_find2_sound [OF c] .
  assume m: "\<forall>y. fid s y = oid \<longrightarrow> rc y < INT_MAX"
  obtain n0 y where y: "\<forall>n \<ge> n0. find_loop n s oid (fh s (HASH oid)) = Inr y"
      "if y = 0 then \<forall>z. 0 < rc z \<longrightarrow> fid s z \<noteq> oid else fid s y = oid \<and> 0 < rc y" using find_loop_ok [OF c] by blast
  show "\<exists>n0 x s'. (\<forall>n \<ge> n0. foo_find2 n s oid = Inr (x, s')) \<and>
      (if x = 0 then s' = s \<and> (\<forall>y. 0 < rc y \<longrightarrow> fid s y \<noteq> oid) else fid s x = oid \<and> 0 < rc x \<and> foo_ok s' (rc(x := Suc (rc x))))"
  proof (cases "y = 0")
    case True
    then show ?thesis using y by (intro exI [of _ n0] exI [of _ 0] exI [of _ s]) (simp add: foo_find2_def)
  next
    case False
    then obtain s' where "foo_hold s y = Inr s'" "foo_ok s' (rc(y := Suc (rc y)))" using foo_hold_ok [OF c, of y] y(2) m by auto
    then show ?thesis using y False by (intro exI [of _ n0] exI [of _ y] exI [of _ s']) (simp add: foo_find2_def)
  qed
qed

text \<open>\<^verbatim>\<open>foo_hold\<close> of \<^verbatim>\<open>mutex3.c\<close> differs only in the lock it takes; finding is the same as in \<^verbatim>\<open>mutex2.c\<close>.\<close>

lemma foo_find3_eq:
  assumes "foo_ok s rc"
  shows "foo_find3 n s oid = foo_find2 n s oid"
proof -
  have "foo_hold s x = add_count x 1 s" if "find_loop n s oid (fh s (HASH oid)) = Inr x" "x \<noteq> 0" for x
    using find_loop_sound [OF that] foo_ok_alive [OF assms, of x] assms
    by (auto simp: foo_hold_def foo_ok_def counts_def)
  then show ?thesis
    by (cases "find_loop n s oid (fh s (HASH oid))") (simp_all add: foo_find2_def foo_find3_def)
qed

interpretation m3: refcount_table foo_ok foo_hold foo_rele3 foo_find3 fid
proof unfold_locales
  fix s rc and x :: nat and oid :: int assume c: "foo_ok s rc"
  show "0 < rc x \<Longrightarrow> rc x < INT_MAX \<Longrightarrow> \<exists>s'. foo_hold s x = Inr s' \<and> foo_ok s' (rc(x := Suc (rc x)))" using foo_hold_ok [OF c] .
  show "0 < rc x \<Longrightarrow> \<exists>n0 s'. (\<forall>n \<ge> n0. foo_rele3 n s x = Inr s') \<and> foo_ok s' (rc(x := rc x - 1))"
    using foo_rele3_ok [OF c] by blast
  show "foo_find3 n s oid = Inr (x, s') \<Longrightarrow> x \<noteq> 0 \<Longrightarrow> fid s x = oid \<and> 0 < rc x \<and> foo_ok s' (rc(x := Suc (rc x)))" for n s'
    using m2.find_sound [OF c] unfolding foo_find3_eq [OF c] .
  show "\<forall>y. fid s y = oid \<longrightarrow> rc y < INT_MAX \<Longrightarrow> \<exists>n0 x s'. (\<forall>n \<ge> n0. foo_find3 n s oid = Inr (x, s')) \<and>
      (if x = 0 then s' = s \<and> (\<forall>y. 0 < rc y \<longrightarrow> fid s y \<noteq> oid) else fid s x = oid \<and> 0 < rc x \<and> foo_ok s' (rc(x := Suc (rc x))))"
    using m2.find_law [OF c] unfolding foo_find3_eq [OF c] .
qed

section \<open>Any number of threads\<close>

text \<open>
  The steps of \<^verbatim>\<open>mutex2.c\<close> in any order by any threads. \<open>refs x\<close> counts the references that
  threads hold, \<open>pend x\<close> the threads that are between the two steps of \<^verbatim>\<open>foo_rele\<close> for
  \<open>x\<close>; each of them still holds its reference, and a thread uses only references it holds.
\<close>

record foo_sys =
  fstore :: foos
  refs :: "nat \<Rightarrow> nat"
  pend :: "nat \<Rightarrow> nat"

inductive foo_step :: "foo_sys \<Rightarrow> foo_sys \<Rightarrow> bool" where
  st_alloc: "fp \<noteq> 0 \<Longrightarrow> \<not> falive (fstore c) fp \<Longrightarrow>
    foo_step c (c\<lparr>fstore := snd (foo_alloc2 (fstore c) (Some fp) True oid), refs := (refs c)(fp := 1)\<rparr>)"
| st_hold: "pend c x < refs c x \<Longrightarrow> foo_hold (fstore c) x = Inr s' \<Longrightarrow>
    foo_step c (c\<lparr>fstore := s', refs := (refs c)(x := Suc (refs c x))\<rparr>)"
| st_find: "foo_find2 n (fstore c) oid = Inr (x, s') \<Longrightarrow> x \<noteq> 0 \<Longrightarrow>
    foo_step c (c\<lparr>fstore := s', refs := (refs c)(x := Suc (refs c x))\<rparr>)"
| st_rele: "pend c x < refs c x \<Longrightarrow> foo_rele2_a (fstore c) x = Inr (s', False) \<Longrightarrow>
    foo_step c (c\<lparr>fstore := s', refs := (refs c)(x := refs c x - 1)\<rparr>)"
| st_last: "pend c x < refs c x \<Longrightarrow> foo_rele2_a (fstore c) x = Inr (s', True) \<Longrightarrow>
    foo_step c (c\<lparr>fstore := s', pend := (pend c)(x := Suc (pend c x))\<rparr>)"
| st_recheck: "0 < pend c x \<Longrightarrow> foo_rele2_b n (fstore c) x = Inr s' \<Longrightarrow>
    foo_step c (c\<lparr>fstore := s', refs := (refs c)(x := refs c x - 1), pend := (pend c)(x := pend c x - 1)\<rparr>)"

inductive foo_reach :: "foo_sys \<Rightarrow> bool" where
  reach_init: "(\<forall>x. \<not> falive s x) \<Longrightarrow> (\<forall>i. fh s i = 0) \<Longrightarrow> foo_reach \<lparr>fstore = s, refs = (\<lambda>_. 0), pend = (\<lambda>_. 0)\<rparr>"
| reach_step: "foo_reach c \<Longrightarrow> foo_step c d \<Longrightarrow> foo_reach d"

definition sys_ok :: "foo_sys \<Rightarrow> bool" where
  "sys_ok c \<longleftrightarrow> foo_ok (fstore c) (refs c) \<and> (\<forall>x. pend c x \<le> refs c x)"

lemma unlink_loop_mono: "unlink_loop n s x a = Inr t \<Longrightarrow> n \<le> m \<Longrightarrow> unlink_loop m s x a = Inr t"
proof (induction n arbitrary: a m)
  case 0
  then show ?case by (auto simp: unlink_loop.simps [of 0] unlink_loop.simps [of m] bnd_eq_Inr_iff split: if_splits)
next
  case (Suc n)
  then obtain k where k: "m = Suc k" "n \<le> k" by (cases m) auto
  show ?case using Suc.prems(1) Suc.IH [OF _ k(2)]
    by (auto simp: k(1) unlink_loop.simps [of "Suc i" for i] bnd_eq_Inr_iff split: if_splits)
qed

text \<open>A result does not depend on the fuel.\<close>

lemma foo_unlink_mono: "foo_unlink n s x = Inr r \<Longrightarrow> n \<le> m \<Longrightarrow> foo_unlink m s x = Inr r"
  unfolding foo_unlink_def Let_def
  by (cases "fh s (HASH (fid s x)) = x") (auto simp: bnd_eq_Inr_iff dest: unlink_loop_mono)

lemma foo_rele2_b_mono: "foo_rele2_b n s x = Inr r \<Longrightarrow> n \<le> m \<Longrightarrow> foo_rele2_b m s x = Inr r"
  unfolding foo_rele2_b_def
  by (cases "fcount s x = 1") (auto simp: bnd_eq_Inr_iff dest: foo_unlink_mono)

lemma mono_agree:
  fixes n n0 :: nat
  assumes "\<And>m. n \<le> m \<Longrightarrow> f m = Inr a" "\<forall>m \<ge> n0. f m = Inr b"
  shows "a = b"
  using assms(1) [of "max n n0"] assms(2) by simp

lemma foo_step_ok:
  assumes "foo_step c d" "sys_ok c"
  shows "sys_ok d"
proof -
  have ok: "foo_ok (fstore c) (refs c)" "\<And>x. pend c x \<le> refs c x" using assms(2) by (auto simp: sys_ok_def)
  show ?thesis using assms(1)
  proof cases
    case (st_alloc fp oid)
    have "refs c fp = 0" using ok(1) st_alloc(3) by (auto simp: foo_ok_def counts_def)
    then show ?thesis using st_alloc(1) foo_alloc2_ok [OF ok(1) st_alloc(2), of oid] ok(2) ok(2) [of fp] by (auto simp: sys_ok_def)
  next
    case (st_hold x s')
    then have p: "0 < refs c x" by simp
    show ?thesis using foo_hold_fits(2) [OF ok(1) p st_hold(3)] st_hold(1) ok(2) by (auto simp: sys_ok_def intro: le_SucI)
  next
    case (st_find n oid x s')
    then show ?thesis using m2.find_sound [OF ok(1) st_find(2,3)] ok(2) by (auto simp: sys_ok_def intro: le_SucI)
  next
    case (st_rele x s')
    then have p: "0 < refs c x" by simp
    note a = foo_rele2_a_ok [OF ok(1) p]
    have "refs c x \<noteq> 1" "s' = set_count x (int (refs c x - 1)) (fstore c)" using a(1) st_rele(3) by (auto split: if_splits)
    then show ?thesis using a(2) st_rele(1,2) ok(2) by (auto simp: sys_ok_def)
  next
    case (st_last x s')
    then have p: "0 < refs c x" by simp
    have "s' = fstore c" using foo_rele2_a_ok(1) [OF ok(1) p] st_last(3) by (auto split: if_splits)
    then show ?thesis using st_last(1,2) ok by (auto simp: sys_ok_def)
  next
    case (st_recheck x n s')
    then have p: "0 < refs c x" using ok(2) [of x] by simp
    obtain n0 t where "\<forall>m \<ge> n0. foo_rele2_b m (fstore c) x = Inr t" "foo_ok t ((refs c)(x := refs c x - 1))"
      using foo_rele2_b_ok [OF ok(1) p] by blast
    moreover from this(1) have "s' = t"
      using mono_agree [of n "\<lambda>m. foo_rele2_b m (fstore c) x" s' n0 t] foo_rele2_b_mono [OF st_recheck(3)] by blast
    ultimately show ?thesis using st_recheck(1) ok(2) by (auto simp: sys_ok_def diff_le_mono)
  qed
qed

lemma foo_reach_ok: "foo_reach c \<Longrightarrow> sys_ok c"
proof (induction rule: foo_reach.induct)
  case (reach_init s)
  then have "table s (\<lambda>_. [])" by (simp add: table_def)
  then show ?case using reach_init by (auto simp: sys_ok_def foo_ok_def counts_def)
next
  case (reach_step c d)
  then show ?case using foo_step_ok by blast
qed

section \<open>Properties\<close>

text \<open>
  C37: Reference counts under any interleaving. In every state that threads can reach with the
  steps of \<^verbatim>\<open>mutex2.c\<close>, an object is allocated exactly as long as somebody holds a reference, its
  count is the number of references, at most \<^verbatim>\<open>INT_MAX\<close>, the hash chains hold exactly the allocated
  objects, and no step touches freed memory or fails to return. Holding succeeds up to \<^verbatim>\<open>INT_MAX\<close>
  references and has no defined result beyond; finding a number gives an allocated object with
  that number, counted once more, or NULL when there is none, unless such an object has
  \<^verbatim>\<open>INT_MAX\<close> references; both steps of releasing always succeed. The recheck in \<^verbatim>\<open>foo_rele\<close> frees the
  object exactly when no reference was taken in between.
\<close>

theorem foo_interleaved_safe:
  assumes "foo_reach c"
  shows "(\<forall>x. (falive (fstore c) x \<longleftrightarrow> 0 < refs c x) \<and> refs c x \<le> INT_MAX \<and> (0 < refs c x \<longrightarrow> fcount (fstore c) x = int (refs c x)))
    \<and> (\<exists>L. table (fstore c) L)
    \<and> (\<forall>x. pend c x < refs c x \<longrightarrow>
        foo_hold (fstore c) x = (if refs c x < INT_MAX then Inr (set_count x (int (Suc (refs c x))) (fstore c))
          else Inl (Undefined ''overflow of f_count'')) \<and>
        (\<exists>s' last. foo_rele2_a (fstore c) x = Inr (s', last)))
    \<and> (\<forall>x. 0 < pend c x \<longrightarrow> (\<exists>n0 s'. (\<forall>n \<ge> n0. foo_rele2_b n (fstore c) x = Inr s') \<and> (falive s' x \<longleftrightarrow> 1 < refs c x)))
    \<and> (\<forall>oid. (\<forall>y. fid (fstore c) y = oid \<longrightarrow> refs c y < INT_MAX) \<longrightarrow>
        (\<exists>n0 x s'. (\<forall>n \<ge> n0. foo_find2 n (fstore c) oid = Inr (x, s')) \<and>
          (if x = 0 then s' = fstore c \<and> (\<forall>y. 0 < refs c y \<longrightarrow> fid (fstore c) y \<noteq> oid)
           else fid (fstore c) x = oid \<and> 0 < refs c x \<and> falive s' x \<and> fcount s' x = int (Suc (refs c x)))))"
proof -
  have ok: "foo_ok (fstore c) (refs c)" "\<And>x. pend c x \<le> refs c x" using foo_reach_ok [OF assms] by (auto simp: sys_ok_def)
  have c: "counts (fstore c) (refs c)" "\<exists>L. table (fstore c) L" using ok(1) by (auto simp: foo_ok_def)
  have h: "foo_hold (fstore c) x = (if refs c x < INT_MAX then Inr (set_count x (int (Suc (refs c x))) (fstore c))
      else Inl (Undefined ''overflow of f_count'')) \<and> (\<exists>s' last. foo_rele2_a (fstore c) x = Inr (s', last))" if "pend c x < refs c x" for x
    using foo_hold_counts(1) [OF c(1), of x] foo_rele2_a_ok(1) [OF ok(1), of x] that by (cases "refs c x = 1") auto
  have b: "\<exists>n0 s'. (\<forall>n \<ge> n0. foo_rele2_b n (fstore c) x = Inr s') \<and> (falive s' x \<longleftrightarrow> 1 < refs c x)" if "0 < pend c x" for x
  proof -
    have p: "0 < refs c x" using that ok(2) [of x] by simp
    obtain n0 s' where s': "\<forall>n \<ge> n0. foo_rele2_b n (fstore c) x = Inr s'" "foo_ok s' ((refs c)(x := refs c x - 1))"
      using foo_rele2_b_ok [OF ok(1) p] by blast
    then have "falive s' x \<longleftrightarrow> 1 < refs c x" by (auto simp: foo_ok_def counts_def)
    then show ?thesis using s'(1) by blast
  qed
  have up: "falive s' x \<and> fcount s' x = int (Suc (refs c x))" if "foo_ok s' ((refs c)(x := Suc (refs c x)))" for s' x
    using foo_ok_alive [OF that, of x] by simp
  have f: "\<exists>n0 x s'. (\<forall>n \<ge> n0. foo_find2 n (fstore c) oid = Inr (x, s')) \<and>
      (if x = 0 then s' = fstore c \<and> (\<forall>y. 0 < refs c y \<longrightarrow> fid (fstore c) y \<noteq> oid)
       else fid (fstore c) x = oid \<and> 0 < refs c x \<and> falive s' x \<and> fcount s' x = int (Suc (refs c x)))"
    if "\<forall>y. fid (fstore c) y = oid \<longrightarrow> refs c y < INT_MAX" for oid
    using m2.find_law [OF ok(1) that] up by (metis (no_types, lifting))
  show ?thesis using c h b f unfolding counts_def by blast
qed

definition ex_foos :: foos where
  "ex_foos = \<lparr>fcount = (\<lambda>_. 0), fid = (\<lambda>_. 0), fnext = (\<lambda>_. 0), falive = (\<lambda>_. False), fh = (\<lambda>_. 0)\<rparr>"

definition ex_sys :: foo_sys where
  "ex_sys = \<lparr>fstore = snd (foo_alloc2 ex_foos (Some 1) True 30), refs = (\<lambda>_. 0)(1 := 1), pend = (\<lambda>_. 0)\<rparr>"

lemma ex_sys_reach: "foo_reach ex_sys"
proof -
  have i: "foo_reach \<lparr>fstore = ex_foos, refs = (\<lambda>_. 0), pend = (\<lambda>_. 0)\<rparr>" by (rule reach_init) (simp_all add: ex_foos_def)
  have "foo_step \<lparr>fstore = ex_foos, refs = (\<lambda>_. 0), pend = (\<lambda>_. 0)\<rparr> ex_sys"
    using st_alloc [of 1 "\<lparr>fstore = ex_foos, refs = (\<lambda>_. 0), pend = (\<lambda>_. 0)\<rparr>" 30] by (simp add: ex_sys_def ex_foos_def)
  then show ?thesis by (rule reach_step [OF i])
qed

theorem foo_interleaved_safe_witness:
  "falive (fstore ex_sys) 1 \<and> fcount (fstore ex_sys) 1 = 1 \<and> (\<exists>s' last. foo_rele2_a (fstore ex_sys) 1 = Inr (s', last))"
  using foo_interleaved_safe [OF ex_sys_reach] by (simp add: ex_sys_def)

text \<open>
  C38: Three implementations of one contract. \<^verbatim>\<open>foo_alloc\<close> returns NULL and changes nothing when there is
  no memory or no lock, and otherwise a new object with the number and one reference. Taking \<open>k\<close> more
  references to an object one holds, up to \<^verbatim>\<open>INT_MAX\<close>, and giving back \<open>j\<close>, at most as many as there
  are, always returns and leaves the object allocated with the remaining count, or freed when
  none remains, in \<^verbatim>\<open>mutex1.c\<close>, \<^verbatim>\<open>mutex2.c\<close> and \<^verbatim>\<open>mutex3.c\<close> alike. In the two with a table, an
  object with the number of one that is held is found, and counted once more; releasing it again restores all counts.
\<close>

theorem refcount_contract:
  assumes "foo_ok s rc" "0 < rc x" "rc x + k \<le> INT_MAX" "j \<le> rc x + k" "\<forall>z. fid s z = fid s x \<longrightarrow> rc z < INT_MAX"
    and "fp \<noteq> 0" "rc fp = 0"
  shows "(\<forall>m ok oid. m = None \<or> \<not> ok \<longrightarrow> foo_alloc1 s m ok oid = (0, s) \<and> foo_alloc2 s m ok oid = (0, s))
    \<and> (\<exists>s1. foo_alloc1 s (Some fp) True oid = (fp, s1) \<and> counts s1 (rc(fp := 1)) \<and> fid s1 = (fid s)(fp := oid))
    \<and> (\<exists>s1. foo_alloc2 s (Some fp) True oid = (fp, s1) \<and> foo_ok s1 (rc(fp := 1)) \<and> fid s1 = (fid s)(fp := oid))
    \<and> (\<exists>s1 s2. holds foo_hold k s x = Inr s1 \<and> reles foo_rele1 j s1 x = Inr s2 \<and> counts s2 (rc(x := rc x + k - j)))
    \<and> (\<exists>n0 s1 s2. holds foo_hold k s x = Inr s1 \<and> (\<forall>n \<ge> n0. reles (foo_rele2 n) j s1 x = Inr s2) \<and> foo_ok s2 (rc(x := rc x + k - j)))
    \<and> (\<exists>n0 s1 s2. holds foo_hold k s x = Inr s1 \<and> (\<forall>n \<ge> n0. reles (foo_rele3 n) j s1 x = Inr s2) \<and> foo_ok s2 (rc(x := rc x + k - j)))
    \<and> (\<exists>n0 y s' s''. (\<forall>n \<ge> n0. foo_find2 n s (fid s x) = Inr (y, s')) \<and> y \<noteq> 0 \<and> fid s y = fid s x \<and> foo_ok s' (rc(y := Suc (rc y)))
        \<and> (\<forall>n \<ge> n0. foo_rele2 n s' y = Inr s'') \<and> foo_ok s'' rc)
    \<and> (\<exists>n0 y s' s''. (\<forall>n \<ge> n0. foo_find3 n s (fid s x) = Inr (y, s')) \<and> y \<noteq> 0 \<and> fid s y = fid s x \<and> foo_ok s' (rc(y := Suc (rc y)))
        \<and> (\<forall>n \<ge> n0. foo_rele3 n s' y = Inr s'') \<and> foo_ok s'' rc)"
proof (intro conjI)
  have c: "counts s rc" using assms(1) by (simp add: foo_ok_def)
  show "\<exists>s1 s2. holds foo_hold k s x = Inr s1 \<and> reles foo_rele1 j s1 x = Inr s2 \<and> counts s2 (rc(x := rc x + k - j))"
    using m1.holds_reles [OF c assms(2-4)] by blast
  show "\<forall>m ok oid. m = None \<or> \<not> ok \<longrightarrow> foo_alloc1 s m ok oid = (0, s) \<and> foo_alloc2 s m ok oid = (0, s)"
    by (auto simp: foo_alloc1_def foo_alloc2_def split: option.split)
  show "\<exists>s1. foo_alloc1 s (Some fp) True oid = (fp, s1) \<and> counts s1 (rc(fp := 1)) \<and> fid s1 = (fid s)(fp := oid)"
    using c assms(6) by (auto simp: foo_alloc1_def counts_def INT_MAX_def)
  show "\<exists>s1. foo_alloc2 s (Some fp) True oid = (fp, s1) \<and> foo_ok s1 (rc(fp := 1)) \<and> fid s1 = (fid s)(fp := oid)"
    using foo_alloc2_ok [OF assms(1,6,7), of oid] by (metis prod.collapse)
qed (use m2.holds_reles [OF assms(1-4)] m3.holds_reles [OF assms(1-4)] m2.find_held [OF assms(1,2) refl assms(5)]
    m3.find_held [OF assms(1,2) refl assms(5)] in blast)+

theorem refcount_contract_witness:
  "\<exists>n0 s1 s2. holds foo_hold 2 (fstore ex_sys) 1 = Inr s1 \<and> (\<forall>n \<ge> n0. reles (foo_rele2 n) 3 s1 1 = Inr s2) \<and> \<not> falive s2 1"
proof -
  have ok: "foo_ok (fstore ex_sys) (refs ex_sys)" using foo_reach_ok [OF ex_sys_reach] by (simp add: sys_ok_def)
  have r: "refs ex_sys 1 = 1" "refs ex_sys 2 = 0" by (simp_all add: ex_sys_def)
  have m: "\<forall>z. fid (fstore ex_sys) z = fid (fstore ex_sys) 1 \<longrightarrow> refs ex_sys z < INT_MAX" by (simp add: ex_sys_def INT_MAX_def)
  have p: "0 < refs ex_sys 1" "refs ex_sys 1 + 2 \<le> INT_MAX" "3 \<le> refs ex_sys 1 + 2" "(2 :: nat) \<noteq> 0" using r by (simp_all add: INT_MAX_def)
  from refcount_contract [OF ok p(1-3) m p(4) r(2), where oid = 0]
  obtain n0 s1 s2 where s: "holds foo_hold 2 (fstore ex_sys) 1 = Inr s1" "\<forall>n \<ge> n0. reles (foo_rele2 n) 3 s1 1 = Inr s2"
      "foo_ok s2 ((refs ex_sys)(1 := refs ex_sys 1 + 2 - 3))"
    by blast
  have "\<not> falive s2 1" using s(3) r by (simp add: foo_ok_def counts_def)
  then show ?thesis using s(1,2) by blast
qed

end
