(* ===== verification/Barrier_Sort.thy ===== *)
theory Barrier_Sort
  imports Prelude "HOL-Library.Multiset"
begin

text \<open>
  Sorting with several threads and a barrier (\<^verbatim>\<open>threads/barrier.c\<close>): every thread sorts its part of
  the array with \<^verbatim>\<open>heapsort\<close> (a library function, an argument here), the barrier waits for all
  of them, and \<^verbatim>\<open>merge\<close> takes the smallest remaining number of all parts until none
  is left. The number of threads \<open>n\<close> and the size \<open>t\<close> of a part are arguments; \<^verbatim>\<open>long\<close> has 64 bits.
  The threads and the barrier are the steps of a relation, in any order.
\<close>

section \<open>The program\<close>

definition LONG_MAX :: int where "LONG_MAX = 2 ^ 63 - 1"

definition complong :: "int \<Rightarrow> int \<Rightarrow> int" where
  "complong l1 l2 = (if l1 = l2 then 0 else if l1 < l2 then -1 else 1)"

text \<open>Lines 68 to 74; \<^verbatim>\<open>minidx\<close> keeps its old value when no number is smaller than \<^verbatim>\<open>LONG_MAX\<close>.\<close>

definition find_min :: "nat \<Rightarrow> nat \<Rightarrow> int list \<Rightarrow> nat list \<Rightarrow> nat \<Rightarrow> int \<times> nat" where
  "find_min n t ns idx minidx =
     fold (\<lambda>i (num, mi). if idx ! i < (i + 1) * t \<and> ns ! (idx ! i) < num then (ns ! (idx ! i), i) else (num, mi))
       [0..<n] (LONG_MAX, minidx)"

fun merge_loop :: "nat \<Rightarrow> nat \<Rightarrow> nat \<Rightarrow> int list \<Rightarrow> nat list \<Rightarrow> nat \<Rightarrow> int list \<Rightarrow> int list res" where
  "merge_loop 0 n t ns idx minidx snums = Inr snums"
| "merge_loop (Suc k) n t ns idx minidx snums =
     (let mi = snd (find_min n t ns idx minidx)
      in if length idx \<le> mi \<or> length ns \<le> idx ! mi then Inl (Undefined ''out of bounds'')
         else merge_loop k n t ns (idx[mi := idx ! mi + 1]) mi (snums @ [ns ! (idx ! mi)]))"

text \<open>\<open>g\<close> is what \<^verbatim>\<open>minidx\<close> holds before it is ever set.\<close>

definition merge :: "nat \<Rightarrow> nat \<Rightarrow> nat \<Rightarrow> int list \<Rightarrow> int list res" where
  "merge g n t ns = merge_loop (n * t) n t ns (map (\<lambda>i. i * t) [0..<n]) g []"

section \<open>The threads and the barrier\<close>

text \<open>
  A thread that is not there yet, before \<^verbatim>\<open>heapsort\<close>, before the barrier, waiting at it, or behind it; and the main
  thread, before the creation of thread \<open>i\<close>, before the barrier, waiting at it, before \<^verbatim>\<open>merge\<close>, with the result of
  \<^verbatim>\<open>merge\<close>, ended by \<^verbatim>\<open>err_exit\<close>, or after an access outside the arrays.
\<close>

datatype wpc = W_none | W_sort | W_wait | W_blocked | W_done

datatype mpc = M_create nat | M_wait | M_blocked | M_merge | M_done "int list" | M_exit errno | M_undefined

text \<open>\<open>b_left\<close>: how many threads the barrier still waits for.\<close>

record bstate =
  nums :: "int list"
  wpcs :: "nat \<Rightarrow> wpc"
  mpc :: mpc
  b_left :: nat

text \<open>
  The program's arguments: number and size of the parts, what \<^verbatim>\<open>minidx\<close> holds before it is set, what \<^verbatim>\<open>heapsort\<close>
  returns and does in thread \<open>i\<close>, and whether the creation of thread \<open>i\<close> fails.
\<close>

record bargs =
  nthr :: nat
  tnum :: nat
  garbage :: nat
  heapsort :: "nat \<Rightarrow> (int \<Rightarrow> int \<Rightarrow> int) \<Rightarrow> int list \<Rightarrow> int \<times> int list"
  create_err :: "nat \<Rightarrow> errno option"

text \<open>The barrier lets all threads go when the last one has come, and is as new then; which of the threads is released does not matter.\<close>

definition barrier_wait :: "nat \<Rightarrow> nat option \<Rightarrow> bstate \<Rightarrow> bstate" where
  "barrier_wait n me s =
     (let s1 = (case me of Some i \<Rightarrow> s\<lparr>wpcs := (wpcs s)(i := W_blocked)\<rparr> | None \<Rightarrow> s\<lparr>mpc := M_blocked\<rparr>)
      in if b_left s1 = 1
         then s1\<lparr>wpcs := (\<lambda>j. if wpcs s1 j = W_blocked then W_done else wpcs s1 j), mpc := (if mpc s1 = M_blocked then M_merge else mpc s1), b_left := n + 1\<rparr>
         else s1\<lparr>b_left := b_left s1 - 1\<rparr>)"

text \<open>The call of line 47: the part is sorted in place, and the result, which may report a failure, is not used.\<close>

definition sort_part :: "bargs \<Rightarrow> nat \<Rightarrow> int list \<Rightarrow> int list" where
  "sort_part A i xs =
     (let t = tnum A; idx = i * t; (r, part) = heapsort A i complong (take t (drop idx xs))
      in take idx xs @ part @ drop (idx + t) xs)"

definition thr_fn_barrier :: "bargs \<Rightarrow> nat \<Rightarrow> bstate \<Rightarrow> bstate option" where
  "thr_fn_barrier A i s =
     (case wpcs s i of
        W_sort \<Rightarrow> Some (s\<lparr>nums := sort_part A i (nums s), wpcs := (wpcs s)(i := W_wait)\<rparr>)
      | W_wait \<Rightarrow> Some (barrier_wait (nthr A) (Some i) s)
      | _ \<Rightarrow> None)"

definition barrier_main :: "bargs \<Rightarrow> bstate \<Rightarrow> bstate option" where
  "barrier_main A s =
     (case mpc s of
        M_create i \<Rightarrow>
          if i < nthr A
          then (case create_err A i of
                  Some e \<Rightarrow> Some (s\<lparr>mpc := M_exit e\<rparr>)
                | None \<Rightarrow> Some (s\<lparr>wpcs := (wpcs s)(i := W_sort), mpc := M_create (i + 1)\<rparr>))
          else Some (s\<lparr>mpc := M_wait\<rparr>)
      | M_wait \<Rightarrow> Some (barrier_wait (nthr A) None s)
      | M_merge \<Rightarrow> Some (s\<lparr>mpc := (case merge (garbage A) (nthr A) (tnum A) (nums s) of Inr out \<Rightarrow> M_done out | Inl f \<Rightarrow> M_undefined)\<rparr>)
      | _ \<Rightarrow> None)"

text \<open>After \<^verbatim>\<open>err_exit\<close> no thread goes on.\<close>

inductive bar_step :: "bargs \<Rightarrow> bstate \<Rightarrow> bstate \<Rightarrow> bool" for A where
  worker: "i < nthr A \<Longrightarrow> \<forall>e. mpc s \<noteq> M_exit e \<Longrightarrow> thr_fn_barrier A i s = Some s' \<Longrightarrow> bar_step A s s'"
| main: "barrier_main A s = Some s' \<Longrightarrow> bar_step A s s'"

definition bar_start :: "bargs \<Rightarrow> int list \<Rightarrow> bstate" where
  "bar_start A xs = \<lparr>nums = xs, wpcs = (\<lambda>_. W_none), mpc = M_create 0, b_left = nthr A + 1\<rparr>"

section \<open>Merging\<close>

text \<open>What is left of part \<open>i\<close>.\<close>

definition rest :: "nat \<Rightarrow> int list \<Rightarrow> nat list \<Rightarrow> nat \<Rightarrow> int list" where
  "rest t ns idx i = take ((i + 1) * t - idx ! i) (drop (idx ! i) ns)"

definition left :: "nat \<Rightarrow> nat \<Rightarrow> int list \<Rightarrow> nat list \<Rightarrow> int list" where
  "left n t ns idx = concat (map (rest t ns idx) [0..<n])"

definition merge_inv :: "nat \<Rightarrow> nat \<Rightarrow> int list \<Rightarrow> nat list \<Rightarrow> bool" where
  "merge_inv n t ns idx \<longleftrightarrow> length idx = n \<and> length ns = n * t \<and> (\<forall>i < n. sorted (rest t ns idx i)) \<and>
     (\<forall>x \<in> set ns. x < LONG_MAX)"

lemma rest_head:
  assumes "length ns = n * t" "i < n"
  shows "rest t ns idx i \<noteq> [] \<longleftrightarrow> idx ! i < (i + 1) * t" "rest t ns idx i \<noteq> [] \<Longrightarrow> hd (rest t ns idx i) = ns ! (idx ! i)"
    "rest t ns idx i \<noteq> [] \<Longrightarrow> idx ! i < length ns"
proof -
  have "(i + 1) * t \<le> n * t" using assms(2) by (intro mult_le_mono1) simp
  then show e: "rest t ns idx i \<noteq> [] \<longleftrightarrow> idx ! i < (i + 1) * t" using assms(1) by (auto simp: rest_def)
  show l: "rest t ns idx i \<noteq> [] \<Longrightarrow> idx ! i < length ns" by (auto simp: rest_def)
  show "rest t ns idx i \<noteq> [] \<Longrightarrow> hd (rest t ns idx i) = ns ! (idx ! i)"
    using l by (simp add: rest_def hd_drop_conv_nth hd_take)
qed

lemma find_min_ok:
  assumes "merge_inv n t ns idx" "m \<le> n"
  shows "(case fold (\<lambda>i (num, mi). if idx ! i < (i + 1) * t \<and> ns ! (idx ! i) < num then (ns ! (idx ! i), i) else (num, mi)) [0..<m] (LONG_MAX, g)
     of (num, mi) \<Rightarrow> (num = LONG_MAX \<and> (\<forall>i < m. rest t ns idx i = [])) \<or>
       (mi < m \<and> rest t ns idx mi \<noteq> [] \<and> num = hd (rest t ns idx mi) \<and> num < LONG_MAX \<and>
        (\<forall>i < m. rest t ns idx i \<noteq> [] \<longrightarrow> num \<le> hd (rest t ns idx i))))"
  using assms(2)
proof (induction m)
  case (Suc m)
  have ns: "length ns = n * t" "\<forall>x \<in> set ns. x < LONG_MAX" using assms(1) by (auto simp: merge_inv_def)
  note h = rest_head [OF ns(1), of m idx]
  have lt: "ns ! (idx ! m) < LONG_MAX" if "rest t ns idx m \<noteq> []"
    using h(3) [OF _ that] Suc.prems ns(2) by simp
  have m: "m < n" "m \<le> n" using Suc.prems by simp_all
  obtain num mi where f: "fold (\<lambda>i (num, mi). if idx ! i < (i + 1) * t \<and> ns ! (idx ! i) < num then (ns ! (idx ! i), i) else (num, mi)) [0..<m] (LONG_MAX, g) = (num, mi)"
    by fastforce
  note ih = Suc.IH [OF m(2), unfolded f prod.case]
  show ?case
  proof (cases "rest t ns idx m \<noteq> [] \<and> hd (rest t ns idx m) < num")
    case True
    then have "\<forall>i < m. rest t ns idx i \<noteq> [] \<longrightarrow> hd (rest t ns idx m) \<le> hd (rest t ns idx i)" using ih by fastforce
    then show ?thesis using True f h(1,2) [OF m(1)] lt by (auto simp: less_Suc_eq)
  next
    case False
    then have c: "\<not> (idx ! m < (m + 1) * t \<and> ns ! (idx ! m) < num)" using h(1,2) [OF m(1)] by auto
    have e: "rest t ns idx m = [] \<or> num < LONG_MAX" using False lt h(2) [OF m(1)] ih by (cases "rest t ns idx m = []") auto
    then show ?thesis using ih False c f by (auto simp: less_Suc_eq)
  qed
qed simp

lemma concat_pick:
  assumes "m < n" "f m = x # f' m" "\<And>i. i < n \<Longrightarrow> i \<noteq> m \<Longrightarrow> f i = f' i"
  shows "mset (concat (map f [0..<n])) = add_mset x (mset (concat (map f' [0..<n])))"
  using assms
proof (induction n)
  case (Suc n)
  show ?case
  proof (cases "m = n")
    case True
    have e: "map f [0..<n] = map f' [0..<n]" using Suc.prems(3) True by auto
    show ?thesis using Suc.prems(2) True by (simp add: e del: map_eq_conv)
  next
    case False
    then show ?thesis using Suc by simp
  qed
qed simp

lemma merge_loop_sorts:
  assumes "merge_inv n t ns idx" "length (left n t ns idx) = k"
  shows "\<exists>out. merge_loop k n t ns idx g snums = Inr (snums @ out) \<and> sorted out \<and> mset out = mset (left n t ns idx)"
  using assms
proof (induction k arbitrary: idx g snums)
  case 0
  then show ?case by (intro exI [of _ "[]"]) simp
next
  case (Suc k)
  have ns: "length ns = n * t" "length idx = n" using Suc.prems(1) by (auto simp: merge_inv_def)
  obtain num m where fm: "find_min n t ns idx g = (num, m)" by (cases "find_min n t ns idx g") auto
  have ne: "\<exists>i < n. rest t ns idx i \<noteq> []"
  proof (rule ccontr)
    assume "\<not> ?thesis"
    then have "left n t ns idx = []" by (auto simp: left_def)
    then show False using Suc.prems(2) by simp
  qed
  have m: "m < n" "rest t ns idx m \<noteq> []" "num = hd (rest t ns idx m)" "\<forall>i < n. rest t ns idx i \<noteq> [] \<longrightarrow> num \<le> hd (rest t ns idx i)"
    using find_min_ok [OF Suc.prems(1) order_refl, of g] fm ne by (auto simp: find_min_def)
  note h = rest_head [OF ns(1) m(1), of idx]
  let ?idx = "idx[m := idx ! m + 1]"
  have r: "rest t ns idx m = num # rest t ns ?idx m" "\<And>i. i < n \<Longrightarrow> i \<noteq> m \<Longrightarrow> rest t ns idx i = rest t ns ?idx i"
  proof -
    have "idx ! m < length ns" "idx ! m < (m + 1) * t" using h m(2) by auto
    then have "rest t ns idx m = ns ! (idx ! m) # take ((m + 1) * t - Suc (idx ! m)) (drop (Suc (idx ! m)) ns)"
      unfolding rest_def by (metis Cons_nth_drop_Suc Suc_diff_Suc take_Suc_Cons)
    then show "rest t ns idx m = num # rest t ns ?idx m" using m(1-3) h(2) ns(2) by (simp add: rest_def)
    show "\<And>i. i < n \<Longrightarrow> i \<noteq> m \<Longrightarrow> rest t ns idx i = rest t ns ?idx i" by (simp add: rest_def)
  qed
  have ms: "mset (left n t ns idx) = add_mset num (mset (left n t ns ?idx))"
    unfolding left_def by (rule concat_pick [of m n "rest t ns idx" num "rest t ns ?idx"]) (use m(1) r in auto)
  have inv: "merge_inv n t ns ?idx"
  proof -
    have "sorted (rest t ns ?idx i)" if "i < n" for i
      using Suc.prems(1) r that by (cases "i = m") (force simp: merge_inv_def)+
    then show ?thesis using Suc.prems(1) by (simp add: merge_inv_def)
  qed
  have "length (left n t ns ?idx) = k" using arg_cong [OF ms, of size] Suc.prems(2) by simp
  then obtain out where out: "merge_loop k n t ns ?idx m (snums @ [num]) = Inr ((snums @ [num]) @ out)" "sorted out" "mset out = mset (left n t ns ?idx)"
    using Suc.IH [OF inv] by blast
  have le: "num \<le> y" if "y \<in> set out" for y
  proof -
    have "y \<in> set (left n t ns idx)" using that out(3) ms by (metis insert_iff set_mset_add_mset_insert set_mset_mset)
    then obtain i where i: "i < n" "y \<in> set (rest t ns idx i)" by (auto simp: left_def)
    then obtain z zs where z: "rest t ns idx i = z # zs" by (cases "rest t ns idx i") auto
    have "sorted (z # zs)" using Suc.prems(1) i(1) z by (auto simp: merge_inv_def)
    then have "z \<le> y" using i(2) z by auto
    moreover have "num \<le> z" using m(4) i(1) z by auto
    ultimately show ?thesis by simp
  qed
  have "merge_loop (Suc k) n t ns idx g snums = Inr (snums @ num # out)"
    using out(1) fm m(1,3) h m(2) ns(2) by (simp add: Let_def)
  moreover have "sorted (num # out)" using le out(2) by simp
  ultimately show ?case using out(3) ms by (intro exI [of _ "num # out"]) simp
qed

section \<open>Sorting the parts\<close>

text \<open>
  What \<^verbatim>\<open>heapsort\<close> is documented to do when it returns 0: order the array by the comparison function.
\<close>

definition heapsort_ok :: "((int \<Rightarrow> int \<Rightarrow> int) \<Rightarrow> int list \<Rightarrow> int \<times> int list) \<Rightarrow> bool" where
  "heapsort_ok hs \<longleftrightarrow> (\<forall>c xs ys. hs c xs = (0, ys) \<longrightarrow> mset ys = mset xs \<and>
     ((\<forall>a b. c a b \<le> 0 \<or> c b a \<le> 0) \<and> (\<forall>a b d. c a b \<le> 0 \<longrightarrow> c b d \<le> 0 \<longrightarrow> c a d \<le> 0) \<longrightarrow> sorted_wrt (\<lambda>a b. c a b \<le> 0) ys))"

lemma complong_le: "complong a b \<le> 0 \<longleftrightarrow> a \<le> b"
  by (simp add: complong_def)

lemma heapsort_complong:
  assumes "heapsort_ok hs" "hs complong xs = (0, ys)"
  shows "mset ys = mset xs" "length ys = length xs" "sorted ys"
proof -
  show m: "mset ys = mset xs" using assms by (simp add: heapsort_ok_def)
  then show "length ys = length xs" by (metis size_mset)
  have "(\<forall>a b. complong a b \<le> 0 \<or> complong b a \<le> 0) \<and> (\<forall>a b d. complong a b \<le> 0 \<longrightarrow> complong b d \<le> 0 \<longrightarrow> complong a d \<le> 0)"
    by (auto simp: complong_le)
  then have "sorted_wrt (\<lambda>a b. complong a b \<le> 0) ys" using assms unfolding heapsort_ok_def by blast
  then show "sorted ys" by (simp add: complong_le)
qed

definition part :: "nat \<Rightarrow> nat \<Rightarrow> int list \<Rightarrow> int list" where
  "part t i xs = take t (drop (i * t) xs)"

text \<open>Replacing a part by one with the same numbers leaves the other parts as they are.\<close>

lemma replace_part:
  assumes "length xs = n * t" "i < n" "j < n" "mset ys = mset (part t i xs)"
  defines "zs \<equiv> take (i * t) xs @ ys @ drop (i * t + t) xs"
  shows "length zs = n * t" "mset zs = mset xs" "part t j zs = (if j = i then ys else part t j xs)"
proof -
  have it: "i * t + t \<le> n * t" using assms(2) by (metis add.commute mult_Suc mult_le_mono1 Suc_leI)
  have jt: "j * t + t \<le> n * t" using assms(3) by (metis add.commute mult_Suc mult_le_mono1 Suc_leI)
  have lh: "length ys = t" using arg_cong [OF assms(4), of size] assms(1) it by (simp add: part_def)
  show l: "length zs = n * t" using lh it assms(1) by (simp add: zs_def)
  have "mset zs = mset (take (i * t) xs) + mset (take t (drop (i * t) xs)) + mset (drop t (drop (i * t) xs))"
    using assms(4) by (simp add: zs_def part_def add.commute)
  also have "\<dots> = mset (take (i * t) xs @ take t (drop (i * t) xs) @ drop t (drop (i * t) xs))" by simp
  also have "\<dots> = mset xs" unfolding append_take_drop_id ..
  finally show "mset zs = mset xs" .
  show "part t j zs = (if j = i then ys else part t j xs)"
  proof (cases "j = i")
    case True
    have "length (take (i * t) xs) = i * t" using it assms(1) by simp
    then show ?thesis using lh True by (simp add: part_def zs_def)
  next
    case False
    have "zs ! (j * t + k) = xs ! (j * t + k)" if k: "k < t" for k
    proof (cases "j < i")
      case True
      then have "j * t + t \<le> i * t" by (metis add.commute mult_Suc mult_le_mono1 Suc_leI)
      then show ?thesis using k it assms(1) by (simp add: zs_def nth_append)
    next
      case False
      then have "i * t + t \<le> j * t" using \<open>j \<noteq> i\<close> by (metis add.commute mult_Suc mult_le_mono1 Suc_leI linorder_neqE_nat)
      moreover have "length (take (i * t) xs @ ys) = i * t + t" using lh it assms(1) by simp
      ultimately have "((take (i * t) xs @ ys) @ drop (i * t + t) xs) ! (j * t + k) = xs ! (j * t + k)"
        unfolding nth_append [of "take (i * t) xs @ ys"] using it jt k assms(1) by simp
      then show ?thesis by (simp add: zs_def)
    qed
    moreover have "j * t \<le> n * t" using assms(3) by simp
    ultimately have "part t j zs = part t j xs"
      unfolding part_def by (intro nth_equalityI) (use jt l assms(1) in simp_all)
    then show ?thesis using False by simp
  qed
qed

lemma merge_sorts:
  assumes "length xs = n * t" "\<forall>j < n. sorted (part t j xs)" "\<forall>x \<in> set xs. x < LONG_MAX"
  shows "merge g n t xs = Inr (sort xs)"
proof -
  let ?idx = "map (\<lambda>i. i * t) [0..<n]"
  have r: "rest t xs ?idx i = part t i xs" if "i < n" for i using that by (simp add: rest_def part_def)
  then have inv: "merge_inv n t xs ?idx" using assms by (auto simp: merge_inv_def)
  have cp: "concat (map (\<lambda>i. part t i xs) [0..<k]) = take (k * t) xs" for k xs
  proof (induction k)
    case (Suc k)
    have "take (Suc k * t) xs = take (k * t) xs @ part t k xs"
      by (simp add: part_def take_add [symmetric] add.commute)
    then show ?case using Suc by simp
  qed simp
  have "map (rest t xs ?idx) [0..<n] = map (\<lambda>i. part t i xs) [0..<n]" using r by auto
  then have lf: "left n t xs ?idx = xs" unfolding left_def using cp [of xs n] assms(1) by (simp only: take_all order_refl)
  obtain out where "merge g n t xs = Inr out" "sorted out" "mset out = mset xs"
    using merge_loop_sorts [OF inv, of "n * t" g "[]"] lf assms(1) by (auto simp: merge_def)
  then show ?thesis by (metis properties_for_sort)
qed

section \<open>What the threads and the barrier keep\<close>

definition at_barrier :: "bargs \<Rightarrow> bstate \<Rightarrow> nat set" where
  "at_barrier A s = {j. j < nthr A \<and> wpcs s j = W_blocked}"

text \<open>The main thread before the barrier: no thread has left it, and it waits for those that are not there.\<close>

definition before_inv :: "bargs \<Rightarrow> bstate \<Rightarrow> bool" where
  "before_inv A s \<longleftrightarrow> 1 \<le> b_left s \<and> (\<forall>j < nthr A. wpcs s j \<noteq> W_done) \<and>
     b_left s + card (at_barrier A s) + (if mpc s = M_blocked then 1 else 0) = nthr A + 1"

definition created :: "bargs \<Rightarrow> bstate \<Rightarrow> bool" where
  "created A s \<longleftrightarrow> (\<forall>j < nthr A. wpcs s j \<noteq> W_none \<and> create_err A j = None)"

definition mpc_inv :: "bargs \<Rightarrow> int list \<Rightarrow> bstate \<Rightarrow> bool" where
  "mpc_inv A xs s \<longleftrightarrow>
     (case mpc s of
        M_create i \<Rightarrow> i \<le> nthr A \<and> (\<forall>j < nthr A. wpcs s j = W_none \<longleftrightarrow> i \<le> j) \<and> (\<forall>j < i. create_err A j = None) \<and> before_inv A s
      | M_wait \<Rightarrow> created A s \<and> before_inv A s
      | M_blocked \<Rightarrow> created A s \<and> before_inv A s
      | M_merge \<Rightarrow> created A s \<and> (\<forall>j < nthr A. wpcs s j = W_done)
      | M_done out \<Rightarrow> created A s \<and> (\<forall>j < nthr A. wpcs s j = W_done) \<and> out = sort xs
      | M_exit e \<Rightarrow> \<exists>i < nthr A. create_err A i = Some e \<and> (\<forall>j < i. create_err A j = None)
      | M_undefined \<Rightarrow> False)"

definition nums_inv :: "bargs \<Rightarrow> int list \<Rightarrow> bstate \<Rightarrow> bool" where
  "nums_inv A xs s \<longleftrightarrow> length (nums s) = nthr A * tnum A \<and> mset (nums s) = mset xs \<and>
     (\<forall>j < nthr A. wpcs s j \<in> {W_wait, W_blocked, W_done} \<longrightarrow> sorted (part (tnum A) j (nums s)))"

lemma finite_at_barrier [simp]: "finite (at_barrier A s)"
  by (simp add: at_barrier_def)

lemma all_at_barrier:
  assumes "S \<subseteq> {..<n}" "n \<le> card S"
  shows "S = {..<n}"
  using assms card_mono [of "{..<n}" S] by (intro card_subset_eq) auto

text \<open>A thread comes to the barrier: it waits, or it was the last one and all go on.\<close>

lemma barrier_wait_worker:
  assumes "before_inv A s" "i < nthr A" "wpcs s i = W_wait"
  defines "s' \<equiv> barrier_wait (nthr A) (Some i) s"
  shows "b_left s = 1 \<and> mpc s = M_blocked \<and> mpc s' = M_merge \<and> (\<forall>j < nthr A. wpcs s j = (if j = i then W_wait else W_blocked) \<and> wpcs s' j = W_done) \<or>
    b_left s \<noteq> 1 \<and> mpc s' = mpc s \<and> wpcs s' = (wpcs s)(i := W_blocked) \<and> before_inv A s'"
proof -
  let ?B = "at_barrier A s"
  have i: "i \<notin> ?B" using assms(3) by (simp add: at_barrier_def)
  have sub: "insert i ?B \<subseteq> {..<nthr A}" using assms(2) by (auto simp: at_barrier_def)
  have c: "card (insert i ?B) = Suc (card ?B)" using i by simp
  have le: "Suc (card ?B) \<le> nthr A" using card_mono [OF finite_lessThan sub] c by simp
  have sum: "b_left s + card ?B + (if mpc s = M_blocked then 1 else 0) = nthr A + 1" using assms(1) by (simp add: before_inv_def)
  show ?thesis
  proof (cases "b_left s = 1")
    case True
    then have m: "mpc s = M_blocked" and "nthr A \<le> card (insert i ?B)" using sum le c by (auto split: if_splits)
    then have "insert i ?B = {..<nthr A}" using all_at_barrier [OF sub] by blast
    then have "wpcs s j = W_blocked" if "j < nthr A" "j \<noteq> i" for j
      using that by (auto simp: at_barrier_def)
    then show ?thesis using True m assms(3) by (auto simp: s'_def barrier_wait_def Let_def)
  next
    case False
    have w: "wpcs s' = (wpcs s)(i := W_blocked)" "mpc s' = mpc s" "b_left s' = b_left s - 1"
      using False by (simp_all add: s'_def barrier_wait_def Let_def)
    have "at_barrier A s' = insert i ?B" using w(1) assms(2) by (auto simp: at_barrier_def)
    then have "before_inv A s'" using sum c le w assms(1) False by (auto simp: before_inv_def split: if_splits)
    then show ?thesis using False w by simp
  qed
qed

lemma barrier_wait_main:
  assumes "before_inv A s" "mpc s = M_wait"
  defines "s' \<equiv> barrier_wait (nthr A) None s"
  shows "b_left s = 1 \<and> mpc s' = M_merge \<and> (\<forall>j < nthr A. wpcs s j = W_blocked \<and> wpcs s' j = W_done) \<or>
    b_left s \<noteq> 1 \<and> mpc s' = M_blocked \<and> wpcs s' = wpcs s \<and> before_inv A s'"
proof -
  let ?B = "at_barrier A s"
  have sub: "?B \<subseteq> {..<nthr A}" by (auto simp: at_barrier_def)
  then have le: "card ?B \<le> nthr A" using card_mono [OF finite_lessThan sub] by simp
  have sum: "b_left s + card ?B = nthr A + 1" using assms(1,2) by (simp add: before_inv_def)
  show ?thesis
  proof (cases "b_left s = 1")
    case True
    then have "?B = {..<nthr A}" using all_at_barrier [OF sub] sum by simp
    then have "wpcs s j = W_blocked" if "j < nthr A" for j using that by (auto simp: at_barrier_def)
    then show ?thesis using True by (simp add: s'_def barrier_wait_def Let_def)
  next
    case False
    have w: "wpcs s' = wpcs s" "mpc s' = M_blocked" "b_left s' = b_left s - 1"
      using False by (simp_all add: s'_def barrier_wait_def Let_def)
    have "at_barrier A s' = ?B" using w(1) by (simp add: at_barrier_def)
    then have "before_inv A s'" using sum le w assms(1) False by (auto simp: before_inv_def)
    then show ?thesis using False w by simp
  qed
qed

lemma barrier_wait_nums [simp]: "nums (barrier_wait n me s) = nums s"
  by (simp add: barrier_wait_def Let_def split: option.split)

text \<open>The calls of \<^verbatim>\<open>heapsort\<close> do what they are documented to do, and none of them fails.\<close>

definition sorts_parts :: "bargs \<Rightarrow> bool" where
  "sorts_parts A \<longleftrightarrow> (\<forall>i < nthr A. heapsort_ok (heapsort A i) \<and> (\<forall>ys. fst (heapsort A i complong ys) = 0))"

lemma sort_part_ok:
  assumes "sorts_parts A" "length xs = nthr A * tnum A" "i < nthr A" "j < nthr A"
  shows "length (sort_part A i xs) = nthr A * tnum A" "mset (sort_part A i xs) = mset xs"
    "j = i \<or> sorted (part (tnum A) j xs) \<Longrightarrow> sorted (part (tnum A) j (sort_part A i xs))"
proof -
  obtain ys where ys: "heapsort A i complong (part (tnum A) i xs) = (0, ys)"
    using assms(1,3) unfolding sorts_parts_def by (metis prod.collapse)
  have "heapsort_ok (heapsort A i)" using assms(1,3) by (simp add: sorts_parts_def)
  note h = heapsort_complong [OF this ys]
  have e: "sort_part A i xs = take (i * tnum A) xs @ ys @ drop (i * tnum A + tnum A) xs"
    using ys by (simp add: sort_part_def part_def Let_def)
  note r = replace_part [OF assms(2-4) h(1)]
  show "length (sort_part A i xs) = nthr A * tnum A" "mset (sort_part A i xs) = mset xs" using r(1,2) by (simp_all add: e)
  show "j = i \<or> sorted (part (tnum A) j xs) \<Longrightarrow> sorted (part (tnum A) j (sort_part A i xs))"
    using r(3) h(3) by (auto simp: e)
qed

lemma nums_inv_done:
  assumes "nums_inv A xs s" "\<forall>j < nthr A. wpcs s j = W_done" "\<forall>x \<in> set xs. x < LONG_MAX"
  shows "merge g (nthr A) (tnum A) (nums s) = Inr (sort xs)"
proof -
  have s: "set (nums s) = set xs" "sort (nums s) = sort xs"
    using assms(1) unfolding nums_inv_def by (metis mset_eq_setD, metis mset_sort properties_for_sort sorted_sort)
  then show ?thesis using merge_sorts [of "nums s" "nthr A" "tnum A" g] assms by (auto simp: nums_inv_def)
qed

lemma worker_inv:
  assumes "nums_inv A xs s" "mpc_inv A xs s" "sorts_parts A" "i < nthr A" "\<forall>e. mpc s \<noteq> M_exit e" "thr_fn_barrier A i s = Some s'"
  shows "nums_inv A xs s' \<and> mpc_inv A xs s'"
proof (cases "wpcs s i")
  case W_sort
  then have s': "s' = s\<lparr>nums := sort_part A i (nums s), wpcs := (wpcs s)(i := W_wait)\<rparr>" using assms(6) by (simp add: thr_fn_barrier_def)
  have l: "length (nums s) = nthr A * tnum A" using assms(1) by (simp add: nums_inv_def)
  note so = sort_part_ok [OF assms(3) l assms(4)]
  have "nums_inv A xs s'" using assms(1) so(1,2) [OF assms(4)] so(3) unfolding nums_inv_def s' by auto
  moreover have "at_barrier A s' = at_barrier A s" using W_sort by (auto simp: at_barrier_def s')
  then have "before_inv A s \<Longrightarrow> before_inv A s'" by (auto simp: before_inv_def s')
  then have "mpc_inv A xs s'" using assms(2,4) W_sort by (auto simp: mpc_inv_def created_def s' split: mpc.splits)
  ultimately show ?thesis by simp
next
  case W_wait
  then have s': "s' = barrier_wait (nthr A) (Some i) s" using assms(6) by (simp add: thr_fn_barrier_def)
  have b: "before_inv A s" using assms(2,4,5) W_wait by (auto simp: mpc_inv_def split: mpc.splits)
  from barrier_wait_worker [OF b assms(4) W_wait, folded s'] show ?thesis
  proof (elim disjE conjE)
    assume "mpc s = M_blocked" "mpc s' = M_merge" "\<forall>j<nthr A. wpcs s j = (if j = i then W_wait else W_blocked) \<and> wpcs s' j = W_done"
    then show ?thesis using assms(1,2) by (auto simp: nums_inv_def mpc_inv_def created_def s' split: if_splits)
  next
    assume a: "mpc s' = mpc s" "wpcs s' = (wpcs s)(i := W_blocked)" "before_inv A s'"
    then have "nums_inv A xs s'" using assms(1) W_wait by (auto simp: nums_inv_def s')
    moreover have "mpc_inv A xs s'" using assms(2,4) a W_wait by (auto simp: mpc_inv_def created_def split: mpc.splits)
    ultimately show ?thesis by simp
  qed
qed (use assms(6) in \<open>simp_all add: thr_fn_barrier_def\<close>)

lemma main_inv:
  assumes "nums_inv A xs s" "mpc_inv A xs s" "\<forall>x \<in> set xs. x < LONG_MAX" "barrier_main A s = Some s'"
  shows "nums_inv A xs s' \<and> mpc_inv A xs s'"
proof (cases "mpc s")
  case (M_create i)
  show ?thesis
  proof (cases "i < nthr A")
    case False
    then have "s' = s\<lparr>mpc := M_wait\<rparr>" using assms(4) M_create by (simp add: barrier_main_def)
    then show ?thesis using assms(1,2) False M_create
      by (auto simp: nums_inv_def mpc_inv_def created_def before_inv_def at_barrier_def)
  next
    case True
    show ?thesis
    proof (cases "create_err A i")
      case (Some e)
      then have "s' = s\<lparr>mpc := M_exit e\<rparr>" using assms(4) M_create True by (simp add: barrier_main_def)
      then show ?thesis using assms(1,2) True Some M_create by (auto simp: nums_inv_def mpc_inv_def)
    next
      case None
      then have s': "s' = s\<lparr>wpcs := (wpcs s)(i := W_sort), mpc := M_create (i + 1)\<rparr>" using assms(4) M_create True by (simp add: barrier_main_def)
      have "wpcs s i = W_none" using assms(2) True M_create by (simp add: mpc_inv_def)
      then have "at_barrier A s' = at_barrier A s" by (auto simp: at_barrier_def s')
      then have "before_inv A s'" using assms(2) M_create by (auto simp: mpc_inv_def before_inv_def s')
      moreover have "nums_inv A xs s'" using assms(1) by (auto simp: nums_inv_def s')
      ultimately show ?thesis using assms(2) True None M_create by (auto simp: mpc_inv_def s' less_Suc_eq)
    qed
  qed
next
  case M_wait
  then have s': "s' = barrier_wait (nthr A) None s" using assms(4) by (simp add: barrier_main_def)
  have b: "before_inv A s" using assms(2) M_wait by (simp add: mpc_inv_def)
  from barrier_wait_main [OF b M_wait, folded s'] show ?thesis
    using assms(1,2) M_wait by (elim disjE conjE) (auto simp: nums_inv_def mpc_inv_def created_def s')
next
  case M_merge
  then have "\<forall>j < nthr A. wpcs s j = W_done" using assms(2) by (simp add: mpc_inv_def)
  note m = nums_inv_done [OF assms(1) this assms(3)]
  have "s' = s\<lparr>mpc := M_done (sort xs)\<rparr>" using assms(4) M_merge m by (simp add: barrier_main_def)
  then show ?thesis using assms(1,2) M_merge by (auto simp: nums_inv_def mpc_inv_def created_def)
qed (use assms(4) in \<open>simp_all add: barrier_main_def\<close>)

text \<open>A number that decreases with every step.\<close>

definition wrank :: "wpc \<Rightarrow> nat" where
  "wrank w = (case w of W_none \<Rightarrow> 4 | W_sort \<Rightarrow> 3 | W_wait \<Rightarrow> 2 | W_blocked \<Rightarrow> 1 | W_done \<Rightarrow> 0)"

definition brank :: "bargs \<Rightarrow> bstate \<Rightarrow> nat" where
  "brank A s = (\<Sum>j<nthr A. wrank (wpcs s j)) +
     (case mpc s of M_create i \<Rightarrow> (nthr A - i) + 4 | M_wait \<Rightarrow> 3 | M_blocked \<Rightarrow> 2 | M_merge \<Rightarrow> 1 | _ \<Rightarrow> 0)"

lemma worker_rank:
  assumes "mpc_inv A xs s" "i < nthr A" "\<forall>e. mpc s \<noteq> M_exit e" "thr_fn_barrier A i s = Some s'"
  shows "brank A s' < brank A s"
proof -
  have less: "(\<Sum>j<nthr A. wrank (wpcs s' j)) < (\<Sum>j<nthr A. wrank (wpcs s j))"
    if "\<forall>j < nthr A. wrank (wpcs s' j) \<le> wrank (wpcs s j)" "wrank (wpcs s' i) < wrank (wpcs s i)"
    by (rule sum_strict_mono_ex1) (use that assms(2) in auto)
  show ?thesis
  proof (cases "wpcs s i")
    case W_sort
    then have "s' = s\<lparr>nums := sort_part A i (nums s), wpcs := (wpcs s)(i := W_wait)\<rparr>" using assms(4) by (simp add: thr_fn_barrier_def)
    then show ?thesis using less W_sort by (simp add: brank_def wrank_def)
  next
    case W_wait
    then have s': "s' = barrier_wait (nthr A) (Some i) s" using assms(4) by (simp add: thr_fn_barrier_def)
    have b: "before_inv A s" using assms(1-3) W_wait by (auto simp: mpc_inv_def split: mpc.splits)
    from barrier_wait_worker [OF b assms(2) W_wait, folded s'] show ?thesis
      using less W_wait assms(2) by (elim disjE conjE) (auto simp: brank_def wrank_def)
  qed (use assms(4) in \<open>simp_all add: thr_fn_barrier_def\<close>)
qed

lemma main_rank:
  assumes "mpc_inv A xs s" "barrier_main A s = Some s'"
  shows "brank A s' < brank A s"
proof (cases "mpc s")
  case (M_create i)
  show ?thesis
  proof (cases "i < nthr A \<and> create_err A i = None")
    case True
    then have s': "s' = s\<lparr>wpcs := (wpcs s)(i := W_sort), mpc := M_create (i + 1)\<rparr>" using assms(2) M_create by (simp add: barrier_main_def)
    have "wpcs s i = W_none" using assms(1) True M_create by (simp add: mpc_inv_def)
    then have "(\<Sum>j<nthr A. wrank (wpcs s' j)) \<le> (\<Sum>j<nthr A. wrank (wpcs s j))" by (intro sum_mono) (simp add: s' wrank_def)
    then show ?thesis using True M_create by (simp add: brank_def s' del: fun_upd_apply, linarith)
  next
    case False
    then show ?thesis using assms(2) M_create by (auto simp: barrier_main_def brank_def split: if_splits option.splits)
  qed
next
  case M_wait
  then have s': "s' = barrier_wait (nthr A) None s" using assms(2) by (simp add: barrier_main_def)
  have b: "before_inv A s" using assms(1) M_wait by (simp add: mpc_inv_def)
  from barrier_wait_main [OF b M_wait, folded s'] show ?thesis
    using M_wait by (elim disjE conjE) (auto simp: brank_def wrank_def)
next
  case M_merge
  then show ?thesis using assms(2) by (auto simp: barrier_main_def brank_def split: sum.splits)
qed (use assms(2) in \<open>simp_all add: barrier_main_def\<close>)

text \<open>When nothing can go on, the main thread is at its end: nobody waits at the barrier for ever.\<close>

lemma bar_stuck:
  assumes "mpc_inv A xs s" "\<nexists>s'. bar_step A s s'"
  shows "(\<exists>out. mpc s = M_done out) \<or> (\<exists>e. mpc s = M_exit e)"
proof (rule ccontr)
  assume nd: "\<not> ?thesis"
  have m: "barrier_main A s = None" using assms(2) bar_step.main by (cases "barrier_main A s") auto
  then have b: "mpc s = M_blocked" using nd assms(1)
    by (cases "mpc s") (auto simp: barrier_main_def mpc_inv_def split: if_splits option.splits)
  have n: "thr_fn_barrier A i s = None" if i: "i < nthr A" for i
  proof (rule ccontr)
    assume "thr_fn_barrier A i s \<noteq> None"
    then obtain t where "thr_fn_barrier A i s = Some t" by blast
    then have "bar_step A s t" using b by (intro bar_step.worker [OF i]) simp_all
    then show False using assms(2) by blast
  qed
  then have w: "wpcs s i = W_blocked" if "i < nthr A" for i
    using n [OF that] that assms(1) b by (cases "wpcs s i") (auto simp: thr_fn_barrier_def mpc_inv_def created_def before_inv_def)
  then have "at_barrier A s = {..<nthr A}" by (auto simp: at_barrier_def)
  then have "b_left s = 0" using assms(1) b by (simp add: mpc_inv_def before_inv_def)
  then show False using assms(1) b by (simp add: mpc_inv_def before_inv_def)
qed

section \<open>Properties\<close>

lemma bar_start_inv: "length xs = nthr A * tnum A \<Longrightarrow> nums_inv A xs (bar_start A xs) \<and> mpc_inv A xs (bar_start A xs)"
  by (simp add: nums_inv_def mpc_inv_def before_inv_def at_barrier_def bar_start_def)

lemma bar_start_rank: "brank A (bar_start A xs) = 5 * nthr A + 4"
  by (simp add: brank_def bar_start_def wrank_def)

lemma bar_step_inv:
  assumes "bar_step A s s'" "nums_inv A xs s \<and> mpc_inv A xs s" "\<forall>x \<in> set xs. x < LONG_MAX" "sorts_parts A"
  shows "nums_inv A xs s' \<and> mpc_inv A xs s'" "brank A s' < brank A s"
  using assms(1)
proof (atomize (full), cases)
  case (worker i)
  then show "(nums_inv A xs s' \<and> mpc_inv A xs s') \<and> brank A s' < brank A s"
    using worker_inv [of A xs s i s'] worker_rank [of A xs s i s'] assms(2,4) by simp
next
  case main
  then show "(nums_inv A xs s' \<and> mpc_inv A xs s') \<and> brank A s' < brank A s"
    using main_inv [of A xs s s'] main_rank [of A xs s s'] assms(2,3) by simp
qed

lemma bar_run_inv:
  assumes "(bar_step A ^^ k) (bar_start A xs) s" "length xs = nthr A * tnum A" "\<forall>x \<in> set xs. x < LONG_MAX" "sorts_parts A"
  shows "(nums_inv A xs s \<and> mpc_inv A xs s) \<and> k + brank A s \<le> 5 * nthr A + 4"
  using assms(1)
proof (induction k arbitrary: s)
  case 0
  then show ?case using bar_start_inv [OF assms(2)] bar_start_rank [of A xs] by simp
next
  case (Suc k)
  then obtain u where u: "(bar_step A ^^ k) (bar_start A xs) u" "bar_step A u s" by auto
  note ih = Suc.IH [OF u(1)]
  then show ?case using bar_step_inv [OF u(2) _ assms(3,4)] by (metis Suc_leI add.commute add_Suc_right le_trans nat_add_left_cancel_less order_less_le_trans)
qed

text \<open>
  C39: The program sorts. For any number of threads and any size of their parts, and in whatever
  order the threads are created, sort their parts, come to the barrier and leave it: the program takes a
  bounded number of steps, nobody waits at the barrier for ever, \<^verbatim>\<open>merge\<close> never leaves the arrays, whatever \<^verbatim>\<open>minidx\<close>
  holds at first, and its result is the numbers in ascending order. When a thread cannot be created the program
  ends with that error instead. This holds for numbers smaller than \<^verbatim>\<open>LONG_MAX\<close>, and as long as no call of \<^verbatim>\<open>heapsort\<close> fails,
  which the program does not check.
\<close>

theorem barrier_sorts:
  assumes "(bar_step A ^^ k) (bar_start A xs) s" "length xs = nthr A * tnum A" "\<forall>x \<in> set xs. x < LONG_MAX" "sorts_parts A"
  shows "k \<le> 5 * nthr A + 4 \<and> mpc s \<noteq> M_undefined \<and> (\<forall>out. mpc s = M_done out \<longrightarrow> out = sort xs) \<and>
    ((\<nexists>s'. bar_step A s s') \<longrightarrow>
      (if \<forall>i < nthr A. create_err A i = None then mpc s = M_done (sort xs)
       else \<exists>i < nthr A. \<exists>e. create_err A i = Some e \<and> (\<forall>j < i. create_err A j = None) \<and> mpc s = M_exit e))"
proof -
  have i: "mpc_inv A xs s" "k \<le> 5 * nthr A + 4" using bar_run_inv [OF assms] by auto
  have d: "out = sort xs \<and> (\<forall>i < nthr A. create_err A i = None)" if "mpc s = M_done out" for out
    using i(1) that by (simp add: mpc_inv_def created_def)
  have e: "\<exists>i < nthr A. create_err A i = Some e \<and> (\<forall>j < i. create_err A j = None)" if "mpc s = M_exit e" for e
    using i(1) that by (simp add: mpc_inv_def)
  have "if \<forall>i < nthr A. create_err A i = None then mpc s = M_done (sort xs)
       else \<exists>i < nthr A. \<exists>e. create_err A i = Some e \<and> (\<forall>j < i. create_err A j = None) \<and> mpc s = M_exit e"
    if "\<nexists>s'. bar_step A s s'"
    using bar_stuck [OF i(1) that] d e by (metis (no_types, lifting) option.distinct(1))
  moreover have "mpc s \<noteq> M_undefined" using i(1) by (auto simp: mpc_inv_def)
  ultimately show ?thesis using i(2) d by blast
qed

text \<open>Runs of given schedules: a step of the main thread, or of thread \<open>i\<close>.\<close>

fun bar_run :: "bargs \<Rightarrow> nat option list \<Rightarrow> bstate \<Rightarrow> bstate option" where
  "bar_run A [] s = Some s"
| "bar_run A (None # ps) s = Option.bind (barrier_main A s) (bar_run A ps)"
| "bar_run A (Some i # ps) s =
     (if nthr A \<le> i \<or> (case mpc s of M_exit e \<Rightarrow> True | _ \<Rightarrow> False) then None else Option.bind (thr_fn_barrier A i s) (bar_run A ps))"

lemma bar_run_steps: "bar_run A ps s = Some t \<Longrightarrow> (bar_step A ^^ length ps) s t"
proof (induction A ps s rule: bar_run.induct)
  case (2 A ps s)
  then obtain u where "barrier_main A s = Some u" "(bar_step A ^^ length ps) u t" by (auto simp: bind_eq_Some_conv)
  then show ?case using bar_step.main unfolding list.size by (metis add.right_neutral add_Suc_right relpowp_Suc_I2)
next
  case (3 A i ps s)
  then obtain u where "i < nthr A" "\<forall>e. mpc s \<noteq> M_exit e" "thr_fn_barrier A i s = Some u" "(bar_step A ^^ length ps) u t"
    by (auto simp: bind_eq_Some_conv split: if_splits mpc.splits)
  then show ?case using bar_step.worker unfolding list.size by (metis add.right_neutral add_Suc_right relpowp_Suc_I2)
qed simp
text \<open>Insertion sort by any comparison function is such a \<^verbatim>\<open>heapsort\<close>.\<close>

fun ins_by :: "(int \<Rightarrow> int \<Rightarrow> int) \<Rightarrow> int \<Rightarrow> int list \<Rightarrow> int list" where
  "ins_by c x [] = [x]"
| "ins_by c x (y # ys) = (if c x y \<le> 0 then x # y # ys else y # ins_by c x ys)"

definition sort_by :: "(int \<Rightarrow> int \<Rightarrow> int) \<Rightarrow> int list \<Rightarrow> int list" where
  "sort_by c xs = foldr (ins_by c) xs []"

lemma mset_ins_by: "mset (ins_by c x ys) = add_mset x (mset ys)"
  by (induction ys) auto

lemma set_ins_by: "set (ins_by c x ys) = insert x (set ys)"
  using mset_ins_by [of c x ys] by (metis set_mset_add_mset_insert set_mset_mset)

lemma sorted_ins_by:
  assumes "\<And>a b. c a b \<le> 0 \<or> c b a \<le> (0 :: int)" "\<And>a b d. c a b \<le> 0 \<Longrightarrow> c b d \<le> 0 \<Longrightarrow> c a d \<le> 0"
  shows "sorted_wrt (\<lambda>a b. c a b \<le> 0) ys \<Longrightarrow> sorted_wrt (\<lambda>a b. c a b \<le> 0) (ins_by c x ys)"
proof (induction ys)
  case (Cons y ys)
  then show ?case using assms by (auto simp: set_ins_by)
qed simp

lemma sort_by_ok: "heapsort_ok (\<lambda>c xs. (0, sort_by c xs))"
proof -
  have "mset (sort_by c xs) = mset xs" for c xs by (induction xs) (simp_all add: sort_by_def mset_ins_by)
  moreover have "sorted_wrt (\<lambda>a b. c a b \<le> 0) (sort_by c xs)"
    if "\<forall>a b. c a b \<le> 0 \<or> c b a \<le> 0" "\<forall>a b d. c a b \<le> 0 \<longrightarrow> c b d \<le> 0 \<longrightarrow> c a d \<le> 0" for c xs
  proof (induction xs)
    case (Cons x xs)
    have "sorted_wrt (\<lambda>a b. c a b \<le> 0) (ins_by c x (sort_by c xs))"
      by (rule sorted_ins_by) (use that Cons.IH in blast)+
    then show ?case by (simp only: sort_by_def foldr.simps o_apply)
  qed (simp add: sort_by_def)
  ultimately show ?thesis unfolding heapsort_ok_def by blast
qed

definition demo_args :: bargs where
  "demo_args = \<lparr>nthr = 2, tnum = 2, garbage = 99, heapsort = (\<lambda>i c xs. (0, sort_by c xs)), create_err = (\<lambda>_. None)\<rparr>"

definition demo_order :: "nat option list" where
  "demo_order = [None, Some 0, None, Some 1, None, Some 1, None, Some 0, None]"

lemma demo_runs: "map_option mpc (bar_run demo_args demo_order (bar_start demo_args [4, 3, 2, 1])) = Some (M_done [1, 2, 3, 4])"
  by code_simp

theorem barrier_sorts_witness:
  "\<exists>s. (bar_step demo_args ^^ 9) (bar_start demo_args [4, 3, 2, 1]) s \<and> mpc s = M_done [1, 2, 3, 4] \<and> [1, 2, 3, 4] = sort [4, 3, 2, 1 :: int]"
proof -
  obtain s where s: "bar_run demo_args demo_order (bar_start demo_args [4, 3, 2, 1]) = Some s" "mpc s = M_done [1, 2, 3, 4]"
    using demo_runs by auto
  have r: "(bar_step demo_args ^^ 9) (bar_start demo_args [4, 3, 2, 1]) s"
  proof -
    have "length demo_order = 9" by (simp add: demo_order_def)
    then show ?thesis using bar_run_steps [OF s(1)] by (simp only:)
  qed
  have "length [4, 3, 2, 1 :: int] = nthr demo_args * tnum demo_args" "\<forall>x \<in> set [4, 3, 2, 1]. x < LONG_MAX" "sorts_parts demo_args"
    using sort_by_ok by (simp_all add: demo_args_def LONG_MAX_def sorts_parts_def)
  from barrier_sorts [OF r this] r s(2) show ?thesis by blast
qed

text \<open>A \<^verbatim>\<open>heapsort\<close> that fails is not noticed: the program prints numbers that are not sorted.\<close>

definition failing_args :: bargs where
  "failing_args = \<lparr>nthr = 1, tnum = 2, garbage = 99, heapsort = (\<lambda>i c xs. (- 1, xs)), create_err = (\<lambda>_. None)\<rparr>"

lemma barrier_ignores_heapsort:
  "\<exists>s. (bar_step failing_args)\<^sup>*\<^sup>* (bar_start failing_args [2, 1]) s \<and> mpc s = M_done [2, 1]"
proof -
  have "map_option mpc (bar_run failing_args [None, Some 0, None, Some 0, None, None] (bar_start failing_args [2, 1])) = Some (M_done [2, 1])"
    by code_simp
  then show ?thesis using bar_run_steps relpowp_imp_rtranclp unfolding map_option_eq_Some by (metis (no_types, lifting))
qed

text \<open>A number that is \<^verbatim>\<open>LONG_MAX\<close> makes \<^verbatim>\<open>merge\<close> use \<^verbatim>\<open>minidx\<close> before it is set.\<close>

lemma merge_unset_minidx: "merge 99 1 1 [LONG_MAX] = Inl (Undefined ''out of bounds'')"
  by (simp add: merge_def find_min_def)

end
