(* ===== verification/Popen.thy ===== *)
theory Popen
  imports Prelude
begin

text \<open>
  Pipes to and from commands (\<^verbatim>\<open>lib/popen.c\<close>, \<^verbatim>\<open>lib/openmax.c\<close>): the table of child processes by
  descriptor, the descriptors of the process, and those of the child at the moment it runs the shell. What the
  kernel returns from \<^verbatim>\<open>pipe\<close>, \<^verbatim>\<open>fork\<close> and \<^verbatim>\<open>waitpid\<close>, and whether memory and streams can be had, are
  arguments. A stream is named by its descriptor.
\<close>

section \<open>The module\<close>

definition OPEN_MAX_GUESS :: int where "OPEN_MAX_GUESS = 256"

text \<open>\<open>sc\<close> is the answer of \<^verbatim>\<open>sysconf\<close>: an error, no limit, or the limit. The static \<^verbatim>\<open>openmax\<close> is passed on.\<close>

definition open_max :: "(unit + int option) \<Rightarrow> int \<Rightarrow> int res" where
  "open_max sc openmax =
     (if openmax = 0
      then (case sc of Inl _ \<Rightarrow> Inl (Err_sys ''sysconf error for _SC_OPEN_MAX'')
            | Inr None \<Rightarrow> Inr OPEN_MAX_GUESS
            | Inr (Some m) \<Rightarrow> Inr m)
      else Inr openmax)"

text \<open>What a descriptor refers to: the ends of a pipe, or anything else.\<close>

datatype descr = Pipe_R nat | Pipe_W nat | Other nat

type_synonym fdtable = "nat \<Rightarrow> descr option"

record pstate =
  childpid :: "int list option"
  maxfd :: nat
  pfds :: fdtable
  perrno :: errno

record pkernel =
  k_openmax :: nat
  k_calloc :: bool
  k_pipe :: "errno + (nat \<times> nat)"
  k_pipeid :: nat
  k_fork :: "errno + int"
  k_fdopen :: bool

definition close_fd :: "nat \<Rightarrow> fdtable \<Rightarrow> fdtable" where
  "close_fd i t = t(i := None)"

definition dup2 :: "nat \<Rightarrow> nat \<Rightarrow> fdtable \<Rightarrow> fdtable" where
  "dup2 i j t = t(j := t i)"

text \<open>The child, lines 49 to 66: its descriptors when it runs the shell.\<close>

definition popen_child :: "int list \<Rightarrow> nat \<Rightarrow> char \<Rightarrow> nat \<Rightarrow> nat \<Rightarrow> fdtable \<Rightarrow> fdtable" where
  "popen_child pids mx ty r w t =
     (let t1 = (if ty = CHR ''r''
                then let u = close_fd r t in if w \<noteq> 1 then close_fd w (dup2 w 1 u) else u
                else let u = close_fd w t in if r \<noteq> 0 then close_fd r (dup2 r 0 u) else u)
      in fold (\<lambda>i u. if 0 < pids ! i then close_fd i u else u) [0..<mx] t1)"

text \<open>Returns the stream, the new state of the process, and the descriptors of the child if there is one.\<close>

definition popen :: "pkernel \<Rightarrow> pstate \<Rightarrow> string \<Rightarrow> nat option \<times> pstate \<times> fdtable option" where
  "popen k s type =
     (if type \<noteq> ''r'' \<and> type \<noteq> ''w'' then (None, s\<lparr>perrno := EINVAL\<rparr>, None)
      else
        let s1 = (if childpid s = None
                  then s\<lparr>maxfd := k_openmax k, childpid := (if k_calloc k then Some (replicate (k_openmax k) 0) else None)\<rparr> else s)
        in case childpid s1 of
             None \<Rightarrow> (None, s1\<lparr>perrno := ENOMEM\<rparr>, None)
           | Some pids \<Rightarrow>
               (case k_pipe k of
                  Inl e \<Rightarrow> (None, s1\<lparr>perrno := e\<rparr>, None)
                | Inr (r, w) \<Rightarrow>
                    let t = (pfds s1)(r \<mapsto> Pipe_R (k_pipeid k), w \<mapsto> Pipe_W (k_pipeid k))
                    in if maxfd s1 \<le> r \<or> maxfd s1 \<le> w
                       then (None, s1\<lparr>pfds := close_fd w (close_fd r t), perrno := EMFILE\<rparr>, None)
                       else
                         (case k_fork k of
                            Inl e \<Rightarrow> (None, s1\<lparr>pfds := t, perrno := e\<rparr>, None)
                          | Inr pid \<Rightarrow>
                              let child = popen_child pids (maxfd s1) (hd type) r w t;
                                  (fd, other) = (if hd type = CHR ''r'' then (r, w) else (w, r));
                                  s2 = s1\<lparr>pfds := close_fd other t\<rparr>
                              in if k_fdopen k then (Some fd, s2\<lparr>childpid := Some (pids[fd := pid])\<rparr>, Some child)
                                 else (None, s2\<lparr>perrno := ENOMEM\<rparr>, Some child))))"

text \<open>The loop of lines 112 to 114: the answers of \<^verbatim>\<open>waitpid\<close> for this child, errors or its status.\<close>

fun wait_loop :: "(errno + int) list \<Rightarrow> errno + int option" where
  "wait_loop [] = Inr None"
| "wait_loop (Inr stat # ws) = Inr (Some stat)"
| "wait_loop (Inl e # ws) = (if e = EINTR then wait_loop ws else Inl e)"

text \<open>\<open>waits\<close> gives the answers of \<^verbatim>\<open>waitpid\<close> for a process, \<open>closed\<close> whether \<^verbatim>\<open>fclose\<close> succeeds. \<^term>\<open>None\<close>: still waiting.\<close>

definition pclose :: "(int \<Rightarrow> (errno + int) list) \<Rightarrow> bool \<Rightarrow> pstate \<Rightarrow> nat \<Rightarrow> int option \<times> pstate" where
  "pclose waits closed s fd =
     (case childpid s of
        None \<Rightarrow> (Some (-1), s\<lparr>perrno := EINVAL\<rparr>)
      | Some pids \<Rightarrow>
          if maxfd s \<le> fd then (Some (-1), s\<lparr>perrno := EINVAL\<rparr>)
          else if pids ! fd = 0 then (Some (-1), s\<lparr>perrno := EINVAL\<rparr>)
          else
            let pid = pids ! fd;
                s1 = s\<lparr>childpid := Some (pids[fd := 0]), pfds := close_fd fd (pfds s)\<rparr>
            in if \<not> closed then (Some (-1), s1)
               else case wait_loop (waits pid) of
                      Inl e \<Rightarrow> (Some (-1), s1\<lparr>perrno := e\<rparr>)
                    | Inr None \<Rightarrow> (None, s1)
                    | Inr (Some stat) \<Rightarrow> (Some stat, s1))"

section \<open>The table of children\<close>

text \<open>
  The table has one entry per descriptor, a process only where a pipe end is open. The standard descriptors
  are not streams of the module.
\<close>

definition popen_inv :: "pstate \<Rightarrow> bool" where
  "popen_inv s \<longleftrightarrow>
     (case childpid s of None \<Rightarrow> True
      | Some pids \<Rightarrow> length pids = maxfd s \<and> (\<forall>i < maxfd s. 0 \<le> pids ! i) \<and> (\<forall>i < maxfd s. 0 < pids ! i \<longrightarrow> 1 < i \<and> pfds s i \<noteq> None))"

text \<open>What the kernel promises: new descriptors that are free, a positive process number. The standard descriptors are open.\<close>

definition kernel_ok :: "pkernel \<Rightarrow> pstate \<Rightarrow> bool" where
  "kernel_ok k s \<longleftrightarrow> pfds s 0 \<noteq> None \<and> pfds s 1 \<noteq> None \<and> (\<forall>r w. k_pipe k = Inr (r, w) \<longrightarrow> r \<noteq> w \<and> pfds s r = None \<and> pfds s w = None) \<and>
     (\<forall>pid. k_fork k = Inr pid \<longrightarrow> 0 < pid)"

lemma fold_close: "fold (\<lambda>i u. if P i then close_fd i u else u) is t j = (if j \<in> set is \<and> P j then None else t j)"
  by (induction "is" arbitrary: t) (auto simp: close_fd_def)

lemma popen_child_fds:
  "popen_child pids mx ty r w t j =
     (if j < mx \<and> 0 < pids ! j then None
      else if ty = CHR ''r''
      then (if w \<noteq> 1 then (if j = w then None else if j = 1 then (if w = r then None else t w) else if j = r then None else t j) else if j = r then None else t j)
      else (if r \<noteq> 0 then (if j = r then None else if j = 0 then (if r = w then None else t r) else if j = w then None else t j) else if j = w then None else t j))"
  by (simp add: popen_child_def fold_close Let_def close_fd_def dup2_def)

lemma wait_loop_interrupted: "wait_loop (replicate n (Inl EINTR) @ Inr stat # ws) = Inr (Some stat)"
  by (induction n) auto

text \<open>The table after the first lines of \<^verbatim>\<open>popen\<close>.\<close>

definition table_of :: "pkernel \<Rightarrow> pstate \<Rightarrow> int list" where
  "table_of k s = (case childpid s of None \<Rightarrow> replicate (k_openmax k) 0 | Some pids \<Rightarrow> pids)"

definition limit_of :: "pkernel \<Rightarrow> pstate \<Rightarrow> nat" where
  "limit_of k s = (case childpid s of None \<Rightarrow> k_openmax k | Some pids \<Rightarrow> maxfd s)"

lemma table_of_inv:
  assumes "popen_inv s"
  shows "length (table_of k s) = limit_of k s" "i < limit_of k s \<Longrightarrow> 0 \<le> table_of k s ! i"
    "i < limit_of k s \<Longrightarrow> 0 < table_of k s ! i \<Longrightarrow> 1 < i \<and> pfds s i \<noteq> None"
  using assms by (auto simp: popen_inv_def table_of_def limit_of_def split: option.splits)

lemma popen_success:
  assumes "popen k s type = (Some fd, s1, child)"
  obtains r w pid where "type = ''r'' \<and> fd = r \<or> type = ''w'' \<and> fd = w" "k_pipe k = Inr (r, w)" "k_fork k = Inr pid"
    "r < limit_of k s" "w < limit_of k s"
    "s1 = s\<lparr>childpid := Some ((table_of k s)[fd := pid]), maxfd := limit_of k s,
       pfds := ((pfds s)(r \<mapsto> Pipe_R (k_pipeid k), w \<mapsto> Pipe_W (k_pipeid k)))((if type = ''r'' then w else r) := None)\<rparr>"
    "child = Some (popen_child (table_of k s) (limit_of k s) (hd type) r w ((pfds s)(r \<mapsto> Pipe_R (k_pipeid k), w \<mapsto> Pipe_W (k_pipeid k))))"
  using assms
  by (auto simp: popen_def table_of_def limit_of_def close_fd_def Let_def split: if_splits option.splits sum.splits prod.splits)

text \<open>What follows of the kernel's promises: the pipe does not get a standard descriptor, nor one of a stream.\<close>

lemma new_descriptors:
  assumes "popen_inv s" "kernel_ok k s" "k_pipe k = Inr (r, w)" "r < limit_of k s" "w < limit_of k s"
  shows "1 < r" "1 < w" "r \<noteq> w" "table_of k s ! r = 0" "table_of k s ! w = 0"
proof -
  have f: "r \<noteq> w" "pfds s r = None" "pfds s w = None" "pfds s 0 \<noteq> None" "pfds s 1 \<noteq> None" using assms(2,3) by (auto simp: kernel_ok_def)
  then show "r \<noteq> w" by simp
  have "r \<noteq> 0" "r \<noteq> 1" "w \<noteq> 0" "w \<noteq> 1" using f by (metis option.distinct(1))+
  then show "1 < r" "1 < w" by auto
  show "table_of k s ! r = 0" "table_of k s ! w = 0"
    using table_of_inv(2,3) [OF assms(1), of r k] table_of_inv(2,3) [OF assms(1), of w k] f(2,3) assms(4,5) by fastforce+
qed

lemma popen_keeps_inv:
  assumes "popen_inv s" "kernel_ok k s" "popen k s type = (Some fd, s1, child)"
  shows "popen_inv s1" "1 < fd" "childpid s1 \<noteq> None" "fd < maxfd s1" "0 < the (childpid s1) ! fd" "k_fork k = Inr (the (childpid s1) ! fd)"
proof -
  obtain r w pid where p: "type = ''r'' \<and> fd = r \<or> type = ''w'' \<and> fd = w" "k_pipe k = Inr (r, w)" "k_fork k = Inr pid"
    "r < limit_of k s" "w < limit_of k s"
    "s1 = s\<lparr>childpid := Some ((table_of k s)[fd := pid]), maxfd := limit_of k s,
       pfds := ((pfds s)(r \<mapsto> Pipe_R (k_pipeid k), w \<mapsto> Pipe_W (k_pipeid k)))((if type = ''r'' then w else r) := None)\<rparr>"
    using popen_success [OF assms(3)] by metis
  note n = new_descriptors [OF assms(1,2) p(2,4,5)] and tb = table_of_inv [OF assms(1), where k = k]
  have pid: "0 < pid" using assms(2) p(3) by (simp add: kernel_ok_def)
  show fd: "1 < fd" and mx: "fd < maxfd s1" using p(1,4,5,6) n(1,2) by auto
  show "childpid s1 \<noteq> None" "0 < the (childpid s1) ! fd" "k_fork k = Inr (the (childpid s1) ! fd)"
    using p(3,6) mx tb(1) pid by auto
  have "0 \<le> (table_of k s)[fd := pid] ! i \<and> (0 < (table_of k s)[fd := pid] ! i \<longrightarrow> 1 < i \<and> pfds s1 i \<noteq> None)" if "i < limit_of k s" for i
    using tb(1) tb(2) [OF that] tb(3) [OF that] that p(1,6) n fd pid by (cases "i = fd") auto
  then show "popen_inv s1" using p(6) tb(1) by (simp add: popen_inv_def)
qed

section \<open>Properties\<close>

text \<open>
  C26: \<^verbatim>\<open>popen\<close> and \<^verbatim>\<open>pclose\<close>. After a successful \<^verbatim>\<open>popen\<close> the only new descriptor of the process is its end of the
  pipe; the child has the other end as its standard output or input, and otherwise the descriptors of the
  process, without the streams of earlier calls. However often it is interrupted, \<^verbatim>\<open>pclose\<close>
  waits for exactly the child of this stream, returns its status, and leaves descriptors and table as they were. On a
  descriptor that is not such a stream it fails and changes nothing. The table stays well-formed.
\<close>

theorem popen_pclose:
  assumes "popen_inv s" "kernel_ok k s" "popen k s type = (Some fd, s1, child)"
  shows "popen_inv s1 \<and> pfds s1 = (pfds s)(fd \<mapsto> (if type = ''r'' then Pipe_R (k_pipeid k) else Pipe_W (k_pipeid k)))
    \<and> (\<exists>ct. child = Some ct \<and> ct (if type = ''r'' then 1 else 0) = Some (if type = ''r'' then Pipe_W (k_pipeid k) else Pipe_R (k_pipeid k))
        \<and> (\<forall>i. i \<noteq> (if type = ''r'' then 1 else 0) \<longrightarrow> ct i = (if i < limit_of k s \<and> 0 < table_of k s ! i then None else pfds s i)))
    \<and> (\<exists>pid. k_fork k = Inr pid \<and> (\<forall>waits n stat ws. waits pid = replicate n (Inl EINTR) @ Inr stat # ws \<longrightarrow>
        (\<exists>s2. pclose waits True s1 fd = (Some stat, s2) \<and> pfds s2 = pfds s \<and> childpid s2 = Some (table_of k s) \<and> popen_inv s2)))
    \<and> (\<forall>waits b j. maxfd s1 \<le> j \<or> j \<noteq> fd \<and> j < limit_of k s \<and> table_of k s ! j = 0 \<longrightarrow> pclose waits b s1 j = (Some (-1), s1\<lparr>perrno := EINVAL\<rparr>))"
proof -
  obtain r w pid where p: "type = ''r'' \<and> fd = r \<or> type = ''w'' \<and> fd = w" "k_pipe k = Inr (r, w)" "k_fork k = Inr pid"
    "r < limit_of k s" "w < limit_of k s"
    "s1 = s\<lparr>childpid := Some ((table_of k s)[fd := pid]), maxfd := limit_of k s,
       pfds := ((pfds s)(r \<mapsto> Pipe_R (k_pipeid k), w \<mapsto> Pipe_W (k_pipeid k)))((if type = ''r'' then w else r) := None)\<rparr>"
    "child = Some (popen_child (table_of k s) (limit_of k s) (hd type) r w ((pfds s)(r \<mapsto> Pipe_R (k_pipeid k), w \<mapsto> Pipe_W (k_pipeid k))))"
    by (rule popen_success [OF assms(3)])
  note n = new_descriptors [OF assms(1,2) p(2,4,5)] and tb = table_of_inv [OF assms(1), where k = k] and i1 = popen_keeps_inv [OF assms]
  have free: "pfds s r = None" "pfds s w = None" using assms(2) p(2) by (auto simp: kernel_ok_def)
  have fds: "pfds s1 = (pfds s)(fd \<mapsto> (if type = ''r'' then Pipe_R (k_pipeid k) else Pipe_W (k_pipeid k)))"
    using p(1,6) free n(3) by (auto simp: fun_eq_iff)
  have low: "\<not> 0 < table_of k s ! i" if "i < limit_of k s" "i \<le> 1" for i using tb(3) [OF that(1)] that(2) by auto
  have ch: "\<exists>ct. child = Some ct \<and> ct (if type = ''r'' then 1 else 0) = Some (if type = ''r'' then Pipe_W (k_pipeid k) else Pipe_R (k_pipeid k))
        \<and> (\<forall>i. i \<noteq> (if type = ''r'' then 1 else 0) \<longrightarrow> ct i = (if i < limit_of k s \<and> 0 < table_of k s ! i then None else pfds s i))"
    using p(1,7) n free low by (auto simp: popen_child_fds)
  have tab: "(table_of k s)[fd := pid, fd := 0] = table_of k s" using n(4,5) p(1) by (metis list_update_id list_update_overwrite)
  have fin: "\<exists>s2. pclose waits True s1 fd = (Some stat, s2) \<and> pfds s2 = pfds s \<and> childpid s2 = Some (table_of k s) \<and> popen_inv s2"
    if "waits pid = replicate m (Inl EINTR) @ Inr stat # ws" for waits m stat ws
  proof -
    let ?s2 = "s1\<lparr>childpid := Some (table_of k s), pfds := pfds s\<rparr>"
    have "pclose waits True s1 fd = (Some stat, ?s2)"
      using that i1(4-6) p(1,3,6) fds tab free wait_loop_interrupted [of m stat ws] by (auto simp: pclose_def Let_def close_fd_def fun_eq_iff)
    moreover have "popen_inv ?s2" using tb p(6) by (simp add: popen_inv_def)
    ultimately show ?thesis by (intro exI [of _ ?s2]) simp
  qed
  have bad: "pclose waits b s1 j = (Some (-1), s1\<lparr>perrno := EINVAL\<rparr>)"
    if "maxfd s1 \<le> j \<or> j \<noteq> fd \<and> j < limit_of k s \<and> table_of k s ! j = 0" for waits b j
    using that p(6) by (auto simp: pclose_def)
  show ?thesis using i1(1) fds ch fin bad p(3) by blast
qed

definition ex_pk :: pkernel where
  "ex_pk = \<lparr>k_openmax = 16, k_calloc = True, k_pipe = Inr (3, 4), k_pipeid = 7, k_fork = Inr 42, k_fdopen = True\<rparr>"

definition ex_ps :: pstate where
  "ex_ps = \<lparr>childpid = None, maxfd = 0, pfds = [0 \<mapsto> Other 0, 1 \<mapsto> Other 1, 2 \<mapsto> Other 2], perrno = ENONE\<rparr>"

theorem popen_pclose_witness:
  "\<exists>s1 child s2. popen ex_pk ex_ps ''r'' = (Some 3, s1, child) \<and>
     pclose (\<lambda>p. if p = 42 then [Inl EINTR, Inr 9] else []) True s1 3 = (Some 9, s2) \<and> pfds s2 = pfds ex_ps"
proof -
  have "popen_inv ex_ps" "kernel_ok ex_pk ex_ps" by (simp_all add: popen_inv_def kernel_ok_def ex_ps_def ex_pk_def)
  moreover obtain s1 child where s1: "popen ex_pk ex_ps ''r'' = (Some 3, s1, child)" by (simp add: popen_def ex_ps_def ex_pk_def Let_def)
  ultimately obtain pid where pid: "k_fork ex_pk = Inr pid" "\<forall>waits n stat ws. waits pid = replicate n (Inl EINTR) @ Inr stat # ws \<longrightarrow>
        (\<exists>s2. pclose waits True s1 3 = (Some stat, s2) \<and> pfds s2 = pfds ex_ps \<and> childpid s2 = Some (table_of ex_pk ex_ps) \<and> popen_inv s2)"
    using popen_pclose by blast
  let ?waits = "\<lambda>p. if p = 42 then [Inl EINTR, Inr 9] else []"
  have "?waits pid = replicate 1 (Inl EINTR) @ Inr 9 # []" using pid(1) by (simp add: ex_pk_def)
  from pid(2) [rule_format, of ?waits 1 9 "[]", OF this] show ?thesis using s1 by blast
qed

end
