(* ===== verification/Ftw.thy ===== *)
theory Ftw
  imports Prelude
begin

text \<open>
  Walking a file hierarchy (\<^verbatim>\<open>filedir/ftw8.c\<close>, \<^verbatim>\<open>lib/pathalloc.c\<close>): one growing buffer holds the path of
  the file being visited, and a function is called for every file until it returns something other
  than 0. What \<^verbatim>\<open>lstat\<close> and \<^verbatim>\<open>opendir\<close> answer for a path is an argument, and the length of
  the buffer is checked at every write. The reference is the list of the files in preorder.
\<close>

section \<open>The path buffer\<close>

text \<open>
  \<^verbatim>\<open>path_alloc\<close>: what \<^verbatim>\<open>sysconf\<close> returned for the two versions, \<open>pc\<close> the answer of \<^verbatim>\<open>pathconf\<close> (\<open>Inl\<close>
  an error, \<open>Inr None\<close> no limit), \<open>mem\<close> whether \<^verbatim>\<open>malloc\<close> succeeds. The static \<^verbatim>\<open>pathmax\<close> is passed on.
\<close>

definition PATH_MAX_GUESS :: int where "PATH_MAX_GUESS = 1024"

definition path_alloc :: "int \<Rightarrow> int \<Rightarrow> (unit + int option) \<Rightarrow> bool \<Rightarrow> int \<Rightarrow> (nat \<times> int) res" where
  "path_alloc posix_version xsi_version pc mem pathmax =
     bnd (if pathmax = 0
          then (case pc of Inl _ \<Rightarrow> Inl (Err_sys ''pathconf error for _PC_PATH_MAX'')
                | Inr None \<Rightarrow> Inr PATH_MAX_GUESS
                | Inr (Some m) \<Rightarrow> Inr (m + 1))
          else Inr pathmax)
       (\<lambda>pm. let size = (if posix_version < 200112 \<and> xsi_version < 4 then pm + 1 else pm)
             in if mem then Inr (nat size, pm) else Inl (Err_sys ''malloc error for pathname''))"

section \<open>The walk\<close>

definition NAME_MAX :: nat where "NAME_MAX = 255"

datatype fmode = S_IFREG | S_IFBLK | S_IFCHR | S_IFIFO | S_IFLNK | S_IFSOCK | S_IFDIR

datatype ftw_type = FTW_F | FTW_D | FTW_DNR | FTW_NS

record fsenv =
  lstat :: "string \<Rightarrow> fmode option"
  opendir :: "string \<Rightarrow> string list option"

text \<open>A visit: the path, the mode unless \<^verbatim>\<open>lstat\<close> failed, the type. The function may end the program.\<close>

type_synonym 's myfunc_t = "string \<Rightarrow> fmode option \<Rightarrow> ftw_type \<Rightarrow> 's \<Rightarrow> (int \<times> 's) res"

record 's walk =
  fullpath :: string
  pathlen :: nat
  acc :: 's

definition call_func :: "'s myfunc_t \<Rightarrow> fmode option \<Rightarrow> ftw_type \<Rightarrow> 's walk \<Rightarrow> (int \<times> 's walk) res" where
  "call_func func m ty w = bnd (func (fullpath w) m ty (acc w)) (\<lambda>(ret, a). Inr (ret, w\<lparr>acc := a\<rparr>))"

text \<open>Writing a string and its null byte at index \<open>n\<close> of the buffer.\<close>

definition put_path :: "nat \<Rightarrow> string \<Rightarrow> 's walk \<Rightarrow> 's walk res" where
  "put_path n s w =
     (if length (fullpath w) < n \<or> pathlen w < n + length s + 1 then Inl (Undefined ''fullpath'')
      else Inr (w\<lparr>fullpath := take n (fullpath w) @ s\<rparr>))"

text \<open>The loop of lines 108 to 115; \<open>rec\<close> is the recursive call.\<close>

primrec dir_loop :: "('s walk \<Rightarrow> (int \<times> 's walk) res) \<Rightarrow> nat \<Rightarrow> string list \<Rightarrow> int \<Rightarrow> 's walk \<Rightarrow> (int \<times> 's walk) res" where
  "dir_loop rec n [] ret w = Inr (ret, w)"
| "dir_loop rec n (d # ds) ret w =
     (if d = ''.'' \<or> d = ''..'' then dir_loop rec n ds ret w
      else bnd (put_path n d w) (\<lambda>w1. bnd (rec w1) (\<lambda>(ret', w2).
        if ret' \<noteq> 0 then Inr (ret', w2) else dir_loop rec n ds ret' w2)))"

text \<open>Lines 96 to 120, after the visit of the directory itself. \<^verbatim>\<open>realloc\<close> succeeds.\<close>

definition enter_dir :: "('s walk \<Rightarrow> (int \<times> 's walk) res) \<Rightarrow> fsenv \<Rightarrow> 's myfunc_t \<Rightarrow> fmode \<Rightarrow> int \<Rightarrow> 's walk \<Rightarrow> (int \<times> 's walk) res" where
  "enter_dir rec fs func m ret w =
     (let n = length (fullpath w);
          w2 = (if pathlen w < n + NAME_MAX + 2 then w\<lparr>pathlen := pathlen w * 2\<rparr> else w)
      in bnd (put_path n ''/'' w2) (\<lambda>w3.
         case opendir fs (fullpath w3) of
           None \<Rightarrow> call_func func (Some m) FTW_DNR w3
         | Some ds \<Rightarrow>
             bnd (dir_loop rec (n + 1) ds ret w3) (\<lambda>(ret', w4).
               Inr (ret', w4\<lparr>fullpath := take n (fullpath w4)\<rparr>))))"

text \<open>The first argument bounds the depth; \<open>Diverges\<close> when the hierarchy is deeper.\<close>

primrec dopath :: "nat \<Rightarrow> fsenv \<Rightarrow> 's myfunc_t \<Rightarrow> 's walk \<Rightarrow> (int \<times> 's walk) res" where
  "dopath 0 fs func w = Inl Diverges"
| "dopath (Suc k) fs func w =
     (case lstat fs (fullpath w) of
        None \<Rightarrow> call_func func None FTW_NS w
      | Some m \<Rightarrow>
          if m \<noteq> S_IFDIR then call_func func (Some m) FTW_F w
          else bnd (call_func func (Some m) FTW_D w) (\<lambda>(ret, w1).
            if ret \<noteq> 0 then Inr (ret, w1) else enter_dir (dopath k fs func) fs func m ret w1))"

definition myftw :: "nat \<Rightarrow> fsenv \<Rightarrow> nat \<Rightarrow> string \<Rightarrow> 's myfunc_t \<Rightarrow> 's \<Rightarrow> (int \<times> 's walk) res" where
  "myftw k fs plen pathname func a =
     (let pl = (if plen \<le> length pathname then length pathname * 2 else plen)
      in bnd (put_path 0 pathname \<lparr>fullpath = [], pathlen = pl, acc = a\<rparr>) (dopath k fs func))"

section \<open>The program's function\<close>

record counts =
  nreg :: nat
  ndir :: nat
  nblk :: nat
  nchr :: nat
  nfifo :: nat
  nslink :: nat
  nsock :: nat

text \<open>The messages of \<^verbatim>\<open>err_ret\<close> are not kept; the mode counts only for \<^verbatim>\<open>FTW_F\<close>.\<close>

definition myfunc :: "counts myfunc_t" where
  "myfunc p m ty c =
     (case ty of
        FTW_F \<Rightarrow>
          (case m of
             Some S_IFREG \<Rightarrow> Inr (0, c\<lparr>nreg := nreg c + 1\<rparr>)
           | Some S_IFBLK \<Rightarrow> Inr (0, c\<lparr>nblk := nblk c + 1\<rparr>)
           | Some S_IFCHR \<Rightarrow> Inr (0, c\<lparr>nchr := nchr c + 1\<rparr>)
           | Some S_IFIFO \<Rightarrow> Inr (0, c\<lparr>nfifo := nfifo c + 1\<rparr>)
           | Some S_IFLNK \<Rightarrow> Inr (0, c\<lparr>nslink := nslink c + 1\<rparr>)
           | Some S_IFSOCK \<Rightarrow> Inr (0, c\<lparr>nsock := nsock c + 1\<rparr>)
           | Some S_IFDIR \<Rightarrow> Inl (Err_dump (''for S_IFDIR for '' @ p))
           | None \<Rightarrow> Inr (0, c))
      | FTW_D \<Rightarrow> Inr (0, c\<lparr>ndir := ndir c + 1\<rparr>)
      | FTW_DNR \<Rightarrow> Inr (0, c)
      | FTW_NS \<Rightarrow> Inr (0, c))"

definition ftw_main :: "nat \<Rightarrow> fsenv \<Rightarrow> nat \<Rightarrow> string list \<Rightarrow> (int \<times> counts \<times> nat) res" where
  "ftw_main k fs plen argv =
     (case argv of
        [a0, path] \<Rightarrow>
          bnd (myftw k fs plen path myfunc \<lparr>nreg = 0, ndir = 0, nblk = 0, nchr = 0, nfifo = 0, nslink = 0, nsock = 0\<rparr>) (\<lambda>(ret, w).
            let c = acc w; ntot = nreg c + ndir c + nblk c + nchr c + nfifo c + nslink c + nsock c
            in Inr (ret, c, if ntot = 0 then 1 else ntot))
      | _ \<Rightarrow> Inl (Err_quit ''usage:  ftw  <starting-pathname>''))"

section \<open>Hierarchies\<close>

datatype ftree = No_Stat | File_T fmode | Unreadable | Dir_T "(string \<times> ftree) list"

type_synonym visit = "string \<times> fmode option \<times> ftw_type"

fun preorder :: "string \<Rightarrow> ftree \<Rightarrow> visit list" where
  "preorder p No_Stat = [(p, None, FTW_NS)]"
| "preorder p (File_T m) = [(p, Some m, FTW_F)]"
| "preorder p Unreadable = [(p, Some S_IFDIR, FTW_D), (p @ ''/'', Some S_IFDIR, FTW_DNR)]"
| "preorder p (Dir_T es) = (p, Some S_IFDIR, FTW_D) # concat (map (\<lambda>(nm, t). preorder (p @ ''/'' @ nm) t) es)"

fun depth :: "ftree \<Rightarrow> nat" where
  "depth (Dir_T es) = Suc (Max (insert 0 (set (map (\<lambda>(nm, t). depth t) es))))"
| "depth _ = 1"

text \<open>The file system has the hierarchy \<open>t\<close> at path \<open>p\<close>; directories list themselves and their parents anywhere.\<close>

fun has_tree :: "fsenv \<Rightarrow> string \<Rightarrow> ftree \<Rightarrow> bool" where
  "has_tree fs p No_Stat \<longleftrightarrow> lstat fs p = None"
| "has_tree fs p (File_T m) \<longleftrightarrow> lstat fs p = Some m \<and> m \<noteq> S_IFDIR"
| "has_tree fs p Unreadable \<longleftrightarrow> lstat fs p = Some S_IFDIR \<and> opendir fs (p @ ''/'') = None"
| "has_tree fs p (Dir_T es) \<longleftrightarrow> lstat fs p = Some S_IFDIR \<and>
     (\<exists>ds. opendir fs (p @ ''/'') = Some ds \<and> filter (\<lambda>d. d \<noteq> ''.'' \<and> d \<noteq> ''..'') ds = map fst es) \<and>
     list_all (\<lambda>(nm, t). length nm \<le> NAME_MAX \<and> has_tree fs (p @ ''/'' @ nm) t) es"

text \<open>Calling a function on the visits until it returns something other than 0.\<close>

primrec visit_all :: "'s myfunc_t \<Rightarrow> visit list \<Rightarrow> 's \<Rightarrow> (int \<times> 's) res" where
  "visit_all func [] a = Inr (0, a)"
| "visit_all func (v # vs) a =
     (case v of (p, m, ty) \<Rightarrow> bnd (func p m ty a) (\<lambda>(ret, a'). if ret \<noteq> 0 then Inr (ret, a') else visit_all func vs a'))"

lemma visit_all_append:
  "visit_all func (us @ vs) a = bnd (visit_all func us a) (\<lambda>(ret, a'). if ret \<noteq> 0 then Inr (ret, a') else visit_all func vs a')"
proof (induction us arbitrary: a)
  case (Cons u us)
  obtain p m ty where u: "u = (p, m, ty)" by (cases u)
  show ?case
  proof (cases "func p m ty a")
    case (Inr r)
    then show ?thesis using Cons.IH u by (cases r) auto
  qed (use u in simp)
qed simp

lemma visit_one: "visit_all func [(p, m, ty)] a = func p m ty a"
  by (cases "func p m ty a") auto

section \<open>The walk visits the hierarchy in preorder\<close>

text \<open>The walk \<open>r\<close> from \<open>w\<close> does what the visits give, and the buffer still begins with \<open>p\<close>.\<close>

definition walked :: "(int \<times> 's) res \<Rightarrow> (int \<times> 's walk) res \<Rightarrow> 's walk \<Rightarrow> string \<Rightarrow> bool" where
  "walked v r w p \<longleftrightarrow>
     (case v of Inl e \<Rightarrow> r = Inl e
      | Inr (ret, a) \<Rightarrow> \<exists>w'. r = Inr (ret, w') \<and> acc w' = a \<and> pathlen w \<le> pathlen w' \<and> take (length p) (fullpath w') = p)"

lemma walked_call:
  "fullpath w = q \<Longrightarrow> take (length p) q = p \<Longrightarrow> walked (func q m ty (acc w)) (call_func func m ty w) w p"
  by (cases "func q m ty (acc w)") (auto simp: walked_def call_func_def)

lemma walked_take: "walked v r w (p @ q) \<Longrightarrow> walked v r w p"
  by (auto simp: walked_def split: sum.splits) (metis append_eq_conv_conj append_take_drop_id append.assoc)

lemma walked_le: "walked v r w' p \<Longrightarrow> pathlen w \<le> pathlen w' \<Longrightarrow> walked v r w p"
  by (fastforce simp: walked_def split: sum.splits)

lemma walked_then:
  assumes "walked v r w p"
    "\<And>a w'. v = Inr (0, a) \<Longrightarrow> acc w' = a \<Longrightarrow> pathlen w \<le> pathlen w' \<Longrightarrow> take (length p) (fullpath w') = p \<Longrightarrow> walked (f a) (g w') w' p"
  shows "walked (bnd v (\<lambda>(ret, a). if ret \<noteq> 0 then Inr (ret, a) else f a)) (bnd r (\<lambda>(ret, w'). if ret \<noteq> 0 then Inr (ret, w') else g w')) w p"
proof (cases v)
  case (Inr x)
  obtain ret a where x: "x = (ret, a)" by fastforce
  then obtain w' where w': "r = Inr (ret, w')" "acc w' = a" "pathlen w \<le> pathlen w'" "take (length p) (fullpath w') = p"
    using assms(1) Inr by (auto simp: walked_def)
  show ?thesis
  proof (cases "ret = 0")
    case True
    then have "walked (f a) (g w') w' p" using assms(2) Inr x w'(2-4) by simp
    then have "walked (f a) (g w') w p" using w'(3) by (rule walked_le)
    then show ?thesis using Inr x True w'(1) by simp
  qed (use Inr x w' in \<open>auto simp: walked_def\<close>)
qed (use assms(1) in \<open>simp add: walked_def\<close>)

lemma dir_loop_walks:
  assumes rec: "\<And>nm t w. (nm, t) \<in> set es \<Longrightarrow> fullpath w = p @ ''/'' @ nm \<Longrightarrow> length (fullpath w) < pathlen w \<Longrightarrow> NAME_MAX < pathlen w \<Longrightarrow>
      walked (visit_all func (preorder (p @ ''/'' @ nm) t) (acc w)) (rec w) w (p @ ''/'' @ nm)"
    and es: "filter (\<lambda>d. d \<noteq> ''.'' \<and> d \<noteq> ''..'') ds = map fst es" "\<forall>(nm, t) \<in> set es. length nm \<le> NAME_MAX"
    and w: "take (Suc (length p)) (fullpath w) = p @ ''/''" "length p + NAME_MAX + 2 \<le> pathlen w"
  shows "walked (visit_all func (concat (map (\<lambda>(nm, t). preorder (p @ ''/'' @ nm) t) es)) (acc w)) (dir_loop rec (Suc (length p)) ds 0 w) w (p @ ''/'')"
  using assms
proof (induction ds arbitrary: es w)
  case Nil
  then show ?case by (simp add: walked_def)
next
  case (Cons d ds)
  show ?case
  proof (cases "d = ''.'' \<or> d = ''..''")
    case True
    then show ?thesis using Cons.IH [OF Cons.prems(1) _ Cons.prems(3-5)] Cons.prems(2) by auto
  next
    case False
    then obtain t es' where es: "es = (d, t) # es'" "filter (\<lambda>d. d \<noteq> ''.'' \<and> d \<noteq> ''..'') ds = map fst es'"
      using Cons.prems(2) by (cases es) auto
    have l: "length d \<le> NAME_MAX" using Cons.prems(3) es(1) by simp
    have n: "Suc (length p) \<le> length (fullpath w)" using arg_cong [OF Cons.prems(4), of length] by simp
    let ?w = "w\<lparr>fullpath := p @ ''/'' @ d\<rparr>"
    have put: "put_path (Suc (length p)) d w = Inr ?w" using n l Cons.prems(4,5) by (simp add: put_path_def)
    have 1: "walked (visit_all func (preorder (p @ ''/'' @ d) t) (acc w)) (rec ?w) w (p @ ''/'')"
    proof -
      have "walked (visit_all func (preorder (p @ ''/'' @ d) t) (acc ?w)) (rec ?w) ?w (p @ ''/'' @ d)"
        by (rule Cons.prems(1)) (use es(1) l Cons.prems(5) in auto)
      then have "walked (visit_all func (preorder (p @ ''/'' @ d) t) (acc w)) (rec ?w) ?w ((p @ ''/'') @ d)" by simp
      from walked_le [OF walked_take [OF this], of w] show ?thesis by simp
    qed
    have 2: "walked (visit_all func (concat (map (\<lambda>(nm, t). preorder (p @ ''/'' @ nm) t) es')) a) (dir_loop rec (Suc (length p)) ds 0 w') w' (p @ ''/'')"
      if "acc w' = a" "pathlen w \<le> pathlen w'" "take (length (p @ ''/'')) (fullpath w') = p @ ''/''" for a w'
      using Cons.IH [of es' w'] Cons.prems(1,3,5) es that by fastforce
    have e: "(\<lambda>(ret', w2). if ret' \<noteq> 0 then Inr (ret', w2) else dir_loop rec (Suc (length p)) ds ret' w2) =
        (\<lambda>(ret', w2). if ret' \<noteq> 0 then Inr (ret', w2) else dir_loop rec (Suc (length p)) ds 0 w2)" by (auto simp: fun_eq_iff)
    obtain f where f: "f = visit_all func (concat (map (\<lambda>(nm, t). preorder (p @ ''/'' @ nm) t) es'))" by simp
    have "visit_all func (concat (map (\<lambda>(nm, t). preorder (p @ ''/'' @ nm) t) es)) (acc w) =
        bnd (visit_all func (preorder (p @ ''/'' @ d) t) (acc w)) (\<lambda>(ret, a). if ret \<noteq> 0 then Inr (ret, a) else f a)"
      unfolding f es(1) list.map concat.simps prod.case visit_all_append by (rule refl)
    then show ?thesis using put False walked_then [of _ _ w _ f, OF 1 2 [folded f]] by (simp add: e)
  qed
qed

lemma enter_dir_walks:
  assumes IH: "\<And>t p w. has_tree fs p t \<Longrightarrow> depth t \<le> k \<Longrightarrow> fullpath w = p \<Longrightarrow> length p < pathlen w \<Longrightarrow> NAME_MAX < pathlen w \<Longrightarrow>
      walked (visit_all func (preorder p t) (acc w)) (dopath k fs func w) w p"
    and t: "has_tree fs p t" "depth t \<le> Suc k" "preorder p t = (p, Some S_IFDIR, FTW_D) # rest"
    and w: "fullpath w = p" "length p < pathlen w" "NAME_MAX < pathlen w"
  shows "walked (visit_all func rest (acc w)) (enter_dir (dopath k fs func) fs func S_IFDIR 0 w) w p"
proof -
  let ?w2 = "if pathlen w < length p + NAME_MAX + 2 then w\<lparr>pathlen := pathlen w * 2\<rparr> else w"
  let ?w3 = "?w2\<lparr>fullpath := p @ ''/''\<rparr>"
  have len: "length p + NAME_MAX + 2 \<le> pathlen ?w2" "pathlen w \<le> pathlen ?w3" using w by auto
  have put: "put_path (length p) ''/'' ?w2 = Inr ?w3" using len(1) w(1) by (auto simp: put_path_def)
  show ?thesis
  proof (cases t)
    case Unreadable
    have "walked (func (p @ ''/'') (Some S_IFDIR) FTW_DNR (acc ?w3)) (call_func func (Some S_IFDIR) FTW_DNR ?w3) ?w3 p"
      by (rule walked_call) auto
    from walked_le [OF this len(2)] show ?thesis
      using put Unreadable t(1,3) w(1) by (auto simp: enter_dir_def Let_def visit_one simp del: visit_all.simps)
  next
    case (Dir_T es)
    then obtain ds where ds: "opendir fs (p @ ''/'') = Some ds" "filter (\<lambda>d. d \<noteq> ''.'' \<and> d \<noteq> ''..'') ds = map fst es"
      using t(1) by auto
    have sub: "length nm \<le> NAME_MAX \<and> has_tree fs (p @ ''/'' @ nm) t' \<and> depth t' \<le> k" if "(nm, t') \<in> set es" for nm t'
    proof -
      have "depth t' \<le> Max (insert 0 (set (map (\<lambda>(nm, t). depth t) es)))" by (rule Max_ge) (use that in force)+
      then show ?thesis using that t(1,2) Dir_T by (auto simp: list_all_iff)
    qed
    have "walked (visit_all func (concat (map (\<lambda>(nm, t). preorder (p @ ''/'' @ nm) t) es)) (acc ?w3))
        (dir_loop (dopath k fs func) (Suc (length p)) ds 0 ?w3) ?w3 (p @ ''/'')"
      by (rule dir_loop_walks [OF IH ds(2)]) (use sub len(1) in auto)
    from walked_le [OF walked_take [OF this] len(2)]
    have "walked (visit_all func rest (acc w)) (dir_loop (dopath k fs func) (Suc (length p)) ds 0 ?w3) w p"
      using t(3) Dir_T by auto
    then have "walked (visit_all func rest (acc w)) (bnd (dir_loop (dopath k fs func) (Suc (length p)) ds 0 ?w3)
        (\<lambda>(ret', w4). Inr (ret', w4\<lparr>fullpath := take (length p) (fullpath w4)\<rparr>))) w p"
      by (fastforce simp: walked_def split: sum.splits)
    then show ?thesis using put ds(1) w(1) by (simp add: enter_dir_def Let_def)
  qed (use t(3) in auto)
qed

lemma dopath_walks:
  assumes "has_tree fs p t" "depth t \<le> k" "fullpath w = p" "length p < pathlen w" "NAME_MAX < pathlen w"
  shows "walked (visit_all func (preorder p t) (acc w)) (dopath k fs func w) w p"
  using assms
proof (induction k arbitrary: t p w)
  case 0
  then show ?case by (cases t) auto
next
  case (Suc k)
  show ?case
  proof (cases "t = No_Stat \<or> (\<exists>m. t = File_T m)")
    case True
    then show ?thesis using Suc.prems walked_call [OF Suc.prems(3), of p func] by (auto simp: visit_one simp del: visit_all.simps)
  next
    case False
    then have l: "lstat fs p = Some S_IFDIR" using Suc.prems(1) by (cases t) auto
    obtain rest where pre: "preorder p t = (p, Some S_IFDIR, FTW_D) # rest" using False by (cases t) auto
    show ?thesis
    proof (cases "func p (Some S_IFDIR) FTW_D (acc w)")
      case (Inr x)
      obtain ret a where x: "x = (ret, a)" by fastforce
      let ?w1 = "w\<lparr>acc := a\<rparr>"
      have D: "walked (visit_all func rest (acc ?w1)) (enter_dir (dopath k fs func) fs func S_IFDIR 0 ?w1) ?w1 p"
        by (rule enter_dir_walks [OF Suc.IH Suc.prems(1,2) pre]) (use Suc.prems(3-5) in simp_all)
      have dp: "dopath (Suc k) fs func w = (if ret \<noteq> 0 then Inr (ret, ?w1) else enter_dir (dopath k fs func) fs func S_IFDIR 0 ?w1)"
        using Inr x l Suc.prems(3) by (simp add: call_func_def)
      have vs: "visit_all func (preorder p t) (acc w) = (if ret \<noteq> 0 then Inr (ret, a) else visit_all func rest a)"
        using Inr x pre by simp
      show ?thesis unfolding dp vs using walked_le [OF D, of w] Suc.prems(3) by (auto simp: walked_def)
    qed (use l pre Suc.prems(3) in \<open>simp add: walked_def call_func_def\<close>)
  qed
qed

lemma myftw_walks:
  assumes "has_tree fs p t" "depth t \<le> k" "NAME_MAX < plen"
  shows "\<exists>w. fullpath w = p \<and> acc w = a \<and> myftw k fs plen p func a = dopath k fs func w \<and>
    walked (visit_all func (preorder p t) a) (myftw k fs plen p func a) w p"
proof -
  let ?pl = "if plen \<le> length p then length p * 2 else plen"
  let ?w = "\<lparr>fullpath = p, pathlen = ?pl, acc = a\<rparr>"
  have "length p < ?pl" "NAME_MAX < ?pl" using assms(3) by auto
  moreover from this have "myftw k fs plen p func a = dopath k fs func ?w" by (simp add: myftw_def put_path_def Let_def)
  ultimately show ?thesis using dopath_walks [OF assms(1,2), of ?w func] by (intro exI [of _ ?w]) simp
qed

section \<open>Counting\<close>

definition nvisits :: "ftw_type \<Rightarrow> fmode \<Rightarrow> visit list \<Rightarrow> nat" where
  "nvisits ty m vs = length (filter (\<lambda>(p, m', ty'). m' = Some m \<and> ty' = ty) vs)"

lemma nvisits_simps [simp]:
  "nvisits ty m [] = 0" "nvisits ty m ((p, m', ty') # vs) = (if m' = Some m \<and> ty' = ty then 1 else 0) + nvisits ty m vs"
  by (simp_all add: nvisits_def)

definition counted :: "visit \<Rightarrow> bool" where
  "counted v \<longleftrightarrow> snd (snd v) = FTW_F \<or> snd (snd v) = FTW_D"

definition count_ok :: "counts \<Rightarrow> counts \<Rightarrow> visit list \<Rightarrow> bool" where
  "count_ok c c' vs \<longleftrightarrow> nreg c' = nreg c + nvisits FTW_F S_IFREG vs \<and> ndir c' = ndir c + nvisits FTW_D S_IFDIR vs \<and>
     nblk c' = nblk c + nvisits FTW_F S_IFBLK vs \<and> nchr c' = nchr c + nvisits FTW_F S_IFCHR vs \<and>
     nfifo c' = nfifo c + nvisits FTW_F S_IFIFO vs \<and> nslink c' = nslink c + nvisits FTW_F S_IFLNK vs \<and> nsock c' = nsock c + nvisits FTW_F S_IFSOCK vs"

text \<open>The visits that a hierarchy gives.\<close>

definition regular_visit :: "visit \<Rightarrow> bool" where
  "regular_visit v \<longleftrightarrow> (case v of (p, m, FTW_F) \<Rightarrow> (\<exists>m'. m = Some m' \<and> m' \<noteq> S_IFDIR) | (p, m, FTW_D) \<Rightarrow> m = Some S_IFDIR | _ \<Rightarrow> True)"

lemma regular_visit_cases:
  assumes "regular_visit (p, m, ty)"
  obtains m' where "ty = FTW_F" "m = Some m'" "m' \<noteq> S_IFDIR" | "ty = FTW_D" "m = Some S_IFDIR" | "ty = FTW_DNR" | "ty = FTW_NS"
  using assms by (cases ty) (auto simp: regular_visit_def)

lemma preorder_regular: "has_tree fs p t \<Longrightarrow> v \<in> set (preorder p t) \<Longrightarrow> regular_visit v"
proof (induction p t arbitrary: v rule: preorder.induct)
  case (4 p es)
  then show ?case by (fastforce simp: regular_visit_def list_all_iff)
qed (auto simp: regular_visit_def)

lemma visit_all_myfunc:
  assumes "\<forall>v \<in> set vs. regular_visit v"
  shows "\<exists>c'. visit_all myfunc vs c = Inr (0, c') \<and> count_ok c c' vs"
  using assms
proof (induction vs arbitrary: c)
  case Nil
  then show ?case by (simp add: count_ok_def)
next
  case (Cons v vs)
  obtain p m ty where v: "v = (p, m, ty)" by (cases v)
  have "regular_visit (p, m, ty)" using Cons.prems v by simp
  then have "\<exists>c1. myfunc p m ty c = Inr (0, c1) \<and> count_ok c c1 [v]"
  proof (cases rule: regular_visit_cases)
    case (1 m')
    then show ?thesis using v by (cases m') (simp_all add: myfunc_def count_ok_def)
  qed (simp_all add: v myfunc_def count_ok_def)
  then obtain c1 where c1: "myfunc p m ty c = Inr (0, c1)" "count_ok c c1 [v]" by blast
  obtain c' where c': "visit_all myfunc vs c1 = Inr (0, c')" "count_ok c1 c' vs" using Cons by auto
  have "count_ok c c' (v # vs)" using c1(2) c'(2) v by (simp add: count_ok_def)
  then show ?case using c1(1) c'(1) v by simp
qed

lemma counted_total:
  assumes "\<forall>v \<in> set vs. regular_visit v"
  shows "length (filter counted vs) = nvisits FTW_F S_IFREG vs + nvisits FTW_D S_IFDIR vs + nvisits FTW_F S_IFBLK vs + nvisits FTW_F S_IFCHR vs +
    nvisits FTW_F S_IFIFO vs + nvisits FTW_F S_IFLNK vs + nvisits FTW_F S_IFSOCK vs"
  using assms
proof (induction vs)
  case (Cons v vs)
  obtain p m ty where v: "v = (p, m, ty)" by (cases v)
  have "regular_visit (p, m, ty)" using Cons.prems v by simp
  then show ?case
  proof (cases rule: regular_visit_cases)
    case (1 m')
    then show ?thesis using v Cons by (cases m') (simp_all add: counted_def)
  qed (use v Cons in \<open>simp_all add: counted_def\<close>)
qed simp

section \<open>Properties\<close>

text \<open>
  C34: The walk is a preorder traversal. For a hierarchy of any shape, with names of at most \<^verbatim>\<open>NAME_MAX\<close>
  bytes and a first buffer that is longer than that, \<^verbatim>\<open>myftw\<close> calls its function for the
  files in preorder, with their paths, until it returns something other than 0, and returns that; no write
  leaves the buffer, which begins with the starting path again at the end. The program then
  counts the files of each kind, and its total is the number of files it could look at.
\<close>

theorem ftw_preorder:
  fixes func :: "'s myfunc_t"
  assumes "has_tree fs p t" "depth t \<le> k" "NAME_MAX < plen"
  shows "(case visit_all func (preorder p t) a of
       Inl e \<Rightarrow> myftw k fs plen p func a = Inl e
     | Inr (ret, a') \<Rightarrow> \<exists>w. myftw k fs plen p func a = Inr (ret, w) \<and> acc w = a' \<and> take (length p) (fullpath w) = p) \<and>
    (\<exists>c. ftw_main k fs plen [a0, p] = Inr (0, c, max 1 (length (filter counted (preorder p t)))) \<and>
       nreg c = nvisits FTW_F S_IFREG (preorder p t) \<and> ndir c = nvisits FTW_D S_IFDIR (preorder p t) \<and>
       nblk c = nvisits FTW_F S_IFBLK (preorder p t) \<and> nchr c = nvisits FTW_F S_IFCHR (preorder p t) \<and>
       nfifo c = nvisits FTW_F S_IFIFO (preorder p t) \<and> nslink c = nvisits FTW_F S_IFLNK (preorder p t) \<and>
       nsock c = nvisits FTW_F S_IFSOCK (preorder p t))"
proof (rule conjI)
  show "case visit_all func (preorder p t) a of
       Inl e \<Rightarrow> myftw k fs plen p func a = Inl e
     | Inr (ret, a') \<Rightarrow> \<exists>w. myftw k fs plen p func a = Inr (ret, w) \<and> acc w = a' \<and> take (length p) (fullpath w) = p"
    using myftw_walks [OF assms, of a func] by (auto simp: walked_def split: sum.splits)
  let ?z = "\<lparr>nreg = 0, ndir = 0, nblk = 0, nchr = 0, nfifo = 0, nslink = 0, nsock = 0\<rparr>"
  have reg: "\<forall>v \<in> set (preorder p t). regular_visit v" using preorder_regular [OF assms(1)] by blast
  obtain c where c: "visit_all myfunc (preorder p t) ?z = Inr (0, c)" "count_ok ?z c (preorder p t)"
    using visit_all_myfunc [OF reg] by blast
  obtain w where "myftw k fs plen p myfunc ?z = Inr (0, w)" "acc w = c"
    using myftw_walks [OF assms, of ?z myfunc] c(1) by (auto simp: walked_def)
  then show "\<exists>c. ftw_main k fs plen [a0, p] = Inr (0, c, max 1 (length (filter counted (preorder p t)))) \<and>
       nreg c = nvisits FTW_F S_IFREG (preorder p t) \<and> ndir c = nvisits FTW_D S_IFDIR (preorder p t) \<and>
       nblk c = nvisits FTW_F S_IFBLK (preorder p t) \<and> nchr c = nvisits FTW_F S_IFCHR (preorder p t) \<and>
       nfifo c = nvisits FTW_F S_IFIFO (preorder p t) \<and> nslink c = nvisits FTW_F S_IFLNK (preorder p t) \<and>
       nsock c = nvisits FTW_F S_IFSOCK (preorder p t)"
    using c(2) counted_total [OF reg] by (simp add: ftw_main_def count_ok_def Let_def)
qed

text \<open>A directory with a file and an unreadable directory.\<close>

definition ex_fs :: fsenv where
  "ex_fs = \<lparr>lstat = [''d'' \<mapsto> S_IFDIR, ''d/a'' \<mapsto> S_IFREG, ''d/b'' \<mapsto> S_IFDIR], opendir = [''d/'' \<mapsto> [''.'', ''..'', ''a'', ''b'']]\<rparr>"

theorem ftw_preorder_witness:
  "\<exists>c. ftw_main 2 ex_fs 4096 [''ftw'', ''d''] = Inr (0, c, 3) \<and> nreg c = 1 \<and> ndir c = 2"
proof -
  let ?t = "Dir_T [(''a'', File_T S_IFREG), (''b'', Unreadable)]"
  have pre: "has_tree ex_fs ''d'' ?t" "depth ?t \<le> 2" "NAME_MAX < 4096" by (simp_all add: ex_fs_def NAME_MAX_def)
  have v: "preorder ''d'' ?t = [(''d'', Some S_IFDIR, FTW_D), (''d/a'', Some S_IFREG, FTW_F), (''d/b'', Some S_IFDIR, FTW_D), (''d/b/'', Some S_IFDIR, FTW_DNR)]"
    by simp
  show ?thesis using conjunct2 [OF ftw_preorder [OF pre, where func = myfunc and ?a0.0 = "''ftw''"]]
    unfolding v by (auto simp: counted_def eval_nat_numeral)
qed

end
