(* ===== verification/Print_Config.thy ===== *)
theory Print_Config
  imports Netio
begin

text \<open>
  The configuration file of the print service (\<^verbatim>\<open>printer/util.c\<close>): lines of a keyword and a value, read with
  \<^verbatim>\<open>fgets\<close> into a buffer of \<^verbatim>\<open>MAXCFGLINE\<close> bytes and taken apart with \<^verbatim>\<open>sscanf\<close>. The value is returned in
  a static buffer, which is part of the state. What \<^verbatim>\<open>getaddrinfo\<close> answers is an argument.
\<close>

section \<open>Reading words\<close>

definition MAXCFGLINE :: nat where "MAXCFGLINE = 512"
definition MAXKWLEN :: nat where "MAXKWLEN = 16"

text \<open>\<^verbatim>\<open>sscanf\<close> with the pattern of two words of at most \<open>j\<close> and \<open>k\<close> bytes.\<close>

definition sscanf2 :: "nat \<Rightarrow> nat \<Rightarrow> string \<Rightarrow> int \<times> string \<times> string" where
  "sscanf2 j k line =
     (let s = dropWhile isspace (cstr line);
          w1 = takeWhile (\<lambda>c. \<not> isspace c) (take j s);
          s2 = dropWhile isspace (drop (length w1) s);
          w2 = takeWhile (\<lambda>c. \<not> isspace c) (take k s2)
      in (if w1 = [] then -1 else if w2 = [] then 1 else 2, w1, w2))"

section \<open>The functions\<close>

text \<open>The loop of lines 56 to 62: the value of the first line with the keyword, and the static buffer.\<close>

function scan_loop :: "string \<Rightarrow> string \<Rightarrow> string \<Rightarrow> string option \<times> string" where
  "scan_loop keyword s valbuf =
     (case fgets MAXCFGLINE s of
        None \<Rightarrow> (None, valbuf)
      | Some (line, rest) \<Rightarrow>
          (case sscanf2 (MAXKWLEN - 1) (MAXCFGLINE - 1) line of
             (n, keybuf, v) \<Rightarrow>
               let valbuf' = (if n = 2 then v else valbuf)
               in if n = 2 \<and> keyword = keybuf then (Some valbuf', valbuf') else scan_loop keyword rest valbuf'))"
  by pat_completeness auto
termination
  by (relation "measure (\<lambda>(k, s, v). length s)") (auto dest: fgets_progress simp: MAXCFGLINE_def)

declare scan_loop.simps [simp del]

definition scan_configfile :: "string option \<Rightarrow> string \<Rightarrow> string \<Rightarrow> (string option \<times> string) res" where
  "scan_configfile cfg keyword valbuf =
     (case cfg of None \<Rightarrow> Inl (Err_sys ''can't open config file'') | Some s \<Rightarrow> Inr (scan_loop keyword s valbuf))"

definition get_printserver :: "string option \<Rightarrow> string \<Rightarrow> (string option \<times> string) res" where
  "get_printserver cfg valbuf = scan_configfile cfg ''printserver'' valbuf"

text \<open>\<open>gai host service\<close>: an error code or the list of addresses (\<^verbatim>\<open>getaddrlist\<close>).\<close>

definition get_printaddr :: "(string \<Rightarrow> string \<Rightarrow> int + 'a) \<Rightarrow> string option \<Rightarrow> string \<Rightarrow> ('a option \<times> string) res" where
  "get_printaddr gai cfg valbuf =
     bnd (scan_configfile cfg ''printer'' valbuf) (\<lambda>(p, vb).
       case p of None \<Rightarrow> Inr (None, vb)
       | Some h \<Rightarrow> (case gai h ''ipp'' of Inl err \<Rightarrow> Inr (None, vb) | Inr ai \<Rightarrow> Inr (Some ai, vb)))"

section \<open>Looking up what a file says\<close>

definition word_ok :: "string \<Rightarrow> bool" where
  "word_ok w \<longleftrightarrow> w \<noteq> [] \<and> (\<forall>c \<in> set w. \<not> isspace c \<and> c \<noteq> NUL)"

definition entry_ok :: "string \<times> string \<Rightarrow> bool" where
  "entry_ok e \<longleftrightarrow> word_ok (fst e) \<and> word_ok (snd e) \<and> length (fst e) < MAXKWLEN \<and> length (fst e) + length (snd e) + 2 < MAXCFGLINE"

definition cfg_line :: "string \<times> string \<Rightarrow> string" where
  "cfg_line e = fst e @ SPACE # snd e @ [NL]"

lemma fgets_line:
  assumes "entry_ok e"
  shows "fgets MAXCFGLINE (cfg_line e @ r) = Some (cfg_line e, r)"
proof -
  let ?l = "fst e @ SPACE # snd e"
  have "isspace NL" by (simp add: isspace_def)
  then have "NL \<notin> set (fst e)" "NL \<notin> set (snd e)" using assms unfolding entry_ok_def word_ok_def by blast+
  then have nl: "NL \<notin> set ?l" by simp
  have "length ?l < MAXCFGLINE - 1" using assms by (simp add: entry_ok_def less_diff_conv)
  from fgets_take_line [OF nl this, of r] have t: "fgets_take (MAXCFGLINE - 1) (cfg_line e @ r) = cfg_line e" by (simp add: cfg_line_def)
  have "cfg_line e @ r \<noteq> []" by (simp add: cfg_line_def)
  then show ?thesis unfolding fgets_def t Let_def by simp
qed

lemma word_prefix:
  assumes "word_ok w" "length w \<le> k" "isspace c"
  shows "dropWhile isspace (w @ c # r) = w @ c # r" "takeWhile (\<lambda>c. \<not> isspace c) (take k (w @ c # r)) = w"
proof -
  show "dropWhile isspace (w @ c # r) = w @ c # r" using assms(1) by (cases w) (auto simp: word_ok_def)
  have "take k (w @ c # r) = w @ take (k - length w) (c # r)" using assms(2) by simp
  moreover have "\<forall>x \<in> set w. \<not> isspace x" using assms(1) by (simp add: word_ok_def)
  ultimately show "takeWhile (\<lambda>c. \<not> isspace c) (take k (w @ c # r)) = w"
    using assms(3) by (cases "k - length w") (auto simp: takeWhile_append2)
qed

lemma sscanf2_line:
  assumes "entry_ok e"
  shows "sscanf2 (MAXKWLEN - 1) (MAXCFGLINE - 1) (cfg_line e) = (2, fst e, snd e)"
proof -
  have w: "word_ok (fst e)" "word_ok (snd e)" "length (fst e) \<le> MAXKWLEN - 1" "length (snd e) \<le> MAXCFGLINE - 1"
    using assms by (auto simp: entry_ok_def)
  have sp: "isspace SPACE" "isspace NL" by (simp_all add: isspace_def)
  have "NUL \<notin> set (cfg_line e)" using w(1,2) by (auto simp: cfg_line_def word_ok_def)
  then have c: "cstr (cfg_line e) = cfg_line e" by (auto simp: cstr_def takeWhile_eq_all_conv)
  note k = word_prefix [OF w(1,3) sp(1), of "snd e @ [NL]"] and v = word_prefix [OF w(2,4) sp(2), of "[]"]
  have "drop (length (fst e)) (cfg_line e) = SPACE # snd e @ [NL]" by (simp add: cfg_line_def)
  then have "dropWhile isspace (drop (length (fst e)) (cfg_line e)) = snd e @ [NL]" using v(1) sp(1) by simp
  then show ?thesis unfolding sscanf2_def c using k v(2) w(1,2) by (simp add: cfg_line_def [symmetric] word_ok_def Let_def)
qed

text \<open>The first entry with the keyword is found, whatever else the file has.\<close>

lemma scan_loop_map_of:
  assumes "\<forall>e \<in> set es. entry_ok e"
  shows "fst (scan_loop keyword (concat (map cfg_line es)) valbuf) = map_of es keyword"
  using assms
proof (induction es arbitrary: valbuf)
  case Nil
  then show ?case by (simp add: scan_loop.simps fgets_def)
next
  case (Cons e es)
  then have "fgets MAXCFGLINE (cfg_line e @ concat (map cfg_line es)) = Some (cfg_line e, concat (map cfg_line es))"
    "sscanf2 (MAXKWLEN - 1) (MAXCFGLINE - 1) (cfg_line e) = (2, fst e, snd e)" using fgets_line sscanf2_line by simp_all
  then have "scan_loop keyword (cfg_line e @ concat (map cfg_line es)) valbuf =
      (if keyword = fst e then (Some (snd e), snd e) else scan_loop keyword (concat (map cfg_line es)) (snd e))"
    by (subst scan_loop.simps) (cases e, simp add: Let_def)
  then show ?case using Cons by (cases e) simp
qed

lemma config_lookup:
  assumes "\<forall>e \<in> set es. entry_ok e"
  shows "\<exists>vb. get_printserver (Some (concat (map cfg_line es))) valbuf = Inr (map_of es ''printserver'', vb)"
    "\<exists>vb. get_printaddr gai (Some (concat (map cfg_line es))) valbuf =
       Inr (Option.bind (map_of es ''printer'') (\<lambda>h. case gai h ''ipp'' of Inl err \<Rightarrow> None | Inr ai \<Rightarrow> Some ai), vb)"
proof -
  have s: "\<exists>vb. scan_configfile (Some (concat (map cfg_line es))) kw valbuf = Inr (map_of es kw, vb)" for kw
    using scan_loop_map_of [OF assms, of kw valbuf] by (metis option.simps(5) prod.collapse scan_configfile_def)
  show "\<exists>vb. get_printserver (Some (concat (map cfg_line es))) valbuf = Inr (map_of es ''printserver'', vb)"
    using s by (simp add: get_printserver_def)
  show "\<exists>vb. get_printaddr gai (Some (concat (map cfg_line es))) valbuf =
       Inr (Option.bind (map_of es ''printer'') (\<lambda>h. case gai h ''ipp'' of Inl err \<Rightarrow> None | Inr ai \<Rightarrow> Some ai), vb)"
    using s [of "''printer''"] by (auto simp: get_printaddr_def split: option.splits sum.splits)
qed

end
