(* ===== verification/Print_Client.thy ===== *)
theory Print_Client
  imports Print_Wire Print_Config
begin

text \<open>
  The command that prints a file (\<^verbatim>\<open>main\<close> of \<^verbatim>\<open>printer/print.c\<close>) from its arguments to \<^verbatim>\<open>submit_file\<close>: options, the
  file, the server from the configuration file, its addresses, and \<^verbatim>\<open>connect_retry\<close> of \<^verbatim>\<open>sockets/clconn2.c\<close>, which
  waits longer after every refusal.
\<close>

section \<open>Connecting with exponential backoff\<close>

definition MAXSLEEP :: nat where "MAXSLEEP = 128"

text \<open>One round: no socket, a socket whose connection is refused, or a connection.\<close>

datatype conn_try = No_Socket | Refused | Connected nat

text \<open>
  Round \<open>k\<close> with \<^verbatim>\<open>numsec\<close> of \<open>2 ^ k\<close>; \<open>tries k\<close> is what happens in it. The result is the descriptor and the seconds
  slept. A refused socket is closed in its round.
\<close>

function connect_loop :: "(nat \<Rightarrow> conn_try) \<Rightarrow> nat \<Rightarrow> nat \<Rightarrow> nat option \<times> nat" where
  "connect_loop tries k slept =
     (if MAXSLEEP < 2 ^ k then (None, slept)
      else case tries k of
        No_Socket \<Rightarrow> (None, slept)
      | Connected fd \<Rightarrow> (Some fd, slept)
      | Refused \<Rightarrow> connect_loop tries (Suc k) (if 2 ^ k \<le> MAXSLEEP div 2 then slept + 2 ^ k else slept))"
  by pat_completeness auto
termination
proof (relation "measure (\<lambda>(t, k, s). 8 - k)")
  fix tries :: "nat \<Rightarrow> conn_try" and k slept :: nat
  assume "\<not> MAXSLEEP < 2 ^ k"
  then have "(2 :: nat) ^ k < 2 ^ 8" by (simp add: MAXSLEEP_def)
  then have "k < 8" by (rule power_less_imp_less_exp [rotated]) simp
  then show "((tries, Suc k, if 2 ^ k \<le> MAXSLEEP div 2 then slept + 2 ^ k else slept), tries, k, slept) \<in> measure (\<lambda>(t, k, s). 8 - k)" by simp
qed simp

declare connect_loop.simps [simp del]

definition connect_retry :: "(nat \<Rightarrow> conn_try) \<Rightarrow> nat option \<times> nat" where
  "connect_retry tries = connect_loop tries 0 0"

section \<open>The command\<close>

text \<open>\<^verbatim>\<open>getopt\<close> with the option \<^verbatim>\<open>t\<close>: whether there was another one, whether \<^verbatim>\<open>t\<close> was given, and the arguments that follow.\<close>

fun getopt_t :: "string list \<Rightarrow> bool \<times> bool \<times> string list" where
  "getopt_t [] = (False, False, [])"
| "getopt_t (a # as) =
     (if a = ''--'' then (False, False, as)
      else if a \<noteq> [] \<and> hd a = CHR ''-'' \<and> a \<noteq> ''-''
      then (case getopt_t as of (err, text, rest) \<Rightarrow>
              (err \<or> list_ex (\<lambda>c. c \<noteq> CHR ''t'') (tl a), text \<or> list_ex (\<lambda>c. c = CHR ''t'') (tl a), rest))
      else (False, False, a # as))"

text \<open>A file as \<^verbatim>\<open>open\<close> and \<^verbatim>\<open>fstat\<close> see it, with its contents as they will be read.\<close>

datatype pfile = Unopenable | Unstatable | Special | Regular nat "rdev list"

text \<open>An address: what happens when connecting, how the socket takes bytes, what the server sends.\<close>

record paddr =
  pa_tries :: "nat \<Rightarrow> conn_try"
  pa_out :: "wrev list"
  pa_rsp :: "rdev list"

primrec try_addrs :: "(paddr \<Rightarrow> 'r) \<Rightarrow> paddr list \<Rightarrow> 'r option" where
  "try_addrs submit [] = None"
| "try_addrs submit (aip # as) = (if fst (connect_retry (pa_tries aip)) = None then try_addrs submit as else Some (submit aip))"

definition print_main ::
  "printreq \<Rightarrow> string option \<Rightarrow> (string \<Rightarrow> pfile) \<Rightarrow> string option \<Rightarrow> string \<Rightarrow> (string \<Rightarrow> string \<Rightarrow> int + paddr list) \<Rightarrow> string list
   \<Rightarrow> (string \<times> submit_end res) res" where
  "print_main g pwd files cfg valbuf gai args =
     (case getopt_t args of (err, text, rest) \<Rightarrow>
        if err \<or> length rest \<noteq> 1 then Inl (Err_quit ''usage: print [-t] filename'')
        else
          let fname = hd rest
          in case files fname of
               Unopenable \<Rightarrow> Inl (Err_sys ''print: can't open file'')
             | Unstatable \<Rightarrow> Inl (Err_sys ''print: can't stat file'')
             | Special \<Rightarrow> Inl (Err_quit ''print: must be a regular file'')
             | Regular nbytes inp \<Rightarrow>
                 bnd (get_printserver cfg valbuf) (\<lambda>(host, vb).
                   case host of
                     None \<Rightarrow> Inl (Err_quit ''print: no print server defined'')
                   | Some h \<Rightarrow>
                       (case gai h ''print'' of
                          Inl e \<Rightarrow> Inl (Err_quit ''print: getaddrinfo error'')
                        | Inr ailist \<Rightarrow>
                            (case try_addrs (\<lambda>aip. submit_file g pwd fname nbytes text inp (pa_out aip) (pa_rsp aip)) ailist of
                               None \<Rightarrow> Inl (Err_quit ''print: can't contact server'')
                             | Some r \<Rightarrow> Inr r))))"

section \<open>What the command does\<close>

lemma connect_loop_refused:
  assumes "\<forall>j. k \<le> j \<and> j < k + n \<longrightarrow> tries j = Refused" "k + n \<le> 8"
  shows "connect_loop tries k slept = connect_loop tries (k + n) (slept + (\<Sum>j = k..<k + n. if j < 7 then 2 ^ j else 0))"
  using assms
proof (induction n arbitrary: k slept)
  case (Suc n)
  have k: "k < 8" "tries k = Refused" using Suc.prems by auto
  have "(2 :: nat) ^ k \<le> 2 ^ 7" using k(1) by (intro power_increasing) auto
  moreover have "2 ^ k \<le> (64 :: nat) \<longleftrightarrow> k < 7"
    using power_increasing_iff [of "2 :: nat" k 6] by auto
  ultimately have "connect_loop tries k slept = connect_loop tries (Suc k) (slept + (if k < 7 then 2 ^ k else 0))"
    using k(2) by (subst connect_loop.simps) (auto simp: MAXSLEEP_def)
  moreover have "(\<Sum>j = k..<k + Suc n. if j < 7 then 2 ^ j else 0) = (if k < 7 then 2 ^ k else 0) + (\<Sum>j = Suc k..<Suc k + n. if j < 7 then 2 ^ j else (0 :: nat))"
    by (simp add: sum.atLeast_Suc_lessThan)
  ultimately show ?case using Suc.IH [of "Suc k"] Suc.prems by (simp add: add.assoc)
qed simp

lemma backoff_sum: "n \<le> 7 \<Longrightarrow> (\<Sum>j = 0..<n. if j < 7 then 2 ^ j else 0) = (2 :: nat) ^ n - 1"
proof (induction n)
  case (Suc n)
  have "(1 :: nat) \<le> 2 ^ n" by simp
  then show ?case using Suc by simp
qed simp

text \<open>
  The loop ends. It returns the first connection within eight rounds, after 1, 2, 4 and so on seconds of sleep, and gives up after 127 seconds.
\<close>

lemma connect_retry_first:
  assumes "n < 8" "\<forall>j < n. tries j = Refused" "tries n = Connected fd"
  shows "connect_retry tries = (Some fd, 2 ^ n - 1)"
proof -
  have "(2 :: nat) ^ n \<le> 2 ^ 7" using assms(1) by (intro power_increasing) auto
  then have "connect_loop tries n s = (Some fd, s)" for s
    using assms(3) by (subst connect_loop.simps) (simp add: MAXSLEEP_def)
  then show ?thesis using connect_loop_refused [of 0 n tries 0] backoff_sum [of n] assms(1,2) by (simp add: connect_retry_def)
qed

lemma connect_retry_gives_up:
  assumes "\<forall>j < 8. tries j = Refused"
  shows "connect_retry tries = (None, 127)"
proof -
  have "connect_loop tries 8 s = (None, s)" for s by (subst connect_loop.simps) (simp add: MAXSLEEP_def)
  moreover have "(\<Sum>j = 0..<8. if j < 7 then 2 ^ j else 0) = (127 :: nat)" by (simp add: eval_nat_numeral)
  ultimately show ?thesis using connect_loop_refused [of 0 8 tries 0] assms by (simp add: connect_retry_def)
qed

lemma try_addrs_first:
  assumes "\<forall>a \<in> set as. fst (connect_retry (pa_tries a)) = None" "fst (connect_retry (pa_tries b)) \<noteq> None"
  shows "try_addrs submit (as @ b # bs) = Some (submit b)"
  using assms by (induction as) auto

text \<open>
  With a file and a server in the configuration file, the command submits the file to the first address
  that can be reached, with the option it was given.
\<close>

lemma print_main_submits:
  assumes "\<forall>e \<in> set es. entry_ok e" "map_of es ''printserver'' = Some h" "gai h ''print'' = Inr (as @ b # bs)"
    "\<forall>a \<in> set as. fst (connect_retry (pa_tries a)) = None" "fst (connect_retry (pa_tries b)) \<noteq> None"
    "files fname = Regular nbytes inp" "fname = [] \<or> hd fname \<noteq> CHR ''-''"
  shows "print_main g pwd files (Some (concat (map cfg_line es))) valbuf gai ((if text then [''-t''] else []) @ [fname])
    = Inr (submit_file g pwd fname nbytes text inp (pa_out b) (pa_rsp b))"
proof -
  obtain vb where s: "get_printserver (Some (concat (map cfg_line es))) valbuf = Inr (Some h, vb)"
    using config_lookup(1) [OF assms(1), of valbuf] assms(2) by auto
  have "getopt_t ((if text then [''-t''] else []) @ [fname]) = (False, text, [fname])" using assms(7) by auto
  then show ?thesis using s assms(3,6) try_addrs_first [OF assms(4,5), of "\<lambda>aip. submit_file g pwd fname nbytes text inp (pa_out aip) (pa_rsp aip)" bs]
    by (simp add: print_main_def)
qed

end
