(* ===== verification/Errors.thy ===== *)
theory Errors
  imports Prelude
begin

text \<open>
  The error routines \<^verbatim>\<open>lib/error.c\<close> and \<^verbatim>\<open>lib/errorlog.c\<close>: a message, perhaps the text for an error
  number and a newline are put together in one buffer of \<^verbatim>\<open>MAXLINE\<close> bytes. The formatted message and the texts
  of \<^verbatim>\<open>strerror\<close> are arguments; every write is checked against the buffer.
\<close>

section \<open>Writing into the buffer\<close>

text \<open>A string and its null byte at index \<open>n\<close> of a buffer of \<open>cap\<close> bytes.\<close>

definition put_str :: "nat \<Rightarrow> nat \<Rightarrow> string \<Rightarrow> string \<Rightarrow> string res" where
  "put_str cap n s buf = (if cap < n + length s + 1 then Inl (Undefined ''buffer'') else Inr (take n buf @ s))"

text \<open>\<^verbatim>\<open>snprintf\<close> at index \<open>n\<close> with room for \<open>size\<close> bytes; \<open>s\<close> is the whole formatted text.\<close>

definition snprintf_at :: "nat \<Rightarrow> nat \<Rightarrow> nat \<Rightarrow> string \<Rightarrow> string \<Rightarrow> string res" where
  "snprintf_at cap n sz s buf = (if sz = 0 then Inr buf else put_str cap n (take (sz - 1) s) buf)"

section \<open>The routines\<close>

text \<open>How a routine ends, and what it has written to the standard error output or to the system log.\<close>

datatype err_end = Returns | Exits int | Aborts

record err_out =
  to_stderr :: "string list"
  to_syslog :: "string list"

text \<open>The buffer of \<^verbatim>\<open>err_doit\<close> and of \<^verbatim>\<open>log_doit\<close> (the same lines in both); \<open>g\<close> is what it holds at first.\<close>

definition err_buf :: "(int \<Rightarrow> string) \<Rightarrow> bool \<Rightarrow> int \<Rightarrow> string \<Rightarrow> string \<Rightarrow> string res" where
  "err_buf strerror errnoflag error msg g =
     bnd (snprintf_at MAXLINE 0 (MAXLINE - 1) msg g) (\<lambda>buf.
     bnd (if errnoflag then snprintf_at MAXLINE (length buf) (MAXLINE - length buf - 1) ('': '' @ strerror error) buf else Inr buf) (\<lambda>buf.
     put_str MAXLINE (length buf) [NL] buf))"

definition err_doit :: "(int \<Rightarrow> string) \<Rightarrow> bool \<Rightarrow> int \<Rightarrow> string \<Rightarrow> string \<Rightarrow> err_out \<Rightarrow> err_out res" where
  "err_doit strerror errnoflag error msg g o1 =
     bnd (err_buf strerror errnoflag error msg g) (\<lambda>buf. Inr (o1\<lparr>to_stderr := to_stderr o1 @ [buf]\<rparr>))"

text \<open>The seven routines: whether they print the text of an error number, which one, and how they end.\<close>

definition err_call :: "(int \<Rightarrow> string) \<Rightarrow> bool \<Rightarrow> int \<Rightarrow> err_end \<Rightarrow> string \<Rightarrow> string \<Rightarrow> err_out \<Rightarrow> (err_end \<times> err_out) res" where
  "err_call strerror flag error fin msg g o1 = bnd (err_doit strerror flag error msg g o1) (\<lambda>o2. Inr (fin, o2))"

definition err_ret where "err_ret strerror errno msg g o1 = err_call strerror True errno Returns msg g o1"
definition err_sys where "err_sys strerror errno msg g o1 = err_call strerror True errno (Exits 1) msg g o1"
definition err_cont where "err_cont strerror error msg g o1 = err_call strerror True error Returns msg g o1"
definition err_exit where "err_exit strerror error msg g o1 = err_call strerror True error (Exits 1) msg g o1"
definition err_dump where "err_dump strerror errno msg g o1 = err_call strerror True errno Aborts msg g o1"
definition err_msg where "err_msg strerror msg g o1 = err_call strerror False 0 Returns msg g o1"
definition err_quit where "err_quit strerror msg g o1 = err_call strerror False 0 (Exits 1) msg g o1"

text \<open>The same for daemons; \<open>log_to_stderr\<close> is set by the program.\<close>

definition log_doit :: "bool \<Rightarrow> (int \<Rightarrow> string) \<Rightarrow> bool \<Rightarrow> int \<Rightarrow> string \<Rightarrow> string \<Rightarrow> err_out \<Rightarrow> err_out res" where
  "log_doit log_to_stderr strerror errnoflag error msg g o1 =
     bnd (err_buf strerror errnoflag error msg g) (\<lambda>buf.
       Inr (if log_to_stderr then o1\<lparr>to_stderr := to_stderr o1 @ [buf]\<rparr> else o1\<lparr>to_syslog := to_syslog o1 @ [buf]\<rparr>))"

definition log_call :: "bool \<Rightarrow> (int \<Rightarrow> string) \<Rightarrow> bool \<Rightarrow> int \<Rightarrow> err_end \<Rightarrow> string \<Rightarrow> string \<Rightarrow> err_out \<Rightarrow> (err_end \<times> err_out) res" where
  "log_call l strerror flag error fin msg g o1 = bnd (log_doit l strerror flag error msg g o1) (\<lambda>o2. Inr (fin, o2))"

definition log_ret where "log_ret l strerror errno msg g o1 = log_call l strerror True errno Returns msg g o1"
definition log_sys where "log_sys l strerror errno msg g o1 = log_call l strerror True errno (Exits 2) msg g o1"
definition log_msg where "log_msg l strerror msg g o1 = log_call l strerror False 0 Returns msg g o1"
definition log_quit where "log_quit l strerror msg g o1 = log_call l strerror False 0 (Exits 2) msg g o1"
definition log_exit where "log_exit l strerror error msg g o1 = log_call l strerror True error (Exits 2) msg g o1"

section \<open>What is written\<close>

text \<open>The line that a message gives: cut to what fits before the newline and the null byte.\<close>

definition err_line :: "(int \<Rightarrow> string) \<Rightarrow> int option \<Rightarrow> string \<Rightarrow> string" where
  "err_line strerror error msg =
     take (MAXLINE - 2) (case error of None \<Rightarrow> msg | Some e \<Rightarrow> msg @ '': '' @ strerror e) @ [NL]"

text \<open>
  However long the message and the text for the error number are, the routines write inside the buffer and
  the line is the message and the text, cut to the room there is.
\<close>

lemma err_buf_line: "err_buf strerror flag error msg g = Inr (err_line strerror (if flag then Some error else None) msg)"
proof -
  let ?t = "'': '' @ strerror error"
  obtain b where b: "b = take (MAXLINE - 2) msg" "length b \<le> MAXLINE - 2" "MAXLINE - 2 + 2 = MAXLINE" by (simp add: MAXLINE_def)
  have 1: "snprintf_at MAXLINE 0 (MAXLINE - 1) msg g = Inr b"
    by (simp add: b(1) snprintf_at_def put_str_def numeral_2_eq_2 MAXLINE_def)
  have 2: "snprintf_at MAXLINE (length b) (MAXLINE - length b - 1) ?t b = Inr (take (MAXLINE - 2) (msg @ ?t))"
  proof -
    have "MAXLINE - length b - 1 \<noteq> 0" "MAXLINE - length b - 1 - 1 = MAXLINE - 2 - length b" using b by linarith+
    moreover have "take (MAXLINE - 2) (msg @ ?t) = b @ take (MAXLINE - 2 - length b) ?t"
      by (cases "length msg \<le> MAXLINE - 2") (simp_all add: b(1))
    moreover have "length b + length (take (MAXLINE - 2 - length b) ?t) + 1 \<le> MAXLINE" using b by simp
    ultimately show ?thesis by (simp add: snprintf_at_def put_str_def)
  qed
  have "put_str MAXLINE (length u) [NL] u = Inr (u @ [NL])" if "length u \<le> MAXLINE - 2" for u
    using that by (simp add: put_str_def MAXLINE_def)
  then have 3: "put_str MAXLINE (length (take (MAXLINE - 2) u)) [NL] (take (MAXLINE - 2) u) = Inr (take (MAXLINE - 2) u @ [NL])" for u
    by (metis length_take min.cobounded2)
  show ?thesis
  proof (cases flag)
    case True
    then show ?thesis by (simp only: err_buf_def 1 2 3 bnd_Inr if_True err_line_def option.case)
  next
    case False
    then show ?thesis using 3 [of msg] by (simp only: err_buf_def 1 bnd_Inr if_False err_line_def option.case b(1))
  qed
qed

lemma err_line_length: "length (err_line strerror error msg) < MAXLINE"
  by (auto simp: err_line_def MAXLINE_def split: option.splits)

section \<open>Properties\<close>

text \<open>
  C14: The error routines write inside their buffer and say as much as fits. However long the message and the
  text for the error number are, each routine writes one line: the message, for the routines that take an error number the text for
  it after a colon, cut to \<^verbatim>\<open>MAXLINE - 2\<close> bytes, and a newline; with its null byte it fits in the buffer. Each routine ends as it should,
  and those for daemons write to the standard error output or to the log, as the program has chosen.
\<close>

theorem error_routines_fit:
  "err_ret strerror e msg g o1 = Inr (Returns, o1\<lparr>to_stderr := to_stderr o1 @ [err_line strerror (Some e) msg]\<rparr>) \<and>
   err_sys strerror e msg g o1 = Inr (Exits 1, o1\<lparr>to_stderr := to_stderr o1 @ [err_line strerror (Some e) msg]\<rparr>) \<and>
   err_cont strerror e msg g o1 = Inr (Returns, o1\<lparr>to_stderr := to_stderr o1 @ [err_line strerror (Some e) msg]\<rparr>) \<and>
   err_exit strerror e msg g o1 = Inr (Exits 1, o1\<lparr>to_stderr := to_stderr o1 @ [err_line strerror (Some e) msg]\<rparr>) \<and>
   err_dump strerror e msg g o1 = Inr (Aborts, o1\<lparr>to_stderr := to_stderr o1 @ [err_line strerror (Some e) msg]\<rparr>) \<and>
   err_msg strerror msg g o1 = Inr (Returns, o1\<lparr>to_stderr := to_stderr o1 @ [err_line strerror None msg]\<rparr>) \<and>
   err_quit strerror msg g o1 = Inr (Exits 1, o1\<lparr>to_stderr := to_stderr o1 @ [err_line strerror None msg]\<rparr>) \<and>
   log_sys True strerror e msg g o1 = Inr (Exits 2, o1\<lparr>to_stderr := to_stderr o1 @ [err_line strerror (Some e) msg]\<rparr>) \<and>
   log_sys False strerror e msg g o1 = Inr (Exits 2, o1\<lparr>to_syslog := to_syslog o1 @ [err_line strerror (Some e) msg]\<rparr>) \<and>
   log_ret False strerror e msg g o1 = Inr (Returns, o1\<lparr>to_syslog := to_syslog o1 @ [err_line strerror (Some e) msg]\<rparr>) \<and>
   log_exit False strerror e msg g o1 = Inr (Exits 2, o1\<lparr>to_syslog := to_syslog o1 @ [err_line strerror (Some e) msg]\<rparr>) \<and>
   log_msg False strerror msg g o1 = Inr (Returns, o1\<lparr>to_syslog := to_syslog o1 @ [err_line strerror None msg]\<rparr>) \<and>
   log_quit False strerror msg g o1 = Inr (Exits 2, o1\<lparr>to_syslog := to_syslog o1 @ [err_line strerror None msg]\<rparr>) \<and>
   err_line strerror (Some e) msg = take (MAXLINE - 2) (msg @ '': '' @ strerror e) @ [NL] \<and>
   err_line strerror None msg = take (MAXLINE - 2) msg @ [NL] \<and>
   length (err_line strerror (Some e) msg) < MAXLINE \<and> length (err_line strerror None msg) < MAXLINE"
  by (simp only: err_ret_def err_sys_def err_cont_def err_exit_def err_dump_def err_msg_def err_quit_def err_call_def err_doit_def
      log_ret_def log_sys_def log_msg_def log_quit_def log_exit_def log_call_def log_doit_def err_buf_line bnd_Inr if_True if_False
      err_line_length simp_thms) (simp add: err_line_def)

end
