(* ===== verification/Pty_Loop.thy ===== *)
theory Pty_Loop
  imports Pty Tty_Modes "HOL-Library.Sublist"
begin

text \<open>
  Copying between the user and the program behind a pseudo terminal (\<^verbatim>\<open>loop\<close> of \<^verbatim>\<open>pty/loop.c\<close>) and the command that puts the
  parts together (\<^verbatim>\<open>pty/main.c\<close>). Two processes copy, one in each direction; they end each other by a signal, which may
  arrive at any moment.
\<close>

section \<open>One round of copying\<close>

definition BUFFSIZE :: nat where "BUFFSIZE = 512"

text \<open>
  An input is what the descriptor delivers, data, an end of file or an error, in that order. When
  nothing of it is left, \<^verbatim>\<open>read\<close> blocks: only an explicit event is an end of file.
\<close>

definition blocks :: "rdev list \<Rightarrow> bool" where
  "blocks inp \<longleftrightarrow> set inp \<subseteq> {RTimeout}"

lemma blocks_simps [simp]:
  "blocks []" "\<not> blocks (RData b # inp)" "\<not> blocks (REof # inp)" "\<not> blocks (RFail e # inp)"
  "blocks (RTimeout # inp) = blocks inp"
  by (simp_all add: blocks_def)

text \<open>
  Reads up to a buffer and writes it: more to come, the end of the input, a failed read, or a failed
  write; nothing as long as the read blocks.
\<close>

datatype copied = More | At_eof | Read_failed | Write_failed

definition copy_round :: "rdev list \<times> wrev list \<times> string \<Rightarrow> (copied \<times> rdev list \<times> wrev list \<times> string) option" where
  "copy_round s =
     (case s of (inp, w, out) \<Rightarrow>
       if blocks inp then None
       else Some (case sys_read BUFFSIZE inp of
         (None, inp') \<Rightarrow> (Read_failed, inp', w, out)
       | (Some b, inp') \<Rightarrow>
           if b = [] then (At_eof, inp', w, out)
           else case writen b w of (r, wr, w') \<Rightarrow> (if r = Some (length b) then More else Write_failed, inp', w', out @ wr)))"

section \<open>The two processes\<close>

text \<open>The child in its loop, after the end of its input, ended behind it, ended by an error, or ended by the parent.\<close>

datatype cpc = C_loop | C_eof | C_gone | C_failed | C_killed

text \<open>The parent before its handler is installed, in its loop, behind it, back in \<^verbatim>\<open>main\<close>, ended by an error, or ended by the signal.\<close>

datatype ppc = P_start | P_loop | P_behind | P_back | P_gone | P_killed

record ploop =
  cpc :: cpc
  ppc :: ppc
  cio :: "rdev list \<times> wrev list \<times> string"
  pio :: "rdev list \<times> wrev list \<times> string"
  pending :: bool
  sigcaught :: bool

text \<open>
  Lines 18 to 33: a round of the child, and what it does when its input has ended. (When the parent is gone, the signal goes to
  whatever process has taken its place.)
\<close>

definition child_round :: "ploop \<Rightarrow> ploop option" where
  "child_round s =
     map_option (\<lambda>(r, io).
        s\<lparr>cio := io, cpc := (case r of More \<Rightarrow> C_loop | At_eof \<Rightarrow> C_eof | Read_failed \<Rightarrow> C_failed | Write_failed \<Rightarrow> C_failed)\<rparr>)
       (copy_round (cio s))"

definition child_end :: "bool \<Rightarrow> ploop \<Rightarrow> ploop" where
  "child_end ignoreeof s = s\<lparr>cpc := C_gone, pending := pending s \<or> \<not> ignoreeof \<and> ppc s \<notin> {P_back, P_gone, P_killed}\<rparr>"

text \<open>Lines 42 to 47, and 54 to 55.\<close>

definition parent_round :: "ploop \<Rightarrow> ploop option" where
  "parent_round s =
     map_option (\<lambda>(r, io).
        s\<lparr>pio := io, ppc := (case r of More \<Rightarrow> P_loop | At_eof \<Rightarrow> P_behind | Read_failed \<Rightarrow> P_behind | Write_failed \<Rightarrow> P_gone)\<rparr>)
       (copy_round (pio s))"

definition parent_check :: "ploop \<Rightarrow> ploop" where
  "parent_check s = s\<lparr>ppc := P_back, cpc := (if \<not> sigcaught s \<and> cpc s \<in> {C_loop, C_eof} then C_killed else cpc s)\<rparr>"

text \<open>
  \<open>others\<close>: whether a process that is not part of the program may send \<^verbatim>\<open>SIGTERM\<close>, too. A signal
  that arrives while the parent is in its loop either comes between two reads, when the handler only
  sets the flag, or interrupts the read.
\<close>

inductive loop_step :: "bool \<Rightarrow> bool \<Rightarrow> ploop \<Rightarrow> ploop \<Rightarrow> bool" for ignoreeof others where
  child: "cpc s = C_loop \<Longrightarrow> child_round s = Some t \<Longrightarrow> loop_step ignoreeof others s t"
| child_eof: "cpc s = C_eof \<Longrightarrow> loop_step ignoreeof others s (child_end ignoreeof s)"
| install: "ppc s = P_start \<Longrightarrow> loop_step ignoreeof others s (s\<lparr>ppc := P_loop\<rparr>)"
| parent: "ppc s = P_loop \<Longrightarrow> parent_round s = Some t \<Longrightarrow> loop_step ignoreeof others s t"
| check: "ppc s = P_behind \<Longrightarrow> loop_step ignoreeof others s (parent_check s)"
| no_handler: "pending s \<Longrightarrow> ppc s = P_start \<Longrightarrow> loop_step ignoreeof others s (s\<lparr>pending := False, ppc := P_killed\<rparr>)"
| sig_term: "pending s \<Longrightarrow> ppc s \<in> {P_loop, P_behind} \<Longrightarrow> loop_step ignoreeof others s (s\<lparr>pending := False, sigcaught := True\<rparr>)"
| interrupt: "pending s \<Longrightarrow> ppc s = P_loop \<Longrightarrow> loop_step ignoreeof others s (s\<lparr>pending := False, sigcaught := True, ppc := P_behind\<rparr>)"
| other: "others \<Longrightarrow> loop_step ignoreeof others s (s\<lparr>pending := True\<rparr>)"

inductive loop_reach :: "bool \<Rightarrow> bool \<Rightarrow> ploop \<Rightarrow> ploop \<Rightarrow> bool" for ignoreeof others s0 where
  start: "loop_reach ignoreeof others s0 s0"
| step: "loop_reach ignoreeof others s0 s \<Longrightarrow> loop_step ignoreeof others s t \<Longrightarrow> loop_reach ignoreeof others s0 t"

definition loop_init :: "rdev list \<Rightarrow> wrev list \<Rightarrow> rdev list \<Rightarrow> wrev list \<Rightarrow> ploop" where
  "loop_init stdin wptym ptym wout =
     \<lparr>cpc = C_loop, ppc = P_start, cio = (stdin, wptym, []), pio = (ptym, wout, []), pending = False, sigcaught = False\<rparr>"

section \<open>What the copying does\<close>

text \<open>All bytes that an input hands out, whatever ends and failures lie between.\<close>

fun all_data :: "rdev list \<Rightarrow> string" where
  "all_data [] = []"
| "all_data (RData s # inp) = s @ all_data inp"
| "all_data (x # inp) = all_data inp"

lemma read_all_data:
  "sys_read n inp = (Some b, inp') \<Longrightarrow> all_data inp = b @ all_data inp'" "sys_read n inp = (None, inp') \<Longrightarrow> all_data inp = all_data inp'"
  by (induction n inp rule: sys_read.induct) (auto split: if_splits)

text \<open>How much there is to read: the bytes, and the events.\<close>

definition todo :: "rdev list \<Rightarrow> nat" where
  "todo inp = length (all_data inp) + length inp"

lemma sys_read_todo: "sys_read n inp = (Some b, inp') \<Longrightarrow> b \<noteq> [] \<Longrightarrow> todo inp' < todo inp"
  by (induction n inp rule: sys_read.induct) (auto simp: todo_def split: if_splits)

lemma writen_out_prefix:
  assumes "writen b w = (k, out, w')"
  shows "prefix out b" "k = Some (length b) \<longrightarrow> out = b"
proof -
  obtain j w1 where j: "j \<le> length b" "writen_loop (length b) b [] w =
     (if j = 0 \<and> b \<noteq> [] \<and> length b = length b \<and> fst (sys_write b w) = None then None else Some (length b - length b + j), [] @ take j b, w1)"
    using writen_loop_out [of b "length b" "[]" w] by auto
  then show "prefix out b" "k = Some (length b) \<longrightarrow> out = b"
    using assms by (auto simp: writen_def take_is_prefix split: if_splits)
qed

lemma blocks_data: "blocks inp \<Longrightarrow> all_data inp = []"
  by (induction inp rule: all_data.induct) (auto simp: blocks_def)

lemma copy_round_blocks: "copy_round s = None \<longleftrightarrow> blocks (fst s)"
  by (auto simp: copy_round_def split: prod.splits)

lemma copy_round_effect:
  assumes "copy_round (inp, w, out) = Some (r, inp', w', out')" "out @ all_data inp = d"
  shows "prefix out' d" "r \<noteq> Write_failed \<Longrightarrow> out' @ all_data inp' = d" "r = More \<Longrightarrow> todo inp' < todo inp"
proof -
  obtain x i where x: "sys_read BUFFSIZE inp = (x, i)" by fastforce
  have "prefix out' d \<and> (r \<noteq> Write_failed \<longrightarrow> out' @ all_data inp' = d) \<and> (r = More \<longrightarrow> todo inp' < todo inp)"
  proof (cases x)
    case None
    then show ?thesis using assms x read_all_data(2) [of BUFFSIZE inp i] by (auto simp: copy_round_def split: if_splits)
  next
    case (Some b)
    note a = read_all_data(1) [OF x [unfolded Some]]
    show ?thesis
    proof (cases "b = []")
      case True
      then show ?thesis using assms x Some a by (auto simp: copy_round_def split: if_splits)
    next
      case False
      obtain k wr w2 where w: "writen b w = (k, wr, w2)" by (metis prod_cases3)
      have p: "prefix wr b" "k = Some (length b) \<longrightarrow> wr = b"
        using writen_out_prefix [OF w] by auto
      have "inp' = i" "out' = out @ wr" "r = (if k = Some (length b) then More else Write_failed)"
        using assms(1) x Some False w by (auto simp: copy_round_def split: if_splits)
      then show ?thesis using p a assms(2) sys_read_todo [OF x [unfolded Some] False] by (auto simp: prefix_def)
    qed
  qed
  then show "prefix out' d" "r \<noteq> Write_failed \<Longrightarrow> out' @ all_data inp' = d" "r = More \<Longrightarrow> todo inp' < todo inp" by auto
qed

section \<open>The two processes together\<close>

text \<open>What has been copied of \<open>d\<close>, as long as the process copies and afterwards.\<close>

definition copy_inv :: "bool \<Rightarrow> string \<Rightarrow> rdev list \<times> wrev list \<times> string \<Rightarrow> bool" where
  "copy_inv running d s = (case s of (inp, w, out) \<Rightarrow> prefix out d \<and> (running \<longrightarrow> out @ all_data inp = d))"

definition ploop_inv :: "bool \<Rightarrow> string \<Rightarrow> string \<Rightarrow> ploop \<Rightarrow> bool" where
  "ploop_inv ignoreeof d1 d2 s \<longleftrightarrow>
     copy_inv (cpc s = C_loop) d1 (cio s) \<and> copy_inv (ppc s \<in> {P_start, P_loop}) d2 (pio s) \<and>
     (sigcaught s \<or> pending s \<or> ppc s = P_killed \<longrightarrow> cpc s = C_gone \<and> \<not> ignoreeof) \<and>
     (ppc s = P_back \<longrightarrow> cpc s \<in> {C_gone, C_failed, C_killed}) \<and> (cpc s = C_killed \<longrightarrow> ppc s = P_back) \<and>
     (cpc s = C_gone \<and> \<not> ignoreeof \<and> ppc s \<in> {P_start, P_loop, P_behind} \<longrightarrow> pending s \<or> sigcaught s)"

lemma copy_inv_weaken: "copy_inv a d s \<Longrightarrow> (b \<Longrightarrow> a) \<Longrightarrow> copy_inv b d s"
  by (auto simp: copy_inv_def)

lemma copy_round_inv:
  assumes "copy_round s = Some (r, t)" "copy_inv True d s"
  shows "copy_inv (r = More) d t" "r = More \<Longrightarrow> todo (fst t) < todo (fst s)"
proof -
  obtain inp w out inp' w' out' where s: "s = (inp, w, out)" "t = (inp', w', out')" by (metis prod_cases3)
  then show "copy_inv (r = More) d t" "r = More \<Longrightarrow> todo (fst t) < todo (fst s)"
    using copy_round_effect [of inp w out r inp' w' out' d] assms by (auto simp: copy_inv_def)
qed

lemma ploop_inv_init: "ploop_inv ign (all_data stdin) (all_data ptym) (loop_init stdin wptym ptym wout)"
  by (simp add: ploop_inv_def loop_init_def copy_inv_def)

lemma child_round_inv:
  assumes "ploop_inv ign d1 d2 s" "cpc s = C_loop" "child_round s = Some t"
  shows "ploop_inv ign d1 d2 t"
proof -
  obtain r io where c: "copy_round (cio s) = Some (r, io)" using assms(3) by (auto simp: child_round_def)
  have "copy_inv (r = More) d1 io" using copy_round_inv(1) [OF c] assms by (auto simp: ploop_inv_def)
  then show ?thesis using assms c by (cases r) (auto simp: ploop_inv_def child_round_def)
qed

lemma parent_round_inv:
  assumes "ploop_inv ign d1 d2 s" "ppc s = P_loop" "parent_round s = Some t"
  shows "ploop_inv ign d1 d2 t"
proof -
  obtain r io where c: "copy_round (pio s) = Some (r, io)" using assms(3) by (auto simp: parent_round_def)
  have "copy_inv (r = More) d2 io" using copy_round_inv(1) [OF c] assms by (auto simp: ploop_inv_def)
  then show ?thesis using assms c by (cases r) (auto simp: ploop_inv_def parent_round_def)
qed

lemma loop_step_inv:
  assumes "loop_step ign False s t" "ploop_inv ign d1 d2 s"
  shows "ploop_inv ign d1 d2 t"
  using assms
proof cases
  case child
  then show ?thesis using child_round_inv assms(2) by simp
next
  case parent
  then show ?thesis using parent_round_inv assms(2) by simp
next
  case check
  then show ?thesis using assms(2) by (cases "cpc s") (auto simp: ploop_inv_def parent_check_def intro: copy_inv_weaken)
qed (use assms(2) in \<open>auto simp: ploop_inv_def child_end_def intro: copy_inv_weaken\<close>)

lemma loop_reach_inv:
  assumes "loop_reach ign False s0 s" "ploop_inv ign d1 d2 s0"
  shows "ploop_inv ign d1 d2 s"
  using assms by (induction rule: loop_reach.induct) (auto intro: loop_step_inv)

text \<open>Every step brings the two processes nearer to their end, or reads something.\<close>

definition rank :: "ploop \<Rightarrow> nat" where
  "rank s = (case cpc s of C_loop \<Rightarrow> 4 | C_eof \<Rightarrow> 2 | _ \<Rightarrow> 0) + (case ppc s of P_start \<Rightarrow> 3 | P_loop \<Rightarrow> 2 | P_behind \<Rightarrow> 1 | _ \<Rightarrow> 0) +
     (if pending s then 1 else 0)"

definition ploop_todo :: "ploop \<Rightarrow> nat" where
  "ploop_todo s = todo (fst (cio s)) + todo (fst (pio s))"

lemma loop_step_decreases:
  assumes "loop_step ign False s t" "ploop_inv ign d1 d2 s"
  shows "(t, s) \<in> measures [rank, ploop_todo]"
  using assms
proof cases
  case child
  obtain r io where c: "copy_round (cio s) = Some (r, io)" using child by (auto simp: child_round_def)
  have "copy_inv True d1 (cio s)" using assms(2) child by (simp add: ploop_inv_def)
  note m = copy_round_inv(2) [OF c this]
  show ?thesis using child c m by (cases r) (auto simp: child_round_def rank_def ploop_todo_def)
next
  case parent
  obtain r io where c: "copy_round (pio s) = Some (r, io)" using parent by (auto simp: parent_round_def)
  have "copy_inv True d2 (pio s)" using assms(2) parent by (simp add: ploop_inv_def)
  note m = copy_round_inv(2) [OF c this]
  show ?thesis using parent c m by (cases r) (auto simp: parent_round_def rank_def ploop_todo_def)
qed (auto simp: child_end_def parent_check_def rank_def)

lemma no_infinite_loop:
  assumes "ploop_inv ign d1 d2 (f 0)" "\<And>i. loop_step ign False (f i) (f (Suc i))"
  shows False
proof -
  have "ploop_inv ign d1 d2 (f i)" for i
  proof (induction i)
    case (Suc i)
    then show ?case using loop_step_inv assms(2) by blast
  qed (rule assms(1))
  then have "(f (Suc i), f i) \<in> measures [rank, ploop_todo]" for i using loop_step_decreases assms(2) by blast
  moreover have "wf (measures [rank, ploop_todo])" by simp
  ultimately show False unfolding wf_iff_no_infinite_down_chain by blast
qed

lemma loop_stuck:
  assumes "\<nexists>t. loop_step ign False s t"
  shows "cpc s \<in> {C_gone, C_failed, C_killed} \<or> cpc s = C_loop \<and> blocks (fst (cio s))"
    and "ppc s \<in> {P_back, P_gone, P_killed} \<or> ppc s = P_loop \<and> blocks (fst (pio s)) \<and> \<not> pending s"
proof -
  have c: "blocks (fst (cio s))" if "cpc s = C_loop"
    using that assms loop_step.child [of s _ ign False] copy_round_blocks [of "cio s"]
    by (cases "child_round s") (auto simp: child_round_def)
  have p: "blocks (fst (pio s))" if "ppc s = P_loop"
    using that assms loop_step.parent [of s _ ign False] copy_round_blocks [of "pio s"]
    by (cases "parent_round s") (auto simp: parent_round_def)
  show "cpc s \<in> {C_gone, C_failed, C_killed} \<or> cpc s = C_loop \<and> blocks (fst (cio s))"
    using c assms loop_step.child_eof [of s ign False] by (cases "cpc s") auto
  show "ppc s \<in> {P_back, P_gone, P_killed} \<or> ppc s = P_loop \<and> blocks (fst (pio s)) \<and> \<not> pending s"
    using p assms loop_step.install [of s ign False] loop_step.check [of s ign False] loop_step.sig_term [of s ign False]
    by (cases "ppc s") auto
qed

lemma copy_inv_prefix: "copy_inv r d x \<Longrightarrow> prefix (snd (snd x)) d"
  by (cases x) (simp add: copy_inv_def)

lemma copy_inv_waits: "copy_inv True d x \<Longrightarrow> blocks (fst x) \<Longrightarrow> snd (snd x) = d"
  by (cases x) (simp add: copy_inv_def blocks_data)

lemma loop_waits:
  assumes "ploop_inv ign d1 d2 s"
  shows "cpc s = C_loop \<Longrightarrow> blocks (fst (cio s)) \<Longrightarrow> snd (snd (cio s)) = d1"
    and "ppc s = P_loop \<Longrightarrow> blocks (fst (pio s)) \<Longrightarrow> snd (snd (pio s)) = d2"
    and "ppc s = P_loop \<Longrightarrow> \<not> pending s \<Longrightarrow> cpc s \<in> {C_gone, C_failed, C_killed} \<Longrightarrow> cpc s = C_failed \<or> ign \<or> sigcaught s"
proof -
  have c: "copy_inv (cpc s = C_loop) d1 (cio s)" "copy_inv (ppc s \<in> {P_start, P_loop}) d2 (pio s)"
    and k: "cpc s = C_killed \<longrightarrow> ppc s = P_back"
    and g: "cpc s = C_gone \<and> \<not> ign \<and> ppc s \<in> {P_start, P_loop, P_behind} \<longrightarrow> pending s \<or> sigcaught s"
    using assms unfolding ploop_inv_def by blast+
  show "snd (snd (cio s)) = d1" if "cpc s = C_loop" "blocks (fst (cio s))" using c(1) that by (simp add: copy_inv_waits)
  show "snd (snd (pio s)) = d2" if "ppc s = P_loop" "blocks (fst (pio s))" using c(2) that by (simp add: copy_inv_waits)
  show "cpc s = C_failed \<or> ign \<or> sigcaught s" if "ppc s = P_loop" "\<not> pending s" "cpc s \<in> {C_gone, C_failed, C_killed}"
    using k g that by (cases ign; elim insertE emptyE) simp_all
qed

text \<open>
  C28: The two processes of \<^verbatim>\<open>loop\<close>, in any interleaving and whenever the signal between them arrives, do not run for ever, and
  at every moment each has written a beginning of what it was given to read. Reads block until there is data, an end or an
  error. So when neither can go on, each has ended or waits in its read, and a process that waits has copied all that it was
  given. The parent does not wait once the user's input has ended and the child has told it: then it waits only with \<^verbatim>\<open>-i\<close>,
  or because the signal came between two of its reads, or because the child failed before it could tell. The parent returns
  only when there is no child left; with \<^verbatim>\<open>-i\<close> it is never interrupted.
\<close>

theorem pty_loop_ends:
  assumes "loop_reach ignoreeof False (loop_init stdin wptym ptym wout) s"
  shows "prefix (snd (snd (cio s))) (all_data stdin) \<and> prefix (snd (snd (pio s))) (all_data ptym) \<and>
    (ppc s = P_back \<longrightarrow> cpc s \<in> {C_gone, C_failed, C_killed}) \<and>
    (ignoreeof \<longrightarrow> \<not> sigcaught s \<and> ppc s \<noteq> P_killed) \<and>
    ((\<nexists>t. loop_step ignoreeof False s t) \<longrightarrow>
      (cpc s \<in> {C_gone, C_failed, C_killed} \<or>
        cpc s = C_loop \<and> blocks (fst (cio s)) \<and> snd (snd (cio s)) = all_data stdin) \<and>
      (ppc s \<in> {P_back, P_gone, P_killed} \<or>
        ppc s = P_loop \<and> blocks (fst (pio s)) \<and> snd (snd (pio s)) = all_data ptym \<and>
        (cpc s = C_loop \<or> cpc s = C_failed \<or> ignoreeof \<or> sigcaught s))) \<and>
    (\<nexists>f. f 0 = s \<and> (\<forall>i. loop_step ignoreeof False (f i) (f (Suc i))))"
proof -
  note i = loop_reach_inv [OF assms ploop_inv_init]
  have n: "\<nexists>f. f 0 = s \<and> (\<forall>i. loop_step ignoreeof False (f i) (f (Suc i)))" using no_infinite_loop i by metis
  have st: "(\<nexists>t. loop_step ignoreeof False s t) \<longrightarrow>
      (cpc s \<in> {C_gone, C_failed, C_killed} \<or>
        cpc s = C_loop \<and> blocks (fst (cio s)) \<and> snd (snd (cio s)) = all_data stdin) \<and>
      (ppc s \<in> {P_back, P_gone, P_killed} \<or>
        ppc s = P_loop \<and> blocks (fst (pio s)) \<and> snd (snd (pio s)) = all_data ptym \<and>
        (cpc s = C_loop \<or> cpc s = C_failed \<or> ignoreeof \<or> sigcaught s))"
  proof
    assume "\<nexists>t. loop_step ignoreeof False s t"
    from loop_stuck [OF this] loop_waits [OF i] show
      "(cpc s \<in> {C_gone, C_failed, C_killed} \<or>
        cpc s = C_loop \<and> blocks (fst (cio s)) \<and> snd (snd (cio s)) = all_data stdin) \<and>
      (ppc s \<in> {P_back, P_gone, P_killed} \<or>
        ppc s = P_loop \<and> blocks (fst (pio s)) \<and> snd (snd (pio s)) = all_data ptym \<and>
        (cpc s = C_loop \<or> cpc s = C_failed \<or> ignoreeof \<or> sigcaught s))"
      by (elim disjE conjE) simp_all
  qed
  have p: "prefix (snd (snd (cio s))) (all_data stdin)" "prefix (snd (snd (pio s))) (all_data ptym)"
    using i by (auto simp: ploop_inv_def intro: copy_inv_prefix)
  have b: "ppc s = P_back \<longrightarrow> cpc s \<in> {C_gone, C_failed, C_killed}" "ignoreeof \<longrightarrow> \<not> sigcaught s \<and> ppc s \<noteq> P_killed"
    using i unfolding ploop_inv_def by blast+
  show ?thesis by (rule conjI [OF p(1) conjI [OF p(2) conjI [OF b(1) conjI [OF b(2) conjI [OF st n]]]]])
qed

theorem pty_loop_ends_witness:
  "\<exists>s. child_round (loop_init [RData ''ls'', REof] [] [] []) = Some s \<and> prefix (snd (snd (cio s))) ''ls'' \<and>
   (\<nexists>f. f 0 = s \<and> (\<forall>i. loop_step False False (f i) (f (Suc i))))"
proof -
  let ?i = "loop_init [RData ''ls'', REof] [] [] []"
  obtain s where s: "child_round ?i = Some s" by (simp add: child_round_def copy_round_def loop_init_def)
  have "loop_reach False False ?i s"
    by (rule loop_reach.step [OF loop_reach.start loop_step.child]) (use s in \<open>simp_all add: loop_init_def\<close>)
  from pty_loop_ends [OF this] s show ?thesis by auto
qed

text \<open>A child whose input has ended before the parent has its handler ends the parent, with what the program wrote left unread.\<close>

lemma loop_killed_at_start: "\<exists>s. loop_reach False False (loop_init [REof] [] [RData ''output''] []) s \<and> ppc s = P_killed \<and> snd (snd (pio s)) = []"
proof -
  let ?init = "loop_init [REof] [] [RData ''output''] []"
  obtain s where s: "child_round ?init = Some s" "cpc s = C_eof" "ppc s = P_start" "pio s = pio ?init"
    by (simp add: child_round_def copy_round_def loop_init_def)
  have 1: "loop_reach False False ?init s" by (rule loop_reach.step [OF start loop_step.child]) (use s in \<open>simp_all add: loop_init_def\<close>)
  have 2: "loop_reach False False ?init (child_end False s)"
    by (rule loop_reach.step [OF 1 loop_step.child_eof]) (use s in simp)
  let ?e = "child_end False s"
  have "loop_reach False False ?init (?e\<lparr>pending := False, ppc := P_killed\<rparr>)"
    by (rule loop_reach.step [OF 2 loop_step.no_handler]) (use s in \<open>simp_all add: child_end_def\<close>)
  moreover have "snd (snd (pio ?e)) = []" using s by (simp add: loop_init_def child_end_def)
  ultimately show ?thesis by (intro exI [of _ "?e\<lparr>pending := False, ppc := P_killed\<rparr>"]) simp
qed

text \<open>The signal that comes between two reads is lost: the parent waits for the program although the user's input has ended.\<close>

lemma loop_signal_lost:
  "\<exists>s. loop_reach False False (loop_init [REof] [] [] []) s \<and> ppc s = P_loop \<and> cpc s = C_gone \<and> (\<nexists>t. loop_step False False s t)"
proof -
  let ?init = "loop_init [REof] [] [] []"
  obtain s where s: "child_round (?init\<lparr>ppc := P_loop\<rparr>) = Some s" "cpc s = C_eof" "ppc s = P_loop" "pio s = pio ?init"
    by (simp add: child_round_def copy_round_def loop_init_def)
  have 0: "loop_reach False False ?init (?init\<lparr>ppc := P_loop\<rparr>)"
    by (rule loop_reach.step [OF start loop_step.install]) (simp add: loop_init_def)
  have 1: "loop_reach False False ?init s" by (rule loop_reach.step [OF 0 loop_step.child]) (use s in \<open>simp_all add: loop_init_def\<close>)
  have 2: "loop_reach False False ?init (child_end False s)"
    by (rule loop_reach.step [OF 1 loop_step.child_eof]) (use s in simp)
  let ?e = "(child_end False s)\<lparr>pending := False, sigcaught := True\<rparr>"
  have "loop_reach False False ?init ?e"
    by (rule loop_reach.step [OF 2 loop_step.sig_term]) (use s in \<open>simp_all add: child_end_def\<close>)
  moreover have "\<not> loop_step False False ?e t" for t
    using s by (auto simp: loop_step.simps parent_round_def copy_round_def child_end_def loop_init_def)
  moreover have "ppc ?e = P_loop" "cpc ?e = C_gone" using s by (simp_all add: child_end_def)
  ultimately show ?thesis by blast
qed

text \<open>When somebody else sends the signal, the parent returns and leaves a child that goes on reading.\<close>

lemma loop_child_left: "\<exists>s. loop_reach False True (loop_init [] [] [] []) s \<and> ppc s = P_back \<and> cpc s = C_loop"
proof -
  let ?s0 = "loop_init [] [] [] []"
  let ?s1 = "?s0\<lparr>ppc := P_loop\<rparr>" let ?s2 = "?s1\<lparr>pending := True\<rparr>" let ?s3 = "?s2\<lparr>pending := False, sigcaught := True, ppc := P_behind\<rparr>"
  have 1: "loop_reach False True ?s0 ?s1" by (rule loop_reach.step [OF start loop_step.install]) (simp add: loop_init_def)
  have 2: "loop_reach False True ?s0 ?s2" by (rule loop_reach.step [OF 1 loop_step.other]) simp
  have 3: "loop_reach False True ?s0 ?s3" by (rule loop_reach.step [OF 2 loop_step.interrupt]) simp_all
  have 4: "loop_reach False True ?s0 (parent_check ?s3)" by (rule loop_reach.step [OF 3 loop_step.check]) simp
  moreover have "cpc (parent_check ?s3) = C_loop" "ppc (parent_check ?s3) = P_back" by (simp_all add: loop_init_def parent_check_def)
  ultimately show ?thesis by blast
qed

end
