(* ===== verification/Pty_Main.thy ===== *)
theory Pty_Main
  imports Pty_Loop
begin

unbundle bit_operations_syntax

text \<open>
  The command \<^verbatim>\<open>pty\<close> (\<^verbatim>\<open>pty/main.c\<close>) up to the call of \<^verbatim>\<open>loop\<close>: options, the child on the pseudo terminal, the user's terminal,
  and the driver.
\<close>

section \<open>Options\<close>

record ptyopts =
  driver :: "string option"
  ignoreeof :: bool
  interactive :: bool
  noecho :: bool
  verbose :: bool

text \<open>\<^verbatim>\<open>getopt\<close> with \<^verbatim>\<open>d:einv\<close>: the letters of one argument, where \<^verbatim>\<open>d\<close> takes the rest of it or the next argument.\<close>

fun opt_letters :: "ptyopts \<Rightarrow> string \<Rightarrow> string list \<Rightarrow> (ptyopts \<times> string list) res" where
  "opt_letters os [] as = Inr (os, as)"
| "opt_letters os (c # cs) as =
     (if c = CHR ''d''
      then (if cs \<noteq> [] then Inr (os\<lparr>driver := Some cs\<rparr>, as)
            else case as of a # as' \<Rightarrow> Inr (os\<lparr>driver := Some a\<rparr>, as') | [] \<Rightarrow> Inl (Err_quit ''unrecognized option''))
      else if c = CHR ''e'' then opt_letters (os\<lparr>noecho := True\<rparr>) cs as
      else if c = CHR ''i'' then opt_letters (os\<lparr>ignoreeof := True\<rparr>) cs as
      else if c = CHR ''n'' then opt_letters (os\<lparr>interactive := False\<rparr>) cs as
      else if c = CHR ''v'' then opt_letters (os\<lparr>verbose := True\<rparr>) cs as
      else Inl (Err_quit ''unrecognized option''))"

lemma opt_letters_shrinks: "opt_letters os cs as = Inr (os', as') \<Longrightarrow> length as' \<le> length as"
  by (induction os cs as rule: opt_letters.induct) (auto split: if_splits list.splits)

function pty_opts :: "ptyopts \<Rightarrow> string list \<Rightarrow> (ptyopts \<times> string list) res" where
  "pty_opts os [] = Inr (os, [])"
| "pty_opts os (a # as) =
     (if a = ''--'' then Inr (os, as)
      else if a \<noteq> [] \<and> hd a = CHR ''-'' \<and> a \<noteq> ''-''
      then (case opt_letters os (tl a) as of Inl e \<Rightarrow> Inl e | Inr (os', as') \<Rightarrow> pty_opts os' as')
      else Inr (os, a # as))"
  by pat_completeness auto
termination by (relation "measure (\<lambda>(os, as). length as)") (auto dest: opt_letters_shrinks)

section \<open>The command\<close>

definition ECHOE :: "32 word" where "ECHOE = 0x10"
definition ECHOK :: "32 word" where "ECHOK = 0x20"
definition ECHONL :: "32 word" where "ECHONL = 0x40"
definition ONLCR :: "32 word" where "ONLCR = 0x4"

definition noecho_set :: "termios \<Rightarrow> termios" where
  "noecho_set t = t\<lparr>c_lflag := c_lflag t AND NOT (ECHO OR ECHOE OR ECHOK OR ECHONL), c_oflag := c_oflag t AND NOT ONLCR\<rparr>"

definition set_noecho :: "nat \<Rightarrow> process \<Rightarrow> process res" where
  "set_noecho fd p =
     bnd (chk (Err_sys ''tcgetattr error'') (p_call p)) (\<lambda>p1.
     let k = term_of fd p1 in
     chk (Err_sys ''tcsetattr error'') (p_do (set_tmodes k (noecho_set (tmodes p1 k))) p1))"

text \<open>
  What the command meets: whether its input is a terminal, with which settings and size, what is on the stack, what the two calls of \<^verbatim>\<open>fork\<close> give,
  the number of the connection to the driver, and what \<^verbatim>\<open>atexit\<close> returns.
\<close>

record ptyenv =
  e_tty :: bool
  e_size :: "int option"
  e_stack :: string
  e_fork :: forked
  e_fork2 :: forked
  e_conn :: nat
  e_atexit :: int

text \<open>The program, its user's terminal, the child that runs the command, and the driver.\<close>

record ptyrun =
  r_opts :: ptyopts
  r_proc :: process
  r_fdm :: int
  r_ttys :: ttys
  r_child :: "process res"
  r_driver :: "process res option"

text \<open>Lines 60 to 64 and 88 to 96: the settings and size of the user's terminal, its raw mode, and the driver.\<close>

definition user_settings :: "ptyenv \<Rightarrow> ptyopts \<Rightarrow> ttys \<Rightarrow> (termios option \<times> int option \<times> ttys) res" where
  "user_settings E os ts =
     (if interactive os
      then (case tcgetattr ts 0 of
              (None, ts1) \<Rightarrow> Inl (Err_sys ''tcgetattr error on stdin'')
            | (Some orig, ts1) \<Rightarrow> (case e_size E of None \<Rightarrow> Inl (Err_sys ''TIOCGWINSZ error'') | Some z \<Rightarrow> Inr (Some orig, Some z, ts1)))
      else Inr (None, None, ts))"

definition user_raw :: "ptyenv \<Rightarrow> ptyopts \<Rightarrow> ttys \<Rightarrow> ttys res" where
  "user_raw E os ts =
     (if interactive os \<and> driver os = None
      then (case tty_raw ts 0 of (r, ts') \<Rightarrow> if r < 0 then Inl (Err_sys ''tty_raw error'')
              else if e_atexit E < 0 then Inl (Err_sys ''atexit error'') else Inr ts')
      else Inr ts)"

definition with_driver :: "ptyenv \<Rightarrow> ptyopts \<Rightarrow> process \<Rightarrow> (process \<times> process res option) res" where
  "with_driver E os p =
     (case driver os of
        None \<Rightarrow> Inr (p, None)
      | Some d \<Rightarrow> bnd (do_driver (e_conn E) (e_fork2 E) p) (\<lambda>(q, dc). bnd q (\<lambda>q. Inr (q, Some dc))))"

text \<open>Lines 75 to 79.\<close>

definition run_child :: "ptyopts \<Rightarrow> process res \<Rightarrow> process res" where
  "run_child os c0 =
     bnd c0 (\<lambda>c. bnd (if noecho os then set_noecho 0 c else Inr c) (\<lambda>c. chk (Err_sys ''can't execute'') (p_call c)))"

definition pty_main :: "ptyk \<Rightarrow> ptyenv \<Rightarrow> string list \<Rightarrow> process \<Rightarrow> ttys \<Rightarrow> ptyrun res" where
  "pty_main K E args p ts =
     bnd (pty_opts \<lparr>driver = None, ignoreeof = False, interactive = e_tty E, noecho = False, verbose = False\<rparr> args) (\<lambda>(os, prog).
     if prog = [] then Inl (Err_quit ''usage: pty [ -d driver -einv ] program [ arg ... ]'')
     else
       bnd (user_settings E os ts) (\<lambda>(orig, siz, ts1).
       bnd (pty_fork K (e_stack E) (Some (e_stack E, 20)) orig siz (e_fork E) p) (\<lambda>R.
       case child R of
         None \<Rightarrow> Inl (Err_sys ''fork error'')
       | Some c0 \<Rightarrow>
           bnd (user_raw E os ts1) (\<lambda>ts2.
           bnd (with_driver E os (parent R)) (\<lambda>(q, dc).
           Inr \<lparr>r_opts = os, r_proc = q, r_fdm = the (ptrfdm R), r_ttys = ts2, r_child = run_child os c0, r_driver = dc\<rparr>)))))"

section \<open>What it sets up\<close>

lemma set_noecho_effect:
  assumes "set_noecho fd p = Inr q" "fdt p fd = Some (Slave k)"
  shows "same (set_tmodes k (noecho_set (tmodes p k)) p) q"
proof -
  obtain p1 where p1: "p_call p = (None, p1)" "chk (Err_sys ''tcgetattr error'') (p_call p) = Inr p1"
    using assms(1) by (auto simp: set_noecho_def bnd_eq_Inr_iff chk_Inr)
  have s: "same p p1" using p1(1) by (rule p_call_same)
  then have k: "term_of fd p1 = k" using assms(2) by (simp add: term_of_def same_def)
  obtain p2 where "same p1 p2" "q = set_tmodes k (noecho_set (tmodes p1 k)) p2"
    using assms(1) p1(2) k chk_do by (fastforce simp: set_noecho_def Let_def)
  then show ?thesis using s by (auto simp: same_def set_tmodes_def)
qed

lemma tty_raw_ok:
  assumes "tty_raw ts 0 = (r, ts')" "\<not> r < 0" "ttystate ts = RESET" "driver_ok supported ts" "\<forall>fd t. attr ts fd = Some t \<longrightarrow> supported t"
  shows "ttystate ts' = RAW" "attr (tty_atexit ts') = attr ts"
proof -
  have i: "tty_inv supported (attr ts) ts" using assms(3,4) by (simp add: tty_inv_def)
  have i': "tty_inv supported (attr ts) ts'" using tty_enter_inv(2) [OF i assms(5), of 0] assms(1) by simp
  obtain g s1 where g: "tcgetattr ts 0 = (g, s1)" by fastforce
  obtain buf where buf: "g = Some buf" "tty_change (s1\<lparr>save_termios := buf\<rparr>) 0 (raw_set buf) raw_bad RAW = (r, ts')"
    using assms(1-3) g by (cases g) (auto simp: tty_raw_def)
  note e = tcgetattr_effect [OF g]
  have a: "attr ts 0 = Some buf" using e(4) buf(1) by auto
  then have "supported buf" "attr (s1\<lparr>save_termios := buf\<rparr>) 0 = Some buf" using assms(5) e(2) by auto
  moreover have "driver_ok supported (s1\<lparr>save_termios := buf\<rparr>)" using assms(4) e(3) by (simp add: driver_ok_def)
  ultimately have t: "ttystate ts' = RAW" "ttysavefd ts' = 0" using tty_change_effect [OF buf(2)] assms(2) by auto
  show "ttystate ts' = RAW" by (rule t)
  obtain r2 s2 where "tty_reset ts' (ttysavefd ts') = (r2, s2)" by fastforce
  then show "attr (tty_atexit ts') = attr ts" using tty_reset_restores [OF i' assms(5)] t(2) by (auto simp: tty_atexit_def)
qed

text \<open>The child of \<^verbatim>\<open>pty_fork\<close> when it runs the command.\<close>

lemma pty_exec_effect:
  assumes "run_child os (Inr c0) = Inr c" "fdt c0 0 = Some (Slave k)"
  shows "same (if noecho os then set_tmodes k (noecho_set (tmodes c0 k)) c0 else c0) c"
proof -
  obtain c1 where c1: "(if noecho os then set_noecho 0 c0 else Inr c0) = Inr c1" "p_call c1 = (None, c)"
    using assms(1) by (auto simp: run_child_def bnd_eq_Inr_iff chk_Inr)
  have "same (if noecho os then set_tmodes k (noecho_set (tmodes c0 k)) c0 else c0) c1"
    using c1(1) set_noecho_effect [OF _ assms(2)] by (auto split: if_splits)
  then show ?thesis using p_call_same [OF c1(2)] same_trans by blast
qed

text \<open>The user's terminal.\<close>

lemma pty_tty_effect:
  assumes "user_raw E os ts1 = Inr ts2" "user_settings E os ts = Inr (orig, siz, ts1)"
    and "ttystate ts = RESET" "driver_ok supported ts" "\<forall>fd t. attr ts fd = Some t \<longrightarrow> supported t"
  shows "if interactive os \<and> driver os = None then ttystate ts2 = RAW \<and> attr (tty_atexit ts2) = attr ts else attr ts2 = attr ts"
    "interactive os \<Longrightarrow> orig = attr ts 0 \<and> orig \<noteq> None \<and> siz = e_size E \<and> siz \<noteq> None"
proof -
  obtain g s1 where g: "tcgetattr ts 0 = (g, s1)" by fastforce
  note e = tcgetattr_effect [OF g]
  have ts1: "ts1 = (if interactive os then s1 else ts)" "interactive os \<Longrightarrow> g \<noteq> None \<and> orig = g \<and> siz = e_size E \<and> e_size E \<noteq> None"
    using assms(2) g by (auto simp: user_settings_def split: if_splits option.splits dest: sym)
  then show "interactive os \<Longrightarrow> orig = attr ts 0 \<and> orig \<noteq> None \<and> siz = e_size E \<and> siz \<noteq> None" using e(4) by auto
  have t: "ttystate ts1 = RESET" "driver_ok supported ts1" "attr ts1 = attr ts"
    using ts1(1) e assms(3,4) by (auto simp: same_module_def driver_ok_def)
  show "if interactive os \<and> driver os = None then ttystate ts2 = RAW \<and> attr (tty_atexit ts2) = attr ts else attr ts2 = attr ts"
  proof (cases "interactive os \<and> driver os = None")
    case True
    obtain r s2 where r: "tty_raw ts1 0 = (r, s2)" by fastforce
    then have "\<not> r < 0" "ts2 = s2" using assms(1) True by (auto simp: user_raw_def split: if_splits)
    then show ?thesis using tty_raw_ok [OF r _ t(1,2)] t(3) assms(5) True by simp
  next
    case False
    then have "ts2 = ts1" using assms(1) by (auto simp: user_raw_def split: if_splits)
    then show ?thesis using t(3) False by auto
  qed
qed

text \<open>
  C13: What the command \<^verbatim>\<open>pty\<close> sets up before it copies. The program runs as the leader of a session on the slave side, which is its standard
  input, output and error and, for an interactive user, has the settings and size of the user's terminal, with \<^verbatim>\<open>-e\<close> without echo. The parent has the master side in addition, and with \<^verbatim>\<open>-d\<close> its
  input and output are an end of the connection whose other end the driver has. The user's terminal is in raw mode exactly for an interactive
  user without driver, and then \<^verbatim>\<open>tty_atexit\<close> brings back its settings. (The driver gets the master side as well, which is never closed in it.)
\<close>

theorem pty_command:
  assumes "pty_main K E args p ts = Inr M"
    and "ptsname K = Some nm" "is_cstr nm" "length nm < 20" "dev K nm = Some (fresh K)"
    and "ttystate ts = RESET" "driver_ok supported ts" "\<forall>fd t. attr ts fd = Some t \<longrightarrow> supported t"
  shows "\<exists>fdm. fdt p fdm = None \<and> r_fdm M = int fdm \<and>
    fdt (r_proc M) = (if driver (r_opts M) = None then (fdt p)(fdm \<mapsto> Master (fresh K))
      else (fdt p)(fdm \<mapsto> Master (fresh K), 0 \<mapsto> End (e_conn E) True, 1 \<mapsto> End (e_conn E) True)) \<and>
    (\<forall>d. r_driver M = Some (Inr d) \<longrightarrow> fdt d = (fdt p)(fdm \<mapsto> Master (fresh K), 0 \<mapsto> End (e_conn E) False, 1 \<mapsto> End (e_conn E) False)) \<and>
    (\<forall>c. r_child M = Inr c \<longrightarrow> fdt c = (fdt p)(0 \<mapsto> Slave (fresh K), 1 \<mapsto> Slave (fresh K), 2 \<mapsto> Slave (fresh K)) \<and>
      leader c \<and> ctty c = Some (fresh K) \<and>
      (interactive (r_opts M) \<longrightarrow> Some (tsizes c (fresh K)) = e_size E \<and>
         tmodes c (fresh K) = (if noecho (r_opts M) then noecho_set else (\<lambda>t. t)) (the (attr ts 0)))) \<and>
    (if interactive (r_opts M) \<and> driver (r_opts M) = None
     then ttystate (r_ttys M) = RAW \<and> attr (tty_atexit (r_ttys M)) = attr ts else attr (r_ttys M) = attr ts)"
proof -
  obtain os prog orig siz ts1 R ts2 q dc c0
    where f: "user_settings E os ts = Inr (orig, siz, ts1)"
      "pty_fork K (e_stack E) (Some (e_stack E, 20)) orig siz (e_fork E) p = Inr R" "child R = Some c0"
      "user_raw E os ts1 = Inr ts2" "with_driver E os (parent R) = Inr (q, dc)"
      "M = \<lparr>r_opts = os, r_proc = q, r_fdm = the (ptrfdm R), r_ttys = ts2, r_child = run_child os c0, r_driver = dc\<rparr>"
    using assms(1) unfolding pty_main_def by (auto simp: bnd_eq_Inr_iff split: if_splits option.splits)
  note tt = pty_tty_effect [OF f(4) f(1) assms(6-8)]
  obtain fdm where fdm: "fdt p fdm = None" "fdt (parent R) = (fdt p)(fdm \<mapsto> Master (fresh K))" "ptrfdm R = Some (int fdm)"
    "\<And>c. c0 = Inr c \<Longrightarrow> fdt c = (fdt p)(0 \<mapsto> Slave (fresh K), 1 \<mapsto> Slave (fresh K), 2 \<mapsto> Slave (fresh K)) \<and> leader c \<and> ctty c = Some (fresh K) \<and>
      (\<forall>x. orig = Some x \<longrightarrow> tmodes c (fresh K) = x) \<and> (\<forall>x. siz = Some x \<longrightarrow> tsizes c (fresh K) = x)"
    using pty_fork_child [OF f(2) assms(2-5) f(3)] by blast
  have ch: "fdt c = (fdt p)(0 \<mapsto> Slave (fresh K), 1 \<mapsto> Slave (fresh K), 2 \<mapsto> Slave (fresh K)) \<and> leader c \<and> ctty c = Some (fresh K) \<and>
      (interactive os \<longrightarrow> Some (tsizes c (fresh K)) = e_size E \<and> tmodes c (fresh K) = (if noecho os then noecho_set else (\<lambda>t. t)) (the (attr ts 0)))"
    if c: "r_child M = Inr c" for c
  proof -
    obtain d where d: "c0 = Inr d" using c f(6) by (cases c0) (auto simp: run_child_def)
    note e = fdm(4) [OF d]
    have "same (if noecho os then set_tmodes (fresh K) (noecho_set (tmodes d (fresh K))) d else d) c"
      using pty_exec_effect [of os d c "fresh K"] c f(6) d e by simp
    then show ?thesis using e tt(2) by (auto simp: same_def leader_def set_tmodes_def split: if_splits)
  qed
  have q: "fdt q = (if driver os = None then (fdt p)(fdm \<mapsto> Master (fresh K))
      else (fdt p)(fdm \<mapsto> Master (fresh K), 0 \<mapsto> End (e_conn E) True, 1 \<mapsto> End (e_conn E) True)) \<and>
    (\<forall>d. dc = Some (Inr d) \<longrightarrow> fdt d = (fdt p)(fdm \<mapsto> Master (fresh K), 0 \<mapsto> End (e_conn E) False, 1 \<mapsto> End (e_conn E) False))"
  proof (cases "driver os")
    case None
    then show ?thesis using f(5) fdm(2) by (auto simp: with_driver_def)
  next
    case (Some x)
    then obtain d where d: "do_driver (e_conn E) (e_fork2 E) (parent R) = Inr (Inr q, d)" "dc = Some d"
      using f(5) by (auto simp: with_driver_def bnd_eq_Inr_iff)
    have a: "fdt q = (fdt p)(fdm \<mapsto> Master (fresh K), 0 \<mapsto> End (e_conn E) True, 1 \<mapsto> End (e_conn E) True)"
      using do_driver_spec(1) [OF d(1)] unfolding fdm(2) .
    have "fdt c = (fdt p)(fdm \<mapsto> Master (fresh K), 0 \<mapsto> End (e_conn E) False, 1 \<mapsto> End (e_conn E) False)" if "dc = Some (Inr c)" for c
      using do_driver_spec(2) [OF d(1), of c] that d(2) unfolding fdm(2) by blast
    moreover have "driver os \<noteq> None" using Some by simp
    ultimately show ?thesis using a by (metis (no_types, lifting))
  qed
  have M: "r_opts M = os" "r_proc M = q" "r_fdm M = int fdm" "r_ttys M = ts2" "r_driver M = dc" using f(6) fdm(3) by simp_all
  have "\<forall>c. r_child M = Inr c \<longrightarrow> fdt c = (fdt p)(0 \<mapsto> Slave (fresh K), 1 \<mapsto> Slave (fresh K), 2 \<mapsto> Slave (fresh K)) \<and> leader c \<and> ctty c = Some (fresh K) \<and>
      (interactive os \<longrightarrow> Some (tsizes c (fresh K)) = e_size E \<and> tmodes c (fresh K) = (if noecho os then noecho_set else (\<lambda>t. t)) (the (attr ts 0)))"
    using ch by blast
  then show ?thesis using fdm(1) q tt(1) unfolding M by (intro exI [of _ fdm] conjI) blast+
qed

definition demo_modes :: termios where
  "demo_modes = \<lparr>c_iflag = 0x500, c_oflag = 0x5, c_cflag = 0xBF, c_lflag = 0x8A3B, c_cc = (\<lambda>_. 0)\<rparr>"

definition demo_proc :: process where
  "demo_proc = \<lparr>fdt = [0 \<mapsto> Plain 1, 1 \<mapsto> Plain 1, 2 \<mapsto> Plain 1], fdlim = 8, pid = 100, sid = 50, ctty = Some 9, ans = [], err = ENONE,
     tmodes = (\<lambda>_. demo_modes), tsizes = (\<lambda>_. 0), cwd = ''/home'', cmask = 0x12, hup_ign = False\<rparr>"

definition demo_ptyk :: ptyk where
  "demo_ptyk = \<lparr>fresh = 4, ptsname = Some ''/dev/pts/4'', dev = [''/dev/pts/4'' \<mapsto> 4], bsd = False\<rparr>"

definition demo_env :: ptyenv where
  "demo_env = \<lparr>e_tty = True, e_size = Some 7, e_stack = replicate 20 NUL, e_fork = Inr (101, []), e_fork2 = Inr (102, []), e_conn = 5, e_atexit = 0\<rparr>"

definition demo_ttys :: ttys where
  "demo_ttys = \<lparr>save_termios = demo_modes, ttysavefd = -1, ttystate = RESET, terrno = ENONE, attr = [0 \<mapsto> demo_modes], gets = [], sets = []\<rparr>"

theorem pty_command_witness:
  "\<exists>M c. pty_main demo_ptyk demo_env [''-e'', ''cat''] demo_proc demo_ttys = Inr M \<and> r_child M = Inr c \<and>
     fdt c 0 = Some (Slave 4) \<and> tmodes c 4 = noecho_set demo_modes \<and> attr (tty_atexit (r_ttys M)) = [0 \<mapsto> demo_modes]"
proof -
  let ?f = "pty_main demo_ptyk demo_env [''-e'', ''cat''] demo_proc demo_ttys"
  have "case ?f of Inl _ \<Rightarrow> False | Inr M \<Rightarrow> (case r_child M of Inl _ \<Rightarrow> False | Inr c \<Rightarrow> noecho (r_opts M) \<and> interactive (r_opts M) \<and> driver (r_opts M) = None)"
    by code_simp
  then obtain M c where M: "?f = Inr M" "r_child M = Inr c" "noecho (r_opts M)" "interactive (r_opts M)" "driver (r_opts M) = None"
    by (auto split: sum.splits)
  have k: "ptsname demo_ptyk = Some ''/dev/pts/4''" "is_cstr ''/dev/pts/4''" "length ''/dev/pts/4'' < 20" "dev demo_ptyk ''/dev/pts/4'' = Some (fresh demo_ptyk)"
    "ttystate demo_ttys = RESET" "driver_ok (\<lambda>t. t = demo_modes) demo_ttys" "\<forall>fd t. attr demo_ttys fd = Some t \<longrightarrow> t = demo_modes"
    by (simp_all add: demo_ptyk_def demo_ttys_def driver_ok_def)
  from pty_command [OF M(1) k] show ?thesis using M by (auto simp: demo_ptyk_def demo_ttys_def)
qed

end
