(* ===== verification/Print_Threads.thy ===== *)
theory Print_Threads
  imports Print_Rounds
begin

text \<open>
  The threads of the print daemon at the same time. A thread that serves a client and the thread that prints are cut where
  they take and release \<^verbatim>\<open>joblock\<close> and where a file appears or disappears; between two such points
  a thread touches only what nobody else uses. Run without interruption the pieces are the
  functions of \<open>Print_Daemon\<close>; in any interleaving no job is lost, printed twice, or printed with the data of another.
\<close>

section \<open>The thread that serves a client\<close>

text \<open>
  Where it is: before it has read the request; with a job number; with an empty data file; with the data; with the control file; after the answer; at its end.
  The last argument of three of them is what the thread has written to the data file.
\<close>

datatype cpos =
    C_new "rdev list"
  | C_num "32 word" printreq "rdev list"
  | C_open "32 word" printreq "rdev list"
  | C_spooled "32 word" printreq string
  | C_ctl "32 word" printreq string
  | C_told "32 word" printreq string
  | C_done printresp

fun client_step :: "(32 word \<Rightarrow> string) \<Rightarrow> cenv \<Rightarrow> cpos \<Rightarrow> printd \<Rightarrow> (cpos \<times> printd) res" where
  "client_step se env (C_new inp) st =
     (case treadn sizeof_printreq inp of
        (None, _) \<Rightarrow> Inr (C_done (reject se (rerr inp)), st)
      | (Some b, inp1) \<Rightarrow>
          if length b \<noteq> sizeof_printreq then Inr (C_done (reject se EIO), st)
          else let req = (printreq_of b)\<lparr>rsize := ntohl (rsize (printreq_of b)), rflags := ntohl (rflags (printreq_of b))\<rparr>;
                   (jobid, st1) = get_newjobno st
               in Inr (C_num jobid req inp1, st1))"
| "client_step se env (C_num jobid req inp) st =
     (case c_creat1 env of
        Some e \<Rightarrow> Inr (C_done (reject se e), st)
      | None \<Rightarrow> Inr (C_open jobid req inp, set_file (data_name jobid) [] st))"
| "client_step se env (C_open jobid req inp) st =
     (case spool_loop True (rflags req) (c_buf env) inp (c_w1 env) [] of
        (Inl e, data) \<Rightarrow> Inr (C_done (reject se e), unlink (data_name jobid) (set_file (data_name jobid) data st))
      | (Inr flags, data) \<Rightarrow> Inr (C_spooled jobid (req\<lparr>rflags := flags\<rparr>) data, set_file (data_name jobid) data st))"
| "client_step se env (C_spooled jobid req data) st =
     (case c_creat2 env of
        Some e \<Rightarrow> Inr (C_done (reject se e), unlink (data_name jobid) st)
      | None \<Rightarrow>
          let st4 = set_file (req_name jobid) [] st
          in case sys_write (printreq_bytes req) (c_w2 env) of
               (None, _) \<Rightarrow> Inr (C_done (reject se (werr (c_w2 env))), unlink (data_name jobid) (unlink (req_name jobid) st4))
             | (Some nw, _) \<Rightarrow>
                 if nw \<noteq> sizeof_printreq
                 then Inr (C_done (reject se EIO), unlink (data_name jobid) (unlink (req_name jobid) st4))
                 else Inr (C_ctl jobid req data, set_file (req_name jobid) (printreq_bytes req) st4))"
| "client_step se env (C_ctl jobid req data) st = Inr (C_told jobid req data, st)"
| "client_step se env (C_told jobid req data) st =
     bnd (add_job (jq st) (pbrk st) (jobid, req)) (\<lambda>q. Inr (C_done (accept_resp (c_msg env) jobid), st\<lparr>jq := q, pbrk := pbrk st + 1\<rparr>))"
| "client_step se env (C_done r) st = Inr (C_done r, st)"

fun client_run :: "nat \<Rightarrow> (32 word \<Rightarrow> string) \<Rightarrow> cenv \<Rightarrow> cpos \<Rightarrow> printd \<Rightarrow> (cpos \<times> printd) res" where
  "client_run 0 se env c st = Inr (c, st)"
| "client_run (Suc n) se env c st = bnd (client_step se env c st) (\<lambda>(c', st'). client_run n se env c' st')"

lemma client_run_done [simp]: "client_run n se env (C_done r) st = Inr (C_done r, st)"
  by (induction n) auto

lemma client_run_body:
  "client_run 6 se env (C_new inp) st = bnd (client_body se env inp st) (\<lambda>(r, st'). Inr (C_done r, st'))"
proof -
  have n: "(6 :: nat) = Suc (Suc (Suc (Suc (Suc (Suc 0)))))" by simp
  have s: "set_file (data_name j) d (set_file (data_name j) [] st) = set_file (data_name j) d st" for j d and st :: printd
    by (simp add: set_file_def)
  show ?thesis
    unfolding n client_run.simps client_body_def
    by (auto simp: Let_def get_newjobno_def bnd_def split: prod.splits option.splits sum.splits if_splits)
qed

section \<open>The thread that prints\<close>

text \<open>
  Where it is: waiting for a job; with a job taken from the list; behind the update of the number file; behind the check of the
  configuration; behind the talk with the printer, with its result and what was sent; at the end of the program.
\<close>

datatype ppos = P_wait | P_got nat | P_cfg nat | P_open nat | P_end nat bool string | P_exit nat

text \<open>The third part of the result is the end of a round, if the step is one.\<close>

fun printer_step :: "nat \<Rightarrow> penv \<Rightarrow> ppos \<Rightarrow> printd \<Rightarrow> (ppos \<times> printd \<times> (round_end \<times> string) option) res" where
  "printer_step n env P_wait st =
     (if qhead (jq st) = 0 then Inr (P_wait, st, None)
      else bnd (remove_job (jq st) (qhead (jq st))) (\<lambda>q1. Inr (P_got (qhead (jq st)), st\<lparr>jq := q1\<rparr>, None)))"
| "printer_step n env (P_got jp) st = bnd (update_jobno (p_seek env) (p_jobw env) st) (\<lambda>st1. Inr (P_cfg jp, st1, None))"
| "printer_step n env (P_cfg jp) st =
     (if reread st
      then (case init_printer (p_addr env) of
              None \<Rightarrow> Inr (P_exit jp, st, Some (Exited, []))
            | Some nm \<Rightarrow> Inr (P_open jp, st\<lparr>reread := False, printer_name := nm\<rparr>, None))
      else Inr (P_open jp, st, None))"
| "printer_step n env (P_open jp) st =
     (let (jobid, req) = jdat (jq st) jp
      in case pfiles st (data_name jobid) of
           None \<Rightarrow> Inr (P_wait, st, Some (Canceled, []))
         | Some d \<Rightarrow>
             if \<not> p_open env \<or> \<not> p_fstat env then Inr (P_wait, st, Some (Canceled, []))
             else bnd (if p_connect env then send_job n env (printer_name st) jobid req d else Inr (False, []))
                    (\<lambda>(ok, out). Inr (P_end jp ok out, st, None)))"
| "printer_step n env (P_end jp ok out) st =
     (let (jobid, req) = jdat (jq st) jp
      in if ok then Inr (P_wait, unlink (req_name jobid) (unlink (data_name jobid) st), Some (Printed, out))
         else bnd (replace_job (jq st) jp) (\<lambda>q. Inr (P_wait, st\<lparr>jq := q\<rparr>, Some (Deferred, out))))"
| "printer_step n env (P_exit jp) st = Inr (P_exit jp, st, None)"

fun printer_run :: "nat \<Rightarrow> nat \<Rightarrow> penv \<Rightarrow> ppos \<Rightarrow> printd \<Rightarrow> (round_end \<times> string \<times> printd) option res" where
  "printer_run 0 n env p st = Inr None"
| "printer_run (Suc k) n env p st =
     bnd (printer_step n env p st) (\<lambda>(p', st', e). case e of Some (r, out) \<Rightarrow> Inr (Some (r, out, st')) | None \<Rightarrow> printer_run k n env p' st')"

lemma remove_job_data: "remove_job q jp = Inr q' \<Longrightarrow> jdat q' = jdat q"
  by (auto simp: remove_job_def set_prev_def set_next_def bnd_eq_Inr_iff split: if_splits)

lemma printer_run_round:
  assumes "qhead (jq st) \<noteq> 0"
  shows "printer_run 5 n env P_wait st = bnd (printer_round n env st) (\<lambda>r. Inr (Some r))"
proof (cases "remove_job (jq st) (qhead (jq st))")
  case (Inl e)
  then show ?thesis using assms by (simp add: eval_nat_numeral printer_round_def Let_def split: prod.splits)
next
  case q1: (Inr q1)
  obtain j req where d: "jdat (jq st) (qhead (jq st)) = (j, req)" by fastforce
  show ?thesis
  proof (cases "update_jobno (p_seek env) (p_jobw env) (st\<lparr>jq := q1\<rparr>)")
    case (Inl e)
    then show ?thesis using assms q1 by (simp add: eval_nat_numeral printer_round_def Let_def split: prod.splits)
  next
    case (Inr st1)
    have "jdat (jq st1) (qhead (jq st)) = (j, req)" using remove_job_data [OF q1] d update_jobno_fields [OF Inr] by simp
    then show ?thesis using assms q1 Inr d
      by (auto simp: eval_nat_numeral printer_round_def Let_def bnd_def split: prod.splits option.splits if_splits sum.splits)
  qed
qed

section \<open>All threads\<close>

text \<open>
  The state of the daemon, the clients and the printer thread, and what has happened: how many numbers were given, which jobs were
  accepted, with the request and the data stored for them, and which the printer thread has done with, with the bytes the printer got.
\<close>

record psys =
  sd :: printd
  cls :: "nat \<Rightarrow> cpos option"
  pp :: ppos
  num :: nat
  accepted :: "(32 word \<times> printreq \<times> string) list"
  ended :: "(32 word \<times> string \<times> round_end) list"

fun note_client :: "cpos \<Rightarrow> cpos \<Rightarrow> psys \<Rightarrow> psys" where
  "note_client (C_new inp) (C_num j r i) s = s\<lparr>num := num s + 1\<rparr>"
| "note_client (C_ctl j r d) c s = s\<lparr>accepted := accepted s @ [(j, r, d)]\<rparr>"
| "note_client c c' s = s"

fun note_printer :: "ppos \<Rightarrow> (round_end \<times> string) option \<Rightarrow> psys \<Rightarrow> psys" where
  "note_printer (P_open jp) (Some (e, out)) s = s\<lparr>ended := ended s @ [(fst (jdat (jq (sd s)) jp), [], e)]\<rparr>"
| "note_printer (P_end jp ok out) (Some (e, out')) s =
     (if e = Printed then s\<lparr>ended := ended s @ [(fst (jdat (jq (sd s)) jp), out', e)]\<rparr> else s)"
| "note_printer p e s = s"

text \<open>A client connects, a client thread or the printer thread runs up to its next point, or a \<^verbatim>\<open>SIGHUP\<close> arrives, until the program exits. What a call meets may be different every time.\<close>

definition running :: "psys \<Rightarrow> bool" where "running s \<longleftrightarrow> (\<forall>jp. pp s \<noteq> P_exit jp)"

inductive threads_step :: "(32 word \<Rightarrow> string) \<Rightarrow> nat \<Rightarrow> psys \<Rightarrow> psys \<Rightarrow> bool" for se n where
  connect: "running s \<Longrightarrow> cls s k = None \<Longrightarrow> threads_step se n s (s\<lparr>cls := (cls s)(k \<mapsto> C_new inp)\<rparr>)"
| client: "running s \<Longrightarrow> cls s k = Some c \<Longrightarrow> client_step se env c (sd s) = Inr (c', st') \<Longrightarrow>
    threads_step se n s (note_client c c' (s\<lparr>cls := (cls s)(k \<mapsto> c'), sd := st'\<rparr>))"
| printer: "running s \<Longrightarrow> printer_step n env (pp s) (sd s) = Inr (p', st', e) \<Longrightarrow>
    threads_step se n s (note_printer (pp s) e (s\<lparr>pp := p', sd := st'\<rparr>))"
| hup: "running s \<Longrightarrow> threads_step se n s (s\<lparr>sd := (sd s)\<lparr>reread := True\<rparr>\<rparr>)"

inductive threads_reach :: "(32 word \<Rightarrow> string) \<Rightarrow> nat \<Rightarrow> psys \<Rightarrow> psys \<Rightarrow> bool" for se n s0 where
  start: "threads_reach se n s0 s0"
| step: "threads_reach se n s0 s \<Longrightarrow> threads_step se n s t \<Longrightarrow> threads_reach se n s0 t"

section \<open>Jobs, wherever they are\<close>

fun cid :: "cpos \<Rightarrow> 32 word option" where
  "cid (C_num j r i) = Some j" | "cid (C_open j r i) = Some j" | "cid (C_spooled j r d) = Some j" | "cid (C_ctl j r d) = Some j"
| "cid (C_told j r d) = Some j" | "cid (C_new i) = None" | "cid (C_done r) = None"

definition stored :: "(string \<Rightarrow> string option) \<Rightarrow> 32 word \<Rightarrow> printreq \<Rightarrow> string \<Rightarrow> bool" where
  "stored fs j r d \<longleftrightarrow> fs (data_name j) = Some d \<and> fs (req_name j) = Some (printreq_bytes r)"

fun cfiles :: "(string \<Rightarrow> string option) \<Rightarrow> cpos \<Rightarrow> bool" where
  "cfiles fs (C_spooled j r d) = (fs (data_name j) = Some d)" | "cfiles fs (C_ctl j r d) = stored fs j r d" | "cfiles fs (C_told j r d) = stored fs j r d"
| "cfiles fs c = True"

definition ids :: "(32 word \<times> 'a) list \<Rightarrow> 32 word set" where "ids xs = fst ` set xs"

lemma ids_simps [simp]: "ids [] = {}" "ids (x # xs) = insert (fst x) (ids xs)" "ids (xs @ ys) = ids xs \<union> ids ys" "set (map fst xs) = ids xs" "fst ` set xs = ids xs"
  by (auto simp: ids_def)

lemma idsI: "(j, y) \<in> set xs \<Longrightarrow> j \<in> ids xs"
  unfolding ids_def by (metis fst_conv image_eqI)

lemma idsE: "j \<in> ids xs \<Longrightarrow> \<exists>y. (j, y) \<in> set xs"
  unfolding ids_def by (metis imageE prod.collapse)

definition told :: "cpos \<Rightarrow> bool" where "told c \<longleftrightarrow> (\<exists>j r d. c = C_told j r d)"

lemma sprint_int_inj: "sprint_int a = sprint_int b \<Longrightarrow> a = b"
  by (metis atol_sprint_int)

lemma names_inj [simp]: "data_name i = data_name j \<longleftrightarrow> i = j" "req_name i = req_name j \<longleftrightarrow> i = j"
  by (auto simp: data_name_def req_name_def spool_path_def dest!: sprint_int_inj signed_word_eqI)

text \<open>A thread that changes only the files of job \<open>j\<close>.\<close>

definition own_files :: "32 word \<Rightarrow> (string \<Rightarrow> string option) \<Rightarrow> (string \<Rightarrow> string option) \<Rightarrow> bool" where
  "own_files j fs fs' \<longleftrightarrow> (\<forall>i. i \<noteq> j \<longrightarrow> fs' (data_name i) = fs (data_name i) \<and> fs' (req_name i) = fs (req_name i))"

lemma own_files_refl [simp]: "own_files j fs fs"
  by (simp add: own_files_def)

lemma own_stored: "own_files j fs fs' \<Longrightarrow> i \<noteq> j \<Longrightarrow> stored fs' i r d = stored fs i r d"
  by (simp add: own_files_def stored_def)

lemma own_cfiles: "own_files j fs fs' \<Longrightarrow> cid c = Some i \<Longrightarrow> i \<noteq> j \<Longrightarrow> cfiles fs' c = cfiles fs c"
  by (cases c) (auto simp: own_files_def stored_def)

text \<open>
  What must hold of the numbers that were there at the start and those that were given since, the clients, the history, the jobs
  that the printer thread has or will get, and the files: every waiting job is an accepted one with its files; a job that has ended was
  accepted, and the printer has got the data it was accepted with; a client's number is its own; every accepted job is somewhere.
\<close>

definition waiting_ok :: "(32 word \<times> printreq \<times> string) list \<Rightarrow> (32 word \<times> printreq) list \<Rightarrow> (string \<Rightarrow> string option) \<Rightarrow> bool" where
  "waiting_ok acc jobs fs \<longleftrightarrow> (\<forall>j r. (j, r) \<in> set jobs \<longrightarrow> (\<exists>d. (j, r, d) \<in> set acc \<and> stored fs j r d))"

definition ended_ok :: "(32 word \<times> printreq \<times> string) list \<Rightarrow> (32 word \<times> string \<times> round_end) list \<Rightarrow> (32 word \<times> printreq) list \<Rightarrow> bool" where
  "ended_ok acc fin jobs \<longleftrightarrow>
     (\<forall>j d e. (j, d, e) \<in> set fin \<longrightarrow> j \<notin> ids jobs \<and> (\<exists>r d'. (j, r, d') \<in> set acc \<and> (e = Printed \<longrightarrow> (\<exists>pn. d = printed_bytes pn j r d'))) \<and> e \<in> {Printed, Canceled})"

text \<open>What was sent for a job: the headers and the data it was accepted with.\<close>

definition sent_ok :: "(32 word \<times> printreq \<times> string) list \<Rightarrow> 32 word \<times> printreq \<Rightarrow> string \<Rightarrow> bool" where
  "sent_ok acc job out \<longleftrightarrow> (\<exists>d pn. (fst job, snd job, d) \<in> set acc \<and> out = printed_bytes pn (fst job) (snd job) d)"

lemma sent_ok_more: "sent_ok acc job out \<Longrightarrow> sent_ok (acc @ acc2) job out"
  by (auto simp: sent_ok_def)

definition client_ok ::
  "32 word list \<Rightarrow> (32 word \<times> printreq \<times> string) list \<Rightarrow> (32 word \<times> string \<times> round_end) list
   \<Rightarrow> (32 word \<times> printreq) list \<Rightarrow> (string \<Rightarrow> string option) \<Rightarrow> cpos \<Rightarrow> 32 word \<Rightarrow> bool" where
  "client_ok iss acc fin jobs fs c j \<longleftrightarrow> j \<in> set iss \<and> j \<notin> ids jobs \<and> j \<notin> ids fin \<and> cfiles fs c \<and>
        (if told c then \<exists>r d. c = C_told j r d \<and> (j, r, d) \<in> set acc else j \<notin> ids acc)"

definition placed ::
  "(nat \<Rightarrow> cpos option) \<Rightarrow> (32 word \<times> printreq \<times> string) list \<Rightarrow> (32 word \<times> string \<times> round_end) list \<Rightarrow> (32 word \<times> printreq) list \<Rightarrow> bool" where
  "placed cl acc fin jobs \<longleftrightarrow>
     (\<forall>j r d. (j, r, d) \<in> set acc \<longrightarrow> (\<exists>k. cl k = Some (C_told j r d)) \<or> (j, r) \<in> set jobs \<or> j \<in> ids fin)"

definition apart :: "(nat \<Rightarrow> cpos option) \<Rightarrow> bool" where
  "apart cl \<longleftrightarrow> (\<forall>k k' c c' j. cl k = Some c \<longrightarrow> cl k' = Some c' \<longrightarrow> cid c = Some j \<longrightarrow> cid c' = Some j \<longrightarrow> k = k')"

definition jobs_inv ::
  "32 word list \<Rightarrow> 32 word list \<Rightarrow> (nat \<Rightarrow> cpos option) \<Rightarrow> (32 word \<times> printreq \<times> string) list \<Rightarrow> (32 word \<times> string \<times> round_end) list
   \<Rightarrow> (32 word \<times> printreq) list \<Rightarrow> (string \<Rightarrow> string option) \<Rightarrow> bool" where
  "jobs_inv old iss cl acc fin jobs fs \<longleftrightarrow>
     distinct (map fst acc) \<and> ids acc \<subseteq> set old \<union> set iss \<and> distinct (map fst jobs) \<and> distinct (map fst fin) \<and>
     waiting_ok acc jobs fs \<and> ended_ok acc fin jobs \<and> (\<forall>k c j. cl k = Some c \<longrightarrow> cid c = Some j \<longrightarrow> client_ok iss acc fin jobs fs c j) \<and>
     apart cl \<and> placed cl acc fin jobs"

lemma client_ok_other:
  "client_ok iss acc fin jobs fs c i \<Longrightarrow> cid c = Some i \<Longrightarrow> i \<noteq> j \<Longrightarrow> own_files j fs fs' \<Longrightarrow> client_ok iss acc fin jobs fs' c i"
  by (auto simp: client_ok_def own_cfiles)

lemma waiting_other: "waiting_ok acc jobs fs \<Longrightarrow> j \<notin> ids jobs \<Longrightarrow> own_files j fs fs' \<Longrightarrow> waiting_ok acc jobs fs'"
  unfolding waiting_ok_def using own_stored idsI by metis

lemma apart_upd:
  assumes "apart cl" "cl k = Some c" "cid c' = None \<or> cid c' = cid c"
  shows "apart (cl(k \<mapsto> c'))"
  using assms unfolding apart_def by (auto split: if_splits) (metis)+

lemma cid_told: "told c \<Longrightarrow> \<exists>j r d. c = C_told j r d \<and> cid c = Some j"
  by (auto simp: told_def)

text \<open>A client that has not answered changes its own files and goes on, or ends.\<close>

lemma jobs_inv_move:
  assumes "jobs_inv old iss cl acc fin jobs fs" "cl k = Some c" "cid c = Some j" "\<not> told c" "own_files j fs fs'"
    and "cid c' = None \<or> cid c' = Some j \<and> \<not> told c' \<and> cfiles fs' c'"
  shows "jobs_inv old iss (cl(k \<mapsto> c')) acc fin jobs fs'"
proof -
  note I = assms(1) [unfolded jobs_inv_def]
  have ok: "client_ok iss acc fin jobs fs c j" using I assms(2,3) by blast
  have other: "i \<noteq> j" if "cl k' = Some x" "cid x = Some i" "k' \<noteq> k" for k' x i
    using I that assms(2,3) unfolding apart_def by metis
  have "client_ok iss acc fin jobs fs' x i" if x: "(cl(k \<mapsto> c')) k' = Some x" "cid x = Some i" for k' x i
  proof (cases "k' = k")
    case True
    then show ?thesis using x assms(4,6) ok by (auto simp: client_ok_def)
  next
    case False
    then show ?thesis using x I client_ok_other [OF _ _ other assms(5)] by (metis fun_upd_other)
  qed
  moreover have "waiting_ok acc jobs fs'" using waiting_other [OF _ _ assms(5)] I ok by (auto simp: client_ok_def)
  moreover have "placed (cl(k \<mapsto> c')) acc fin jobs"
    using I assms(2,4) unfolding placed_def told_def by (metis fun_upd_other option.inject)
  moreover have "apart (cl(k \<mapsto> c'))" using apart_upd [of cl k c c'] I assms(2,3,6) by auto
  ultimately show ?thesis using I unfolding jobs_inv_def by blast
qed

text \<open>Threads without a number come and go.\<close>

lemma jobs_inv_new:
  assumes "jobs_inv old iss cl acc fin jobs fs" "cid c' = None" "\<And>c. cl k = Some c \<Longrightarrow> cid c = None"
  shows "jobs_inv old iss (cl(k \<mapsto> c')) acc fin jobs fs"
proof -
  note I = assms(1) [unfolded jobs_inv_def]
  have n: "\<not> told c" if "cl k = Some c" for c using assms(3) [OF that] cid_told by fastforce
  have "placed (cl(k \<mapsto> c')) acc fin jobs"
    using I n unfolding placed_def told_def by (metis fun_upd_other)
  moreover have "apart (cl(k \<mapsto> c'))" using I assms(2) unfolding apart_def by (auto split: if_splits)
  ultimately show ?thesis using I assms(2) unfolding jobs_inv_def by (auto split: if_splits)
qed

text \<open>A number is given, a job is accepted, it is queued, and the printer thread is done with it.\<close>

lemma known_ids:
  assumes "jobs_inv old iss cl acc fin jobs fs"
  shows "ids jobs \<subseteq> ids acc" "ids fin \<subseteq> ids acc" "ids acc \<subseteq> set old \<union> set iss"
proof -
  have w: "waiting_ok acc jobs fs" and e: "ended_ok acc fin jobs" and a: "ids acc \<subseteq> set old \<union> set iss" using assms unfolding jobs_inv_def by blast+
  show "ids acc \<subseteq> set old \<union> set iss" by (rule a)
  show "ids jobs \<subseteq> ids acc"
  proof
    fix j assume "j \<in> ids jobs"
    then obtain r where "(j, r) \<in> set jobs" using idsE by blast
    then obtain d where "(j, r, d) \<in> set acc" using w unfolding waiting_ok_def by blast
    then show "j \<in> ids acc" by (rule idsI)
  qed
  show "ids fin \<subseteq> ids acc"
  proof
    fix j assume "j \<in> ids fin"
    then obtain y where "(j, y) \<in> set fin" using idsE by blast
    then obtain d x where "(j, d, x) \<in> set fin" by (cases y) auto
    then obtain r d' where "(j, r, d') \<in> set acc" using e unfolding ended_ok_def by blast
    then show "j \<in> ids acc" by (rule idsI)
  qed
qed

lemma jobs_inv_number:
  assumes "jobs_inv old iss cl acc fin jobs fs" "cl k = Some c" "cid c = None" "j \<notin> set old \<union> set iss"
  shows "jobs_inv old (iss @ [j]) (cl(k \<mapsto> C_num j r i)) acc fin jobs fs"
proof -
  note I = assms(1) [unfolded jobs_inv_def]
  have new: "j \<notin> ids jobs" "j \<notin> ids fin" "j \<notin> ids acc" using known_ids [OF assms(1)] assms(4) by blast+
  have ids: "x \<in> set iss" if "cl k' = Some c" "cid c = Some x" for k' c x using I that by (auto simp: client_ok_def)
  have "client_ok (iss @ [j]) acc fin jobs fs c' x" if "(cl(k \<mapsto> C_num j r i)) k' = Some c'" "cid c' = Some x" for k' c' x
    using that I new by (cases "k' = k") (auto simp: client_ok_def told_def)
  moreover have "apart (cl(k \<mapsto> C_num j r i))"
    using I ids assms(4) unfolding apart_def by (auto split: if_splits)
  moreover have "placed (cl(k \<mapsto> C_num j r i)) acc fin jobs"
    using I assms(2,3) unfolding placed_def by (metis cid.simps(5) fun_upd_other option.discI option.inject)
  ultimately show ?thesis using I unfolding jobs_inv_def by auto
qed

lemma jobs_inv_accept:
  assumes "jobs_inv old iss cl acc fin jobs fs" "cl k = Some (C_ctl j r d)"
  shows "jobs_inv old iss (cl(k \<mapsto> C_told j r d)) (acc @ [(j, r, d)]) fin jobs fs"
proof -
  note I = assms(1) [unfolded jobs_inv_def]
  have ok: "client_ok iss acc fin jobs fs (C_ctl j r d) j" using I assms(2) by auto
  then have new: "j \<notin> ids acc" "j \<in> set iss" by (auto simp: client_ok_def told_def)
  have "client_ok iss (acc @ [(j, r, d)]) fin jobs fs c x" if c: "(cl(k \<mapsto> C_told j r d)) k' = Some c" "cid c = Some x" for k' c x
  proof (cases "k' = k")
    case True
    then have "c = C_told j r d" "x = j" using c by auto
    then show ?thesis using ok by (simp add: client_ok_def told_def)
  next
    case False
    then have "x \<noteq> j" using c I assms(2) unfolding apart_def by (metis cid.simps(4) fun_upd_other)
    then show ?thesis using c False I by (auto simp: client_ok_def)
  qed
  moreover have "apart (cl(k \<mapsto> C_told j r d))" using apart_upd [of cl k "C_ctl j r d"] I assms(2) by auto
  moreover have "placed (cl(k \<mapsto> C_told j r d)) (acc @ [(j, r, d)]) fin jobs"
  proof -
    have "(\<exists>k'. (cl(k \<mapsto> C_told j r d)) k' = Some (C_told i q e)) \<or> (i, q) \<in> set jobs \<or> i \<in> ids fin" if x: "(i, q, e) \<in> set (acc @ [(j, r, d)])" for i q e
    proof (cases "\<exists>k'. cl k' = Some (C_told i q e)")
      case True
      then obtain k' where "cl k' = Some (C_told i q e)" ..
      then show ?thesis using assms(2) by (cases "k' = k") auto
    next
      case False
      show ?thesis
      proof (cases "(i, q, e) = (j, r, d)")
        case True
        then show ?thesis by (intro disjI1 exI [of _ k]) simp
      next
        case new: False
        then have "(i, q, e) \<in> set acc" using x new by (simp only: set_append Un_iff list.set insert_iff empty_iff) blast
        then show ?thesis using I False unfolding placed_def by blast
      qed
    qed
    then show ?thesis unfolding placed_def by blast
  qed
  moreover have "waiting_ok (acc @ [(j, r, d)]) jobs fs" "ended_ok (acc @ [(j, r, d)]) fin jobs"
  proof -
    have "waiting_ok acc jobs fs" "ended_ok acc fin jobs" using I by blast+
    then show "waiting_ok (acc @ [(j, r, d)]) jobs fs" "ended_ok (acc @ [(j, r, d)]) fin jobs"
      unfolding waiting_ok_def ended_ok_def set_append Un_iff by blast+
  qed
  ultimately show ?thesis using I new unfolding jobs_inv_def by auto
qed

lemma jobs_inv_queue:
  assumes "jobs_inv old iss cl acc fin jobs fs" "cl k = Some (C_told j r d)" "cid c' = None"
  shows "jobs_inv old iss (cl(k \<mapsto> c')) acc fin (jobs @ [(j, r)]) fs"
proof -
  note I = assms(1) [unfolded jobs_inv_def]
  have ok: "client_ok iss acc fin jobs fs (C_told j r d) j" using I assms(2) by auto
  then have a: "(j, r, d) \<in> set acc" "stored fs j r d" "j \<notin> ids jobs" "j \<notin> ids fin" by (auto simp: client_ok_def told_def)
  have "client_ok iss acc fin (jobs @ [(j, r)]) fs c x" if c: "(cl(k \<mapsto> c')) k' = Some c" "cid c = Some x" for k' c x
  proof -
    have "k' \<noteq> k" using c assms(3) by (auto split: if_splits)
    then have "x \<noteq> j" using c I assms(2) unfolding apart_def by (metis cid.simps(5) fun_upd_other)
    then show ?thesis using c \<open>k' \<noteq> k\<close> I by (auto simp: client_ok_def)
  qed
  moreover have "apart (cl(k \<mapsto> c'))" using apart_upd [of cl k "C_told j r d" c'] I assms(2,3) by auto
  moreover have "placed (cl(k \<mapsto> c')) acc fin (jobs @ [(j, r)])"
  proof -
    have "(\<exists>k'. (cl(k \<mapsto> c')) k' = Some (C_told i q e)) \<or> (i, q) \<in> set (jobs @ [(j, r)]) \<or> i \<in> ids fin" if x: "(i, q, e) \<in> set acc" for i q e
    proof (cases "\<exists>k'. cl k' = Some (C_told i q e)")
      case True
      then obtain k' where "cl k' = Some (C_told i q e)" ..
      then show ?thesis using assms(2) by (cases "k' = k") auto
    next
      case False
      then have "(i, q) \<in> set jobs \<or> i \<in> ids fin" using I x unfolding placed_def by blast
      then show ?thesis by auto
    qed
    then show ?thesis unfolding placed_def by blast
  qed
  moreover have "waiting_ok acc (jobs @ [(j, r)]) fs" using I a unfolding waiting_ok_def by auto
  moreover have "ended_ok acc fin (jobs @ [(j, r)])"
  proof -
    have "i \<noteq> j" if "(i, x) \<in> set fin" for i x using idsI [OF that] a(4) by auto
    moreover have "ended_ok acc fin jobs" using I by blast
    ultimately show ?thesis unfolding ended_ok_def by simp
  qed
  ultimately show ?thesis using I a(3) unfolding jobs_inv_def by auto
qed

lemma jobs_inv_finish:
  assumes "jobs_inv old iss cl acc fin ((j, r) # jobs) fs" "own_files j fs fs'" "e \<in> {Printed, Canceled}" "e = Printed \<Longrightarrow> sent_ok acc (j, r) d"
  shows "jobs_inv old iss cl acc (fin @ [(j, d, e)]) jobs fs'"
proof -
  note I = assms(1) [unfolded jobs_inv_def]
  have j: "j \<notin> ids jobs" using I by auto
  then have w: "waiting_ok acc jobs fs'" using waiting_other [OF _ j assms(2)] I by (auto simp: waiting_ok_def)
  have "ended_ok acc fin ((j, r) # jobs)" using I by blast
  then have "(j, x, y) \<notin> set fin" for x y unfolding ended_ok_def by fastforce
  then have nf: "j \<notin> ids fin" using idsE [of j fin] by fastforce
  have "waiting_ok acc ((j, r) # jobs) fs" using I by blast
  then obtain d' where d': "(j, r, d') \<in> set acc" unfolding waiting_ok_def by (metis list.set_intros(1))
  have "client_ok iss acc (fin @ [(j, d, e)]) jobs fs' c x" if c: "cl k = Some c" "cid c = Some x" for k c x
  proof -
    have "client_ok iss acc fin ((j, r) # jobs) fs c x" using I c by blast
    moreover from this have "x \<noteq> j" by (auto simp: client_ok_def)
    ultimately show ?thesis using own_cfiles [OF assms(2) c(2)] by (auto simp: client_ok_def)
  qed
  moreover have "ended_ok acc (fin @ [(j, d, e)]) jobs"
  proof -
    have "ended_ok acc fin jobs" using I unfolding ended_ok_def by auto
    moreover have "\<exists>r' d'. (j, r', d') \<in> set acc \<and> (e = Printed \<longrightarrow> (\<exists>pn. d = printed_bytes pn j r' d'))"
      using d' assms(4) by (cases "e = Printed") (auto simp: sent_ok_def)
    ultimately show ?thesis using j assms(3) unfolding ended_ok_def by auto
  qed
  moreover have "placed cl acc (fin @ [(j, d, e)]) jobs" using I unfolding placed_def by force
  ultimately show ?thesis using I nf w unfolding jobs_inv_def by auto
qed

section \<open>The daemon\<close>

fun held :: "ppos \<Rightarrow> nat option" where
  "held (P_got jp) = Some jp" | "held (P_cfg jp) = Some jp" | "held (P_open jp) = Some jp" | "held (P_end jp ok out) = Some jp"
| "held (P_exit jp) = Some jp" | "held P_wait = None"

text \<open>The jobs that the printer thread has or will get.\<close>

definition pjobs :: "psys \<Rightarrow> nat list \<Rightarrow> (32 word \<times> printreq) list" where
  "pjobs s xs = (case held (pp s) of None \<Rightarrow> [] | Some jp \<Rightarrow> [jdat (jq (sd s)) jp]) @ queued (sd s) xs"

primrec advance :: "nat \<Rightarrow> printd \<Rightarrow> printd" where
  "advance 0 st = st"
| "advance (Suc k) st = advance k (snd (get_newjobno st))"

lemma advance_Suc: "advance (Suc k) st = snd (get_newjobno (advance k st))"
  by (induction k arbitrary: st) auto

lemma newjobs_split: "k < n \<Longrightarrow> \<exists>r. newjobs n st = newjobs k st @ nextjob (advance k st) # r"
proof (induction k arbitrary: n st)
  case 0
  then show ?case by (cases n) (auto simp: get_newjobno_def Let_def)
next
  case (Suc k)
  then obtain m where "n = Suc m" "k < m" by (cases n) auto
  then show ?case using Suc.IH [of m "snd (get_newjobno st)"] by auto
qed

lemma newjobs_Suc: "newjobs (Suc k) st = newjobs k st @ [nextjob (advance k st)]"
proof -
  obtain r where r: "newjobs (Suc k) st = newjobs k st @ nextjob (advance k st) # r" using newjobs_split [of k "Suc k"] by blast
  then have "length (newjobs (Suc k) st) = length (newjobs k st) + Suc (length r)" by simp
  then show ?thesis using r by simp
qed

text \<open>The queue and the number that comes next, as far as other threads do not touch them.\<close>

definition same_queue :: "printd \<Rightarrow> printd \<Rightarrow> bool" where
  "same_queue a b \<longleftrightarrow> jq b = jq a \<and> pbrk b = pbrk a \<and> nextjob b = nextjob a"

definition threads_inv :: "32 word list \<Rightarrow> printd \<Rightarrow> psys \<Rightarrow> nat list \<Rightarrow> bool" where
  "threads_inv old st0 s xs \<longleftrightarrow>
     queue_ok (sd s) xs \<and> (\<forall>jp. held (pp s) = Some jp \<longrightarrow> jp \<noteq> 0 \<and> jp \<notin> set xs \<and> jp < pbrk (sd s)) \<and>
     nextjob (sd s) = nextjob (advance (num s) st0) \<and>
     jobs_inv old (newjobs (num s) st0) (cls s) (accepted s) (ended s) (pjobs s xs) (pfiles (sd s)) \<and>
     (\<forall>jp out. pp s = P_end jp True out \<longrightarrow> sent_ok (accepted s) (jdat (jq (sd s)) jp) out)"

lemma set_file_fields [simp]: "pfiles (set_file nm d st) = (pfiles st)(nm := Some d)" "same_queue st (set_file nm d st)"
    "pfiles (unlink nm st) = (pfiles st)(nm := None)" "same_queue st (unlink nm st)"
  by (simp_all add: set_file_def unlink_def same_queue_def)

lemma same_queue_trans: "same_queue a b \<Longrightarrow> same_queue b c \<Longrightarrow> same_queue a c"
  by (simp add: same_queue_def)

lemma same_queue_refl [simp]: "same_queue a a"
  by (simp add: same_queue_def)

lemma same_queue_files: "same_queue a (unlink x (set_file y d a))" "same_queue a (unlink x (unlink y (set_file z d a)))" "same_queue a (set_file x d (set_file y e a))"
  by (simp_all add: same_queue_def set_file_def unlink_def)

text \<open>What a client does with its own files.\<close>

lemma client_step_own:
  assumes "client_step se env c st = Inr (c', st')" "c = C_num j r i \<or> c = C_open j r i \<or> c = C_spooled j r d" "cfiles (pfiles st) c"
  shows "same_queue st st' \<and> own_files j (pfiles st) (pfiles st') \<and> (cid c' = None \<or> cid c' = Some j \<and> \<not> told c' \<and> cfiles (pfiles st') c') \<and>
    note_client c c' s = s"
  using assms(2)
proof (elim disjE)
  assume c: "c = C_num j r i"
  then show ?thesis using assms(1) by (auto simp: own_files_def told_def split: option.splits)
next
  assume c: "c = C_open j r i"
  obtain x data where l: "spool_loop True (rflags r) (c_buf env) i (c_w1 env) [] = (x, data)" by fastforce
  then show ?thesis using assms(1) c same_queue_files by (cases x) (auto simp: own_files_def told_def)
next
  assume c: "c = C_spooled j r d"
  show ?thesis
  proof (cases "c_creat2 env")
    case (Some e)
    then show ?thesis using assms(1) c by (auto simp: own_files_def)
  next
    case None
    obtain x w where "sys_write (printreq_bytes r) (c_w2 env) = (x, w)" by fastforce
    then show ?thesis using assms(1,3) c None same_queue_files
      by (cases x) (auto simp: own_files_def told_def stored_def Let_def split: if_splits)
  qed
qed

lemma pjobs_queue: "same_queue (sd s) st' \<Longrightarrow> pjobs (s\<lparr>cls := x, sd := st'\<rparr>) xs = pjobs s xs"
  by (simp add: pjobs_def same_queue_def queued_def cong: option.case_cong)

text \<open>Each step keeps the invariant.\<close>

lemma threads_inv_own:
  assumes "threads_inv old st0 s xs" "cls s k = Some c" "client_step se env c (sd s) = Inr (c', st')"
    and "c = C_num j r i \<or> c = C_open j r i \<or> c = C_spooled j r d"
  shows "threads_inv old st0 (note_client c c' (s\<lparr>cls := (cls s)(k \<mapsto> c'), sd := st'\<rparr>)) xs"
proof -
  note I = assms(1) [unfolded threads_inv_def]
  then have J: "jobs_inv old (newjobs (num s) st0) (cls s) (accepted s) (ended s) (pjobs s xs) (pfiles (sd s))" by blast
  have c: "cid c = Some j" "\<not> told c" using assms(4) by (auto simp: told_def)
  have "cfiles (pfiles (sd s)) c" using J assms(2) c(1) unfolding jobs_inv_def client_ok_def by blast
  note o = client_step_own [OF assms(3,4) this]
  have "jobs_inv old (newjobs (num s) st0) ((cls s)(k \<mapsto> c')) (accepted s) (ended s) (pjobs s xs) (pfiles st')"
    by (rule jobs_inv_move [OF J assms(2) c]) (use o in auto)
  then show ?thesis using I o pjobs_queue [of s st' "(cls s)(k \<mapsto> c')" xs]
    by (auto simp: threads_inv_def same_queue_def queue_ok_def)
qed

lemma threads_inv_other:
  assumes "threads_inv old st0 s xs" "cid c' = None" "\<And>c. cls s k = Some c \<Longrightarrow> cid c = None" "same_queue (sd s) st'" "pfiles st' = pfiles (sd s)"
  shows "threads_inv old st0 (s\<lparr>cls := (cls s)(k \<mapsto> c'), sd := st'\<rparr>) xs"
proof -
  note I = assms(1) [unfolded threads_inv_def]
  then have J: "jobs_inv old (newjobs (num s) st0) (cls s) (accepted s) (ended s) (pjobs s xs) (pfiles (sd s))" by blast
  have "jobs_inv old (newjobs (num s) st0) ((cls s)(k \<mapsto> c')) (accepted s) (ended s) (pjobs s xs) (pfiles (sd s))"
    by (rule jobs_inv_new [OF J assms(2,3)])
  then show ?thesis using I assms(4,5) pjobs_queue [OF assms(4), of "(cls s)(k \<mapsto> c')" xs]
    by (auto simp: threads_inv_def same_queue_def queue_ok_def)
qed

lemma threads_inv_number:
  assumes "threads_inv old st0 s xs" "cls s k = Some (C_new inp)" "distinct (old @ newjobs N st0)" "num s < N"
  shows "threads_inv old st0 (s\<lparr>cls := (cls s)(k \<mapsto> C_num (nextjob (sd s)) r i), sd := snd (get_newjobno (sd s)), num := num s + 1\<rparr>) xs"
proof -
  note I = assms(1) [unfolded threads_inv_def]
  then have J: "jobs_inv old (newjobs (num s) st0) (cls s) (accepted s) (ended s) (pjobs s xs) (pfiles (sd s))" by blast
  have n: "nextjob (sd s) = nextjob (advance (num s) st0)" using I by blast
  have new: "nextjob (sd s) \<notin> set old \<union> set (newjobs (num s) st0)"
    using newjobs_split [OF assms(4), of st0] assms(3) n by auto
  have q: "jq (snd (get_newjobno (sd s))) = jq (sd s)" "pbrk (snd (get_newjobno (sd s))) = pbrk (sd s)" "pfiles (snd (get_newjobno (sd s))) = pfiles (sd s)"
    "nextjob (snd (get_newjobno (sd s))) = nextjob (snd (get_newjobno (advance (num s) st0)))"
    using n by (simp_all add: get_newjobno_def Let_def)
  have "jobs_inv old (newjobs (num s) st0 @ [nextjob (sd s)]) ((cls s)(k \<mapsto> C_num (nextjob (sd s)) r i)) (accepted s) (ended s) (pjobs s xs) (pfiles (sd s))"
    by (rule jobs_inv_number [OF J assms(2) _ new]) simp
  moreover have "newjobs (num s + 1) st0 = newjobs (num s) st0 @ [nextjob (sd s)]" "advance (num s + 1) st0 = snd (get_newjobno (advance (num s) st0))"
    using newjobs_Suc advance_Suc n by simp_all
  ultimately show ?thesis using I q by (simp add: threads_inv_def queue_ok_def pjobs_def queued_def cong: option.case_cong)
qed

lemma threads_inv_accept:
  assumes "threads_inv old st0 s xs" "cls s k = Some (C_ctl j r d)"
  shows "threads_inv old st0 (s\<lparr>cls := (cls s)(k \<mapsto> C_told j r d), sd := sd s, accepted := accepted s @ [(j, r, d)]\<rparr>) xs"
proof -
  note I = assms(1) [unfolded threads_inv_def]
  then have J: "jobs_inv old (newjobs (num s) st0) (cls s) (accepted s) (ended s) (pjobs s xs) (pfiles (sd s))" by blast
  have "jobs_inv old (newjobs (num s) st0) ((cls s)(k \<mapsto> C_told j r d)) (accepted s @ [(j, r, d)]) (ended s) (pjobs s xs) (pfiles (sd s))"
    using jobs_inv_accept [OF J assms(2)] by blast
  then show ?thesis using I by (auto simp: threads_inv_def pjobs_def intro: sent_ok_more cong: option.case_cong)
qed

lemma threads_inv_queue:
  assumes "threads_inv old st0 s xs" "cls s k = Some (C_told j r d)" "cid c' = None" "add_job (jq (sd s)) (pbrk (sd s)) (j, r) = Inr q"
  shows "threads_inv old st0 (s\<lparr>cls := (cls s)(k \<mapsto> c'), sd := (sd s)\<lparr>jq := q, pbrk := pbrk (sd s) + 1\<rparr>\<rparr>) (xs @ [pbrk (sd s)])"
proof -
  note I = assms(1) [unfolded threads_inv_def]
  then have J: "jobs_inv old (newjobs (num s) st0) (cls s) (accepted s) (ended s) (pjobs s xs) (pfiles (sd s))" by blast
  have o: "dlist (jq (sd s)) xs" "pbrk (sd s) \<noteq> 0" "pbrk (sd s) \<notin> set xs" "\<forall>x \<in> set xs. x < pbrk (sd s)" using I by (auto simp: queue_ok_def)
  have q: "dlist q (xs @ [pbrk (sd s)])" "jdat q = (jdat (jq (sd s)))(pbrk (sd s) := (j, r))"
    using add_job_dlist [OF o(1-3), of "(j, r)"] assms(4) by auto
  have h: "jp < pbrk (sd s)" if "held (pp s) = Some jp" for jp using I that by blast
  let ?s = "s\<lparr>cls := (cls s)(k \<mapsto> c'), sd := (sd s)\<lparr>jq := q, pbrk := pbrk (sd s) + 1\<rparr>\<rparr>"
  have e: "pjobs ?s (xs @ [pbrk (sd s)]) = pjobs s xs @ [(j, r)]"
    using q(2) h o(3) by (auto simp: pjobs_def queued_def split: option.splits)
  have "jobs_inv old (newjobs (num s) st0) ((cls s)(k \<mapsto> c')) (accepted s) (ended s) (pjobs s xs @ [(j, r)]) (pfiles (sd s))"
    using jobs_inv_queue [OF J assms(2,3)] by blast
  moreover have "queue_ok ((sd s)\<lparr>jq := q, pbrk := pbrk (sd s) + 1\<rparr>) (xs @ [pbrk (sd s)])"
    using q(1) o by (auto simp: queue_ok_def)
  moreover have "jp \<noteq> 0 \<and> jp \<notin> set (xs @ [pbrk (sd s)]) \<and> jp < pbrk (sd s) + 1" if "held (pp s) = Some jp" for jp
    using I h [OF that] that by auto
  moreover have "sent_ok (accepted s) (jdat q jp) out" if "pp s = P_end jp True out" for jp out
    using I that q(2) h [of jp] by auto
  ultimately show ?thesis using I e unfolding threads_inv_def by simp
qed

text \<open>A step of the printer thread that leaves list and files alone.\<close>

lemma threads_inv_printer:
  assumes "threads_inv old st0 s xs" "same_queue (sd s) st'" "pfiles st' = pfiles (sd s)" "held p' = held (pp s)"
    and "\<And>jp out. p' = P_end jp True out \<Longrightarrow> sent_ok (accepted s) (jdat (jq (sd s)) jp) out"
  shows "threads_inv old st0 (s\<lparr>pp := p', sd := st'\<rparr>) xs"
  using assms by (auto simp: threads_inv_def same_queue_def queue_ok_def pjobs_def queued_def cong: option.case_cong)

lemma threads_inv_pick:
  assumes "threads_inv old st0 s xs" "pp s = P_wait" "qhead (jq (sd s)) \<noteq> 0" "remove_job (jq (sd s)) (qhead (jq (sd s))) = Inr q"
  shows "\<exists>ys. threads_inv old st0 (s\<lparr>pp := P_got (qhead (jq (sd s))), sd := (sd s)\<lparr>jq := q\<rparr>\<rparr>) ys"
proof -
  note I = assms(1) [unfolded threads_inv_def]
  then obtain x ys where xs: "xs = x # ys" using assms(3) by (cases xs) (auto simp: queue_ok_def dlist_def)
  then have "queue_ok (sd s) (x # ys)" using I by simp
  from pop_job [OF this] assms(4) have r: "qhead (jq (sd s)) = x" "dlist q ys" "jdat q = jdat (jq (sd s))" "\<forall>y \<in> set ys. y < pbrk (sd s)"
      "pbrk (sd s) \<noteq> 0" "x \<noteq> 0" "x \<notin> set ys" "x < pbrk (sd s)" by auto
  have "pjobs (s\<lparr>pp := P_got x, sd := (sd s)\<lparr>jq := q\<rparr>\<rparr>) ys = pjobs s xs"
    using r(3) assms(2) xs by (simp add: pjobs_def queued_def)
  then show ?thesis using I r by (intro exI [of _ ys]) (simp add: threads_inv_def queue_ok_def)
qed

lemma held_job:
  assumes "threads_inv old st0 s xs" "held (pp s) = Some jp" "jdat (jq (sd s)) jp = (j, r)"
  shows "jobs_inv old (newjobs (num s) st0) (cls s) (accepted s) (ended s) ((j, r) # queued (sd s) xs) (pfiles (sd s))"
    "\<exists>d. (j, r, d) \<in> set (accepted s) \<and> stored (pfiles (sd s)) j r d"
proof -
  show J: "jobs_inv old (newjobs (num s) st0) (cls s) (accepted s) (ended s) ((j, r) # queued (sd s) xs) (pfiles (sd s))"
    using assms by (simp add: threads_inv_def pjobs_def)
  show "\<exists>d. (j, r, d) \<in> set (accepted s) \<and> stored (pfiles (sd s)) j r d"
    using J unfolding jobs_inv_def waiting_ok_def by (metis list.set_intros(1))
qed

lemma threads_inv_finish:
  assumes "threads_inv old st0 s xs" "held (pp s) = Some jp" "jdat (jq (sd s)) jp = (j, r)"
    and "same_queue (sd s) st'" "own_files j (pfiles (sd s)) (pfiles st')" "e \<in> {Printed, Canceled}" "e = Printed \<Longrightarrow> sent_ok (accepted s) (j, r) d"
  shows "threads_inv old st0 (s\<lparr>pp := P_wait, sd := st', ended := ended s @ [(j, d, e)]\<rparr>) xs"
proof -
  have "jobs_inv old (newjobs (num s) st0) (cls s) (accepted s) (ended s @ [(j, d, e)]) (queued (sd s) xs) (pfiles st')"
    by (rule jobs_inv_finish [OF held_job(1) [OF assms(1-3)] assms(5,6)]) (rule assms(7))
  then show ?thesis using assms(1,4) by (simp add: threads_inv_def pjobs_def same_queue_def queue_ok_def queued_def)
qed

lemma threads_inv_defer:
  assumes "threads_inv old st0 s xs" "held (pp s) = Some jp" "replace_job (jq (sd s)) jp = Inr q"
  shows "threads_inv old st0 (s\<lparr>pp := P_wait, sd := (sd s)\<lparr>jq := q\<rparr>\<rparr>) (jp # xs)"
proof -
  note I = assms(1) [unfolded threads_inv_def]
  then have h: "jp \<noteq> 0" "jp \<notin> set xs" "jp < pbrk (sd s)" "dlist (jq (sd s)) xs" using assms(2) by (auto simp: queue_ok_def)
  then have q: "dlist q (jp # xs)" "jdat q = jdat (jq (sd s))" using replace_job_dlist [OF h(4,1,2)] assms(3) by auto
  have "pjobs (s\<lparr>pp := P_wait, sd := (sd s)\<lparr>jq := q\<rparr>\<rparr>) (jp # xs) = pjobs s xs" using assms(2) q(2) by (simp add: pjobs_def queued_def)
  then show ?thesis using I h q(1) by (simp add: threads_inv_def queue_ok_def)
qed

lemma printer_step_inv:
  assumes "threads_inv old st0 s xs" "printer_step n env (pp s) (sd s) = Inr (p', st', e)"
  shows "\<exists>ys. threads_inv old st0 (note_printer (pp s) e (s\<lparr>pp := p', sd := st'\<rparr>)) ys"
proof (cases "pp s")
  case P_wait
  then show ?thesis
    using assms threads_inv_printer [OF assms(1), of "sd s" P_wait] threads_inv_pick [OF assms(1)]
    by (auto simp: bnd_eq_Inr_iff split: if_splits)
next
  case (P_got jp)
  then obtain st1 where u: "update_jobno (p_seek env) (p_jobw env) (sd s) = Inr st1" "p' = P_cfg jp" "st' = st1" "e = None"
    using assms(2) by (auto simp: bnd_eq_Inr_iff)
  then show ?thesis using P_got threads_inv_printer [OF assms(1), of st1 "P_cfg jp"] update_jobno_fields [OF u(1)]
    by (auto simp: same_queue_def)
next
  case (P_cfg jp)
  then have e: "note_printer (pp s) e x = x" for x by (cases e) auto
  have k: "threads_inv old st0 (s\<lparr>pp := q, sd := st'\<rparr>) xs" if "q = P_open jp \<or> q = P_exit jp" "same_queue (sd s) st'" "pfiles st' = pfiles (sd s)" for q
    using threads_inv_printer [OF assms(1) that(2,3), of q] P_cfg that(1) by auto
  have "(p' = P_open jp \<or> p' = P_exit jp) \<and> same_queue (sd s) st' \<and> pfiles st' = pfiles (sd s)"
    using assms(2) P_cfg by (auto simp: same_queue_def split: if_splits option.splits)
  then show ?thesis using k [of p'] e by auto
next
  case (P_open jp)
  obtain j r where j: "jdat (jq (sd s)) jp = (j, r)" by fastforce
  have h: "held (pp s) = Some jp" using P_open by simp
  obtain d where d: "(j, r, d) \<in> set (accepted s)" "pfiles (sd s) (data_name j) = Some d"
    using held_job(2) [OF assms(1) h j] by (auto simp: stored_def)
  have st: "st' = sd s" "p' = P_wait \<and> e = Some (Canceled, []) \<or>
      (\<exists>ok out. p' = P_end jp ok out \<and> e = None \<and> (ok \<longrightarrow> out = printed_bytes (printer_name (sd s)) j r d))"
    using assms(2) P_open j d(2) by (auto simp: bnd_eq_Inr_iff dest!: send_job_sent split: if_splits)
  have "threads_inv old st0 (s\<lparr>pp := P_wait, sd := sd s, ended := ended s @ [(j, [], Canceled)]\<rparr>) xs"
    by (rule threads_inv_finish [OF assms(1) h j]) simp_all
  moreover have "threads_inv old st0 (s\<lparr>pp := P_end jp ok out, sd := sd s\<rparr>) xs"
    if "ok \<longrightarrow> out = printed_bytes (printer_name (sd s)) j r d" for ok out
    by (rule threads_inv_printer [OF assms(1)]) (use P_open j d(1) that in \<open>auto simp: sent_ok_def\<close>)
  ultimately show ?thesis using st P_open j by (auto intro!: exI [of _ xs])
next
  case (P_end jp ok out)
  obtain j r where j: "jdat (jq (sd s)) jp = (j, r)" by fastforce
  have h: "held (pp s) = Some jp" using P_end by simp
  have a: "ok \<Longrightarrow> sent_ok (accepted s) (j, r) out" using assms(1) P_end j by (auto simp: threads_inv_def)
  show ?thesis
  proof (cases ok)
    case True
    let ?st = "unlink (req_name j) (unlink (data_name j) (sd s))"
    have "threads_inv old st0 (s\<lparr>pp := P_wait, sd := ?st, ended := ended s @ [(j, out, Printed)]\<rparr>) xs"
      by (rule threads_inv_finish [OF assms(1) h j]) (use a [OF True] in \<open>simp_all add: own_files_def same_queue_def unlink_def\<close>)
    then show ?thesis using assms(2) P_end j True by (auto simp: unlink_def)
  next
    case False
    then obtain q where "replace_job (jq (sd s)) jp = Inr q" "p' = P_wait" "st' = (sd s)\<lparr>jq := q\<rparr>" "e = Some (Deferred, out)"
      using assms(2) P_end j by (auto simp: bnd_eq_Inr_iff)
    then show ?thesis using threads_inv_defer [OF assms(1) h] P_end by auto
  qed
next
  case (P_exit jp)
  then have "note_printer (pp s) e (s\<lparr>pp := p', sd := st'\<rparr>) = s" using assms(2) by auto
  then show ?thesis using assms(1) by auto
qed

lemma client_step_inv:
  assumes "threads_inv old st0 s xs" "cls s k = Some c" "client_step se env c (sd s) = Inr (c', st')"
    and "distinct (old @ newjobs N st0)" "num (note_client c c' (s\<lparr>cls := (cls s)(k \<mapsto> c'), sd := st'\<rparr>)) \<le> N"
  shows "\<exists>ys. threads_inv old st0 (note_client c c' (s\<lparr>cls := (cls s)(k \<mapsto> c'), sd := st'\<rparr>)) ys"
proof (cases c)
  case (C_new inp)
  have "(\<exists>r. c' = C_done r \<and> st' = sd s) \<or> (\<exists>r i. c' = C_num (nextjob (sd s)) r i \<and> st' = snd (get_newjobno (sd s)))"
    using assms(3) C_new by (auto simp: get_newjobno_def Let_def split: prod.splits option.splits if_splits)
  then show ?thesis
  proof (elim disjE exE conjE)
    fix r assume "c' = C_done r" "st' = sd s"
    then show ?thesis using threads_inv_other [OF assms(1), of c' k "sd s"] C_new assms(2) by auto
  next
    fix r i assume c': "c' = C_num (nextjob (sd s)) r i" "st' = snd (get_newjobno (sd s))"
    then have "num s < N" using assms(5) C_new by simp
    from threads_inv_number [OF assms(1) assms(2) [unfolded C_new] assms(4) this, of r i]
    show ?thesis using c' C_new by (auto simp: add.commute)
  qed
next
  case (C_num j r i)
  then show ?thesis using threads_inv_own [OF assms(1-3)] by blast
next
  case (C_open j r i)
  then show ?thesis using threads_inv_own [OF assms(1-3)] by blast
next
  case (C_spooled j r d)
  then show ?thesis using threads_inv_own [OF assms(1-3)] by blast
next
  case (C_ctl j r d)
  then show ?thesis using threads_inv_accept [OF assms(1) assms(2) [unfolded C_ctl]] assms(3) by auto
next
  case (C_told j r d)
  then obtain q where "add_job (jq (sd s)) (pbrk (sd s)) (j, r) = Inr q" "c' = C_done (accept_resp (c_msg env) j)"
      "st' = (sd s)\<lparr>jq := q, pbrk := pbrk (sd s) + 1\<rparr>" using assms(3) by (auto simp: bnd_eq_Inr_iff)
  then show ?thesis using threads_inv_queue [OF assms(1) assms(2) [unfolded C_told], of c' q] C_told by auto
next
  case (C_done r)
  then show ?thesis using threads_inv_other [OF assms(1), of c' k "sd s"] assms(2,3) by auto
qed

lemma note_fields [simp]: "num s \<le> num (note_client c c' s)" "num (note_printer p e s) = num s"
proof -
  show "num s \<le> num (note_client c c' s)" by (cases "(c, c', s)" rule: note_client.cases) auto
  show "num (note_printer p e s) = num s" by (cases "(p, e, s)" rule: note_printer.cases) auto
qed

lemma threads_step_num: "threads_step se n s t \<Longrightarrow> num s \<le> num t"
  by (induction rule: threads_step.induct) (auto intro: order_trans [OF _ note_fields(1)])

lemma threads_step_inv:
  assumes "threads_step se n s t" "threads_inv old st0 s xs" "distinct (old @ newjobs N st0)" "num t \<le> N"
  shows "\<exists>ys. threads_inv old st0 t ys"
  using assms(1)
proof cases
  case (connect k inp)
  then show ?thesis using threads_inv_other [OF assms(2), of "C_new inp" k "sd s"] by auto
next
  case (client k c env c' st')
  then show ?thesis using client_step_inv [OF assms(2) client(3,4) assms(3)] assms(4) by auto
next
  case (printer env p' st' e)
  then show ?thesis using printer_step_inv [OF assms(2) printer(3)] by auto
next
  case hup
  then show ?thesis using threads_inv_printer [OF assms(2), of "(sd s)\<lparr>reread := True\<rparr>" "pp s"] assms(2)
    by (auto simp: same_queue_def threads_inv_def)
qed

lemma threads_reach_inv:
  assumes "threads_reach se n s0 s" "threads_inv old st0 s0 xs" "distinct (old @ newjobs N st0)" "num s \<le> N"
  shows "\<exists>ys. threads_inv old st0 s ys"
  using assms(1,4)
proof (induction rule: threads_reach.induct)
  case start
  then show ?case using assms(2) by blast
next
  case (step s t)
  have "num s \<le> N" using threads_step_num [OF step(2)] step.prems by simp
  then obtain ys where "threads_inv old st0 s ys" using step.IH by blast
  then show ?case using threads_step_inv [OF step(2) _ assms(3) step.prems] by blast
qed

text \<open>
  The start: no client yet, the printer thread waiting, the queue as \<^verbatim>\<open>build_qonstart\<close> left it; its jobs count as accepted with the data that the
  spool directory has for them.
\<close>

definition threads_start :: "printd \<Rightarrow> nat list \<Rightarrow> (32 word \<times> printreq \<times> string) list \<Rightarrow> psys \<Rightarrow> bool" where
  "threads_start st0 xs jobs0 s \<longleftrightarrow>
     s = \<lparr>sd = st0, cls = Map.empty, pp = P_wait, num = 0, accepted = jobs0, ended = []\<rparr> \<and> queue_ok st0 xs \<and>
     queued st0 xs = map (\<lambda>(j, r, d). (j, r)) jobs0 \<and> (\<forall>(j, r, d) \<in> set jobs0. stored (pfiles st0) j r d)"

lemma threads_start_inv:
  assumes "threads_start st0 xs jobs0 s" "distinct (map fst jobs0)"
  shows "threads_inv (map fst jobs0) st0 s xs"
proof -
  note s = assms(1) [unfolded threads_start_def]
  have "map fst (map (\<lambda>(j, r, d). (j, r)) jobs0) = map fst jobs0" by (induction jobs0) auto
  then have d: "distinct (map fst (queued st0 xs))" using s assms(2) by metis
  have w: "waiting_ok jobs0 (queued st0 xs) (pfiles st0)"
    unfolding waiting_ok_def
  proof (intro allI impI)
    fix j r assume "(j, r) \<in> set (queued st0 xs)"
    then obtain d where "(j, r, d) \<in> set jobs0" using s by auto
    then show "\<exists>d. (j, r, d) \<in> set jobs0 \<and> stored (pfiles st0) j r d" using s by fastforce
  qed
  have p: "placed Map.empty jobs0 [] (queued st0 xs)" unfolding placed_def using s by force
  have "jobs_inv (map fst jobs0) [] Map.empty jobs0 [] (queued st0 xs) (pfiles st0)"
    using assms(2) d w p by (simp add: jobs_inv_def ended_ok_def apart_def)
  then show ?thesis using s by (simp add: threads_inv_def pjobs_def)
qed

text \<open>A step of a client or of the printer thread follows no null pointer.\<close>

lemma client_step_total:
  assumes "threads_inv old st0 s xs"
  shows "client_step se env c (sd s) \<noteq> Inl f"
proof (cases c)
  case (C_told j r d)
  have "dlist (jq (sd s)) xs" "pbrk (sd s) \<noteq> 0" "pbrk (sd s) \<notin> set xs" using assms by (auto simp: threads_inv_def queue_ok_def)
  then show ?thesis using add_job_dlist [of "jq (sd s)" xs "pbrk (sd s)" "(j, r)"] C_told by auto
qed (auto simp: get_newjobno_def Let_def split: prod.splits option.splits sum.splits)

text \<open>An accepted job that has not ended is in exactly one place, and its files are complete.\<close>

lemma jobs_inv_accepted:
  assumes J: "jobs_inv old iss cl acc fin jobs fs" and a: "(j, r, d) \<in> set acc" "\<forall>x e. (j, x, e) \<notin> set fin"
  shows "fs (data_name j) = Some d \<and> fs (req_name j) = Some (printreq_bytes r) \<and> ((\<exists>!k. cl k = Some (C_told j r d)) \<noteq> ((j, r) \<in> set jobs))"
proof -
  note J' = J [unfolded jobs_inv_def]
  have once: "r' = r \<and> d' = d" if "(j, r, d) \<in> set acc" "(j, r', d') \<in> set acc" for j r d r' d'
    using J' that eq_key_imp_eq_value [of "acc" j "(r, d)" "(r', d')"] by simp
  have "j \<notin> ids fin" using idsE [of j "fin"] a(2) by fastforce
  then have pl: "(\<exists>k. cl k = Some (C_told j r d)) \<or> (j, r) \<in> set jobs" using J' a(1) unfolding placed_def by blast
  have w: "stored fs j r d" if q: "(j, r) \<in> set jobs"
  proof -
    obtain d' where "(j, r, d') \<in> set acc" "stored fs j r d'" using J' q unfolding waiting_ok_def by blast
    then show ?thesis using once [OF a(1)] by blast
  qed
  have c: "stored fs j r d \<and> (j, r) \<notin> set jobs" if k: "cl k = Some (C_told j r d)" for k
  proof -
    have "client_ok iss acc fin jobs fs (C_told j r d) j" using J' k by force
    then show ?thesis using idsI [of j r "jobs"] by (auto simp: client_ok_def)
  qed
  have "k = k'" if "cl k = Some (C_told j r d)" "cl k' = Some (C_told j r d)" for k k'
    using J' that unfolding apart_def by (metis cid.simps(5))
  then show ?thesis using pl w c unfolding stored_def by blast
qed

text \<open>
  C19: The threads of the print daemon together. In every state that clients, their threads, the printer thread and \<^verbatim>\<open>SIGHUP\<close> can bring about in any
  interleaving, with any failures, as long as job numbers do not repeat: no job is accepted twice or ends twice; for a job that was printed the printer has got
  the headers and exactly the data that were stored when it was accepted, nothing else; and an accepted job that has not ended is with its client's thread (which will queue it), in the queue or with the printer thread, in exactly one
  of these places, and both its files are complete on disk, so that a restart finds it. No thread that serves a client follows a null pointer.
\<close>

theorem printd_threads_safe:
  assumes "threads_reach se n s0 s" "threads_start st0 xs jobs0 s0" "distinct (map fst jobs0 @ newjobs N st0)" "num s \<le> N"
  shows "\<exists>ys. queue_ok (sd s) ys \<and> distinct (map fst (pjobs s ys)) \<and>
    distinct (map fst (accepted s)) \<and> distinct (map fst (ended s)) \<and>
    (\<forall>j out e. (j, out, e) \<in> set (ended s) \<longrightarrow> (\<exists>r d. (j, r, d) \<in> set (accepted s) \<and> (e = Printed \<longrightarrow>
       (\<exists>pn b. b = ipp_bytes j (job_uri pn) r @ text_mark r @ d \<and> out = http_text pn (length b) @ b)))) \<and>
    (\<forall>j r d. (j, r, d) \<in> set (accepted s) \<longrightarrow> (\<forall>x e. (j, x, e) \<notin> set (ended s)) \<longrightarrow>
       pfiles (sd s) (data_name j) = Some d \<and> pfiles (sd s) (req_name j) = Some (printreq_bytes r) \<and>
       ((\<exists>!k. cls s k = Some (C_told j r d)) \<noteq> ((j, r) \<in> set (pjobs s ys)))) \<and>
    (\<forall>k c env f. cls s k = Some c \<longrightarrow> client_step se env c (sd s) \<noteq> Inl f)"
proof -
  have "distinct (map fst jobs0)" using assms(3) by simp
  from threads_reach_inv [OF assms(1) threads_start_inv [OF assms(2) this] assms(3,4)]
  obtain ys where I: "threads_inv (map fst jobs0) st0 s ys" by blast
  then have J: "jobs_inv (map fst jobs0) (newjobs (num s) st0) (cls s) (accepted s) (ended s) (pjobs s ys) (pfiles (sd s))"
    by (simp add: threads_inv_def)
  note J' = J [unfolded jobs_inv_def]
  note acc = jobs_inv_accepted [OF J]
  have fin: "\<exists>r d. (j, r, d) \<in> set (accepted s) \<and> (e = Printed \<longrightarrow>
       (\<exists>pn b. b = ipp_bytes j (job_uri pn) r @ text_mark r @ d \<and> out = http_text pn (length b) @ b))" if "(j, out, e) \<in> set (ended s)" for j out e
    using J' that unfolding ended_ok_def printed_bytes_def job_body_def by blast
  have q: "queue_ok (sd s) ys" using I by (simp add: threads_inv_def)
  show ?thesis using q J' fin acc client_step_total [OF I] by (intro exI [of _ ys]) blast
qed

text \<open>A job found at the start is taken by the printer thread while a client connects.\<close>

definition ex_psys :: psys where
  "ex_psys = \<lparr>sd = ex_queue, cls = Map.empty, pp = P_wait, num = 0, accepted = [(7, ex_req, ''hi'')], ended = []\<rparr>"

theorem printd_threads_safe_witness:
  "\<exists>s. threads_reach (\<lambda>_. []) 5 ex_psys s \<and> cls s 3 = Some (C_new [RTimeout]) \<and> pp s = P_got 1 \<and> queue_ok (sd s) [] \<and>
     pfiles (sd s) (data_name 7) = Some ''hi'' \<and> pfiles (sd s) (req_name 7) = Some (printreq_bytes ex_req)"
proof -
  obtain q where q: "remove_job (jq ex_queue) 1 = Inr q" "qhead (jq ex_queue) = 1" "dlist q []" using pop_job [OF ex_queue_ok(1)] by auto
  let ?s1 = "ex_psys\<lparr>cls := (cls ex_psys)(3 \<mapsto> C_new [RTimeout])\<rparr>"
  let ?s2 = "?s1\<lparr>pp := P_got 1, sd := ex_queue\<lparr>jq := q\<rparr>\<rparr>"
  have "printer_step 5 ex_penv (pp ?s1) (sd ?s1) = Inr (P_got 1, ex_queue\<lparr>jq := q\<rparr>, None)" using q by (simp add: ex_psys_def)
  from threads_step.printer [OF _ this, of "\<lambda>_. []"] have "threads_step (\<lambda>_. []) 5 ?s1 ?s2" by (simp add: running_def ex_psys_def)
  moreover have "threads_reach (\<lambda>_. []) 5 ex_psys ?s1"
    by (rule threads_reach.step [OF threads_reach.start threads_step.connect]) (simp_all add: ex_psys_def running_def)
  ultimately have 2: "threads_reach (\<lambda>_. []) 5 ex_psys ?s2" by (rule threads_reach.step [rotated])
  have f: "pfiles ex_queue (req_name 7) = Some (printreq_bytes ex_req)" by (simp add: ex_queue_def)
  have "queued ex_queue [1] = [(7, ex_req)]" using ex_queue_ok(2) by (simp add: queued_def)
  then have st: "threads_start ex_queue [1] [(7, ex_req, ''hi'')] ex_psys"
    using ex_queue_ok f by (simp add: threads_start_def ex_psys_def stored_def)
  have "distinct (map fst [(7 :: 32 word, ex_req, ''hi'')] @ newjobs 0 ex_queue)" "num ?s2 \<le> 0" by (simp_all add: ex_psys_def)
  from printd_threads_safe [OF 2 st this]
  have "pfiles (sd ?s2) (data_name 7) = Some ''hi'' \<and> pfiles (sd ?s2) (req_name 7) = Some (printreq_bytes ex_req)"
    by (auto simp: ex_psys_def)
  moreover have "queue_ok (sd ?s2) []" using q(3) ex_queue_ok(1) by (simp add: queue_ok_def)
  ultimately show ?thesis using 2 by (intro exI [of _ ?s2]) (simp add: ex_psys_def)
qed

end
