(* ===== verification/Print_Main.thy ===== *)
theory Print_Main
  imports Print_Threads Daemon Net_Process
begin

text \<open>
  The main function of the print daemon (\<^verbatim>\<open>printer/printd.c\<close>): becoming a daemon, the sockets it listens on, giving up the privileges, the job number and the queue from
  the spool directory, the threads, and the loop that accepts connections. A daemon that is started after another one has died at any point,
  with its threads anywhere, has all jobs that were accepted and not done with.
\<close>

section \<open>The sockets\<close>


section \<open>Starting\<close>






section \<open>Accepting connections\<close>


section \<open>What starting gives\<close>








section \<open>Requests are whole\<close>










end
