(* ===== verification/Rot13.thy ===== *)
theory Rot13
  imports Prelude
begin

text \<open>
  Copying a file while changing its letters, with one operation after the other (\<^verbatim>\<open>advio/rot13a.c\<close>) and with eight operations of
  asynchronous I/O at a time (\<^verbatim>\<open>advio/rot13c2.c.in\<close>). The kernel completes the operations of the second program
  in any order between its steps; it ends, and leaves the same files as the first.
\<close>

section \<open>Bytes and files\<close>

definition isalpha :: "char \<Rightarrow> bool" where
  "isalpha c \<longleftrightarrow> (let n = of_char c :: nat in 65 \<le> n \<and> n \<le> 90 \<or> 97 \<le> n \<and> n \<le> 122)"

definition translate :: "char \<Rightarrow> char" where
  "translate c =
     (if isalpha c
      then let n = of_char c :: nat
           in char_of (if 110 \<le> n then n - 13 else if 97 \<le> n then n + 13 else if 78 \<le> n then n - 13 else n + 13)
      else c)"

text \<open>A file system: names for numbered files, so that two names may be the same file.\<close>

record rfs =
  nodes :: "string \<Rightarrow> nat option"
  conts :: "nat \<Rightarrow> string"
  newino :: nat

definition rfs_ok :: "rfs \<Rightarrow> bool" where
  "rfs_ok fs \<longleftrightarrow> (\<forall>p i. nodes fs p = Some i \<longrightarrow> i < newino fs)"

definition open_trunc :: "string \<Rightarrow> rfs \<Rightarrow> nat \<times> rfs" where
  "open_trunc p fs =
     (case nodes fs p of
        Some i \<Rightarrow> (i, fs\<lparr>conts := (conts fs)(i := [])\<rparr>)
      | None \<Rightarrow> (newino fs, fs\<lparr>nodes := (nodes fs)(p \<mapsto> newino fs), conts := (conts fs)(newino fs := []), newino := newino fs + 1\<rparr>))"

text \<open>Both programs open their files in the same way. \<open>e1\<close>, \<open>e2\<close>: whether the calls fail for other reasons.\<close>

definition open_files :: "errno option \<Rightarrow> errno option \<Rightarrow> string list \<Rightarrow> rfs \<Rightarrow> (nat \<times> nat \<times> rfs) res" where
  "open_files e1 e2 argv fs =
     (if length argv \<noteq> 3 then Inl (Err_quit ''usage: rot13 infile outfile'')
      else case (if e1 = None then nodes fs (argv ! 1) else None) of
             None \<Rightarrow> Inl (Err_sys ''can't open'')
           | Some ifd \<Rightarrow> if e2 \<noteq> None then Inl (Err_sys ''can't create'') else case open_trunc (argv ! 2) fs of (ofd, fs') \<Rightarrow> Inr (ifd, ofd, fs'))"

section \<open>One operation after the other\<close>

definition BSZ :: nat where "BSZ = 4096"

datatype ioans = Io_full | Io_part nat | Io_fail errno

text \<open>A read at a position: nothing only at the end, otherwise at least one byte.\<close>

definition io_read :: "nat \<Rightarrow> string \<Rightarrow> ioans list \<Rightarrow> string option \<times> ioans list" where
  "io_read pos d rs =
     (case rs of
        [] \<Rightarrow> (Some (take BSZ (drop pos d)), [])
      | Io_full # r \<Rightarrow> (Some (take BSZ (drop pos d)), r)
      | Io_part k # r \<Rightarrow> (Some (take (min BSZ (k + 1)) (drop pos d)), r)
      | Io_fail e # r \<Rightarrow> (None, r))"

definition io_write :: "nat \<Rightarrow> string \<Rightarrow> string \<Rightarrow> ioans list \<Rightarrow> nat option \<times> string \<times> ioans list" where
  "io_write pos b d ws =
     (case ws of
        [] \<Rightarrow> (Some (length b), fsplice d pos b, [])
      | Io_full # w \<Rightarrow> (Some (length b), fsplice d pos b, w)
      | Io_part k # w \<Rightarrow> (Some (min k (length b)), fsplice d pos (take k b), w)
      | Io_fail e # w \<Rightarrow> (None, d, w))"

text \<open>A read that fails ends the loop like the end of the file.\<close>

fun rot_loop :: "nat \<Rightarrow> nat \<Rightarrow> nat \<Rightarrow> nat \<Rightarrow> nat \<Rightarrow> ioans list \<Rightarrow> ioans list \<Rightarrow> rfs \<Rightarrow> rfs res" where
  "rot_loop 0 ifd ofd ip out rs ws fs = Inl Diverges"
| "rot_loop (Suc n) ifd ofd ip out rs ws fs =
     (case io_read ip (conts fs ifd) rs of
        (None, _) \<Rightarrow> Inr fs
      | (Some b, rs') \<Rightarrow>
          if b = [] then Inr fs
          else case io_write out (map translate b) (conts fs ofd) ws of
                 (None, _) \<Rightarrow> Inl (Err_sys ''write failed'')
               | (Some nw, d, ws') \<Rightarrow>
                   if nw \<noteq> length b then Inl (Err_quit ''short write'')
                   else rot_loop n ifd ofd (ip + length b) (out + nw) rs' ws' (fs\<lparr>conts := (conts fs)(ofd := d)\<rparr>))"

definition rot13a :: "nat \<Rightarrow> errno option \<Rightarrow> errno option \<Rightarrow> ioans list \<Rightarrow> ioans list \<Rightarrow> string list \<Rightarrow> rfs \<Rightarrow> rfs res" where
  "rot13a n e1 e2 rs ws argv fs = bnd (open_files e1 e2 argv fs) (\<lambda>(ifd, ofd, fs'). rot_loop n ifd ofd 0 0 rs ws fs')"

section \<open>Many operations at a time\<close>

definition NBUF :: nat where "NBUF = 8"

datatype rwop = UNUSED | READ_PENDING | WRITE_PENDING

text \<open>The state of an operation in the kernel, and a buffer with its control block; \<open>alisted\<close> says whether it is in \<^verbatim>\<open>aiolist\<close>.\<close>

datatype astat = A_idle | A_inprogress | A_done nat | A_failed errno

record abuf =
  aop :: rwop
  alast :: bool
  adata :: string
  afd :: nat
  aoff :: nat
  anb :: nat
  astat :: astat
  alisted :: bool

record rot =
  r_bufs :: "nat \<Rightarrow> abuf"
  r_numop :: nat
  r_off :: nat
  r_size :: nat
  r_ifd :: nat
  r_ofd :: nat
  r_fs :: rfs

definition set_buf :: "nat \<Rightarrow> abuf \<Rightarrow> rot \<Rightarrow> rot" where
  "set_buf i b s = s\<lparr>r_bufs := (r_bufs s)(i := b)\<rparr>"

text \<open>The beginning of \<^verbatim>\<open>main\<close>, up to its loop.\<close>

definition rot_start :: "errno option \<Rightarrow> errno option \<Rightarrow> errno option \<Rightarrow> string list \<Rightarrow> rfs \<Rightarrow> rot res" where
  "rot_start e1 e2 e3 argv fs =
     bnd (open_files e1 e2 argv fs) (\<lambda>(ifd, ofd, fs').
     if e3 \<noteq> None then Inl (Err_sys ''fstat failed'')
     else Inr \<lparr>r_bufs = (\<lambda>_. \<lparr>aop = UNUSED, alast = False, adata = replicate BSZ NUL, afd = 0, aoff = 0, anb = 0, astat = A_idle, alisted = False\<rparr>),
               r_numop = 0, r_off = 0, r_size = length (conts fs' ifd), r_ifd = ifd, r_ofd = ofd, r_fs = fs'\<rparr>)"

text \<open>The \<^verbatim>\<open>switch\<close> for one buffer. \<open>q\<close>: the error with which \<^verbatim>\<open>aio_read\<close> or \<^verbatim>\<open>aio_write\<close> refuses to take an operation.\<close>

definition slot :: "errno option \<Rightarrow> nat \<Rightarrow> rot \<Rightarrow> rot res" where
  "slot q i s =
     (let b = r_bufs s i
      in case aop b of
           UNUSED \<Rightarrow>
             if r_off s < r_size s
             then if q \<noteq> None then Inl (Err_sys ''aio_read failed'')
                  else let nx = r_off s + BSZ
                       in Inr (set_buf i (b\<lparr>aop := READ_PENDING, afd := r_ifd s, aoff := r_off s, alast := (if r_size s \<le> nx then True else alast b),
                                            anb := BSZ, astat := A_inprogress, alisted := True\<rparr>)
                                (s\<lparr>r_off := nx, r_numop := r_numop s + 1\<rparr>))
             else Inr s
         | READ_PENDING \<Rightarrow>
             (case astat b of
                A_inprogress \<Rightarrow> Inr s
              | A_idle \<Rightarrow> Inl (Err_sys ''aio_error failed'')
              | A_failed e \<Rightarrow> Inl (Err_exit e ''read failed'')
              | A_done n \<Rightarrow>
                  if n \<noteq> BSZ \<and> \<not> alast b then Inl (Err_quit ''short read'')
                  else if q \<noteq> None then Inl (Err_sys ''aio_write failed'')
                  else Inr (set_buf i (b\<lparr>adata := map translate (take n (adata b)) @ drop n (adata b), aop := WRITE_PENDING, afd := r_ofd s,
                                         anb := n, astat := A_inprogress\<rparr>) s))
         | WRITE_PENDING \<Rightarrow>
             (case astat b of
                A_inprogress \<Rightarrow> Inr s
              | A_idle \<Rightarrow> Inl (Err_sys ''aio_error failed'')
              | A_failed e \<Rightarrow> Inl (Err_exit e ''write failed'')
              | A_done n \<Rightarrow>
                  if n \<noteq> anb b then Inl (Err_quit ''short write'')
                  else Inr (set_buf i (b\<lparr>aop := UNUSED, astat := A_idle, alisted := False\<rparr>) (s\<lparr>r_numop := r_numop s - 1\<rparr>))))"

text \<open>
  What the kernel does for a buffer that waits: a read gives what the file has at the offset; a write stores all bytes or, when there is no room, the first \<open>k\<close>; or
  the operation fails.
\<close>

definition kread :: "nat \<Rightarrow> rot \<Rightarrow> rot" where
  "kread i s =
     (let b = r_bufs s i; d = take (anb b) (drop (aoff b) (conts (r_fs s) (afd b)))
      in set_buf i (b\<lparr>adata := d @ drop (length d) (adata b), astat := A_done (length d)\<rparr>) s)"

definition kwrite :: "nat \<Rightarrow> nat \<Rightarrow> rot \<Rightarrow> rot" where
  "kwrite k i s =
     (let b = r_bufs s i; d = take (min k (anb b)) (adata b); fs = r_fs s
      in set_buf i (b\<lparr>astat := A_done (min k (anb b))\<rparr>) (s\<lparr>r_fs := fs\<lparr>conts := (conts fs)(afd b := fsplice (conts fs (afd b)) (aoff b) d)\<rparr>\<rparr>))"

text \<open>Where the program is: before the buffer of a number, waiting in \<^verbatim>\<open>aio_suspend\<close>, or at its end.\<close>

datatype rpc = At nat | Suspended | Synced | Stopped fatal

inductive rot_step :: "rpc \<times> rot \<Rightarrow> rpc \<times> rot \<Rightarrow> bool" where
  slot: "i < NBUF \<Longrightarrow> slot q i s = Inr s' \<Longrightarrow> rot_step (At i, s) (At (i + 1), s')"
| slot_fails: "i < NBUF \<Longrightarrow> slot q i s = Inl f \<Longrightarrow> rot_step (At i, s) (Stopped f, s)"
| finish: "r_numop s = 0 \<Longrightarrow> r_size s \<le> r_off s \<Longrightarrow> rot_step (At NBUF, s) (if (er :: errno option) = None then Synced else Stopped (Err_sys ''aio_fsync failed''), s)"
| again: "r_numop s = 0 \<Longrightarrow> r_off s < r_size s \<Longrightarrow> rot_step (At NBUF, s) (At 0, s)"
| suspend: "r_numop s \<noteq> 0 \<Longrightarrow> rot_step (At NBUF, s) (Suspended, s)"
| wake: "i < NBUF \<Longrightarrow> alisted (r_bufs s i) \<Longrightarrow> astat (r_bufs s i) \<noteq> A_inprogress \<Longrightarrow> rot_step (Suspended, s) (At 0, s)"
| suspend_fails: "rot_step (Suspended, s) (Stopped (Err_sys ''aio_suspend failed''), s)"
| read_done: "i < NBUF \<Longrightarrow> astat (r_bufs s i) = A_inprogress \<Longrightarrow> aop (r_bufs s i) = READ_PENDING \<Longrightarrow> pc = Suspended \<or> pc = At j \<Longrightarrow>
    rot_step (pc, s) (pc, kread i s)"
| write_done: "i < NBUF \<Longrightarrow> astat (r_bufs s i) = A_inprogress \<Longrightarrow> aop (r_bufs s i) = WRITE_PENDING \<Longrightarrow> pc = Suspended \<or> pc = At j \<Longrightarrow>
    rot_step (pc, s) (pc, kwrite k i s)"
| op_fails: "i < NBUF \<Longrightarrow> astat (r_bufs s i) = A_inprogress \<Longrightarrow> aop (r_bufs s i) \<noteq> UNUSED \<Longrightarrow> pc = Suspended \<or> pc = At j \<Longrightarrow>
    rot_step (pc, s) (pc, set_buf i ((r_bufs s i)\<lparr>astat := A_failed e\<rparr>) s)"

inductive rot_reach :: "rpc \<times> rot \<Rightarrow> rpc \<times> rot \<Rightarrow> bool" for c0 where
  start: "rot_reach c0 c0"
| step: "rot_reach c0 c \<Longrightarrow> rot_step c c' \<Longrightarrow> rot_reach c0 c'"

inductive_cases rot_stepE: "rot_step (pc, s) c'"

section \<open>The letters\<close>

lemma translate_translate: "translate (translate c) = c"
proof -
  have b: "(of_char c :: nat) < 256" by (simp add: of_char_def)
  show ?thesis
  proof (cases "isalpha c")
    case True
    define n where "n = (of_char c :: nat)"
    define m where "m = (if 110 \<le> n then n - 13 else if 97 \<le> n then n + 13 else if 78 \<le> n then n - 13 else n + 13)"
    have n: "65 \<le> n \<and> n \<le> 90 \<or> 97 \<le> n \<and> n \<le> 122" using True by (simp add: isalpha_def Let_def n_def)
    have t: "translate c = char_of m" using True by (simp add: translate_def Let_def n_def m_def)
    have m: "of_char (char_of m :: char) = m" using n by (auto simp: m_def of_char_of)
    have "isalpha (char_of m)" "translate (char_of m) = char_of n" using n m
      by (auto simp: isalpha_def translate_def Let_def m_def split: if_splits)
    then show ?thesis unfolding t by (simp add: n_def)
  next
    case False
    then show ?thesis by (simp add: translate_def)
  qed
qed

section \<open>The first program\<close>

lemma open_files_ok:
  assumes "open_files e1 e2 argv fs = Inr (ifd, ofd, fs')" "rfs_ok fs"
  shows "conts fs' ofd = []" "ifd \<noteq> ofd \<Longrightarrow> conts fs' ifd = conts fs ifd" "nodes fs (argv ! 1) = Some ifd" "nodes fs' (argv ! 2) = Some ofd"
    "\<forall>i. i < newino fs \<longrightarrow> i \<noteq> ofd \<longrightarrow> conts fs' i = conts fs i"
  using assms by (auto simp: open_files_def open_trunc_def rfs_ok_def split: if_splits option.splits)

lemma rot_loop_same:
  assumes "conts fs ifd = []" "\<forall>e. Io_fail e \<notin> set rs"
  shows "rot_loop (Suc n) ifd ofd 0 0 rs ws fs = Inr fs"
  using assms by (auto simp: io_read_def split: list.splits ioans.splits)

lemma rot_loop_runs:
  assumes "ifd \<noteq> ofd" "\<forall>e. Io_fail e \<notin> set rs" "set ws \<subseteq> {Io_full}" "conts fs ifd = inp" "conts fs ofd = map translate (take k inp)"
    "k \<le> length inp" "length inp - k < n"
  shows "rot_loop n ifd ofd k k rs ws fs = Inr (fs\<lparr>conts := (conts fs)(ofd := map translate inp)\<rparr>)"
  using assms
proof (induction n arbitrary: k rs ws fs)
  case (Suc n)
  obtain m rs' where m: "io_read k (conts fs ifd) rs = (Some (take m (drop k inp)), rs')" "0 < m" "\<forall>e. Io_fail e \<notin> set rs'"
  proof (cases rs)
    case Nil
    then show ?thesis using that [of BSZ "[]"] Suc.prems by (simp add: io_read_def BSZ_def)
  next
    case (Cons a r)
    then show ?thesis using that [of BSZ r] that [of "min BSZ (j + 1)" r for j] Suc.prems by (cases a) (auto simp: io_read_def BSZ_def)
  qed
  show ?case
  proof (cases "k = length inp")
    case True
    then have "(conts fs)(ofd := map translate inp) = conts fs" using Suc.prems(5) by (simp add: fun_upd_idem)
    then have e: "fs\<lparr>conts := (conts fs)(ofd := map translate inp)\<rparr> = fs" by simp
    show ?thesis unfolding e using m(1) True by simp
  next
    case False
    let ?b = "take m (drop k inp)"
    have b: "?b \<noteq> []" using False m(2) Suc.prems(6) by simp
    obtain ws' where w: "io_write k (map translate ?b) (conts fs ofd) ws = (Some (length ?b), map translate (take (k + length ?b) inp), ws')" "set ws' \<subseteq> {Io_full}"
    proof -
      have "fsplice (conts fs ofd) k (map translate ?b) = map translate (take k inp @ ?b)"
        using fsplice_end [of "map translate (take k inp)" "map translate ?b"] Suc.prems(5,6) by (simp add: min_absorb2)
      also have "take k inp @ ?b = take (k + length ?b) inp" by (simp add: take_add min_def)
      finally have f: "fsplice (conts fs ofd) k (map translate ?b) = map translate (take (k + length ?b) inp)" .
      show ?thesis
      proof (cases ws)
        case Nil
        then show ?thesis using that [of "[]"] f by (simp add: io_write_def)
      next
        case (Cons a w)
        then show ?thesis using that [of w] f Suc.prems(3) by (auto simp: io_write_def)
      qed
    qed
    let ?fs = "fs\<lparr>conts := (conts fs)(ofd := map translate (take (k + length ?b) inp))\<rparr>"
    have "rot_loop n ifd ofd (k + length ?b) (k + length ?b) rs' ws' ?fs = Inr (?fs\<lparr>conts := (conts ?fs)(ofd := map translate inp)\<rparr>)"
    proof (rule Suc.IH)
      show "k + length ?b \<le> length inp" using Suc.prems(6) by simp
      show "length inp - (k + length ?b) < n" using Suc.prems(6,7) b by (cases "length ?b") (auto simp del: length_take)
    qed (use Suc.prems m w in auto)
    then show ?thesis using m(1) b w(1) by (simp del: fun_upd_apply)
  qed
qed simp

lemma rot13a_result:
  assumes "open_files None None argv fs = Inr (ifd, ofd, fs')" "rfs_ok fs" "\<forall>e. Io_fail e \<notin> set rs" "set ws \<subseteq> {Io_full}"
    "length (conts fs' ifd) < n"
  shows "rot13a n None None rs ws argv fs = Inr (fs'\<lparr>conts := (conts fs')(ofd := map translate (conts fs' ifd))\<rparr>)"
proof (cases "ifd = ofd")
  case True
  have e: "conts fs' ofd = []" using open_files_ok [OF assms(1,2)] by simp
  then have "fs'\<lparr>conts := (conts fs')(ofd := [])\<rparr> = fs'" by (cases fs') (simp add: fun_upd_idem)
  moreover obtain k where "n = Suc k" using assms(5) by (cases n) auto
  ultimately show ?thesis using rot_loop_same [of fs' ofd rs k ofd ws] e True assms(1,3) by (simp add: rot13a_def)
next
  case False
  have "rot_loop n ifd ofd 0 0 rs ws fs' = Inr (fs'\<lparr>conts := (conts fs')(ofd := map translate (conts fs' ifd))\<rparr>)"
    by (rule rot_loop_runs [OF False assms(3,4) refl]) (use open_files_ok [OF assms(1,2)] assms(5) in simp_all)
  then show ?thesis using assms(1) by (simp add: rot13a_def)
qed

section \<open>What the asynchronous copy keeps\<close>

text \<open>The byte at \<open>p\<close> of the output is there and right.\<close>

definition copied :: "string \<Rightarrow> string \<Rightarrow> nat \<Rightarrow> bool" where
  "copied inp d p \<longleftrightarrow> p < length d \<and> d ! p = translate (inp ! p)"

lemma fsplice_length: "length (fsplice d a b) = max (length d) (a + length b)"
  by (simp add: fsplice_def)

lemma fsplice_nth: "p < length d \<or> a \<le> p \<and> p < a + length b \<Longrightarrow> fsplice d a b ! p = (if a \<le> p \<and> p < a + length b then b ! (p - a) else d ! p)"
proof -
  have "length (take a (d @ replicate (a - length d) NUL)) = a" by simp
  then show "p < length d \<or> a \<le> p \<and> p < a + length b \<Longrightarrow> ?thesis"
    unfolding fsplice_def nth_append by (auto simp: nth_append)
qed

lemma copied_fsplice:
  assumes "a + n \<le> length inp" "b = map translate (take n (drop a inp))"
  shows "copied inp d p \<Longrightarrow> copied inp (fsplice d a b) p" "a \<le> p \<Longrightarrow> p < a + n \<Longrightarrow> copied inp (fsplice d a b) p"
  using assms by (auto simp: copied_def fsplice_length fsplice_nth)

text \<open>The bytes of a buffer's block are on their way until the whole block has been written.\<close>

definition written :: "abuf \<Rightarrow> bool" where
  "written b \<longleftrightarrow> aop b = WRITE_PENDING \<and> astat b = A_done (anb b)"

definition holds :: "abuf \<Rightarrow> nat \<Rightarrow> bool" where
  "holds b p \<longleftrightarrow> aop b \<noteq> UNUSED \<and> \<not> written b \<and> aoff b \<le> p \<and> p < aoff b + BSZ"

definition buf_ok :: "string \<Rightarrow> nat \<Rightarrow> nat \<Rightarrow> string \<Rightarrow> nat \<Rightarrow> abuf \<Rightarrow> bool" where
  "buf_ok inp ifd ofd out lim b \<longleftrightarrow> length (adata b) = BSZ \<and> (alisted b \<longleftrightarrow> aop b \<noteq> UNUSED) \<and>
     (case aop b of
        UNUSED \<Rightarrow> alast b \<longrightarrow> length inp \<le> lim
      | READ_PENDING \<Rightarrow> aoff b < length inp \<and> aoff b < lim \<and> astat b \<noteq> A_idle \<and> afd b = ifd \<and> anb b = BSZ \<and> (alast b \<longleftrightarrow> length inp \<le> aoff b + BSZ) \<and> (alast b \<longrightarrow> length inp \<le> lim) \<and>
          (\<forall>n. astat b = A_done n \<longrightarrow> n = min BSZ (length inp - aoff b) \<and> take n (adata b) = take n (drop (aoff b) inp))
      | WRITE_PENDING \<Rightarrow> aoff b < length inp \<and> astat b \<noteq> A_idle \<and> afd b = ofd \<and> anb b = min BSZ (length inp - aoff b) \<and> (alast b \<longrightarrow> length inp \<le> lim) \<and>
          take (anb b) (adata b) = map translate (take (anb b) (drop (aoff b) inp)) \<and>
          (astat b = A_done (anb b) \<longrightarrow> (\<forall>p. aoff b \<le> p \<longrightarrow> p < aoff b + anb b \<longrightarrow> copied inp out p)))"

definition busy :: "rot \<Rightarrow> nat set" where
  "busy s = {i. i < NBUF \<and> aop (r_bufs s i) \<noteq> UNUSED}"

definition rot_inv :: "string \<Rightarrow> rfs \<Rightarrow> rot \<Rightarrow> bool" where
  "rot_inv inp fs0 s \<longleftrightarrow>
     r_size s = length inp \<and> (r_ifd s = r_ofd s \<longrightarrow> inp = []) \<and> conts (r_fs s) (r_ifd s) = (if r_ifd s = r_ofd s then conts (r_fs s) (r_ofd s) else inp) \<and>
     (\<exists>d. r_fs s = fs0\<lparr>conts := (conts fs0)(r_ofd s := d)\<rparr>) \<and> length (conts (r_fs s) (r_ofd s)) \<le> length inp \<and> r_numop s = card (busy s) \<and>
     (\<forall>i < NBUF. buf_ok inp (r_ifd s) (r_ofd s) (conts (r_fs s) (r_ofd s)) (r_off s) (r_bufs s i)) \<and>
     (\<forall>p < length inp. p < r_off s \<longrightarrow> copied inp (conts (r_fs s) (r_ofd s)) p \<or> (\<exists>i < NBUF. holds (r_bufs s i) p))"

lemma set_buf_sel [simp]:
  "r_bufs (set_buf i b s) = (r_bufs s)(i := b)" "r_numop (set_buf i b s) = r_numop s" "r_off (set_buf i b s) = r_off s" "r_size (set_buf i b s) = r_size s"
  "r_ifd (set_buf i b s) = r_ifd s" "r_ofd (set_buf i b s) = r_ofd s" "r_fs (set_buf i b s) = r_fs s"
  by (simp_all add: set_buf_def)

lemma finite_busy [simp]: "finite (busy s)"
  by (simp add: busy_def)

lemma busy_set_buf:
  "busy (set_buf i b s) = (if i < NBUF \<and> aop b \<noteq> UNUSED then insert i (busy s) else busy s - {i})"
  by (auto simp: busy_def)

lemma busy_upd [simp]: "busy (s\<lparr>r_off := x, r_numop := n\<rparr>) = busy s" "busy (s\<lparr>r_numop := n\<rparr>) = busy s" "busy (s\<lparr>r_fs := fs\<rparr>) = busy s"
  by (simp_all add: busy_def)

lemma buf_ok_mono:
  assumes "buf_ok inp ifd ofd out lim b" "lim \<le> lim'" "\<And>p. copied inp out p \<Longrightarrow> copied inp out' p"
  shows "buf_ok inp ifd ofd out' lim' b"
  using assms unfolding buf_ok_def by (cases "aop b") auto

lemma buf_at: "rot_inv inp fs0 s \<Longrightarrow> i < NBUF \<Longrightarrow> buf_ok inp (r_ifd s) (r_ofd s) (conts (r_fs s) (r_ofd s)) (r_off s) (r_bufs s i)"
  unfolding rot_inv_def by blast

lemma cov_at: "rot_inv inp fs0 s \<Longrightarrow> p < length inp \<Longrightarrow> p < r_off s \<Longrightarrow> copied inp (conts (r_fs s) (r_ofd s)) p \<or> (\<exists>j < NBUF. holds (r_bufs s j) p)"
  unfolding rot_inv_def by blast

lemma rot_inv_files:
  assumes "rot_inv inp fs0 s"
  shows "r_size s = length inp" "r_ifd s = r_ofd s \<longrightarrow> inp = []" "conts (r_fs s) (r_ifd s) = (if r_ifd s = r_ofd s then conts (r_fs s) (r_ofd s) else inp)"
    "\<exists>d. r_fs s = fs0\<lparr>conts := (conts fs0)(r_ofd s := d)\<rparr>" "length (conts (r_fs s) (r_ofd s)) \<le> length inp" "r_numop s = card (busy s)"
  using assms unfolding rot_inv_def by blast+

lemma rot_inv_update:
  assumes "rot_inv inp fs0 s" "i < NBUF" "r_off s \<le> lim" "length d \<le> length inp"
    "\<And>p. copied inp (conts (r_fs s) (r_ofd s)) p \<Longrightarrow> copied inp d p"
    "n = card (busy (set_buf i b s))" "buf_ok inp (r_ifd s) (r_ofd s) d lim b"
    "\<And>p. p < length inp \<Longrightarrow> p < lim \<Longrightarrow> r_off s \<le> p \<or> holds (r_bufs s i) p \<Longrightarrow> copied inp d p \<or> holds b p"
    "r_bufs s' = (r_bufs s)(i := b)" "r_numop s' = n" "r_off s' = lim" "r_size s' = r_size s" "r_ifd s' = r_ifd s" "r_ofd s' = r_ofd s"
    "r_fs s' = (r_fs s)\<lparr>conts := (conts (r_fs s))(r_ofd s := d)\<rparr>"
  shows "rot_inv inp fs0 s'"
proof -
  note I = rot_inv_files [OF assms(1)]
  have num: "n = card (busy s')" using assms(6) by (simp add: busy_def assms(9))
  have bufs: "\<forall>j < NBUF. buf_ok inp (r_ifd s) (r_ofd s) d lim (r_bufs s' j)"
    using buf_ok_mono [OF buf_at [OF assms(1)] assms(3,5)] assms(7,9) by (metis fun_upd_other fun_upd_same)
  have cov: "copied inp d p \<or> (\<exists>j < NBUF. holds (r_bufs s' j) p)" if p: "p < length inp" "p < lim" for p
  proof (cases "r_off s \<le> p \<or> holds (r_bufs s i) p")
    case True
    then show ?thesis using assms(8) [OF p] assms(2,9) by auto
  next
    case False
    then have "copied inp (conts (r_fs s) (r_ofd s)) p \<or> (\<exists>j < NBUF. holds (r_bufs s j) p)" using cov_at [OF assms(1) p(1)] by auto
    then show ?thesis
    proof (elim disjE exE conjE)
      fix j assume "j < NBUF" "holds (r_bufs s j) p"
      then have "holds (r_bufs s' j) p" using False assms(9) by (cases "j = i") auto
      then show ?thesis using \<open>j < NBUF\<close> by blast
    qed (use assms(5) in blast)
  qed
  obtain d0 where "r_fs s = fs0\<lparr>conts := (conts fs0)(r_ofd s := d0)\<rparr>" using I(4) by blast
  then have f: "r_fs s' = fs0\<lparr>conts := (conts fs0)(r_ofd s := d)\<rparr>" unfolding assms(15) by simp
  have out: "conts (r_fs s') (r_ofd s) = d" by (simp add: assms(15))
  have inp: "conts (r_fs s') (r_ifd s) = (if r_ifd s = r_ofd s then d else inp)" using I(3) by (cases "r_ifd s = r_ofd s") (simp_all add: assms(15))
  show ?thesis unfolding rot_inv_def assms(10-14) out
    by (intro conjI exI) (fact I(1), fact I(2), fact inp, fact f, fact assms(4), fact num, fact bufs, use cov in blast)
qed

text \<open>A change that leaves the files as they are.\<close>

lemma rot_inv_buf:
  assumes "rot_inv inp fs0 s" "i < NBUF" "r_off s \<le> lim" "n = card (busy (set_buf i b s))"
    "buf_ok inp (r_ifd s) (r_ofd s) (conts (r_fs s) (r_ofd s)) lim b"
    "\<And>p. p < length inp \<Longrightarrow> p < lim \<Longrightarrow> r_off s \<le> p \<or> holds (r_bufs s i) p \<Longrightarrow> copied inp (conts (r_fs s) (r_ofd s)) p \<or> holds b p"
  shows "rot_inv inp fs0 (set_buf i b (s\<lparr>r_off := lim, r_numop := n\<rparr>))"
  by (rule rot_inv_update [OF assms(1-3) _ _ assms(4-6)]) (use assms(1) in \<open>simp_all add: rot_inv_def\<close>)

lemma rot_inv_bufI:
  assumes "rot_inv inp fs0 s" "i < NBUF" "aop b = UNUSED \<longleftrightarrow> aop (r_bufs s i) = UNUSED"
    "buf_ok inp (r_ifd s) (r_ofd s) (conts (r_fs s) (r_ofd s)) (r_off s) b" "\<And>p. p < length inp \<Longrightarrow> holds (r_bufs s i) p \<Longrightarrow> copied inp (conts (r_fs s) (r_ofd s)) p \<or> holds b p"
  shows "rot_inv inp fs0 (set_buf i b s)"
proof -
  have "busy (set_buf i b s) = busy s" using assms(2,3) by (auto simp: busy_def)
  then have "r_numop s = card (busy (set_buf i b s))" using assms(1) by (simp add: rot_inv_def)
  from rot_inv_buf [OF assms(1,2) le_refl this assms(4)] assms(5) show ?thesis by force
qed

lemma slot_inv:
  assumes "rot_inv inp fs0 s" "i < NBUF" "slot q i s = Inr s'"
  shows "rot_inv inp fs0 s'"
proof -
  define b where "b = r_bufs s i"
  note B = buf_at [OF assms(1,2), folded b_def]
  have size: "r_size s = length inp" using assms(1) by (simp add: rot_inv_def)
  have num: "r_numop s = card (busy s)" using assms(1) by (simp add: rot_inv_def)
  show ?thesis
  proof (cases "aop b")
    case UNUSED
    show ?thesis
    proof (cases "r_off s < r_size s")
      case True
      let ?b = "b\<lparr>aop := READ_PENDING, afd := r_ifd s, aoff := r_off s, alast := (if r_size s \<le> r_off s + BSZ then True else alast b),
                  anb := BSZ, astat := A_inprogress, alisted := True\<rparr>"
      have s': "s' = set_buf i ?b (s\<lparr>r_off := r_off s + BSZ, r_numop := r_numop s + 1\<rparr>)"
        using assms(3) UNUSED True by (simp add: slot_def b_def Let_def split: if_splits)
      have "i \<notin> busy s" using UNUSED by (simp add: busy_def b_def)
      then have n: "r_numop s + 1 = card (busy (set_buf i ?b s))" using num assms(2) by (simp add: busy_set_buf)
      show ?thesis unfolding s'
      proof (rule rot_inv_buf [OF assms(1,2) _ n])
        show "buf_ok inp (r_ifd s) (r_ofd s) (conts (r_fs s) (r_ofd s)) (r_off s + BSZ) ?b"
          using B UNUSED True size by (auto simp: buf_ok_def BSZ_def)
      qed (use UNUSED in \<open>auto simp: holds_def written_def b_def\<close>)
    next
      case False
      then show ?thesis using assms UNUSED by (simp add: slot_def b_def)
    qed
  next
    case READ_PENDING
    show ?thesis
    proof (cases "astat b")
      case (A_done n)
      let ?b = "b\<lparr>adata := map translate (take n (adata b)) @ drop n (adata b), aop := WRITE_PENDING, afd := r_ofd s, anb := n, astat := A_inprogress\<rparr>"
      have s': "s' = set_buf i ?b s" using assms(3) READ_PENDING A_done by (simp add: slot_def b_def Let_def split: if_splits)
      have l: "length (adata b) = BSZ" "n = min BSZ (length inp - aoff b)" "take n (adata b) = take n (drop (aoff b) inp)"
        using B READ_PENDING A_done by (auto simp: buf_ok_def)
      have t: "take n (map translate (take n (adata b)) @ drop n (adata b)) = map translate (take n (drop (aoff b) inp))"
        using l by (simp add: min_def)
      show ?thesis unfolding s'
        by (rule rot_inv_bufI [OF assms(1,2)])
          (use B READ_PENDING l t in \<open>auto simp: buf_ok_def holds_def written_def b_def\<close>)
    next
      case A_inprogress
      then show ?thesis using assms READ_PENDING by (simp add: slot_def b_def)
    qed (use assms(3) READ_PENDING in \<open>simp_all add: slot_def b_def\<close>)
  next
    case WRITE_PENDING
    show ?thesis
    proof (cases "astat b")
      case (A_done n)
      let ?b = "b\<lparr>aop := UNUSED, astat := A_idle, alisted := False\<rparr>"
      have s': "s' = set_buf i ?b (s\<lparr>r_off := r_off s, r_numop := r_numop s - 1\<rparr>)" "n = anb b"
        using assms(3) WRITE_PENDING A_done by (simp_all add: slot_def b_def Let_def split: if_splits)
      have "i \<in> busy s" using WRITE_PENDING assms(2) by (simp add: busy_def b_def)
      then have n: "r_numop s - 1 = card (busy (set_buf i ?b s))" using num by (simp add: busy_set_buf)
      show ?thesis unfolding s'(1)
        by (rule rot_inv_buf [OF assms(1,2) le_refl n])
          (use B WRITE_PENDING A_done s'(2) in \<open>auto simp: buf_ok_def holds_def written_def b_def\<close>)
    next
      case A_inprogress
      then show ?thesis using assms WRITE_PENDING by (simp add: slot_def b_def)
    qed (use assms(3) WRITE_PENDING in \<open>simp_all add: slot_def b_def\<close>)
  qed
qed

section \<open>What the kernel does in between\<close>

lemma kread_inv:
  assumes "rot_inv inp fs0 s" "i < NBUF" "astat (r_bufs s i) = A_inprogress" "aop (r_bufs s i) = READ_PENDING"
  shows "rot_inv inp fs0 (kread i s)"
proof -
  define b where "b = r_bufs s i"
  note B = buf_at [OF assms(1,2), folded b_def] and b = assms(3,4) [folded b_def]
  have l: "length (adata b) = BSZ" "anb b = BSZ" "afd b = r_ifd s" "aoff b < length inp" using B b by (simp_all add: buf_ok_def)
  then have "conts (r_fs s) (r_ifd s) = inp" using rot_inv_files(2,3) [OF assms(1)] by auto
  then have k: "kread i s = set_buf i (b\<lparr>adata := take BSZ (drop (aoff b) inp) @ drop (length (take BSZ (drop (aoff b) inp))) (adata b),
      astat := A_done (length (take BSZ (drop (aoff b) inp)))\<rparr>) s"
    using l by (simp add: kread_def b_def Let_def)
  show ?thesis unfolding k
    by (rule rot_inv_bufI [OF assms(1,2)]) (use B b l in \<open>auto simp: buf_ok_def holds_def written_def b_def\<close>)
qed

lemma kwrite_inv:
  assumes "rot_inv inp fs0 s" "i < NBUF" "astat (r_bufs s i) = A_inprogress" "aop (r_bufs s i) = WRITE_PENDING"
  shows "rot_inv inp fs0 (kwrite k i s)"
proof -
  define b where "b = r_bufs s i"
  define n where "n = min k (anb b)"
  let ?out = "conts (r_fs s) (r_ofd s)"
  let ?d = "map translate (take n (drop (aoff b) inp))"
  note B = buf_at [OF assms(1,2), folded b_def] and b = assms(3,4) [folded b_def]
  have l: "length (adata b) = BSZ" "anb b = min BSZ (length inp - aoff b)" "afd b = r_ofd s" "aoff b < length inp"
      "take (anb b) (adata b) = map translate (take (anb b) (drop (aoff b) inp))"
    using B b by (auto simp: buf_ok_def)
  have "take n (adata b) = take n (take (anb b) (adata b))" by (simp add: n_def)
  also have "\<dots> = ?d" unfolding l(5) by (simp add: n_def take_map)
  finally have d: "take n (adata b) = ?d" .
  have fits: "aoff b + n \<le> length inp" using l(2,4) by (simp add: n_def)
  note c = copied_fsplice [OF fits refl, where d = ?out]
  let ?b = "b\<lparr>astat := A_done n\<rparr>"
  have w: "kwrite k i s = set_buf i ?b (s\<lparr>r_fs := (r_fs s)\<lparr>conts := (conts (r_fs s))(r_ofd s := fsplice ?out (aoff b) ?d)\<rparr>\<rparr>)"
    using d l(3) by (simp add: kwrite_def b_def [symmetric] n_def [symmetric] Let_def)
  have "busy (set_buf i ?b s) = busy s" using assms(2) b(2) by (auto simp: busy_def b_def)
  then have num: "r_numop s = card (busy (set_buf i ?b s))" using rot_inv_files(6) [OF assms(1)] by simp
  have B': "buf_ok inp (r_ifd s) (r_ofd s) (fsplice ?out (aoff b) ?d) (r_off s) ?b" using B b l c(2) by (auto simp: buf_ok_def)
  have h: "copied inp (fsplice ?out (aoff b) ?d) p \<or> holds ?b p" if p: "p < length inp" "p < r_off s" "r_off s \<le> p \<or> holds (r_bufs s i) p" for p
  proof (cases "n = anb b")
    case True
    have "aoff b \<le> p" "p < aoff b + BSZ" using p by (auto simp: holds_def b_def)
    then show ?thesis using True c(2) l(2) p(1) by auto
  next
    case False
    then show ?thesis using p b by (auto simp: holds_def written_def b_def)
  qed
  have len: "length (fsplice ?out (aoff b) ?d) \<le> length inp" using rot_inv_files(5) [OF assms(1)] fits by (simp add: fsplice_length)
  show ?thesis
    by (rule rot_inv_update [OF assms(1,2) le_refl len c(1) num B' h]) (simp_all add: w)
qed

lemma op_fails_inv:
  assumes "rot_inv inp fs0 s" "i < NBUF" "astat (r_bufs s i) = A_inprogress"
  shows "rot_inv inp fs0 (set_buf i ((r_bufs s i)\<lparr>astat := A_failed e\<rparr>) s)"
  by (rule rot_inv_bufI [OF assms(1,2)]) (use buf_at [OF assms(1,2)] assms(3) in \<open>auto simp: buf_ok_def holds_def written_def split: rwop.splits\<close>)

text \<open>Where the program may be.\<close>

fun conf_ok :: "string \<Rightarrow> rfs \<Rightarrow> rpc \<times> rot \<Rightarrow> bool" where
  "conf_ok inp fs0 (pc, s) \<longleftrightarrow> rot_inv inp fs0 s \<and> (\<forall>i. pc = At i \<longrightarrow> i \<le> NBUF) \<and> (pc = Suspended \<longrightarrow> r_numop s \<noteq> 0) \<and>
     (pc = Synced \<longrightarrow> r_numop s = 0 \<and> r_size s \<le> r_off s)"

lemma kernel_numop [simp]: "r_numop (kread i s) = r_numop s" "r_numop (kwrite k i s) = r_numop s"
  by (simp_all add: kread_def kwrite_def Let_def)

lemma rot_step_conf:
  assumes "rot_step c c'" "conf_ok inp fs0 c"
  shows "conf_ok inp fs0 c'"
  using assms(1)
proof cases
  case (slot i q s s')
  then show ?thesis using assms(2) slot_inv by auto
next
  case (read_done i s pc j)
  then show ?thesis using assms(2) kread_inv by auto
next
  case (write_done i s pc j k)
  then show ?thesis using assms(2) kwrite_inv by auto
next
  case (op_fails i s pc j e)
  then show ?thesis using assms(2) op_fails_inv by auto
qed (use assms(2) in auto)

lemma rot_reach_conf: "rot_reach c0 c \<Longrightarrow> conf_ok inp fs0 c0 \<Longrightarrow> conf_ok inp fs0 c"
  by (induction rule: rot_reach.induct) (auto intro: rot_step_conf simp del: conf_ok.simps)

text \<open>When nothing is on its way any more, everything has been copied.\<close>

lemma rot_inv_end:
  assumes "rot_inv inp fs0 s" "r_numop s = 0" "r_size s \<le> r_off s"
  shows "conts (r_fs s) (r_ofd s) = map translate inp"
proof (rule nth_equalityI)
  note f = rot_inv_files [OF assms(1)]
  have "busy s = {}" using f(6) assms(2) by simp
  then have c: "copied inp (conts (r_fs s) (r_ofd s)) p" if "p < length inp" for p
    using cov_at [OF assms(1) that] assms(3) f(1) that by (auto simp: holds_def busy_def)
  show l: "length (conts (r_fs s) (r_ofd s)) = length (map translate inp)"
  proof (cases inp rule: rev_cases)
    case (snoc ys y)
    then have "length ys < length (conts (r_fs s) (r_ofd s))" using c [of "length ys"] by (simp add: copied_def)
    then show ?thesis using f(5) snoc by simp
  qed (use f(5) in simp)
  show "conts (r_fs s) (r_ofd s) ! p = map translate inp ! p" if "p < length (conts (r_fs s) (r_ofd s))" for p
    using c [of p] that l by (simp add: copied_def)
qed

section \<open>It goes on, and ends\<close>

text \<open>What is left to do of a buffer's operation, and of all; every round handles a buffer that is ready.\<close>

definition weight :: "abuf \<Rightarrow> nat" where
  "weight b = (case aop b of UNUSED \<Rightarrow> 0 | READ_PENDING \<Rightarrow> if astat b = A_inprogress then 4 else 3 | WRITE_PENDING \<Rightarrow> if astat b = A_inprogress then 2 else 1)"

definition work :: "rot \<Rightarrow> nat" where
  "work s = 5 * (r_size s - r_off s) + (\<Sum>i < NBUF. weight (r_bufs s i))"

definition ready :: "rot \<Rightarrow> nat \<Rightarrow> bool" where
  "ready s i \<longleftrightarrow> (if aop (r_bufs s i) = UNUSED then r_off s < r_size s else astat (r_bufs s i) \<noteq> A_inprogress)"

fun phase :: "rpc \<times> rot \<Rightarrow> nat" where
  "phase (At i, s) = (if \<exists>j < NBUF. i \<le> j \<and> ready s j then NBUF - i else 2 * NBUF + 3 - i)"
| "phase (Suspended, s) = NBUF + 1"
| "phase (pc, s) = 0"

lemma weights_upd: "i < NBUF \<Longrightarrow> (\<Sum>j < NBUF. weight ((f(i := b)) j)) + weight (f i) = (\<Sum>j < NBUF. weight (f j)) + weight b"
  by (simp add: sum.remove [of "{..< NBUF}" i])

lemma work_set_buf: "i < NBUF \<Longrightarrow> weight b < weight (r_bufs s i) \<Longrightarrow> work (set_buf i b s) < work s"
  using weights_upd [of i "r_bufs s" b] by (simp add: work_def)

lemma work_upd: "work (set_buf i b (s\<lparr>r_numop := n\<rparr>)) = work (set_buf i b s)" "work (set_buf i b (s\<lparr>r_fs := fs\<rparr>)) = work (set_buf i b s)"
  by (simp_all add: work_def)

lemma slot_work:
  assumes "i < NBUF" "slot q i s = Inr s'"
  shows "if ready s i then work s' < work s else s' = s"
proof (cases "aop (r_bufs s i)")
  case UNUSED
  show ?thesis
  proof (cases "r_off s < r_size s")
    case True
    then have "r_bufs s' = (r_bufs s)(i := r_bufs s' i)" "weight (r_bufs s' i) = 4" "r_size s' = r_size s" "r_off s' = r_off s + BSZ"
      using assms(2) UNUSED by (auto simp: slot_def Let_def weight_def split: if_splits)
    moreover have "weight (r_bufs s i) = 0" using UNUSED by (simp add: weight_def)
    ultimately have "(\<Sum>j < NBUF. weight (r_bufs s' j)) = (\<Sum>j < NBUF. weight (r_bufs s j)) + 4" "r_size s' - r_off s' < r_size s - r_off s"
      using weights_upd [OF assms(1), of "r_bufs s" "r_bufs s' i"] True by (simp_all add: BSZ_def del: fun_upd_apply)
    then show ?thesis using True UNUSED by (simp add: work_def ready_def)
  next
    case False
    then show ?thesis using assms(2) UNUSED by (simp add: slot_def ready_def Let_def)
  qed
next
  case READ_PENDING
  then show ?thesis using assms
    by (cases "astat (r_bufs s i)") (auto simp: slot_def ready_def Let_def weight_def work_upd split: if_splits intro!: work_set_buf)
next
  case WRITE_PENDING
  then show ?thesis using assms
    by (cases "astat (r_bufs s i)") (auto simp: slot_def ready_def Let_def weight_def work_upd split: if_splits intro!: work_set_buf)
qed

lemma kernel_work:
  assumes "i < NBUF" "astat (r_bufs s i) = A_inprogress"
  shows "aop (r_bufs s i) = READ_PENDING \<Longrightarrow> work (kread i s) < work s" "aop (r_bufs s i) = WRITE_PENDING \<Longrightarrow> work (kwrite k i s) < work s"
    "aop (r_bufs s i) \<noteq> UNUSED \<Longrightarrow> work (set_buf i ((r_bufs s i)\<lparr>astat := A_failed e\<rparr>) s) < work s"
  using assms
  by (auto simp: kread_def kwrite_def Let_def work_upd weight_def split: rwop.splits intro!: work_set_buf)

lemma phase_at: "i \<le> NBUF \<Longrightarrow> 0 < phase (At i, s)" "ready s j \<Longrightarrow> j < NBUF \<Longrightarrow> i \<le> j \<Longrightarrow> phase (At i, s) \<le> NBUF" "NBUF + 1 < phase (At NBUF, s)"
  by auto

lemma phase_next: "i < NBUF \<Longrightarrow> \<not> ready s i \<Longrightarrow> phase (At (i + 1), s) < phase (At i, s)"
  by (auto simp: Suc_le_eq) (metis le_neq_implies_less)+

lemma all_unused:
  assumes "rot_inv inp fs0 s" "r_numop s = 0" "i < NBUF"
  shows "aop (r_bufs s i) = UNUSED"
  using rot_inv_files(6) [OF assms(1)] assms(2,3) by (auto simp: busy_def)

definition smaller :: "((rpc \<times> rot) \<times> rpc \<times> rot) set" where
  "smaller = inv_image (less_than <*lex*> less_than) (\<lambda>c. (work (snd c), phase c))"

lemma wf_smaller: "wf smaller"
  unfolding smaller_def by (intro wf_inv_image wf_lex_prod wf_less_than)

lemma rot_step_smaller:
  assumes "rot_step c c'" "conf_ok inp fs0 c"
  shows "(c', c) \<in> smaller"
proof -
  have NB: "0 < NBUF" by (simp add: NBUF_def)
  show ?thesis using assms(1)
  proof cases
    case (slot i q s s')
    then show ?thesis using slot_work [OF slot(3,4)] phase_next [OF slot(3), of s]
      by (cases "ready s i") (simp_all add: smaller_def del: phase.simps)
  next
    case (slot_fails i q s f)
    then show ?thesis using phase_at(1) [of i s] by (simp add: smaller_def)
  next
    case (finish s er)
    then show ?thesis by (simp add: smaller_def)
  next
    case (again s)
    have "aop (r_bufs s 0) = UNUSED" using all_unused [of inp fs0 s 0] assms(2) again NB by simp
    then have "ready s 0" using again by (simp add: ready_def)
    then have "phase (At 0, s) \<le> NBUF" using phase_at(2) [of s 0 0] NB by blast
    then show ?thesis using again phase_at(3) [of s] by (simp add: smaller_def del: phase.simps)
  next
    case (suspend s)
    then show ?thesis using phase_at(3) [of s] by (simp add: smaller_def)
  next
    case (wake i s)
    have "aop (r_bufs s i) \<noteq> UNUSED" using buf_at [of inp fs0 s i] assms(2) wake by (auto simp: buf_ok_def)
    then have "ready s i" using wake by (simp add: ready_def)
    then have "phase (At 0, s) \<le> NBUF" using phase_at(2) [of s i 0] wake by blast
    then show ?thesis using wake by (simp add: smaller_def)
  next
    case (suspend_fails s)
    then show ?thesis by (simp add: smaller_def)
  next
    case (read_done i s pc j)
    then show ?thesis using kernel_work(1) by (simp add: smaller_def)
  next
    case (write_done i s pc j k)
    then show ?thesis using kernel_work(2) by (simp add: smaller_def)
  next
    case (op_fails i s pc j e)
    then show ?thesis using kernel_work(3) by (simp add: smaller_def)
  qed
qed

lemma rot_ends:
  assumes "conf_ok inp fs0 (f 0)" "\<forall>n. rot_step (f n) (f (Suc n))"
  shows False
proof -
  have ok: "conf_ok inp fs0 (f n)" for n using assms(1) by (induction n) (use assms(2) rot_step_conf in blast)+
  have "wf smaller" by (rule wf_smaller)
  then show False using rot_step_smaller [OF _ ok] assms(2) unfolding wf_iff_no_infinite_down_chain by blast
qed

text \<open>No operation has failed or was cut short.\<close>

definition healthy :: "rot \<Rightarrow> bool" where
  "healthy s \<longleftrightarrow> (\<forall>i < NBUF. (\<forall>e. astat (r_bufs s i) \<noteq> A_failed e) \<and>
     (\<forall>n. aop (r_bufs s i) = WRITE_PENDING \<longrightarrow> astat (r_bufs s i) = A_done n \<longrightarrow> n = anb (r_bufs s i)))"

lemma healthy_upd [simp]: "healthy (s\<lparr>r_off := x\<rparr>) = healthy s" "healthy (s\<lparr>r_off := x, r_numop := n\<rparr>) = healthy s" "healthy (s\<lparr>r_numop := n\<rparr>) = healthy s" "healthy (s\<lparr>r_fs := fs\<rparr>) = healthy s"
  by (simp_all add: healthy_def)

lemma healthy_set_buf:
  "healthy s \<Longrightarrow> \<forall>e. astat b \<noteq> A_failed e \<Longrightarrow> \<forall>n. aop b = WRITE_PENDING \<longrightarrow> astat b = A_done n \<longrightarrow> n = anb b \<Longrightarrow> healthy (set_buf i b s)"
  by (simp add: healthy_def)

lemma slot_healthy:
  assumes "rot_inv inp fs0 s" "healthy s" "i < NBUF"
  shows "\<exists>s'. slot None i s = Inr s' \<and> healthy s'"
proof -
  note B = buf_at [OF assms(1,3)]
  have h: "\<And>e. astat (r_bufs s i) \<noteq> A_failed e" "\<And>n. aop (r_bufs s i) = WRITE_PENDING \<Longrightarrow> astat (r_bufs s i) = A_done n \<Longrightarrow> n = anb (r_bufs s i)"
    using assms(2,3) by (auto simp: healthy_def)
  show ?thesis
  proof (cases "aop (r_bufs s i)")
    case UNUSED
    then show ?thesis using assms(2) by (auto simp: slot_def Let_def intro!: healthy_set_buf)
  next
    case READ_PENDING
    then show ?thesis using B h(1) assms(2) by (cases "astat (r_bufs s i)") (auto simp: slot_def Let_def buf_ok_def intro!: healthy_set_buf)
  next
    case WRITE_PENDING
    then show ?thesis using B h assms(2) by (cases "astat (r_bufs s i)") (auto simp: slot_def Let_def buf_ok_def intro!: healthy_set_buf)
  qed
qed

lemma kernel_healthy:
  assumes "healthy s"
  shows "aop (r_bufs s i) = READ_PENDING \<Longrightarrow> healthy (kread i s)" "healthy (kwrite (anb (r_bufs s i)) i s)"
  using assms by (auto simp: kread_def kwrite_def Let_def intro!: healthy_set_buf)

lemma rot_goes_on:
  assumes "conf_ok inp fs0 (pc, s)" "healthy s" "pc \<noteq> Synced" "\<forall>f. pc \<noteq> Stopped f"
  shows "\<exists>pc' s'. rot_step (pc, s) (pc', s') \<and> (\<forall>f. pc' \<noteq> Stopped f) \<and> healthy s'"
proof (cases pc)
  case (At i)
  show ?thesis
  proof (cases "i = NBUF")
    case True
    consider "r_numop s = 0" "r_size s \<le> r_off s" | "r_numop s = 0" "r_off s < r_size s" | "r_numop s \<noteq> 0" by linarith
    then show ?thesis using rot_step.finish [of s None] rot_step.again [of s] rot_step.suspend [of s] At True assms(2) by cases force+
  next
    case False
    then have i: "i < NBUF" using assms(1) At by simp
    have "rot_inv inp fs0 s" using assms(1) by simp
    then obtain s' where "slot None i s = Inr s'" "healthy s'" using slot_healthy [OF _ assms(2) i] by blast
    then show ?thesis using rot_step.slot [OF i] At by blast
  qed
next
  case Suspended
  then have "busy s \<noteq> {}" using assms(1) rot_inv_files(6) [of inp fs0 s] by auto
  then obtain i where i: "i < NBUF" "aop (r_bufs s i) \<noteq> UNUSED" by (auto simp: busy_def)
  show ?thesis
  proof (cases "astat (r_bufs s i) = A_inprogress")
    case True
    show ?thesis
    proof (cases "aop (r_bufs s i)")
      case READ_PENDING
      then show ?thesis using rot_step.read_done [OF i(1) True READ_PENDING, of Suspended] kernel_healthy(1) [OF assms(2)] Suspended by blast
    next
      case WRITE_PENDING
      then show ?thesis using rot_step.write_done [OF i(1) True WRITE_PENDING, of Suspended] kernel_healthy(2) [OF assms(2)] Suspended by blast
    qed (use i in simp)
  next
    case False
    have "alisted (r_bufs s i)" using buf_at [of inp fs0 s i] assms(1) i by (auto simp: buf_ok_def)
    then show ?thesis using rot_step.wake [OF i(1) _ False] Suspended assms(2) by blast
  qed
qed (use assms in auto)

lemma rot_reach_first: "rot_reach c1 c2 \<Longrightarrow> rot_step c0 c1 \<Longrightarrow> rot_reach c0 c2"
  by (induction rule: rot_reach.induct) (blast intro: rot_reach.intros)+

lemma rot_completes:
  assumes "conf_ok inp fs0 c" "healthy (snd c)" "\<forall>f. fst c \<noteq> Stopped f"
  shows "\<exists>s'. rot_reach c (Synced, s')"
  using wf_smaller assms
proof (induction c rule: wf_induct_rule)
  case (less c)
  obtain pc s where c: "c = (pc, s)" by fastforce
  show ?case
  proof (cases "pc = Synced")
    case True
    then show ?thesis using c rot_reach.start by blast
  next
    case False
    then obtain pc' s' where n: "rot_step c (pc', s')" "\<forall>f. pc' \<noteq> Stopped f" "healthy s'"
      using rot_goes_on [of inp fs0 pc s] less.prems unfolding c by auto
    then have "\<exists>s''. rot_reach (pc', s') (Synced, s'')"
      using less.IH [OF rot_step_smaller [OF n(1) less.prems(1)]] rot_step_conf [OF n(1) less.prems(1)] by simp
    then show ?thesis using rot_reach_first [OF _ n(1)] by blast
  qed
qed

lemma rot_start_conf:
  assumes "rot_start e1 e2 e3 argv fs = Inr s" "rfs_ok fs"
  shows "\<exists>fs'. open_files None None argv fs = Inr (r_ifd s, r_ofd s, fs') \<and> r_fs s = fs' \<and> conf_ok (conts fs' (r_ifd s)) fs' (At 0, s)"
proof -
  obtain ifd ofd fs' where o: "open_files e1 e2 argv fs = Inr (ifd, ofd, fs')" using assms(1) by (auto simp: rot_start_def bnd_eq_Inr_iff)
  have o': "open_files None None argv fs = Inr (ifd, ofd, fs')" using o by (auto simp: open_files_def split: if_splits option.splits)
  have s: "s = \<lparr>r_bufs = (\<lambda>_. \<lparr>aop = UNUSED, alast = False, adata = replicate BSZ NUL, afd = 0, aoff = 0, anb = 0, astat = A_idle, alisted = False\<rparr>),
               r_numop = 0, r_off = 0, r_size = length (conts fs' ifd), r_ifd = ifd, r_ofd = ofd, r_fs = fs'\<rparr>"
    using assms(1) o by (simp add: rot_start_def split: if_splits)
  have "busy s = {}" by (simp add: busy_def s)
  moreover have "conts fs' ofd = []" using open_files_ok [OF o assms(2)] by blast
  moreover from this have "\<exists>d. fs' = fs'\<lparr>conts := (conts fs')(ofd := d)\<rparr>" by (intro exI [of _ "[]"]) (simp add: fun_upd_idem)
  ultimately have "rot_inv (conts fs' ifd) fs' s" unfolding rot_inv_def by (auto simp: s buf_ok_def)
  then show ?thesis using o' by (simp add: s)
qed

lemma slot_fds: "slot q i s = Inr s' \<Longrightarrow> r_ofd s' = r_ofd s"
  by (auto simp: slot_def Let_def split: rwop.splits astat.splits if_splits)

lemma rot_step_fds: "rot_step c c' \<Longrightarrow> r_ofd (snd c') = r_ofd (snd c)"
  by (induction rule: rot_step.induct) (auto simp: kread_def kwrite_def Let_def slot_fds)

lemma rot_reach_fds: "rot_reach c0 c \<Longrightarrow> r_ofd (snd c) = r_ofd (snd c0)"
  by (induction rule: rot_reach.induct) (auto dest: rot_step_fds)

text \<open>
  C7: The asynchronous copy is the plain one. Whatever the names in the arguments stand for (the same file, files that exist or not), and in whatever order the kernel completes
  the operations that are under way, a run that gets to the end leaves exactly the files that \<^verbatim>\<open>rot13a\<close> leaves, however its reads are cut: the output is the
  translated input, and translating it again gives the input. No run goes on for ever, and as long as no operation has failed or was cut short
  the end can be reached: the program does not wait for something that nobody does.
\<close>

theorem rot13_async_is_sync:
  assumes "rot_start e1 e2 e3 argv fs = Inr s0" "rfs_ok fs" "rot_reach (At 0, s0) (pc, s)"
  shows "(pc = Synced \<longrightarrow> conts (r_fs s) (r_ofd s0) = map translate (conts (r_fs s0) (r_ifd s0)) \<and>
      map translate (conts (r_fs s) (r_ofd s0)) = conts (r_fs s0) (r_ifd s0) \<and>
      (\<forall>n rs ws. (\<forall>e. Io_fail e \<notin> set rs) \<longrightarrow> set ws \<subseteq> {Io_full} \<longrightarrow> length (conts (r_fs s0) (r_ifd s0)) < n \<longrightarrow>
         rot13a n None None rs ws argv fs = Inr (r_fs s))) \<and>
    (healthy s \<longrightarrow> (\<forall>f. pc \<noteq> Stopped f) \<longrightarrow> (\<exists>s'. rot_reach (pc, s) (Synced, s'))) \<and>
    (\<nexists>f. f 0 = (At 0, s0) \<and> (\<forall>n. rot_step (f n) (f (Suc n))))"
proof -
  obtain fs' where o: "open_files None None argv fs = Inr (r_ifd s0, r_ofd s0, fs')" "r_fs s0 = fs'" "conf_ok (conts fs' (r_ifd s0)) fs' (At 0, s0)"
    using rot_start_conf [OF assms(1,2)] by blast
  have c: "conf_ok (conts fs' (r_ifd s0)) fs' (pc, s)" using rot_reach_conf [OF assms(3) o(3)] .
  have d: "r_ofd s = r_ofd s0" using rot_reach_fds [OF assms(3)] by simp
  have fin: "conts (r_fs s) (r_ofd s0) = map translate (conts fs' (r_ifd s0))"
    "r_fs s = fs'\<lparr>conts := (conts fs')(r_ofd s0 := map translate (conts fs' (r_ifd s0)))\<rparr>" if "pc = Synced"
  proof -
    have i: "rot_inv (conts fs' (r_ifd s0)) fs' s" "r_numop s = 0" "r_size s \<le> r_off s" using c that by auto
    show e: "conts (r_fs s) (r_ofd s0) = map translate (conts fs' (r_ifd s0))" using rot_inv_end [OF i] d by simp
    show "r_fs s = fs'\<lparr>conts := (conts fs')(r_ofd s0 := map translate (conts fs' (r_ifd s0)))\<rparr>"
      using rot_inv_files(4) [OF i(1)] e d by auto
  qed
  have N: "\<nexists>f. f 0 = (At 0, s0) \<and> (\<forall>n. rot_step (f n) (f (Suc n)))" using rot_ends o(3) by metis
  have "map translate (map translate xs) = xs" for xs by (simp add: translate_translate map_idI)
  then show ?thesis using fin rot13a_result [OF o(1) assms(2)] rot_completes [OF c] N o(2) by auto
qed

definition ex_rfs :: rfs where
  "ex_rfs = \<lparr>nodes = [''in'' \<mapsto> 0], conts = (\<lambda>_. [])(0 := ''Uryyb''), newino = 1\<rparr>"

theorem rot13_async_is_sync_witness:
  "\<exists>s0 s. rot_start None None None [''rot13'', ''in'', ''out''] ex_rfs = Inr s0 \<and> rot_reach (At 0, s0) (Synced, s) \<and> conts (r_fs s) 1 = ''Hello''"
proof -
  let ?a = "[''rot13'', ''in'', ''out'']"
  obtain s0 where s0: "rot_start None None None ?a ex_rfs = Inr s0" "r_ifd s0 = 0" "r_ofd s0 = 1" "conts (r_fs s0) 0 = ''Uryyb''" "healthy s0"
    by (simp add: rot_start_def open_files_def open_trunc_def ex_rfs_def healthy_def)
  have ok: "rfs_ok ex_rfs" by (simp add: rfs_ok_def ex_rfs_def)
  obtain s where s: "rot_reach (At 0, s0) (Synced, s)"
    using rot13_async_is_sync [OF s0(1) ok rot_reach.start] s0(5) by auto
  have "map translate ''Uryyb'' = ''Hello''" by code_simp
  then show ?thesis using rot13_async_is_sync [OF s0(1) ok s] s0 s by auto
qed

end
