(* ===== verification/Tell_Wait.thy ===== *)
theory Tell_Wait
  imports Prelude "HOL-Library.Sublist"
begin

text \<open>
  Parent and child that wait for each other: \<^verbatim>\<open>TELL_WAIT\<close>, \<^verbatim>\<open>TELL_PARENT\<close>, \<^verbatim>\<open>WAIT_PARENT\<close>, \<^verbatim>\<open>TELL_CHILD\<close> and \<^verbatim>\<open>WAIT_CHILD\<close> over pipes
  (\<^verbatim>\<open>ipc1/tellwait.c\<close>) and over signals (\<^verbatim>\<open>lib/tellwait.c\<close>), and two programs that use them, \<^verbatim>\<open>proc/tellwait2.c\<close> and \<^verbatim>\<open>ipc1/devzero.c\<close>.
  Two contracts say what the programs rely on. Both versions let each process wait once; only the pipes let it wait again.
\<close>

datatype who = Parent | Child

fun other :: "who \<Rightarrow> who" where "other Parent = Child" | "other Child = Parent"

lemma other_other [simp]: "other (other w) = w" "other w \<noteq> w" "w \<noteq> other w"
  by (cases w; simp)+

lemma not_other: "v \<noteq> w \<Longrightarrow> v = other w"
  by (cases v; cases w) auto

text \<open>What one step of a process that waits gives: it is still in there, the function returns, or the program ends with an error.\<close>

datatype 'w wout = Still 'w | Back | Quits fatal

section \<open>Over pipes\<close>

record pipes =
  pfd1 :: string
  pfd2 :: string

text \<open>\<open>e1\<close>, \<open>e2\<close>: whether the calls of \<^verbatim>\<open>pipe\<close> fail.\<close>

definition TELL_WAIT_pipes :: "errno option \<Rightarrow> errno option \<Rightarrow> pipes res" where
  "TELL_WAIT_pipes e1 e2 = (if e1 \<noteq> None \<or> e2 \<noteq> None then Inl (Err_sys ''pipe error'') else Inr \<lparr>pfd1 = [], pfd2 = []\<rparr>)"

text \<open>\<^verbatim>\<open>TELL_CHILD\<close> when the parent calls it, \<^verbatim>\<open>TELL_PARENT\<close> when the child does.\<close>

fun pipe_tell :: "who \<Rightarrow> pipes \<Rightarrow> pipes" where
  "pipe_tell Parent c = c\<lparr>pfd1 := pfd1 c @ ''p''\<rparr>"
| "pipe_tell Child c = c\<lparr>pfd2 := pfd2 c @ ''c''\<rparr>"

text \<open>\<^verbatim>\<open>WAIT_PARENT\<close> of the child, \<^verbatim>\<open>WAIT_CHILD\<close> of the parent: blocked while the pipe is empty.\<close>

fun pipe_wait :: "who \<Rightarrow> unit \<Rightarrow> pipes \<Rightarrow> (unit wout \<times> pipes) list" where
  "pipe_wait Child u c =
     (case pfd1 c of [] \<Rightarrow> []
      | b # r \<Rightarrow> [(if b \<noteq> CHR ''p'' then Quits (Err_quit ''WAIT_PARENT: incorrect data'') else Back, c\<lparr>pfd1 := r\<rparr>)])"
| "pipe_wait Parent u c =
     (case pfd2 c of [] \<Rightarrow> []
      | b # r \<Rightarrow> [(if b \<noteq> CHR ''c'' then Quits (Err_quit ''WAIT_CHILD: incorrect data'') else Back, c\<lparr>pfd2 := r\<rparr>)])"

definition no_env :: "pipes \<Rightarrow> pipes list" where "no_env c = []"

section \<open>Over signals\<close>

definition SIGUSR1 :: nat where "SIGUSR1 = 10"
definition SIGUSR2 :: nat where "SIGUSR2 = 12"
definition newmask :: "nat set" where "newmask = {SIGUSR1, SIGUSR2}"

text \<open>Each process has its flag, its mask and the signals that wait for it, of which there is at most one of a kind; \<open>oldmask\<close> is what \<^verbatim>\<open>TELL_WAIT\<close> saved.\<close>

record sigs =
  sigflag :: "who \<Rightarrow> bool"
  spend :: "who \<Rightarrow> nat set"
  smask :: "who \<Rightarrow> nat set"
  oldmask :: "nat set"

text \<open>\<open>e1\<close>, \<open>e2\<close>: whether a call of \<^verbatim>\<open>signal\<close> fails, or that of \<^verbatim>\<open>sigprocmask\<close>; \<open>m\<close> is the mask before. The child inherits everything.\<close>

definition TELL_WAIT_sig :: "errno option \<Rightarrow> errno option \<Rightarrow> nat set \<Rightarrow> sigs res" where
  "TELL_WAIT_sig e1 e2 m =
     (if e1 \<noteq> None then Inl (Err_sys ''signal(SIGUSR1) error'')
      else if e2 \<noteq> None then Inl (Err_sys ''SIG_BLOCK error'')
      else Inr \<lparr>sigflag = (\<lambda>_. False), spend = (\<lambda>_. {}), smask = (\<lambda>_. m \<union> newmask), oldmask = m\<rparr>)"

text \<open>The signal that tells a process: \<^verbatim>\<open>SIGUSR1\<close> for the child.\<close>

fun usr :: "who \<Rightarrow> nat" where "usr Child = SIGUSR1" | "usr Parent = SIGUSR2"

definition sig_tell :: "who \<Rightarrow> sigs \<Rightarrow> sigs" where
  "sig_tell w c = c\<lparr>spend := (spend c)(other w := insert (usr (other w)) (spend c (other w)))\<rparr>"

text \<open>The handler runs for all signals of the two that wait and are not in the mask \<open>m\<close>.\<close>

definition sig_usr :: "nat set \<Rightarrow> who \<Rightarrow> sigs \<Rightarrow> sigs" where
  "sig_usr m w c = c\<lparr>sigflag := (sigflag c)(w := True), spend := (spend c)(w := spend c w - (newmask - m))\<rparr>"

text \<open>
  Where \<^verbatim>\<open>WAIT_PARENT\<close> and \<^verbatim>\<open>WAIT_CHILD\<close> are: before the test of the flag, before or in \<^verbatim>\<open>sigsuspend\<close>, and behind the loop. Nobody else sees the flag, so that
  resetting it and setting the mask are one step.
\<close>

datatype wpos = W_test | W_susp | W_clear

fun sig_wait :: "who \<Rightarrow> wpos \<Rightarrow> sigs \<Rightarrow> (wpos wout \<times> sigs) list" where
  "sig_wait w W_test c = [(Still (if sigflag c w then W_clear else W_susp), c)]"
| "sig_wait w W_susp c = (if spend c w \<inter> newmask \<noteq> {} then [(Still W_test, sig_usr {} w c)] else [])"
| "sig_wait w W_clear c = [(Back, c\<lparr>sigflag := (sigflag c)(w := False), smask := (smask c)(w := oldmask c)\<rparr>)]"

text \<open>A signal that is not blocked is delivered at any time, and so also just before a call of \<^verbatim>\<open>sigsuspend\<close>.\<close>

definition sig_env :: "sigs \<Rightarrow> sigs list" where
  "sig_env c = map (\<lambda>w. sig_usr (smask c w) w c) (filter (\<lambda>w. spend c w \<inter> (newmask - smask c w) \<noteq> {}) [Parent, Child])"

section \<open>The contracts\<close>

text \<open>
  \<open>tokens w\<close> is how often \<open>w\<close> has been told and has not yet returned from waiting. A process that has been told never waits for ever: some step leads closer to the return.
  \<open>usable w\<close> says that \<open>w\<close> may call the function, \<open>wat w p\<close> that it is in there.
\<close>

locale tell_wait_once =
  fixes tell :: "who \<Rightarrow> 'c \<Rightarrow> 'c" and wt :: "who \<Rightarrow> 'w \<Rightarrow> 'c \<Rightarrow> ('w wout \<times> 'c) list" and start :: 'w and env :: "'c \<Rightarrow> 'c list"
    and ok :: "'c \<Rightarrow> bool" and tokens :: "who \<Rightarrow> 'c \<Rightarrow> nat" and usable :: "who \<Rightarrow> 'c \<Rightarrow> bool" and wat :: "who \<Rightarrow> 'w \<Rightarrow> 'c \<Rightarrow> bool"
    and rank :: "who \<Rightarrow> 'w \<Rightarrow> 'c \<Rightarrow> nat"
  assumes tell_law: "ok c \<Longrightarrow> tokens (other w) c = 0 \<Longrightarrow> ok (tell w c) \<and> tokens (other w) (tell w c) = 1 \<and> tokens w (tell w c) = tokens w c \<and>
        (\<forall>v. usable v c \<longrightarrow> usable v (tell w c)) \<and> (\<forall>v p. wat v p c \<longrightarrow> wat v p (tell w c))"
    and start_law: "ok c \<Longrightarrow> usable w c \<Longrightarrow> wat w start c"
    and wait_law: "ok c \<Longrightarrow> wat w p c \<Longrightarrow> (r, c') \<in> set (wt w p c) \<Longrightarrow> ok c' \<and> tokens (other w) c' = tokens (other w) c \<and>
        (usable (other w) c \<longrightarrow> usable (other w) c') \<and> (\<forall>q. wat (other w) q c \<longrightarrow> wat (other w) q c') \<and>
        (case r of Still q \<Rightarrow> wat w q c' \<and> tokens w c' = tokens w c | Back \<Rightarrow> tokens w c = Suc (tokens w c') | Quits f \<Rightarrow> False)"
    and env_law: "ok c \<Longrightarrow> c' \<in> set (env c) \<Longrightarrow> ok c' \<and> (\<forall>v. tokens v c' = tokens v c) \<and> (\<forall>v. usable v c \<longrightarrow> usable v c') \<and> (\<forall>v p. wat v p c \<longrightarrow> wat v p c')"
    and live_law: "ok c \<Longrightarrow> wat w p c \<Longrightarrow> 0 < tokens w c \<Longrightarrow>
        \<exists>(r, c') \<in> set (wt w p c). case r of Still q \<Rightarrow> rank w q c' < rank w p c | Back \<Rightarrow> True | Quits f \<Rightarrow> False"

locale tell_wait = tell_wait_once +
  assumes again_law: "ok c \<Longrightarrow> wat w p c \<Longrightarrow> (Back, c') \<in> set (wt w p c) \<Longrightarrow> usable w c'"

section \<open>The pipes provide both\<close>

fun in_pipe :: "who \<Rightarrow> pipes \<Rightarrow> string" where "in_pipe Child c = pfd1 c" | "in_pipe Parent c = pfd2 c"

definition pipes_ok :: "pipes \<Rightarrow> bool" where
  "pipes_ok c \<longleftrightarrow> set (pfd1 c) \<subseteq> {CHR ''p''} \<and> set (pfd2 c) \<subseteq> {CHR ''c''}"

interpretation pw: tell_wait pipe_tell pipe_wait "()" no_env pipes_ok "\<lambda>w c. length (in_pipe w c)" "\<lambda>w c. True" "\<lambda>w p c. True" "\<lambda>w p c. 0"
proof
  fix c w assume "pipes_ok c" "length (in_pipe (other w) c) = 0"
  then show "pipes_ok (pipe_tell w c) \<and> length (in_pipe (other w) (pipe_tell w c)) = 1 \<and> length (in_pipe w (pipe_tell w c)) = length (in_pipe w c) \<and>
        (\<forall>v. True \<longrightarrow> True) \<and> (\<forall>v p. True \<longrightarrow> True)"
    by (cases w) (auto simp: pipes_ok_def)
next
  fix c w and p :: unit and r c' assume "pipes_ok c" "(r, c') \<in> set (pipe_wait w p c)"
  then show "pipes_ok c' \<and> length (in_pipe (other w) c') = length (in_pipe (other w) c) \<and> (True \<longrightarrow> True) \<and> (\<forall>q. True \<longrightarrow> True) \<and>
        (case r of Still q \<Rightarrow> True \<and> length (in_pipe w c') = length (in_pipe w c) | Back \<Rightarrow> length (in_pipe w c) = Suc (length (in_pipe w c')) | Quits f \<Rightarrow> False)"
    by (cases w; cases "pfd1 c"; cases "pfd2 c") (auto simp: pipes_ok_def split: if_splits)
next
  fix c w and p :: unit assume "pipes_ok c" "0 < length (in_pipe w c)"
  then show "\<exists>(r, c') \<in> set (pipe_wait w p c). case r of Still q \<Rightarrow> (0 :: nat) < 0 | Back \<Rightarrow> True | Quits f \<Rightarrow> False"
    by (cases w; cases "pfd1 c"; cases "pfd2 c") (auto simp: pipes_ok_def)
qed (simp_all add: no_env_def)

section \<open>The signals provide the first\<close>

definition sigs_ok :: "sigs \<Rightarrow> bool" where
  "sigs_ok c \<longleftrightarrow> (\<forall>w. spend c w \<subseteq> {usr w} \<and> (sigflag c w \<longrightarrow> spend c w = {}))"

definition sig_tokens :: "who \<Rightarrow> sigs \<Rightarrow> nat" where
  "sig_tokens w c = (if sigflag c w \<or> spend c w \<noteq> {} then 1 else 0)"

definition sig_usable :: "who \<Rightarrow> sigs \<Rightarrow> bool" where
  "sig_usable w c \<longleftrightarrow> newmask \<subseteq> smask c w"

fun sig_wat :: "who \<Rightarrow> wpos \<Rightarrow> sigs \<Rightarrow> bool" where
  "sig_wat w W_test c = sig_usable w c"
| "sig_wat w W_susp c = (sig_usable w c \<and> \<not> sigflag c w)"
| "sig_wat w W_clear c = (sig_usable w c \<and> sigflag c w)"

fun sig_rank :: "who \<Rightarrow> wpos \<Rightarrow> sigs \<Rightarrow> nat" where
  "sig_rank w W_test c = (if sigflag c w then 1 else 3)" | "sig_rank w W_susp c = 2" | "sig_rank w W_clear c = 0"

lemma usr_newmask [simp]: "usr w \<in> newmask"
  by (cases w) (simp_all add: newmask_def)

lemma usr_neq [simp]: "usr (other w) \<noteq> usr w" "usr w \<noteq> usr (other w)"
  by (cases w; simp add: SIGUSR1_def SIGUSR2_def)+

lemma sig_wat_usable: "sig_wat w p c \<Longrightarrow> sig_usable w c"
  by (cases p) auto

interpretation sw: tell_wait_once sig_tell sig_wait W_test sig_env sigs_ok sig_tokens sig_usable sig_wat sig_rank
proof
  fix c w assume a: "sigs_ok c" "sig_tokens (other w) c = 0"
  have "sig_wat v p (sig_tell w c)" if "sig_wat v p c" for v p using that by (cases p) (simp_all add: sig_tell_def sig_usable_def)
  then show "sigs_ok (sig_tell w c) \<and> sig_tokens (other w) (sig_tell w c) = 1 \<and> sig_tokens w (sig_tell w c) = sig_tokens w c \<and>
        (\<forall>v. sig_usable v c \<longrightarrow> sig_usable v (sig_tell w c)) \<and> (\<forall>v p. sig_wat v p c \<longrightarrow> sig_wat v p (sig_tell w c))"
    using a by (auto simp: sigs_ok_def sig_tokens_def sig_tell_def sig_usable_def split: if_splits)
next
  fix c w p r c' assume a: "sigs_ok c" "sig_wat w p c" "(r, c') \<in> set (sig_wait w p c)"
  have o: "spend c' (other w) = spend c (other w)" "sigflag c' (other w) = sigflag c (other w)" "smask c' (other w) = smask c (other w)"
    using a(3) by (cases p; auto simp: sig_usr_def split: if_splits)+
  have "sig_wat (other w) q c' = sig_wat (other w) q c" for q using o by (cases q) (simp_all add: sig_usable_def)
  moreover have "spend c w - newmask = {}" using a(1) usr_newmask [of w] by (fastforce simp: sigs_ok_def)
  then have "sigs_ok c' \<and> (case r of Still q \<Rightarrow> sig_wat w q c' \<and> sig_tokens w c' = sig_tokens w c | Back \<Rightarrow> sig_tokens w c = Suc (sig_tokens w c') | Quits f \<Rightarrow> False)"
    using a by (cases p) (auto simp: sigs_ok_def sig_tokens_def sig_usr_def sig_usable_def split: if_splits)
  ultimately show "sigs_ok c' \<and> sig_tokens (other w) c' = sig_tokens (other w) c \<and> (sig_usable (other w) c \<longrightarrow> sig_usable (other w) c') \<and>
        (\<forall>q. sig_wat (other w) q c \<longrightarrow> sig_wat (other w) q c') \<and>
        (case r of Still q \<Rightarrow> sig_wat w q c' \<and> sig_tokens w c' = sig_tokens w c | Back \<Rightarrow> sig_tokens w c = Suc (sig_tokens w c') | Quits f \<Rightarrow> False)"
    using o by (simp add: sig_tokens_def sig_usable_def)
next
  fix c c' assume a: "sigs_ok c" "c' \<in> set (sig_env c)"
  then obtain w where w: "c' = sig_usr (smask c w) w c" "spend c w \<inter> (newmask - smask c w) \<noteq> {}"
    by (auto simp: sig_env_def split: if_splits)
  then have e: "spend c w = {usr w}" "usr w \<notin> smask c w" using a(1) by (auto simp: sigs_ok_def)
  then have c': "c' = c\<lparr>sigflag := (sigflag c)(w := True), spend := (spend c)(w := {})\<rparr>" using w(1) by (simp add: sig_usr_def)
  have n: "\<not> sig_usable w c" using e(2) by (metis sig_usable_def subsetD usr_newmask)
  have "sig_wat v p c'" if "sig_wat v p c" for v p
    using that n sig_wat_usable [OF that] by (cases p; cases "v = w") (auto simp: c' sig_usable_def)
  then show "sigs_ok c' \<and> (\<forall>v. sig_tokens v c' = sig_tokens v c) \<and> (\<forall>v. sig_usable v c \<longrightarrow> sig_usable v c') \<and> (\<forall>v p. sig_wat v p c \<longrightarrow> sig_wat v p c')"
    using a(1) e(1) by (auto simp: c' sigs_ok_def sig_tokens_def sig_usable_def)
next
  fix c w p assume a: "sigs_ok c" "sig_wat w p c" "0 < sig_tokens w c"
  have "spend c w \<subseteq> newmask" using a(1) usr_newmask [of w] unfolding sigs_ok_def by (metis insert_subset subset_trans bot.extremum)
  then have "spend c w \<inter> newmask = spend c w" by blast
  with a show "\<exists>(r, c') \<in> set (sig_wait w p c). case r of Still q \<Rightarrow> sig_rank w q c' < sig_rank w p c | Back \<Rightarrow> True | Quits f \<Rightarrow> False"
    by (cases p) (auto simp: sigs_ok_def sig_tokens_def sig_usr_def split: if_splits)
qed (simp add: sig_usable_def)

section \<open>Output in order\<close>

text \<open>
  \<^verbatim>\<open>proc/tellwait2.c\<close>: what a process has still to write, and whether it tells the other one afterwards; or it waits first.
\<close>

datatype 'w tpos = T_wait 'w | T_print string | T_tell | T_exit | T_quit fatal

record ('c, 'w) t2 =
  t_pos :: "who \<Rightarrow> 'w tpos"
  t_out :: string
  t_comm :: 'c

definition child_text :: string where "child_text = ''output from child'' @ [NL]"
definition parent_text :: string where "parent_text = ''output from parent'' @ [NL]"

definition set_pos :: "who \<Rightarrow> 'w tpos \<Rightarrow> ('c, 'w) t2 \<Rightarrow> ('c, 'w) t2" where
  "set_pos w p s = s\<lparr>t_pos := (t_pos s)(w := p)\<rparr>"

definition tellwait2_start :: "'w \<Rightarrow> 'c \<Rightarrow> ('c, 'w) t2" where
  "tellwait2_start w0 c = \<lparr>t_pos = (\<lambda>w. case w of Parent \<Rightarrow> T_print parent_text | Child \<Rightarrow> T_wait w0), t_out = [], t_comm = c\<rparr>"

text \<open>\<^verbatim>\<open>charatatime\<close> writes one character with each call of the kernel.\<close>

definition tellwait2_next :: "(who \<Rightarrow> 'c \<Rightarrow> 'c) \<Rightarrow> (who \<Rightarrow> 'w \<Rightarrow> 'c \<Rightarrow> ('w wout \<times> 'c) list) \<Rightarrow> who \<Rightarrow> ('c, 'w) t2 \<Rightarrow> ('c, 'w) t2 list" where
  "tellwait2_next tell wt w s =
     (case t_pos s w of
        T_wait p \<Rightarrow> map (\<lambda>(r, c). set_pos w (case r of Still q \<Rightarrow> T_wait q | Back \<Rightarrow> T_print child_text | Quits f \<Rightarrow> T_quit f) (s\<lparr>t_comm := c\<rparr>)) (wt w p (t_comm s))
      | T_print [] \<Rightarrow> [set_pos w (case w of Parent \<Rightarrow> T_tell | Child \<Rightarrow> T_exit) s]
      | T_print (c # cs) \<Rightarrow> [set_pos w (T_print cs) (s\<lparr>t_out := t_out s @ [c]\<rparr>)]
      | T_tell \<Rightarrow> [set_pos w T_exit (s\<lparr>t_comm := tell w (t_comm s)\<rparr>)]
      | T_exit \<Rightarrow> [] | T_quit f \<Rightarrow> [])"

inductive t2_step :: "(who \<Rightarrow> 'c \<Rightarrow> 'c) \<Rightarrow> (who \<Rightarrow> 'w \<Rightarrow> 'c \<Rightarrow> ('w wout \<times> 'c) list) \<Rightarrow> ('c \<Rightarrow> 'c list) \<Rightarrow> ('c, 'w) t2 \<Rightarrow> ('c, 'w) t2 \<Rightarrow> bool"
  for tell wt env where
  proc: "s' \<in> set (tellwait2_next tell wt w s) \<Longrightarrow> t2_step tell wt env s s'"
| env: "c \<in> set (env (t_comm s)) \<Longrightarrow> t2_step tell wt env s (s\<lparr>t_comm := c\<rparr>)"

inductive t2_reach :: "(who \<Rightarrow> 'c \<Rightarrow> 'c) \<Rightarrow> (who \<Rightarrow> 'w \<Rightarrow> 'c \<Rightarrow> ('w wout \<times> 'c) list) \<Rightarrow> ('c \<Rightarrow> 'c list) \<Rightarrow> ('c, 'w) t2 \<Rightarrow> ('c, 'w) t2 \<Rightarrow> bool"
  for tell wt env s0 where
  start: "t2_reach tell wt env s0 s0"
| step: "t2_reach tell wt env s0 s \<Longrightarrow> t2_step tell wt env s s' \<Longrightarrow> t2_reach tell wt env s0 s'"

definition t2_waits :: "(who \<Rightarrow> 'c \<Rightarrow> nat) \<Rightarrow> (who \<Rightarrow> 'w \<Rightarrow> 'c \<Rightarrow> bool) \<Rightarrow> nat \<Rightarrow> ('c, 'w) t2 \<Rightarrow> bool" where
  "t2_waits tokens wat n s \<longleftrightarrow> tokens Child (t_comm s) = n \<and> (\<exists>p. t_pos s Child = T_wait p \<and> wat Child p (t_comm s))"

definition t2_inv :: "('c \<Rightarrow> bool) \<Rightarrow> (who \<Rightarrow> 'c \<Rightarrow> nat) \<Rightarrow> (who \<Rightarrow> 'w \<Rightarrow> 'c \<Rightarrow> bool) \<Rightarrow> ('c, 'w) t2 \<Rightarrow> bool" where
  "t2_inv ok tokens wat s \<longleftrightarrow> ok (t_comm s) \<and>
     (case t_pos s Parent of
        T_print cs \<Rightarrow> t_out s @ cs = parent_text \<and> t2_waits tokens wat 0 s
      | T_tell \<Rightarrow> t_out s = parent_text \<and> t2_waits tokens wat 0 s
      | T_exit \<Rightarrow> t_out s = parent_text \<and> t2_waits tokens wat 1 s \<or>
          (case t_pos s Child of T_print cs \<Rightarrow> t_out s @ cs = parent_text @ child_text | T_exit \<Rightarrow> t_out s = parent_text @ child_text | _ \<Rightarrow> False)
      | _ \<Rightarrow> False)"

lemma set_pos_sel [simp]: "t_pos (set_pos w p s) = (t_pos s)(w := p)" "t_out (set_pos w p s) = t_out s" "t_comm (set_pos w p s) = t_comm s"
  by (simp_all add: set_pos_def)

lemma t2_reach_first: "t2_reach tell wt env s1 s2 \<Longrightarrow> t2_step tell wt env s0 s1 \<Longrightarrow> t2_reach tell wt env s0 s2"
  by (induction rule: t2_reach.induct) (blast intro: t2_reach.intros)+

lemma t2_reach_trans: "t2_reach tell wt env s1 s2 \<Longrightarrow> t2_reach tell wt env s0 s1 \<Longrightarrow> t2_reach tell wt env s0 s2"
  by (induction rule: t2_reach.induct) (blast intro: t2_reach.intros)+

lemma t2_prints:
  "t_pos s w = T_print cs \<Longrightarrow> t2_reach tell wt env s (set_pos w (T_print []) (s\<lparr>t_out := t_out s @ cs\<rparr>))"
proof (induction cs arbitrary: s)
  case Nil
  have "set_pos w (T_print []) (s\<lparr>t_out := t_out s @ []\<rparr>) = s" using Nil by (simp add: set_pos_def fun_upd_idem)
  then show ?case by (metis t2_reach.start)
next
  case (Cons c cs)
  let ?s = "set_pos w (T_print cs) (s\<lparr>t_out := t_out s @ [c]\<rparr>)"
  have "t2_step tell wt env s ?s" by (rule t2_step.proc [where w = w]) (simp add: tellwait2_next_def Cons.prems)
  moreover have "t2_reach tell wt env ?s (set_pos w (T_print []) (?s\<lparr>t_out := t_out ?s @ cs\<rparr>))" by (rule Cons.IH) simp
  moreover have "set_pos w (T_print []) (?s\<lparr>t_out := t_out ?s @ cs\<rparr>) = set_pos w (T_print []) (s\<lparr>t_out := t_out s @ c # cs\<rparr>)" by (simp add: set_pos_def)
  ultimately show ?case using t2_reach_first by metis
qed

context tell_wait_once
begin

lemma t2_step_inv:
  assumes "t2_step tell wt env s s'" "t2_inv ok tokens wat s"
  shows "t2_inv ok tokens wat s'"
  using assms(1)
proof cases
  case (env c)
  then show ?thesis using assms(2) env_law [of "t_comm s" c] unfolding t2_inv_def t2_waits_def
    by (auto split: tpos.splits)
next
  case (proc w)
  show ?thesis
  proof (cases w)
    case Parent
    then show ?thesis using proc assms(2) tell_law [of "t_comm s" Parent]
      by (auto simp: t2_inv_def t2_waits_def tellwait2_next_def split: tpos.splits list.splits)
  next
    case Child
    show ?thesis
    proof (cases "t_pos s Child")
      case (T_wait p)
      obtain r c where rc: "(r, c) \<in> set (wt Child p (t_comm s))"
        "s' = set_pos Child (case r of Still q \<Rightarrow> T_wait q | Back \<Rightarrow> T_print child_text | Quits f \<Rightarrow> T_quit f) (s\<lparr>t_comm := c\<rparr>)"
        using proc T_wait Child by (auto simp: tellwait2_next_def)
      have wk: "ok (t_comm s)" "wat Child p (t_comm s)" using assms(2) T_wait by (auto simp: t2_inv_def t2_waits_def split: tpos.splits)
      show ?thesis using assms(2) T_wait rc(2) wait_law [OF wk rc(1)]
        by (cases r) (auto simp: t2_inv_def t2_waits_def split: tpos.splits)
    qed (use proc Child assms(2) in \<open>auto simp: t2_inv_def t2_waits_def tellwait2_next_def split: tpos.splits list.splits\<close>)
  qed
qed

lemma t2_reach_inv: "t2_reach tell wt env s0 s \<Longrightarrow> t2_inv ok tokens wat s0 \<Longrightarrow> t2_inv ok tokens wat s"
  by (induction rule: t2_reach.induct) (auto intro: t2_step_inv)

lemma t2_wait_ends:
  assumes "t2_inv ok tokens wat s" "t_pos s Parent = T_exit" "t_pos s Child = T_wait p"
  shows "\<exists>s'. t2_reach tell wt env s s' \<and> t_pos s' Parent = T_exit \<and> t_pos s' Child = T_print child_text"
  using assms
proof (induction "rank Child p (t_comm s)" arbitrary: p s rule: less_induct)
  case less
  have wk: "ok (t_comm s)" "wat Child p (t_comm s)" "0 < tokens Child (t_comm s)" using less.prems by (auto simp: t2_inv_def t2_waits_def)
  obtain r c where rc: "(r, c) \<in> set (wt Child p (t_comm s))" "case r of Still q \<Rightarrow> rank Child q c < rank Child p (t_comm s) | Back \<Rightarrow> True | Quits f \<Rightarrow> False"
    using live_law [OF wk] by blast
  let ?s = "set_pos Child (case r of Still q \<Rightarrow> T_wait q | Back \<Rightarrow> T_print child_text | Quits f \<Rightarrow> T_quit f) (s\<lparr>t_comm := c\<rparr>)"
  have st: "t2_step tell wt env s ?s" by (rule t2_step.proc [where w = Child]) (use less.prems(3) rc(1) in \<open>auto simp: tellwait2_next_def intro!: image_eqI [of _ _ "(r, c)"]\<close>)
  show ?case
  proof (cases r)
    case (Still q)
    have "\<exists>s'. t2_reach tell wt env ?s s' \<and> t_pos s' Parent = T_exit \<and> t_pos s' Child = T_print child_text"
      by (rule less.hyps [OF _ t2_step_inv [OF st less.prems(1)]]) (use rc(2) Still less.prems(2) in auto)
    then show ?thesis using t2_reach_first [OF _ st] by blast
  next
    case Back
    then show ?thesis using t2_reach.step [OF t2_reach.start st] less.prems(2) by (intro exI [of _ ?s]) simp
  qed (use rc(2) in simp)
qed

lemma t2_parent_ends:
  assumes "t2_inv ok tokens wat s"
  shows "\<exists>s'. t2_reach tell wt env s s' \<and> t_pos s' Parent = T_exit"
proof -
  have told: "\<exists>s'. t2_reach tell wt env s s' \<and> t_pos s' Parent = T_exit" if "t_pos s Parent = T_tell" for s
  proof -
    have "t2_step tell wt env s (set_pos Parent T_exit (s\<lparr>t_comm := tell Parent (t_comm s)\<rparr>))"
      by (rule t2_step.proc [where w = Parent]) (simp add: tellwait2_next_def that)
    then show ?thesis using t2_reach.step [OF t2_reach.start] by fastforce
  qed
  show ?thesis
  proof (cases "t_pos s Parent")
    case (T_print cs)
    let ?s = "set_pos Parent (T_print []) (s\<lparr>t_out := t_out s @ cs\<rparr>)"
    have "t2_step tell wt env ?s (set_pos Parent T_tell ?s)" by (rule t2_step.proc [where w = Parent]) (simp add: tellwait2_next_def)
    then have "t2_reach tell wt env s (set_pos Parent T_tell ?s)" using t2_prints [OF T_print] t2_reach.step by blast
    moreover obtain s' where "t2_reach tell wt env (set_pos Parent T_tell ?s) s'" "t_pos s' Parent = T_exit" using told [of "set_pos Parent T_tell ?s"] by auto
    ultimately show ?thesis using t2_reach_trans by blast
  next
    case T_exit
    then show ?thesis using t2_reach.start by blast
  qed (use assms told in \<open>auto simp: t2_inv_def\<close>)
qed

lemma t2_child_ends:
  assumes "t2_inv ok tokens wat s" "t_pos s Parent = T_exit"
  shows "\<exists>s'. t2_reach tell wt env s s' \<and> t_pos s' Parent = T_exit \<and> t_pos s' Child = T_exit"
proof -
  have printing: "\<exists>s'. t2_reach tell wt env s s' \<and> t_pos s' Parent = T_exit \<and> t_pos s' Child = T_exit"
    if p: "t_pos s Parent = T_exit" "t_pos s Child = T_print cs" for s cs
  proof -
    let ?s = "set_pos Child (T_print []) (s\<lparr>t_out := t_out s @ cs\<rparr>)"
    have "t2_step tell wt env ?s (set_pos Child T_exit ?s)" by (rule t2_step.proc [where w = Child]) (simp add: tellwait2_next_def)
    then have "t2_reach tell wt env s (set_pos Child T_exit ?s)" using t2_prints [OF p(2)] t2_reach.step by blast
    then show ?thesis using p(1) by (intro exI [of _ "set_pos Child T_exit ?s"]) simp
  qed
  show ?thesis
  proof (cases "t_pos s Child")
    case (T_wait p)
    then obtain s1 where "t2_reach tell wt env s s1" "t_pos s1 Parent = T_exit" "t_pos s1 Child = T_print child_text"
      using t2_wait_ends [OF assms] by blast
    then show ?thesis using printing [of s1] t2_reach_trans by blast
  next
    case (T_print cs)
    then show ?thesis using printing assms(2) by blast
  next
    case T_exit
    then show ?thesis using assms(2) t2_reach.start by blast
  qed (use assms in \<open>auto simp: t2_inv_def t2_waits_def\<close>)
qed

lemma t2_ordered:
  assumes "ok c" "tokens Child c = 0" "usable Child c" "t2_reach tell wt env (tellwait2_start start c) s"
  shows "prefix (t_out s) (parent_text @ child_text)" "\<exists>s'. t2_reach tell wt env s s' \<and> (\<forall>w. t_pos s' w = T_exit) \<and> t_out s' = parent_text @ child_text"
    "t_pos s w \<noteq> T_quit f"
proof -
  have "t2_inv ok tokens wat (tellwait2_start start c)" using assms(1,2) start_law [OF assms(1,3)] by (simp add: t2_inv_def t2_waits_def tellwait2_start_def)
  then have I: "t2_inv ok tokens wat s" using t2_reach_inv [OF assms(4)] by blast
  then show "prefix (t_out s) (parent_text @ child_text)"
    by (auto simp: t2_inv_def prefix_def split: tpos.splits) (metis append.assoc)+
  show "t_pos s w \<noteq> T_quit f" using I by (cases w) (auto simp: t2_inv_def t2_waits_def split: tpos.splits)
  obtain s1 where s1: "t2_reach tell wt env s s1" "t_pos s1 Parent = T_exit" using t2_parent_ends [OF I] by blast
  obtain s2 where s2: "t2_reach tell wt env s1 s2" "t_pos s2 Parent = T_exit" "t_pos s2 Child = T_exit"
    using t2_child_ends [OF t2_reach_inv [OF s1(1) I] s1(2)] by blast
  have r: "t2_reach tell wt env s s2" using t2_reach_trans [OF s2(1) s1(1)] .
  have "t_out s2 = parent_text @ child_text" using t2_reach_inv [OF r I] s2(2,3) by (simp add: t2_inv_def t2_waits_def)
  moreover have "t_pos s2 v = T_exit" for v using s2(2,3) by (cases v) auto
  ultimately show "\<exists>s'. t2_reach tell wt env s s' \<and> (\<forall>w. t_pos s' w = T_exit) \<and> t_out s' = parent_text @ child_text" using r by blast
qed

end

text \<open>
  C25: The output of \<^verbatim>\<open>proc/tellwait2.c\<close>, with either version of the functions. At any time what has been written is a beginning of the parent's line followed by the child's line,
  however the two processes interleave and whenever the signal arrives, and from every state both can get to their ends; no process waits for ever and none leaves with an error.
\<close>

theorem tellwait2_in_order:
  "(\<forall>m c s. TELL_WAIT_sig None None m = Inr c \<longrightarrow> t2_reach sig_tell sig_wait sig_env (tellwait2_start W_test c) s \<longrightarrow>
      prefix (t_out s) (parent_text @ child_text) \<and> (\<forall>w f. t_pos s w \<noteq> T_quit f) \<and>
      (\<exists>s'. t2_reach sig_tell sig_wait sig_env s s' \<and> (\<forall>w. t_pos s' w = T_exit) \<and> t_out s' = parent_text @ child_text)) \<and>
   (\<forall>c s. TELL_WAIT_pipes None None = Inr c \<longrightarrow> t2_reach pipe_tell pipe_wait no_env (tellwait2_start () c) s \<longrightarrow>
      prefix (t_out s) (parent_text @ child_text) \<and> (\<forall>w f. t_pos s w \<noteq> T_quit f) \<and>
      (\<exists>s'. t2_reach pipe_tell pipe_wait no_env s s' \<and> (\<forall>w. t_pos s' w = T_exit) \<and> t_out s' = parent_text @ child_text))"
proof (intro conjI allI impI)
  fix m c s assume c: "TELL_WAIT_sig None None m = Inr c" and r: "t2_reach sig_tell sig_wait sig_env (tellwait2_start W_test c) s"
  have k: "sigs_ok c" "sig_tokens Child c = 0" "sig_usable Child c" using c by (auto simp: TELL_WAIT_sig_def sigs_ok_def sig_tokens_def sig_usable_def)
  note o = sw.t2_ordered [OF k r]
  show "prefix (t_out s) (parent_text @ child_text)" "\<exists>s'. t2_reach sig_tell sig_wait sig_env s s' \<and> (\<forall>w. t_pos s' w = T_exit) \<and> t_out s' = parent_text @ child_text"
    using o by blast+
  show "t_pos s w \<noteq> T_quit f" for w f using o by blast
next
  fix c s assume c: "TELL_WAIT_pipes None None = Inr c" and r: "t2_reach pipe_tell pipe_wait no_env (tellwait2_start () c) s"
  have k: "pipes_ok c" "length (in_pipe Child c) = 0" using c by (auto simp: TELL_WAIT_pipes_def pipes_ok_def)
  note o = pw.t2_ordered [OF k TrueI r]
  show "prefix (t_out s) (parent_text @ child_text)" "\<exists>s'. t2_reach pipe_tell pipe_wait no_env s s' \<and> (\<forall>w. t_pos s' w = T_exit) \<and> t_out s' = parent_text @ child_text"
    using o by blast+
  show "t_pos s w \<noteq> T_quit f" for w f using o by blast
qed

theorem tellwait2_in_order_witness:
  "\<exists>c s. TELL_WAIT_sig None None {} = Inr c \<and> t2_reach sig_tell sig_wait sig_env (tellwait2_start W_test c) s \<and> (\<forall>w. t_pos s w = T_exit) \<and>
     t_out s = ''output from parent'' @ [NL] @ ''output from child'' @ [NL]"
proof -
  obtain c where c: "TELL_WAIT_sig None None {} = Inr c" by (simp add: TELL_WAIT_sig_def)
  then obtain s where "t2_reach sig_tell sig_wait sig_env (tellwait2_start W_test c) s" "\<forall>w. t_pos s w = T_exit" "t_out s = parent_text @ child_text"
    using tellwait2_in_order t2_reach.start by blast
  then show ?thesis using c by (auto simp: parent_text_def child_text_def)
qed

section \<open>Taking turns\<close>

text \<open>
  \<^verbatim>\<open>ipc1/devzero.c\<close>: both processes add one to a number in shared memory in turn, and each checks that it finds the number it expects. The increment is a read and a
  write. \<open>n\<close> is the number of rounds.
\<close>

definition NLOOPS :: nat where "NLOOPS = 1000"

datatype 'w dpos = D_read nat | D_write nat nat | D_tell nat | D_wait nat 'w | D_exit | D_quit fatal

record ('c, 'w) dz =
  d_pos :: "who \<Rightarrow> 'w dpos"
  d_area :: nat
  d_comm :: 'c

definition d_go :: "who \<Rightarrow> 'w dpos \<Rightarrow> ('c, 'w) dz \<Rightarrow> ('c, 'w) dz" where
  "d_go w p s = s\<lparr>d_pos := (d_pos s)(w := p)\<rparr>"

text \<open>The heads of the two loops.\<close>

fun d_loop :: "nat \<Rightarrow> 'w \<Rightarrow> who \<Rightarrow> nat \<Rightarrow> 'w dpos" where
  "d_loop n w0 Parent i = (if i < n then D_read i else D_exit)"
| "d_loop n w0 Child i = (if i < n + 1 then D_wait i w0 else D_exit)"

definition devzero_start :: "nat \<Rightarrow> 'w \<Rightarrow> 'c \<Rightarrow> ('c, 'w) dz" where
  "devzero_start n w0 c = \<lparr>d_pos = (\<lambda>w. d_loop n w0 w (case w of Parent \<Rightarrow> 0 | Child \<Rightarrow> 1)), d_area = 0, d_comm = c\<rparr>"

definition devzero_next :: "nat \<Rightarrow> (who \<Rightarrow> 'c \<Rightarrow> 'c) \<Rightarrow> (who \<Rightarrow> 'w \<Rightarrow> 'c \<Rightarrow> ('w wout \<times> 'c) list) \<Rightarrow> 'w \<Rightarrow> who \<Rightarrow> ('c, 'w) dz \<Rightarrow> ('c, 'w) dz list" where
  "devzero_next n tell wt w0 w s =
     (case d_pos s w of
        D_read i \<Rightarrow> [d_go w (D_write i (d_area s)) s]
      | D_write i v \<Rightarrow>
          [d_go w (if v \<noteq> i then D_quit (Err_quit (case w of Parent \<Rightarrow> ''parent: expected'' | Child \<Rightarrow> ''child: expected'')) else D_tell i) (s\<lparr>d_area := v + 1\<rparr>)]
      | D_tell i \<Rightarrow> [d_go w (case w of Parent \<Rightarrow> D_wait i w0 | Child \<Rightarrow> d_loop n w0 Child (i + 2)) (s\<lparr>d_comm := tell w (d_comm s)\<rparr>)]
      | D_wait i p \<Rightarrow>
          map (\<lambda>(r, c). d_go w (case r of Still q \<Rightarrow> D_wait i q
                                 | Back \<Rightarrow> (case w of Parent \<Rightarrow> d_loop n w0 Parent (i + 2) | Child \<Rightarrow> D_read i)
                                 | Quits f \<Rightarrow> D_quit f) (s\<lparr>d_comm := c\<rparr>)) (wt w p (d_comm s))
      | D_exit \<Rightarrow> [] | D_quit f \<Rightarrow> [])"

inductive dz_step :: "nat \<Rightarrow> (who \<Rightarrow> 'c \<Rightarrow> 'c) \<Rightarrow> (who \<Rightarrow> 'w \<Rightarrow> 'c \<Rightarrow> ('w wout \<times> 'c) list) \<Rightarrow> 'w \<Rightarrow> ('c \<Rightarrow> 'c list) \<Rightarrow> ('c, 'w) dz \<Rightarrow> ('c, 'w) dz \<Rightarrow> bool"
  for n tell wt w0 env where
  proc: "s' \<in> set (devzero_next n tell wt w0 w s) \<Longrightarrow> dz_step n tell wt w0 env s s'"
| env: "c \<in> set (env (d_comm s)) \<Longrightarrow> dz_step n tell wt w0 env s (s\<lparr>d_comm := c\<rparr>)"

inductive dz_reach :: "nat \<Rightarrow> (who \<Rightarrow> 'c \<Rightarrow> 'c) \<Rightarrow> (who \<Rightarrow> 'w \<Rightarrow> 'c \<Rightarrow> ('w wout \<times> 'c) list) \<Rightarrow> 'w \<Rightarrow> ('c \<Rightarrow> 'c list) \<Rightarrow> ('c, 'w) dz \<Rightarrow> ('c, 'w) dz \<Rightarrow> bool"
  for n tell wt w0 env s0 where
  start: "dz_reach n tell wt w0 env s0 s0"
| step: "dz_reach n tell wt w0 env s0 s \<Longrightarrow> dz_step n tell wt w0 env s s' \<Longrightarrow> dz_reach n tell wt w0 env s0 s'"

text \<open>
  Whose turn it is. \<open>wk\<close>: the position a process waits in is one the functions can be in. The parent is in its round \<open>i\<close>, or the child in its round \<open>i + 1\<close>, or both have ended.
\<close>

definition d_waits :: "(who \<Rightarrow> 'w \<Rightarrow> 'c \<Rightarrow> bool) \<Rightarrow> who \<Rightarrow> nat \<Rightarrow> ('c, 'w) dz \<Rightarrow> bool" where
  "d_waits wat w i s \<longleftrightarrow> (\<exists>p. d_pos s w = D_wait i p \<and> wat w p (d_comm s))"

definition d_turn :: "who \<Rightarrow> nat \<Rightarrow> ('c, 'w) dz \<Rightarrow> bool" where
  "d_turn w i s \<longleftrightarrow> d_pos s w = D_read i \<and> d_area s = i \<or> d_pos s w = D_write i i \<and> d_area s = i \<or> d_pos s w = D_tell i \<and> d_area s = i + 1"

definition d_child :: "nat \<Rightarrow> (who \<Rightarrow> 'w \<Rightarrow> 'c \<Rightarrow> bool) \<Rightarrow> nat \<Rightarrow> ('c, 'w) dz \<Rightarrow> bool" where
  "d_child n wat i s \<longleftrightarrow> (if i < n + 1 then d_waits wat Child i s else d_pos s Child = D_exit)"

datatype dphase = Parent_turn | Child_told | Child_turn | Parent_told | Over

definition d_phase :: "nat \<Rightarrow> (who \<Rightarrow> 'c \<Rightarrow> nat) \<Rightarrow> (who \<Rightarrow> 'w \<Rightarrow> 'c \<Rightarrow> bool) \<Rightarrow> dphase \<Rightarrow> nat \<Rightarrow> ('c, 'w) dz \<Rightarrow> bool" where
  "d_phase n tokens wat ph i s \<longleftrightarrow>
     (case ph of
        Parent_turn \<Rightarrow> i < n \<and> d_turn Parent i s \<and> d_waits wat Child (i + 1) s \<and> tokens Parent (d_comm s) = 0 \<and> tokens Child (d_comm s) = 0
      | Child_told \<Rightarrow> i < n \<and> d_waits wat Parent i s \<and> d_waits wat Child (i + 1) s \<and> d_area s = i + 1 \<and> tokens Parent (d_comm s) = 0 \<and> tokens Child (d_comm s) = 1
      | Child_turn \<Rightarrow> i < n \<and> d_waits wat Parent i s \<and> d_turn Child (i + 1) s \<and> tokens Parent (d_comm s) = 0 \<and> tokens Child (d_comm s) = 0
      | Parent_told \<Rightarrow> i < n \<and> d_waits wat Parent i s \<and> d_child n wat (i + 3) s \<and> d_area s = i + 2 \<and> tokens Parent (d_comm s) = 1 \<and> tokens Child (d_comm s) = 0
      | Over \<Rightarrow> n \<le> i \<and> i < n + 2 \<and> d_pos s Parent = D_exit \<and> d_pos s Child = D_exit \<and> d_area s = i)"

definition d_inv :: "nat \<Rightarrow> ('c \<Rightarrow> bool) \<Rightarrow> (who \<Rightarrow> 'c \<Rightarrow> nat) \<Rightarrow> (who \<Rightarrow> 'c \<Rightarrow> bool) \<Rightarrow> (who \<Rightarrow> 'w \<Rightarrow> 'c \<Rightarrow> bool) \<Rightarrow> dphase \<Rightarrow> nat \<Rightarrow> ('c, 'w) dz \<Rightarrow> bool" where
  "d_inv n ok tokens usable wat ph i s \<longleftrightarrow> ok (d_comm s) \<and> even i \<and> (\<forall>w. (\<exists>j p. d_pos s w = D_wait j p) \<or> usable w (d_comm s)) \<and> d_phase n tokens wat ph i s"

lemma d_go_sel [simp]: "d_pos (d_go w p s) = (d_pos s)(w := p)" "d_area (d_go w p s) = d_area s" "d_comm (d_go w p s) = d_comm s"
  by (simp_all add: d_go_def)

lemma dz_reach_first: "dz_reach n tell wt w0 env s1 s2 \<Longrightarrow> dz_step n tell wt w0 env s0 s1 \<Longrightarrow> dz_reach n tell wt w0 env s0 s2"
  by (induction rule: dz_reach.induct) (blast intro: dz_reach.intros)+

lemma dz_reach_trans: "dz_reach n tell wt w0 env s1 s2 \<Longrightarrow> dz_reach n tell wt w0 env s0 s1 \<Longrightarrow> dz_reach n tell wt w0 env s0 s2"
  by (induction rule: dz_reach.induct) (blast intro: dz_reach.intros)+

text \<open>A turn, step by step and as a whole.\<close>

lemma d_turn_next:
  assumes "d_turn w i s" "s' \<in> set (devzero_next n tell wt w0 w s)"
  shows "d_turn w i s' \<and> d_comm s' = d_comm s \<and> d_pos s' (other w) = d_pos s (other w) \<and> (\<forall>j p. d_pos s' w \<noteq> D_wait j p) \<or>
    d_pos s' = (d_pos s)(w := case w of Parent \<Rightarrow> D_wait i w0 | Child \<Rightarrow> d_loop n w0 Child (i + 2)) \<and> d_area s' = i + 1 \<and> d_comm s' = tell w (d_comm s)"
  using assms by (auto simp: d_turn_def devzero_next_def)

lemma d_turn_all:
  assumes "d_turn w i s"
  shows "\<exists>s'. dz_reach n tell wt w0 env s s' \<and> d_pos s' = (d_pos s)(w := case w of Parent \<Rightarrow> D_wait i w0 | Child \<Rightarrow> d_loop n w0 Child (i + 2)) \<and>
    d_area s' = i + 1 \<and> d_comm s' = tell w (d_comm s)"
proof -
  let ?fin = "\<lambda>s s'. d_pos s' = (d_pos s)(w := case w of Parent \<Rightarrow> D_wait i w0 | Child \<Rightarrow> d_loop n w0 Child (i + 2)) \<and> d_area s' = i + 1 \<and> d_comm s' = tell w (d_comm s)"
  have 1: "\<exists>s'. dz_reach n tell wt w0 env s s' \<and> ?fin s s'" if "d_pos s w = D_tell i" "d_area s = i + 1" for s
  proof -
    let ?s = "d_go w (case w of Parent \<Rightarrow> D_wait i w0 | Child \<Rightarrow> d_loop n w0 Child (i + 2)) (s\<lparr>d_comm := tell w (d_comm s)\<rparr>)"
    have "dz_step n tell wt w0 env s ?s" by (rule dz_step.proc [where w = w]) (simp add: devzero_next_def that)
    then have "dz_reach n tell wt w0 env s ?s" by (rule dz_reach.step [OF dz_reach.start])
    then show ?thesis by (intro exI [of _ ?s]) (simp add: that)
  qed
  have 2: "\<exists>s'. dz_reach n tell wt w0 env s s' \<and> ?fin s s'" if "d_pos s w = D_write i i" "d_area s = i" for s
  proof -
    let ?s = "d_go w (D_tell i) (s\<lparr>d_area := i + 1\<rparr>)"
    have st: "dz_step n tell wt w0 env s ?s" by (rule dz_step.proc [where w = w]) (simp add: devzero_next_def that)
    obtain s' where "dz_reach n tell wt w0 env ?s s'" "?fin ?s s'" using 1 [of ?s] by auto
    then show ?thesis using dz_reach_first [OF _ st] by (intro exI [of _ s']) simp
  qed
  have 3: "\<exists>s'. dz_reach n tell wt w0 env s s' \<and> ?fin s s'" if r: "d_pos s w = D_read i" "d_area s = i" for s
  proof -
    let ?s = "d_go w (D_write i i) s"
    have st: "dz_step n tell wt w0 env s ?s" by (rule dz_step.proc [where w = w]) (simp add: devzero_next_def r)
    obtain s' where "dz_reach n tell wt w0 env ?s s'" "?fin ?s s'" using 2 [of ?s] r(2) by auto
    then show ?thesis using dz_reach_first [OF _ st] by (intro exI [of _ s']) simp
  qed
  show ?thesis using assms 1 2 3 unfolding d_turn_def by blast
qed

context tell_wait
begin

text \<open>A step of a process that waits.\<close>

lemma d_wait_next:
  assumes "ok (d_comm s)" "d_waits wat w i s" "s' \<in> set (devzero_next n tell wt start w s)"
  shows "ok (d_comm s') \<and> d_area s' = d_area s \<and> d_pos s' (other w) = d_pos s (other w) \<and> tokens (other w) (d_comm s') = tokens (other w) (d_comm s) \<and>
    (usable (other w) (d_comm s) \<longrightarrow> usable (other w) (d_comm s')) \<and> (\<forall>j. d_waits wat (other w) j s \<longrightarrow> d_waits wat (other w) j s') \<and>
    (d_waits wat w i s' \<and> tokens w (d_comm s') = tokens w (d_comm s) \<or>
     d_pos s' w = (case w of Parent \<Rightarrow> d_loop n start Parent (i + 2) | Child \<Rightarrow> D_read i) \<and> usable w (d_comm s') \<and> tokens w (d_comm s) = Suc (tokens w (d_comm s')))"
proof -
  obtain p where p: "d_pos s w = D_wait i p" "wat w p (d_comm s)" using assms(2) by (auto simp: d_waits_def)
  obtain r c where rc: "(r, c) \<in> set (wt w p (d_comm s))"
    "s' = d_go w (case r of Still q \<Rightarrow> D_wait i q | Back \<Rightarrow> (case w of Parent \<Rightarrow> d_loop n start Parent (i + 2) | Child \<Rightarrow> D_read i) | Quits f \<Rightarrow> D_quit f) (s\<lparr>d_comm := c\<rparr>)"
    using assms(3) p(1) by (auto simp: devzero_next_def)
  note w = wait_law [OF assms(1) p(2) rc(1)]
  have b: "usable w c" if "r = Back" using again_law [OF assms(1) p(2)] rc(1) that by simp
  show ?thesis
  proof (cases r)
    case (Still q)
    then show ?thesis using w rc(2) by (auto simp: d_waits_def)
  next
    case Back
    then show ?thesis using w b rc(2) by (auto simp: d_waits_def)
  next
    case (Quits f)
    then show ?thesis using w by simp
  qed
qed

lemma d_env_inv:
  assumes "d_inv n ok tokens usable wat ph i s" "c \<in> set (env (d_comm s))"
  shows "d_inv n ok tokens usable wat ph i (s\<lparr>d_comm := c\<rparr>)"
proof -
  have e: "ok c" "\<And>v. tokens v c = tokens v (d_comm s)" "\<And>v. usable v (d_comm s) \<Longrightarrow> usable v c" "\<And>v p. wat v p (d_comm s) \<Longrightarrow> wat v p c"
    using env_law [OF _ assms(2)] assms(1) by (auto simp: d_inv_def)
  have w: "d_waits wat v j (s\<lparr>d_comm := c\<rparr>)" if "d_waits wat v j s" for v j using that e(4) by (auto simp: d_waits_def)
  have t: "d_turn v j (s\<lparr>d_comm := c\<rparr>) = d_turn v j s" for v j by (simp add: d_turn_def)
  have ch: "d_child n wat j (s\<lparr>d_comm := c\<rparr>)" if "d_child n wat j s" for j using that w by (auto simp: d_child_def split: if_splits)
  have "d_phase n tokens wat ph i (s\<lparr>d_comm := c\<rparr>)" using assms(1) e(2) w ch unfolding d_inv_def d_phase_def by (cases ph) (auto simp: t)
  moreover have "\<forall>w. (\<exists>j p. d_pos s w = D_wait j p) \<or> usable w c" using assms(1) e(3) unfolding d_inv_def by blast
  ultimately show ?thesis using assms(1) e(1) unfolding d_inv_def by simp
qed

text \<open>The process whose turn it is gives the turn away, or goes on with it.\<close>

lemma d_turn_inv:
  assumes "d_inv n ok tokens usable wat ph i s" "d_turn w j s" "s' \<in> set (devzero_next n tell wt start w s)"
    "ph = Parent_turn \<and> w = Parent \<and> j = i \<or> ph = Child_turn \<and> w = Child \<and> j = i + 1"
  shows "\<exists>ph'. d_inv n ok tokens usable wat ph' i s'"
proof -
  let ?t = "tell w (d_comm s)"
  have "\<nexists>l p. d_pos s w = D_wait l p" using assms(2) by (auto simp: d_turn_def)
  then have us: "usable w (d_comm s)" using assms(1) unfolding d_inv_def by blast
  have k: "ok (d_comm s)" "tokens (other w) (d_comm s) = 0" "tokens w (d_comm s) = 0" "usable w (d_comm s)" "even i"
    using assms(1,4) us by (auto simp: d_inv_def d_phase_def)
  note t = tell_law [OF k(1,2)]
  have u: "usable w ?t" "ok ?t" using t k(4) by blast+
  have st: "wat w start ?t" by (rule start_law [OF u(2,1)])
  from d_turn_next [OF assms(2,3)] show ?thesis
  proof (elim disjE)
    assume "d_turn w j s' \<and> d_comm s' = d_comm s \<and> d_pos s' (other w) = d_pos s (other w) \<and> (\<forall>j p. d_pos s' w \<noteq> D_wait j p)"
    note e = this
    have wo: "d_waits wat (other w) j s'" if "d_waits wat (other w) j s" for j using that e by (auto simp: d_waits_def)
    have "d_phase n tokens wat ph i s'"
      using assms(1,4) e wo by (cases w) (auto simp: d_inv_def d_phase_def)
    moreover have "(\<exists>j p. d_pos s' v = D_wait j p) \<or> usable v (d_comm s')" for v
      using assms(1) e k(4) not_other [of v w] unfolding d_inv_def by (cases "v = w") metis+
    ultimately show ?thesis using e k(1,5) unfolding d_inv_def by auto
  next
    assume e: "d_pos s' = (d_pos s)(w := case w of Parent \<Rightarrow> D_wait j start | Child \<Rightarrow> d_loop n start Child (j + 2)) \<and> d_area s' = j + 1 \<and> d_comm s' = ?t"
    have us: "(\<exists>j p. d_pos s' v = D_wait j p) \<or> usable v (d_comm s')" for v
      using assms(1) e u(1) t not_other [of v w] unfolding d_inv_def by (cases "v = w") auto
    have wo: "d_waits wat (other w) j s'" if "d_waits wat (other w) j s" for j
      using that e t unfolding d_waits_def by auto
    have ws: "d_waits wat w j s'" if "d_pos s' w = D_wait j start" for j using that e st by (auto simp: d_waits_def)
    show ?thesis
    proof (cases w)
      case Parent
      then have "d_waits wat Child (i + 1) s" "i < n" using assms(1,4) by (auto simp: d_inv_def d_phase_def)
      then have "d_phase n tokens wat Child_told i s'" using Parent assms(4) e t k(3) wo ws by (simp add: d_phase_def)
      then show ?thesis using us e u(2) k(5) unfolding d_inv_def by metis
    next
      case Child
      then have i: "d_waits wat Parent i s" "i < n" using assms(1,4) by (auto simp: d_inv_def d_phase_def)
      have "d_child n wat (i + 3) s'" using e Child assms(4) ws by (auto simp: d_child_def)
      then have "d_phase n tokens wat Parent_told i s'" using Child assms(4) e t k(3) wo i by (simp add: d_phase_def)
      then show ?thesis using us e u(2) k(5) unfolding d_inv_def by metis
    qed
  qed
qed

text \<open>A process that waits returns only when it has been told, and then it is its turn.\<close>

lemma d_wait_inv:
  assumes "d_inv n ok tokens usable wat ph i s" "d_waits wat w j s" "s' \<in> set (devzero_next n tell wt start w s)"
  shows "\<exists>ph' i'. d_inv n ok tokens usable wat ph' i' s'"
proof -
  have k: "ok (d_comm s)" "even i" "\<And>v. (\<exists>j p. d_pos s v = D_wait j p) \<or> usable v (d_comm s)" "d_phase n tokens wat ph i s"
    using assms(1) by (auto simp: d_inv_def)
  note n = d_wait_next [OF k(1) assms(2,3)]
  have wo: "\<And>j. d_waits wat (other w) j s \<Longrightarrow> d_waits wat (other w) j s'" "tokens (other w) (d_comm s') = tokens (other w) (d_comm s)"
      "d_pos s' (other w) = d_pos s (other w)" "d_area s' = d_area s" "ok (d_comm s')"
    using n by blast+
  have uo: "(\<exists>j p. d_pos s' (other w) = D_wait j p) \<or> usable (other w) (d_comm s')" using n k(3) [of "other w"] by auto
  have turn: "d_turn (other w) j s' = d_turn (other w) j s" for j using wo(3,4) by (simp add: d_turn_def)
  have child: "d_child n wat j s'" if "w = Parent" "d_child n wat j s" for j
    using that wo(1,3) by (auto simp: d_child_def split: if_splits)
  from n have "(d_waits wat w j s' \<and> tokens w (d_comm s') = tokens w (d_comm s)) \<or>
     (d_pos s' w = (case w of Parent \<Rightarrow> d_loop n start Parent (j + 2) | Child \<Rightarrow> D_read j) \<and> usable w (d_comm s') \<and> tokens w (d_comm s) = Suc (tokens w (d_comm s')))"
    by blast
  then show ?thesis
  proof (elim disjE)
    assume e: "d_waits wat w j s' \<and> tokens w (d_comm s') = tokens w (d_comm s)"
    have jj: "l = j" if "d_waits wat w l s" for l using that assms(2) by (auto simp: d_waits_def)
    have nt: "\<not> d_turn w l s" "d_pos s w \<noteq> D_exit" for l using assms(2) by (auto simp: d_turn_def d_waits_def)
    have wj: "d_waits wat w l s'" if "d_waits wat w l s" for l using jj [OF that] e by simp
    have "d_phase n tokens wat ph i s'"
    proof (cases w)
      case Parent
      then show ?thesis using k(4) e wo turn child wj nt unfolding d_phase_def by (cases ph) auto
    next
      case Child
      have ch: "d_child n wat l s'" if "d_child n wat l s" for l using that wj nt(2) Child by (simp add: d_child_def split: if_splits)
      then show ?thesis using Child k(4) e wo turn ch wj nt unfolding d_phase_def by (cases ph) auto
    qed
    moreover have "(\<exists>j p. d_pos s' v = D_wait j p) \<or> usable v (d_comm s')" for v
      using uo e not_other [of v w] by (cases "v = w") (auto simp: d_waits_def)
    ultimately show ?thesis using k(2) wo(5) unfolding d_inv_def by blast
  next
    assume e: "d_pos s' w = (case w of Parent \<Rightarrow> d_loop n start Parent (j + 2) | Child \<Rightarrow> D_read j) \<and> usable w (d_comm s') \<and> tokens w (d_comm s) = Suc (tokens w (d_comm s'))"
    have us: "(\<exists>j p. d_pos s' v = D_wait j p) \<or> usable v (d_comm s')" for v using uo e not_other [of v w] by (cases "v = w") auto
    show ?thesis
    proof (cases w)
      case Child
      then have "ph = Child_told" "j = i + 1" using k(4) assms(2) e by (cases ph; auto simp: d_phase_def d_waits_def)+
      then have "d_phase n tokens wat Child_turn i s'" using Child k(4) e wo by (auto simp: d_phase_def d_turn_def)
      then show ?thesis using us k(2) wo(5) unfolding d_inv_def by blast
    next
      case Parent
      then have p: "ph = Parent_told" "j = i" using k(4) assms(2) e by (cases ph; auto simp: d_phase_def d_waits_def d_turn_def)+
      show ?thesis
      proof (cases "i + 2 < n")
        case True
        then have "d_phase n tokens wat Parent_turn (i + 2) s'" using Parent p k(4) e wo child [of "i + 3"] by (auto simp: d_phase_def d_turn_def d_child_def numeral_3_eq_3)
        then show ?thesis using us k(2) wo(5) unfolding d_inv_def by (metis even_add even_numeral)
      next
        case False
        then have "d_phase n tokens wat Over (i + 2) s'" using Parent p k(4) e wo by (auto simp: d_phase_def d_child_def)
        then show ?thesis using us k(2) wo(5) unfolding d_inv_def by (metis even_add even_numeral)
      qed
    qed
  qed
qed

lemma d_step_inv:
  assumes "dz_step n tell wt start env s s'" "d_inv n ok tokens usable wat ph i s"
  shows "\<exists>ph' i'. d_inv n ok tokens usable wat ph' i' s'"
  using assms(1)
proof cases
  case (env c)
  then show ?thesis using d_env_inv [OF assms(2)] by blast
next
  case (proc w)
  have p: "d_phase n tokens wat ph i s" using assms(2) by (simp add: d_inv_def)
  consider j where "d_waits wat w j s" | j where "d_turn w j s" "ph = Parent_turn \<and> w = Parent \<and> j = i \<or> ph = Child_turn \<and> w = Child \<and> j = i + 1" | "d_pos s w = D_exit"
    using p by (cases ph; cases w) (auto simp: d_phase_def d_child_def split: if_splits)
  then show ?thesis
  proof cases
    case 1
    then show ?thesis using d_wait_inv [OF assms(2) _ proc] by blast
  next
    case 2
    then show ?thesis using d_turn_inv [OF assms(2) _ proc] by blast
  next
    case 3
    then show ?thesis using proc by (simp add: devzero_next_def)
  qed
qed

lemma d_reach_inv:
  assumes "dz_reach n tell wt start env s0 s" "d_inv n ok tokens usable wat ph i s0"
  shows "\<exists>ph' i'. d_inv n ok tokens usable wat ph' i' s"
  using assms(1)
proof induction
  case start
  show ?case using assms(2) by blast
next
  case (step s s')
  then show ?case using d_step_inv by blast
qed

text \<open>From every state the next phase can be reached.\<close>

lemma d_wait_ends:
  assumes "ok (d_comm s)" "d_pos s w = D_wait j p" "wat w p (d_comm s)" "0 < tokens w (d_comm s)"
  shows "\<exists>s'. dz_reach n tell wt start env s s' \<and> d_pos s' w = (case w of Parent \<Rightarrow> d_loop n start Parent (j + 2) | Child \<Rightarrow> D_read j)"
  using assms
proof (induction "rank w p (d_comm s)" arbitrary: p s rule: less_induct)
  case less
  obtain r c where rc: "(r, c) \<in> set (wt w p (d_comm s))" "case r of Still q \<Rightarrow> rank w q c < rank w p (d_comm s) | Back \<Rightarrow> True | Quits f \<Rightarrow> False"
    using live_law [OF less.prems(1,3,4)] by blast
  note k = wait_law [OF less.prems(1,3) rc(1)]
  let ?s = "d_go w (case r of Still q \<Rightarrow> D_wait j q | Back \<Rightarrow> (case w of Parent \<Rightarrow> d_loop n start Parent (j + 2) | Child \<Rightarrow> D_read j) | Quits f \<Rightarrow> D_quit f) (s\<lparr>d_comm := c\<rparr>)"
  have st: "dz_step n tell wt start env s ?s"
    by (rule dz_step.proc [where w = w]) (use less.prems(2) rc(1) in \<open>auto simp: devzero_next_def intro!: image_eqI [of _ _ "(r, c)"]\<close>)
  show ?case
  proof (cases r)
    case (Still q)
    have "\<exists>s'. dz_reach n tell wt start env ?s s' \<and> d_pos s' w = (case w of Parent \<Rightarrow> d_loop n start Parent (j + 2) | Child \<Rightarrow> D_read j)"
      by (rule less.hyps [of q]) (use rc(2) Still k less.prems(4) in auto)
    then show ?thesis using dz_reach_first [OF _ st] by blast
  next
    case Back
    then show ?thesis using dz_reach.step [OF dz_reach.start st] by (intro exI [of _ ?s]) simp
  qed (use rc(2) in simp)
qed

lemma d_next_phase:
  assumes "d_inv n ok tokens usable wat ph i s"
  shows "ph = Parent_turn \<Longrightarrow> \<exists>s'. dz_reach n tell wt start env s s' \<and> d_inv n ok tokens usable wat Child_told i s'"
    "ph = Child_told \<Longrightarrow> \<exists>s'. dz_reach n tell wt start env s s' \<and> d_inv n ok tokens usable wat Child_turn i s'"
    "ph = Child_turn \<Longrightarrow> \<exists>s'. dz_reach n tell wt start env s s' \<and> d_inv n ok tokens usable wat Parent_told i s'"
    "ph = Parent_told \<Longrightarrow> \<exists>s'. dz_reach n tell wt start env s s' \<and> (d_inv n ok tokens usable wat Parent_turn (i + 2) s' \<or> d_inv n ok tokens usable wat Over (i + 2) s')"
proof -
  have p: "d_phase n tokens wat ph i s" "ok (d_comm s)" using assms by (simp_all add: d_inv_def)
  have I: "\<exists>ph' i'. d_inv n ok tokens usable wat ph' i' s' \<and> d_phase n tokens wat ph' i' s'" if "dz_reach n tell wt start env s s'" for s'
    using d_reach_inv [OF that assms] unfolding d_inv_def by blast
  {
    assume ph: "ph = Parent_turn"
    then have t: "d_turn Parent i s" "d_waits wat Child (i + 1) s" using p by (simp_all add: d_phase_def)
    obtain s' where s': "dz_reach n tell wt start env s s'" "d_pos s' = (d_pos s)(Parent := D_wait i start)" "d_area s' = i + 1"
      using d_turn_all [OF t(1), of n tell wt start env] by auto
    then obtain ph' i' where "d_inv n ok tokens usable wat ph' i' s'" "d_phase n tokens wat ph' i' s'" using I by blast
    moreover from this have "ph' = Child_told \<and> i' = i" using s' t(2) by (cases ph') (auto simp: d_phase_def d_turn_def d_waits_def)
    ultimately show "\<exists>s'. dz_reach n tell wt start env s s' \<and> d_inv n ok tokens usable wat Child_told i s'" using s'(1) by blast
  next
    assume ph: "ph = Child_told"
    then obtain q where q: "d_pos s Child = D_wait (i + 1) q" "wat Child q (d_comm s)" "tokens Child (d_comm s) = 1" using p by (auto simp: d_phase_def d_waits_def)
    obtain s' where s': "dz_reach n tell wt start env s s'" "d_pos s' Child = D_read (i + 1)" using d_wait_ends [OF p(2) q(1,2)] q(3) by auto
    then obtain ph' i' where "d_inv n ok tokens usable wat ph' i' s'" "d_phase n tokens wat ph' i' s'" using I by blast
    moreover from this have "ph' = Child_turn \<and> i' = i" using s'(2) by (cases ph') (auto simp: d_phase_def d_turn_def d_waits_def d_child_def split: if_splits)
    ultimately show "\<exists>s'. dz_reach n tell wt start env s s' \<and> d_inv n ok tokens usable wat Child_turn i s'" using s'(1) by blast
  next
    assume ph: "ph = Child_turn"
    then have t: "d_turn Child (i + 1) s" "d_waits wat Parent i s" using p by (simp_all add: d_phase_def)
    obtain s' where s': "dz_reach n tell wt start env s s'" "d_pos s' = (d_pos s)(Child := d_loop n start Child (i + 1 + 2))" "d_area s' = i + 2"
      using d_turn_all [OF t(1), of n tell wt start env] by auto
    then obtain ph' i' where "d_inv n ok tokens usable wat ph' i' s'" "d_phase n tokens wat ph' i' s'" using I by blast
    moreover from this have "ph' = Parent_told \<and> i' = i" using s'(2,3) t(2) by (cases ph') (auto simp: d_phase_def d_turn_def d_waits_def split: if_splits)
    ultimately show "\<exists>s'. dz_reach n tell wt start env s s' \<and> d_inv n ok tokens usable wat Parent_told i s'" using s'(1) by blast
  next
    assume ph: "ph = Parent_told"
    then obtain q where q: "d_pos s Parent = D_wait i q" "wat Parent q (d_comm s)" "tokens Parent (d_comm s) = 1" "even i"
      using p assms by (auto simp: d_phase_def d_waits_def d_inv_def)
    obtain s' where s': "dz_reach n tell wt start env s s'" "d_pos s' Parent = d_loop n start Parent (i + 2)" using d_wait_ends [OF p(2) q(1,2)] q(3) by auto
    then obtain ph' i' where I': "d_inv n ok tokens usable wat ph' i' s'" "d_phase n tokens wat ph' i' s'" using I by blast
    have "ph' = Parent_turn \<and> i' = i + 2 \<or> ph' = Over \<and> i' = i + 2"
    proof (cases "ph' = Over")
      case True
      then have "n \<le> i'" "i' < n + 2" "d_loop n start Parent (i + 2) = D_exit" using I'(2) s'(2) by (auto simp: d_phase_def)
      moreover have "i < n" "even i'" using p ph I'(1) by (auto simp: d_phase_def d_inv_def)
      ultimately show ?thesis using q(4) True by (simp split: if_splits) presburger
    next
      case False
      then show ?thesis using s'(2) I'(2) by (cases ph') (auto simp: d_phase_def d_turn_def d_waits_def split: if_splits)
    qed
    then show "\<exists>s'. dz_reach n tell wt start env s s' \<and> (d_inv n ok tokens usable wat Parent_turn (i + 2) s' \<or> d_inv n ok tokens usable wat Over (i + 2) s')"
      using I'(1) s'(1) by blast
  }
qed

lemma d_ends:
  assumes "d_inv n ok tokens usable wat ph i s"
  shows "\<exists>s'. dz_reach n tell wt start env s s' \<and> (\<exists>j. d_inv n ok tokens usable wat Over j s')"
proof -
  have turn: "\<exists>s'. dz_reach n tell wt start env s s' \<and> (\<exists>j. d_inv n ok tokens usable wat Over j s')"
    if "d_inv n ok tokens usable wat Parent_turn i s" for i s
    using that
  proof (induction "n - i" arbitrary: i s rule: less_induct)
    case less
    obtain s1 where 1: "dz_reach n tell wt start env s s1" "d_inv n ok tokens usable wat Child_told i s1" using d_next_phase(1) [OF less.prems refl] by blast
    obtain s2 where 2: "dz_reach n tell wt start env s1 s2" "d_inv n ok tokens usable wat Child_turn i s2" using d_next_phase(2) [OF 1(2) refl] by blast
    obtain s3 where 3: "dz_reach n tell wt start env s2 s3" "d_inv n ok tokens usable wat Parent_told i s3" using d_next_phase(3) [OF 2(2) refl] by blast
    obtain s4 where 4: "dz_reach n tell wt start env s3 s4" "d_inv n ok tokens usable wat Parent_turn (i + 2) s4 \<or> d_inv n ok tokens usable wat Over (i + 2) s4"
      using d_next_phase(4) [OF 3(2) refl] by blast
    have r: "dz_reach n tell wt start env s s4" by (rule dz_reach_trans [OF 4(1) dz_reach_trans [OF 3(1) dz_reach_trans [OF 2(1) 1(1)]]])
    from 4(2) show ?case
    proof
      assume t: "d_inv n ok tokens usable wat Parent_turn (i + 2) s4"
      then have "i + 2 < n" by (simp add: d_inv_def d_phase_def)
      then have "n - (i + 2) < n - i" by arith
      from less.hyps [OF this t] obtain s' where "dz_reach n tell wt start env s4 s'" "\<exists>j. d_inv n ok tokens usable wat Over j s'" by blast
      then show ?thesis using dz_reach_trans [OF _ r] by blast
    qed (use r in blast)
  qed
  have told: "\<exists>s'. dz_reach n tell wt start env s s' \<and> (\<exists>j. d_inv n ok tokens usable wat Over j s')"
    if h: "d_inv n ok tokens usable wat Parent_told i s" for i s
  proof -
    obtain t where t: "dz_reach n tell wt start env s t" "d_inv n ok tokens usable wat Parent_turn (i + 2) t \<or> d_inv n ok tokens usable wat Over (i + 2) t"
      using d_next_phase(4) [OF h refl] by blast
    from t(2) have "\<exists>s'. dz_reach n tell wt start env t s' \<and> (\<exists>j. d_inv n ok tokens usable wat Over j s')"
    proof
      assume "d_inv n ok tokens usable wat Parent_turn (i + 2) t"
      then show ?thesis by (rule turn)
    next
      assume "d_inv n ok tokens usable wat Over (i + 2) t"
      then show ?thesis by (intro exI conjI) (rule dz_reach.start)
    qed
    then obtain s' where "dz_reach n tell wt start env t s'" "\<exists>j. d_inv n ok tokens usable wat Over j s'" by (elim exE conjE) blast
    then show ?thesis using dz_reach_trans [OF _ t(1)] by blast
  qed
  have child: "\<exists>s'. dz_reach n tell wt start env s s' \<and> (\<exists>j. d_inv n ok tokens usable wat Over j s')"
    if h: "d_inv n ok tokens usable wat Child_turn i s" for i s
  proof -
    obtain t where t: "dz_reach n tell wt start env s t" "d_inv n ok tokens usable wat Parent_told i t" using d_next_phase(3) [OF h refl] by blast
    obtain s' where "dz_reach n tell wt start env t s'" "\<exists>j. d_inv n ok tokens usable wat Over j s'" using told [OF t(2)] by blast
    then show ?thesis using dz_reach_trans [OF _ t(1)] by blast
  qed
  show ?thesis
  proof (cases ph)
    case Parent_turn
    then show ?thesis using turn assms by simp
  next
    case Child_told
    obtain t where t: "dz_reach n tell wt start env s t" "d_inv n ok tokens usable wat Child_turn i t" using d_next_phase(2) [OF assms Child_told] by blast
    obtain s' where "dz_reach n tell wt start env t s'" "\<exists>j. d_inv n ok tokens usable wat Over j s'" using child [OF t(2)] by blast
    then show ?thesis using dz_reach_trans [OF _ t(1)] by blast
  next
    case Child_turn
    then show ?thesis using child assms by simp
  next
    case Parent_told
    then show ?thesis using told assms by simp
  next
    case Over
    show ?thesis by (intro exI conjI, rule dz_reach.start) (use assms Over in simp)
  qed
qed

text \<open>What holds in every state of the program, for every version of the functions that keeps the contract.\<close>

lemma devzero_turns:
  assumes "ok c" "\<And>w. tokens w c = 0" "\<And>w. usable w c" "dz_reach n tell wt start env (devzero_start n start c) s"
  shows "d_pos s w \<noteq> D_quit f" "\<not> ((\<exists>i. d_turn Parent i s) \<and> (\<exists>i. d_turn Child i s))"
    "\<exists>s'. dz_reach n tell wt start env s s' \<and> (\<forall>w. d_pos s' w = D_exit) \<and> d_area s' = 2 * ((n + 1) div 2)"
proof -
  have "\<exists>ph i. d_inv n ok tokens usable wat ph i (devzero_start n start c)"
  proof (cases "n = 0")
    case True
    then have "d_inv n ok tokens usable wat Over 0 (devzero_start n start c)" using assms(1,3) by (simp add: d_inv_def d_phase_def devzero_start_def)
    then show ?thesis by blast
  next
    case False
    then have "d_inv n ok tokens usable wat Parent_turn 0 (devzero_start n start c)"
      using assms(1-3) start_law [OF assms(1,3)] by (auto simp: d_inv_def d_phase_def d_turn_def d_waits_def devzero_start_def)
    then show ?thesis by blast
  qed
  then obtain ph i where I: "d_inv n ok tokens usable wat ph i s" using d_reach_inv [OF assms(4)] by blast
  then have p: "d_phase n tokens wat ph i s" by (simp add: d_inv_def)
  show "d_pos s w \<noteq> D_quit f" using p by (cases ph; cases w) (auto simp: d_phase_def d_waits_def d_turn_def d_child_def split: if_splits)
  show "\<not> ((\<exists>i. d_turn Parent i s) \<and> (\<exists>i. d_turn Child i s))"
    using p by (cases ph) (auto simp: d_phase_def d_waits_def d_turn_def d_child_def)
  obtain s' j where s': "dz_reach n tell wt start env s s'" "d_inv n ok tokens usable wat Over j s'" using d_ends [OF I] by blast
  then have e: "even j" "n \<le> j" "j < n + 2" "d_area s' = j" "d_pos s' Parent = D_exit" "d_pos s' Child = D_exit" by (simp_all add: d_inv_def d_phase_def)
  have "d_area s' = 2 * ((n + 1) div 2)" using e(1-4) by presburger
  moreover have "d_pos s' v = D_exit" for v using e by (cases v) auto
  ultimately show "\<exists>s'. dz_reach n tell wt start env s s' \<and> (\<forall>w. d_pos s' w = D_exit) \<and> d_area s' = 2 * ((n + 1) div 2)" using s'(1) by blast
qed

end

text \<open>
  C32: The two processes of \<^verbatim>\<open>devzero.c\<close> take turns, when they talk over pipes. In every state that they can get to in any interleaving, they are never both between reading the
  number and telling the other one, none has found a number it did not expect, and both can still get to their ends, where the number is the number of all rounds; so no state is a
  deadlock. This holds for every number of rounds.
\<close>

theorem devzero_alternates:
  assumes "TELL_WAIT_pipes None None = Inr c" "dz_reach n pipe_tell pipe_wait () no_env (devzero_start n () c) s"
  shows "(\<forall>w f. d_pos s w \<noteq> D_quit f) \<and>
    \<not> ((\<exists>i. d_turn Parent i s) \<and> (\<exists>i. d_turn Child i s)) \<and>
    (\<exists>s'. dz_reach n pipe_tell pipe_wait () no_env s s' \<and> (\<forall>w. d_pos s' w = D_exit) \<and> d_area s' = 2 * ((n + 1) div 2))"
proof -
  have "in_pipe w c = []" for w using assms(1) by (cases w) (auto simp: TELL_WAIT_pipes_def)
  then have k: "pipes_ok c" "length (in_pipe w c) = 0" for w using assms(1) by (auto simp: TELL_WAIT_pipes_def pipes_ok_def)
  show ?thesis using pw.devzero_turns [OF k TrueI assms(2)] by blast
qed

theorem devzero_alternates_witness:
  "\<exists>c s. TELL_WAIT_pipes None None = Inr c \<and> dz_reach NLOOPS pipe_tell pipe_wait () no_env (devzero_start NLOOPS () c) s \<and> d_area s = 1000 \<and> (\<forall>w. d_pos s w = D_exit)"
proof -
  obtain c where c: "TELL_WAIT_pipes None None = Inr c" by (simp add: TELL_WAIT_pipes_def)
  have "2 * ((NLOOPS + 1) div 2) = 1000" by (simp add: NLOOPS_def)
  then show ?thesis using devzero_alternates [OF c dz_reach.start, of NLOOPS] c by auto
qed

section \<open>The signals do not provide the second contract\<close>

text \<open>
  \<^verbatim>\<open>WAIT_PARENT\<close> of \<^verbatim>\<open>lib/tellwait.c\<close> restores the mask before it returns, so in the second round the signal is not blocked, and it can arrive between the test of
  the flag and \<^verbatim>\<open>sigsuspend\<close>: \<^verbatim>\<open>devzero.c\<close>, linked with the library, then waits for ever. \<open>Some w\<close>: a step of \<open>w\<close>; \<open>None\<close>: a signal is delivered.
\<close>

fun dz_sched :: "nat \<Rightarrow> who option list \<Rightarrow> (sigs, wpos) dz \<Rightarrow> (sigs, wpos) dz option" where
  "dz_sched n [] s = Some s"
| "dz_sched n (Some w # ws) s = (case devzero_next n sig_tell sig_wait W_test w s of [] \<Rightarrow> None | s' # _ \<Rightarrow> dz_sched n ws s')"
| "dz_sched n (None # ws) s = (case sig_env (d_comm s) of [] \<Rightarrow> None | c # _ \<Rightarrow> dz_sched n ws (s\<lparr>d_comm := c\<rparr>))"

lemma dz_sched_reach: "dz_sched n ws s = Some s' \<Longrightarrow> dz_reach n sig_tell sig_wait W_test sig_env s s'"
proof (induction n ws s rule: dz_sched.induct)
  case (1 n s)
  then show ?case by (simp add: dz_reach.start)
next
  case (2 n w ws s)
  then obtain t ts where t: "devzero_next n sig_tell sig_wait W_test w s = t # ts" "dz_sched n ws t = Some s'" by (auto split: list.splits)
  have "dz_step n sig_tell sig_wait W_test sig_env s t" by (rule dz_step.proc [where w = w]) (simp add: t(1))
  then show ?case using dz_reach_first [OF 2(1) [OF t]] by blast
next
  case (3 n ws s)
  then obtain c cs where c: "sig_env (d_comm s) = c # cs" "dz_sched n ws (s\<lparr>d_comm := c\<rparr>) = Some s'" by (auto split: list.splits)
  have "dz_step n sig_tell sig_wait W_test sig_env s (s\<lparr>d_comm := c\<rparr>)" by (rule dz_step.env) (simp add: c(1))
  then show ?case using dz_reach_first [OF 3(1) [OF c]] by blast
qed

definition lost_signal :: "who option list" where
  "lost_signal = replicate 4 (Some Parent) @ replicate 8 (Some Child) @ replicate 7 (Some Parent) @ [None]"

definition no_signals :: sigs where
  "no_signals = \<lparr>sigflag = (\<lambda>_. False), spend = (\<lambda>_. {}), smask = (\<lambda>_. newmask), oldmask = {}\<rparr>"

theorem devzero_signals_stuck:
  "\<exists>s. dz_reach NLOOPS sig_tell sig_wait W_test sig_env (devzero_start NLOOPS W_test no_signals) s \<and> d_pos s Parent = D_wait 2 W_susp \<and> d_pos s Child = D_wait 3 W_susp \<and>
     (\<forall>s'. \<not> dz_step NLOOPS sig_tell sig_wait W_test sig_env s s')"
proof -
  have "case dz_sched NLOOPS lost_signal (devzero_start NLOOPS W_test no_signals) of None \<Rightarrow> False
    | Some s \<Rightarrow> d_pos s Parent = D_wait 2 W_susp \<and> d_pos s Child = D_wait 3 W_susp \<and> length (devzero_next NLOOPS sig_tell sig_wait W_test Parent s) = 0 \<and>
        length (devzero_next NLOOPS sig_tell sig_wait W_test Child s) = 0 \<and> length (sig_env (d_comm s)) = 0"
    by code_simp
  then obtain s where s: "dz_sched NLOOPS lost_signal (devzero_start NLOOPS W_test no_signals) = Some s" "d_pos s Parent = D_wait 2 W_susp" "d_pos s Child = D_wait 3 W_susp"
    "devzero_next NLOOPS sig_tell sig_wait W_test Parent s = []" "devzero_next NLOOPS sig_tell sig_wait W_test Child s = []" "sig_env (d_comm s) = []"
    by (auto split: option.splits)
  have "\<not> dz_step NLOOPS sig_tell sig_wait W_test sig_env s s'" for s'
  proof
    assume "dz_step NLOOPS sig_tell sig_wait W_test sig_env s s'"
    then show False
    proof cases
      case (proc w)
      then show False using s(4,5) by (cases w) auto
    qed (use s(6) in auto)
  qed
  then show ?thesis using dz_sched_reach [OF s(1)] s(2,3) by blast
qed

end
