(* ===== verification/Signals.thy ===== *)
theory Signals
  imports Prelude
begin

text \<open>
  Functions that change how a process takes signals and put it back: \<^verbatim>\<open>signals/system.c\<close>, \<^verbatim>\<open>lib/sleep.c\<close>, and \<^verbatim>\<open>signals/abort.c\<close>, which ends the
  process. Signals and the clock may come in between any two of their calls.
\<close>

section \<open>Signals of a process\<close>

datatype signo = SIGINT | SIGQUIT | SIGCHLD | SIGALRM | SIGABRT | SIGOTHER nat

datatype act = SIG_DFL | SIG_IGN | Handler nat

datatype ending = Killed signo | Exited int

text \<open>
  Dispositions, mask, signals that wait, seconds until \<^verbatim>\<open>SIGALRM\<close> (zero: none), handlers that ran with their signals, how the process ended, the calls that will
  fail (\<open>True\<close>), and what the standard I/O streams have written and still hold.
\<close>

record sigproc =
  g_act :: "signo \<Rightarrow> act"
  g_mask :: "signo set"
  g_pend :: "signo list"
  g_alarm :: nat
  g_caught :: "(signo \<times> nat) list"
  g_end :: "ending option"
  g_fails :: "bool list"
  g_written :: string
  g_held :: string

definition take_sig :: "signo \<Rightarrow> sigproc \<Rightarrow> sigproc" where
  "take_sig s st =
     (if g_end st \<noteq> None then st
      else case g_act st s of
             SIG_IGN \<Rightarrow> st
           | Handler h \<Rightarrow> st\<lparr>g_caught := g_caught st @ [(s, h)]\<rparr>
           | SIG_DFL \<Rightarrow> if s = SIGCHLD then st else st\<lparr>g_end := Some (Killed s)\<rparr>)"

definition post :: "signo \<Rightarrow> sigproc \<Rightarrow> sigproc" where
  "post s st = (if s \<in> g_mask st then st\<lparr>g_pend := List.insert s (g_pend st)\<rparr> else take_sig s st)"

definition set_mask :: "signo set \<Rightarrow> sigproc \<Rightarrow> sigproc" where
  "set_mask m st =
     fold take_sig (filter (\<lambda>s. s \<notin> m) (g_pend st)) (st\<lparr>g_mask := m, g_pend := filter (\<lambda>s. s \<in> m) (g_pend st)\<rparr>)"

definition set_act :: "signo \<Rightarrow> act \<Rightarrow> sigproc \<Rightarrow> sigproc" where
  "set_act s a st =
     st\<lparr>g_act := (g_act st)(s := a),
        g_pend := (if a = SIG_IGN \<or> a = SIG_DFL \<and> s = SIGCHLD then removeAll s (g_pend st) else g_pend st)\<rparr>"

text \<open>What happens to the process from outside: a second passes, or a signal arrives.\<close>

datatype event = Tick | Sig signo

fun happen :: "event \<Rightarrow> sigproc \<Rightarrow> sigproc" where
  "happen Tick st = (case g_alarm st of 0 \<Rightarrow> st | Suc 0 \<Rightarrow> post SIGALRM (st\<lparr>g_alarm := 0\<rparr>) | Suc n \<Rightarrow> st\<lparr>g_alarm := n\<rparr>)"
| "happen (Sig s) st = post s st"

definition happens :: "event list \<Rightarrow> sigproc \<Rightarrow> sigproc" where
  "happens es st = fold happen es st"

text \<open>Calls that may fail: whether they did, and the process.\<close>

definition may_fail :: "(sigproc \<Rightarrow> sigproc) \<Rightarrow> sigproc \<Rightarrow> bool \<times> sigproc" where
  "may_fail f st = (case g_fails st of [] \<Rightarrow> (False, f st) | b # r \<Rightarrow> (b, if b then st\<lparr>g_fails := r\<rparr> else f (st\<lparr>g_fails := r\<rparr>)))"

section \<open>The function system\<close>

text \<open>The loop around \<^verbatim>\<open>waitpid\<close>: it is called again when a signal interrupts it.\<close>

fun wait_status :: "(errno + int) list \<Rightarrow> int option" where
  "wait_status [] = None"
| "wait_status (Inl e # w) = (if e \<noteq> EINTR then Some (- 1) else wait_status w)"
| "wait_status (Inr status # w) = Some status"

text \<open>The child: it has no signals waiting and no alarm; the program it runs starts without handlers. Failing calls are ignored by the code.\<close>

definition system_child :: "act \<Rightarrow> act \<Rightarrow> signo set \<Rightarrow> bool list \<Rightarrow> sigproc \<Rightarrow> sigproc" where
  "system_child saveintr savequit savemask fails st =
     (let c0 = st\<lparr>g_pend := [], g_alarm := 0, g_fails := fails\<rparr>;
          c1 = snd (may_fail (set_act SIGINT saveintr) c0);
          c2 = snd (may_fail (set_act SIGQUIT savequit) c1);
          c3 = snd (may_fail (set_mask savemask) c2)
      in c3\<lparr>g_act := (\<lambda>s. case g_act c3 s of Handler h \<Rightarrow> SIG_DFL | a \<Rightarrow> a)\<rparr>)"

text \<open>
  \<open>gap k\<close> is what happens after call number \<open>k\<close>, \<open>gap 3\<close> what happens while the command runs; \<open>fk\<close> is what \<^verbatim>\<open>fork\<close> gives: an error or the calls of the child that
  fail, \<open>w\<close> the results of \<^verbatim>\<open>waitpid\<close>. The result is the value returned, the process, and the program the child runs; none when it never returns.
\<close>

definition system_fn :: "bool \<Rightarrow> (nat \<Rightarrow> event list) \<Rightarrow> errno + bool list \<Rightarrow> (errno + int) list \<Rightarrow> sigproc \<Rightarrow> (int \<times> sigproc \<times> sigproc option) option" where
  "system_fn has_cmd gap fk w st =
     (if \<not> has_cmd then Some (1, st, None)
      else case may_fail (set_act SIGINT SIG_IGN) st of
        (True, s1) \<Rightarrow> Some (- 1, s1, None)
      | (False, s1) \<Rightarrow>
      let saveintr = g_act st SIGINT; t1 = happens (gap 0) s1
      in case may_fail (set_act SIGQUIT SIG_IGN) t1 of
        (True, s2) \<Rightarrow> Some (- 1, s2, None)
      | (False, s2) \<Rightarrow>
      let savequit = g_act t1 SIGQUIT; t2 = happens (gap 1) s2
      in case may_fail (set_mask (insert SIGCHLD (g_mask t2))) t2 of
        (True, s3) \<Rightarrow> Some (- 1, s3, None)
      | (False, s3) \<Rightarrow>
      let savemask = g_mask t2; t3 = happens (gap 2) s3
      in case (case fk of
                 Inl e \<Rightarrow> Some (- 1, t3, None)
               | Inr cf \<Rightarrow> map_option (\<lambda>status. (status, happens (gap 3) t3, Some (system_child saveintr savequit savemask cf t3))) (wait_status w)) of
        None \<Rightarrow> None
      | Some (status, t4, ch) \<Rightarrow>
      case may_fail (set_act SIGINT saveintr) t4 of
        (True, s5) \<Rightarrow> Some (- 1, s5, ch)
      | (False, s5) \<Rightarrow>
      case may_fail (set_act SIGQUIT savequit) (happens (gap 4) s5) of
        (True, s6) \<Rightarrow> Some (- 1, s6, ch)
      | (False, s6) \<Rightarrow>
      case may_fail (set_mask savemask) (happens (gap 5) s6) of
        (True, s7) \<Rightarrow> Some (- 1, s7, ch)
      | (False, s7) \<Rightarrow> Some (status, s7, ch))"

section \<open>The function sleep\<close>

text \<open>\<^verbatim>\<open>sigsuspend\<close> with mask \<open>m\<close>: until a handler has run or the process is dead, with the events that are still to come. Nothing when the events are over before that.\<close>

fun suspend_loop :: "nat \<Rightarrow> event list \<Rightarrow> sigproc \<Rightarrow> (event list \<times> sigproc) option" where
  "suspend_loop n es st =
     (if n < length (g_caught st) \<or> g_end st \<noteq> None then Some (es, st)
      else case es of [] \<Rightarrow> None | e # es' \<Rightarrow> suspend_loop n es' (happen e st))"

definition sigsuspend :: "signo set \<Rightarrow> event list \<Rightarrow> sigproc \<Rightarrow> (event list \<times> sigproc) option" where
  "sigsuspend m es st =
     map_option (apsnd (set_mask (g_mask st))) (suspend_loop (length (g_caught st)) es (set_mask m st))"

definition SIG_ALRM :: nat where "SIG_ALRM = 0"

definition alarm_fn :: "nat \<Rightarrow> sigproc \<Rightarrow> nat \<times> sigproc" where
  "alarm_fn k st = (g_alarm st, st\<lparr>g_alarm := k\<rparr>)"

text \<open>\<open>w\<close> is what happens from the call of \<^verbatim>\<open>sigsuspend\<close> on. The result: the seconds not slept, what of \<open>w\<close> is still to happen when the function goes on, and the process.\<close>

definition sleep_fn :: "nat \<Rightarrow> (nat \<Rightarrow> event list) \<Rightarrow> event list \<Rightarrow> sigproc \<Rightarrow> (nat \<times> event list \<times> sigproc) option" where
  "sleep_fn seconds gap w st =
     (let oldact = g_act st SIGALRM;
          s1 = happens (gap 0) (set_act SIGALRM (Handler SIG_ALRM) st);
          oldmask = g_mask s1;
          s2 = happens (gap 1) (set_mask (insert SIGALRM oldmask) s1);
          s3 = happens (gap 2) (snd (alarm_fn seconds s2));
          suspmask = oldmask - {SIGALRM}
      in case sigsuspend suspmask w s3 of
           None \<Rightarrow> None
         | Some (w', s4) \<Rightarrow>
             (case alarm_fn 0 (happens (gap 3) s4) of
                (unslept, s5) \<Rightarrow>
                  let s6 = set_act SIGALRM oldact (happens (gap 4) s5)
                  in Some (unslept, w', set_mask oldmask (happens (gap 5) s6))))"

section \<open>The function abort\<close>

definition fflush_all :: "sigproc \<Rightarrow> sigproc" where
  "fflush_all st = (if g_end st \<noteq> None then st else st\<lparr>g_written := g_written st @ g_held st, g_held := []\<rparr>)"

definition abort_fn :: "sigproc \<Rightarrow> sigproc" where
  "abort_fn st =
     (let s1 = (if g_act st SIGABRT = SIG_IGN then set_act SIGABRT SIG_DFL st else st);
          s2 = (if g_act s1 SIGABRT = SIG_DFL then fflush_all s1 else s1);
          mask = - {SIGABRT};
          s3 = post SIGABRT (set_mask mask s2)
      in if g_end s3 \<noteq> None then s3
         else let s4 = set_mask mask (set_act SIGABRT SIG_DFL (fflush_all s3));
                  s5 = post SIGABRT s4
              in if g_end s5 \<noteq> None then s5 else s5\<lparr>g_end := Some (Exited 1)\<rparr>)"

section \<open>What happens meanwhile\<close>

text \<open>A living process whose waiting signals are all blocked.\<close>

definition live :: "(signo \<Rightarrow> act) \<Rightarrow> signo set \<Rightarrow> sigproc \<Rightarrow> bool" where
  "live A m u \<longleftrightarrow> g_act u = A \<and> g_mask u = m \<and> g_end u = None \<and> set (g_pend u) \<subseteq> m"

definition harmless :: "(signo \<Rightarrow> act) \<Rightarrow> signo set \<Rightarrow> signo \<Rightarrow> bool" where
  "harmless A m s \<longleftrightarrow> A s \<noteq> SIG_DFL \<or> s = SIGCHLD \<or> s \<in> m"

fun calm :: "(signo \<Rightarrow> act) \<Rightarrow> signo set \<Rightarrow> nat \<Rightarrow> event \<Rightarrow> bool" where
  "calm A m a Tick \<longleftrightarrow> a = 0 \<or> harmless A m SIGALRM"
| "calm A m a (Sig s) \<longleftrightarrow> harmless A m s"

definition ticks :: "event list \<Rightarrow> nat" where "ticks es = length (filter (\<lambda>e. e = Tick) es)"

lemma ticks_simps [simp]: "ticks [] = 0" "ticks (e # es) = (if e = Tick then Suc (ticks es) else ticks es)" "ticks (es @ fs) = ticks es + ticks fs"
  by (simp_all add: ticks_def)

text \<open>What changes with events \<open>es\<close>: handlers of signals that came and are not blocked run, blocked signals wait, the clock runs.\<close>

definition went :: "sigproc \<Rightarrow> sigproc \<Rightarrow> event list \<Rightarrow> bool" where
  "went u v es \<longleftrightarrow> live (g_act u) (g_mask u) v \<and> g_alarm v = g_alarm u - ticks es \<and> g_fails v = g_fails u \<and>
     (\<exists>new. g_caught v = g_caught u @ new \<and>
       (\<forall>(s, h) \<in> set new. g_act u s = Handler h \<and> s \<notin> g_mask u \<and> (Sig s \<in> set es \<or> s = SIGALRM \<and> 0 < g_alarm u \<and> g_alarm u \<le> ticks es)))"

lemma went_trans: "went u v es \<Longrightarrow> went v w fs \<Longrightarrow> went u w (es @ fs)"
  by (fastforce simp: went_def live_def)

lemma post_went:
  assumes "live A m u" "harmless A m s"
  shows "went u (post s u) [Sig s]"
proof (cases "s \<in> m")
  case True
  then show ?thesis using assms by (auto simp: went_def live_def post_def)
next
  case False
  then show ?thesis using assms
    by (cases "A s") (auto simp: went_def live_def post_def take_sig_def harmless_def)
qed

lemma happen_went:
  assumes "live A m u" "calm A m (g_alarm u) e"
  shows "went u (happen e u) [e]"
proof (cases e)
  case (Sig s)
  then show ?thesis using post_went assms by simp
next
  case Tick
  consider (off) "g_alarm u = 0" | (now) "g_alarm u = 1" | (later) n where "g_alarm u = Suc (Suc n)" by (metis One_nat_def not0_implies_Suc)
  then show ?thesis
  proof cases
    case now
    have "live A m (u\<lparr>g_alarm := 0\<rparr>)" using assms(1) by (simp add: live_def)
    moreover have "harmless A m SIGALRM" using assms(2) Tick now by simp
    ultimately have "went (u\<lparr>g_alarm := 0\<rparr>) (post SIGALRM (u\<lparr>g_alarm := 0\<rparr>)) [Sig SIGALRM]" by (rule post_went)
    then show ?thesis using Tick now by (fastforce simp: went_def)
  qed (use assms Tick in \<open>auto simp: went_def live_def\<close>)
qed

lemma calm_mono: "calm A m a e \<Longrightarrow> b \<le> a \<Longrightarrow> calm A m b e"
  by (cases e) auto


lemma happens_went:
  assumes "live A m u" "\<forall>e \<in> set es. calm A m (g_alarm u) e"
  shows "went u (happens es u) es"
  using assms
proof (induction es arbitrary: u)
  case Nil
  then show ?case by (auto simp: happens_def went_def live_def)
next
  case (Cons e es)
  have w: "went u (happen e u) [e]" using happen_went Cons.prems by simp
  then have l: "live A m (happen e u)" "g_alarm (happen e u) \<le> g_alarm u" using Cons.prems(1) by (auto simp: went_def live_def)
  have "\<forall>x \<in> set es. calm A m (g_alarm (happen e u)) x" using Cons.prems(2) calm_mono [OF _ l(2)] by auto
  then have "went (happen e u) (happens es (happen e u)) es" using Cons.IH [OF l(1)] by blast
  from went_trans [OF w this] show ?case by (simp add: happens_def)
qed

text \<open>Blocking more delivers nothing.\<close>

lemma set_mask_quiet: "live A m u \<Longrightarrow> set (g_pend u) \<subseteq> m' \<Longrightarrow> set_mask m' u = u\<lparr>g_mask := m'\<rparr> \<and> live A m' (u\<lparr>g_mask := m'\<rparr>)"
proof -
  assume l: "live A m u" and m: "set (g_pend u) \<subseteq> m'"
  have "filter (\<lambda>s. s \<notin> m') (g_pend u) = []" "filter (\<lambda>s. s \<in> m') (g_pend u) = g_pend u" using m by (auto simp: filter_id_conv filter_empty_conv)
  then show ?thesis using l m by (auto simp: set_mask_def live_def)
qed

lemma set_mask_more: "live A m u \<Longrightarrow> m \<subseteq> m' \<Longrightarrow> set_mask m' u = u\<lparr>g_mask := m'\<rparr> \<and> live A m' (u\<lparr>g_mask := m'\<rparr>)"
  using set_mask_quiet [of A m u m'] by (auto simp: live_def)

text \<open>Unblocking a signal that does no harm only runs its handler, if there is one.\<close>

lemma fold_take_one:
  assumes "A x \<noteq> SIG_DFL \<or> x = SIGCHLD"
  shows "g_act v = A \<Longrightarrow> g_end v = None \<Longrightarrow> \<forall>s \<in> set ss. s = x \<Longrightarrow>
    live A (g_mask v) ((fold take_sig ss v)\<lparr>g_pend := []\<rparr>) \<and> g_pend (fold take_sig ss v) = g_pend v \<and> g_alarm (fold take_sig ss v) = g_alarm v \<and>
    g_fails (fold take_sig ss v) = g_fails v \<and> (\<exists>new. g_caught (fold take_sig ss v) = g_caught v @ new \<and> (\<forall>y \<in> set new. fst y = x) \<and>
      (ss \<noteq> [] \<longrightarrow> (\<exists>h. A x = Handler h) \<longrightarrow> new \<noteq> []))"
proof (induction ss arbitrary: v)
  case (Cons s ss)
  define v' where "v' = take_sig s v"
  obtain new where v': "g_act v' = A" "g_mask v' = g_mask v" "g_end v' = None" "g_pend v' = g_pend v" "g_alarm v' = g_alarm v" "g_fails v' = g_fails v"
      "g_caught v' = g_caught v @ new" "\<forall>y \<in> set new. fst y = x" "(\<exists>h. A x = Handler h) \<longrightarrow> new \<noteq> []"
    using Cons.prems assms by (cases "A x") (auto simp: take_sig_def v'_def)
  have rest: "\<forall>s \<in> set ss. s = x" using Cons.prems(3) by simp
  from Cons.IH [OF v'(1,3) rest] obtain new' where n: "live A (g_mask v') ((fold take_sig ss v')\<lparr>g_pend := []\<rparr>)"
      "g_pend (fold take_sig ss v') = g_pend v'" "g_alarm (fold take_sig ss v') = g_alarm v'" "g_fails (fold take_sig ss v') = g_fails v'"
      "g_caught (fold take_sig ss v') = g_caught v' @ new'" "\<forall>y \<in> set new'. fst y = x" by blast
  have f: "fold take_sig (s # ss) v = fold take_sig ss v'" by (simp add: v'_def)
  have "g_caught (fold take_sig (s # ss) v) = g_caught v @ (new @ new')" "\<forall>y \<in> set (new @ new'). fst y = x"
      "(\<exists>h. A x = Handler h) \<longrightarrow> new @ new' \<noteq> []" using f n v' by auto
  then show ?case using f n v' by (metis (no_types, lifting))
qed (auto simp: live_def)

lemma set_mask_one:
  assumes "live A (insert x m) u" "A x \<noteq> SIG_DFL \<or> x = SIGCHLD"
  shows "live A m (set_mask m u) \<and> g_alarm (set_mask m u) = g_alarm u \<and> g_fails (set_mask m u) = g_fails u \<and>
    (\<exists>new. g_caught (set_mask m u) = g_caught u @ new \<and> (\<forall>y \<in> set new. fst y = x) \<and>
       (x \<in> set (g_pend u) \<longrightarrow> x \<notin> m \<longrightarrow> (\<exists>h. A x = Handler h) \<longrightarrow> new \<noteq> []))"
proof -
  let ?v = "u\<lparr>g_mask := m, g_pend := filter (\<lambda>s. s \<in> m) (g_pend u)\<rparr>" and ?ss = "filter (\<lambda>s. s \<notin> m) (g_pend u)"
  have f: "\<forall>s \<in> set ?ss. s = x" using assms(1) by (auto simp: live_def)
  have v: "g_act ?v = A" "g_end ?v = None" using assms(1) by (simp_all add: live_def)
  have ne: "x \<in> set (g_pend u) \<Longrightarrow> x \<notin> m \<Longrightarrow> ?ss \<noteq> []" by (auto simp: filter_empty_conv)
  show ?thesis using fold_take_one [OF assms(2) v f] ne by (auto simp: set_mask_def live_def)
qed

section \<open>The function system leaves no trace\<close>

text \<open>What may come in after call number \<open>k\<close>: signals that do not end the process anyway, and those that are ignored at that time.\<close>

definition system_calm :: "(signo \<Rightarrow> act) \<Rightarrow> signo set \<Rightarrow> nat \<Rightarrow> event \<Rightarrow> bool" where
  "system_calm A m k e \<longleftrightarrow>
     (case e of Tick \<Rightarrow> True | Sig s \<Rightarrow> harmless A m s \<or> s = SIGINT \<and> k \<le> 3 \<or> s = SIGQUIT \<and> 1 \<le> k \<and> k \<le> 4)"

text \<open>A stretch of the function with dispositions \<open>B\<close>: as calm, with the handlers that ran in \<open>S\<close>.\<close>

definition stretch :: "sigproc \<Rightarrow> (signo \<Rightarrow> act) \<Rightarrow> signo set \<Rightarrow> signo set \<Rightarrow> sigproc \<Rightarrow> bool" where
  "stretch st B m S u \<longleftrightarrow> live B m u \<and> g_alarm u = 0 \<and> g_fails u = [] \<and> (\<exists>new. g_caught u = g_caught st @ new \<and> (\<forall>x \<in> set new. fst x \<in> S))"

lemma stretch_happens:
  assumes "stretch st B m S u" "\<forall>e \<in> set es. calm B m 0 e" "\<And>s. Sig s \<in> set es \<Longrightarrow> s \<notin> S \<Longrightarrow> B s = SIG_IGN"
  shows "stretch st B m S (happens es u)"
proof -
  have l: "live B m u" "g_alarm u = 0" "g_act u = B" using assms(1) by (simp_all add: stretch_def live_def)
  then have "went u (happens es u) es" using assms(2) by (intro happens_went) simp_all
  then obtain new where w: "live (g_act u) (g_mask u) (happens es u)" "g_alarm (happens es u) = 0" "g_fails (happens es u) = g_fails u"
    "g_caught (happens es u) = g_caught u @ new" "\<forall>(s, h) \<in> set new. B s = Handler h \<and> Sig s \<in> set es"
    using l(2,3) by (auto simp: went_def)
  have "\<forall>x \<in> set new. fst x \<in> S" using w(5) assms(3) by force
  then show ?thesis using assms(1) w(1-4) l by (auto simp: stretch_def live_def)
qed

lemma stretch_act: "stretch st B m S u \<Longrightarrow> may_fail (set_act s a) u = (False, set_act s a u) \<and> stretch st (B(s := a)) m S (set_act s a u)"
  by (auto simp: stretch_def may_fail_def set_act_def live_def)

lemma stretch_mask_more: "stretch st B m S u \<Longrightarrow> m \<subseteq> m' \<Longrightarrow> may_fail (set_mask m') u = (False, set_mask m' u) \<and> stretch st B m' S (set_mask m' u)"
  using set_mask_more [of B m u m'] by (auto simp: stretch_def may_fail_def)

lemma stretch_mask_chld:
  assumes "stretch st B (insert SIGCHLD m) S u" "SIGCHLD \<in> S"
  shows "may_fail (set_mask m) u = (False, set_mask m u) \<and> stretch st B m S (set_mask m u)"
  using assms set_mask_one [of B SIGCHLD m u] by (fastforce simp: stretch_def may_fail_def)

lemma system_child_runs:
  assumes "stretch st B (insert SIGCHLD m) S u"
  shows "let ch = system_child a b m [] u in g_end ch = None \<and> g_mask ch = m \<and> g_pend ch = [] \<and> g_alarm ch = 0 \<and>
    g_act ch = (\<lambda>s. case (B(SIGINT := a, SIGQUIT := b)) s of Handler h \<Rightarrow> SIG_DFL | x \<Rightarrow> x)"
  using assms by (auto simp: system_child_def may_fail_def set_act_def set_mask_def stretch_def live_def fun_eq_iff Let_def)

text \<open>
  C22: \<^verbatim>\<open>system\<close>. With calls that do not fail, whatever signals come in that the caller has not left to end it, and SIGINT and SIGQUIT at any time while it has them ignored, as they do when the terminal sends
  them to end the command: the caller lives on, has the same dispositions and the same mask as before, and gets the status of the command, or -1 when there could be no
  child. Handlers ran only for signals that came, for SIGINT and SIGQUIT only when they came after or before that time, and for SIGCHLD. The command runs with the
  caller's mask, and with its dispositions, but for handlers.
\<close>

theorem system_transparent:
  assumes "live (g_act st) (g_mask st) st" "g_alarm st = 0" "g_fails st = []"
    and "\<And>k e. e \<in> set (gap k) \<Longrightarrow> system_calm (g_act st) (g_mask st) k e"
    and "fk = Inr [] \<and> wait_status w = Some status \<or> fk = Inl e \<and> status = - 1"
  shows "\<exists>t ch. system_fn True gap fk w st = Some (status, t, ch) \<and> g_act t = g_act st \<and> g_mask t = g_mask st \<and> g_end t = None \<and>
    (\<exists>new. g_caught t = g_caught st @ new \<and>
       (\<forall>(s, h) \<in> set new. s = SIGCHLD \<or> (\<exists>k. Sig s \<in> set (gap k) \<and> (s = SIGINT \<longrightarrow> 3 < k) \<and> (s = SIGQUIT \<longrightarrow> k < 1 \<or> 4 < k)))) \<and>
    (fk = Inr [] \<longrightarrow> (\<exists>c. ch = Some c \<and> g_end c = None \<and> g_mask c = g_mask st \<and>
       g_act c = (\<lambda>s. case g_act st s of Handler h \<Rightarrow> SIG_DFL | a \<Rightarrow> a)))"
proof -
  define A m where "A = g_act st" and "m = g_mask st"
  define S where "S = {s. s = SIGCHLD \<or> (\<exists>k. Sig s \<in> set (gap k) \<and> (s = SIGINT \<longrightarrow> 3 < k) \<and> (s = SIGQUIT \<longrightarrow> k < 1 \<or> 4 < k))}"
  define A1 where "A1 = A(SIGINT := SIG_IGN)"
  define A2 where "A2 = A1(SIGQUIT := SIG_IGN)"
  define A3 where "A3 = A2(SIGINT := A SIGINT)"
  let ?m = "insert SIGCHLD m"
  have quiet: "stretch st B n S (happens (gap k) u)"
    if st: "stretch st B n S u" and k: "k \<le> 5" and n: "m \<subseteq> n"
      and B: "B = A(SIGINT := if k \<le> 3 then SIG_IGN else A SIGINT, SIGQUIT := if 1 \<le> k \<and> k \<le> 4 then SIG_IGN else A SIGQUIT)" for B n u k
  proof (rule stretch_happens [OF st])
    show "\<forall>e \<in> set (gap k). calm B n 0 e"
    proof
      fix e assume "e \<in> set (gap k)"
      from assms(4) [OF this] show "calm B n 0 e" unfolding B A_def [symmetric] m_def [symmetric]
        using n by (cases e) (auto simp: system_calm_def harmless_def)
    qed
    show "B s = SIG_IGN" if "Sig s \<in> set (gap k)" "s \<notin> S" for s
      using that unfolding B S_def by auto
  qed
  have u0: "stretch st A m S st" using assms(1-3) by (auto simp: stretch_def A_def m_def)
  define s1 where "s1 = set_act SIGINT SIG_IGN st"
  define t1 where "t1 = happens (gap 0) s1"
  define s2 where "s2 = set_act SIGQUIT SIG_IGN t1"
  define t2 where "t2 = happens (gap 1) s2"
  define s3 where "s3 = set_mask ?m t2"
  define t3 where "t3 = happens (gap 2) s3"
  have f1: "may_fail (set_act SIGINT SIG_IGN) st = (False, s1)" "stretch st A1 m S s1" using stretch_act [OF u0] by (simp_all add: s1_def A1_def)
  have g1: "stretch st A1 m S t1" unfolding t1_def by (rule quiet [OF f1(2)]) (auto simp: A1_def fun_eq_iff)
  have f2: "may_fail (set_act SIGQUIT SIG_IGN) t1 = (False, s2)" "stretch st A2 m S s2" using stretch_act [OF g1] by (simp_all add: s2_def A2_def)
  have g2: "stretch st A2 m S t2" unfolding t2_def by (rule quiet [OF f2(2)]) (auto simp: A1_def A2_def fun_eq_iff)
  have f3: "may_fail (set_mask ?m) t2 = (False, s3)" "stretch st A2 ?m S s3" using stretch_mask_more [OF g2, of ?m] by (auto simp: s3_def)
  have g3: "stretch st A2 ?m S t3" unfolding t3_def by (rule quiet [OF f3(2)]) (auto simp: A1_def A2_def fun_eq_iff)
  have sv: "g_act st SIGINT = A SIGINT" "g_act t1 SIGQUIT = A SIGQUIT" "g_mask t2 = m"
    using g1 g2 by (auto simp: A_def A1_def stretch_def live_def)
  define c where "c = system_child (A SIGINT) (A SIGQUIT) m [] t3"
  define t4 where "t4 = (case fk of Inl e \<Rightarrow> t3 | Inr _ \<Rightarrow> happens (gap 3) t3)"
  define ch where "ch = (case fk of Inl e \<Rightarrow> None | Inr _ \<Rightarrow> Some c)"
  have "stretch st A2 ?m S (happens (gap 3) t3)" by (rule quiet [OF g3]) (auto simp: A1_def A2_def fun_eq_iff)
  then have g4: "stretch st A2 ?m S t4" using g3 by (auto simp: t4_def split: sum.split)
  define s5 where "s5 = set_act SIGINT (A SIGINT) t4"
  define t5 where "t5 = happens (gap 4) s5"
  define s6 where "s6 = set_act SIGQUIT (A SIGQUIT) t5"
  define t6 where "t6 = happens (gap 5) s6"
  define t where "t = set_mask m t6"
  have f5: "may_fail (set_act SIGINT (A SIGINT)) t4 = (False, s5)" "stretch st A3 ?m S s5" using stretch_act [OF g4] by (simp_all add: s5_def A3_def)
  have g5: "stretch st A3 ?m S t5" unfolding t5_def by (rule quiet [OF f5(2)]) (auto simp: A1_def A2_def A3_def fun_eq_iff)
  have A: "A3(SIGQUIT := A SIGQUIT) = A" by (auto simp: A1_def A2_def A3_def fun_eq_iff)
  have f6: "may_fail (set_act SIGQUIT (A SIGQUIT)) t5 = (False, s6)" "stretch st A ?m S s6" using stretch_act [OF g5, of SIGQUIT "A SIGQUIT"] unfolding A by (simp_all add: s6_def)
  have g6: "stretch st A ?m S t6" unfolding t6_def by (rule quiet [OF f6(2)]) (auto simp: fun_eq_iff)
  have f7: "may_fail (set_mask m) t6 = (False, t)" "stretch st A m S t" using stretch_mask_chld [OF g6] by (auto simp: t_def S_def)
  have t2': "happens (gap (Suc 0)) s2 = t2" by (simp add: t2_def)
  have run: "system_fn True gap fk w st = Some (status, t, ch)"
  proof (cases fk)
    case (Inl x)
    then have t4: "t4 = t3" "ch = None" "status = - 1" using assms(5) by (auto simp: t4_def ch_def)
    show ?thesis unfolding system_fn_def Inl
      by (simp add: f1(1) f2(1) f3(1) f5(1) [unfolded t4] f6(1) f7(1) sv t4 Let_def t2' flip: t1_def t3_def t5_def t6_def)
  next
    case (Inr cf)
    then have t4: "t4 = happens (gap 3) t3" "ch = Some c" "cf = []" "wait_status w = Some status" using assms(5) by (auto simp: t4_def ch_def)
    show ?thesis unfolding system_fn_def Inr t4(3)
      by (simp add: f1(1) f2(1) f3(1) f5(1) f6(1) f7(1) sv t4(2,4) Let_def t2' flip: t1_def t3_def t4(1) t5_def t6_def c_def)
  qed
  have "g_end c = None \<and> g_mask c = m \<and> g_act c = (\<lambda>s. case A s of Handler h \<Rightarrow> SIG_DFL | a \<Rightarrow> a)"
    using system_child_runs [OF g3, of "A SIGINT" "A SIGQUIT"] by (auto simp: c_def Let_def A1_def A2_def fun_eq_iff split: act.split)
  then show ?thesis using run f7(2) by (fastforce simp: stretch_def live_def A_def m_def ch_def S_def)
qed

text \<open>A caller with a handler for SIGQUIT; SIGINT comes while the command runs, and \<^verbatim>\<open>waitpid\<close> is interrupted once.\<close>

definition ex_sigs :: sigproc where
  "ex_sigs = \<lparr>g_act = (\<lambda>_. SIG_DFL)(SIGQUIT := Handler 3), g_mask = {}, g_pend = [], g_alarm = 0, g_caught = [], g_end = None, g_fails = [], g_written = [], g_held = ''out''\<rparr>"

theorem system_transparent_witness:
  "\<exists>t ch. system_fn True ((\<lambda>_. [])(3 := [Sig SIGINT, Tick, Sig SIGCHLD])) (Inr []) [Inl EINTR, Inr 256] ex_sigs = Some (256, t, ch) \<and>
     g_act t = g_act ex_sigs \<and> g_end t = None"
proof -
  have "live (g_act ex_sigs) (g_mask ex_sigs) ex_sigs" "g_alarm ex_sigs = 0" "g_fails ex_sigs = []" by (simp_all add: ex_sigs_def live_def)
  moreover have "system_calm (g_act ex_sigs) (g_mask ex_sigs) k e" if "e \<in> set (((\<lambda>_. [])(3 := [Sig SIGINT, Tick, Sig SIGCHLD])) k)" for k :: nat and e
    using that by (auto simp: system_calm_def harmless_def split: if_splits)
  ultimately show ?thesis using system_transparent [of ex_sigs "(\<lambda>_. [])(3 := [Sig SIGINT, Tick, Sig SIGCHLD])" "Inr []" "[Inl EINTR, Inr 256]" 256] by (simp del: fun_upd_apply) blast
qed

text \<open>When the second or third call fails the function returns at once, with SIGINT ignored from then on.\<close>

lemma system_early_return:
  "system_fn True (\<lambda>_. []) fk w (ex_sigs\<lparr>g_fails := [False, True]\<rparr>) = Some (r, t, ch) \<Longrightarrow> r = - 1 \<and> g_act t SIGINT = SIG_IGN \<and> g_act ex_sigs SIGINT = SIG_DFL"
  by (auto simp: system_fn_def may_fail_def ex_sigs_def happens_def set_act_def)

section \<open>The function sleep\<close>











text \<open>
  Between the end of the waiting and \<^verbatim>\<open>alarm(0)\<close> the alarm can go off. SIGALRM is blocked then and waits, the old disposition is put back, and unblocking it
  ends a process that has none.
\<close>

lemma sleep_race:
  "map_option (\<lambda>(r, _, t). (r, g_end t)) (sleep_fn 1 ((\<lambda>_. [])(3 := [Tick])) [Sig SIGQUIT] ex_sigs) = Some (0, Some (Killed SIGALRM))"
  by code_simp

section \<open>The function abort\<close>

text \<open>Whatever the process does with SIGABRT, it ends by it, and what the streams held has been written.\<close>

lemma take_held: "g_written (take_sig s v) = g_written v \<and> g_held (take_sig s v) = g_held v \<and> g_act (take_sig s v) = g_act v \<and> g_mask (take_sig s v) = g_mask v"
  by (auto simp: take_sig_def split: act.splits)

lemma fold_take_held: "g_written (fold take_sig ss v) = g_written v \<and> g_held (fold take_sig ss v) = g_held v \<and> g_act (fold take_sig ss v) = g_act v \<and> g_mask (fold take_sig ss v) = g_mask v"
  by (induction ss arbitrary: v) (auto simp: take_held)

lemma set_mask_held: "g_written (set_mask m v) = g_written v \<and> g_held (set_mask m v) = g_held v \<and> g_act (set_mask m v) = g_act v \<and> g_mask (set_mask m v) = m"
  by (simp add: set_mask_def fold_take_held)

lemma post_abrt:
  assumes "SIGABRT \<notin> g_mask v"
  shows "post SIGABRT v = take_sig SIGABRT v"
  using assms by (simp add: post_def)

text \<open>With only SIGABRT let through, nothing else can end the process.\<close>

lemma unblock_abrt:
  assumes "g_end v = None" "set (g_pend v) \<subseteq> g_mask v"
  shows "g_end (set_mask (- {SIGABRT}) v) \<in> {None, Some (Killed SIGABRT)} \<and>
    (g_act v SIGABRT \<noteq> SIG_DFL \<longrightarrow> g_end (set_mask (- {SIGABRT}) v) = None) \<and> set (g_pend (set_mask (- {SIGABRT}) v)) \<subseteq> - {SIGABRT}"
proof -
  have f: "g_end u \<in> {None, Some (Killed SIGABRT)} \<Longrightarrow> \<forall>s \<in> set ss. s = SIGABRT \<Longrightarrow>
      g_end (fold take_sig ss u) \<in> {None, Some (Killed SIGABRT)} \<and> (g_end u = None \<longrightarrow> g_act u SIGABRT \<noteq> SIG_DFL \<longrightarrow> g_end (fold take_sig ss u) = None) \<and>
      g_pend (fold take_sig ss u) = g_pend u" for ss u
  proof (induction ss arbitrary: u)
    case (Cons s ss)
    have "g_end (take_sig s u) \<in> {None, Some (Killed SIGABRT)}" "g_pend (take_sig s u) = g_pend u"
      "g_end u = None \<longrightarrow> g_act u SIGABRT \<noteq> SIG_DFL \<longrightarrow> g_end (take_sig s u) = None"
      using Cons.prems by (auto simp: take_sig_def split: act.splits)
    then show ?case using Cons.IH [of "take_sig s u"] Cons.prems(2) by (simp add: take_held)
  qed simp
  show ?thesis
  proof -
    let ?v = "v\<lparr>g_mask := - {SIGABRT}, g_pend := filter (\<lambda>s. s \<in> - {SIGABRT}) (g_pend v)\<rparr>" and ?ss = "filter (\<lambda>s. s \<notin> - {SIGABRT}) (g_pend v)"
    have "g_end ?v \<in> {None, Some (Killed SIGABRT)}" "\<forall>s \<in> set ?ss. s = SIGABRT" using assms(1) by simp_all
    from f [OF this] have "g_end (fold take_sig ?ss ?v) \<in> {None, Some (Killed SIGABRT)}" "g_act v SIGABRT \<noteq> SIG_DFL \<longrightarrow> g_end (fold take_sig ?ss ?v) = None"
        "g_pend (fold take_sig ?ss ?v) = filter (\<lambda>s. s \<in> - {SIGABRT}) (g_pend v)"
      using assms(1) by simp_all
    then show ?thesis unfolding set_mask_def by simp
  qed
qed

lemma abort_ends:
  assumes "g_end st = None" "set (g_pend st) \<subseteq> g_mask st"
  shows "g_end (abort_fn st) = Some (Killed SIGABRT) \<and> g_held (abort_fn st) = [] \<and> g_written (abort_fn st) = g_written st @ g_held st"
proof -
  let ?m = "- {SIGABRT}"
  define s1 where "s1 = (if g_act st SIGABRT = SIG_IGN then set_act SIGABRT SIG_DFL st else st)"
  define s2 where "s2 = (if g_act s1 SIGABRT = SIG_DFL then fflush_all s1 else s1)"
  define s3 where "s3 = post SIGABRT (set_mask ?m s2)"
  have 1: "g_end s1 = None" "set (g_pend s1) \<subseteq> g_mask s1" "g_act s1 SIGABRT \<noteq> SIG_IGN" "g_written s1 = g_written st" "g_held s1 = g_held st"
    using assms by (auto simp: s1_def set_act_def)
  have 2: "g_end s2 = None" "set (g_pend s2) \<subseteq> g_mask s2" "g_act s2 = g_act s1" "g_written s2 @ g_held s2 = g_written st @ g_held st"
    "g_act s1 SIGABRT = SIG_DFL \<longrightarrow> g_held s2 = []"
    using 1 by (auto simp: s2_def fflush_all_def)
  note u = unblock_abrt [OF 2(1,2)] and h = set_mask_held [of ?m s2]
  have p3: "s3 = take_sig SIGABRT (set_mask ?m s2)" unfolding s3_def by (rule post_abrt) (simp add: h)
  show ?thesis
  proof (cases "g_act s1 SIGABRT")
    case SIG_DFL
    then have a: "g_act (set_mask ?m s2) SIGABRT = SIG_DFL" using h 2(3) by simp
    have "g_end s3 = Some (Killed SIGABRT)" using a u by (cases "g_end (set_mask ?m s2)") (simp_all add: p3 take_sig_def)
    then have "abort_fn st = s3" by (simp add: abort_fn_def Let_def flip: s1_def s2_def s3_def)
    moreover have "g_written s3 = g_written s2" "g_held s3 = g_held s2" using h by (simp_all add: p3 take_held)
    ultimately show ?thesis using \<open>g_end s3 = _\<close> 2(4,5) SIG_DFL by simp
  next
    case SIG_IGN
    then show ?thesis using 1(3) by simp
  next
    case (Handler hd)
    then have a: "g_act (set_mask ?m s2) SIGABRT = Handler hd" using h 2(3) by simp
    then have "g_end (set_mask ?m s2) = None" using u h by simp
    then have e3: "g_end s3 = None" using a by (simp add: p3 take_sig_def)
    define s4 where "s4 = set_act SIGABRT SIG_DFL (fflush_all s3)"
    have k3: "g_written s3 = g_written s2" "g_held s3 = g_held s2" "g_mask s3 = ?m" "g_pend s3 = g_pend (set_mask ?m s2)"
      using h by (auto simp: p3 take_held take_sig_def split: act.splits)
    have 4: "g_end s4 = None" "set (g_pend s4) \<subseteq> g_mask s4" "g_act s4 SIGABRT = SIG_DFL" "g_written s4 = g_written st @ g_held st" "g_held s4 = []"
      using e3 k3 u 2(4) by (auto simp: s4_def set_act_def fflush_all_def)
    define s5 where "s5 = post SIGABRT (set_mask ?m s4)"
    note u4 = unblock_abrt [OF 4(1,2)] and h4 = set_mask_held [of ?m s4]
    have p5: "s5 = take_sig SIGABRT (set_mask ?m s4)" unfolding s5_def by (rule post_abrt) (simp add: h4)
    have "g_act (set_mask ?m s4) SIGABRT = SIG_DFL" using h4 4(3) by simp
    then have e5: "g_end s5 = Some (Killed SIGABRT)" using u4 by (cases "g_end (set_mask ?m s4)") (simp_all add: p5 take_sig_def)
    have "abort_fn st = s5" using e3 e5 by (simp add: abort_fn_def Let_def flip: s1_def s2_def s3_def) (simp add: s5_def s4_def)
    then show ?thesis using e5 h4 4(4,5) by (simp add: p5 take_held)
  qed
qed

end
