(* ===== verification/Ttyname.thy ===== *)
theory Ttyname
  imports Prelude
begin

text \<open>
  The search for the name of a terminal (\<^verbatim>\<open>termios/ttyname.c\<close>): the files below \<^verbatim>\<open>/dev\<close>, directory by directory, with the path in a buffer of fixed size whose every write is
  checked, and a list of the directories still to be searched, which grows while it is gone through. The file system is an argument; memory is taken to be there.
\<close>

section \<open>The file system\<close>

record finfo =
  s_ino :: nat
  s_dev :: nat
  s_isdir :: bool
  s_ischr :: bool

text \<open>What \<^verbatim>\<open>stat\<close> says of a path, and the entries of a directory, if it can be opened.\<close>

record fsys =
  fs_stat :: "string \<Rightarrow> finfo option"
  fs_dir :: "string \<Rightarrow> string list option"

section \<open>The functions\<close>

definition POSIX_PATH_MAX :: nat where "POSIX_PATH_MAX = 256"

text \<open>A write of \<open>s\<close> into the buffer from position \<open>i\<close> on.\<close>

definition put_bytes :: "nat \<Rightarrow> string \<Rightarrow> string \<Rightarrow> string res" where
  "put_bytes i s buf =
     (if i + length s \<le> length buf then Inr (take i buf @ s @ drop (i + length s) buf) else Inl (Undefined ''pathname''))"

definition dot_dir :: "string \<Rightarrow> bool" where
  "dot_dir path \<longleftrightarrow> take 2 (rev path) = ''./'' \<or> take 3 (rev path) = ''../''"

definition add_dir :: "string \<Rightarrow> string list \<Rightarrow> string list" where
  "add_dir dirname dirs = (if dot_dir dirname \<or> dirname = ''/dev/fd'' then dirs else dirs @ [dirname])"

definition aliases :: "string list" where
  "aliases = [''/dev/stdin'', ''/dev/stdout'', ''/dev/stderr'']"

text \<open>The loop over the entries of a directory: the name if there is a match, the buffer, the directories.\<close>

fun search_names :: "fsys \<Rightarrow> finfo \<Rightarrow> nat \<Rightarrow> string list \<Rightarrow> string \<Rightarrow> string list \<Rightarrow> (string option \<times> string \<times> string list) res" where
  "search_names E fdst devlen [] pn dirs = Inr (None, pn, dirs)"
| "search_names E fdst devlen (nm # nms) pn dirs =
     (let k = POSIX_PATH_MAX - devlen in
      bnd (put_bytes devlen (take k (nm @ replicate k NUL)) pn) (\<lambda>pn'.
      let path = cstr pn' in
      if path \<in> set aliases then search_names E fdst devlen nms pn' dirs
      else case fs_stat E path of
             None \<Rightarrow> search_names E fdst devlen nms pn' dirs
           | Some st \<Rightarrow>
               if s_isdir st then search_names E fdst devlen nms pn' (add_dir path dirs)
               else if s_ino st = s_ino fdst \<and> s_dev st = s_dev fdst then Inr (Some path, pn', dirs)
               else search_names E fdst devlen nms pn' dirs))"

definition searchdir :: "fsys \<Rightarrow> finfo \<Rightarrow> string \<Rightarrow> string \<Rightarrow> string list \<Rightarrow> (string option \<times> string \<times> string list) res" where
  "searchdir E fdst dirname pn dirs =
     bnd (put_bytes 0 (dirname @ [NUL]) pn) (\<lambda>p1.
     case fs_dir E dirname of
       None \<Rightarrow> Inr (None, p1, dirs)
     | Some nms \<Rightarrow>
         bnd (put_bytes (length (cstr p1)) (''/'' @ [NUL]) p1) (\<lambda>p2. search_names E fdst (length (cstr p2)) nms p2 dirs))"

text \<open>The loop over the list of directories, \<open>n\<close> rounds at most.\<close>

fun dirs_loop :: "nat \<Rightarrow> fsys \<Rightarrow> finfo \<Rightarrow> nat \<Rightarrow> string \<Rightarrow> string list \<Rightarrow> (string option \<times> string \<times> string list) res" where
  "dirs_loop 0 E fdst i pn dirs = Inl Diverges"
| "dirs_loop (Suc n) E fdst i pn dirs =
     (if length dirs \<le> i then Inr (None, pn, dirs)
      else bnd (searchdir E fdst (dirs ! i) pn dirs) (\<lambda>(r, pn', dirs').
             if r \<noteq> None then Inr (r, pn', dirs') else dirs_loop n E fdst (Suc i) pn' dirs'))"

text \<open>\<open>tty\<close> is what \<^verbatim>\<open>isatty\<close> says, \<open>fdst\<close> what \<^verbatim>\<open>fstat\<close> says. The result: the name, the buffer, and the list of directories that is left.\<close>

definition ttyname :: "nat \<Rightarrow> fsys \<Rightarrow> bool \<Rightarrow> finfo option \<Rightarrow> string \<Rightarrow> (string option \<times> string \<times> string list) res" where
  "ttyname n E tty fdst pn =
     (if \<not> tty then Inr (None, pn, [])
      else case fdst of
             None \<Rightarrow> Inr (None, pn, [])
           | Some fds \<Rightarrow>
               if \<not> s_ischr fds then Inr (None, pn, [])
               else bnd (searchdir E fds ''/dev'' pn []) (\<lambda>(r, pn1, dirs).
                    bnd (if r = None then dirs_loop n E fds 0 pn1 dirs else Inr (r, pn1, dirs)) (\<lambda>(r2, pn2, dirs2).
                    Inr (r2, pn2, []))))"

section \<open>What is searched\<close>

definition child :: "string \<Rightarrow> string \<Rightarrow> string" where "child d nm = d @ ''/'' @ nm"

definition entries :: "fsys \<Rightarrow> string \<Rightarrow> string list" where
  "entries E d = (case fs_dir E d of None \<Rightarrow> [] | Some nms \<Rightarrow> nms)"

definition subdir :: "fsys \<Rightarrow> string \<Rightarrow> bool" where
  "subdir E q \<longleftrightarrow> q \<notin> set aliases \<and> (\<exists>st. fs_stat E q = Some st \<and> s_isdir st) \<and> \<not> dot_dir q \<and> q \<noteq> ''/dev/fd''"

definition hit :: "fsys \<Rightarrow> finfo \<Rightarrow> string \<Rightarrow> bool" where
  "hit E fdst q \<longleftrightarrow> q \<notin> set aliases \<and> (\<exists>st. fs_stat E q = Some st \<and> \<not> s_isdir st \<and> s_ino st = s_ino fdst \<and> s_dev st = s_dev fdst)"

inductive_set searched :: "fsys \<Rightarrow> string set" for E where
  dev: "''/dev'' \<in> searched E"
| below: "d \<in> searched E \<Longrightarrow> nm \<in> set (entries E d) \<Longrightarrow> subdir E (child d nm) \<Longrightarrow> child d nm \<in> searched E"

text \<open>Names as \<^verbatim>\<open>readdir\<close> gives them, and paths that fit.\<close>

definition fs_ok :: "fsys \<Rightarrow> bool" where
  "fs_ok E \<longleftrightarrow> (\<forall>d \<in> searched E. distinct (entries E d) \<and>
     (\<forall>nm \<in> set (entries E d). is_cstr nm \<and> CHR ''/'' \<notin> set nm \<and> length (child d nm) + 2 \<le> POSIX_PATH_MAX))"

section \<open>The buffer\<close>

definition buf_ok :: "string \<Rightarrow> bool" where
  "buf_ok pn \<longleftrightarrow> length pn = POSIX_PATH_MAX + 1 \<and> last pn = NUL"

lemma put_bytes_ok:
  "i + length s \<le> length buf \<Longrightarrow> put_bytes i s buf = Inr (take i buf @ s @ drop (i + length s) buf)"
  by (simp add: put_bytes_def)

lemma buf_put: "buf_ok pn \<Longrightarrow> i + length s \<le> POSIX_PATH_MAX \<Longrightarrow> buf_ok (take i pn @ s @ drop (i + length s) pn)"
  by (auto simp: buf_ok_def last_drop)

text \<open>The name of an entry behind its directory.\<close>

lemma put_name:
  assumes "buf_ok pn" "take (length d + 1) pn = d @ ''/''" "is_cstr d" "is_cstr nm" "length (child d nm) < POSIX_PATH_MAX"
  defines "k \<equiv> POSIX_PATH_MAX - (length d + 1)"
  shows "\<exists>pn'. put_bytes (length d + 1) (take k (nm @ replicate k NUL)) pn = Inr pn' \<and> buf_ok pn' \<and> take (length d + 1) pn' = d @ ''/'' \<and> cstr pn' = child d nm"
proof -
  let ?s = "take k (nm @ replicate k NUL)"
  let ?pn = "take (length d + 1) pn @ ?s @ drop (length d + 1 + length ?s) pn"
  have k: "length nm < k" "length ?s = k" "length d + 1 + k = POSIX_PATH_MAX" using assms(5) by (auto simp: child_def k_def POSIX_PATH_MAX_def)
  have l: "length pn = POSIX_PATH_MAX + 1" using assms(1) by (simp add: buf_ok_def)
  have p: "put_bytes (length d + 1) ?s pn = Inr ?pn" using k l by (intro put_bytes_ok) simp
  have b: "buf_ok ?pn" using assms(1) k by (intro buf_put) simp_all
  obtain j where j: "k - length nm = Suc j" using k(1) by (cases "k - length nm") auto
  have "?s = nm @ replicate (k - length nm) NUL" using k(1) by simp
  then have "?pn = child d nm @ NUL # (replicate j NUL @ drop (length d + 1 + length ?s) pn)" using assms(2) j by (simp add: child_def)
  moreover have "is_cstr (child d nm)" using assms(3,4) by (simp add: child_def)
  ultimately have c: "cstr ?pn = child d nm" by (metis cstr_append_NUL)
  have "length d + 1 \<le> length pn" using l k by simp
  then have "take (length d + 1) ?pn = take (length d + 1) pn" by simp
  then show ?thesis using p b c assms(2) by (intro exI [of _ ?pn]) simp
qed

text \<open>The loop over the entries looks at every one up to the first that matches, and keeps the directories among those.\<close>

lemma search_names_spec:
  assumes "buf_ok pn" "take (length d + 1) pn = d @ ''/''" "is_cstr d"
    and "\<forall>nm \<in> set nms. is_cstr nm \<and> length (child d nm) < POSIX_PATH_MAX"
  shows "\<exists>r pn' new. search_names E fdst (length d + 1) nms pn dirs = Inr (r, pn', dirs @ new) \<and> buf_ok pn' \<and>
    (case r of None \<Rightarrow> (\<forall>nm \<in> set nms. \<not> hit E fdst (child d nm)) \<and> new = filter (subdir E) (map (child d) nms)
     | Some q \<Rightarrow> \<exists>nm \<in> set nms. q = child d nm \<and> hit E fdst q)"
  using assms(1,2,4)
proof (induction nms arbitrary: pn dirs)
  case (Cons nm nms)
  let ?q = "child d nm"
  obtain p1 where p1: "put_bytes (length d + 1) (take (POSIX_PATH_MAX - (length d + 1)) (nm @ replicate (POSIX_PATH_MAX - (length d + 1)) NUL)) pn = Inr p1"
    "buf_ok p1" "take (length d + 1) p1 = d @ ''/''" "cstr p1 = ?q"
    using put_name [OF Cons.prems(1,2) assms(3), of nm] Cons.prems(3) by auto
  have rest: "\<forall>nm \<in> set nms. is_cstr nm \<and> length (child d nm) < POSIX_PATH_MAX" using Cons.prems(3) by simp
  note ih = Cons.IH [OF p1(2,3) rest]
  show ?case
  proof (cases "hit E fdst ?q")
    case True
    then have "search_names E fdst (length d + 1) (nm # nms) pn dirs = Inr (Some ?q, p1, dirs)"
      using p1 by (auto simp: hit_def Let_def)
    then show ?thesis using p1(2) True by (intro exI [of _ "Some ?q"] exI [of _ p1] exI [of _ "[]"]) simp
  next
    case False
    let ?new = "if subdir E ?q then [?q] else []"
    have "search_names E fdst (length d + 1) (nm # nms) pn dirs = search_names E fdst (length d + 1) nms p1 (dirs @ ?new)"
      using p1 False by (auto simp: hit_def subdir_def add_dir_def Let_def split: option.split)
    moreover obtain r pn' new where n: "search_names E fdst (length d + 1) nms p1 (dirs @ ?new) = Inr (r, pn', (dirs @ ?new) @ new)" "buf_ok pn'"
        "case r of None \<Rightarrow> (\<forall>nm \<in> set nms. \<not> hit E fdst (child d nm)) \<and> new = filter (subdir E) (map (child d) nms)
         | Some q \<Rightarrow> \<exists>nm \<in> set nms. q = child d nm \<and> hit E fdst q"
      using ih [of "dirs @ ?new"] by blast
    ultimately show ?thesis using False by (intro exI [of _ r] exI [of _ pn'] exI [of _ "?new @ new"]) (auto split: option.splits)
  qed
qed simp

lemma searchdir_spec:
  assumes "buf_ok pn" "is_cstr d" "length d + 2 \<le> POSIX_PATH_MAX"
    and "\<forall>nm \<in> set (entries E d). is_cstr nm \<and> length (child d nm) < POSIX_PATH_MAX"
  shows "\<exists>r pn' new. searchdir E fdst d pn dirs = Inr (r, pn', dirs @ new) \<and> buf_ok pn' \<and>
    (case r of None \<Rightarrow> (\<forall>nm \<in> set (entries E d). \<not> hit E fdst (child d nm)) \<and> new = filter (subdir E) (map (child d) (entries E d))
     | Some q \<Rightarrow> \<exists>nm \<in> set (entries E d). q = child d nm \<and> hit E fdst q)"
proof -
  have l: "length pn = POSIX_PATH_MAX + 1" using assms(1) by (simp add: buf_ok_def)
  define p1 where "p1 = (d @ [NUL]) @ drop (length d + 1) pn"
  have p1: "put_bytes 0 (d @ [NUL]) pn = Inr p1" "buf_ok p1" "cstr p1 = d" "length p1 = POSIX_PATH_MAX + 1" "take (length d) p1 = d"
    using put_bytes_ok [of 0 "d @ [NUL]" pn] buf_put [of pn 0 "d @ [NUL]"] assms l by (auto simp: p1_def)
  show ?thesis
  proof (cases "fs_dir E d")
    case None
    then show ?thesis using p1 by (intro exI [of _ None] exI [of _ p1] exI [of _ "[]"]) (simp add: searchdir_def entries_def)
  next
    case (Some nms)
    define p2 where "p2 = take (length d) p1 @ (''/'' @ [NUL]) @ drop (length d + 2) p1"
    have w: "put_bytes (length d) (''/'' @ [NUL]) p1 = Inr p2" using put_bytes_ok [of "length d" "''/'' @ [NUL]" p1] p1(4) assms(3) by (simp add: p2_def)
    have b2: "buf_ok p2" using buf_put [OF p1(2), of "length d" "''/'' @ [NUL]"] assms(3) by (simp add: p2_def)
    have e: "p2 = (d @ ''/'') @ NUL # drop (length d + 2) p1" using p1(5) by (simp add: p2_def)
    moreover have "is_cstr (d @ ''/'')" using assms(2) by simp
    ultimately have "cstr p2 = d @ ''/''" by (metis cstr_append_NUL)
    then have "searchdir E fdst d pn dirs = search_names E fdst (length d + 1) nms p2 dirs" using p1 w Some by (simp add: searchdir_def)
    moreover have "take (length d + 1) p2 = d @ ''/''" unfolding e by simp
    moreover have en: "entries E d = nms" using Some by (simp add: entries_def)
    ultimately show ?thesis using search_names_spec [OF b2 _ assms(2), of nms E fdst dirs] assms(4) unfolding en by simp
  qed
qed

section \<open>The list of directories\<close>

lemma searched_path:
  assumes "fs_ok E" "d \<in> searched E"
  shows "is_cstr d \<and> 4 \<le> length d \<and> length d + 2 \<le> POSIX_PATH_MAX"
  using assms(2)
proof induction
  case (below d nm)
  then have "is_cstr nm" "length (child d nm) + 2 \<le> POSIX_PATH_MAX" using assms(1) by (auto simp: fs_ok_def)
  then show ?case using below.IH by (auto simp: child_def)
qed (simp add: POSIX_PATH_MAX_def)

text \<open>
  The directories so far, \<^verbatim>\<open>/dev\<close> first, of which the first \<open>k\<close> have been searched: each one once, each below one that was searched before, and nothing found in those, whose
  own directories are all in the list.
\<close>

definition sweep :: "fsys \<Rightarrow> finfo \<Rightarrow> nat \<Rightarrow> string list \<Rightarrow> bool" where
  "sweep E fdst k L \<longleftrightarrow> distinct L \<and> set L \<subseteq> searched E \<and> k \<le> length L \<and> hd L = ''/dev'' \<and>
     (\<forall>x \<in> set (tl L). \<exists>e \<in> set (take k L). \<exists>nm \<in> set (entries E e). x = child e nm) \<and>
     (\<forall>e \<in> set (take k L). \<forall>nm \<in> set (entries E e). \<not> hit E fdst (child e nm) \<and> (subdir E (child e nm) \<longrightarrow> child e nm \<in> set L))"

lemma child_inj: "child d nm = child e nm' \<Longrightarrow> CHR ''/'' \<notin> set nm \<Longrightarrow> CHR ''/'' \<notin> set nm' \<Longrightarrow> d = e \<and> nm = nm'"
proof -
  assume a: "child d nm = child e nm'" "CHR ''/'' \<notin> set nm" "CHR ''/'' \<notin> set nm'"
  have r: "takeWhile (\<lambda>c. c \<noteq> CHR ''/'') (rev (child x n)) = rev n" if "CHR ''/'' \<notin> set n" for x n
    using that by (auto simp: child_def takeWhile_append)
  have "rev nm = rev nm'" using r [OF a(2), of d] r [OF a(3), of e] a(1) by simp
  then show ?thesis using a(1) by (simp add: child_def)
qed

lemma sweep_step:
  assumes "sweep E fdst k L" "fs_ok E" "k < length L" "\<forall>nm \<in> set (entries E (L ! k)). \<not> hit E fdst (child (L ! k) nm)"
  shows "sweep E fdst (Suc k) (L @ filter (subdir E) (map (child (L ! k)) (entries E (L ! k))))"
proof -
  let ?d = "L ! k" and ?new = "filter (subdir E) (map (child (L ! k)) (entries E (L ! k)))"
  have d: "?d \<in> searched E" "?d \<in> set L" using assms(1,3) by (auto simp: sweep_def)
  have names: "CHR ''/'' \<notin> set nm" if "x \<in> searched E" "nm \<in> set (entries E x)" for x nm using assms(2) that by (auto simp: fs_ok_def)
  have "inj_on (child ?d) (set (entries E ?d))" by (rule inj_onI) (simp add: child_def)
  then have dn: "distinct ?new" using assms(2) d(1) by (simp add: fs_ok_def distinct_map)
  have fresh: "x \<notin> set L" if x: "x \<in> set ?new" for x
  proof
    assume "x \<in> set L"
    obtain nm where nm: "nm \<in> set (entries E ?d)" "x = child ?d nm" "subdir E x" using x by auto
    have "4 \<le> length ?d" using searched_path [OF assms(2) d(1)] by simp
    then have "length x \<noteq> length ''/dev''" using nm(2) by (simp add: child_def)
    then have "x \<noteq> hd L" using assms(1) by (auto simp: sweep_def)
    then have "x \<in> set (tl L)" using \<open>x \<in> set L\<close> by (cases L) auto
    then obtain e nm' where e: "e \<in> set (take k L)" "nm' \<in> set (entries E e)" "x = child e nm'" using assms(1) by (auto simp: sweep_def)
    have "e \<in> searched E" using e(1) assms(1) by (auto simp: sweep_def dest: in_set_takeD)
    then have "e = ?d" using child_inj [of ?d nm e nm'] nm e names d(1) by simp
    moreover have "distinct L" using assms(1) by (simp add: sweep_def)
    moreover have "distinct (take k L @ ?d # drop (Suc k) L)" using assms(1) id_take_nth_drop [OF assms(3)] by (simp add: sweep_def)
    ultimately show False using e(1) by simp
  qed
  have "set ?new \<subseteq> searched E" using d(1) searched.below by auto
  moreover have t: "take (Suc k) (L @ ?new) = take k L @ [?d]" using assms(3) by (simp add: take_Suc_conv_app_nth)
  moreover have "hd (L @ ?new) = hd L" "tl (L @ ?new) = tl L @ ?new" using assms(3) by (cases L; simp)+
  ultimately show ?thesis using assms(1,3,4) dn fresh unfolding sweep_def t by auto
qed

lemma finite_searched: "fs_ok E \<Longrightarrow> finite (searched E)"
proof (rule finite_subset)
  assume "fs_ok E"
  then show "searched E \<subseteq> {xs. set xs \<subseteq> UNIV \<and> length xs \<le> POSIX_PATH_MAX}" using searched_path by fastforce
  show "finite {xs :: string. set xs \<subseteq> UNIV \<and> length xs \<le> POSIX_PATH_MAX}" by (rule finite_lists_length_le) simp
qed

text \<open>When all directories of the list have been searched, everything has.\<close>

lemma sweep_all:
  assumes "sweep E fdst (length L) L" "L \<noteq> []" "d \<in> searched E"
  shows "d \<in> set L"
  using assms(3)
proof induction
  case dev
  then show ?case using assms(1,2) by (cases L) (auto simp: sweep_def)
next
  case (below d nm)
  then show ?case using assms(1) by (auto simp: sweep_def)
qed

definition found :: "fsys \<Rightarrow> finfo \<Rightarrow> string option \<Rightarrow> bool" where
  "found E fdst r \<longleftrightarrow>
     (case r of
        Some q \<Rightarrow> \<exists>d \<in> searched E. \<exists>nm \<in> set (entries E d). q = child d nm \<and> hit E fdst q
      | None \<Rightarrow> \<forall>d \<in> searched E. \<forall>nm \<in> set (entries E d). \<not> hit E fdst (child d nm))"

lemma searchdir_of:
  assumes "fs_ok E" "d \<in> searched E" "buf_ok pn"
  shows "\<exists>r pn' new. searchdir E fdst d pn dirs = Inr (r, pn', dirs @ new) \<and> buf_ok pn' \<and>
    (case r of None \<Rightarrow> (\<forall>nm \<in> set (entries E d). \<not> hit E fdst (child d nm)) \<and> new = filter (subdir E) (map (child d) (entries E d))
     | Some q \<Rightarrow> \<exists>nm \<in> set (entries E d). q = child d nm \<and> hit E fdst q)"
proof (rule searchdir_spec [OF assms(3)])
  show "is_cstr d" "length d + 2 \<le> POSIX_PATH_MAX" using searched_path [OF assms(1,2)] by simp_all
  show "\<forall>nm \<in> set (entries E d). is_cstr nm \<and> length (child d nm) < POSIX_PATH_MAX" using assms(1,2) by (fastforce simp: fs_ok_def)
qed

lemma dirs_loop_finds:
  assumes ok: "fs_ok E"
  shows "sweep E fdst (Suc i) (''/dev'' # dirs) \<Longrightarrow> buf_ok pn \<Longrightarrow> card (searched E) \<le> n + i \<Longrightarrow>
    \<exists>r pn' dirs'. dirs_loop n E fdst i pn dirs = Inr (r, pn', dirs') \<and> buf_ok pn' \<and> found E fdst r"
proof (induction n arbitrary: i pn dirs)
  case 0
  have "length (''/dev'' # dirs) = card (set (''/dev'' # dirs))" using 0(1) by (simp add: sweep_def distinct_card del: set_simps distinct.simps length_Cons)
  also have "\<dots> \<le> card (searched E)" using 0(1) finite_searched [OF ok] by (intro card_mono) (auto simp: sweep_def)
  finally show ?case using 0 by (simp add: sweep_def)
next
  case (Suc n)
  let ?L = "''/dev'' # dirs"
  show ?case
  proof (cases "length dirs \<le> i")
    case True
    then have l: "Suc i = length ?L" using Suc.prems(1) by (simp add: sweep_def)
    have "\<not> hit E fdst (child d nm)" if d: "d \<in> searched E" "nm \<in> set (entries E d)" for d nm
    proof -
      have "d \<in> set ?L" using sweep_all [of E fdst ?L d] Suc.prems(1) d(1) l by simp
      moreover have "take (Suc i) ?L = ?L" unfolding l by simp
      ultimately show ?thesis using Suc.prems(1) d(2) unfolding sweep_def by metis
    qed
    then show ?thesis using True Suc.prems(2) by (simp add: found_def)
  next
    case False
    have d: "dirs ! i \<in> searched E" using Suc.prems(1) False by (auto simp: sweep_def)
    obtain r pn' new where s: "searchdir E fdst (dirs ! i) pn dirs = Inr (r, pn', dirs @ new)" "buf_ok pn'"
      "case r of None \<Rightarrow> (\<forall>nm \<in> set (entries E (dirs ! i)). \<not> hit E fdst (child (dirs ! i) nm)) \<and> new = filter (subdir E) (map (child (dirs ! i)) (entries E (dirs ! i)))
       | Some q \<Rightarrow> \<exists>nm \<in> set (entries E (dirs ! i)). q = child (dirs ! i) nm \<and> hit E fdst q"
      using searchdir_of [OF ok d Suc.prems(2), of fdst dirs] by blast
    show ?thesis
    proof (cases r)
      case (Some q)
      then show ?thesis using False s d by (auto simp: found_def)
    next
      case None
      have "sweep E fdst (Suc (Suc i)) (?L @ new)" using sweep_step [OF Suc.prems(1) ok] False s(3) None by simp
      then have "sweep E fdst (Suc (Suc i)) (''/dev'' # (dirs @ new))" by simp
      from Suc.IH [OF this s(2)] Suc.prems(3) show ?thesis using False s(1) None by simp
    qed
  qed
qed

text \<open>
  C31: The name of a terminal. When \<^verbatim>\<open>/dev\<close> and the directories below it have names that are different in each and paths that fit into the buffer, the search ends, writes nothing
  outside of the buffer, and frees its list. It returns the path of an entry with the device and the number of the terminal, in \<^verbatim>\<open>/dev\<close> or a directory below that is not
  left out, or no path when there is no such entry in any of them.
\<close>

theorem ttyname_finds:
  assumes "fs_ok E" "buf_ok pn" "s_ischr fdst" "card (searched E) \<le> n"
  shows "\<exists>r pn'. ttyname n E True (Some fdst) pn = Inr (r, pn', []) \<and> buf_ok pn' \<and> found E fdst r"
proof -
  obtain r pn' new where s: "searchdir E fdst ''/dev'' pn [] = Inr (r, pn', new)" "buf_ok pn'"
    "case r of None \<Rightarrow> (\<forall>nm \<in> set (entries E ''/dev''). \<not> hit E fdst (child ''/dev'' nm)) \<and> new = filter (subdir E) (map (child ''/dev'') (entries E ''/dev''))
     | Some q \<Rightarrow> \<exists>nm \<in> set (entries E ''/dev''). q = child ''/dev'' nm \<and> hit E fdst q"
    using searchdir_of [OF assms(1) searched.dev assms(2), of fdst "[]"] by auto
  show ?thesis
  proof (cases r)
    case (Some q)
    then show ?thesis using s assms(3) searched.dev by (auto simp: ttyname_def found_def)
  next
    case None
    have "sweep E fdst 0 [''/dev'']" using searched.dev by (simp add: sweep_def)
    from sweep_step [OF this assms(1)] have "sweep E fdst (Suc 0) (''/dev'' # new)" using s(3) None by simp
    from dirs_loop_finds [OF assms(1) this s(2), of n] show ?thesis using assms(3,4) s(1) None by (auto simp: ttyname_def)
  qed
qed

text \<open>A terminal in a directory below.\<close>

definition ex_fs :: fsys where
  "ex_fs = \<lparr>fs_stat = [''/dev/.'' \<mapsto> \<lparr>s_ino = 1, s_dev = 0, s_isdir = True, s_ischr = False\<rparr>, ''/dev/null'' \<mapsto> \<lparr>s_ino = 5, s_dev = 0, s_isdir = False, s_ischr = True\<rparr>,
       ''/dev/pts'' \<mapsto> \<lparr>s_ino = 1, s_dev = 7, s_isdir = True, s_ischr = False\<rparr>, ''/dev/pts/3'' \<mapsto> \<lparr>s_ino = 6, s_dev = 7, s_isdir = False, s_ischr = True\<rparr>],
     fs_dir = [''/dev'' \<mapsto> [''.'', ''null'', ''pts''], ''/dev/pts'' \<mapsto> [''3'']]\<rparr>"

definition ex_tty :: finfo where "ex_tty = \<lparr>s_ino = 6, s_dev = 7, s_isdir = False, s_ischr = True\<rparr>"

lemma ex_searched: "d \<in> searched ex_fs \<Longrightarrow> d = ''/dev'' \<or> d = ''/dev/pts''"
  by (induction rule: searched.induct) (auto simp: entries_def ex_fs_def subdir_def child_def dot_dir_def split: if_splits)

theorem ttyname_finds_witness:
  "\<exists>r pn'. ttyname 2 ex_fs True (Some ex_tty) (replicate 257 NUL) = Inr (r, pn', []) \<and> found ex_fs ex_tty r"
proof -
  have s: "searched ex_fs \<subseteq> {''/dev'', ''/dev/pts''}" using ex_searched by blast
  have "fs_ok ex_fs" unfolding fs_ok_def
  proof
    fix d assume "d \<in> searched ex_fs"
    then have "d = ''/dev'' \<or> d = ''/dev/pts''" by (rule ex_searched)
    then show "distinct (entries ex_fs d) \<and> (\<forall>nm \<in> set (entries ex_fs d). is_cstr nm \<and> CHR ''/'' \<notin> set nm \<and> length (child d nm) + 2 \<le> POSIX_PATH_MAX)"
      by (auto simp: entries_def ex_fs_def child_def POSIX_PATH_MAX_def)
  qed
  moreover have "buf_ok (replicate 257 NUL)" "s_ischr ex_tty" by (simp_all add: buf_ok_def POSIX_PATH_MAX_def ex_tty_def)
  moreover have "card (searched ex_fs) \<le> 2" using card_mono [OF _ s] by simp
  ultimately show ?thesis using ttyname_finds by blast
qed

text \<open>Without that bound on the paths: a directory whose path fills the buffer is kept, and the slash behind it does not fit any more.\<close>

lemma searchdir_overruns:
  assumes "length dirname = POSIX_PATH_MAX" "is_cstr dirname" "length pn = POSIX_PATH_MAX + 1" "fs_dir E dirname \<noteq> None"
  shows "searchdir E fdst dirname pn dirs = Inl (Undefined ''pathname'')"
proof -
  have "put_bytes 0 (dirname @ [NUL]) pn = Inr (dirname @ [NUL])" using assms(1,3) by (simp add: put_bytes_def)
  moreover have "cstr (dirname @ [NUL]) = dirname" using assms(2) by simp
  ultimately show ?thesis using assms(1,4) by (auto simp: searchdir_def put_bytes_def)
qed

end
