(* ===== verification/Thread_Control.thy ===== *)
theory Thread_Control
  imports Prelude "HOL-Library.Multiset"
begin

text \<open>
  Functions for programs with threads: \<^verbatim>\<open>getenv\<close> in three versions (\<^verbatim>\<open>threadctl/getenv1.c\<close>, \<^verbatim>\<open>getenv2.c\<close>, \<^verbatim>\<open>getenv3.c\<close>), calling a function at a later
  time (\<^verbatim>\<open>threadctl/timeout.c\<close>, \<^verbatim>\<open>threads/maketimeout.c\<close>), and a queue with a condition variable (\<^verbatim>\<open>threads/condvar.c\<close>).
\<close>

section \<open>Three versions of getenv\<close>

definition MAXSTRINGSZ :: nat where "MAXSTRINGSZ = 4096"

text \<open>The loop over the environment: the value in the first entry that has the name in front of an equals sign.\<close>

fun env_find :: "string \<Rightarrow> string list \<Rightarrow> string option" where
  "env_find name [] = None"
| "env_find name (e # es) =
     (let len = length name
      in if take len e = name \<and> len < length e \<and> e ! len = CHR ''='' then Some (drop (len + 1) e) else env_find name es)"

text \<open>\<^verbatim>\<open>strncpy\<close> of at most one byte less than the buffer has.\<close>

definition copy_value :: "string \<Rightarrow> string \<Rightarrow> string" where
  "copy_value v buf = take (MAXSTRINGSZ - 1) (v @ replicate (MAXSTRINGSZ - 1) NUL) @ drop (MAXSTRINGSZ - 1) buf"

text \<open>One buffer for all callers; the result says whether a pointer to it was returned.\<close>

definition getenv1 :: "string list \<Rightarrow> string \<Rightarrow> string \<Rightarrow> bool \<times> string" where
  "getenv1 environ name envbuf =
     (case env_find name environ of None \<Rightarrow> (False, envbuf) | Some v \<Rightarrow> (True, copy_value v envbuf))"

text \<open>The caller's buffer.\<close>

definition ENOSPC :: errno where "ENOSPC = EOTHER 28"

definition getenv_r :: "string list \<Rightarrow> string \<Rightarrow> string \<Rightarrow> nat \<Rightarrow> (errno \<times> string) res" where
  "getenv_r environ name buf buflen =
     (case env_find name environ of
        None \<Rightarrow> Inr (ENOENT, buf)
      | Some v \<Rightarrow>
          if buflen \<le> length v then Inr (ENOSPC, buf)
          else if length buf < length v + 1 then Inl (Undefined ''buf'')
          else Inr (ENONE, v @ NUL # drop (length v + 1) buf))"

text \<open>A buffer for each thread, made at its first call; \<open>mem\<close> is what \<^verbatim>\<open>malloc\<close> gives: nothing, or bytes that hold anything.\<close>

definition getenv3 :: "string option \<Rightarrow> string list \<Rightarrow> nat \<Rightarrow> string \<Rightarrow> (nat \<Rightarrow> string option) \<Rightarrow> bool \<times> (nat \<Rightarrow> string option)" where
  "getenv3 mem environ t name bufs =
     (case (case bufs t of None \<Rightarrow> mem | b \<Rightarrow> b) of
        None \<Rightarrow> (False, bufs)
      | Some envbuf \<Rightarrow>
          (case env_find name environ of
             None \<Rightarrow> (False, bufs(t \<mapsto> envbuf))
           | Some v \<Rightarrow> (True, bufs(t \<mapsto> copy_value v envbuf))))"

text \<open>
  What threads that call at any time rely on: a value found is what the caller then reads, and it stays there until the next call of the same thread
  that finds a value. \<open>fits\<close> says which values there is room for.
\<close>

locale thread_env =
  fixes environ :: "string list" and fits :: "string \<Rightarrow> bool" and call :: "nat \<Rightarrow> string \<Rightarrow> 's \<Rightarrow> 's" and val :: "nat \<Rightarrow> 's \<Rightarrow> string option" and ok :: "'s \<Rightarrow> bool"
  assumes own: "ok s \<Longrightarrow> env_find name environ = Some v \<Longrightarrow> fits v \<Longrightarrow> val t (call t name s) = Some v"
    and others: "ok s \<Longrightarrow> t \<noteq> u \<Longrightarrow> val t (call u name s) = val t s"
    and keeps: "ok s \<Longrightarrow> ok (call u name s)"
begin

definition calls :: "(nat \<times> string) list \<Rightarrow> 's \<Rightarrow> 's" where
  "calls cs s = fold (\<lambda>(t, name). call t name) cs s"

lemma calls_ok: "ok s \<Longrightarrow> ok (calls cs s)"
  by (induction cs arbitrary: s) (auto simp: calls_def keeps split: prod.splits)

lemma calls_others: "ok s \<Longrightarrow> t \<notin> fst ` set cs \<Longrightarrow> val t (calls cs s) = val t s"
proof (induction cs arbitrary: s)
  case (Cons c cs)
  obtain u name where c: "c = (u, name)" by fastforce
  then have "val t (calls cs (call u name s)) = val t (call u name s)" using Cons keeps by (auto simp: image_iff)
  then show ?case using Cons.prems others c by (auto simp: calls_def image_iff)
qed (simp add: calls_def)

lemma calls_answer:
  assumes "ok s" "env_find name environ = Some v" "fits v" "t \<notin> fst ` set later"
  shows "val t (calls (earlier @ (t, name) # later) s) = Some v"
proof -
  have "calls (earlier @ (t, name) # later) s = calls later (call t name (calls earlier s))" by (simp add: calls_def)
  then show ?thesis using calls_others [OF _ assms(4)] own [OF _ assms(2,3)] calls_ok [OF assms(1)] keeps by simp
qed

end

lemma env_find_cstr: "\<forall>e \<in> set environ. is_cstr e \<Longrightarrow> env_find name environ = Some v \<Longrightarrow> is_cstr v"
  by (induction environ) (auto simp: Let_def is_cstr_def dest: in_set_dropD split: if_splits)

lemma cstr_copy: "is_cstr v \<Longrightarrow> length v < MAXSTRINGSZ - 1 \<Longrightarrow> cstr (copy_value v buf) = v"
proof -
  assume v: "is_cstr v" "length v < MAXSTRINGSZ - 1"
  obtain j where j: "MAXSTRINGSZ - 1 - length v = Suc j" using v(2) by (cases "MAXSTRINGSZ - 1 - length v") auto
  have "take (MAXSTRINGSZ - 1) (v @ replicate (MAXSTRINGSZ - 1) NUL) = v @ NUL # replicate j NUL" using v(2) j by (simp add: min_def)
  then show ?thesis using v(1) by (simp add: copy_value_def)
qed

text \<open>What a thread reads behind the pointer it got.\<close>

definition buf_val :: "nat \<Rightarrow> (nat \<Rightarrow> string option) \<Rightarrow> string option" where
  "buf_val t bufs = map_option cstr (bufs t)"

interpretation g3: thread_env environ "\<lambda>v. is_cstr v \<and> length v < MAXSTRINGSZ - 1" "\<lambda>t name bufs. snd (getenv3 (Some junk) environ t name bufs)" buf_val "\<lambda>_. True"
  for environ junk
  by unfold_locales (auto simp: getenv3_def buf_val_def cstr_copy split: option.splits)

text \<open>Threads that call \<^verbatim>\<open>getenv_r\<close>, each with a buffer of its own of \<open>n\<close> bytes.\<close>

definition call_r :: "nat \<Rightarrow> string list \<Rightarrow> nat \<Rightarrow> string \<Rightarrow> (nat \<Rightarrow> string) \<Rightarrow> nat \<Rightarrow> string" where
  "call_r n environ t name bufs = (case getenv_r environ name (bufs t) n of Inl e \<Rightarrow> bufs | Inr (e, b) \<Rightarrow> bufs(t := b))"

interpretation gr: thread_env environ "\<lambda>v. is_cstr v \<and> length v < n" "call_r n environ" "\<lambda>t bufs. Some (cstr (bufs t))" "\<lambda>bufs. \<forall>t. length (bufs t) = n"
  for environ n
  by unfold_locales (auto simp: call_r_def getenv_r_def split: option.splits if_splits)

text \<open>
  With the two reentrant versions, whatever other threads call before and after, a thread that has found a value reads that value until it calls again;
  \<^verbatim>\<open>getenv_r\<close> never writes outside of the buffer it is given.
\<close>

theorem getenv_reentrant:
  assumes "env_find name environ = Some v" "is_cstr v" "length v < MAXSTRINGSZ - 1" "length v < n" "t \<notin> fst ` set later" "\<forall>t. length (bufs t) = n"
  shows "buf_val t (fold (\<lambda>(t, name) b. snd (getenv3 (Some junk) environ t name b)) (earlier @ (t, name) # later) b3) = Some v \<and>
    cstr (fold (\<lambda>(t, name). call_r n environ t name) (earlier @ (t, name) # later) bufs t) = v \<and>
    (\<forall>buf. length buf = n \<longrightarrow> (\<exists>e b. getenv_r environ name' buf n = Inr (e, b) \<and> length b = n))"
proof -
  let ?cs = "earlier @ (t, name) # later"
  have "buf_val t (g3.calls junk environ ?cs b3) = Some v" by (rule g3.calls_answer) (use assms in auto)
  moreover have "Some (cstr (gr.calls n environ ?cs bufs t)) = Some v" by (rule gr.calls_answer) (use assms in auto)
  ultimately show ?thesis by (auto simp: g3.calls_def gr.calls_def getenv_r_def split: option.split)
qed

text \<open>The first version has one buffer: the answer of one caller is overwritten by the next.\<close>

definition ex_environ :: "string list" where "ex_environ = [''HOME=/root'', ''TERM=vt100'']"

lemma getenv1_shared:
  "\<exists>b1 b2. getenv1 ex_environ ''HOME'' (replicate MAXSTRINGSZ NUL) = (True, b1) \<and> cstr b1 = ''/root'' \<and> getenv1 ex_environ ''TERM'' b1 = (True, b2) \<and> cstr b2 = ''vt100''"
  using cstr_copy [of "''/root''"] cstr_copy [of "''vt100''"] by (simp add: getenv1_def ex_environ_def Let_def MAXSTRINGSZ_def)

text \<open>A long value fills the buffer of the third version up to its last byte, which \<^verbatim>\<open>malloc\<close> left as it was: what the caller gets need not be terminated.\<close>

lemma getenv3_unterminated:
  assumes "is_cstr v" "MAXSTRINGSZ - 1 \<le> length v" "length junk = MAXSTRINGSZ" "last junk \<noteq> NUL"
  shows "NUL \<notin> set (copy_value v junk)"
proof -
  have "drop (MAXSTRINGSZ - 1) junk = [last junk]"
    using assms(3) by (cases junk rule: rev_cases) (auto simp: MAXSTRINGSZ_def)
  then show ?thesis using assms(1,2,4) by (auto simp: copy_value_def is_cstr_def dest: in_set_takeD)
qed

section \<open>Calling a function later\<close>

record timespec =
  tv_sec :: int
  tv_nsec :: int

definition SECTONSEC :: int where "SECTONSEC = 1000000000"

definition nanos :: "timespec \<Rightarrow> int" where "nanos t = tv_sec t * SECTONSEC + tv_nsec t"

definition valid_time :: "timespec \<Rightarrow> bool" where "valid_time t \<longleftrightarrow> 0 \<le> tv_nsec t \<and> tv_nsec t < SECTONSEC"

text \<open>The time a new thread waits before it calls the function, or nothing: the function is called at once. \<open>mem\<close>, \<open>thread\<close>: memory, and a thread, can be had.\<close>

definition timeout :: "bool \<Rightarrow> bool \<Rightarrow> timespec \<Rightarrow> timespec \<Rightarrow> timespec option" where
  "timeout mem thread now w =
     (if tv_sec w > tv_sec now \<or> tv_sec w = tv_sec now \<and> tv_nsec w > tv_nsec now
      then if mem
           then let s = tv_sec w - tv_sec now;
                    to_wait = (if tv_nsec w \<ge> tv_nsec now then \<lparr>tv_sec = s, tv_nsec = tv_nsec w - tv_nsec now\<rparr>
                               else \<lparr>tv_sec = s - 1, tv_nsec = SECTONSEC - tv_nsec now + tv_nsec w\<rparr>)
                in if thread then Some to_wait else None
           else None
      else None)"

text \<open>\<^verbatim>\<open>maketimeout\<close>, from the time in seconds and microseconds.\<close>

definition maketimeout :: "int \<Rightarrow> int \<Rightarrow> int \<Rightarrow> timespec" where
  "maketimeout now_sec now_usec minutes = \<lparr>tv_sec = now_sec + minutes * 60, tv_nsec = now_usec * 1000\<rparr>"

text \<open>The wait is a valid time and ends exactly at the time asked for; the function is called at once if that has come, or if there is no memory or no thread.\<close>

lemma timeout_exact:
  assumes "valid_time now" "valid_time w"
  shows "timeout mem thread now w = None \<longleftrightarrow> nanos w \<le> nanos now \<or> \<not> mem \<or> \<not> thread"
    and "timeout mem thread now w = Some d \<Longrightarrow> valid_time d \<and> 0 \<le> tv_sec d \<and> nanos now + nanos d = nanos w"
  using assms by (auto simp: timeout_def nanos_def valid_time_def SECTONSEC_def Let_def split: if_splits)

lemma maketimeout_valid: "0 \<le> u \<Longrightarrow> u < 1000000 \<Longrightarrow> valid_time (maketimeout s u k) \<and> nanos (maketimeout s u k) = (s + 60 * k) * SECTONSEC + u * 1000"
  by (auto simp: maketimeout_def valid_time_def nanos_def SECTONSEC_def)

section \<open>A queue with a condition variable\<close>

text \<open>
  The messages in the queue and those sent and processed so far, the threads that wait for the condition, those that do not, and how many threads have put a message on the queue and
  are about to signal.
\<close>

record 'm mqueue =
  workq :: "'m list"
  sent :: "'m list"
  processed :: "'m list"
  waiting :: "nat set"
  running :: "nat set"
  to_signal :: nat

definition enqueue_msg :: "'m \<Rightarrow> 'm mqueue \<Rightarrow> 'm mqueue" where
  "enqueue_msg mp s = s\<lparr>workq := mp # workq s, sent := sent s @ [mp], to_signal := to_signal s + 1\<rparr>"

text \<open>What thread \<open>w\<close> does while it has the lock: it takes a message, or goes to wait.\<close>

definition process_msg :: "nat \<Rightarrow> 'm mqueue \<Rightarrow> 'm mqueue" where
  "process_msg w s =
     (case workq s of
        [] \<Rightarrow> s\<lparr>waiting := insert w (waiting s), running := running s - {w}\<rparr>
      | mp # q \<Rightarrow> s\<lparr>workq := q, processed := processed s @ [mp]\<rparr>)"

definition wake :: "nat \<Rightarrow> 'm mqueue \<Rightarrow> 'm mqueue" where
  "wake w s = s\<lparr>waiting := waiting s - {w}, running := insert w (running s)\<rparr>"

text \<open>A signal wakes one of the threads that wait, or is lost when none does; threads may also wake for no reason.\<close>

inductive mq_step :: "'m mqueue \<Rightarrow> 'm mqueue \<Rightarrow> bool" where
  enqueue: "mq_step s (enqueue_msg mp s)"
| work: "w \<in> running s \<Longrightarrow> mq_step s (process_msg w s)"
| signal: "0 < to_signal s \<Longrightarrow> w \<in> waiting s \<Longrightarrow> mq_step s (wake w (s\<lparr>to_signal := to_signal s - 1\<rparr>))"
| lost: "0 < to_signal s \<Longrightarrow> waiting s = {} \<Longrightarrow> mq_step s (s\<lparr>to_signal := to_signal s - 1\<rparr>)"
| spurious: "w \<in> waiting s \<Longrightarrow> mq_step s (wake w s)"

definition mq_start :: "nat set \<Rightarrow> 'm mqueue" where
  "mq_start ws = \<lparr>workq = [], sent = [], processed = [], waiting = {}, running = ws, to_signal = 0\<rparr>"

definition mq_inv :: "nat set \<Rightarrow> 'm mqueue \<Rightarrow> bool" where
  "mq_inv ws s \<longleftrightarrow> waiting s \<union> running s = ws \<and> mset (sent s) = mset (workq s) + mset (processed s) \<and>
     (workq s \<noteq> [] \<longrightarrow> running s \<noteq> {} \<or> 0 < to_signal s)"

lemma mq_step_inv: "mq_step s t \<Longrightarrow> ws \<noteq> {} \<Longrightarrow> mq_inv ws s \<Longrightarrow> mq_inv ws t"
  by (induction rule: mq_step.induct) (auto simp: mq_inv_def enqueue_msg_def process_msg_def wake_def split: list.splits)

lemma mq_reach_inv: "mq_step\<^sup>*\<^sup>* (mq_start ws) s \<Longrightarrow> ws \<noteq> {} \<Longrightarrow> mq_inv ws s"
proof (induction rule: rtranclp_induct)
  case base
  then show ?case by (simp add: mq_inv_def mq_start_def)
next
  case (step s t)
  then show ?case using mq_step_inv by blast
qed

lemma mq_drain: "w \<in> running s \<Longrightarrow> \<exists>t. mq_step\<^sup>*\<^sup>* s t \<and> workq t = [] \<and> processed t = processed s @ workq s \<and> sent t = sent s"
proof (induction "workq s" arbitrary: s)
  case Nil
  then show ?case by (intro exI [of _ s]) simp
next
  case (Cons mp q)
  let ?s = "process_msg w s"
  have s: "workq ?s = q" "w \<in> running ?s" "processed ?s = processed s @ [mp]" "sent ?s = sent s" using Cons by (simp_all add: process_msg_def flip: Cons.hyps(2))
  have "mq_step s ?s" using Cons.prems by (rule mq_step.work)
  moreover obtain t where "mq_step\<^sup>*\<^sup>* ?s t" "workq t = []" "processed t = processed ?s @ workq ?s" "sent t = sent ?s" using Cons.hyps(1) [of ?s] s by auto
  ultimately show ?case using s Cons.hyps(2) by (intro exI [of _ t]) (auto intro: converse_rtranclp_into_rtranclp)
qed

text \<open>
  No message is lost, processed twice or made up, and no wake-up is lost: with at least one thread, from any state that can be reached the messages in the queue can
  always be processed by steps of the threads and the signals on their way, without another message.
\<close>

theorem condvar_no_message_stuck:
  assumes "mq_step\<^sup>*\<^sup>* (mq_start ws) s" "ws \<noteq> {}"
  shows "mset (sent s) = mset (workq s) + mset (processed s) \<and> (\<exists>t. mq_step\<^sup>*\<^sup>* s t \<and> sent t = sent s \<and> workq t = [] \<and> mset (processed t) = mset (sent s))"
proof -
  have inv: "mq_inv ws s" using mq_reach_inv assms .
  have fin: "\<exists>t. mq_step\<^sup>*\<^sup>* s t \<and> sent t = sent s \<and> workq t = [] \<and> mset (processed t) = mset (sent s)"
    if u: "mq_step\<^sup>*\<^sup>* s u" "w \<in> running u" "sent u = sent s" "workq u = workq s" "processed u = processed s" for u w
  proof -
    obtain t where t: "mq_step\<^sup>*\<^sup>* u t" "workq t = []" "processed t = processed u @ workq u" "sent t = sent u" using mq_drain [OF u(2)] by blast
    have "mset (processed t) = mset (sent s)" using t(3) u(4,5) inv by (simp add: mq_inv_def)
    then show ?thesis using rtranclp_trans [OF u(1) t(1)] t(2,4) u(3) by auto
  qed
  show ?thesis
  proof (cases "workq s = []")
    case True
    then show ?thesis using inv by (auto simp: mq_inv_def)
  next
    case False
    show ?thesis
    proof (cases "running s = {}")
      case False
      then show ?thesis using fin [OF rtranclp.rtrancl_refl] inv by (auto simp: mq_inv_def)
    next
      case True
      then obtain w where w: "w \<in> waiting s" "0 < to_signal s" using inv assms(2) False by (auto simp: mq_inv_def)
      let ?u = "wake w (s\<lparr>to_signal := to_signal s - 1\<rparr>)"
      have "mq_step\<^sup>*\<^sup>* s ?u" using mq_step.signal [OF w(2,1)] by blast
      from fin [OF this, of w] show ?thesis using inv by (simp add: wake_def mq_inv_def)
    qed
  qed
qed

end
