(* ===== verification/Poll_Messages.thy ===== *)
theory Poll_Messages
  imports Prelude
begin

text \<open>
  Programs that wait with \<^verbatim>\<open>poll\<close> for messages of several XSI message queues: \<^verbatim>\<open>ipc2/pollmsg.c\<close>, where a thread for every queue copies the messages into a
  socket, and \<^verbatim>\<open>exercises/pollmsg2.c\<close>, where the thread leaves the message in memory, writes one byte into the socket and waits until the
  message has been printed. \<open>relay\<close> is the contract of such a program. Threads interleave after every access to shared state. A call that fails ends the program (\<^verbatim>\<open>err_sys\<close>),
  so a run that is cut anywhere covers it.
\<close>

section \<open>Programs that print the messages of queues\<close>

text \<open>
  What a program has printed and still has to print of queue \<open>i\<close>: a step keeps both together, work remains while there is something to print, and a number
  decreases.
\<close>

locale relay =
  fixes pstep :: "'s \<Rightarrow> 's \<Rightarrow> bool"
    and pr :: "nat \<Rightarrow> 's \<Rightarrow> string list"
    and todo :: "nat \<Rightarrow> 's \<Rightarrow> string list"
    and ok :: "'s \<Rightarrow> bool"
    and mu :: "'s \<Rightarrow> nat"
  assumes step_ok: "ok s \<Longrightarrow> pstep s s' \<Longrightarrow> ok s'"
    and step_keeps: "ok s \<Longrightarrow> pstep s s' \<Longrightarrow> pr i s' @ todo i s' = pr i s @ todo i s"
    and step_less: "ok s \<Longrightarrow> pstep s s' \<Longrightarrow> mu s' < mu s"
    and stuck_done: "ok s \<Longrightarrow> \<forall>s'. \<not> pstep s s' \<Longrightarrow> todo i s = []"
begin

lemma reach: "pstep\<^sup>*\<^sup>* s t \<Longrightarrow> ok s \<Longrightarrow> ok t \<and> pr i t @ todo i t = pr i s @ todo i s"
  by (induction rule: rtranclp_induct) (auto simp: step_ok step_keeps)

lemma run_length: "(pstep ^^ k) s t \<Longrightarrow> ok s \<Longrightarrow> k + mu t \<le> mu s"
proof (induction k arbitrary: t)
  case 0
  then show ?case by simp
next
  case (Suc k)
  then obtain u where u: "(pstep ^^ k) s u" "pstep u t" by auto
  then have "pstep\<^sup>*\<^sup>* s u" using relpowp_imp_rtranclp by fast
  then have "mu t < mu u" using reach step_less u(2) Suc.prems(2) by blast
  then show ?case using Suc.IH [OF u(1) Suc.prems(2)] by simp
qed

lemma complete: "pstep\<^sup>*\<^sup>* s t \<Longrightarrow> ok s \<Longrightarrow> \<forall>t'. \<not> pstep t t' \<Longrightarrow> pr i t = pr i s @ todo i s"
  using reach [of s t i] stuck_done [of t i] by simp

end

text \<open>What was printed for queue \<open>i\<close>, and what has to be printed for a message: it is cut by \<^verbatim>\<open>MSG_NOERROR\<close>, and \<^verbatim>\<open>%s\<close> prints it up to its first null byte.\<close>

definition MAXMSZ :: nat where "MAXMSZ = 512"

definition printed :: "nat \<Rightarrow> (nat \<times> string) list \<Rightarrow> string list" where
  "printed i out = map snd (filter (\<lambda>p. fst p = i) out)"

definition shown :: "string \<Rightarrow> string" where
  "shown m = cstr (take MAXMSZ m)"

lemma printed_snoc [simp]: "printed i (out @ [(j, x)]) = printed i out @ (if j = i then [x] else [])"
  by (simp add: printed_def)

lemma printed_Nil [simp]: "printed i [] = []"
  by (simp add: printed_def)

lemma cstr_zeros: "cstr (x @ replicate k NUL) = cstr x"
  unfolding cstr_def by (induction x) (cases k, simp_all)

lemma cstr_snoc_zero: "cstr (x @ [NUL]) = cstr x"
  using cstr_zeros [of x 1] by simp

lemma sum_map_update: "i < length xs \<Longrightarrow> sum_list (map w (xs[i := x])) + w (xs ! i) = sum_list (map w xs) + (w x :: nat)"
  by (induction xs arbitrary: i) (auto split: nat.splits)

text \<open>
  The loop of the main thread: it polls, or is at entry \<open>i\<close> of the array with the results \<open>rv\<close> of the poll. \<open>left n i rv\<close>: an entry from \<open>i\<close> on is still to be served.
  \<open>loop_mu\<close> bounds the steps until the next poll or read, when each entry takes at most \<open>c\<close> steps.
\<close>

datatype loop_pc = L_poll | L_scan nat "bool list"

definition left :: "nat \<Rightarrow> nat \<Rightarrow> bool list \<Rightarrow> bool" where
  "left n i rv \<longleftrightarrow> True \<in> set (drop i (take n rv))"

definition scan_mu :: "nat \<Rightarrow> nat \<Rightarrow> nat \<Rightarrow> bool list \<Rightarrow> nat" where
  "scan_mu c n i rv = (if left n i rv then 0 else c * n + 2) + c * (n - i)"

lemma left_step: "i < n \<Longrightarrow> length rv = n \<Longrightarrow> left n i rv \<longleftrightarrow> rv ! i \<or> left n (Suc i) rv"
  by (simp add: left_def flip: Cons_nth_drop_Suc)

lemma left_end: "n \<le> i \<Longrightarrow> \<not> left n i rv"
  by (simp add: left_def)

lemma scan_mu_skip: "i < n \<Longrightarrow> length rv = n \<Longrightarrow> \<not> rv ! i \<Longrightarrow> scan_mu c n (Suc i) rv + c = scan_mu c n i rv"
  by (simp add: scan_mu_def left_step flip: Suc_diff_Suc)

lemma scan_mu_read: "i < n \<Longrightarrow> length rv = n \<Longrightarrow> rv ! i \<Longrightarrow> scan_mu c n (Suc i) rv + c \<le> scan_mu c n i rv + (c * n + 2)"
  by (simp add: scan_mu_def left_step flip: Suc_diff_Suc)

lemma scan_mu_start: "True \<in> set rv \<Longrightarrow> length rv = n \<Longrightarrow> scan_mu c n 0 rv = c * n"
  by (simp add: scan_mu_def left_def)

lemma scan_mu_end: "n \<le> i \<Longrightarrow> scan_mu c n i rv = c * n + 2"
  by (simp add: scan_mu_def left_end)

section \<open>ipc2/pollmsg.c\<close>

text \<open>A queue, the socket with its datagrams, and the message that the thread has in its hands.\<close>

record pipe1 =
  q1_msgs :: "string list"
  q1_dgrams :: "string list"
  q1_held :: "string option"

definition helper1 :: "pipe1 \<Rightarrow> pipe1 option" where
  "helper1 t =
     (case q1_held t of
        Some x \<Rightarrow> Some (t\<lparr>q1_dgrams := q1_dgrams t @ [x], q1_held := None\<rparr>)
      | None \<Rightarrow> (case q1_msgs t of [] \<Rightarrow> None | m # q \<Rightarrow> Some (t\<lparr>q1_msgs := q, q1_held := Some (take MAXMSZ m)\<rparr>)))"

text \<open>\<open>over1\<close>: the null byte has been written behind the end of \<^verbatim>\<open>buf\<close>.\<close>

record pollmsg1 =
  pipes1 :: "pipe1 list"
  pc1 :: loop_pc
  out1 :: "(nat \<times> string) list"
  over1 :: bool

definition main1 :: "pollmsg1 \<Rightarrow> pollmsg1 option" where
  "main1 s =
     (case pc1 s of
        L_poll \<Rightarrow>
          (let rv = map (\<lambda>t. q1_dgrams t \<noteq> []) (pipes1 s) in if True \<in> set rv then Some (s\<lparr>pc1 := L_scan 0 rv\<rparr>) else None)
      | L_scan i rv \<Rightarrow>
          if length (pipes1 s) \<le> i then Some (s\<lparr>pc1 := L_poll\<rparr>)
          else if \<not> rv ! i then Some (s\<lparr>pc1 := L_scan (Suc i) rv\<rparr>)
          else (let t = pipes1 s ! i
                in case q1_dgrams t of
                     [] \<Rightarrow> None
                   | d # ds \<Rightarrow>
                       (let s' = s\<lparr>pipes1 := (pipes1 s)[i := t\<lparr>q1_dgrams := ds\<rparr>]\<rparr>
                        in if MAXMSZ \<le> length d then Some (s'\<lparr>over1 := True\<rparr>)
                           else Some (s'\<lparr>pc1 := L_scan (Suc i) rv, out1 := out1 s @ [(i, cstr (d @ [NUL]))]\<rparr>))))"

inductive step1 :: "pollmsg1 \<Rightarrow> pollmsg1 \<Rightarrow> bool" where
  helper: "\<not> over1 s \<Longrightarrow> i < length (pipes1 s) \<Longrightarrow> helper1 (pipes1 s ! i) = Some t \<Longrightarrow> step1 s (s\<lparr>pipes1 := (pipes1 s)[i := t]\<rparr>)"
| main: "\<not> over1 s \<Longrightarrow> main1 s = Some s' \<Longrightarrow> step1 s s'"

definition start1 :: "string list list \<Rightarrow> pollmsg1" where
  "start1 qs = \<lparr>pipes1 = map (\<lambda>q. \<lparr>q1_msgs = q, q1_dgrams = [], q1_held = None\<rparr>) qs, pc1 = L_poll, out1 = [], over1 = False\<rparr>"

definition todo_pipe1 :: "pipe1 \<Rightarrow> string list" where
  "todo_pipe1 t = map cstr (q1_dgrams t) @ map cstr (case q1_held t of None \<Rightarrow> [] | Some x \<Rightarrow> [x]) @ map shown (q1_msgs t)"

definition todo1 :: "nat \<Rightarrow> pollmsg1 \<Rightarrow> string list" where
  "todo1 i s = (if i < length (pipes1 s) then todo_pipe1 (pipes1 s ! i) else [])"

definition pr1 :: "nat \<Rightarrow> pollmsg1 \<Rightarrow> string list" where
  "pr1 i s = printed i (out1 s)"

definition short1 :: "pipe1 \<Rightarrow> bool" where
  "short1 t \<longleftrightarrow> (\<forall>m\<in>set (q1_msgs t) \<union> set (q1_dgrams t) \<union> set_option (q1_held t). length m < MAXMSZ)"

definition ok1 :: "pollmsg1 \<Rightarrow> bool" where
  "ok1 s \<longleftrightarrow> \<not> over1 s \<and> (\<forall>t\<in>set (pipes1 s). short1 t) \<and>
     (case pc1 s of
        L_poll \<Rightarrow> True
      | L_scan i rv \<Rightarrow> length rv = length (pipes1 s) \<and> (\<forall>j<length (pipes1 s). i \<le> j \<longrightarrow> rv ! j \<longrightarrow> q1_dgrams (pipes1 s ! j) \<noteq> []))"

definition weight1 :: "nat \<Rightarrow> pipe1 \<Rightarrow> nat" where
  "weight1 n t = (n + 5) * length (q1_msgs t) + (n + 4) * (if q1_held t = None then 0 else 1) + (n + 3) * length (q1_dgrams t)"

definition mu1 :: "pollmsg1 \<Rightarrow> nat" where
  "mu1 s =
     (let n = length (pipes1 s)
      in sum_list (map (weight1 n) (pipes1 s)) + (case pc1 s of L_poll \<Rightarrow> n + 1 | L_scan i rv \<Rightarrow> scan_mu 1 n i rv))"

lemma helper1_cases:
  assumes "helper1 t = Some t'"
  obtains (put) x where "q1_held t = Some x" "t' = t\<lparr>q1_dgrams := q1_dgrams t @ [x], q1_held := None\<rparr>"
    | (get) m q where "q1_held t = None" "q1_msgs t = m # q" "t' = t\<lparr>q1_msgs := q, q1_held := Some (take MAXMSZ m)\<rparr>"
  using assms by (auto simp: helper1_def split: option.splits list.splits)

lemma helper1_props:
  assumes "helper1 t = Some t'" "short1 t"
  shows "short1 t'" "todo_pipe1 t' = todo_pipe1 t" "weight1 n t' < weight1 n t" "q1_dgrams t \<noteq> [] \<longrightarrow> q1_dgrams t' \<noteq> []"
  using assms by (auto elim!: helper1_cases simp: short1_def todo_pipe1_def weight1_def shown_def)

lemma main1_cases:
  assumes "main1 s = Some s'" "ok1 s"
  obtains (poll) rv where "pc1 s = L_poll" "rv = map (\<lambda>t. q1_dgrams t \<noteq> []) (pipes1 s)" "True \<in> set rv" "s' = s\<lparr>pc1 := L_scan 0 rv\<rparr>"
    | (again) i rv where "pc1 s = L_scan i rv" "length (pipes1 s) \<le> i" "s' = s\<lparr>pc1 := L_poll\<rparr>"
    | (skip) i rv where "pc1 s = L_scan i rv" "i < length (pipes1 s)" "\<not> rv ! i" "s' = s\<lparr>pc1 := L_scan (Suc i) rv\<rparr>"
    | (serve) i rv d ds where "pc1 s = L_scan i rv" "i < length (pipes1 s)" "rv ! i" "q1_dgrams (pipes1 s ! i) = d # ds"
        "s' = s\<lparr>pipes1 := (pipes1 s)[i := (pipes1 s ! i)\<lparr>q1_dgrams := ds\<rparr>], pc1 := L_scan (Suc i) rv, out1 := out1 s @ [(i, cstr d)]\<rparr>"
proof (cases "pc1 s")
  case L_poll
  then show thesis using assms(1) poll by (auto simp: main1_def Let_def split: if_splits)
next
  case (L_scan i rv)
  show thesis
  proof (cases "length (pipes1 s) \<le> i \<or> \<not> rv ! i")
    case True
    then show thesis using assms(1) again skip L_scan by (auto simp: main1_def split: if_splits)
  next
    case False
    then obtain d ds where d: "q1_dgrams (pipes1 s ! i) = d # ds" using assms(1) L_scan by (auto simp: main1_def Let_def split: list.splits)
    have "short1 (pipes1 s ! i)" using assms(2) False by (simp add: ok1_def)
    then have "length d < MAXMSZ" using d by (simp add: short1_def)
    then show thesis using assms(1) serve [of i rv d ds] L_scan False d by (simp add: main1_def Let_def cstr_snoc_zero)
  qed
qed

lemma helper_step1:
  assumes "ok1 s" "i < length (pipes1 s)" "helper1 (pipes1 s ! i) = Some t"
  defines "s' \<equiv> s\<lparr>pipes1 := (pipes1 s)[i := t]\<rparr>"
  shows "ok1 s'" "pr1 j s' @ todo1 j s' = pr1 j s @ todo1 j s" "mu1 s' < mu1 s"
proof -
  have "short1 (pipes1 s ! i)" using assms(1,2) by (simp add: ok1_def)
  note h = helper1_props [OF assms(3) this]
  have ne: "q1_dgrams ((pipes1 s)[i := t] ! k) \<noteq> []" if "q1_dgrams (pipes1 s ! k) \<noteq> []" for k
    using that h(4) assms(2) by (cases "k = i") auto
  show "ok1 s'" using assms(1) h(1) ne by (auto simp: ok1_def s'_def dest: set_update_subset_insert [THEN subsetD] split: loop_pc.splits)
  show "pr1 j s' @ todo1 j s' = pr1 j s @ todo1 j s" using h(2) assms(2) by (cases "j = i") (auto simp: pr1_def todo1_def s'_def)
  show "mu1 s' < mu1 s" using sum_map_update [OF assms(2), of "weight1 (length (pipes1 s))" t] h(3) [of "length (pipes1 s)"] by (simp add: mu1_def s'_def Let_def)
qed

lemma main_step1:
  assumes "ok1 s" "main1 s = Some s'"
  shows "ok1 s' \<and> pr1 j s' @ todo1 j s' = pr1 j s @ todo1 j s \<and> mu1 s' < mu1 s"
  using assms(2,1)
proof (cases rule: main1_cases)
  case (poll rv)
  then show ?thesis using assms(1) by (auto simp: ok1_def pr1_def todo1_def mu1_def scan_mu_start Let_def)
next
  case (again i rv)
  then show ?thesis using assms(1) by (auto simp: ok1_def pr1_def todo1_def mu1_def scan_mu_end Let_def)
next
  case (skip i rv)
  then have "scan_mu 1 (length (pipes1 s)) (Suc i) rv + 1 = scan_mu 1 (length (pipes1 s)) i rv" using assms(1) by (intro scan_mu_skip) (auto simp: ok1_def)
  then show ?thesis using assms(1) skip by (auto simp: ok1_def pr1_def todo1_def mu1_def Let_def)
next
  case (serve i rv d ds)
  let ?n = "length (pipes1 s)" and ?t = "(pipes1 s ! i)\<lparr>q1_dgrams := ds\<rparr>"
  have "scan_mu 1 ?n (Suc i) rv + 1 \<le> scan_mu 1 ?n i rv + (1 * ?n + 2)" using assms(1) serve by (intro scan_mu_read) (auto simp: ok1_def)
  moreover have "weight1 ?n ?t + (?n + 3) = weight1 ?n (pipes1 s ! i)" using serve by (simp add: weight1_def)
  moreover note sum_map_update [OF serve(2), of "weight1 ?n" ?t]
  ultimately have mu: "mu1 s' < mu1 s" using serve by (simp add: mu1_def Let_def)
  have "short1 (pipes1 s ! i)" using assms(1) nth_mem [OF serve(2)] by (simp add: ok1_def)
  then have "short1 ?t" using serve(4) by (simp add: short1_def)
  then have "ok1 s'" using assms(1) serve by (auto simp: ok1_def dest: set_update_subset_insert [THEN subsetD])
  moreover have "pr1 j s' @ todo1 j s' = pr1 j s @ todo1 j s" using serve by (cases "j = i") (auto simp: pr1_def todo1_def todo_pipe1_def)
  ultimately show ?thesis using mu by simp
qed

lemma main1_runs: "ok1 s \<Longrightarrow> pc1 s \<noteq> L_poll \<Longrightarrow> main1 s \<noteq> None"
  by (auto simp: ok1_def main1_def Let_def split: loop_pc.splits list.splits)

interpretation pm1: relay step1 pr1 todo1 ok1 mu1
proof
  fix s s' :: pollmsg1 and i
  assume ok: "ok1 s"
  show "ok1 s'" if "step1 s s'" using that ok by cases (use helper_step1(1) main_step1 in blast)+
  show "pr1 i s' @ todo1 i s' = pr1 i s @ todo1 i s" if "step1 s s'" using that ok by cases (use helper_step1(2) main_step1 in blast)+
  show "mu1 s' < mu1 s" if "step1 s s'" using that ok by cases (use helper_step1(3) main_step1 in blast)+
  show "todo1 i s = []" if stuck: "\<forall>s'. \<not> step1 s s'"
  proof (cases "i < length (pipes1 s)")
    case True
    have no: "\<not> over1 s" using ok by (simp add: ok1_def)
    have "helper1 (pipes1 s ! i) = None" using stuck step1.helper [OF no True] by (cases "helper1 (pipes1 s ! i)") auto
    then have t: "q1_msgs (pipes1 s ! i) = []" "q1_held (pipes1 s ! i) = None" by (auto simp: helper1_def split: option.splits list.splits)
    have "main1 s = None" using stuck step1.main [OF no] by (cases "main1 s") auto
    moreover from this have "pc1 s = L_poll" using main1_runs [OF ok] by auto
    ultimately have "q1_dgrams (pipes1 s ! i) = []" using nth_mem [OF True] by (auto simp: main1_def Let_def split: if_splits)
    then show ?thesis using t by (simp add: todo1_def todo_pipe1_def)
  qed (simp add: todo1_def)
qed

section \<open>exercises/pollmsg2.c\<close>

text \<open>
  Where the thread of a queue is: about to clear the message, receive (\<^verbatim>\<open>msgrcv\<close>), set \<^verbatim>\<open>len\<close>, lock, write the byte, wait, waiting, woken up without
  the mutex, about to unlock. The main thread has read a byte of entry \<open>i\<close>: about to end the message, print it, lock, signal, unlock.
\<close>

datatype hpc = H_clear | H_recv | H_len nat | H_lock | H_write | H_wait | H_blocked | H_woken | H_unlock

datatype mstage = S_term | S_print | S_lock | S_signal | S_unlock

datatype main_pc = M_loop loop_pc | M_has nat "bool list" mstage

datatype holder = Helper | Main

text \<open>A \<^verbatim>\<open>struct threadinfo\<close> with its queue and the bytes in its socket; the condition is waited for in \<open>H_blocked\<close>.\<close>

record tinfo =
  t_queue :: "string list"
  t_bytes :: nat
  t_len :: nat
  t_mutex :: "holder option"
  t_text :: string
  t_pc :: hpc

definition helper2 :: "bool \<Rightarrow> tinfo \<Rightarrow> tinfo option" where
  "helper2 spurious t =
     (case t_pc t of
        H_clear \<Rightarrow> Some (t\<lparr>t_text := replicate (MAXMSZ + 1) NUL, t_pc := H_recv\<rparr>)
      | H_recv \<Rightarrow>
          (case t_queue t of
             [] \<Rightarrow> None
           | m # q \<Rightarrow>
               (let x = take MAXMSZ m in Some (t\<lparr>t_queue := q, t_text := x @ drop (length x) (t_text t), t_pc := H_len (length x)\<rparr>)))
      | H_len n \<Rightarrow> Some (t\<lparr>t_len := n, t_pc := H_lock\<rparr>)
      | H_lock \<Rightarrow> if t_mutex t = None then Some (t\<lparr>t_mutex := Some Helper, t_pc := H_write\<rparr>) else None
      | H_write \<Rightarrow> Some (t\<lparr>t_bytes := t_bytes t + 1, t_pc := H_wait\<rparr>)
      | H_wait \<Rightarrow> Some (t\<lparr>t_mutex := None, t_pc := H_blocked\<rparr>)
      | H_blocked \<Rightarrow> if spurious then Some (t\<lparr>t_pc := H_woken\<rparr>) else None
      | H_woken \<Rightarrow> if t_mutex t = None then Some (t\<lparr>t_mutex := Some Helper, t_pc := H_unlock\<rparr>) else None
      | H_unlock \<Rightarrow> Some (t\<lparr>t_mutex := None, t_pc := H_clear\<rparr>))"

record pollmsg2 =
  infos :: "tinfo list"
  pc2 :: main_pc
  out2 :: "(nat \<times> string) list"

text \<open>The steps of the main thread that touch the entry \<open>t\<close> whose byte it has read: the entry afterwards, what it prints, and where it goes on.\<close>

definition serve2 :: "mstage \<Rightarrow> tinfo \<Rightarrow> (tinfo \<times> string option \<times> mstage option) option" where
  "serve2 st t =
     (case st of
        S_term \<Rightarrow> Some (t\<lparr>t_text := (t_text t)[t_len t := NUL]\<rparr>, None, Some S_print)
      | S_print \<Rightarrow> Some (t, Some (cstr (t_text t)), Some S_lock)
      | S_lock \<Rightarrow> if t_mutex t = None then Some (t\<lparr>t_mutex := Some Main\<rparr>, None, Some S_signal) else None
      | S_signal \<Rightarrow> Some (if t_pc t = H_blocked then t\<lparr>t_pc := H_woken\<rparr> else t, None, Some S_unlock)
      | S_unlock \<Rightarrow> Some (t\<lparr>t_mutex := None\<rparr>, None, None))"

definition main2 :: "pollmsg2 \<Rightarrow> pollmsg2 option" where
  "main2 s =
     (case pc2 s of
        M_loop L_poll \<Rightarrow>
          (let rv = map (\<lambda>t. 0 < t_bytes t) (infos s) in if True \<in> set rv then Some (s\<lparr>pc2 := M_loop (L_scan 0 rv)\<rparr>) else None)
      | M_loop (L_scan i rv) \<Rightarrow>
          if length (infos s) \<le> i then Some (s\<lparr>pc2 := M_loop L_poll\<rparr>)
          else if \<not> rv ! i then Some (s\<lparr>pc2 := M_loop (L_scan (Suc i) rv)\<rparr>)
          else (let t = infos s ! i
                in if t_bytes t = 0 then None
                   else Some (s\<lparr>infos := (infos s)[i := t\<lparr>t_bytes := t_bytes t - 1\<rparr>], pc2 := M_has i rv S_term\<rparr>))
      | M_has i rv st \<Rightarrow>
          (case serve2 st (infos s ! i) of
             None \<Rightarrow> None
           | Some (t, x, nxt) \<Rightarrow>
               Some (s\<lparr>infos := (infos s)[i := t], out2 := out2 s @ map (Pair i) (case x of None \<Rightarrow> [] | Some x \<Rightarrow> [x]),
                       pc2 := (case nxt of None \<Rightarrow> M_loop (L_scan (Suc i) rv) | Some st' \<Rightarrow> M_has i rv st')\<rparr>)))"

inductive step2 :: "bool \<Rightarrow> pollmsg2 \<Rightarrow> pollmsg2 \<Rightarrow> bool" for sp where
  helper: "i < length (infos s) \<Longrightarrow> helper2 sp (infos s ! i) = Some t \<Longrightarrow> step2 sp s (s\<lparr>infos := (infos s)[i := t]\<rparr>)"
| main: "main2 s = Some s' \<Longrightarrow> step2 sp s s'"

definition start2 :: "string list list \<Rightarrow> pollmsg2" where
  "start2 qs =
     \<lparr>infos = map (\<lambda>q. \<lparr>t_queue = q, t_bytes = 0, t_len = 0, t_mutex = None, t_text = replicate (MAXMSZ + 1) NUL, t_pc = H_clear\<rparr>) qs,
      pc2 = M_loop L_poll, out2 = []\<rparr>"

text \<open>The stage at which the main thread has entry \<open>i\<close>, and what this says about the entry: \<open>text_of\<close> the memory of a message with \<open>n\<close> bytes.\<close>

definition stage :: "nat \<Rightarrow> pollmsg2 \<Rightarrow> mstage option" where
  "stage i s = (case pc2 s of M_has j rv st \<Rightarrow> if j = i then Some st else None | _ \<Rightarrow> None)"

definition text_of :: "nat \<Rightarrow> string \<Rightarrow> bool" where
  "text_of n b \<longleftrightarrow> n \<le> MAXMSZ \<and> length b = MAXMSZ + 1 \<and> drop n b = replicate (MAXMSZ + 1 - n) NUL"

definition entry_ok :: "mstage option \<Rightarrow> tinfo \<Rightarrow> bool" where
  "entry_ok ph t \<longleftrightarrow>
     (case t_pc t of
        H_clear \<Rightarrow> ph = None \<and> t_mutex t = None \<and> t_bytes t = 0
      | H_recv \<Rightarrow> ph = None \<and> t_mutex t = None \<and> t_bytes t = 0 \<and> t_text t = replicate (MAXMSZ + 1) NUL
      | H_len n \<Rightarrow> ph = None \<and> t_mutex t = None \<and> t_bytes t = 0 \<and> text_of n (t_text t)
      | H_lock \<Rightarrow> ph = None \<and> t_mutex t = None \<and> t_bytes t = 0 \<and> text_of (t_len t) (t_text t)
      | H_write \<Rightarrow> ph = None \<and> t_mutex t = Some Helper \<and> t_bytes t = 0 \<and> text_of (t_len t) (t_text t)
      | H_wait \<Rightarrow> t_mutex t = Some Helper \<and> text_of (t_len t) (t_text t) \<and>
          (ph = None \<and> t_bytes t = 1 \<or> ph \<in> {Some S_term, Some S_print, Some S_lock} \<and> t_bytes t = 0)
      | H_blocked \<Rightarrow> text_of (t_len t) (t_text t) \<and>
          (t_mutex t = None \<and> (ph = None \<and> t_bytes t = 1 \<or> ph \<in> {Some S_term, Some S_print, Some S_lock} \<and> t_bytes t = 0) \<or>
           t_mutex t = Some Main \<and> ph = Some S_signal \<and> t_bytes t = 0)
      | H_woken \<Rightarrow> t_bytes t = 0 \<and> (ph = None \<and> t_mutex t = None \<or> ph = Some S_unlock \<and> t_mutex t = Some Main)
      | H_unlock \<Rightarrow> ph = None \<and> t_mutex t = Some Helper \<and> t_bytes t = 0)"

definition pending :: "mstage option \<Rightarrow> tinfo \<Rightarrow> string list" where
  "pending ph t =
     (if (case t_pc t of H_len n \<Rightarrow> True | H_lock \<Rightarrow> True | H_write \<Rightarrow> True | H_wait \<Rightarrow> ph \<noteq> Some S_lock
          | H_blocked \<Rightarrow> ph \<noteq> Some S_lock \<and> ph \<noteq> Some S_signal | _ \<Rightarrow> False)
      then [cstr (t_text t)] else [])"

definition todo_entry :: "mstage option \<Rightarrow> tinfo \<Rightarrow> string list" where
  "todo_entry ph t = pending ph t @ map shown (t_queue t)"

text \<open>What is still to be done for an entry, as a number: \<open>c\<close> for every byte that the main thread has to read.\<close>

definition weight2 :: "nat \<Rightarrow> tinfo \<Rightarrow> nat" where
  "weight2 c t =
     (9 + c) * length (t_queue t) + c * t_bytes t +
     (case t_pc t of H_clear \<Rightarrow> 1 | H_recv \<Rightarrow> 0 | H_len n \<Rightarrow> 8 + c | H_lock \<Rightarrow> 7 + c | H_write \<Rightarrow> 6 + c
      | H_wait \<Rightarrow> 5 | H_blocked \<Rightarrow> 4 | H_woken \<Rightarrow> 3 | H_unlock \<Rightarrow> 2)"

lemma text_of_end: "text_of n b \<Longrightarrow> b[n := NUL] = b"
proof -
  assume a: "text_of n b"
  then have "b ! n = drop n b ! 0" by (subst nth_drop) (simp_all add: text_of_def)
  also have "\<dots> = NUL" using a by (simp add: text_of_def)
  finally show "b[n := NUL] = b" by (metis list_update_id)
qed

lemma drop_zeros: "drop n (replicate k NUL) = replicate (k - n) NUL"
  by (rule drop_replicate)

lemma recv_text:
  assumes "b = replicate (MAXMSZ + 1) NUL"
  shows "text_of (length (take MAXMSZ m)) (take MAXMSZ m @ drop (length (take MAXMSZ m)) b)"
    and "cstr (take MAXMSZ m @ drop (length (take MAXMSZ m)) b) = shown m"
  unfolding assms drop_zeros by (simp_all add: text_of_def min_def shown_def cstr_zeros del: replicate_Suc)

lemma helper2_cases:
  assumes "helper2 False t = Some t'"
  obtains (clear) "t_pc t = H_clear" "t' = t\<lparr>t_text := replicate (MAXMSZ + 1) NUL, t_pc := H_recv\<rparr>"
    | (recv) m q where "t_pc t = H_recv" "t_queue t = m # q"
        "t' = t\<lparr>t_queue := q, t_text := take MAXMSZ m @ drop (length (take MAXMSZ m)) (t_text t), t_pc := H_len (length (take MAXMSZ m))\<rparr>"
    | (len) n where "t_pc t = H_len n" "t' = t\<lparr>t_len := n, t_pc := H_lock\<rparr>"
    | (lock) "t_pc t = H_lock" "t_mutex t = None" "t' = t\<lparr>t_mutex := Some Helper, t_pc := H_write\<rparr>"
    | (send) "t_pc t = H_write" "t' = t\<lparr>t_bytes := t_bytes t + 1, t_pc := H_wait\<rparr>"
    | (wait) "t_pc t = H_wait" "t' = t\<lparr>t_mutex := None, t_pc := H_blocked\<rparr>"
    | (woken) "t_pc t = H_woken" "t_mutex t = None" "t' = t\<lparr>t_mutex := Some Helper, t_pc := H_unlock\<rparr>"
    | (unlock) "t_pc t = H_unlock" "t' = t\<lparr>t_mutex := None, t_pc := H_clear\<rparr>"
  using assms by (cases "t_pc t") (auto simp: helper2_def Let_def split: if_splits list.splits)

lemma helper2_ok:
  assumes "helper2 False t = Some t'" "entry_ok ph t"
  shows "entry_ok ph t' \<and> todo_entry ph t' = todo_entry ph t \<and> weight2 c t' < weight2 c t \<and> t_bytes t \<le> t_bytes t'"
  using assms
proof (cases rule: helper2_cases)
  case (recv m q)
  then have b: "t_text t = replicate (MAXMSZ + 1) NUL" using assms(2) by (simp add: entry_ok_def)
  show ?thesis using assms(2) recv(1,2) recv_text [OF b, of m] unfolding recv(3)
    by (simp add: entry_ok_def todo_entry_def pending_def weight2_def del: length_take)
qed (use assms(2) in \<open>auto simp: entry_ok_def todo_entry_def pending_def weight2_def\<close>)

lemma serve2_ok:
  assumes "serve2 st t = Some (t', x, nxt)" "entry_ok (Some st) t"
  shows "entry_ok nxt t' \<and> (case x of None \<Rightarrow> [] | Some x \<Rightarrow> [x]) @ todo_entry nxt t' = todo_entry (Some st) t \<and> weight2 c t' \<le> weight2 c t"
  using assms
  by (cases st; cases "t_pc t")
    (auto simp: serve2_def entry_ok_def todo_entry_def pending_def weight2_def text_of_end split: if_splits)

definition ready :: "nat \<Rightarrow> bool list \<Rightarrow> tinfo list \<Rightarrow> bool" where
  "ready i rv ts \<longleftrightarrow> length rv = length ts \<and> (\<forall>j<length ts. i \<le> j \<longrightarrow> rv ! j \<longrightarrow> 0 < t_bytes (ts ! j))"

definition ok2 :: "pollmsg2 \<Rightarrow> bool" where
  "ok2 s \<longleftrightarrow> (\<forall>i<length (infos s). entry_ok (stage i s) (infos s ! i)) \<and>
     (case pc2 s of
        M_loop L_poll \<Rightarrow> True
      | M_loop (L_scan i rv) \<Rightarrow> ready i rv (infos s)
      | M_has i rv st \<Rightarrow> i < length (infos s) \<and> ready (Suc i) rv (infos s))"

definition todo2 :: "nat \<Rightarrow> pollmsg2 \<Rightarrow> string list" where
  "todo2 i s = (if i < length (infos s) then todo_entry (stage i s) (infos s ! i) else [])"

definition pr2 :: "nat \<Rightarrow> pollmsg2 \<Rightarrow> string list" where
  "pr2 i s = printed i (out2 s)"

definition main_mu :: "nat \<Rightarrow> main_pc \<Rightarrow> nat" where
  "main_mu n pc =
     (case pc of
        M_loop L_poll \<Rightarrow> 6 * n + 1
      | M_loop (L_scan i rv) \<Rightarrow> scan_mu 6 n i rv
      | M_has i rv st \<Rightarrow> scan_mu 6 n (Suc i) rv + (case st of S_term \<Rightarrow> 5 | S_print \<Rightarrow> 4 | S_lock \<Rightarrow> 3 | S_signal \<Rightarrow> 2 | S_unlock \<Rightarrow> 1))"

definition mu2 :: "pollmsg2 \<Rightarrow> nat" where
  "mu2 s = (let n = length (infos s) in sum_list (map (weight2 (6 * n + 3)) (infos s)) + main_mu n (pc2 s))"

lemma ready_update: "ready i rv ts \<Longrightarrow> k < i \<or> t_bytes (ts ! k) \<le> t_bytes t \<Longrightarrow> ready i rv (ts[k := t])"
  by (cases "k < length ts") (auto simp: ready_def nth_list_update)

lemma ready_Suc: "ready i rv ts \<Longrightarrow> ready (Suc i) rv ts"
  by (simp add: ready_def)

lemma read_ok:
  assumes "entry_ok None t" "0 < t_bytes t"
  defines "t' \<equiv> t\<lparr>t_bytes := t_bytes t - 1\<rparr>"
  shows "entry_ok (Some S_term) t' \<and> todo_entry (Some S_term) t' = todo_entry None t \<and> weight2 c t' + c = weight2 c t"
  using assms by (cases "t_pc t") (auto simp: entry_ok_def todo_entry_def pending_def weight2_def)

lemma helper_step2:
  assumes "ok2 s" "i < length (infos s)" "helper2 False (infos s ! i) = Some t"
  defines "s' \<equiv> s\<lparr>infos := (infos s)[i := t]\<rparr>"
  shows "ok2 s' \<and> pr2 j s' @ todo2 j s' = pr2 j s @ todo2 j s \<and> mu2 s' < mu2 s"
proof -
  have st: "stage k s' = stage k s" for k by (simp add: stage_def s'_def)
  have "entry_ok (stage i s) (infos s ! i)" using assms(1,2) by (simp add: ok2_def)
  note h = helper2_ok [OF assms(3) this]
  have "ok2 s'" using assms(1,2) h ready_update [of _ _ "infos s" i t]
    by (auto simp: ok2_def s'_def stage_def nth_list_update split: main_pc.splits loop_pc.splits)
  moreover have "pr2 j s' @ todo2 j s' = pr2 j s @ todo2 j s" using h assms(2) st by (cases "j = i") (auto simp: pr2_def todo2_def s'_def)
  moreover have "mu2 s' < mu2 s"
    using sum_map_update [OF assms(2), of "weight2 (6 * length (infos s) + 3)" t] h [of "6 * length (infos s) + 3"] by (simp add: mu2_def s'_def Let_def)
  ultimately show ?thesis by simp
qed

lemma main2_cases:
  assumes "main2 s = Some s'"
  obtains (poll) rv where "pc2 s = M_loop L_poll" "rv = map (\<lambda>t. 0 < t_bytes t) (infos s)" "True \<in> set rv" "s' = s\<lparr>pc2 := M_loop (L_scan 0 rv)\<rparr>"
    | (again) i rv where "pc2 s = M_loop (L_scan i rv)" "length (infos s) \<le> i" "s' = s\<lparr>pc2 := M_loop L_poll\<rparr>"
    | (skip) i rv where "pc2 s = M_loop (L_scan i rv)" "i < length (infos s)" "\<not> rv ! i" "s' = s\<lparr>pc2 := M_loop (L_scan (Suc i) rv)\<rparr>"
    | (read) i rv where "pc2 s = M_loop (L_scan i rv)" "i < length (infos s)" "rv ! i" "0 < t_bytes (infos s ! i)"
        "s' = s\<lparr>infos := (infos s)[i := (infos s ! i)\<lparr>t_bytes := t_bytes (infos s ! i) - 1\<rparr>], pc2 := M_has i rv S_term\<rparr>"
    | (serve) i rv st t x nxt where "pc2 s = M_has i rv st" "serve2 st (infos s ! i) = Some (t, x, nxt)"
        "s' = s\<lparr>infos := (infos s)[i := t], out2 := out2 s @ map (Pair i) (case x of None \<Rightarrow> [] | Some x \<Rightarrow> [x]),
           pc2 := (case nxt of None \<Rightarrow> M_loop (L_scan (Suc i) rv) | Some st' \<Rightarrow> M_has i rv st')\<rparr>"
proof (cases "pc2 s")
  case (M_loop l)
  then show thesis using assms poll again skip read by (cases l) (auto simp: main2_def Let_def split: if_splits)
next
  case (M_has i rv st)
  then show thesis using assms serve by (auto simp: main2_def split: option.splits)
qed

lemma printed_pair: "printed j (out @ map (Pair i) xs) = printed j out @ (if j = i then xs else [])"
  by (induction xs) (auto simp: printed_def)

lemma serve2_next: "serve2 st t = Some (t', x, nxt) \<Longrightarrow> main_mu n (case nxt of None \<Rightarrow> M_loop (L_scan (Suc i) rv) | Some st' \<Rightarrow> M_has i rv st') < main_mu n (M_has i rv st)"
  by (cases st) (auto simp: serve2_def main_mu_def split: if_splits)

lemma entries_update:
  assumes "\<forall>k<length ts. entry_ok (f k) (ts ! k)" "entry_ok (g i) t" "\<forall>k. k \<noteq> i \<longrightarrow> g k = f k"
  shows "\<forall>k<length (ts[i := t]). entry_ok (g k) (ts[i := t] ! k)"
  using assms by (metis length_list_update nth_list_update_eq nth_list_update_neq)

lemma main_step2:
  assumes "ok2 s" "main2 s = Some s'"
  shows "ok2 s' \<and> pr2 j s' @ todo2 j s' = pr2 j s @ todo2 j s \<and> mu2 s' < mu2 s"
  using assms(2)
proof (cases rule: main2_cases)
  case (poll rv)
  then show ?thesis using assms(1) by (auto simp: ok2_def stage_def ready_def pr2_def todo2_def mu2_def main_mu_def scan_mu_start Let_def)
next
  case (again i rv)
  then show ?thesis using assms(1) by (auto simp: ok2_def stage_def pr2_def todo2_def mu2_def main_mu_def scan_mu_end Let_def)
next
  case (skip i rv)
  then have "scan_mu 6 (length (infos s)) (Suc i) rv + 6 = scan_mu 6 (length (infos s)) i rv"
    using assms(1) by (intro scan_mu_skip) (auto simp: ok2_def ready_def)
  then show ?thesis using assms(1) skip by (auto simp: ok2_def stage_def ready_Suc pr2_def todo2_def mu2_def main_mu_def Let_def)
next
  case (read i rv)
  let ?n = "length (infos s)" and ?t = "(infos s ! i)\<lparr>t_bytes := t_bytes (infos s ! i) - 1\<rparr>"
  have st: "stage k s = None" "stage k s' = (if k = i then Some S_term else None)" for k using read by (simp_all add: stage_def)
  have ent: "entry_ok None (infos s ! i)" and len: "ready i rv (infos s)" using assms(1) read(1,2) st(1) by (simp_all add: ok2_def)
  note r = read_ok [OF ent read(4), of "6 * ?n + 3"]
  have "scan_mu 6 ?n (Suc i) rv + 6 \<le> scan_mu 6 ?n i rv + (6 * ?n + 2)" using read(2,3) len by (intro scan_mu_read) (auto simp: ready_def)
  then have mu: "mu2 s' < mu2 s" using sum_map_update [OF read(2), of "weight2 (6 * ?n + 3)" ?t] r read(1,5) by (simp add: mu2_def main_mu_def Let_def)
  have "ready (Suc i) rv ((infos s)[i := ?t])" using ready_update [OF ready_Suc [OF len], of i ?t] by simp
  then have "ok2 s'" using entries_update [of "infos s" "\<lambda>k. stage k s" "\<lambda>k. stage k s'" i ?t] assms(1) r st read(2,5) by (simp add: ok2_def)
  moreover have "pr2 j s' @ todo2 j s' = pr2 j s @ todo2 j s" using r st read(2,5) by (cases "j = i") (simp_all add: pr2_def todo2_def)
  ultimately show ?thesis using mu by simp
next
  case (serve i rv st t x nxt)
  let ?n = "length (infos s)"
  have sg: "stage k s = (if k = i then Some st else None)" "stage k s' = (if k = i then nxt else None)" for k
    using serve(1,3) by (auto simp: stage_def split: option.splits)
  have i: "i < ?n" and rdy: "ready (Suc i) rv (infos s)" and all: "\<forall>k<?n. entry_ok (stage k s) (infos s ! k)"
    using assms(1) serve(1) by (simp_all add: ok2_def)
  have "entry_ok (Some st) (infos s ! i)" using all i sg(1) [of i] by force
  note r = serve2_ok [OF serve(2) this, of "6 * ?n + 3"]
  have mu: "mu2 s' < mu2 s"
    using sum_map_update [OF i, of "weight2 (6 * ?n + 3)" t] r serve2_next [OF serve(2), of ?n i rv] serve(1,3) by (simp add: mu2_def Let_def)
  have "ready (Suc i) rv ((infos s)[i := t])" using ready_update [OF rdy, of i t] by simp
  then have "ok2 s'" using entries_update [OF all, of "\<lambda>k. stage k s'" i t] r sg i serve(3) by (auto simp: ok2_def split: option.splits)
  moreover have "pr2 j s' @ todo2 j s' = pr2 j s @ todo2 j s" using r sg i serve(3) by (cases "j = i") (simp_all add: pr2_def todo2_def printed_pair)
  ultimately show ?thesis using mu by simp
qed

text \<open>The main thread can only be kept waiting by a poll without bytes, or by a mutex that the thread of the entry is about to release.\<close>

lemma stuck2:
  assumes "ok2 s" "main2 s = None" "\<forall>i<length (infos s). helper2 False (infos s ! i) = None" "i < length (infos s)"
  shows "todo2 i s = []"
proof -
  have ent: "entry_ok (stage k s) (infos s ! k)" "helper2 False (infos s ! k) = None" if "k < length (infos s)" for k using that assms(1,3) by (simp_all add: ok2_def)
  have free: "t_pc (infos s ! k) \<noteq> H_wait" if "k < length (infos s)" for k using ent(2) [OF that] by (auto simp: helper2_def)
  have no_has: "pc2 s \<noteq> M_has k rv st" for k rv st
  proof
    assume pc: "pc2 s = M_has k rv st"
    then have k: "k < length (infos s)" using assms(1) by (simp add: ok2_def)
    have "serve2 st (infos s ! k) = None" using assms(2) pc by (auto simp: main2_def split: option.splits)
    then have "st = S_lock" "t_mutex (infos s ! k) \<noteq> None" by (auto simp: serve2_def split: mstage.splits if_splits)
    moreover have "stage k s = Some st" using pc by (simp add: stage_def)
    ultimately show False using ent(1) [OF k] free [OF k] by (auto simp: entry_ok_def split: hpc.splits)
  qed
  have poll: "pc2 s = M_loop L_poll"
  proof (cases "pc2 s")
    case (M_loop l)
    then show ?thesis using assms(1,2) by (cases l) (auto simp: main2_def ok2_def ready_def Let_def not_le split: if_splits)
  qed (use no_has in blast)
  then have "t_bytes (infos s ! i) = 0" "stage i s = None"
    using assms(2) nth_mem [OF assms(4)] by (auto simp: main2_def stage_def Let_def split: if_splits)
  then have "t_queue (infos s ! i) = [] \<and> t_pc (infos s ! i) = H_recv"
    using ent [OF assms(4)] by (auto simp: entry_ok_def helper2_def Let_def split: hpc.splits list.splits if_splits)
  then show ?thesis using assms(4) by (simp add: todo2_def todo_entry_def pending_def)
qed

interpretation pm2: relay "step2 False" pr2 todo2 ok2 mu2
proof
  fix s s' :: pollmsg2 and i
  assume ok: "ok2 s"
  show "ok2 s'" if "step2 False s s'" using that by cases (use ok helper_step2 main_step2 in blast)+
  show "pr2 i s' @ todo2 i s' = pr2 i s @ todo2 i s" if "step2 False s s'" using that by cases (use ok helper_step2 main_step2 in blast)+
  show "mu2 s' < mu2 s" if "step2 False s s'" using that by cases (use ok helper_step2 main_step2 in blast)+
  show "todo2 i s = []" if stuck: "\<forall>s'. \<not> step2 False s s'"
  proof (cases "i < length (infos s)")
    case True
    have "\<forall>k<length (infos s). helper2 False (infos s ! k) = None" 
      by (intro allI impI, rule ccontr) (use stuck step2.helper [of _ s False] in auto)
    moreover have "main2 s = None" using stuck step2.main by (cases "main2 s") auto
    ultimately show ?thesis using stuck2 [OF ok] True by blast
  qed (simp add: todo2_def)
qed

section \<open>Properties\<close>

lemma start1_ok:
  assumes "\<forall>q\<in>set qs. \<forall>m\<in>set q. length m < MAXMSZ"
  shows "ok1 (start1 qs)"
  using assms by (auto simp: ok1_def start1_def short1_def)

lemma start1_todo: "i < length qs \<Longrightarrow> todo1 i (start1 qs) = map shown (qs ! i)"
  by (simp add: todo1_def start1_def todo_pipe1_def)

lemma start2_ok: "ok2 (start2 qs)"
  by (simp add: ok2_def start2_def stage_def entry_ok_def)

lemma start2_todo: "i < length qs \<Longrightarrow> todo2 i (start2 qs) = map shown (qs ! i)"
  by (simp add: todo2_def start2_def todo_entry_def pending_def)

lemma sum_list_linear: "sum_list (map (\<lambda>x. a * f x + b) xs) = a * sum_list (map f xs) + b * (length xs :: nat)"
  by (induction xs) (simp_all add: algebra_simps)

lemma start2_mu: "mu2 (start2 qs) = (6 * length qs + 12) * sum_list (map length qs) + 7 * length qs + 1"
  using sum_list_linear [of "6 * length qs + 12" length 1 qs]
  by (simp add: mu2_def start2_def main_mu_def weight2_def Let_def comp_def add.commute)

lemma start1_mu: "mu1 (start1 qs) = (length qs + 5) * sum_list (map length qs) + length qs + 1"
  using sum_list_linear [of "length qs + 5" length 0 qs]
  by (simp add: mu1_def start1_def weight1_def Let_def comp_def)

lemma shown_short: "length m < MAXMSZ \<Longrightarrow> shown m = cstr m"
  by (simp add: shown_def)

text \<open>
  C27: The program that waits for messages of several queues with \<^verbatim>\<open>poll\<close> (\<^verbatim>\<open>ipc2/pollmsg.c\<close>), for any
  number of queues and messages of less than \<^verbatim>\<open>MAXMSZ\<close> bytes. However the threads of the queues and the
  main thread interleave, the null byte is never written behind the buffer, and what has been printed
  for a queue is at any time a beginning of its messages, in order and each up to its first null
  byte; the threads never block each other before all messages are printed, and they print them within a
  number of steps that is linear in the number of messages.
\<close>

theorem pollmsg_prints_all:
  assumes "(step1 ^^ k) (start1 qs) s" "\<forall>q\<in>set qs. \<forall>m\<in>set q. length m < MAXMSZ" "i < length qs"
  shows "k \<le> (length qs + 5) * sum_list (map length qs) + length qs + 1 \<and> \<not> over1 s \<and>
    (\<exists>rest. map cstr (qs ! i) = pr1 i s @ rest) \<and> ((\<forall>s'. \<not> step1 s s') \<longrightarrow> pr1 i s = map cstr (qs ! i))"
proof -
  have r: "step1\<^sup>*\<^sup>* (start1 qs) s" using assms(1) by (rule relpowp_imp_rtranclp)
  note ok = start1_ok [OF assms(2)]
  have z: "pr1 i (start1 qs) = []" by (simp add: pr1_def start1_def)
  have c: "map shown (qs ! i) = map cstr (qs ! i)" using assms(2) nth_mem [OF assms(3)] shown_short by (intro map_cong) auto
  have "k \<le> mu1 (start1 qs)" using pm1.run_length [OF assms(1) ok] by simp
  moreover have "\<not> over1 s" "map cstr (qs ! i) = pr1 i s @ todo1 i s"
    using pm1.reach [OF r ok, of i] start1_todo [OF assms(3)] z c by (simp_all add: ok1_def)
  moreover have "pr1 i s = map cstr (qs ! i)" if "\<forall>s'. \<not> step1 s s'"
    using pm1.complete [OF r ok that, of i] start1_todo [OF assms(3)] z c by simp
  ultimately show ?thesis unfolding start1_mu by blast
qed

text \<open>
  The version that hands messages over in memory (\<^verbatim>\<open>exercises/pollmsg2.c\<close>) prints all messages, too, each cut to
  \<^verbatim>\<open>MAXMSZ\<close> bytes, but only as long as no wait ends without a signal, which \<^verbatim>\<open>pthread_cond_wait\<close> does not promise:
  its threads wait without a loop, and \<open>pollmsg2_spurious_wakeup\<close> below shows a message that is lost.
\<close>

lemma pollmsg2_prints_all:
  assumes "(step2 False ^^ k) (start2 qs) s" "i < length qs"
  shows "k \<le> (6 * length qs + 12) * sum_list (map length qs) + 7 * length qs + 1 \<and>
    (\<exists>rest. map shown (qs ! i) = pr2 i s @ rest) \<and> ((\<forall>s'. \<not> step2 False s s') \<longrightarrow> pr2 i s = map shown (qs ! i))"
proof -
  have r: "(step2 False)\<^sup>*\<^sup>* (start2 qs) s" using assms(1) by (rule relpowp_imp_rtranclp)
  have z: "pr2 i (start2 qs) = []" by (simp add: pr2_def start2_def)
  show ?thesis
    using pm2.reach [OF r start2_ok, of i] pm2.complete [OF r start2_ok, of i] pm2.run_length [OF assms(1) start2_ok] start2_todo [OF assms(2)] start2_mu z
    by (metis append.left_neutral le_add1 le_trans)
qed

text \<open>Runs of given schedules: a step of the main thread, or of the thread of a queue.\<close>

fun run1 :: "nat option list \<Rightarrow> pollmsg1 \<Rightarrow> pollmsg1 option" where
  "run1 [] s = Some s"
| "run1 (None # ps) s = (if over1 s then None else Option.bind (main1 s) (run1 ps))"
| "run1 (Some i # ps) s =
     (if over1 s \<or> length (pipes1 s) \<le> i then None
      else Option.bind (helper1 (pipes1 s ! i)) (\<lambda>t. run1 ps (s\<lparr>pipes1 := (pipes1 s)[i := t]\<rparr>)))"

fun run2 :: "bool \<Rightarrow> nat option list \<Rightarrow> pollmsg2 \<Rightarrow> pollmsg2 option" where
  "run2 sp [] s = Some s"
| "run2 sp (None # ps) s = Option.bind (main2 s) (run2 sp ps)"
| "run2 sp (Some i # ps) s =
     (if length (infos s) \<le> i then None
      else Option.bind (helper2 sp (infos s ! i)) (\<lambda>t. run2 sp ps (s\<lparr>infos := (infos s)[i := t]\<rparr>)))"

lemma run1_length: "run1 ps s = Some t \<Longrightarrow> (step1 ^^ length ps) s t"
proof (induction ps s rule: run1.induct)
  case (2 ps s)
  then obtain u where "\<not> over1 s" "main1 s = Some u" "(step1 ^^ length ps) u t" by (auto simp: bind_eq_Some_conv split: if_splits)
  then show ?case using step1.main unfolding list.size by (metis add.right_neutral add_Suc_right relpowp_Suc_I2)
next
  case (3 i ps s)
  then obtain u where "\<not> over1 s" "i < length (pipes1 s)" "helper1 (pipes1 s ! i) = Some u" "(step1 ^^ length ps) (s\<lparr>pipes1 := (pipes1 s)[i := u]\<rparr>) t"
    by (auto simp: bind_eq_Some_conv split: if_splits)
  then show ?case using step1.helper unfolding list.size by (metis add.right_neutral add_Suc_right relpowp_Suc_I2)
qed simp

lemma run2_steps: "run2 sp ps s = Some t \<Longrightarrow> (step2 sp ^^ length ps) s t"
proof (induction sp ps s rule: run2.induct)
  case (2 sp ps s)
  then obtain u where "main2 s = Some u" "(step2 sp ^^ length ps) u t" by (auto simp: bind_eq_Some_conv)
  then show ?case using step2.main unfolding list.size by (metis add.right_neutral add_Suc_right relpowp_Suc_I2)
next
  case (3 sp i ps s)
  then obtain u where "i < length (infos s)" "helper2 sp (infos s ! i) = Some u" "(step2 sp ^^ length ps) (s\<lparr>infos := (infos s)[i := u]\<rparr>) t"
    by (auto simp: bind_eq_Some_conv split: if_splits)
  then show ?case using step2.helper unfolding list.size by (metis add.right_neutral add_Suc_right relpowp_Suc_I2)
qed simp

text \<open>A run of each program in which a queue has one message.\<close>

definition demo_schedule :: "nat option list" where
  "demo_schedule = replicate 6 (Some 0) @ replicate 8 None @ replicate 3 (Some 0)"

definition demo_end :: pollmsg2 where
  "demo_end =
     \<lparr>infos = [\<lparr>t_queue = [], t_bytes = 0, t_len = 2, t_mutex = None, t_text = replicate (MAXMSZ + 1) NUL, t_pc = H_recv\<rparr>], pc2 = M_loop L_poll,
      out2 = [(0, ''hi'')]\<rparr>"

lemma demo_run: "run2 False demo_schedule (start2 [[''hi'']]) = Some demo_end"
  by code_simp

lemma demo_stuck: "\<not> step2 False demo_end s"
proof
  assume "step2 False demo_end s"
  then show False by cases (simp_all add: demo_end_def helper2_def main2_def)
qed

lemma pollmsg2_prints_all_demo: "(step2 False ^^ 17) (start2 [[''hi'']]) demo_end \<and> pr2 0 demo_end = [''hi'']"
proof -
  have "length demo_schedule = 17" by (simp add: demo_schedule_def)
  then have "(step2 False ^^ 17) (start2 [[''hi'']]) demo_end" using run2_steps [OF demo_run] by simp
  then show ?thesis using pollmsg2_prints_all [of 17 "[[''hi'']]" demo_end 0] demo_stuck by (simp add: shown_def MAXMSZ_def cstr_def)
qed

definition demo_end1 :: pollmsg1 where
  "demo_end1 = \<lparr>pipes1 = [\<lparr>q1_msgs = [], q1_dgrams = [], q1_held = None\<rparr>], pc1 = L_poll, out1 = [(0, ''hi''), (0, ''ho'')], over1 = False\<rparr>"

definition demo_schedule1 :: "nat option list" where
  "demo_schedule1 = [Some 0, Some 0, Some 0, None, None, Some 0, None, None, None, None]"

lemma demo_run1: "run1 demo_schedule1 (start1 [[''hi'', ''ho'']]) = Some demo_end1"
  by code_simp

lemma demo_stuck1: "\<not> step1 demo_end1 s"
proof
  assume "step1 demo_end1 s"
  then show False by cases (simp_all add: demo_end1_def helper1_def main1_def)
qed

theorem pollmsg_prints_all_witness: "(step1 ^^ 10) (start1 [[''hi'', ''ho'']]) demo_end1 \<and> pr1 0 demo_end1 = [''hi'', ''ho'']"
proof -
  have "length demo_schedule1 = 10" by (simp add: demo_schedule1_def)
  then have r: "(step1 ^^ 10) (start1 [[''hi'', ''ho'']]) demo_end1" using run1_length [OF demo_run1] by simp
  have "\<forall>q\<in>set [[''hi'', ''ho'']]. \<forall>m\<in>set q. length m < MAXMSZ" by (simp add: MAXMSZ_def)
  from pollmsg_prints_all [OF r this, of 0] r demo_stuck1 show ?thesis by (simp add: cstr_def)
qed

text \<open>
  When a wait ends for no reason, the thread goes on to clear the message before the main thread has printed it, so an empty line is printed instead.
\<close>

lemma pollmsg2_spurious_wakeup: "\<exists>k s. (step2 True ^^ k) (start2 [[''hi'']]) s \<and> pr2 0 s = [[]]"
proof -
  have "map_option (pr2 0) (run2 True (replicate 10 (Some 0) @ replicate 4 None) (start2 [[''hi'']])) = Some [[]]" by code_simp
  then show ?thesis using run2_steps unfolding map_option_eq_Some by blast
qed

text \<open>A message of \<^verbatim>\<open>MAXMSZ\<close> bytes makes the first version write behind the end of its buffer.\<close>

lemma pollmsg_overruns: "\<exists>s. step1\<^sup>*\<^sup>* (start1 [[replicate MAXMSZ CHR ''x'']]) s \<and> over1 s"
proof -
  have "map_option over1 (run1 [Some 0, Some 0, None, None] (start1 [[replicate MAXMSZ CHR ''x'']])) = Some True"
    by (simp add: start1_def helper1_def main1_def)
  then show ?thesis using run1_length relpowp_imp_rtranclp unfolding map_option_eq_Some by (metis (no_types, lifting))
qed

end
