(* ===== verification/Ruptime.thy ===== *)
theory Ruptime
  imports Daemon Net_Process Print_Client Netio
begin

text \<open>
  The service that tells how long a machine has been up: the servers \<^verbatim>\<open>sockets/ruptimed.c\<close> (through a pipe), \<^verbatim>\<open>ruptimed-fd.c\<close> (the command writes to the
  connection itself) and \<^verbatim>\<open>ruptimed-dg.c\<close> (datagrams), with the clients \<^verbatim>\<open>ruptime.c\<close> and \<^verbatim>\<open>ruptime-dg.c\<close>. They are built from \<^verbatim>\<open>daemonize\<close>, \<^verbatim>\<open>initserver\<close> and
  \<^verbatim>\<open>connect_retry\<close>. A listening socket is a plain descriptor, connection \<open>k\<close> is an end. An exit after a message to the log is \<open>Err_quit\<close>.
\<close>

definition BUFLEN :: nat where "BUFLEN = 128"

section \<open>The servers\<close>

text \<open>What \<^verbatim>\<open>main\<close> meets: the number of arguments, memory for the name of the host, what \<^verbatim>\<open>daemonize\<close> meets, and how many addresses the host has (or an error).\<close>

record renv =
  r_argc :: nat
  r_malloc :: bool
  r_rlim :: "nat option"
  r_fork1 :: forked
  r_fork2 :: forked
  r_addrs :: "int + nat"

text \<open>The loop over the addresses: the first socket that can be had.\<close>

fun serve_addrs :: "bool \<Rightarrow> nat \<Rightarrow> process \<Rightarrow> (nat \<times> process) res" where
  "serve_addrs stream 0 p = Inl (Err_quit '''')"
| "serve_addrs stream (Suc n) p =
     (case lowest p of
        None \<Rightarrow> serve_addrs stream n p
      | Some fd \<Rightarrow>
          (case initserver stream fd (net_view 0 p) of (s, u) \<Rightarrow>
             let q = p\<lparr>ans := uans u, err := uerr u\<rparr>
             in if 0 \<le> s then Inr (nat s, q\<lparr>fdt := (fdt q)(nat s \<mapsto> Plain 0)\<rparr>) else serve_addrs stream n q))"

text \<open>\<^verbatim>\<open>main\<close> up to the call of \<^verbatim>\<open>serve\<close>: the socket and the process.\<close>

definition ruptimed_main :: "bool \<Rightarrow> renv \<Rightarrow> process \<Rightarrow> (nat \<times> process) res" where
  "ruptimed_main stream E p =
     (if r_argc E \<noteq> 1 then Inl (Err_quit ''usage: ruptimed'')
      else if \<not> r_malloc E then Inl (Err_sys ''malloc error'')
      else
        bnd (chk (Err_sys ''gethostname error'') (p_call p)) (\<lambda>p1.
        bnd (daemonize (r_rlim E) (r_fork1 E) (r_fork2 E) p1) (\<lambda>d.
        case r_addrs E of
          Inl e \<Rightarrow> Inl (Err_quit ''ruptimed: getaddrinfo error'')
        | Inr n \<Rightarrow> serve_addrs stream n d)))"

text \<open>\<^verbatim>\<open>ruptimed.c\<close>: the pieces that are sent for the output \<open>s\<close> of the command; \<^verbatim>\<open>strlen\<close> ends a piece at a null byte.\<close>

function sends :: "string \<Rightarrow> string list" where
  "sends s = (case fgets BUFLEN s of None \<Rightarrow> [] | Some (l, r) \<Rightarrow> cstr (l @ [NUL]) # sends r)"
  by pat_completeness auto
termination by (relation "measure length") (auto simp: BUFLEN_def dest!: fgets_progress)

declare sends.simps [simp del]

text \<open>One client; \<open>pop\<close> is what \<^verbatim>\<open>popen\<close> gives, an error or a stream.\<close>

definition serve_client :: "(errno \<Rightarrow> string) \<Rightarrow> errno + string \<Rightarrow> string list res" where
  "serve_client strerror pop =
     (case pop of
        Inl e \<Rightarrow> (let b = ''error: '' @ strerror e @ [NL] in if BUFLEN \<le> length b then Inl (Undefined ''buf'') else Inr [b])
      | Inr s \<Rightarrow> Inr (sends s))"

text \<open>The loop for the clients that come: what each is sent, and the process that waits for the next one, unless it has ended.\<close>

fun serve :: "(errno \<Rightarrow> string) \<Rightarrow> nat \<Rightarrow> (errno + string) list \<Rightarrow> process \<Rightarrow> string list list \<times> process res" where
  "serve strerror k [] p = ([], Inr p)"
| "serve strerror k (pop # pops) p =
     (case p_new (End k True) p of
        (Inl e, p1) \<Rightarrow> ([], Inl (Err_quit ''ruptimed: accept error''))
      | (Inr clfd, p1) \<Rightarrow>
          (case serve_client strerror pop of
             Inl f \<Rightarrow> ([], Inl f)
           | Inr bs \<Rightarrow> (case serve strerror (Suc k) pops (p_close clfd p1) of (bss, r) \<Rightarrow> (bs # bss, r))))"

text \<open>
  \<^verbatim>\<open>ruptimed-fd.c\<close>: the child exits, runs the command with descriptors (the listening socket is closed by \<^verbatim>\<open>exec\<close>), or, when \<^verbatim>\<open>execl\<close>
  fails, goes on with the loop of the server.
\<close>

datatype child_end = Child_exits | Runs "nat \<Rightarrow> fobj option" | Serves process

definition serve_fd_child :: "nat \<Rightarrow> nat \<Rightarrow> bool \<Rightarrow> process \<Rightarrow> child_end" where
  "serve_fd_child sockfd clfd exec_ok p =
     (case p_dup2 clfd 1 p of
        (Some e, p1) \<Rightarrow> Child_exits
      | (None, p1) \<Rightarrow>
          (case p_dup2 clfd 2 p1 of
             (Some e, p2) \<Rightarrow> Child_exits
           | (None, p2) \<Rightarrow>
               let p3 = p_close clfd p2
               in if exec_ok then Runs ((fdt p3)(sockfd := None)) else Serves p3))"

definition serve_fd :: "nat \<Rightarrow> nat \<Rightarrow> forked \<Rightarrow> bool \<Rightarrow> process \<Rightarrow> (process \<times> child_end) res" where
  "serve_fd sockfd k fk exec_ok p =
     (case p_new (End k True) p of
        (Inl e, p1) \<Rightarrow> Inl (Err_quit ''ruptimed: accept error'')
      | (Inr clfd, p1) \<Rightarrow>
          (case fk of
             Inl e \<Rightarrow> Inl (Err_quit ''ruptimed: fork error'')
           | Inr c \<Rightarrow> Inr (p_close clfd p1, serve_fd_child sockfd clfd exec_ok (child_of c p1))))"

text \<open>\<^verbatim>\<open>ruptimed-dg.c\<close>: the datagram that answers one, if there is one.\<close>

definition serve_dg :: "(errno \<Rightarrow> string) \<Rightarrow> errno + string \<Rightarrow> string option res" where
  "serve_dg strerror pop =
     (case pop of
        Inl e \<Rightarrow> (let b = ''error: '' @ strerror e @ [NL] in if BUFLEN \<le> length b then Inl (Undefined ''buf'') else Inr (Some b))
      | Inr s \<Rightarrow> Inr (map_option (\<lambda>(l, r). cstr (l @ [NUL])) (fgets BUFLEN s)))"

section \<open>The clients\<close>

text \<open>\<^verbatim>\<open>print_uptime\<close> of \<^verbatim>\<open>ruptime.c\<close>: what it prints, and whether it ends with an error of \<^verbatim>\<open>recv\<close>.\<close>

function print_uptime :: "rdev list \<Rightarrow> string \<times> bool" where
  "print_uptime inp =
     (case sys_read BUFLEN inp of
        (None, inp') \<Rightarrow> ([], True)
      | (Some b, inp') \<Rightarrow> if b = [] then ([], False) else (case print_uptime inp' of (out, bad) \<Rightarrow> (b @ out, bad)))"
  by pat_completeness auto
termination by (relation "measure rdev_size") (auto simp: sys_read_less [OF sym])

declare print_uptime.simps [simp del]

definition ruptime_main :: "(string \<Rightarrow> int + paddr list) \<Rightarrow> string list \<Rightarrow> (string \<times> bool) res" where
  "ruptime_main gai args =
     (case args of
        [host] \<Rightarrow>
          (case gai host of
             Inl e \<Rightarrow> Inl (Err_quit ''getaddrinfo error'')
           | Inr ailist \<Rightarrow>
               (case try_addrs (\<lambda>aip. print_uptime (pa_rsp aip)) ailist of
                  None \<Rightarrow> Inl (Err_sys ''can't connect'')
                | Some r \<Rightarrow> Inr r))
      | _ \<Rightarrow> Inl (Err_quit ''usage: ruptime hostname''))"

text \<open>
  \<^verbatim>\<open>print_uptime\<close> of \<^verbatim>\<open>ruptime-dg.c\<close>: \<open>reply\<close> is the datagram that comes, if any, and after how many seconds; \<open>late\<close> says that the alarm goes off before
  \<^verbatim>\<open>recvfrom\<close> is called.
\<close>

definition TIMEOUT :: nat where "TIMEOUT = 20"

definition print_uptime_dg :: "bool \<Rightarrow> (nat \<times> string) option \<Rightarrow> string res" where
  "print_uptime_dg late reply =
     (case reply of
        Some (t, d) \<Rightarrow> if late \<or> t < TIMEOUT then Inr (take BUFLEN d) else Inl (Err_sys ''recv error'')
      | None \<Rightarrow> if late then Inl Diverges else Inl (Err_sys ''recv error''))"

section \<open>The client prints the output of the command\<close>

lemma fgets_take_bound: "length (fgets_take m s) \<le> m \<and> fgets_take m s @ drop (length (fgets_take m s)) s = s"
  by (induction m s rule: fgets_take.induct) auto

lemma fgets_split: "fgets n s = Some (l, r) \<Longrightarrow> 0 < n \<Longrightarrow> s = l @ r \<and> length l < n"
  using fgets_take_bound [of "n - 1" s] by (auto simp: fgets_def Let_def split: if_splits)

lemma sends_whole:
  assumes "NUL \<notin> set s"
  shows "concat (sends s) = s \<and> (\<forall>b\<in>set (sends s). b \<noteq> [] \<and> length b < BUFLEN)"
  using assms
proof (induction s rule: sends.induct)
  case (1 s)
  show ?case
  proof (cases "fgets BUFLEN s")
    case None
    then show ?thesis by (subst (1 2) sends.simps) (auto simp: fgets_def Let_def sends.simps split: if_splits)
  next
    case (Some lr)
    obtain l r where lr: "lr = (l, r)" by fastforce
    have p: "s = l @ r" "length l < BUFLEN" "l \<noteq> []" using fgets_split [of BUFLEN s l r] fgets_progress [of BUFLEN s l r] Some lr by (auto simp: BUFLEN_def)
    have "cstr (l @ [NUL]) = l" using cstr_append_NUL [of l "[]"] "1.prems" p(1) by (simp add: is_cstr_def)
    then have "sends s = l # sends r" using Some lr by (simp add: sends.simps [of s])
    then show ?thesis using "1.IH" [OF Some lr [symmetric]] "1.prems" p by simp
  qed
qed

lemma print_uptime_all: "print_uptime inp = (out, bad) \<Longrightarrow> out = avail inp"
proof (induction inp arbitrary: out bad rule: print_uptime.induct)
  case (1 inp)
  show ?case
  proof (cases "avail inp = []")
    case True
    then show ?thesis using sys_read_end [of inp BUFLEN] "1.prems" by (subst (asm) print_uptime.simps) (auto split: if_splits)
  next
    case False
    obtain b inp' where b: "sys_read BUFLEN inp = (Some b, inp')" "b \<noteq> []" "avail inp = b @ avail inp'"
      using sys_read_data [of BUFLEN, OF _ False] by (auto simp: BUFLEN_def)
    obtain o' bad' where r: "print_uptime inp' = (o', bad')" by fastforce
    have "out = b @ o'" using "1.prems" b r by (subst (asm) print_uptime.simps) simp
    then show ?thesis using "1.IH" [OF b(1) [symmetric] refl b(2) r] b(3) by simp
  qed
qed

section \<open>Descriptors of the servers\<close>

lemma serve_keeps_descriptors:
  assumes "serve strerror k pops p = (bss, Inr q)"
  shows "fdt q = fdt p \<and> map Inr bss = map (serve_client strerror) pops"
  using assms
proof (induction strerror k pops p arbitrary: bss rule: serve.induct)
  case (2 strerror k pop pops p)
  obtain clfd p1 bs bss' where s: "p_new (End k True) p = (Inr clfd, p1)" "serve_client strerror pop = Inr bs"
    "serve strerror (Suc k) pops (p_close clfd p1) = (bss', Inr q)" "bss = bs # bss'"
    using "2.prems" by (auto split: prod.splits sum.splits)
  have "fdt (p_close clfd p1) = fdt p" using p_new_effect [OF s(1)] by (auto simp: same_def p_close_def fun_upd_idem)
  then show ?case using "2.IH" [OF s(1) [symmetric] refl s(2,3)] s(2,4) by simp
qed simp

lemma serve_addrs_socket:
  assumes "serve_addrs stream n p = Inr (sock, q)"
  shows "fdt p sock = None \<and> fdt q = (fdt p)(sock \<mapsto> Plain 0) \<and> fdlim q = fdlim p \<and> sid q = sid p \<and> pid q = pid p \<and> ctty q = ctty p"
  using assms
proof (induction stream n p rule: serve_addrs.induct)
  case (2 stream n p)
  show ?case
  proof (cases "lowest p")
    case None
    then show ?thesis using 2 by simp
  next
    case (Some fd)
    obtain s u where i: "initserver stream fd (net_view 0 p) = (s, u)" by fastforce
    have free: "fd \<notin> ufds (net_view 0 p)" using lowest_free [OF Some] by (simp add: net_view_def)
    show ?thesis
    proof (cases "0 \<le> s")
      case True
      have "s = int fd" using si.ok [OF i free True] by simp
      then show ?thesis using "2.prems" Some i lowest_free [OF Some] by (auto simp: Let_def)
    next
      case False
      then show ?thesis using "2.IH"(2) [OF Some i [symmetric] refl False] "2.prems" Some i by (simp add: Let_def)
    qed
  qed
qed simp

lemma same_fdt: "same p q \<Longrightarrow> fdt q = fdt p"
  by (simp add: same_def)

lemma ruptimed_main_start:
  assumes "ruptimed_main stream E p = Inr (sock, d)"
  shows "3 \<le> sock \<and> fdt d sock = Some (Plain 0) \<and> ctty d = None \<and> (\<forall>i<3. fdt d i = Some Null) \<and>
    (\<forall>i. 3 \<le> i \<longrightarrow> i < (case r_rlim E of None \<Rightarrow> 1024 | Some m \<Rightarrow> m) \<longrightarrow> i \<noteq> sock \<longrightarrow> fdt d i = None)"
proof -
  obtain p1 d1 n where d: "daemonize (r_rlim E) (r_fork1 E) (r_fork2 E) p1 = Inr d1" "serve_addrs stream n d1 = Inr (sock, d)"
    using assms by (cases "r_addrs E") (auto simp: ruptimed_main_def bnd_eq_Inr_iff split: if_splits)
  have "\<not> sock < 3" using serve_addrs_socket [OF d(2)] daemonize_effect [OF d(1)] by auto
  then show ?thesis using serve_addrs_socket [OF d(2)] daemonize_effect [OF d(1)] by auto
qed

text \<open>What the child of \<^verbatim>\<open>ruptimed-fd.c\<close> has, when descriptors \<open>0\<close> to \<open>2\<close> and the listening socket are in use.\<close>

lemma serve_fd_descriptors:
  assumes "serve_fd sock k fk x p = Inr (p', c)" "\<forall>i<3. fdt p i \<noteq> None" "fdt p sock \<noteq> None"
  shows "fdt p' = fdt p \<and>
    (case c of Child_exits \<Rightarrow> True
     | Runs t \<Rightarrow> x \<and> t = (fdt p)(1 \<mapsto> End k True, 2 \<mapsto> End k True, sock := None)
     | Serves q \<Rightarrow> \<not> x \<and> fdt q = (fdt p)(1 \<mapsto> End k True, 2 \<mapsto> End k True))"
proof -
  obtain clfd p1 cc where r: "p_new (End k True) p = (Inr clfd, p1)" "p' = p_close clfd p1" "c = serve_fd_child sock clfd x (child_of cc p1)"
    using assms(1) by (auto simp: serve_fd_def split: prod.splits sum.splits)
  have n: "fdt p clfd = None" "fdt p1 = (fdt p)(clfd \<mapsto> End k True)" using p_new_effect [OF r(1)] by (auto simp: same_def)
  have clfd: "clfd \<noteq> 1" "clfd \<noteq> 2" "clfd \<noteq> sock" using n(1) assms(2,3) by fastforce+
  have p': "fdt p' = fdt p" using n r(2) by (simp add: p_close_def fun_upd_idem)
  obtain e1 q1 where q1: "p_dup2 clfd 1 (child_of cc p1) = (e1, q1)" by fastforce
  obtain e2 q2 where q2: "p_dup2 clfd 2 q1 = (e2, q2)" by fastforce
  show ?thesis
  proof (cases "e1 = None \<and> e2 = None")
    case False
    then show ?thesis using p' r(3) q1 q2 by (auto simp: serve_fd_child_def split: option.splits)
  next
    case True
    have f1: "fdt q1 = (fdt p1)(1 \<mapsto> End k True)" using p_do_effect [OF q1 [unfolded p_dup2_def]] True n(2) clfd by (auto simp: child_of_def same_def)
    have "fdt q2 = (fdt p1)(1 \<mapsto> End k True, 2 \<mapsto> End k True)" using p_do_effect [OF q2 [unfolded p_dup2_def]] True f1 n(2) clfd by (auto simp: same_def)
    then have "fdt (p_close clfd q2) = (fdt p)(1 \<mapsto> End k True, 2 \<mapsto> End k True)" using n clfd by (auto simp: p_close_def fun_eq_iff)
    then show ?thesis using p' r(3) q1 q2 True by (simp add: serve_fd_child_def Let_def)
  qed
qed

section \<open>Properties\<close>

text \<open>
  The client prints what the command wrote for it, whatever the pieces in which the server sends and the client receives it, however many clients came before and
  whichever of the addresses of the host is the first to answer; the server has the same descriptors afterwards.
\<close>

theorem ruptime_shows_uptime:
  assumes "serve strerror k pops p = (bss, Inr q)" "i < length pops" "pops ! i = Inr s" "NUL \<notin> set s"
    and "gai host = Inr (as @ a # rest)" "\<forall>b\<in>set as. fst (connect_retry (pa_tries b)) = None" "fst (connect_retry (pa_tries a)) \<noteq> None"
    and "avail (pa_rsp a) = concat (bss ! i)"
  shows "\<exists>bad. ruptime_main gai [host] = Inr (s, bad) \<and> fdt q = fdt p"
proof -
  note sv = serve_keeps_descriptors [OF assms(1)]
  have "length bss = length pops" using sv by (metis length_map)
  then have "Inr (bss ! i) = serve_client strerror (pops ! i)" using sv assms(2) by (metis nth_map)
  then have "bss ! i = sends s" using assms(3) by (simp add: serve_client_def)
  then have "avail (pa_rsp a) = s" using assms(8) sends_whole [OF assms(4)] by simp
  moreover obtain out bad where pu: "print_uptime (pa_rsp a) = (out, bad)" by fastforce
  ultimately have "print_uptime (pa_rsp a) = (s, bad)" using print_uptime_all [OF pu] by simp
  then show ?thesis using sv assms(5) try_addrs_first [OF assms(6,7), of "\<lambda>b. print_uptime (pa_rsp b)" rest] by (simp add: ruptime_main_def)
qed

text \<open>
  A comment of \<^verbatim>\<open>ruptimed-fd.c\<close> says that the descriptor of the client is none of the standard ones, so that it can be closed without a test: the command
  runs with the connection as standard output and error, \<^verbatim>\<open>/dev/null\<close> as standard input and nothing else, and the server keeps its descriptors.
\<close>

theorem ruptimed_fd_command:
  assumes "ruptimed_main True E p = Inr (sock, d)" "serve_fd sock k fk x d = Inr (d', Runs t)"
  shows "fdt d' = fdt d \<and> t 0 = Some Null \<and> t 1 = Some (End k True) \<and> t 2 = Some (End k True) \<and>
    (\<forall>i. 3 \<le> i \<longrightarrow> i < (case r_rlim E of None \<Rightarrow> 1024 | Some m \<Rightarrow> m) \<longrightarrow> t i = None)"
proof -
  note s = ruptimed_main_start [OF assms(1)]
  have "\<forall>i<3. fdt d i \<noteq> None" "fdt d sock \<noteq> None" using s by simp_all
  note f = serve_fd_descriptors [OF assms(2) this]
  have t: "t = (fdt d)(1 \<mapsto> End k True, 2 \<mapsto> End k True, sock := None)" "fdt d' = fdt d" using f by simp_all
  have "sock \<noteq> 0" "sock \<noteq> 1" "sock \<noteq> 2" "3 \<le> sock" "fdt d 0 = Some Null" using s by auto
  then show ?thesis using s unfolding t by auto
qed

text \<open>
  When \<^verbatim>\<open>execl\<close> fails the child does not exit: it is a server too, with the connection to the client still open as its standard output, so that
  the client never sees the end of the answer; its parent waits for it.
\<close>

theorem ruptimed_fd_exec_fails:
  assumes "ruptimed_main True E p = Inr (sock, d)" "serve_fd sock k fk False d = Inr (d', c)" "c \<noteq> Child_exits"
  shows "\<exists>q. c = Serves q \<and> fdt q sock = Some (Plain 0) \<and> fdt q 1 = Some (End k True)"
proof -
  note s = ruptimed_main_start [OF assms(1)]
  have "\<forall>i<3. fdt d i \<noteq> None" "fdt d sock \<noteq> None" using s by simp_all
  note f = serve_fd_descriptors [OF assms(2) this]
  then obtain q where "c = Serves q" "fdt q = (fdt d)(1 \<mapsto> End k True, 2 \<mapsto> End k True)" using assms(3) by (cases c) auto
  moreover have "sock \<noteq> 1" "sock \<noteq> 2" "fdt d sock = Some (Plain 0)" using s by auto
  ultimately show ?thesis by simp
qed

text \<open>The answer of \<^verbatim>\<open>ruptimed-dg.c\<close> is the first piece that \<^verbatim>\<open>ruptimed.c\<close> sends, and it fits the buffer of \<^verbatim>\<open>ruptime-dg.c\<close>.\<close>

theorem datagram_is_first_piece:
  assumes "serve_dg strerror (Inr s) = Inr (Some b)" "t < TIMEOUT" "NUL \<notin> set s"
  shows "print_uptime_dg late (Some (t, b)) = Inr (hd (sends s))"
proof -
  obtain l r where f: "fgets BUFLEN s = Some (l, r)" "b = cstr (l @ [NUL])" using assms(1) by (auto simp: serve_dg_def)
  have b: "sends s = b # sends r" using f by (simp add: sends.simps [of s])
  then have "length b < BUFLEN" using sends_whole [OF assms(3)] by simp
  then show ?thesis using assms(2) b by (simp add: print_uptime_dg_def)
qed

text \<open>Each of the theorems at a run: two clients, the second after an address that refuses.\<close>

definition demo_renv :: renv where
  "demo_renv = \<lparr>r_argc = 1, r_malloc = True, r_rlim = Some 8, r_fork1 = Inr (101, []), r_fork2 = Inr (102, []), r_addrs = Inr 1\<rparr>"

lemma ruptime_demo:
  "fst (serve (\<lambda>_. []) 0 [Inr ''down'', Inr ''up 3 days''] shell_proc) = [[''down''], [''up 3 days'']]"
  "ruptime_main (\<lambda>_. Inr [\<lparr>pa_tries = (\<lambda>_. No_Socket), pa_out = [], pa_rsp = []\<rparr>,
     \<lparr>pa_tries = (\<lambda>_. Connected 5), pa_out = [], pa_rsp = [RData ''up 3 '', RData ''days'', REof]\<rparr>]) [''host''] = Inr (''up 3 days'', False)"
  by code_simp+

lemma ruptimed_fd_demo:
  "case ruptimed_main True demo_renv shell_proc of
     Inl _ \<Rightarrow> False
   | Inr (sock, d) \<Rightarrow> sock = 3 \<and> (case serve_fd sock 0 (Inr (200, [])) True d of Inr (d', Runs t) \<Rightarrow> True | _ \<Rightarrow> False)"
  by code_simp

end
