(* ===== verification/Spec2Isabelle.thy ===== *)
theory Spec2Isabelle
  imports Db_Spec Memstream Opend_Fe Semaph_Safe Job_Queue Netio Print_Rounds Foo_Objects Barrier_Sort Tty_Modes Popen Ftw Print_Client Errors Unix_Sockets Pty_Main Print_Main Rot13 Tell_Wait Signals Ttyname Thread_Control Poll_Messages Ruptime
begin

text \<open>
  \<^bold>\<open>A verification of the programs of \<^verbatim>\<open>original-src/apue.3e\<close>.\<close>

  The repository holds the programs of a book on the UNIX programming interface. Most of them
  show one system call. This development models the ones that have a logic of their own: a
  database library, memory streams, a server that opens files for its clients, a print service, and
  the parts of the book's library (\<^verbatim>\<open>lib\<close>) and of its chapters on threads that others rely on. File names below are
  relative to \<^verbatim>\<open>src/original-src/apue.3e\<close>.

  \<^bold>\<open>How programs are modelled.\<close> A structure is a record, an enumeration a datatype, a function a
  definition with the source's name that takes the state and returns the new one. A result is of
  type \<^typ>\<open>'a res\<close> where the code may leave through the error routines of \<^verbatim>\<open>lib/error.c\<close>, write out of
  bounds (\<open>Undefined\<close>) or loop for ever (\<open>Diverges\<close>). What the kernel or another library does, such as which bytes a read
  returns, which descriptor is free, whether memory can be had or in which order threads run, is an argument, or a choice of
  a step relation, and a theorem holds for all of them unless a hypothesis says what is relied on. Memory shared
  through pointers is an explicit store from addresses to contents, with 0 the null pointer.

  \<^bold>\<open>The parts.\<close>

  \<^item> \<open>Prelude\<close>: results, characters, decimal numbers (\<^verbatim>\<open>sprintf\<close>, \<^verbatim>\<open>atol\<close>), C strings, open files with a position. \<open>Errors\<close>: what the routines of
    \<^verbatim>\<open>lib/error.c\<close> and \<^verbatim>\<open>lib/errorlog.c\<close> write, and that it fits their buffers (C14).

  \<^item> \<^verbatim>\<open>db/db.c\<close>, \<^verbatim>\<open>db/t4.c\<close>, \<^verbatim>\<open>lib/lockreg.c\<close>. \<open>Apue_Db\<close> has every function of the database on the bytes of its two
    files. \<open>Db_Layout\<close> and \<open>Db_Bytes\<close> relate bytes to tables of pointers and slots, \<open>Db_Chains\<close> and \<open>Db_Inv\<close> to hash
    chains, a free list and the map they stand for; \<open>Db_Search\<close>, \<open>Db_Updates\<close>, \<open>Db_Ops\<close>, \<open>Db_Store\<close> and \<open>Db_Scan\<close> treat the operations. \<open>Kv_Store\<close> is the
    contract of a key-value store as a locale, with what its clients may conclude; \<open>Db_Spec\<close> interprets it on the library and has the properties:
    any run of calls answers as a map does (C1), each operation on every branch (C2 to C4), sequential reading (C5),
    closing and opening again (C6), and keys that are too long. The test program is treated as a client.

  \<^item> \<^verbatim>\<open>exercises/fmemopen.c\<close>. \<open>Byte_Stream\<close> is the contract of a seekable stream, provided by open files and by the
    memory streams of \<open>Memstream\<close>: reading back (C10), staying in the buffer (C11).

  \<^item> \<^verbatim>\<open>lib/sendfd.c\<close>, \<^verbatim>\<open>senderr.c\<close>, \<^verbatim>\<open>recvfd.c\<close>, \<^verbatim>\<open>bufargs.c\<close> in \<open>Fd_Passing\<close>: the protocol that passes descriptors, for any cut of
    the bytes into pieces and with the buffer of the receiver; the one cut that \<^verbatim>\<open>recv_fd\<close> does not survive is part of the statement (C15).
    \<^verbatim>\<open>lib/servlisten.c\<close>, \<^verbatim>\<open>cliconn.c\<close>, \<^verbatim>\<open>servaccept.c\<close>, \<^verbatim>\<open>sockets/initsrv2.c\<close> in \<open>Unix_Sockets\<close>: connections, and that the server learns who its client is (C9).
    \<^verbatim>\<open>ipc2/opend\<close> and \<^verbatim>\<open>ipc2/open\<close>. \<open>Opend\<close>: requests, answers, the table of clients. \<open>Opend_Loops\<close>: the rounds of the
    two main loops on the entries in use (C18). \<open>Opend_Poll\<close>: the array of the loop over \<^verbatim>\<open>poll\<close>, which grows and is packed, as an implementation of these rounds, and any number of them (C17).
    \<open>Opend_Main\<close>: the start of the server, and the client program with server and protocol, where requests longer than the server's buffer are cut off (C16). \<open>Opend_Fe\<close>: the version that the client starts (\<^verbatim>\<open>ipc2/opend.fe\<close>, \<^verbatim>\<open>ipc2/open.fe\<close>);
    on the same requests it gives the same answers.

  \<^item> \<^verbatim>\<open>lib/semaph.c\<close> in \<open>Semaph\<close> and \<open>Semaph_Safe\<close>: processes that interleave after every kernel call and may end at
    any time; an invariant by induction over all reachable states (C20). Two races of the code are runs of the same model.

  \<^item> \<^verbatim>\<open>threads/rwlock.c\<close> and the job list of \<^verbatim>\<open>printer/printd.c\<close> in \<open>Job_Queue\<close>: both provide one contract, that of a list; a lock that cannot be made or taken is a branch (C21).
    \<^verbatim>\<open>lib/readn.c\<close>, \<^verbatim>\<open>lib/writen.c\<close> and the timed reads of \<^verbatim>\<open>printer/util.c\<close> in \<open>Netio\<close>: what is read and written, for every behaviour of the kernel (C23).

  \<^item> \<^verbatim>\<open>printer/print.c\<close> and \<^verbatim>\<open>printer/printd.c\<close>. \<open>Print_Wire\<close>: structures as bytes in network order, the client. \<open>Print_Ipp\<close>: the headers
    sent to the printer, read back by an independent decoder; names without a null byte are read past the end of their fields (C24). \<open>Print_Workers\<close>: the list of threads. \<open>Print_Status\<close>: the
    answer of the printer. \<open>Print_Daemon\<close>: a submitted file from client to queue (C29), rejected jobs (C30).
    \<open>Print_Recovery\<close>: job numbers, the file they are kept in, and the queue from the spool directory. \<open>Print_Rounds\<close>: what a round of the thread that prints can do, with
    every failure (C35), and that it prints when there is none (C36); what it sends is read from the data file of the job.
    \<open>Print_Threads\<close>: the client threads, the thread that prints and the signal in any interleaving, with the bytes that were sent for each job (C19); run without interruption its steps are the functions of
    \<open>Print_Daemon\<close>. \<open>Print_Main\<close>: the main function up to its loop that accepts connections; a daemon started after one that died anywhere has all its jobs (C33).
    \<open>Print_Config\<close> and \<open>Print_Client\<close>: the configuration file (\<^verbatim>\<open>printer/util.c\<close>), connecting with growing pauses (\<^verbatim>\<open>sockets/clconn2.c\<close>) and the
    command that submits a file, up to the call of \<^verbatim>\<open>submit_file\<close>.

  \<^item> Processes with descriptors, sessions and terminals: \<open>Processes\<close> is the state they share. \<^verbatim>\<open>lib/ptyopen.c\<close>, \<^verbatim>\<open>ptyfork.c\<close>, \<^verbatim>\<open>spipe.c\<close> and \<^verbatim>\<open>pty/driver.c\<close> in \<open>Pty\<close>; \<^verbatim>\<open>pty/loop.c\<close> as
    two processes in \<open>Pty_Loop\<close>, whose reads block until there is something to read: when they stop, and where (C28); \<^verbatim>\<open>pty/main.c\<close> in \<open>Pty_Main\<close> (C13). \<^verbatim>\<open>lib/ttymodes.c\<close> in \<open>Tty_Modes\<close>: when settings come back, and what a reset of another terminal does to both (C40). \<^verbatim>\<open>lib/daemonize.c\<close>, \<^verbatim>\<open>daemons/single.c\<close> and
    \<^verbatim>\<open>daemons/reread.c\<close> in \<open>Daemon\<close> (C12). \<open>Net_Process\<close>: the sockets of such a process.
    \<open>Ruptime\<close>: the servers \<^verbatim>\<open>sockets/ruptimed.c\<close>, \<^verbatim>\<open>ruptimed-fd.c\<close>, \<^verbatim>\<open>ruptimed-dg.c\<close> and their clients, built from \<^verbatim>\<open>daemonize\<close>, \<^verbatim>\<open>initserver\<close> and \<^verbatim>\<open>connect_retry\<close>; the client prints
    what the command wrote.

  \<^item> \<^verbatim>\<open>lib/tellwait.c\<close>, \<^verbatim>\<open>ipc1/tellwait.c\<close> in \<open>Tell_Wait\<close>: two contracts for processes that wait for each other, one extending the other. Pipes provide both, signals the first.
    Two programs rely on them: output in order (C25), taking turns (C32). That the second one can wait for ever with the signals of the library is a run of the same model.

  \<^item> \<^verbatim>\<open>signals/system.c\<close>, \<^verbatim>\<open>lib/sleep.c\<close>, \<^verbatim>\<open>signals/abort.c\<close> in \<open>Signals\<close>, with signals and seconds between any two calls: \<^verbatim>\<open>system\<close> leaves no trace in the caller (C22), \<^verbatim>\<open>sleep\<close> consumes
    exactly the events up to its end and puts everything back (C8), \<^verbatim>\<open>abort\<close> ends the process.

  \<^item> \<^verbatim>\<open>advio/rot13a.c\<close>, \<^verbatim>\<open>advio/rot13c2.c.in\<close> in \<open>Rot13\<close>: copying with asynchronous I/O is plain copying (C7).

  \<^item> \<^verbatim>\<open>termios/ttyname.c\<close> in \<open>Ttyname\<close>: the search for the name of a terminal (C31).

  \<^item> \<^verbatim>\<open>lib/popen.c\<close>, \<^verbatim>\<open>lib/openmax.c\<close> in \<open>Popen\<close> (C26); \<^verbatim>\<open>filedir/ftw8.c\<close>, \<^verbatim>\<open>lib/pathalloc.c\<close> in \<open>Ftw\<close> (C34).

  \<^item> \<^verbatim>\<open>threads/mutex1.c\<close>, \<^verbatim>\<open>mutex2.c\<close>, \<^verbatim>\<open>mutex3.c\<close> in \<open>Foo_Objects\<close>: reference counts up to \<^verbatim>\<open>INT_MAX\<close> under any interleaving of the critical sections (C37), and one
    contract for all three (C38). \<^verbatim>\<open>threads/barrier.c\<close> in \<open>Barrier_Sort\<close>: main thread, sorting threads and barrier as a step relation, \<^verbatim>\<open>heapsort\<close> an argument that may fail (C39). \<open>Thread_Control\<close>: the versions of \<^verbatim>\<open>getenv\<close> and a contract for two of them,
    \<^verbatim>\<open>threadctl/timeout.c\<close>, and the queue of \<^verbatim>\<open>threads/condvar.c\<close>, where no message is lost or stuck.
    \<^verbatim>\<open>ipc2/pollmsg.c\<close>, \<^verbatim>\<open>exercises/pollmsg2.c\<close> in \<open>Poll_Messages\<close>: threads that hand messages of several queues to a loop over \<^verbatim>\<open>poll\<close>, with one contract for both versions; the first prints
    everything in order in any interleaving (C27), the second does when no wait on a condition variable ends without a signal, which POSIX does not promise.

  \<^bold>\<open>Fuel.\<close> A search along pointers (database chains, free list, hash chains of objects, job queue) takes a number of rounds as an
  argument. The database passes the size of the index file, which is more than the number of records in it; for the others the
  theorems give a number from which on the result is the same. On well-formed states no search runs out (part of the
  theorems); where a loop of the code does not end, a theorem says that it runs out for every number. The walk of \<^verbatim>\<open>ftw8.c\<close> takes the depth of the hierarchy.

  \<^bold>\<open>Integers.\<close> Flags are words of 32 bits; numbers that the code cuts to \<^verbatim>\<open>int\<close> are cut in the model (seeking in memory
  streams, job numbers, numbers in network order). Sizes are natural numbers, with the bound of each buffer checked at every write. Reference counts are integers that have no
  defined value outside of the range of \<^verbatim>\<open>int\<close>.

  \<^bold>\<open>Not modelled.\<close> Everything whose behaviour is that of a single system
  call: most of the example programs by chapter. The copies under \<^verbatim>\<open>src/my-src\<close>
  are left out in favour of the originals.
\<close>

end
